(* ===== verification/Prelude.thy ===== *)
theory Prelude
  imports Main "HOL-Library.Word" "HOL-Library.Monad_Syntax"
begin

text \<open>
  Shared vocabulary of the alpha-OS development: machine integers and the byte-addressed
  memory of the i386 target, the status codes of \<^verbatim>\<open>src/src/status.h\<close>, the
  configuration constants of \<^verbatim>\<open>src/src/config.h\<close>, C's truncating division, and the
  lemmas on address ranges, 32-bit loads and stores, and lists that the components use.
  The collection \<open>os_defs\<close> gathers the constants that proofs unfold freely, \<open>mem_simps\<close>
  the rewrite rules that read a byte after a write.
\<close>

unbundle bit_operations_syntax

named_theorems os_defs \<open>configuration constants and status codes\<close>
named_theorems mem_simps \<open>reads of memory after writes\<close>

section \<open>Machine types\<close>

text \<open>
  Pointers are 32-bit words; memory is the byte-addressed physical memory of the machine. The
  kernel runs with an identity mapping, so dereferencing a wild pointer reads or writes some
  byte rather than trapping: a total function is the faithful model. A C \<open>int\<close> is an
  \<^typ>\<open>int\<close>; \<open>s32\<close> is the conversion of an unsigned word, or of an out-of-range result,
  to it.
\<close>

type_synonym u8 = "8 word"
type_synonym u16 = "16 word"
type_synonym u32 = "32 word"
type_synonym addr = u32
type_synonym mem = "addr \<Rightarrow> u8"

abbreviation NULL :: addr where "NULL \<equiv> 0"

definition s32 :: "int \<Rightarrow> int" where
  "s32 i = sint (word_of_int i :: u32)"

text \<open>C's integer division and remainder round towards zero.\<close>

definition cdiv :: "int \<Rightarrow> int \<Rightarrow> int" where
  "cdiv a b = sgn a * sgn b * (\<bar>a\<bar> div \<bar>b\<bar>)"

definition cmod :: "int \<Rightarrow> int \<Rightarrow> int" where
  "cmod a b = a - cdiv a b * b"

text \<open>A string literal as the bytes of the program image, without its terminator.\<close>

definition ascii :: "string \<Rightarrow> u8 list" where
  "ascii s = map of_char s"

section \<open>Status codes and configuration\<close>

definition EIO :: int where [os_defs]: "EIO = 1"
definition EINVARG :: int where [os_defs]: "EINVARG = 2"
definition ENOMEM :: int where [os_defs]: "ENOMEM = 3"
definition EBADPATH :: int where [os_defs]: "EBADPATH = 4"
definition EFSNOTUS :: int where [os_defs]: "EFSNOTUS = 5"
definition ERDONLY :: int where [os_defs]: "ERDONLY = 6"
definition EUNIMP :: int where [os_defs]: "EUNIMP = 7"
definition EISTKN :: int where [os_defs]: "EISTKN = 8"
definition EINFORMAT :: int where [os_defs]: "EINFORMAT = 9"

definition ALPHAOS_HEAP_SIZE_BYTES :: u32 where [os_defs]: "ALPHAOS_HEAP_SIZE_BYTES = 104857600"
definition ALPHAOS_HEAP_BLOCK_SIZE :: u32 where [os_defs]: "ALPHAOS_HEAP_BLOCK_SIZE = 4096"
definition ALPHAOS_HEAP_ADDRESS :: addr where [os_defs]: "ALPHAOS_HEAP_ADDRESS = 0x01000000"
definition ALPHAOS_HEAP_TABLE_ADDRESS :: addr where [os_defs]: "ALPHAOS_HEAP_TABLE_ADDRESS = 0x7E00"
definition ALPHAOS_SECTOR_SIZE :: int where [os_defs]: "ALPHAOS_SECTOR_SIZE = 512"
definition ALPHAOS_MAX_PATH :: int where [os_defs]: "ALPHAOS_MAX_PATH = 108"

section \<open>Arithmetic helpers\<close>

lemma cdiv_nonneg [simp]: "0 \<le> a \<Longrightarrow> 0 < b \<Longrightarrow> cdiv a b = a div b"
  by (cases "a = 0") (auto simp: cdiv_def)

lemma cmod_nonneg [simp]: "0 \<le> a \<Longrightarrow> 0 < b \<Longrightarrow> cmod a b = a mod b"
  by (simp add: cmod_def minus_div_mult_eq_mod)

lemma s32_id: "- (2 ^ 31) \<le> i \<Longrightarrow> i < 2 ^ 31 \<Longrightarrow> s32 i = i"
  unfolding s32_def by transfer (simp add: signed_take_bit_int_eq_self)

lemma sint_small: "unat (x::u32) < 2 ^ 31 \<Longrightarrow> sint x = int (unat x)"
proof -
  assume "unat x < 2 ^ 31"
  then have "uint x < 2 ^ 31"
    unfolding uint_nat by (simp only: of_nat_less_numeral_power_cancel_iff)
  moreover have "- (2 ^ 31) \<le> uint x"
    by (rule order_trans [OF _ uint_ge_0]) simp
  ultimately have "- (2 ^ 31) \<le> uint x" "uint x < 2 ^ 31" by simp_all
  then show ?thesis using s32_id [of "uint x"] by (simp add: s32_def)
qed

section \<open>Address ranges\<close>

text \<open>
  \<open>in_range a n x\<close>: the address \<open>x\<close> is one of the \<open>n\<close> bytes from \<open>a\<close> on (addresses wrap at
  $2^{32}$). \<open>disjoint_ranges\<close> is the separation of two buffers.
\<close>

definition in_range :: "addr \<Rightarrow> nat \<Rightarrow> addr \<Rightarrow> bool" where
  "in_range a n x \<longleftrightarrow> unat (x - a) < n"

definition disjoint_ranges :: "addr \<Rightarrow> nat \<Rightarrow> addr \<Rightarrow> nat \<Rightarrow> bool" where
  "disjoint_ranges a n b k \<longleftrightarrow> (\<forall>x. in_range a n x \<longrightarrow> \<not> in_range b k x)"

lemma unat_diff_Suc:
  assumes "x \<noteq> (a::addr)" shows "unat (x - a) = Suc (unat (x - (a + 1)))"
proof -
  have "x - a = (x - (a + 1)) + 1" by simp
  moreover have "x - a \<noteq> 0" using assms by simp
  ultimately show ?thesis by (metis unatSuc add.commute)
qed

lemma unat_max_word: "unat (- 1 :: addr) = 2 ^ 32 - 1"
  by transfer (simp add: take_bit_minus_one_eq_mask mask_eq_exp_minus_1)

lemma unat_u32_bound: "unat (x :: u32) < 2 ^ 32"
  using unsigned_less [of x] by simp

lemma uint_less_unat: "int n < uint (w :: u32) \<longleftrightarrow> n < unat w" "uint w < int n \<longleftrightarrow> unat w < n"
  by (simp_all only: uint_nat of_nat_less_iff)

lemma of_nat_u32_inject: "i < 2 ^ 32 \<Longrightarrow> j < 2 ^ 32 \<Longrightarrow> (of_nat i :: u32) = of_nat j \<longleftrightarrow> i = j"
  by (simp add: word_of_nat_eq_iff take_bit_nat_eq_self)

lemma add_of_nat_u32_inject:
  "i < 2 ^ 32 \<Longrightarrow> j < 2 ^ 32 \<Longrightarrow> (a :: u32) + of_nat i = a + of_nat j \<longleftrightarrow> i = j"
  by (simp only: add_left_cancel of_nat_u32_inject)

lemma in_range_0 [simp]: "\<not> in_range a 0 x"
  by (simp add: in_range_def)

lemma in_range_Suc: "in_range a (Suc n) x \<longleftrightarrow> x = a \<or> in_range (a + 1) n x"
  by (cases "x = a") (simp_all add: in_range_def unat_diff_Suc)

lemma in_range_nth [simp]: "i < n \<Longrightarrow> n \<le> 2 ^ 32 \<Longrightarrow> in_range a n (a + of_nat i)"
  by (simp add: in_range_def unat_of_nat take_bit_nat_def mod_less)

lemma in_range_mono: "in_range a k x \<Longrightarrow> k \<le> n \<Longrightarrow> in_range a n x"
  by (simp add: in_range_def)

lemma in_rangeE:
  assumes "in_range a n x" obtains i where "i < n" "x = a + of_nat i"
  using assms by (auto simp: in_range_def intro!: that [of "unat (x - a)"])

lemma in_range_tail: "in_range (a + 1) n x \<Longrightarrow> in_range a (Suc n) x"
  by (simp add: in_range_Suc)

lemma in_range_sub:
  "in_range (a + of_nat i) n x \<Longrightarrow> i + n \<le> N \<Longrightarrow> N \<le> 2 ^ 32 \<Longrightarrow> in_range a N x"
proof -
  assume a: "in_range (a + of_nat i) n x" "i + n \<le> N" "N \<le> 2 ^ 32"
  then obtain j where "j < n" "x = a + of_nat (i + j)" by (elim in_rangeE) (simp add: add.assoc)
  with a(2,3) show ?thesis using in_range_nth [of "i + j" N a] by simp
qed


lemma disjoint_ranges_sym: "disjoint_ranges a n b k \<Longrightarrow> disjoint_ranges b k a n"
  by (auto simp: disjoint_ranges_def)

lemma disjoint_rangesD:
  "disjoint_ranges a n b k \<Longrightarrow> in_range a n x \<Longrightarrow> \<not> in_range b k x"
  by (simp add: disjoint_ranges_def)

lemma disjoint_ranges_mono:
  "disjoint_ranges a n b k \<Longrightarrow> n' \<le> n \<Longrightarrow> k' \<le> k \<Longrightarrow> disjoint_ranges a n' b k'"
  unfolding disjoint_ranges_def by (meson in_range_mono)

text \<open>Two buffers that lie in order without wrapping are disjoint.\<close>

lemma in_range_unat:
  "unat a + n \<le> 2 ^ 32 \<Longrightarrow> in_range a n x \<longleftrightarrow> unat a \<le> unat x \<and> unat x < unat a + n"
proof -
  assume n: "unat a + n \<le> 2 ^ 32"
  show ?thesis
  proof (cases "a \<le> x")
    case True
    then have "unat (x - a) = unat x - unat a" and "unat a \<le> unat x"
      by (simp_all add: unat_sub word_le_nat_alt)
    then show ?thesis by (auto simp: in_range_def)
  next
    case False
    then have lt: "unat x < unat a" by (simp add: word_le_nat_alt)
    then have "unat (x - a) = 2 ^ 32 + unat x - unat a"
      by (simp add: unat_sub_if_size word_size)
    then show ?thesis using n lt by (auto simp: in_range_def)
  qed
qed

lemma disjoint_ranges_unat:
  assumes "unat a + n \<le> unat b" "unat b + k \<le> 2 ^ 32"
  shows "disjoint_ranges a n b k"
  using assms by (auto simp: disjoint_ranges_def in_range_unat)

section \<open>Words in memory\<close>

text \<open>The i386 is little-endian.\<close>

definition load16 :: "mem \<Rightarrow> addr \<Rightarrow> u16" where
  "load16 m a = ucast (m a) OR push_bit 8 (ucast (m (a + 1)))"

definition load32 :: "mem \<Rightarrow> addr \<Rightarrow> u32" where
  "load32 m a = ucast (m a) OR push_bit 8 (ucast (m (a + 1)))
     OR push_bit 16 (ucast (m (a + 2))) OR push_bit 24 (ucast (m (a + 3)))"

definition store32 :: "mem \<Rightarrow> addr \<Rightarrow> u32 \<Rightarrow> mem" where
  "store32 m a v = m(a := ucast v, a + 1 := ucast (drop_bit 8 v),
     a + 2 := ucast (drop_bit 16 v), a + 3 := ucast (drop_bit 24 v))"

definition store16 :: "mem \<Rightarrow> addr \<Rightarrow> u16 \<Rightarrow> mem" where
  "store16 m a v = m(a := ucast v, a + 1 := ucast (drop_bit 8 v))"

lemma bytes_of_word32:
  "ucast (ucast v :: u8) OR push_bit 8 (ucast (ucast (drop_bit 8 v) :: u8))
     OR push_bit 16 (ucast (ucast (drop_bit 16 v) :: u8))
     OR push_bit 24 (ucast (ucast (drop_bit 24 v) :: u8)) = (v :: u32)"
proof (rule bit_word_eqI)
  fix n assume "n < LENGTH(32)"
  then consider "n < 8" | "8 \<le> n" "n < 16" | "16 \<le> n" "n < 24" | "24 \<le> n" "n < 32"
    by fastforce
  then show "bit (ucast (ucast v :: u8) OR push_bit 8 (ucast (ucast (drop_bit 8 v) :: u8))
     OR push_bit 16 (ucast (ucast (drop_bit 16 v) :: u8))
     OR push_bit 24 (ucast (ucast (drop_bit 24 v) :: u8)) :: u32) n = bit v n"
    by cases (auto simp: bit_simps)
qed

lemma bytes_of_word16:
  "ucast (ucast v :: u8) OR push_bit 8 (ucast (ucast (drop_bit 8 v) :: u8)) = (v :: u16)"
proof (rule bit_word_eqI)
  fix n assume "n < LENGTH(16)"
  then consider "n < 8" | "8 \<le> n" "n < 16" by fastforce
  then show "bit (ucast (ucast v :: u8) OR push_bit 8 (ucast (ucast (drop_bit 8 v) :: u8)) :: u16) n = bit v n"
    by cases (auto simp: bit_simps)
qed

lemma load16_store16 [simp]: "load16 (store16 m a v) a = v"
  using bytes_of_word16 [of v] by (simp add: load16_def store16_def)

lemma in_range_2: "in_range a 2 x \<longleftrightarrow> x = a \<or> x = a + 1"
  by (simp add: eval_nat_numeral in_range_Suc)

lemma store16_other: "\<not> in_range a 2 x \<Longrightarrow> store16 m a v x = m x"
  by (simp add: in_range_2 store16_def)

lemma load16_cong: "(\<And>x. in_range a 2 x \<Longrightarrow> m x = m' x) \<Longrightarrow> load16 m a = load16 m' a"
  by (simp add: load16_def in_range_2)

lemma load32_store32 [simp]: "load32 (store32 m a v) a = v"
  using bytes_of_word32 [of v] by (simp add: load32_def store32_def)

lemma in_range_4: "in_range a 4 x \<longleftrightarrow> x = a \<or> x = a + 1 \<or> x = a + 2 \<or> x = a + 3"
  by (simp add: eval_nat_numeral in_range_Suc add.assoc)

lemma store32_other: "\<not> in_range a 4 x \<Longrightarrow> store32 m a v x = m x"
  by (simp add: in_range_4 store32_def)

lemma load32_cong: "(\<And>x. in_range a 4 x \<Longrightarrow> m x = m' x) \<Longrightarrow> load32 m a = load32 m' a"
  by (simp add: load32_def in_range_4)

lemma load32_store32_disjoint:
  "disjoint_ranges a 4 b 4 \<Longrightarrow> load32 (store32 m b v) a = load32 m a"
  by (rule load32_cong) (simp add: store32_other disjoint_ranges_def)

lemma load32_zero: "(\<And>x. in_range a 4 x \<Longrightarrow> m x = 0) \<Longrightarrow> load32 m a = 0"
  by (simp add: load32_def in_range_4)

lemma load32_upd_other: "\<not> in_range a 4 x \<Longrightarrow> load32 (m(x := v)) a = load32 m a"
  by (rule load32_cong) auto

lemma store32_same: "store32 m a (load32 m a) x = m x"
proof -
  have "ucast (load32 m a) = m a" "ucast (drop_bit 8 (load32 m a)) = m (a + 1)"
    "ucast (drop_bit 16 (load32 m a)) = m (a + 2)" "ucast (drop_bit 24 (load32 m a)) = m (a + 3)"
    by (rule bit_word_eqI; force simp: load32_def bit_simps dest: bit_imp_le_length)+
  then show ?thesis by (simp add: store32_def)
qed

text \<open>The bytes of a buffer as a list, and a list written into a buffer.\<close>

definition bytes_at :: "mem \<Rightarrow> addr \<Rightarrow> nat \<Rightarrow> u8 list" where
  "bytes_at m a n = map (\<lambda>i. m (a + of_nat i)) [0..<n]"

fun write_bytes :: "mem \<Rightarrow> addr \<Rightarrow> u8 list \<Rightarrow> mem" where
  "write_bytes m a [] = m"
| "write_bytes m a (b # bs) = write_bytes (m(a := b)) (a + 1) bs"

lemma length_bytes_at [simp]: "length (bytes_at m a n) = n"
  by (simp add: bytes_at_def)

lemma nth_bytes_at [simp]: "i < n \<Longrightarrow> bytes_at m a n ! i = m (a + of_nat i)"
  by (simp add: bytes_at_def)

lemma bytes_at_Suc: "bytes_at m a (Suc n) = m a # bytes_at m (a + 1) n"
  by (rule nth_equalityI) (auto simp: nth_Cons' algebra_simps gr0_conv_Suc)

lemma bytes_at_cong: "(\<And>x. in_range a n x \<Longrightarrow> m x = m' x) \<Longrightarrow> n \<le> 2 ^ 32 \<Longrightarrow>
    bytes_at m a n = bytes_at m' a n"
  by (rule nth_equalityI) auto

lemma write_bytes_apply [mem_simps]:
  "length bs \<le> 2 ^ 32 \<Longrightarrow>
   write_bytes m a bs x = (if in_range a (length bs) x then bs ! unat (x - a) else m x)"
proof (induction bs arbitrary: m a)
  case Nil
  then show ?case by simp
next
  case (Cons b bs)
  have "\<not> in_range (a + 1) (length bs) a"
    using Cons.prems by (simp add: in_range_def unat_max_word)
  then show ?case
    using Cons by (cases "x = a") (auto simp: in_range_Suc unat_diff_Suc)
qed

lemma write_bytes_nth: "j < length bs \<Longrightarrow> length bs \<le> 2 ^ 32 \<Longrightarrow> write_bytes m a bs (a + of_nat j) = bs ! j"
  by (simp add: write_bytes_apply unat_of_nat take_bit_nat_def)

lemma bytes_at_write_bytes: "length bs \<le> 2 ^ 32 \<Longrightarrow> bytes_at (write_bytes m a bs) a (length bs) = bs"
  by (rule nth_equalityI) (auto simp: write_bytes_apply unat_of_nat take_bit_nat_def)


lemma unat_diff_of_nat:
  assumes "i < 2 ^ 32" "s < 2 ^ 32"
  shows "unat (of_nat i - of_nat s :: addr) = (if s \<le> i then i - s else i + 2 ^ 32 - s)"
proof -
  have "unat (of_nat i :: addr) = i" "unat (of_nat s :: addr) = s"
    using assms by (simp_all add: unat_of_nat take_bit_nat_eq_self)
  then show ?thesis by (simp only: unat_sub_if_size word_size) simp
qed

lemma in_range_offset:
  assumes "i < 2 ^ 32" "s + k \<le> 2 ^ 32"
  shows "in_range (a + of_nat s) k (a + of_nat i) \<longleftrightarrow> s \<le> i \<and> i < s + k"
proof (cases "k = 0")
  case False
  then have "s < 2 ^ 32" using assms(2) by simp
  then show ?thesis using assms by (auto simp: in_range_def unat_diff_of_nat)
qed simp

text \<open>Overwriting part of a buffer replaces that part of its list of bytes.\<close>

lemma bytes_at_write_inside:
  assumes "s + length bs \<le> n" "n \<le> 2 ^ 32"
  shows "bytes_at (write_bytes m (a + of_nat s) bs) a n =
    take s (bytes_at m a n) @ bs @ drop (s + length bs) (bytes_at m a n)" (is "?l = ?r")
proof (rule nth_equalityI)
  show "length ?l = length ?r" using assms by simp
  fix i assume "i < length ?l"
  then have i: "i < n" "i < 2 ^ 32" using assms by simp_all
  show "?l ! i = ?r ! i"
  proof (cases "s \<le> i \<and> i < s + length bs")
    case True
    then have "unat (of_nat i - of_nat s :: addr) = i - s"
      using i by (subst unat_diff_of_nat) auto
    with True i assms show ?thesis
      by (simp add: write_bytes_apply in_range_offset nth_append less_diff_conv2)
  next
    case False
    with i assms have "?l ! i = m (a + of_nat i)"
      by (auto simp: write_bytes_apply in_range_offset)
    with False i assms show ?thesis by (auto simp: nth_append)
  qed
qed

lemma write_bytes_outside:
  assumes "s + length bs \<le> n" "n \<le> 2 ^ 32" "\<not> in_range a n x"
  shows "write_bytes m (a + of_nat s) bs x = m x"
proof -
  have "\<not> in_range (a + of_nat s) (length bs) x"
  proof
    assume "in_range (a + of_nat s) (length bs) x"
    then obtain j where "j < length bs" "x = a + of_nat s + of_nat j" by (rule in_rangeE)
    then have "in_range a n (a + of_nat (s + j))"
      using assms(1,2) by (intro in_range_nth) auto
    with assms(3) \<open>x = _\<close> show False by (simp add: add.assoc)
  qed
  then show ?thesis using assms(1,2) by (simp add: write_bytes_apply)
qed

section \<open>Arrays of words\<close>

text \<open>\<open>p[i]\<close> for \<open>uint32_t *p\<close>.\<close>

definition word_at :: "mem \<Rightarrow> addr \<Rightarrow> u32 \<Rightarrow> u32" where
  "word_at m p i = load32 m (p + 4 * i)"

definition set_word :: "mem \<Rightarrow> addr \<Rightarrow> u32 \<Rightarrow> u32 \<Rightarrow> mem" where
  "set_word m p i v = store32 m (p + 4 * i) v"

lemma word_slot:
  assumes "j < 1024" shows "in_range (p + 4 * of_nat j) 4 x \<Longrightarrow> in_range p 4096 x"
proof -
  assume "in_range (p + 4 * of_nat j) 4 x"
  then obtain k where "k < 4" "x = p + of_nat (4 * j + k)"
    by (elim in_rangeE) (simp add: add.assoc)
  then show ?thesis using assms in_range_nth [of "4 * j + k" 4096 p] by simp
qed

lemma word_slots_disjoint:
  assumes "i < 1024" "j < 1024" "i \<noteq> j"
  shows "disjoint_ranges (p + 4 * of_nat i) 4 (p + 4 * of_nat j) 4"
  unfolding disjoint_ranges_def
proof (intro allI impI notI)
  fix x assume "in_range (p + 4 * of_nat i) 4 x" "in_range (p + 4 * of_nat j) 4 x"
  then obtain k l where "k < 4" "x = p + of_nat (4 * i + k)" "l < 4" "x = p + of_nat (4 * j + l)"
    by (elim in_rangeE) (simp add: add.assoc)
  then have "4 * i + k = 4 * j + l"
    using assms add_of_nat_u32_inject [of "4 * i + k" "4 * j + l" p] by simp
  with \<open>k < 4\<close> \<open>l < 4\<close> \<open>i \<noteq> j\<close> show False by presburger
qed

lemma word_at_cong:
  assumes "\<And>x. in_range p 4096 x \<Longrightarrow> m x = m' x" "j < 1024"
  shows "word_at m p (of_nat j) = word_at m' p (of_nat j)"
  unfolding word_at_def using assms word_slot by (intro load32_cong) blast

lemma word_at_set_word:
  assumes "i < 1024" "j < 1024"
  shows "word_at (set_word m p (of_nat i) v) p (of_nat j) = (if i = j then v else word_at m p (of_nat j))"
  using assms by (simp add: word_at_def set_word_def load32_store32_disjoint word_slots_disjoint)

lemma set_word_outside: "i < 1024 \<Longrightarrow> \<not> in_range p 4096 x \<Longrightarrow> set_word m p (of_nat i) v x = m x"
  unfolding set_word_def using word_slot store32_other by blast

section \<open>Results of state-passing code\<close>

text \<open>
  \<open>always P m\<close>: whenever \<open>m\<close> returns, the state it ends in satisfies \<open>P\<close>; \<open>alwaysP\<close> is the
  version for code that always returns. The collection \<open>always_intro\<close> holds the rules, one per way
  the models compose code, and what is proved of single operations.
\<close>

named_theorems always_intro \<open>rules for always and alwaysP\<close>

definition always :: "('s \<Rightarrow> bool) \<Rightarrow> ('r \<times> 's) option \<Rightarrow> bool" where
  "always P m \<longleftrightarrow> (case m of None \<Rightarrow> True | Some (r, s) \<Rightarrow> P s)"

definition alwaysP :: "('s \<Rightarrow> bool) \<Rightarrow> 'r \<times> 's \<Rightarrow> bool" where
  "alwaysP P p \<longleftrightarrow> P (snd p)"

lemma always_return [always_intro]:
  "always P None" "alwaysP P p \<Longrightarrow> always P (Some p)" "P s \<Longrightarrow> alwaysP P (r, s)"
  by (auto simp: always_def alwaysP_def)

lemma always_if [always_intro]:
  "(c \<Longrightarrow> always P m) \<Longrightarrow> (\<not> c \<Longrightarrow> always P n) \<Longrightarrow> always P (if c then m else n)"
  "(c \<Longrightarrow> alwaysP P p) \<Longrightarrow> (\<not> c \<Longrightarrow> alwaysP P q) \<Longrightarrow> alwaysP P (if c then p else q)"
  by auto

lemma always_bind [always_intro]:
  "always P m \<Longrightarrow> (\<And>r s. P s \<Longrightarrow> always P (f r s)) \<Longrightarrow> always P (m \<bind> (\<lambda>(r, s). f r s))"
  by (cases m) (auto simp: always_def)

lemma always_bind_buffer [always_intro]:
  "always (\<lambda>(b, s). P s) m \<Longrightarrow> (\<And>r b s. P s \<Longrightarrow> always P (f r b s)) \<Longrightarrow>
   always P (m \<bind> (\<lambda>(r, b, s). f r b s))"
  by (cases m) (auto simp: always_def)

lemma always_case [always_intro]:
  "alwaysP P p \<Longrightarrow> (\<And>r s. P s \<Longrightarrow> always P (f r s)) \<Longrightarrow> always P (case p of (r, s) \<Rightarrow> f r s)"
  "alwaysP P p \<Longrightarrow> (\<And>r s. P s \<Longrightarrow> alwaysP P (g r s)) \<Longrightarrow> alwaysP P (case p of (r, s) \<Rightarrow> g r s)"
  by (auto simp: alwaysP_def split: prod.splits)

lemma always_bind_pure:
  "(\<And>x. always P (f x)) \<Longrightarrow> always P (m \<bind> f)"
  by (cases m) (simp_all add: always_def)

lemma always_bind_state:
  "(\<And>s. m = Some s \<Longrightarrow> always P (f s)) \<Longrightarrow> always P (m \<bind> f)"
  by (cases m) (simp_all add: always_def)

lemma alwaysI: "(\<And>y. m = Some y \<Longrightarrow> P (snd y)) \<Longrightarrow> always P m"
  by (auto simp: always_def split: option.split)

lemma alwaysD: "always P m \<Longrightarrow> m = Some y \<Longrightarrow> P (snd y)"
  by (auto simp: always_def)

end
