(* ===== verification/CString.thy ===== *)
theory CString
  imports Prelude
begin

text \<open>
  The freestanding C library of the kernel: \<^verbatim>\<open>src/src/memory/memory.c\<close> (\<open>memset\<close>,
  \<open>memcmp\<close>, \<open>memcpy\<close>) and \<^verbatim>\<open>src/src/string/string.c\<close>. The loops run over the byte
  memory exactly as the C pointers do, so that overlapping buffers behave as in the code. The
  routines that compare take one memory per operand, because an operand may be a string
  literal or an array of the caller's frame (\<open>buffer\<close>) rather than an address. Loops that
  stop only at a terminator are partial: \<open>None\<close> means that they never return.
\<close>

section \<open>memory.c\<close>

primrec memset :: "mem \<Rightarrow> addr \<Rightarrow> int \<Rightarrow> nat \<Rightarrow> mem" where
  "memset m p value 0 = m"
| "memset m p value (Suc sz) = memset (m(p := word_of_int value)) (p + 1) value sz"

primrec memcmp :: "mem \<Rightarrow> addr \<Rightarrow> mem \<Rightarrow> addr \<Rightarrow> nat \<Rightarrow> int" where
  "memcmp m1 p1 m2 p2 0 = 0"
| "memcmp m1 p1 m2 p2 (Suc sz) =
     (if m1 p1 \<noteq> m2 p2 then (if sint (m1 (p1 - 1)) < sint (m2 (p2 - 1)) then - 1 else 1)
      else memcmp m1 (p1 + 1) m2 (p2 + 1) sz)"

primrec memcpy :: "mem \<Rightarrow> addr \<Rightarrow> addr \<Rightarrow> nat \<Rightarrow> mem" where
  "memcpy m d s 0 = m"
| "memcpy m d s (Suc sz) = memcpy (m(d := m s)) (d + 1) (s + 1) sz"

section \<open>string.c\<close>

definition buffer :: "u8 list \<Rightarrow> mem" where
  "buffer xs = (\<lambda>a. if unat a < length xs then xs ! unat a else 0)"

definition tolower :: "u8 \<Rightarrow> u8" where
  "tolower c = (if 65 \<le> sint c \<and> sint c \<le> 90 then c + 32 else c)"

partial_function (option) strlen_from :: "mem \<Rightarrow> addr \<Rightarrow> nat \<Rightarrow> nat option" where
  "strlen_from m str len =
     (if m (str + of_nat len) \<noteq> 0 then strlen_from m str (Suc len) else Some len)"

definition strlen :: "mem \<Rightarrow> addr \<Rightarrow> nat option" where
  "strlen m str = strlen_from m str 0"

function strnlen_from :: "mem \<Rightarrow> addr \<Rightarrow> int \<Rightarrow> nat \<Rightarrow> nat" where
  "strnlen_from m str limit len =
     (if m (str + of_nat len) \<noteq> 0 \<and> int len < limit then strnlen_from m str limit (Suc len) else len)"
  by pat_completeness auto
termination by (relation "measure (\<lambda>(m, str, limit, len). nat (limit - int len))") auto

definition strnlen :: "mem \<Rightarrow> addr \<Rightarrow> int \<Rightarrow> nat" where
  "strnlen m str limit = strnlen_from m str limit 0"

function strnlen_terminator_from :: "mem \<Rightarrow> addr \<Rightarrow> int \<Rightarrow> u8 \<Rightarrow> nat \<Rightarrow> nat" where
  "strnlen_terminator_from m str limit terminator i =
     (if int i < limit then
        (if m (str + of_nat i) = 0 \<or> m (str + of_nat i) = terminator then i
         else strnlen_terminator_from m str limit terminator (Suc i))
      else i)"
  by pat_completeness auto
termination by (relation "measure (\<lambda>(m, str, limit, t, i). nat (limit - int i))") auto

definition strnlen_terminator :: "mem \<Rightarrow> addr \<Rightarrow> int \<Rightarrow> u8 \<Rightarrow> nat" where
  "strnlen_terminator m str limit terminator = strnlen_terminator_from m str limit terminator 0"

primrec istrncmp :: "mem \<Rightarrow> addr \<Rightarrow> mem \<Rightarrow> addr \<Rightarrow> nat \<Rightarrow> int" where
  "istrncmp m1 str1 m2 str2 0 = 0"
| "istrncmp m1 str1 m2 str2 (Suc n) =
     (let u1 = m1 str1; u2 = m2 str2 in
      if u1 \<noteq> u2 \<and> tolower u1 \<noteq> tolower u2 then uint u1 - uint u2
      else if u1 = 0 then 0
      else istrncmp m1 (str1 + 1) m2 (str2 + 1) n)"

primrec strncmp :: "mem \<Rightarrow> addr \<Rightarrow> mem \<Rightarrow> addr \<Rightarrow> nat \<Rightarrow> int" where
  "strncmp m1 str1 m2 str2 0 = 0"
| "strncmp m1 str1 m2 str2 (Suc n) =
     (let u1 = m1 str1; u2 = m2 str2 in
      if u1 \<noteq> u2 then uint u1 - uint u2
      else if u1 = 0 then 0
      else strncmp m1 (str1 + 1) m2 (str2 + 1) n)"

partial_function (option) strcpy_from :: "mem \<Rightarrow> addr \<Rightarrow> addr \<Rightarrow> mem option" where
  "strcpy_from m dest src =
     (if m src \<noteq> 0 then strcpy_from (m(dest := m src)) (dest + 1) (src + 1)
      else Some (m(dest := 0)))"

definition strcpy :: "mem \<Rightarrow> addr \<Rightarrow> addr \<Rightarrow> mem option" where
  "strcpy m dest src = strcpy_from m dest src"

function strncpy_from :: "mem \<Rightarrow> addr \<Rightarrow> addr \<Rightarrow> int \<Rightarrow> nat \<Rightarrow> mem" where
  "strncpy_from m dest src n i =
     (if int i < n - 1 \<and> m (src + of_nat i) \<noteq> 0
      then strncpy_from (m(dest + of_nat i := m (src + of_nat i))) dest src n (Suc i)
      else m(dest + of_nat i := 0))"
  by pat_completeness auto
termination by (relation "measure (\<lambda>(m, dest, src, n, i). nat (n - int i))") auto

definition strncpy :: "mem \<Rightarrow> addr \<Rightarrow> addr \<Rightarrow> int \<Rightarrow> mem" where
  "strncpy m dest src n = strncpy_from m dest src n 0"

definition isdigit :: "u8 \<Rightarrow> bool" where
  "isdigit c \<longleftrightarrow> 48 \<le> sint c \<and> sint c \<le> 57"

definition tonumericdigit :: "u8 \<Rightarrow> int" where
  "tonumericdigit c = sint c - 48"

declare strnlen_from.simps [simp del] strnlen_terminator_from.simps [simp del]
  strncpy_from.simps [simp del]

section \<open>Abstract view: C strings\<close>

text \<open>
  \<open>cstring m p s\<close>: the bytes \<open>s\<close>, none of them zero, followed by a terminator are at \<open>p\<close>.
\<close>

definition cstring :: "mem \<Rightarrow> addr \<Rightarrow> u8 list \<Rightarrow> bool" where
  "cstring m p s \<longleftrightarrow> (\<forall>i < length s. m (p + of_nat i) = s ! i) \<and> 0 \<notin> set s
     \<and> m (p + of_nat (length s)) = 0"

lemma cstring_Nil [simp]: "cstring m p [] \<longleftrightarrow> m p = 0"
  by (simp add: cstring_def)

lemma cstring_Cons [simp]:
  "cstring m p (c # s) \<longleftrightarrow> m p = c \<and> c \<noteq> 0 \<and> cstring m (p + 1) s"
  by (auto simp: cstring_def All_less_Suc2 ac_simps)

lemma cstring_unique: "cstring m p s \<Longrightarrow> cstring m p t \<Longrightarrow> s = t"
  by (induction s arbitrary: p t) (case_tac t; auto)+


lemma cstring_nonzero: "cstring m p s \<Longrightarrow> i < length s \<Longrightarrow> m (p + of_nat i) \<noteq> 0"
  unfolding cstring_def by (metis nth_mem)

lemma cstring_length:
  assumes "cstring m a xs"
  shows "length xs < 2 ^ 32"
proof (rule ccontr)
  assume "\<not> length xs < 2 ^ 32"
  then have "unat (of_nat (length xs) :: addr) < length xs" using unat_u32_bound [of "of_nat (length xs)"] by linarith
  from cstring_nonzero [OF assms this] assms show False by (simp add: cstring_def)
qed

lemma cstring_append:
  "cstring m a (xs @ ys) \<longleftrightarrow> (\<forall>i < length xs. m (a + of_nat i) = xs ! i) \<and> 0 \<notin> set xs \<and> cstring m (a + of_nat (length xs)) ys"
  by (induction xs arbitrary: a) (auto simp: add.assoc All_less_Suc2)

lemma cstring_cong:
  "cstring m p s \<Longrightarrow> (\<And>x. in_range p (Suc (length s)) x \<Longrightarrow> m' x = m x) \<Longrightarrow> cstring m' p s"
proof (induction s arbitrary: p)
  case Nil
  then show ?case by (simp add: in_range_Suc)
next
  case (Cons c s)
  have "cstring m' (p + 1) s"
    using Cons.prems by (intro Cons.IH) (auto intro: in_range_tail)
  with Cons.prems(1) Cons.prems(2) [of p] show ?case by (simp add: in_range_Suc)
qed

section \<open>Memory routines\<close>

lemma memset_apply [mem_simps]:
  "n \<le> 2 ^ 32 \<Longrightarrow> memset m p v n x = (if in_range p n x then word_of_int v else m x)"
  by (induction n arbitrary: m p) (auto simp: in_range_Suc)

lemma memcpy_apply:
  "n \<le> 2 ^ 32 \<Longrightarrow> disjoint_ranges d n s n \<Longrightarrow>
   memcpy m d s n x = (if in_range d n x then m (s + (x - d)) else m x)"
proof (induction n arbitrary: m d s)
  case 0
  then show ?case by simp
next
  case (Suc n)
  have dis: "disjoint_ranges (d + 1) n (s + 1) n"
    using Suc.prems(2) by (auto simp: disjoint_ranges_def in_range_Suc)
  have d_out: "\<not> in_range (d + 1) n d"
    using Suc.prems(1) by (simp add: in_range_def unat_max_word)
  have src: "d \<noteq> s + (x - d)" if "in_range (d + 1) n x"
  proof -
    have "in_range s (Suc n) (s + (x - d))"
      using in_range_tail [OF that] by (simp add: in_range_def)
    moreover have "\<not> in_range s (Suc n) d"
      using disjoint_rangesD [OF Suc.prems(2), of d] by (simp add: in_range_Suc)
    ultimately show ?thesis by metis
  qed
  show ?case
    using Suc.IH [OF _ dis] Suc.prems(1) d_out src
    by (auto simp: in_range_Suc algebra_simps)
qed

lemma memcmp_eq_0_iff:
  "memcmp m1 p1 m2 p2 n = 0 \<longleftrightarrow> bytes_at m1 p1 n = bytes_at m2 p2 n"
  by (induction n arbitrary: p1 p2) (simp_all add: bytes_at_Suc, simp_all add: bytes_at_def)

section \<open>String routines\<close>

lemma strlen_from_cstring:
  "cstring m (p + of_nat k) s \<Longrightarrow> strlen_from m p k = Some (k + length s)"
proof (induction s arbitrary: k)
  case Nil
  then show ?case by (simp add: strlen_from.simps)
next
  case (Cons c s)
  then have "strlen_from m p (Suc k) = Some (Suc k + length s)"
    by (intro Cons.IH) (simp add: ac_simps)
  with Cons.prems show ?case by (subst strlen_from.simps) simp
qed

lemma strlen_cstring: "cstring m p s \<Longrightarrow> strlen m p = Some (length s)"
  using strlen_from_cstring [of m p 0 s] by (simp add: strlen_def)

lemma strnlen_from_cstring:
  "cstring m (p + of_nat k) s \<Longrightarrow> int k \<le> n \<Longrightarrow>
   int (strnlen_from m p n k) = min (int (k + length s)) n"
proof (induction s arbitrary: k)
  case Nil
  then show ?case by (simp add: strnlen_from.simps)
next
  case (Cons c s)
  show ?case
  proof (cases "int k < n")
    case True
    with Cons have "int (strnlen_from m p n (Suc k)) = min (int (Suc k + length s)) n"
      by (intro Cons.IH) (simp_all add: ac_simps)
    with True Cons.prems show ?thesis by (subst strnlen_from.simps) simp
  next
    case False
    with Cons.prems show ?thesis by (subst strnlen_from.simps) simp
  qed
qed

lemma strnlen_cstring:
  "cstring m p s \<Longrightarrow> 0 \<le> n \<Longrightarrow> int (strnlen m p n) = min (int (length s)) n"
  using strnlen_from_cstring [of m p 0 s n] by (simp add: strnlen_def)

lemma strcpy_from_cstring:
  assumes "cstring m src s" "disjoint_ranges dest (Suc (length s)) src (Suc (length s))"
  shows "strcpy_from m dest src = Some (write_bytes m dest (s @ [0]))"
  using assms
proof (induction s arbitrary: m dest src)
  case Nil
  then show ?case by (simp add: strcpy_from.simps fun_upd_def)
next
  case (Cons c s)
  have dis: "disjoint_ranges (dest + 1) (Suc (length s)) (src + 1) (Suc (length s))"
    using Cons.prems(2) by (auto simp: disjoint_ranges_def in_range_Suc [of _ "Suc _"])
  have "cstring (m(dest := c)) (src + 1) s"
    using Cons.prems by (auto intro!: cstring_cong [of m]
        simp: disjoint_ranges_def in_range_Suc [of _ "Suc _"])
  from Cons.IH [OF this dis] Cons.prems show ?case
    by (subst strcpy_from.simps) (simp add: fun_upd_def)
qed

lemma tolower_eq_0 [simp]: "tolower c = 0 \<longleftrightarrow> c = 0" "tolower 0 = 0"
  by (auto simp: tolower_def add_eq_0_iff2)

lemma uint_eq_u8: "uint (a::u8) = uint b \<longleftrightarrow> a = b" "uint (a::u8) = 0 \<longleftrightarrow> a = 0"
  by (auto simp: uint_0_iff intro: unsigned_word_eqI)

lemma istrncmp_eq_0_iff:
  "cstring m1 p1 s \<Longrightarrow> cstring m2 p2 t \<Longrightarrow>
   istrncmp m1 p1 m2 p2 n = 0 \<longleftrightarrow> map tolower (take n s) = map tolower (take n t)"
proof (induction n arbitrary: p1 p2 s t)
  case 0
  then show ?case by simp
next
  case (Suc n)
  then show ?case
    by (cases s; cases t) (auto simp: Let_def uint_eq_u8 dest: sym [of "0::u8"])
qed

lemma strncmp_eq_0_iff:
  "cstring m1 p1 s \<Longrightarrow> cstring m2 p2 t \<Longrightarrow>
   strncmp m1 p1 m2 p2 n = 0 \<longleftrightarrow> take n s = take n t"
proof (induction n arbitrary: p1 p2 s t)
  case 0
  then show ?case by simp
next
  case (Suc n)
  then show ?case
    by (cases s; cases t) (auto simp: Let_def uint_eq_u8)
qed


lemma cstring_write_bytes:
  "0 \<notin> set s \<Longrightarrow> length s < 2 ^ 32 \<Longrightarrow> cstring (write_bytes m p (s @ [0])) p s"
  by (auto simp: cstring_def write_bytes_apply unat_of_nat take_bit_nat_def nth_append in_range_def)

lemma strncpy_from_bytes:
  assumes "\<forall>j < length t. m (src + of_nat (i + j)) = t ! j" "0 \<notin> set t"
    "int (i + length t) \<le> n - 1"
    "int (i + length t) < n - 1 \<Longrightarrow> m (src + of_nat (i + length t)) = 0"
    "disjoint_ranges dest (nat n) src (Suc (i + length t))" "n \<le> 2 ^ 32"
  shows "strncpy_from m dest src n i = write_bytes m (dest + of_nat i) (t @ [0])"
  using assms
proof (induction t arbitrary: m i)
  case Nil
  then show ?case by (subst strncpy_from.simps) (auto simp: fun_upd_def)
next
  case (Cons c t)
  let ?m = "m(dest + of_nat i := c)"
  have ne: "src + of_nat k \<noteq> dest + of_nat i" if "k < Suc (i + length (c # t))" for k
  proof -
    have "in_range dest (nat n) (dest + of_nat i)"
      using Cons.prems(3,6) by (intro in_range_nth) auto
    then have "\<not> in_range src (Suc (i + length (c # t))) (dest + of_nat i)"
      by (rule disjoint_rangesD [OF Cons.prems(5)])
    moreover have "in_range src (Suc (i + length (c # t))) (src + of_nat k)"
      using that Cons.prems(3,6) by (intro in_range_nth) auto
    ultimately show ?thesis by metis
  qed
  have bytes: "\<forall>j < length t. ?m (src + of_nat (Suc i + j)) = t ! j"
  proof (intro allI impI)
    fix j assume "j < length t"
    then show "?m (src + of_nat (Suc i + j)) = t ! j"
      using Cons.prems(1) [rule_format, of "Suc j"] Cons.prems(3) ne [of "Suc i + j"] by simp
  qed
  have stop: "?m (src + of_nat (Suc i + length t)) = 0" if "int (Suc i + length t) < n - 1"
    using that Cons.prems(4) ne [of "Suc i + length t"] by simp
  have "strncpy_from ?m dest src n (Suc i) = write_bytes ?m (dest + of_nat (Suc i)) (t @ [0])"
    using Cons.prems bytes stop by (intro Cons.IH) simp_all
  moreover have "m (src + of_nat i) = c" "c \<noteq> 0"
    using Cons.prems(1) [rule_format, of 0] Cons.prems(2) by auto
  ultimately show ?case
    using Cons.prems(3) by (subst strncpy_from.simps) (simp add: fun_upd_def ac_simps)
qed

lemma strncpy_cstring:
  assumes "cstring m src s" "0 < n" "n \<le> 2 ^ 32" "disjoint_ranges dest (nat n) src (min (nat n) (Suc (length s)))"
  shows "strncpy m dest src n = write_bytes m dest (take (nat (n - 1)) s @ [0])"
proof -
  let ?t = "take (nat (n - 1)) s"
  have "\<forall>j < length ?t. m (src + of_nat (0 + j)) = ?t ! j"
    using assms(1) by (simp add: cstring_def)
  moreover have "0 \<notin> set ?t"
    using assms(1) by (auto simp: cstring_def dest: in_set_takeD)
  moreover have "m (src + of_nat (0 + length ?t)) = 0" if "int (0 + length ?t) < n - 1"
    using that assms(1,2) by (auto simp: cstring_def min_def split: if_splits)
  ultimately have "strncpy_from m dest src n 0 = write_bytes m (dest + of_nat 0) (?t @ [0])"
    using assms(2,3) disjoint_ranges_mono [OF assms(4) order_refl, of "Suc (0 + length ?t)"]
    by (intro strncpy_from_bytes) auto
  then show ?thesis by (simp add: strncpy_def)
qed

section \<open>Properties\<close>

text \<open>
  Copying a terminated string into a buffer that does not overlap it returns, leaves
  the same string at the destination and changes no byte outside the destination's
  \<open>length + 1\<close> bytes.
\<close>

theorem strcpy_correct:
  assumes "cstring m src s" "length s < 2 ^ 31"
    "disjoint_ranges dest (Suc (length s)) src (Suc (length s))"
  shows "\<exists>m'. strcpy m dest src = Some m' \<and> cstring m' dest s \<and> cstring m' src s
     \<and> (\<forall>x. \<not> in_range dest (Suc (length s)) x \<longrightarrow> m' x = m x)"
proof -
  let ?m = "write_bytes m dest (s @ [0])"
  have other: "?m x = m x" if "\<not> in_range dest (Suc (length s)) x" for x
    using that assms(2) by (simp add: write_bytes_apply)
  have "cstring ?m src s"
    using assms(1) by (rule cstring_cong) (meson other assms(3) disjoint_ranges_def)
  moreover have "cstring ?m dest s"
    using assms(1,2) by (intro cstring_write_bytes) (auto simp: cstring_def)
  ultimately show ?thesis
    using strcpy_from_cstring [OF assms(1,3)] other by (auto simp: strcpy_def)
qed

definition demo_string :: mem where
  "demo_string = (\<lambda>_. 0)(0x100 := 0x41, 0x101 := 0x42, 0x102 := 0x43)"

lemma demo_cstring: "cstring demo_string 0x100 [0x41, 0x42, 0x43]"
  by (simp add: demo_string_def)

theorem strcpy_correct_witness:
  "\<exists>m'. strcpy demo_string 0x200 0x100 = Some m' \<and> cstring m' 0x200 [0x41, 0x42, 0x43]"
proof -
  have "disjoint_ranges 0x200 (Suc (length [0x41, 0x42, 0x43 :: u8])) 0x100
      (Suc (length [0x41, 0x42, 0x43 :: u8]))"
    by (rule disjoint_ranges_sym, rule disjoint_ranges_unat) simp_all
  from strcpy_correct [OF demo_cstring _ this] show ?thesis by auto
qed

text \<open>
  \<open>strncpy\<close> with a positive bound writes at most \<open>n\<close> bytes, and what it leaves at the
  destination is always terminated: the first \<open>n - 1\<close> bytes of the source string.
\<close>

theorem strncpy_truncates:
  assumes "cstring m src s" "0 < n" "n < 2 ^ 31" "disjoint_ranges dest (nat n) src (nat n)"
  shows "cstring (strncpy m dest src n) dest (take (nat n - 1) s)
     \<and> (\<forall>x. \<not> in_range dest (nat n) x \<longrightarrow> strncpy m dest src n x = m x)"
proof -
  let ?t = "take (nat (n - 1)) s"
  have eq: "strncpy m dest src n = write_bytes m dest (?t @ [0])"
    using assms by (intro strncpy_cstring disjoint_ranges_mono [OF assms(4) order_refl]) auto
  have len: "length ?t < nat n" using assms(2) by auto
  have "cstring (write_bytes m dest (?t @ [0])) dest ?t"
    using assms(1,3) len by (intro cstring_write_bytes) (auto simp: cstring_def dest: in_set_takeD)
  moreover have "write_bytes m dest (?t @ [0]) x = m x" if "\<not> in_range dest (nat n) x" for x
  proof -
    have "\<not> in_range dest (length (?t @ [0])) x"
      using that len in_range_mono [of dest "length (?t @ [0])" x "nat n"] by auto
    then show ?thesis using len assms(3) by (subst write_bytes_apply) auto
  qed
  moreover have "nat n - 1 = nat (n - 1)" using assms(2) by (simp add: nat_diff_distrib)
  ultimately show ?thesis using eq by simp
qed

theorem strncpy_truncates_witness: "cstring (strncpy demo_string 0x200 0x100 3) 0x200 [0x41, 0x42]"
proof -
  have "disjoint_ranges 0x200 (nat 3) 0x100 (nat 3)"
    by (rule disjoint_ranges_sym, rule disjoint_ranges_unat) simp_all
  then show ?thesis using strncpy_truncates [OF demo_cstring, of 3 "0x200"] by simp
qed

end
