(* ===== verification/Heap.thy ===== *)
theory Heap
  imports CString
begin

text \<open>
  The kernel heap: \<^verbatim>\<open>src/src/memory/heap/heap.c\<close> and \<^verbatim>\<open>src/src/memory/heap/kheap.c\<close>.
  The pool is an array of 4096-byte blocks described by one table byte each. The table is
  itself in memory (at \<open>0x7E00\<close>), so the model keeps it there: \<open>entries\<close> is its address,
  and an index outside the table reads or writes the neighbouring bytes as the C code does.

  The specification side reads the table as a list of bytes: \<open>wf_table\<close> is the automaton that
  accepts the tables made of free entries and complete allocation chains, \<open>live_blocks\<close> maps
  the first block of every allocation to its length, \<open>fits\<close> says where a request can be
  placed. The interface the rest of the kernel relies on is the locale \<open>page_allocator\<close>,
  interpreted at the end on \<open>kmalloc\<close> and \<open>kfree\<close>.
\<close>

section \<open>Data\<close>

definition HEAP_BLOCK_TABLE_ENTRY_TAKEN :: u8 where [os_defs]: "HEAP_BLOCK_TABLE_ENTRY_TAKEN = 0x01"
definition HEAP_BLOCK_TABLE_ENTRY_FREE :: u8 where [os_defs]: "HEAP_BLOCK_TABLE_ENTRY_FREE = 0x00"
definition HEAP_BLOCK_HAS_NEXT :: u8 where [os_defs]: "HEAP_BLOCK_HAS_NEXT = 0x80"
definition HEAP_BLOCK_IS_FIRST :: u8 where [os_defs]: "HEAP_BLOCK_IS_FIRST = 0x40"

record heap_table =
  entries :: addr
  total :: u32

record heap =
  table :: heap_table
  saddr :: addr

section \<open>heap.c\<close>

definition heap_validate_table :: "addr \<Rightarrow> addr \<Rightarrow> heap_table \<Rightarrow> int" where
  "heap_validate_table ptr end_ptr tbl =
     (let table_size = end_ptr - ptr; total_blocks = table_size div ALPHAOS_HEAP_BLOCK_SIZE in
      if total tbl \<noteq> total_blocks then - EINVARG else 0)"

definition heap_validate_alignment :: "addr \<Rightarrow> bool" where
  "heap_validate_alignment ptr \<longleftrightarrow> ptr mod ALPHAOS_HEAP_BLOCK_SIZE = 0"

definition heap_create ::
  "heap \<Rightarrow> addr \<Rightarrow> addr \<Rightarrow> heap_table \<Rightarrow> mem \<Rightarrow> int \<times> heap \<times> mem" where
  "heap_create hp ptr end_ptr tbl m =
     (if \<not> heap_validate_alignment ptr \<or> \<not> heap_validate_alignment end_ptr
      then (- EINVARG, hp, m)
      else
        let hp' = \<lparr>table = tbl, saddr = ptr\<rparr>;
            res = heap_validate_table ptr end_ptr tbl in
        if res < 0 then (res, hp', m)
        else (res, hp', memset m (entries tbl) (uint HEAP_BLOCK_TABLE_ENTRY_FREE) (unat (total tbl))))"

definition heap_align_value_to_upper :: "u32 \<Rightarrow> u32" where
  "heap_align_value_to_upper val =
     (if val mod ALPHAOS_HEAP_BLOCK_SIZE = 0 then val
      else (val - (val mod ALPHAOS_HEAP_BLOCK_SIZE)) + ALPHAOS_HEAP_BLOCK_SIZE)"

definition heap_get_entry_type :: "u8 \<Rightarrow> u8" where
  "heap_get_entry_type entry = entry AND 0x0f"

text \<open>
  The search loop of \<open>heap_get_start_blocks\<close>: \<open>i\<close> is the index, \<open>bc\<close> the length of the
  current run of free entries and \<open>bs\<close> its start, \<open>-1\<close> when there is none.
\<close>

function heap_get_start_blocks_loop ::
  "mem \<Rightarrow> heap_table \<Rightarrow> u32 \<Rightarrow> nat \<Rightarrow> nat \<Rightarrow> int \<Rightarrow> int" where
  "heap_get_start_blocks_loop m tbl total_blocks i bc bs =
     (if i < unat (total tbl) then
        if heap_get_entry_type (m (entries tbl + of_nat i)) \<noteq> HEAP_BLOCK_TABLE_ENTRY_FREE
        then heap_get_start_blocks_loop m tbl total_blocks (Suc i) 0 (- 1)
        else
          let bs' = (if bs = - 1 then int i else bs); bc' = Suc bc in
          if bc' = unat total_blocks then bs'
          else heap_get_start_blocks_loop m tbl total_blocks (Suc i) bc' bs'
      else bs)"
  by pat_completeness auto
termination
  by (relation "measure (\<lambda>(m, tbl, n, i, bc, bs). unat (total tbl) - i)") auto

definition heap_get_start_blocks :: "heap \<Rightarrow> u32 \<Rightarrow> mem \<Rightarrow> int" where
  "heap_get_start_blocks hp total_blocks m =
     (let bs = heap_get_start_blocks_loop m (table hp) total_blocks 0 0 (- 1) in
      if bs = - 1 then - ENOMEM else bs)"

definition heap_block_to_address :: "heap \<Rightarrow> int \<Rightarrow> addr" where
  "heap_block_to_address hp block = saddr hp + word_of_int (block * uint ALPHAOS_HEAP_BLOCK_SIZE)"

function heap_mark_block_taken_loop :: "addr \<Rightarrow> int \<Rightarrow> int \<Rightarrow> u8 \<Rightarrow> mem \<Rightarrow> mem" where
  "heap_mark_block_taken_loop ents i end_block entry m =
     (if i \<le> end_block then
        let m' = m(ents + word_of_int i := entry);
            entry' = HEAP_BLOCK_TABLE_ENTRY_TAKEN;
            entry'' = (if i \<noteq> end_block - 1 then entry' OR HEAP_BLOCK_HAS_NEXT else entry') in
        heap_mark_block_taken_loop ents (i + 1) end_block entry'' m'
      else m)"
  by pat_completeness auto
termination
  by (relation "measure (\<lambda>(ents, i, e, entry, m). nat (e + 1 - i))") auto

definition heap_mark_block_taken :: "heap \<Rightarrow> int \<Rightarrow> u32 \<Rightarrow> mem \<Rightarrow> mem" where
  "heap_mark_block_taken hp start_block total_blocks m =
     (let end_block = s32 (start_block + uint total_blocks - 1);
          entry = HEAP_BLOCK_TABLE_ENTRY_TAKEN OR HEAP_BLOCK_IS_FIRST;
          entry' = (if total_blocks > 1 then entry OR HEAP_BLOCK_HAS_NEXT else entry) in
      heap_mark_block_taken_loop (entries (table hp)) start_block end_block entry' m)"

definition heap_malloc_blocks :: "heap \<Rightarrow> u32 \<Rightarrow> mem \<Rightarrow> addr \<times> mem" where
  "heap_malloc_blocks hp total_blocks m =
     (let start_block = heap_get_start_blocks hp total_blocks m in
      if start_block < 0 then (NULL, m)
      else (heap_block_to_address hp start_block,
            heap_mark_block_taken hp start_block total_blocks m))"

function heap_mark_block_free_loop :: "heap_table \<Rightarrow> int \<Rightarrow> mem \<Rightarrow> mem" where
  "heap_mark_block_free_loop tbl i m =
     (if i < sint (total tbl) then
        let entry = m (entries tbl + word_of_int i);
            m' = m(entries tbl + word_of_int i := HEAP_BLOCK_TABLE_ENTRY_FREE) in
        if entry AND HEAP_BLOCK_HAS_NEXT = 0 then m'
        else heap_mark_block_free_loop tbl (i + 1) m'
      else m)"
  by pat_completeness auto
termination
  by (relation "measure (\<lambda>(tbl, i, m). nat (sint (total tbl) - i))") auto

definition heap_mark_block_free :: "heap \<Rightarrow> int \<Rightarrow> mem \<Rightarrow> mem" where
  "heap_mark_block_free hp starting_block m = heap_mark_block_free_loop (table hp) starting_block m"

definition heap_address_to_block :: "heap \<Rightarrow> addr \<Rightarrow> int" where
  "heap_address_to_block hp address =
     cdiv (sint (address - saddr hp)) (uint ALPHAOS_HEAP_BLOCK_SIZE)"

definition heap_malloc :: "heap \<Rightarrow> u32 \<Rightarrow> mem \<Rightarrow> addr \<times> mem" where
  "heap_malloc hp sz m =
     (let aligned_size = heap_align_value_to_upper sz;
          total_blocks = aligned_size div ALPHAOS_HEAP_BLOCK_SIZE in
      heap_malloc_blocks hp total_blocks m)"

definition heap_free :: "heap \<Rightarrow> addr \<Rightarrow> mem \<Rightarrow> mem" where
  "heap_free hp ptr m = heap_mark_block_free hp (heap_address_to_block hp ptr) m"

declare heap_get_start_blocks_loop.simps [simp del] heap_mark_block_taken_loop.simps [simp del]
  heap_mark_block_free_loop.simps [simp del]

section \<open>kheap.c\<close>

text \<open>
  The kernel's state starts with its memory and the global \<open>kernel_heap\<close>; later theories
  extend the record, and the operations here apply to every extension.
\<close>

record kheap_state =
  kmem :: mem
  kernel_heap :: heap

definition kheap_table :: heap_table where
  "kheap_table = \<lparr>entries = ALPHAOS_HEAP_TABLE_ADDRESS,
     total = ALPHAOS_HEAP_SIZE_BYTES div ALPHAOS_HEAP_BLOCK_SIZE\<rparr>"

definition kheap_init :: "'a kheap_state_scheme \<Rightarrow> 'a kheap_state_scheme" where
  "kheap_init s =
     (let (res, hp, m) = heap_create (kernel_heap s) ALPHAOS_HEAP_ADDRESS
            (ALPHAOS_HEAP_ADDRESS + ALPHAOS_HEAP_SIZE_BYTES) kheap_table (kmem s) in
      s\<lparr>kmem := m, kernel_heap := hp\<rparr>)"

definition kmalloc :: "u32 \<Rightarrow> 'a kheap_state_scheme \<Rightarrow> addr \<times> 'a kheap_state_scheme" where
  "kmalloc sz s = (let (p, m) = heap_malloc (kernel_heap s) sz (kmem s) in (p, s\<lparr>kmem := m\<rparr>))"

definition kzalloc :: "u32 \<Rightarrow> 'a kheap_state_scheme \<Rightarrow> addr \<times> 'a kheap_state_scheme" where
  "kzalloc sz s =
     (let (ptr, s1) = kmalloc sz s in
      (ptr, if ptr \<noteq> 0 then s1\<lparr>kmem := memset (kmem s1) ptr 0 (unat sz)\<rparr> else s1))"

definition kfree :: "addr \<Rightarrow> 'a kheap_state_scheme \<Rightarrow> 'a kheap_state_scheme" where
  "kfree ptr s = s\<lparr>kmem := heap_free (kernel_heap s) ptr (kmem s)\<rparr>"


section \<open>Specification: the block table as a list of bytes\<close>

definition table_bytes :: "heap \<Rightarrow> mem \<Rightarrow> u8 list" where
  "table_bytes hp m = bytes_at m (entries (table hp)) (unat (total (table hp)))"

definition free_entry :: "u8 \<Rightarrow> bool" where
  "free_entry e \<longleftrightarrow> e AND 0x0f = 0"

text \<open>
  The automaton of well-formed tables; its state says whether a chain is open. A free entry is
  \<open>0x00\<close>; a chain is \<open>0x41\<close>, or \<open>0xC1\<close>, any number of \<open>0x81\<close>, and \<open>0x01\<close>.
\<close>

fun scan :: "bool \<Rightarrow> u8 list \<Rightarrow> bool option" where
  "scan st [] = Some st"
| "scan False (e # es) =
     (if e = 0 \<or> e = 0x41 then scan False es else if e = 0xC1 then scan True es else None)"
| "scan True (e # es) =
     (if e = 0x81 then scan True es else if e = 0x01 then scan False es else None)"

definition wf_table :: "u8 list \<Rightarrow> bool" where
  "wf_table es \<longleftrightarrow> scan False es = Some False"

definition chain_tail :: "nat \<Rightarrow> u8 list" where
  "chain_tail k = (if k = 0 then [] else replicate (k - 1) 0x81 @ [0x01])"

definition chain :: "nat \<Rightarrow> u8 list" where
  "chain n = (if n = 1 then 0x41 else 0xC1) # chain_tail (n - 1)"

definition fits :: "u8 list \<Rightarrow> nat \<Rightarrow> nat \<Rightarrow> bool" where
  "fits es n s \<longleftrightarrow> s + n \<le> length es \<and> (\<forall>k < n. free_entry (es ! (s + k)))"

fun run_len :: "u8 list \<Rightarrow> nat" where
  "run_len [] = 0"
| "run_len (e # es) = (if e AND 0x80 = 0 then 1 else Suc (run_len es))"

definition live_blocks :: "u8 list \<Rightarrow> nat \<Rightarrow> nat option" where
  "live_blocks es b =
     (if b < length es \<and> es ! b AND 0x40 \<noteq> 0 then Some (run_len (drop b es)) else None)"

text \<open>The blocks a request of \<open>sz\<close> bytes occupies.\<close>

definition blocks_of :: "u32 \<Rightarrow> nat" where
  "blocks_of sz = unat (heap_align_value_to_upper sz div ALPHAOS_HEAP_BLOCK_SIZE)"

subsection \<open>The automaton\<close>

lemma scan_append: "scan st (xs @ ys) = Option.bind (scan st xs) (\<lambda>st'. scan st' ys)"
  by (induction st xs rule: scan.induct) auto

lemma scan_replicate_0: "scan False (replicate n 0) = Some False"
  by (induction n) auto

lemma scan_chain_tail: "scan True (replicate k 0x81 @ [0x01]) = Some False"
  by (induction k) auto

lemma length_chain [simp]: "n > 0 \<Longrightarrow> length (chain n) = n"
  by (auto simp: chain_def chain_tail_def)

lemma scan_chain: "n > 0 \<Longrightarrow> scan False (chain n) = Some False"
  by (auto simp: chain_def chain_tail_def scan_chain_tail)

lemma scan_0_closed: "scan st (0 # es) = Some r \<Longrightarrow> st = False"
  by (cases st) auto

lemma scan_entry_first:
  "scan st (e # es) = Some r \<Longrightarrow> e AND 0x40 \<noteq> 0 \<Longrightarrow>
   st = False \<and> (e = 0x41 \<and> scan False es = Some r \<or> e = 0xC1 \<and> scan True es = Some r)"
  by (cases st) (auto split: if_splits)

lemma scan_entry_free:
  "scan st (e # es) = Some r \<Longrightarrow> free_entry e \<Longrightarrow> e = 0 \<and> st = False \<and> scan False es = Some r"
  by (cases st) (auto simp: free_entry_def split: if_splits)

lemma scan_open_decomp:
  "scan True es = Some False \<Longrightarrow>
   \<exists>k rest. es = replicate k 0x81 @ 0x01 # rest \<and> scan False rest = Some False"
proof (induction es)
  case Nil
  then show ?case by simp
next
  case (Cons e es)
  show ?case
  proof (cases "e = 0x81")
    case True
    with Cons obtain k rest where "es = replicate k 0x81 @ 0x01 # rest" "scan False rest = Some False"
      by auto
    with True show ?thesis by (intro exI [of _ "Suc k"]) auto
  next
    case False
    with Cons.prems show ?thesis by (intro exI [of _ 0]) (auto split: if_splits)
  qed
qed

lemma run_len_tail: "run_len (replicate k 0x81 @ 0x01 # rest) = Suc k"
  by (induction k) auto

lemma run_len_chain: "n > 0 \<Longrightarrow> run_len (chain n @ rest) = n"
  using run_len_tail [of "n - Suc (Suc 0)" rest] by (auto simp: chain_def chain_tail_def)

text \<open>Every live allocation is a complete chain of the table.\<close>

lemma live_blocks_decomp:
  assumes "wf_table es" "live_blocks es b = Some n"
  shows "n > 0 \<and> b + n \<le> length es \<and> es = take b es @ chain n @ drop (b + n) es
     \<and> wf_table (take b es) \<and> wf_table (drop (b + n) es)"
proof -
  let ?e = "es ! b"
  have b: "b < length es" "?e AND 0x40 \<noteq> 0" and n: "n = run_len (drop b es)"
    using assms(2) by (auto simp: live_blocks_def split: if_splits)
  have dr: "drop b es = ?e # drop (Suc b) es"
    using b(1) by (simp add: Cons_nth_drop_Suc)
  have "Option.bind (scan False (take b es)) (\<lambda>st. scan st (drop b es)) = Some False"
    using assms(1) by (simp add: wf_table_def flip: scan_append)
  then obtain st where st: "scan False (take b es) = Some st"
    and rest: "scan st (?e # drop (Suc b) es) = Some False"
    unfolding dr by (auto simp: bind_eq_Some_conv)
  from scan_entry_first [OF rest b(2)] have "st = False"
    and "?e = 0x41 \<and> scan False (drop (Suc b) es) = Some False
      \<or> ?e = 0xC1 \<and> scan True (drop (Suc b) es) = Some False" by auto
  then obtain tl rest' where tl: "drop b es = chain (Suc tl) @ rest'" "scan False rest' = Some False"
  proof (elim disjE conjE)
    assume "?e = 0x41" "scan False (drop (Suc b) es) = Some False"
    then show ?thesis by (intro that [of 0]) (simp_all add: dr chain_def chain_tail_def)
  next
    assume "?e = 0xC1" "scan True (drop (Suc b) es) = Some False"
    then obtain k rest'' where "drop (Suc b) es = replicate k 0x81 @ 0x01 # rest''"
      "scan False rest'' = Some False" using scan_open_decomp by blast
    with \<open>?e = 0xC1\<close> show ?thesis
      by (intro that [of "Suc k"]) (simp_all add: dr chain_def chain_tail_def)
  qed
  then have "n = Suc tl" using n run_len_chain [of "Suc tl" rest'] by simp
  moreover have "drop (b + Suc tl) es = rest'"
    using tl(1) by (metis drop_drop add.commute append_eq_conv_conj length_chain zero_less_Suc)
  moreover have "b + Suc tl \<le> length es"
    using arg_cong [OF tl(1), of length] b(1) by simp
  moreover have "es = take b es @ chain (Suc tl) @ rest'"
    by (simp flip: tl(1))
  ultimately show ?thesis
    using tl(2) st \<open>st = False\<close> by (simp add: wf_table_def)
qed


lemma live_blocks_append:
  assumes "wf_table xs"
  shows "live_blocks (xs @ ys) b =
    (if b < length xs then live_blocks xs b else live_blocks ys (b - length xs))"
proof (cases "b < length xs \<and> xs ! b AND 0x40 \<noteq> 0")
  case True
  then obtain n where n: "live_blocks xs b = Some n" by (simp add: live_blocks_def)
  from live_blocks_decomp [OF assms n]
  have "n > 0" and xs: "xs = take b xs @ chain n @ drop (b + n) xs" by auto
  have "drop b xs = chain n @ drop (b + n) xs"
    by (metis xs append_take_drop_id same_append_eq)
  then have "run_len (drop b (xs @ ys)) = n" using True \<open>n > 0\<close> by (simp add: run_len_chain)
  with True n show ?thesis by (simp add: live_blocks_def nth_append)
next
  case False
  then show ?thesis by (auto simp: live_blocks_def nth_append)
qed

lemma live_blocks_replicate_0 [simp]: "live_blocks (replicate n 0) b = None"
  by (simp add: live_blocks_def)

lemma live_blocks_chain: "n > 0 \<Longrightarrow> live_blocks (chain n) b = (if b = 0 then Some n else None)"
  using run_len_chain [of n "[]"]
  by (auto simp: live_blocks_def chain_def chain_tail_def nth_append nth_Cons' split: if_splits)

lemma wf_table_append: "wf_table xs \<Longrightarrow> wf_table ys \<Longrightarrow> wf_table (xs @ ys)"
  by (simp add: wf_table_def scan_append)

lemmas wf_table_parts = wf_table_append wf_table_def [THEN iffD2, OF scan_chain]
  wf_table_def [THEN iffD2, OF scan_replicate_0]

text \<open>Turning a free run into a chain adds one live allocation; the reverse removes it.\<close>

lemma live_blocks_splice:
  assumes "wf_table pre" "n > 0"
  shows "live_blocks (pre @ chain n @ post) =
    (live_blocks (pre @ replicate n 0 @ post))(length pre \<mapsto> n)"
proof (rule ext)
  fix b
  show "live_blocks (pre @ chain n @ post) b =
    ((live_blocks (pre @ replicate n 0 @ post))(length pre \<mapsto> n)) b"
    using assms by (auto simp: live_blocks_append live_blocks_chain wf_table_parts)
qed

lemma scan_free_run:
  "scan st (zs @ ys) = Some r \<Longrightarrow> \<forall>z \<in> set zs. free_entry z \<Longrightarrow> zs \<noteq> [] \<Longrightarrow>
   zs = replicate (length zs) 0 \<and> st = False \<and> scan False ys = Some r"
proof (induction zs arbitrary: st)
  case Nil
  then show ?case by simp
next
  case (Cons z zs)
  have z: "z = 0" "st = False" "scan False (zs @ ys) = Some r"
    using scan_entry_free [of st z "zs @ ys" r] Cons.prems by simp_all
  then show ?case using Cons.IH [of False] Cons.prems by (cases "zs = []") simp_all
qed

lemma fits_decomp:
  assumes "wf_table es" "fits es n s" "n > 0"
  shows "es = take s es @ replicate n 0 @ drop (s + n) es
     \<and> wf_table (take s es) \<and> wf_table (drop (s + n) es)"
proof -
  define zs where "zs = take n (drop s es)"
  have len: "length zs = n" using assms(2) by (auto simp: fits_def zs_def)
  have dr: "drop s es = zs @ drop (s + n) es"
    unfolding zs_def by (metis append_take_drop_id drop_drop add.commute)
  have "Option.bind (scan False (take s es)) (\<lambda>st. scan st (drop s es)) = Some False"
    using assms(1) by (simp add: wf_table_def flip: scan_append)
  then obtain st where st: "scan False (take s es) = Some st"
    and rest: "scan st (zs @ drop (s + n) es) = Some False"
    unfolding dr by (auto simp: bind_eq_Some_conv)
  have "\<forall>z \<in> set zs. free_entry z"
    using assms(2) len by (auto simp: fits_def in_set_conv_nth zs_def)
  from scan_free_run [OF rest this] len assms(3)
  have zs: "zs = replicate n 0" and "st = False" "scan False (drop (s + n) es) = Some False"
    by auto
  moreover have "es = take s es @ drop s es" by simp
  ultimately show ?thesis
    using st unfolding dr zs by (simp add: wf_table_def)
qed

section \<open>The first-fit search\<close>

text \<open>What the loop leaves in \<open>bs\<close>, for a predicate \<open>P\<close> that says which entries are free.\<close>

definition window :: "(nat \<Rightarrow> bool) \<Rightarrow> nat \<Rightarrow> nat \<Rightarrow> nat \<Rightarrow> bool" where
  "window P len n s \<longleftrightarrow> s + n \<le> len \<and> (\<forall>k. s \<le> k \<and> k < s + n \<longrightarrow> P k)"

definition search_result :: "(nat \<Rightarrow> bool) \<Rightarrow> nat \<Rightarrow> nat \<Rightarrow> int \<Rightarrow> bool" where
  "search_result P len n r \<longleftrightarrow>
     (\<exists>s. r = int s \<and> window P len n s \<and> (\<forall>s' < s. \<not> window P len n s'))
   \<or> (\<forall>s. \<not> window P len n s) \<and>
     (r = - 1 \<and> (len = 0 \<or> \<not> P (len - 1))
      \<or> (\<exists>s. r = int s \<and> s < len \<and> (\<forall>k. s \<le> k \<and> k < len \<longrightarrow> P k) \<and> (s = 0 \<or> \<not> P (s - 1))))"

definition search_inv :: "(nat \<Rightarrow> bool) \<Rightarrow> nat \<Rightarrow> nat \<Rightarrow> nat \<Rightarrow> int \<Rightarrow> bool" where
  "search_inv P n i bc bs \<longleftrightarrow> (\<forall>s. \<not> window P i n s) \<and>
     (bs = - 1 \<and> bc = 0 \<and> (i = 0 \<or> \<not> P (i - 1))
      \<or> (\<exists>s. bs = int s \<and> s + bc = i \<and> 0 < bc \<and> bc < n
           \<and> (\<forall>k. s \<le> k \<and> k < i \<longrightarrow> P k) \<and> (s = 0 \<or> \<not> P (s - 1))))"

lemma window_Suc:
  "window P (Suc i) n s \<longleftrightarrow>
     window P i n s \<or> s + n = Suc i \<and> (\<forall>k. s \<le> k \<and> k < s + n \<longrightarrow> P k)"
  by (auto simp: window_def)

lemma search_inv_taken:
  assumes "search_inv P n i bc bs" "0 < n" "\<not> P i"
  shows "search_inv P n (Suc i) 0 (- 1)"
proof -
  have "\<not> window P (Suc i) n s" for s
  proof
    assume "window P (Suc i) n s"
    then have "s + n = Suc i" "\<forall>k. s \<le> k \<and> k < s + n \<longrightarrow> P k"
      using assms(1) by (auto simp: window_Suc search_inv_def)
    then show False using assms(2,3) by auto
  qed
  then show ?thesis using assms(3) by (simp add: search_inv_def)
qed

lemma search_inv_free:
  assumes "search_inv P n i bc bs" "P i" "bs' = (if bs = - 1 then int i else bs)" "0 < n"
  obtains s where "bs' = int s" "s + Suc bc = Suc i" "\<forall>k. s \<le> k \<and> k < Suc i \<longrightarrow> P k"
    "s = 0 \<or> \<not> P (s - 1)" "Suc bc \<le> n" "\<forall>s. \<not> window P i n s"
proof -
  note inv = assms(1) [unfolded search_inv_def]
  then consider "bs = - 1" "bc = 0" "i = 0 \<or> \<not> P (i - 1)"
    | s where "bs = int s" "s + bc = i" "bc < n" "\<forall>k. s \<le> k \<and> k < i \<longrightarrow> P k"
        "s = 0 \<or> \<not> P (s - 1)" by metis
  then show ?thesis
  proof cases
    case 1
    have "\<forall>k. i \<le> k \<and> k < Suc i \<longrightarrow> P k" using assms(2) by (metis le_less_Suc_eq)
    with 1 assms inv show ?thesis by (intro that [of i]) auto
  next
    case 2
    have "\<forall>k. s \<le> k \<and> k < Suc i \<longrightarrow> P k" using 2 assms(2) by (metis less_SucE)
    with 2 assms inv show ?thesis by (intro that [of s]) auto
  qed
qed

lemma search_inv_extend:
  assumes "s + Suc bc = Suc i" "\<forall>k. s \<le> k \<and> k < Suc i \<longrightarrow> P k" "s = 0 \<or> \<not> P (s - 1)"
    "Suc bc < n" "\<forall>s. \<not> window P i n s"
  shows "search_inv P n (Suc i) (Suc bc) (int s)"
proof -
  have "\<not> window P (Suc i) n s'" for s'
  proof
    assume "window P (Suc i) n s'"
    then have w: "s' + n = Suc i" "\<forall>k. s' \<le> k \<and> k < s' + n \<longrightarrow> P k"
      using assms(5) by (auto simp: window_Suc)
    then have "s' \<le> s - 1" "s - 1 < s' + n" "s \<noteq> 0" using assms(1,4) by auto
    then show False using w(2) assms(3) by blast
  qed
  then show ?thesis using assms by (auto simp: search_inv_def)
qed

lemma heap_get_start_blocks_loop_result:
  assumes "search_inv P (unat n) i bc bs" "i \<le> unat (total tbl)" "0 < unat n"
    "\<And>k. P k \<longleftrightarrow> free_entry (m (entries tbl + of_nat k))"
  shows "search_result P (unat (total tbl)) (unat n)
     (heap_get_start_blocks_loop m tbl n i bc bs)"
  using assms(1,2)
proof (induction "unat (total tbl) - i" arbitrary: i bc bs)
  case 0
  then have "i = unat (total tbl)" by simp
  with 0 show ?case
    by (subst heap_get_start_blocks_loop.simps) (auto simp: search_result_def search_inv_def)
next
  case (Suc d)
  let ?e = "m (entries tbl + of_nat i)"
  let ?bs = "if bs = - 1 then int i else bs"
  have i: "i < unat (total tbl)" "d = unat (total tbl) - Suc i" using Suc.hyps(2) by simp_all
  have P_i: "P i \<longleftrightarrow> heap_get_entry_type ?e = HEAP_BLOCK_TABLE_ENTRY_FREE"
    using assms(4) by (simp add: heap_get_entry_type_def free_entry_def os_defs)
  show ?case
  proof (cases "P i")
    case False
    then have "search_inv P (unat n) (Suc i) 0 (- 1)"
      using search_inv_taken Suc.prems(1) assms(3) by blast
    with Suc.hyps(1) [OF i(2)] i(1) False P_i show ?thesis
      by (subst heap_get_start_blocks_loop.simps) simp
  next
    case True
    obtain s where s: "?bs = int s" "s + Suc bc = Suc i" "\<forall>k. s \<le> k \<and> k < Suc i \<longrightarrow> P k"
      "s = 0 \<or> \<not> P (s - 1)" "Suc bc \<le> unat n" "\<forall>s. \<not> window P i (unat n) s"
      using search_inv_free [OF Suc.prems(1) True refl assms(3)] by blast
    show ?thesis
    proof (cases "Suc bc = unat n")
      case stop: True
      have "window P (unat (total tbl)) (unat n) s"
        using s(2,3) i(1) stop by (simp add: window_def)
      moreover have "\<not> window P (unat (total tbl)) (unat n) s'" if "s' < s" for s'
      proof
        assume "window P (unat (total tbl)) (unat n) s'"
        then have "window P i (unat n) s'" using that s(2) stop by (simp add: window_def)
        with s(6) show False by blast
      qed
      ultimately have "search_result P (unat (total tbl)) (unat n) (int s)"
        by (auto simp: search_result_def)
      with i(1) True P_i stop s(1) show ?thesis
        by (subst heap_get_start_blocks_loop.simps) (simp add: Let_def)
    next
      case go: False
      have "search_inv P (unat n) (Suc i) (Suc bc) (int s)"
        using s go by (intro search_inv_extend) auto
      with Suc.hyps(1) [OF i(2)] i(1) True P_i go s(1) show ?thesis
        by (subst heap_get_start_blocks_loop.simps) (simp add: Let_def)
    qed
  qed
qed


lemma length_table_bytes [simp]: "length (table_bytes hp m) = unat (total (table hp))"
  by (simp add: table_bytes_def)

lemma nth_table_bytes:
  "k < unat (total (table hp)) \<Longrightarrow> table_bytes hp m ! k = m (entries (table hp) + of_nat k)"
  by (simp add: table_bytes_def)

lemma window_fits:
  assumes "\<And>k. P k \<longleftrightarrow> free_entry (m (entries (table hp) + of_nat k))"
  shows "window P (unat (total (table hp))) n s \<longleftrightarrow> fits (table_bytes hp m) n s"
proof -
  have "(\<forall>k. s \<le> k \<and> k < s + n \<longrightarrow> P k) \<longleftrightarrow> (\<forall>k < n. P (s + k))"
    by (metis le_Suc_ex le_add1 nat_add_left_cancel_less)
  then show ?thesis using assms by (auto simp: window_def fits_def nth_table_bytes)
qed

lemma heap_get_start_blocks_search:
  assumes "0 < unat n"
  shows "search_result (\<lambda>k. free_entry (m (entries (table hp) + of_nat k)))
     (unat (total (table hp))) (unat n) (heap_get_start_blocks_loop m (table hp) n 0 0 (- 1))"
  by (rule heap_get_start_blocks_loop_result)
    (use assms in \<open>auto simp: search_inv_def window_def\<close>)

lemma heap_get_start_blocks_fit:
  assumes "fits (table_bytes hp m) (unat n) s" "\<forall>s' < s. \<not> fits (table_bytes hp m) (unat n) s'"
    "0 < unat n"
  shows "heap_get_start_blocks hp n m = int s"
proof -
  let ?r = "heap_get_start_blocks_loop m (table hp) n 0 0 (- 1)"
  from heap_get_start_blocks_search [OF assms(3), of m hp] assms(1)
  obtain s' where "?r = int s'" "fits (table_bytes hp m) (unat n) s'"
    "\<forall>s'' < s'. \<not> fits (table_bytes hp m) (unat n) s''"
    unfolding search_result_def by (auto simp: window_fits [OF refl])
  then have "?r = int s" using assms(1,2) by (metis linorder_neqE_nat)
  then show ?thesis by (simp add: heap_get_start_blocks_def Let_def)
qed

lemma heap_get_start_blocks_nofit_full:
  assumes "\<forall>s. \<not> fits (table_bytes hp m) (unat n) s" "0 < unat n"
    "table_bytes hp m = [] \<or> \<not> free_entry (last (table_bytes hp m))"
  shows "heap_get_start_blocks hp n m = - ENOMEM"
proof -
  define N where "N = unat (total (table hp))"
  define P where "P = (\<lambda>k. free_entry (m (entries (table hp) + of_nat k)))"
  let ?r = "heap_get_start_blocks_loop m (table hp) n 0 0 (- 1)"
  have "\<not> P (N - 1)" if "s < N" for s
  proof -
    have len: "length (table_bytes hp m) = N" by (simp add: N_def)
    with that have ne: "table_bytes hp m \<noteq> []" by (metis list.size(3) not_less_zero)
    then have "last (table_bytes hp m) = table_bytes hp m ! (N - 1)"
      using last_conv_nth [OF ne] len by simp
    then show ?thesis
      using assms(3) ne that nth_table_bytes [of "N - 1" hp m] by (simp add: P_def N_def)
  qed
  note not_last = this
  have no_run: "\<not> (s < N \<and> (\<forall>k. s \<le> k \<and> k < N \<longrightarrow> P k))" for s
  proof
    assume run: "s < N \<and> (\<forall>k. s \<le> k \<and> k < N \<longrightarrow> P k)"
    then have "s \<le> N - 1 \<and> N - 1 < N" by arith
    with run not_last show False by blast
  qed
  have no_win: "\<not> window P N (unat n) s" for s
    using assms(1) window_fits [of P m hp "unat n" s] by (simp add: P_def N_def)
  have "search_result P N (unat n) ?r"
    using heap_get_start_blocks_search [OF assms(2), of m hp] by (simp add: P_def N_def)
  then have "?r = - 1 \<or> (\<exists>s. s < N \<and> (\<forall>k. s \<le> k \<and> k < N \<longrightarrow> P k))"
    by (auto simp: search_result_def no_win)
  then have "?r = - 1" using no_run by simp
  then show ?thesis by (simp add: heap_get_start_blocks_def Let_def)
qed

section \<open>Marking blocks\<close>

lemma mark_taken_loop_bytes:
  "heap_mark_block_taken_loop ents i (i + int k) e m =
     write_bytes m (ents + word_of_int i) (e # chain_tail k)"
proof (induction k arbitrary: i e m)
  case 0
  then show ?case
    by (subst heap_mark_block_taken_loop.simps, subst heap_mark_block_taken_loop.simps)
      (simp add: chain_tail_def Let_def)
next
  case (Suc k)
  let ?e = "if k = 0 then 0x01 else 0x81 :: u8"
  have tl: "chain_tail (Suc k) = ?e # chain_tail k"
    by (cases k) (simp_all add: chain_tail_def)
  have "heap_mark_block_taken_loop ents i (i + int (Suc k)) e m =
      heap_mark_block_taken_loop ents (i + 1) ((i + 1) + int k) ?e (m(ents + word_of_int i := e))"
    by (subst heap_mark_block_taken_loop.simps) (simp add: Let_def os_defs algebra_simps)
  also have "\<dots> = write_bytes (m(ents + word_of_int i := e)) (ents + word_of_int (i + 1))
      (?e # chain_tail k)" by (rule Suc.IH)
  finally show ?case by (simp only: tl write_bytes.simps of_int_add of_int_1 add.assoc)
qed

lemma heap_mark_block_taken_bytes:
  assumes "0 < unat n" "s + unat n < 2 ^ 31"
  shows "heap_mark_block_taken hp (int s) n m =
     write_bytes m (entries (table hp) + of_nat s) (chain (unat n))"
proof -
  have "s32 (int s + uint n - 1) = int s + int (unat n - 1)"
    using assms by (subst s32_id) (auto simp: uint_nat of_nat_diff simp del: of_nat_unat)
  moreover have "n > 1 \<longleftrightarrow> unat n \<noteq> 1"
    using assms(1) by (auto simp: word_less_nat_alt)
  ultimately show ?thesis
    using mark_taken_loop_bytes [of "entries (table hp)" "int s" "unat n - 1"]
    by (simp add: heap_mark_block_taken_def Let_def os_defs chain_def)
qed

lemma mark_free_loop_bytes:
  assumes "\<forall>j < k. m (entries tbl + of_nat (i + j)) AND 0x80 \<noteq> 0"
    "m (entries tbl + of_nat (i + k)) AND 0x80 = 0" "int (i + k) < sint (total tbl)"
  shows "heap_mark_block_free_loop tbl (int i) m =
     write_bytes m (entries tbl + of_nat i) (replicate (Suc k) 0)"
  using assms
proof (induction k arbitrary: i m)
  case 0
  then show ?case
    by (subst heap_mark_block_free_loop.simps) (simp add: Let_def os_defs fun_upd_def)
next
  case (Suc k)
  let ?m = "m(entries tbl + of_nat i := 0)"
  have "int (i + Suc k) < 2 ^ 31"
    using Suc.prems(3) sint_lt [of "total tbl"] by simp
  then have ne: "entries tbl + of_nat (Suc i + j) \<noteq> entries tbl + of_nat i" if "j \<le> k" for j
    using that by (subst add_of_nat_u32_inject) auto
  have "heap_mark_block_free_loop tbl (int (Suc i)) ?m =
      write_bytes ?m (entries tbl + of_nat (Suc i)) (replicate (Suc k) 0)"
  proof (rule Suc.IH)
    show "\<forall>j<k. ?m (entries tbl + of_nat (Suc i + j)) AND 128 \<noteq> 0"
      using Suc.prems(1) ne by (metis Suc_less_eq add_Suc_shift fun_upd_other less_imp_le_nat)
    show "?m (entries tbl + of_nat (Suc i + k)) AND 128 = 0"
      using Suc.prems(2) ne [of k] by (metis add_Suc_shift fun_upd_other order_refl)
    show "int (Suc i + k) < sint (total tbl)" using Suc.prems(3) by simp
  qed
  moreover have "m (entries tbl + of_nat i) AND 0x80 \<noteq> 0" "int i < sint (total tbl)"
    using Suc.prems(1) [rule_format, of 0] Suc.prems(3) by simp_all
  ultimately show ?case
    by (subst heap_mark_block_free_loop.simps) (simp add: Let_def os_defs fun_upd_def ac_simps)
qed


section \<open>Correctness of allocation and release\<close>

text \<open>
  \<open>heap_ok\<close> is the invariant of a heap: the table is well formed, the pool is block-aligned,
  does not contain address 0, does not wrap, is smaller than $2^{31}$ bytes (the code computes
  differences of pool addresses as \<open>int\<close>), and does not overlap the table.
\<close>

definition heap_blocks :: "heap \<Rightarrow> nat" where
  "heap_blocks hp = unat (total (table hp))"

definition heap_layout :: "heap \<Rightarrow> bool" where
  "heap_layout hp \<longleftrightarrow> unat (saddr hp) mod 4096 = 0 \<and> 0 < unat (saddr hp)
     \<and> unat (saddr hp) + heap_blocks hp * 4096 \<le> 2 ^ 32 \<and> heap_blocks hp * 4096 < 2 ^ 31
     \<and> disjoint_ranges (entries (table hp)) (heap_blocks hp) (saddr hp) (heap_blocks hp * 4096)"

definition heap_ok :: "heap \<Rightarrow> mem \<Rightarrow> bool" where
  "heap_ok hp m \<longleftrightarrow> heap_layout hp \<and> wf_table (table_bytes hp m)"

definition block_addr :: "heap \<Rightarrow> nat \<Rightarrow> addr" where
  "block_addr hp b = saddr hp + of_nat (b * 4096)"

definition heap_live :: "heap \<Rightarrow> mem \<Rightarrow> addr \<Rightarrow> nat option" where
  "heap_live hp m p =
     (if unat (p - saddr hp) mod 4096 = 0
      then live_blocks (table_bytes hp m) (unat (p - saddr hp) div 4096) else None)"

lemma unat_block_offset:
  "heap_layout hp \<Longrightarrow> b \<le> heap_blocks hp \<Longrightarrow> unat (of_nat (b * 4096) :: addr) = b * 4096"
  by (simp only: unat_of_nat) (simp add: take_bit_nat_eq_self heap_layout_def)

lemma block_addr_offset [simp]:
  "heap_layout hp \<Longrightarrow> b \<le> heap_blocks hp \<Longrightarrow> unat (block_addr hp b - saddr hp) = b * 4096"
  by (simp only: block_addr_def add_diff_cancel_left' unat_block_offset)

lemma block_addr_unat:
  assumes "heap_layout hp" "b < heap_blocks hp"
  shows "unat (block_addr hp b) = unat (saddr hp) + b * 4096"
proof -
  have "unat (of_nat (b * 4096) :: addr) = b * 4096"
    using assms by (intro unat_block_offset) auto
  moreover have "unat (saddr hp) + b * 4096 < 2 ^ 32"
    using assms by (auto simp: heap_layout_def)
  ultimately show ?thesis by (simp only: block_addr_def unat_word_ariths) simp
qed

lemma block_addr_inject:
  assumes "heap_layout hp" "unat (p - saddr hp) = b * 4096" shows "p = block_addr hp b"
proof -
  have "p - saddr hp = of_nat (b * 4096)"
    using arg_cong [OF assms(2), of "of_nat :: nat \<Rightarrow> addr"] by (simp only: of_nat_unat ucast_id)
  then show ?thesis by (simp only: block_addr_def) (simp add: algebra_simps)
qed

lemma heap_block_to_address_nat: "heap_block_to_address hp (int b) = block_addr hp b"
  by (simp add: heap_block_to_address_def block_addr_def os_defs)

lemma heap_address_to_block_addr:
  assumes "heap_layout hp" "b \<le> heap_blocks hp"
  shows "heap_address_to_block hp (block_addr hp b) = int b"
proof -
  have off: "unat (block_addr hp b - saddr hp) = b * 4096" using assms by simp
  have "b * 4096 \<le> heap_blocks hp * 4096" using assms(2) by simp
  also have "\<dots> < 2 ^ 31" using assms(1) by (simp add: heap_layout_def)
  finally have "sint (block_addr hp b - saddr hp) = int (b * 4096)"
    using off sint_small [of "block_addr hp b - saddr hp"] by simp
  then show ?thesis by (simp add: heap_address_to_block_def os_defs)
qed

lemma table_bytes_write:
  assumes "s + length bs \<le> heap_blocks hp"
  shows "table_bytes hp (write_bytes m (entries (table hp) + of_nat s) bs) =
    take s (table_bytes hp m) @ bs @ drop (s + length bs) (table_bytes hp m)"
proof -
  have "unat (total (table hp)) \<le> 2 ^ 32" using unat_u32_bound [of "total (table hp)"] by simp
  then show ?thesis
    using assms unfolding table_bytes_def heap_blocks_def by (intro bytes_at_write_inside)
qed

lemma heap_live_splice:
  assumes "wf_table pre" "n > 0" "heap_layout hp" "length pre < heap_blocks hp"
    "table_bytes hp m = pre @ replicate n 0 @ post" "table_bytes hp m' = pre @ chain n @ post"
  shows "heap_live hp m' = (heap_live hp m)(block_addr hp (length pre) \<mapsto> n)"
proof (rule ext)
  fix p
  show "heap_live hp m' p = ((heap_live hp m)(block_addr hp (length pre) \<mapsto> n)) p"
  proof (cases "p = block_addr hp (length pre)")
    case True
    then show ?thesis using assms by (simp add: heap_live_def live_blocks_splice)
  next
    case False
    then have "unat (p - saddr hp) mod 4096 = 0 \<Longrightarrow> unat (p - saddr hp) div 4096 \<noteq> length pre"
      using block_addr_inject [OF assms(3), of p "length pre"] by auto
    with False show ?thesis using assms by (auto simp: heap_live_def live_blocks_splice)
  qed
qed


text \<open>A request that fits is placed at the lowest fitting block and becomes a chain there.\<close>

lemma heap_malloc_bytes:
  assumes "heap_ok hp m" "fits (table_bytes hp m) (blocks_of sz) s"
    "\<forall>s' < s. \<not> fits (table_bytes hp m) (blocks_of sz) s'" "blocks_of sz > 0"
  shows "heap_malloc hp sz m =
    (block_addr hp s, write_bytes m (entries (table hp) + of_nat s) (chain (blocks_of sz)))"
proof -
  have "s + blocks_of sz \<le> heap_blocks hp"
    using assms(2) by (simp add: fits_def heap_blocks_def)
  moreover have "heap_blocks hp < 2 ^ 31"
    using assms(1) by (simp add: heap_ok_def heap_layout_def)
  ultimately show ?thesis
    using heap_get_start_blocks_fit [OF assms(2,3,4) [unfolded blocks_of_def]] assms(4)
    by (simp add: heap_malloc_def Let_def heap_malloc_blocks_def heap_block_to_address_nat
        heap_mark_block_taken_bytes blocks_of_def)
qed

lemma heap_malloc_fit:
  assumes "heap_ok hp m" "fits (table_bytes hp m) (blocks_of sz) s"
    "\<forall>s' < s. \<not> fits (table_bytes hp m) (blocks_of sz) s'" "blocks_of sz > 0"
    "heap_malloc hp sz m = (p, m')"
  shows "p = block_addr hp s" "heap_ok hp m'" "s + blocks_of sz \<le> heap_blocks hp"
     "heap_live hp m p = None" "heap_live hp m' = (heap_live hp m)(p \<mapsto> blocks_of sz)"
     "\<not> in_range (entries (table hp)) (heap_blocks hp) x \<Longrightarrow> m' x = m x"
     "table_bytes hp m' = take s (table_bytes hp m) @ chain (blocks_of sz)
        @ drop (s + blocks_of sz) (table_bytes hp m)"
proof -
  let ?n = "blocks_of sz" and ?es = "table_bytes hp m"
  have p: "p = block_addr hp s"
    and m': "m' = write_bytes m (entries (table hp) + of_nat s) (chain ?n)"
    using heap_malloc_bytes [OF assms(1-4)] assms(5) by simp_all
  have lay: "heap_layout hp" and wf: "wf_table ?es" using assms(1) by (simp_all add: heap_ok_def)
  have le: "s + ?n \<le> heap_blocks hp" using assms(2) by (simp add: fits_def heap_blocks_def)
  have es: "?es = take s ?es @ replicate ?n 0 @ drop (s + ?n) ?es"
    and pre: "wf_table (take s ?es)" and post: "wf_table (drop (s + ?n) ?es)"
    using fits_decomp [OF wf assms(2,4)] by blast+
  have len: "length (take s ?es) = s" using le by (simp add: heap_blocks_def)
  have es': "table_bytes hp m' = take s ?es @ chain ?n @ drop (s + ?n) ?es"
    using table_bytes_write [of s "chain ?n" hp m] le assms(4) by (simp add: m')
  have "live_blocks (take s ?es @ replicate ?n 0 @ drop (s + ?n) ?es) s = None"
    using pre len assms(4) by (simp add: live_blocks_append wf_table_parts)
  then show "heap_live hp m p = None"
    using lay le by (simp add: p heap_live_def flip: es)
  show "heap_ok hp m'" using lay pre post assms(4) by (simp add: heap_ok_def es' wf_table_parts)
  show "heap_live hp m' = (heap_live hp m)(p \<mapsto> ?n)"
    using heap_live_splice [OF pre assms(4) lay _ es es'] le assms(4) len by (simp add: p)
  show "m' x = m x" if "\<not> in_range (entries (table hp)) (heap_blocks hp) x"
    using that le assms(4) unat_u32_bound [of "total (table hp)"]
    unfolding m' by (intro write_bytes_outside) (auto simp: heap_blocks_def)
  show "p = block_addr hp s" "s + ?n \<le> heap_blocks hp"
    "table_bytes hp m' = take s ?es @ chain ?n @ drop (s + ?n) ?es"
    by (fact p, fact le, fact es')
qed

text \<open>Releasing a chain: every entry has \<open>HAS_NEXT\<close> but the last.\<close>

lemma chain_has_next:
  "j < n \<Longrightarrow> chain n ! j AND 0x80 = 0 \<longleftrightarrow> j = n - 1"
  by (auto simp: chain_def chain_tail_def nth_Cons' nth_append)

lemma heap_free_bytes:
  assumes "heap_ok hp m" "heap_live hp m p = Some n"
  obtains b where "p = block_addr hp b" "n > 0" "b + n \<le> heap_blocks hp"
    "live_blocks (table_bytes hp m) b = Some n"
    "heap_free hp p m = write_bytes m (entries (table hp) + of_nat b) (replicate n 0)"
proof -
  let ?es = "table_bytes hp m"
  define b where "b = unat (p - saddr hp) div 4096"
  have lay: "heap_layout hp" and wf: "wf_table ?es" using assms(1) by (simp_all add: heap_ok_def)
  have live: "live_blocks ?es b = Some n" and al: "unat (p - saddr hp) = b * 4096"
    using assms(2) by (auto simp: heap_live_def b_def split: if_splits)
  have p: "p = block_addr hp b" by (rule block_addr_inject [OF lay al])
  from live_blocks_decomp [OF wf live] have n: "n > 0" "b + n \<le> heap_blocks hp"
    and es: "?es = take b ?es @ chain n @ drop (b + n) ?es"
    by (auto simp: heap_blocks_def)
  have entry: "m (entries (table hp) + of_nat (b + j)) = chain n ! j" if "j < n" for j
  proof -
    have "?es ! (b + j) = (take b ?es @ chain n @ drop (b + n) ?es) ! (b + j)" using es by simp
    also have "\<dots> = chain n ! j" using that n by (simp add: nth_append heap_blocks_def)
    finally show ?thesis using that n nth_table_bytes [of "b + j" hp m] by (simp add: heap_blocks_def)
  qed
  have "heap_blocks hp < 2 ^ 31" using lay by (simp add: heap_layout_def)
  then have "sint (total (table hp)) = int (heap_blocks hp)"
    using sint_small [of "total (table hp)"] by (simp add: heap_blocks_def)
  then have "heap_mark_block_free_loop (table hp) (int b) m =
      write_bytes m (entries (table hp) + of_nat b) (replicate (Suc (n - 1)) 0)"
  proof (intro mark_free_loop_bytes)
    show "\<forall>j < n - 1. m (entries (table hp) + of_nat (b + j)) AND 0x80 \<noteq> 0"
      using entry chain_has_next [of _ n] by (auto simp del: of_nat_add)
    show "m (entries (table hp) + of_nat (b + (n - 1))) AND 0x80 = 0"
      using entry [of "n - 1"] chain_has_next [of "n - 1" n] n by (simp del: of_nat_add)
    show "int (b + (n - 1)) < sint (total (table hp))"
      using n \<open>sint (total (table hp)) = _\<close> by simp
  qed
  then have "heap_free hp p m = write_bytes m (entries (table hp) + of_nat b) (replicate n 0)"
    using n heap_address_to_block_addr [OF lay, of b]
    by (simp add: heap_free_def heap_mark_block_free_def p)
  then show thesis using that p n live by blast
qed

lemma heap_free_live:
  assumes "heap_ok hp m" "heap_live hp m p = Some n"
  shows "heap_ok hp (heap_free hp p m)"
    "heap_live hp (heap_free hp p m) = (heap_live hp m)(p := None)"
    "\<not> in_range (entries (table hp)) (heap_blocks hp) x \<Longrightarrow> heap_free hp p m x = m x"
proof -
  let ?es = "table_bytes hp m"
  obtain b where p: "p = block_addr hp b" and n: "n > 0" "b + n \<le> heap_blocks hp"
    and live: "live_blocks ?es b = Some n"
    and free: "heap_free hp p m = write_bytes m (entries (table hp) + of_nat b) (replicate n 0)"
    using heap_free_bytes [OF assms] .
  let ?m = "write_bytes m (entries (table hp) + of_nat b) (replicate n 0)"
  have lay: "heap_layout hp" and wf: "wf_table ?es" using assms(1) by (simp_all add: heap_ok_def)
  have es: "?es = take b ?es @ chain n @ drop (b + n) ?es"
    and pre: "wf_table (take b ?es)" and post: "wf_table (drop (b + n) ?es)"
    using live_blocks_decomp [OF wf live] by blast+
  have es': "table_bytes hp ?m = take b ?es @ replicate n 0 @ drop (b + n) ?es"
    using table_bytes_write [of b "replicate n 0" hp m] n by simp
  have len: "length (take b ?es) = b" using n by (simp add: heap_blocks_def)
  show "heap_ok hp (heap_free hp p m)"
    using lay pre post by (simp add: heap_ok_def free es' wf_table_parts)
  have "heap_live hp m = (heap_live hp ?m)(p \<mapsto> n)"
    using heap_live_splice [OF pre n(1) lay _ es' es] n len by (simp add: p)
  moreover have "heap_live hp ?m p = None"
    using lay n pre len by (simp add: heap_live_def p es' live_blocks_append wf_table_parts)
  ultimately show "heap_live hp (heap_free hp p m) = (heap_live hp m)(p := None)"
    by (auto simp: free)
  show "heap_free hp p m x = m x" if "\<not> in_range (entries (table hp)) (heap_blocks hp) x"
    using that n unat_u32_bound [of "total (table hp)"]
    unfolding free by (intro write_bytes_outside) (auto simp: heap_blocks_def)
qed


lemma live_blocks_ordered:
  assumes "wf_table es" "live_blocks es b = Some n" "live_blocks es c = Some k" "b < c"
  shows "b + n \<le> c"
proof (rule ccontr)
  assume "\<not> b + n \<le> c"
  from live_blocks_decomp [OF assms(1,2)] have n: "n > 0" "b + n \<le> length es"
    and es: "es = take b es @ chain n @ drop (b + n) es" and pre: "wf_table (take b es)" by auto
  have "live_blocks (take b es @ chain n @ drop (b + n) es) c = None"
    using pre n \<open>b < c\<close> \<open>\<not> b + n \<le> c\<close>
    by (simp add: live_blocks_append wf_table_parts live_blocks_chain less_diff_conv2)
  with assms(3) show False by (simp flip: es)
qed

lemma heap_live_block:
  assumes "heap_ok hp m" "heap_live hp m p = Some n"
  obtains b where "p = block_addr hp b" "live_blocks (table_bytes hp m) b = Some n"
    "b + n \<le> heap_blocks hp" "n > 0" "unat p = unat (saddr hp) + b * 4096"
proof -
  obtain b where b: "p = block_addr hp b" "n > 0" "b + n \<le> heap_blocks hp"
    "live_blocks (table_bytes hp m) b = Some n"
    using heap_free_bytes [OF assms] by blast
  moreover have "unat p = unat (saddr hp) + b * 4096"
    using b assms(1) block_addr_unat [of hp b] by (simp add: heap_ok_def)
  ultimately show thesis using that by blast
qed

lemma heap_live_disjoint:
  assumes "heap_ok hp m" "heap_live hp m p = Some n" "heap_live hp m q = Some k" "p \<noteq> q"
  shows "disjoint_ranges p (n * 4096) q (k * 4096)"
proof -
  obtain b where b: "p = block_addr hp b" "live_blocks (table_bytes hp m) b = Some n"
    "b + n \<le> heap_blocks hp" "unat p = unat (saddr hp) + b * 4096"
    using heap_live_block [OF assms(1,2)] .
  obtain c where c: "q = block_addr hp c" "live_blocks (table_bytes hp m) c = Some k"
    "c + k \<le> heap_blocks hp" "unat q = unat (saddr hp) + c * 4096"
    using heap_live_block [OF assms(1,3)] .
  have wf: "wf_table (table_bytes hp m)"
    and top: "unat (saddr hp) + heap_blocks hp * 4096 \<le> 2 ^ 32"
    using assms(1) by (simp_all add: heap_ok_def heap_layout_def)
  have "b \<noteq> c" using assms(4) b(1) c(1) by blast
  then consider "b + n \<le> c" | "c + k \<le> b"
    using live_blocks_ordered [OF wf b(2) c(2)] live_blocks_ordered [OF wf c(2) b(2)] by linarith
  then show ?thesis
  proof cases
    case 1
    then show ?thesis using b(4) c(3,4) top by (intro disjoint_ranges_unat) simp_all
  next
    case 2
    then have "disjoint_ranges q (k * 4096) p (n * 4096)"
      using c(4) b(3,4) top by (intro disjoint_ranges_unat) simp_all
    then show ?thesis by (rule disjoint_ranges_sym)
  qed
qed

text \<open>A live allocation lies inside the pool, so it never meets the table.\<close>

lemma heap_live_addr:
  assumes "heap_ok hp m" "heap_live hp m p = Some n"
  shows "p \<noteq> 0" "unat p mod 4096 = 0" "unat p + n * 4096 \<le> 2 ^ 32"
    "unat (saddr hp) \<le> unat p" "unat p + n * 4096 \<le> unat (saddr hp) + heap_blocks hp * 4096"
proof -
  obtain b where b: "b + n \<le> heap_blocks hp" "unat p = unat (saddr hp) + b * 4096"
    using heap_live_block [OF assms(1,2)] .
  have lay: "unat (saddr hp) + heap_blocks hp * 4096 \<le> 2 ^ 32" "0 < unat (saddr hp)"
    "unat (saddr hp) mod 4096 = 0"
    using assms(1) by (simp_all add: heap_ok_def heap_layout_def)
  show "unat p + n * 4096 \<le> 2 ^ 32" using b lay(1) by linarith
  show "p \<noteq> 0" using b(2) lay(2) by auto
  show "unat p mod 4096 = 0" using b(2) lay(3) by (simp add: mod_add_eq [symmetric])
  show "unat (saddr hp) \<le> unat p" "unat p + n * 4096 \<le> unat (saddr hp) + heap_blocks hp * 4096"
    using b by linarith+
qed

lemma heap_live_not_table:
  assumes "heap_ok hp m" "heap_live hp m p = Some n" "in_range p (n * 4096) x"
  shows "\<not> in_range (entries (table hp)) (heap_blocks hp) x"
proof -
  have "in_range (saddr hp) (heap_blocks hp * 4096) x"
    using assms(1,3) heap_live_addr [OF assms(1,2)]
    by (simp add: in_range_unat heap_ok_def heap_layout_def)
  then show ?thesis
    using assms(1) by (auto simp: heap_ok_def heap_layout_def disjoint_ranges_def)
qed

lemma least_fit:
  assumes "fits es n s"
  obtains s' where "fits es n s'" "\<forall>t < s'. \<not> fits es n t" "s' \<le> s"
  using assms that [of "LEAST t. fits es n t"] by (metis LeastI Least_le not_less_Least)

lemma unat_align_upper:
  "unat (heap_align_value_to_upper sz) =
     (if unat sz \<le> 2 ^ 32 - 4096 then (unat sz + 4095) div 4096 * 4096 else 0)"
proof -
  define v where "v = unat sz"
  have v: "v < 2 ^ 32" unfolding v_def by (rule unat_u32_bound)
  have md: "unat (sz mod 4096) = v mod 4096" by (simp add: v_def unat_mod)
  have zero: "sz mod 4096 = 0 \<longleftrightarrow> v mod 4096 = 0"
    by (simp add: word_unat_eq_iff md)
  have low: "unat (sz - sz mod 4096) = v - v mod 4096"
    by (subst unat_sub) (simp_all add: word_le_nat_alt md flip: v_def)
  have up: "unat (sz - sz mod 4096 + 4096) = (v - v mod 4096 + 4096) mod 2 ^ 32"
    by (simp only: unat_word_ariths low) simp
  show ?thesis
  proof (cases "v mod 4096 = 0")
    case True
    then obtain k where "v = 4096 * k" by auto
    then have "v \<le> 2 ^ 32 - 4096" using v by simp
    moreover have "(v + 4095) div 4096 * 4096 = v" using \<open>v = 4096 * k\<close> by simp
    ultimately show ?thesis using True zero by (simp add: heap_align_value_to_upper_def os_defs v_def)
  next
    case False
    define q r where "q = v div 4096" and "r = v mod 4096"
    have vqr: "v = 4096 * q + r" "r < 4096" "0 < r" using False by (simp_all add: q_def r_def)
    have "(v + 4095) div 4096 = Suc q" using vqr by (intro div_nat_eqI) simp_all
    then have eq: "(v + 4095) div 4096 * 4096 = v - v mod 4096 + 4096"
      using vqr by (simp flip: r_def)
    have "unat (heap_align_value_to_upper sz) = (v - v mod 4096 + 4096) mod 2 ^ 32"
      using False zero up by (simp add: heap_align_value_to_upper_def os_defs)
    also have "\<dots> = (if v \<le> 2 ^ 32 - 4096 then v - v mod 4096 + 4096 else 0)"
    proof (cases "v \<le> 2 ^ 32 - 4096")
      case True
      then have "v - v mod 4096 + 4096 < 2 ^ 32" using vqr by (simp flip: r_def)
      then show ?thesis using True by simp
    next
      case big: False
      then have "q = 2 ^ 20 - 1" using v vqr by simp
      then have "v - r + 4096 = 2 ^ 32" using vqr by simp
      then have "v - v mod 4096 + 4096 = 2 ^ 32" by (simp only: r_def)
      then show ?thesis using big by simp
    qed
    finally show ?thesis using eq by (simp add: v_def)
  qed
qed

lemma blocks_of_eq:
  "blocks_of sz = (if unat sz \<le> 2 ^ 32 - 4096 then (unat sz + 4095) div 4096 else 0)"
  by (simp only: blocks_of_def unat_div unat_align_upper os_defs) simp

lemma blocks_of_pos: "0 < unat sz \<Longrightarrow> unat sz \<le> 2 ^ 32 - 4096 \<Longrightarrow> 0 < blocks_of sz"
  by (simp add: blocks_of_eq div_greater_zero_iff)

lemma blocks_of_covers: "unat sz \<le> 2 ^ 32 - 4096 \<Longrightarrow> unat sz \<le> blocks_of sz * 4096"
  by (simp add: blocks_of_eq)

lemma blocks_of_1: "0 < unat sz \<Longrightarrow> unat sz \<le> 4096 \<Longrightarrow> blocks_of sz = 1"
  by (simp add: blocks_of_eq)


section \<open>The allocator interface\<close>

text \<open>
  What the rest of the kernel may assume of \<open>kmalloc\<close> and \<open>kfree\<close>. \<open>live\<close> maps the start of
  every allocation to its number of blocks, \<open>room s n\<close> says that a run of \<open>n\<close> free blocks
  exists, \<open>avail\<close> counts the free blocks. The laws of \<open>alloc\<close> are conditional on \<open>room\<close>: without
  it the code does not always fail cleanly.
\<close>

locale page_allocator =
  fixes alloc :: "u32 \<Rightarrow> 's \<Rightarrow> addr \<times> 's"
    and release :: "addr \<Rightarrow> 's \<Rightarrow> 's"
    and ok :: "'s \<Rightarrow> bool"
    and live :: "'s \<Rightarrow> addr \<Rightarrow> nat option"
    and room :: "'s \<Rightarrow> nat \<Rightarrow> bool"
    and avail :: "'s \<Rightarrow> nat"
  assumes alloc_law: "ok s \<Longrightarrow> 0 < blocks_of sz \<Longrightarrow> room s (blocks_of sz) \<Longrightarrow> alloc sz s = (p, s') \<Longrightarrow>
      ok s' \<and> live s p = None \<and> live s' = (live s)(p \<mapsto> blocks_of sz)
      \<and> avail s = avail s' + blocks_of sz"
    and release_law: "ok s \<Longrightarrow> live s p = Some n \<Longrightarrow>
      ok (release p s) \<and> live (release p s) = (live s)(p := None)
      \<and> avail (release p s) = avail s + n"
    and live_disjoint: "ok s \<Longrightarrow> live s p = Some n \<Longrightarrow> live s q = Some k \<Longrightarrow> p \<noteq> q \<Longrightarrow>
      disjoint_ranges p (n * 4096) q (k * 4096)"
    and live_nonnull: "ok s \<Longrightarrow> live s p = Some n \<Longrightarrow> p \<noteq> NULL \<and> n > 0"
    and room_one: "ok s \<Longrightarrow> 0 < avail s \<Longrightarrow> room s 1"
begin

lemma alloc_nonnull:
  "ok s \<Longrightarrow> 0 < blocks_of sz \<Longrightarrow> room s (blocks_of sz) \<Longrightarrow> alloc sz s = (p, s') \<Longrightarrow> p \<noteq> NULL"
  using alloc_law live_nonnull by (metis fun_upd_same)

text \<open>A new allocation shares no byte with one that was live before.\<close>

lemma alloc_fresh:
  assumes "ok s" "0 < blocks_of sz" "room s (blocks_of sz)" "alloc sz s = (p, s')"
    "live s q = Some k"
  shows "p \<noteq> q \<and> live s' q = Some k \<and> disjoint_ranges p (blocks_of sz * 4096) q (k * 4096)"
proof -
  have "ok s'" "live s p = None" "live s' = (live s)(p \<mapsto> blocks_of sz)"
    using alloc_law [OF assms(1-4)] by auto
  moreover from this have "p \<noteq> q" using assms(5) by auto
  ultimately show ?thesis using live_disjoint [of s' p "blocks_of sz" q k] assms(5) by simp
qed

text \<open>Releasing the block just allocated restores the live set and the free count.\<close>

lemma alloc_release:
  assumes "ok s" "0 < blocks_of sz" "room s (blocks_of sz)" "alloc sz s = (p, s')"
  shows "ok (release p s') \<and> live (release p s') = live s \<and> avail (release p s') = avail s"
  using alloc_law [OF assms] release_law [of s' p "blocks_of sz"] by (auto simp: fun_upd_idem)

text \<open>A released block is gone for good: releasing it does not touch the others.\<close>

lemma release_keeps:
  "ok s \<Longrightarrow> live s p = Some n \<Longrightarrow> q \<noteq> p \<Longrightarrow> live (release p s) q = live s q"
  using release_law by auto

end

section \<open>The kernel heap provides the interface\<close>

definition kheap_ok :: "'a kheap_state_scheme \<Rightarrow> bool" where
  "kheap_ok s \<longleftrightarrow> heap_ok (kernel_heap s) (kmem s)"

definition klive :: "'a kheap_state_scheme \<Rightarrow> addr \<Rightarrow> nat option" where
  "klive s = heap_live (kernel_heap s) (kmem s)"

definition ktable :: "'a kheap_state_scheme \<Rightarrow> u8 list" where
  "ktable s = table_bytes (kernel_heap s) (kmem s)"

definition kroom :: "'a kheap_state_scheme \<Rightarrow> nat \<Rightarrow> bool" where
  "kroom s n \<longleftrightarrow> (\<exists>b. fits (ktable s) n b)"

definition kavail :: "'a kheap_state_scheme \<Rightarrow> nat" where
  "kavail s = length (filter free_entry (ktable s))"

lemmas kheap_defs = kheap_ok_def klive_def ktable_def kroom_def kavail_def

lemma filter_free_chain: "n > 0 \<Longrightarrow> filter free_entry (chain n) = []"
  by (auto simp: chain_def chain_tail_def free_entry_def filter_empty_conv)

lemma filter_free_replicate: "filter free_entry (replicate n 0) = replicate n 0"
  by (simp add: free_entry_def filter_id_conv)

lemma kmalloc_heap:
  "kmalloc sz s = (p, s') \<longleftrightarrow>
   (\<exists>m'. heap_malloc (kernel_heap s) sz (kmem s) = (p, m') \<and> s' = s\<lparr>kmem := m'\<rparr>)"
  by (auto simp: kmalloc_def split: prod.splits)

lemma kmalloc_law:
  assumes "kheap_ok s" "0 < blocks_of sz" "kroom s (blocks_of sz)" "kmalloc sz s = (p, s')"
  shows "kheap_ok s' \<and> klive s p = None \<and> klive s' = (klive s)(p \<mapsto> blocks_of sz)
      \<and> kavail s = kavail s' + blocks_of sz"
proof -
  obtain m' where m': "heap_malloc (kernel_heap s) sz (kmem s) = (p, m')" "s' = s\<lparr>kmem := m'\<rparr>"
    using assms(4) by (auto simp: kmalloc_heap)
  obtain b where b: "fits (ktable s) (blocks_of sz) b" "\<forall>t < b. \<not> fits (ktable s) (blocks_of sz) t"
    using assms(3) least_fit by (metis kroom_def)
  note fit = heap_malloc_fit [OF assms(1) [unfolded kheap_ok_def] b [unfolded ktable_def] assms(2) m'(1)]
  have "ktable s = take b (ktable s) @ replicate (blocks_of sz) 0 @ drop (b + blocks_of sz) (ktable s)"
    using fits_decomp [OF _ b(1) assms(2)] assms(1) by (simp add: kheap_ok_def heap_ok_def ktable_def)
  then have "kavail s = length (filter free_entry (take b (ktable s)
      @ replicate (blocks_of sz) 0 @ drop (b + blocks_of sz) (ktable s)))"
    by (simp add: kavail_def)
  moreover have "kavail s' = length (filter free_entry (take b (ktable s)
      @ chain (blocks_of sz) @ drop (b + blocks_of sz) (ktable s)))"
    using fit(7) m'(2) by (simp add: kavail_def ktable_def)
  ultimately show ?thesis
    using fit(2,4,5) m'(2) assms(2)
    by (simp add: kheap_ok_def klive_def filter_free_chain filter_free_replicate)
qed

lemma kfree_law:
  assumes "kheap_ok s" "klive s p = Some n"
  shows "kheap_ok (kfree p s) \<and> klive (kfree p s) = (klive s)(p := None)
      \<and> kavail (kfree p s) = kavail s + n"
proof -
  let ?hp = "kernel_heap s" and ?es = "ktable s"
  note free = heap_free_live [OF assms [unfolded kheap_defs]]
  obtain b where b: "n > 0" "b + n \<le> heap_blocks ?hp" "live_blocks ?es b = Some n"
    and f: "heap_free ?hp p (kmem s) =
      write_bytes (kmem s) (entries (table ?hp) + of_nat b) (replicate n 0)"
    using heap_free_bytes [OF assms [unfolded kheap_defs]] by (metis ktable_def)
  have es: "?es = take b ?es @ chain n @ drop (b + n) ?es"
    using live_blocks_decomp [OF _ b(3)] assms(1) by (simp add: kheap_defs heap_ok_def)
  have "ktable (kfree p s) = take b ?es @ replicate n 0 @ drop (b + n) ?es"
    using table_bytes_write [of b "replicate n 0" ?hp "kmem s"] b by (simp add: ktable_def kfree_def f)
  moreover have "kavail s = length (filter free_entry (take b ?es @ chain n @ drop (b + n) ?es))"
    using es by (simp add: kavail_def)
  ultimately show ?thesis
    using free b(1) by (simp add: kheap_ok_def klive_def kavail_def kfree_def
        filter_free_chain filter_free_replicate)
qed

lemma kroom_one: "0 < kavail s \<Longrightarrow> kroom s 1"
  unfolding kroom_def kavail_def fits_def
  by (auto simp: filter_empty_conv in_set_conv_nth Suc_le_eq)

lemma klive_disjoint:
  "kheap_ok s \<Longrightarrow> klive s p = Some n \<Longrightarrow> klive s q = Some k \<Longrightarrow> p \<noteq> q \<Longrightarrow>
   disjoint_ranges p (n * 4096) q (k * 4096)"
  unfolding kheap_defs by (rule heap_live_disjoint)

lemma klive_nonnull: "kheap_ok s \<Longrightarrow> klive s p = Some n \<Longrightarrow> p \<noteq> NULL \<and> n > 0"
  unfolding kheap_defs by (metis heap_live_block heap_ok_def heap_layout_def add_gr_0 unat_0 less_irrefl)

interpretation kh: page_allocator kmalloc kfree kheap_ok klive kroom kavail
  by unfold_locales
    (fact kmalloc_law kfree_law klive_disjoint klive_nonnull | rule kroom_one, assumption)+


text \<open>Memory seen through \<open>kzalloc\<close>: the new buffer is zero, the table keeps its contents.\<close>

lemma table_bytes_cong:
  "(\<And>x. in_range (entries (table hp)) (heap_blocks hp) x \<Longrightarrow> m x = m' x) \<Longrightarrow>
   table_bytes hp m = table_bytes hp m'"
  using unat_u32_bound [of "total (table hp)"]
  unfolding table_bytes_def heap_blocks_def by (intro bytes_at_cong) auto

lemma table_bytes_memset:
  assumes "heap_ok hp m" "heap_live hp m p = Some n" "k \<le> n * 4096"
  shows "table_bytes hp (memset m p v k) = table_bytes hp m"
proof (rule table_bytes_cong)
  fix x assume x: "in_range (entries (table hp)) (heap_blocks hp) x"
  have "\<not> in_range p k x"
    using heap_live_not_table [OF assms(1,2)] x in_range_mono [OF _ assms(3)] by blast
  then show "memset m p v k x = m x"
    using assms(3) heap_live_addr(3) [OF assms(1,2)] by (subst memset_apply) auto
qed


lemma kzalloc_law:
  assumes "kheap_ok s" "0 < unat sz" "unat sz \<le> 2 ^ 32 - 4096" "kroom s (blocks_of sz)"
    "kzalloc sz s = (p, s')"
  shows "kheap_ok s'" "klive s p = None" "klive s' = (klive s)(p \<mapsto> blocks_of sz)"
    "kavail s = kavail s' + blocks_of sz" "p \<noteq> NULL" "kernel_heap s' = kernel_heap s"
    "in_range p (unat sz) x \<Longrightarrow> kmem s' x = 0"
    "\<not> in_range p (unat sz) x \<Longrightarrow>
       \<not> in_range (entries (table (kernel_heap s))) (heap_blocks (kernel_heap s)) x \<Longrightarrow> kmem s' x = kmem s x"
proof -
  have pos: "0 < blocks_of sz" using assms(2,3) by (rule blocks_of_pos)
  obtain s1 where s1: "kmalloc sz s = (p, s1)" by (cases "kmalloc sz s") (use assms(5) in \<open>auto simp: kzalloc_def\<close>)
  note law = kmalloc_law [OF assms(1) pos assms(4) s1]
  show nn: "p \<noteq> NULL" using kh.alloc_nonnull [OF assms(1) pos assms(4) s1] .
  have s': "s' = s1\<lparr>kmem := memset (kmem s1) p 0 (unat sz)\<rparr>"
    using assms(5) s1 nn by (simp add: kzalloc_def)
  have hp: "kernel_heap s1 = kernel_heap s" using s1 by (auto simp: kmalloc_heap)
  have live1: "heap_live (kernel_heap s1) (kmem s1) p = Some (blocks_of sz)"
    and ok1: "heap_ok (kernel_heap s1) (kmem s1)"
    using law by (simp_all add: klive_def [symmetric] kheap_ok_def)
  have tb: "table_bytes (kernel_heap s1) (kmem s') = table_bytes (kernel_heap s1) (kmem s1)"
    using table_bytes_memset [OF ok1 live1] blocks_of_covers [OF assms(3)] by (simp add: s')
  have lv: "heap_live (kernel_heap s1) (kmem s') = heap_live (kernel_heap s1) (kmem s1)"
    by (rule ext) (simp add: heap_live_def tb)
  show "kernel_heap s' = kernel_heap s" by (simp add: s' hp)
  show "kheap_ok s'" using ok1 tb by (simp add: kheap_ok_def heap_ok_def s')
  show "klive s p = None" using law by simp
  show "klive s' = (klive s)(p \<mapsto> blocks_of sz)" using law lv by (simp add: klive_def s')
  show "kavail s = kavail s' + blocks_of sz" using law tb by (simp add: kavail_def ktable_def s')
  show "kmem s' x = 0" if "in_range p (unat sz) x"
    using that assms(3) by (simp add: s' memset_apply)
  show "kmem s' x = kmem s x" if "\<not> in_range p (unat sz) x"
    "\<not> in_range (entries (table (kernel_heap s))) (heap_blocks (kernel_heap s)) x"
  proof -
    obtain m' where m': "heap_malloc (kernel_heap s) sz (kmem s) = (p, m')" "s1 = s\<lparr>kmem := m'\<rparr>"
      using s1 by (auto simp: kmalloc_heap)
    obtain b where b: "fits (ktable s) (blocks_of sz) b" "\<forall>t < b. \<not> fits (ktable s) (blocks_of sz) t"
      using assms(4) least_fit by (metis kroom_def)
    have "m' x = kmem s x"
      using heap_malloc_fit(6) [OF _ _ _ pos m'(1)] b that(2) assms(1)
      by (simp add: kheap_ok_def ktable_def)
    then show ?thesis using that(1) assms(3) m'(2) by (simp add: s' memset_apply)
  qed
qed


lemma kzalloc_page_law:
  assumes "kheap_ok s" "0 < blocks_of sz" "kroom s (blocks_of sz)" "kzalloc sz s = (p, s')"
  shows "kheap_ok s' \<and> klive s p = None \<and> klive s' = (klive s)(p \<mapsto> blocks_of sz)
      \<and> kavail s = kavail s' + blocks_of sz"
proof -
  have "unat sz \<le> 2 ^ 32 - 4096" using assms(2) by (auto simp: blocks_of_eq split: if_splits)
  moreover have "0 < unat sz" using assms(2) by (auto simp: blocks_of_eq intro: gr0I)
  ultimately show ?thesis using kzalloc_law [OF assms(1) _ _ assms(3,4)] by blast
qed

interpretation kz: page_allocator kzalloc kfree kheap_ok klive kroom kavail
  by unfold_locales
    (fact kzalloc_page_law kfree_law klive_disjoint klive_nonnull | rule kroom_one, assumption)+

section \<open>Properties\<close>

text \<open>A three-block heap for the witnesses: table at \<open>0x1000\<close>, pool at \<open>0x10000\<close>.\<close>

definition small_heap :: heap where
  "small_heap = \<lparr>table = \<lparr>entries = 0x1000, total = 3\<rparr>, saddr = 0x10000\<rparr>"

definition small_state :: kheap_state where
  "small_state = \<lparr>kmem = (\<lambda>_. 0), kernel_heap = small_heap\<rparr>"

lemma small_heap_layout: "heap_layout small_heap"
  by (simp add: heap_layout_def small_heap_def heap_blocks_def disjoint_ranges_unat)

lemma small_table: "table_bytes small_heap m = [m 0x1000, m 0x1001, m 0x1002]"
  by (simp add: table_bytes_def small_heap_def bytes_at_def upt_rec)

lemma small_heap_ok: "heap_ok small_heap (\<lambda>_. 0)"
  by (simp add: heap_ok_def small_heap_layout small_table wf_table_def)

lemma small_blocks: "blocks_of 5000 = 2" "blocks_of 9000 = 3" "blocks_of 100 = 1"
  by (simp_all add: blocks_of_eq)

lemma small_fits: "fits (table_bytes small_heap (\<lambda>_. 0)) 2 0"
  by (simp add: small_table fits_def less_Suc_eq numeral_2_eq_2 free_entry_def)

text \<open>
  C2: when a run of free blocks large enough exists, \<open>kmalloc\<close> succeeds: it returns the lowest
  fitting block, a non-null block-aligned address whose whole extent lies in the pool; no
  allocation was live there, every allocation that was live still is and shares no byte with
  the new one, the heap invariant is kept, and no byte outside the block table is written.
\<close>

theorem kmalloc_allocates:
  assumes "kheap_ok s" "0 < unat sz" "unat sz \<le> 2 ^ 32 - 4096" "kroom s (blocks_of sz)"
    "kmalloc sz s = (p, s')"
  shows "kheap_ok s' \<and> p \<noteq> NULL \<and> unat p mod 4096 = 0
     \<and> p = block_addr (kernel_heap s) (LEAST b. fits (ktable s) (blocks_of sz) b)
     \<and> unat sz \<le> blocks_of sz * 4096
     \<and> unat p + blocks_of sz * 4096 \<le>
         unat (saddr (kernel_heap s)) + heap_blocks (kernel_heap s) * 4096
     \<and> klive s p = None \<and> klive s' = (klive s)(p \<mapsto> blocks_of sz)
     \<and> (\<forall>q k. klive s q = Some k \<longrightarrow> disjoint_ranges p (blocks_of sz * 4096) q (k * 4096))
     \<and> (\<forall>x. \<not> in_range (entries (table (kernel_heap s))) (heap_blocks (kernel_heap s)) x \<longrightarrow>
          kmem s' x = kmem s x)"
proof -
  have pos: "0 < blocks_of sz" using assms(2,3) by (rule blocks_of_pos)
  obtain m' where m': "heap_malloc (kernel_heap s) sz (kmem s) = (p, m')" "s' = s\<lparr>kmem := m'\<rparr>"
    using assms(5) by (auto simp: kmalloc_heap)
  let ?b = "LEAST b. fits (ktable s) (blocks_of sz) b"
  have b: "fits (ktable s) (blocks_of sz) ?b" "\<forall>t < ?b. \<not> fits (ktable s) (blocks_of sz) t"
    using assms(4) by (auto simp: kroom_def intro: LeastI dest: not_less_Least)
  note fit = heap_malloc_fit [OF assms(1) [unfolded kheap_ok_def] b [unfolded ktable_def] pos m'(1)]
  have "heap_live (kernel_heap s) m' p = Some (blocks_of sz)" using fit(5) by simp
  note addr = heap_live_addr [OF fit(2) this]
  have "\<forall>q k. klive s q = Some k \<longrightarrow> disjoint_ranges p (blocks_of sz * 4096) q (k * 4096)"
    using kh.alloc_fresh [OF assms(1) pos assms(4,5)] by blast
  then show ?thesis
    using kmalloc_law [OF assms(1) pos assms(4,5)] addr fit(1,6) m'(2) blocks_of_covers [OF assms(3)]
    by (simp add: ktable_def)
qed

theorem kmalloc_allocates_witness:
  "\<exists>p s'. kmalloc 5000 small_state = (p, s') \<and> p = 0x10000 \<and> klive s' 0x10000 = Some 2"
proof -
  obtain p s' where ps: "kmalloc 5000 small_state = (p, s')" by fastforce
  have ok: "kheap_ok small_state" by (simp add: kheap_ok_def small_state_def small_heap_ok)
  have fits: "fits (ktable small_state) (blocks_of 5000) 0"
    using small_fits by (simp add: ktable_def small_state_def small_blocks)
  then have "(LEAST b. fits (ktable small_state) (blocks_of 5000) b) = 0" by (rule Least_eq_0)
  moreover have "kroom small_state (blocks_of 5000)" using fits by (auto simp: kroom_def)
  ultimately show ?thesis
    using kmalloc_allocates [OF ok _ _ _ ps] ps
    by (auto simp: small_blocks block_addr_def small_state_def small_heap_def)
qed


text \<open>
  C3: \<open>kfree\<close> of a live allocation removes exactly that allocation: the invariant is kept, all
  other allocations stay live with their sizes, its blocks become available again, and no byte
  outside the block table is written.
\<close>

theorem kfree_releases:
  assumes "kheap_ok s" "klive s p = Some n"
  shows "kheap_ok (kfree p s) \<and> klive (kfree p s) = (klive s)(p := None)
     \<and> kavail (kfree p s) = kavail s + n
     \<and> (\<forall>x. \<not> in_range (entries (table (kernel_heap s))) (heap_blocks (kernel_heap s)) x \<longrightarrow>
          kmem (kfree p s) x = kmem s x)"
  using kfree_law [OF assms] heap_free_live(3) [OF assms [unfolded kheap_defs]]
  by (simp add: kfree_def)

definition used_mem :: mem where
  "used_mem = (\<lambda>_. 0)(0x1000 := 0xC1, 0x1001 := 0x01)"

theorem kfree_releases_witness:
  "klive (kfree 0x10000 \<lparr>kmem = used_mem, kernel_heap = small_heap\<rparr>) 0x10000 = None"
proof -
  let ?s = "\<lparr>kmem = used_mem, kernel_heap = small_heap\<rparr>"
  have ok: "kheap_ok ?s"
    by (simp add: kheap_ok_def heap_ok_def small_heap_layout small_table used_mem_def wf_table_def)
  have live: "klive ?s 0x10000 = Some 2"
    by (simp add: klive_def heap_live_def small_table)
      (simp add: live_blocks_def used_mem_def small_heap_def)
  show ?thesis using kfree_releases [OF ok live] by simp
qed

text \<open>
  Releasing what was just allocated restores every byte of memory, so the table is exactly
  what it was before.
\<close>

theorem heap_malloc_free_roundtrip:
  assumes "heap_ok hp m" "fits (table_bytes hp m) (blocks_of sz) s" "0 < blocks_of sz"
    "heap_malloc hp sz m = (p, m')"
  shows "heap_free hp p m' = m"
proof -
  let ?n = "blocks_of sz" and ?es = "table_bytes hp m"
  obtain b where b: "fits ?es ?n b" "\<forall>t < b. \<not> fits ?es ?n t" using least_fit [OF assms(2)] .
  note fit = heap_malloc_fit [OF assms(1) b assms(3,4)]
  have m': "m' = write_bytes m (entries (table hp) + of_nat b) (chain ?n)"
    using heap_malloc_bytes [OF assms(1) b assms(3)] assms(4) by simp
  have lay: "heap_layout hp" using assms(1) by (simp add: heap_ok_def)
  have live: "heap_live hp m' p = Some ?n" using fit(5) by simp
  obtain c where c: "p = block_addr hp c" "c + ?n \<le> heap_blocks hp"
    and f: "heap_free hp p m' = write_bytes m' (entries (table hp) + of_nat c) (replicate ?n 0)"
    using heap_free_bytes [OF fit(2) live] .
  have "unat (p - saddr hp) = b * 4096"
    unfolding fit(1) using fit(3) by (intro block_addr_offset [OF lay]) simp
  moreover have "unat (p - saddr hp) = c * 4096"
    unfolding c(1) using c(2) by (intro block_addr_offset [OF lay]) simp
  ultimately have "b = c" by simp
  have nb: "?n \<le> 2 ^ 32" using fit(3) lay by (simp add: heap_layout_def)
  show ?thesis
  proof
    fix x
    let ?a = "entries (table hp) + of_nat b"
    show "heap_free hp p m' x = m x"
    proof (cases "in_range ?a ?n x")
      case True
      then obtain j where j: "j < ?n" "x = ?a + of_nat j" by (rule in_rangeE)
      have "?es ! (b + j) = (take b ?es @ replicate ?n 0 @ drop (b + ?n) ?es) ! (b + j)"
        using fits_decomp [OF _ b(1) assms(3)] assms(1) by (simp add: heap_ok_def)
      then have "?es ! (b + j) = 0" using j fit(3) by (simp add: nth_append heap_blocks_def)
      then have "m x = 0"
        using nth_table_bytes [of "b + j" hp m] j fit(3) by (simp add: heap_blocks_def add.assoc)
      moreover have "unat (x - ?a) < ?n" using True by (simp add: in_range_def)
      ultimately show ?thesis using True nb by (simp add: f \<open>b = c\<close> [symmetric] write_bytes_apply)
    next
      case False
      then show ?thesis
        using nb assms(3) unfolding f \<open>b = c\<close> [symmetric] by (simp add: m' write_bytes_apply)
    qed
  qed
qed

theorem heap_malloc_free_roundtrip_witness:
  "\<exists>p m'. heap_malloc small_heap 5000 (\<lambda>_. 0) = (p, m') \<and> heap_free small_heap p m' = (\<lambda>_. 0)"
proof -
  obtain p m' where pm: "heap_malloc small_heap 5000 (\<lambda>_. 0) = (p, m')" by fastforce
  then show ?thesis
    using heap_malloc_free_roundtrip [OF small_heap_ok _ _ pm, of 0] small_fits
    by (simp add: small_blocks)
qed

text \<open>
  When no run of free blocks is large enough and the last block of the pool is taken,
  \<open>heap_malloc\<close> returns the null pointer and leaves memory as it was.
\<close>

theorem heap_malloc_exhausted:
  assumes "\<forall>b. \<not> fits (table_bytes hp m) (blocks_of sz) b" "0 < blocks_of sz"
    "table_bytes hp m = [] \<or> \<not> free_entry (last (table_bytes hp m))"
  shows "heap_malloc hp sz m = (NULL, m)"
  using heap_get_start_blocks_nofit_full [OF assms [unfolded blocks_of_def]]
  by (simp add: heap_malloc_def heap_malloc_blocks_def Let_def os_defs)

definition fragmented_mem :: mem where
  "fragmented_mem = (\<lambda>_. 0)(0x1000 := 0x41, 0x1002 := 0x41)"

lemma fragmented_no_fit: "\<not> fits (table_bytes small_heap fragmented_mem) 2 b"
proof
  assume "fits (table_bytes small_heap fragmented_mem) 2 b"
  then have "b \<in> {0, 1}" "free_entry (table_bytes small_heap fragmented_mem ! (b + 0))"
    "free_entry (table_bytes small_heap fragmented_mem ! (b + 1))"
    unfolding fits_def small_table by (auto simp: less_2_cases_iff)
  then show False by (auto simp: small_table fragmented_mem_def free_entry_def)
qed

theorem heap_malloc_exhausted_witness:
  "heap_malloc small_heap 5000 fragmented_mem = (NULL, fragmented_mem)"
proof (rule heap_malloc_exhausted)
  show "\<forall>b. \<not> fits (table_bytes small_heap fragmented_mem) (blocks_of 5000) b"
    using fragmented_no_fit by (simp add: small_blocks)
qed (simp_all add: small_blocks small_table fragmented_mem_def free_entry_def)

text \<open>
  C4: when no run of free blocks is large enough but the last block of the pool is free,
  \<open>heap_malloc\<close> does not fail: it returns the start \<open>b\<close> of the trailing free run, and writes a
  chain of the requested length there, which runs past the end of the block table.
\<close>

theorem heap_malloc_overruns_table:
  assumes "heap_layout hp" "\<forall>t. \<not> fits (table_bytes hp m) (blocks_of sz) t" "0 < blocks_of sz"
    "b < heap_blocks hp" "\<forall>k. b \<le> k \<and> k < heap_blocks hp \<longrightarrow> free_entry (table_bytes hp m ! k)"
    "b = 0 \<or> \<not> free_entry (table_bytes hp m ! (b - 1))"
  shows "heap_malloc hp sz m =
      (block_addr hp b, write_bytes m (entries (table hp) + of_nat b) (chain (blocks_of sz)))
    \<and> block_addr hp b \<noteq> NULL \<and> heap_blocks hp < b + blocks_of sz"
proof -
  define N where "N = unat (total (table hp))"
  define n where "n = heap_align_value_to_upper sz div ALPHAOS_HEAP_BLOCK_SIZE"
  define P where "P = (\<lambda>k. free_entry (m (entries (table hp) + of_nat k)))"
  let ?r = "heap_get_start_blocks_loop m (table hp) n 0 0 (- 1)"
  have n: "unat n = blocks_of sz" by (simp add: n_def blocks_of_def)
  have P: "P k \<longleftrightarrow> free_entry (table_bytes hp m ! k)" if "k < N" for k
    using that nth_table_bytes [of k hp m] by (simp add: P_def N_def)
  have N: "heap_blocks hp = N" by (simp add: N_def heap_blocks_def)
  have "\<not> window P N (unat n) s" for s
    using assms(2) window_fits [of P m hp "unat n" s] by (simp add: P_def N_def n)
  moreover have "search_result P N (unat n) ?r"
    using heap_get_start_blocks_search [of n m hp] assms(3) by (simp add: P_def N_def n)
  ultimately obtain c where "?r = - 1 \<and> (N = 0 \<or> \<not> P (N - 1)) \<or>
      (?r = int c \<and> c < N \<and> (\<forall>k. c \<le> k \<and> k < N \<longrightarrow> P k) \<and> (c = 0 \<or> \<not> P (c - 1)))"
    by (auto simp: search_result_def)
  moreover have "P (N - 1)" using assms(4,5) P [of "N - 1"] by (simp add: N)
  ultimately have c: "?r = int c" "c < N" "\<forall>k. c \<le> k \<and> k < N \<longrightarrow> P k" "c = 0 \<or> \<not> P (c - 1)"
    using assms(4) N by auto
  have "\<not> c < b"
  proof
    assume "c < b"
    then have "c \<le> b - 1 \<and> b - 1 < N" "b \<noteq> 0" using assms(4) N by auto
    then show False using c(3) assms(6) P [of "b - 1"] by blast
  qed
  moreover have "\<not> b < c"
  proof
    assume "b < c"
    then have "b \<le> c - 1 \<and> c - 1 < N" "c \<noteq> 0" using c(2) by auto
    then show False using c(4) assms(5) P [of "c - 1"] N by blast
  qed
  ultimately have "c = b" by simp
  have over: "N < b + blocks_of sz"
  proof (rule ccontr)
    assume "\<not> ?thesis"
    then have "fits (table_bytes hp m) (blocks_of sz) b"
      using assms(5) by (simp add: fits_def N flip: N_def)
    with assms(2) show False by blast
  qed
  have "blocks_of sz \<le> 2 ^ 20"
    using div_le_mono [of "unat sz + 4095" "2 ^ 32" 4096] by (simp add: blocks_of_eq)
  moreover have "N * 4096 < 2 ^ 31" using assms(1) by (simp add: heap_layout_def N)
  ultimately have "b + unat n < 2 ^ 31" using assms(4) by (simp add: N n)
  then have "heap_malloc hp sz m =
      (block_addr hp b, write_bytes m (entries (table hp) + of_nat b) (chain (blocks_of sz)))"
    using c(1) \<open>c = b\<close> assms(3) n
    by (simp add: heap_malloc_def Let_def heap_malloc_blocks_def heap_get_start_blocks_def
        heap_block_to_address_nat heap_mark_block_taken_bytes flip: n_def)
  moreover have "block_addr hp b \<noteq> NULL"
    using block_addr_unat [OF assms(1,4)] assms(1) by (auto simp: heap_layout_def)
  ultimately show ?thesis using over N by simp
qed

text \<open>Witness: in an empty heap of three blocks, a request for four returns block 0.\<close>

theorem heap_malloc_overruns_table_witness:
  "fst (heap_malloc small_heap 13000 (\<lambda>_. 0)) = 0x10000
   \<and> snd (heap_malloc small_heap 13000 (\<lambda>_. 0)) 0x1003 = 0x01"
proof -
  have n: "blocks_of 13000 = 4" by (simp add: blocks_of_eq)
  have N: "heap_blocks small_heap = 3" by (simp add: heap_blocks_def small_heap_def)
  have tb: "table_bytes small_heap (\<lambda>_. 0) = replicate 3 0"
    by (simp add: small_table eval_nat_numeral)
  have "heap_malloc small_heap 13000 (\<lambda>_. 0) = (block_addr small_heap 0,
      write_bytes (\<lambda>_. 0) (entries (table small_heap) + of_nat 0) (chain (blocks_of 13000)))"
    using heap_malloc_overruns_table [OF small_heap_layout, of "\<lambda>_. 0" 13000 0]
    by (simp add: n N tb fits_def free_entry_def)
  then show ?thesis
    by (simp add: n block_addr_def small_heap_def chain_def chain_tail_def)
      (simp add: eval_nat_numeral)
qed


lemma kheap_init_eq:
  "kheap_init s = s\<lparr>kmem := memset (kmem s) 0x7E00 0 25600,
     kernel_heap := \<lparr>table = \<lparr>entries = 0x7E00, total = 25600\<rparr>, saddr = 0x1000000\<rparr>\<rparr>"
  by (simp add: kheap_init_def kheap_table_def heap_create_def heap_validate_alignment_def
      heap_validate_table_def os_defs Let_def)

lemma kheap_init_law:
  "kheap_ok (kheap_init s) \<and> klive (kheap_init s) = Map.empty \<and> kavail (kheap_init s) = 25600
   \<and> (\<forall>x. in_range 0x7E00 25600 x \<or> kmem (kheap_init s) x = kmem s x)"
proof -
  let ?hp = "\<lparr>table = \<lparr>entries = 0x7E00, total = 25600\<rparr>, saddr = 0x1000000\<rparr> :: heap"
  let ?m = "memset (kmem s) 0x7E00 0 25600"
  have tb: "table_bytes ?hp ?m = replicate 25600 0"
    by (rule nth_equalityI) (simp_all add: table_bytes_def memset_apply)
  have lay: "heap_layout ?hp" by (simp add: heap_layout_def heap_blocks_def disjoint_ranges_unat)
  have "heap_live ?hp ?m p = None" for p by (simp only: heap_live_def tb) simp
  then have "klive (kheap_init s) = Map.empty" by (auto simp: klive_def kheap_init_eq)
  moreover have "kheap_ok (kheap_init s)"
    by (simp only: kheap_ok_def heap_ok_def kheap_init_eq) (simp add: lay tb wf_table_parts)
  moreover have "kavail (kheap_init s) = 25600"
    by (simp add: kavail_def ktable_def kheap_init_eq tb filter_free_replicate)
  ultimately show ?thesis by (simp add: kheap_init_eq memset_apply)
qed

text \<open>
  \<open>kheap_init\<close> succeeds from any state: it establishes the heap invariant with all 25600
  blocks free and no live allocation, and writes only the block table.
\<close>

theorem kheap_init_establishes:
  "kheap_ok (kheap_init s) \<and> klive (kheap_init s) = Map.empty \<and> kavail (kheap_init s) = 25600
   \<and> (\<forall>x. in_range 0x7E00 25600 x \<or> kmem (kheap_init s) x = kmem s x)"
  by (rule kheap_init_law)

lemma start_loop_bound:
  "bs < int N \<Longrightarrow> - 1 \<le> bs \<Longrightarrow> N = unat (total tbl) \<Longrightarrow>
   - 1 \<le> heap_get_start_blocks_loop m tbl n i bc bs \<and>
   heap_get_start_blocks_loop m tbl n i bc bs < int N"
proof (induction m tbl n i bc bs rule: heap_get_start_blocks_loop.induct)
  case (1 m tbl n i bc bs)
  show ?case
  proof (cases "i < N \<and> heap_get_entry_type (m (entries tbl + of_nat i)) = HEAP_BLOCK_TABLE_ENTRY_FREE")
    case True
    with 1 show ?thesis
      by (simp only: heap_get_start_blocks_loop.simps [of m tbl n i bc bs] Let_def)
        (auto simp: uint_less_unat)
  next
    case False
    with 1 show ?thesis
      by (simp only: heap_get_start_blocks_loop.simps [of m tbl n i bc bs] Let_def) auto
  qed
qed

text \<open>A request that rounds to no block writes nothing.\<close>

lemma heap_malloc_no_block:
  assumes "blocks_of sz = 0" "heap_layout hp"
  shows "snd (heap_malloc hp sz m) = m"
proof -
  have z: "heap_align_value_to_upper sz div ALPHAOS_HEAP_BLOCK_SIZE = 0"
    using assms(1) by (simp add: word_unat_eq_iff blocks_of_def)
  have b: "heap_get_start_blocks hp 0 m < int (unat (total (table hp)))"
    using start_loop_bound [of "- 1" _ "table hp" m 0 0 0, OF _ _ refl] uint_ge_0 [of "total (table hp)"]
    by (auto simp: heap_get_start_blocks_def Let_def os_defs)
  have N: "int (unat (total (table hp))) < 2 ^ 31"
    using assms(2) uint_less_unat(2) [of "total (table hp)" "2 ^ 31"]
    by (simp add: heap_layout_def heap_blocks_def)
  have "snd (heap_malloc_blocks hp 0 m) = m"
  proof (cases "heap_get_start_blocks hp 0 m < 0")
    case False
    define r where "r = heap_get_start_blocks hp 0 m"
    have "s32 (r + 0 - 1) = r - 1" using False b N by (subst s32_id) (simp_all add: r_def)
    then show ?thesis using False
      by (simp add: heap_malloc_blocks_def heap_mark_block_taken_def Let_def flip: r_def)
        (subst heap_mark_block_taken_loop.simps, simp)
  qed (simp add: heap_malloc_blocks_def Let_def)
  then show ?thesis by (simp add: heap_malloc_def z Let_def)
qed

text \<open>
  Requests for more than \<open>0xFFFFF000\<close> bytes wrap around in \<open>heap_align_value_to_upper\<close> and
  are treated as requests for no block at all: \<open>heap_malloc\<close> reserves nothing and writes nothing,
  even when it returns a non-null pointer.
\<close>

theorem heap_malloc_size_wraps:
  assumes "0xFFFFF000 < unat sz" "heap_layout hp"
  shows "snd (heap_malloc hp sz m) = m"
  using assms by (intro heap_malloc_no_block) (simp_all add: blocks_of_eq)

theorem heap_malloc_size_wraps_witness:
  "snd (heap_malloc small_heap 0xFFFFFFFF (\<lambda>_. 0)) = (\<lambda>_. 0)"
  by (rule heap_malloc_size_wraps) (simp_all add: small_heap_layout)

text \<open>
  \<open>kfree(NULL)\<close> is not harmless. On the kernel's heap the null pointer is block \<open>-4096\<close>, and
  the byte at \<open>0x6E00\<close>, below the block table, is cleared (and the bytes after it as long as
  their top bit is set).
\<close>

theorem kfree_null_clears_byte:
  assumes "kernel_heap s = kernel_heap (kheap_init s)" "kmem s 0x6E00 AND 0x80 = 0"
  shows "kfree NULL s = s\<lparr>kmem := (kmem s)(0x6E00 := 0)\<rparr>"
proof -
  have "sint (- 0x1000000 :: u32) = - 0x1000000" by simp
  then have "heap_address_to_block (kernel_heap s) NULL = - 4096"
    by (simp add: assms(1) kheap_init_eq heap_address_to_block_def cdiv_def os_defs)
  then show ?thesis
    using assms(2)
    by (simp add: kfree_def heap_free_def heap_mark_block_free_def)
      (subst heap_mark_block_free_loop.simps, simp add: assms(1) kheap_init_eq os_defs Let_def)
qed

theorem kfree_null_clears_byte_witness:
  "kmem (kfree NULL ((kheap_init small_state)\<lparr>kmem := (\<lambda>_. 0x7F)\<rparr>)) 0x6E00 = 0"
proof -
  let ?s = "(kheap_init small_state)\<lparr>kmem := (\<lambda>_. 0x7F)\<rparr>"
  have "kfree NULL ?s = ?s\<lparr>kmem := (kmem ?s)(0x6E00 := 0)\<rparr>"
    by (rule kfree_null_clears_byte) (simp_all add: kheap_init_eq)
  then show ?thesis by simp
qed

end
