(* ===== verification/Alloc.thy ===== *)
theory Alloc
  imports Heap
begin

text \<open>
  Reasoning about code that allocates: which bytes a component may rely on (\<open>held\<close>), what a
  run of allocations and writes to fresh memory keeps (\<open>extends\<close>), and what a run of
  \<open>kfree\<close> calls leaves (\<open>freed\<close>). The facts rest on the laws of the kernel heap only.
\<close>

section \<open>Live allocations\<close>

lemma klive_page_disjoint:
  "kheap_ok s \<Longrightarrow> klive s p = Some 1 \<Longrightarrow> klive s q = Some 1 \<Longrightarrow> p \<noteq> q \<Longrightarrow>
   in_range p 4096 x \<Longrightarrow> \<not> in_range q 4096 x"
  using klive_disjoint [of s p 1 q 1] by (auto simp: disjoint_ranges_def)

lemma klive_page_aligned: "kheap_ok s \<Longrightarrow> klive s p = Some n \<Longrightarrow> unat p mod 4096 = 0"
  unfolding kheap_defs by (rule heap_live_addr)

text \<open>Two memories that agree on the block table are the same heap.\<close>

lemma kheap_cong:
  assumes "kernel_heap s' = kernel_heap s"
    "\<And>x. in_range (entries (table (kernel_heap s))) (heap_blocks (kernel_heap s)) x \<Longrightarrow>
       kmem s' x = kmem s x"
  shows "kheap_ok s' = kheap_ok s" "klive s' = klive s" "kavail s' = kavail s" "kroom s' = kroom s"
proof -
  have "table_bytes (kernel_heap s) (kmem s') = table_bytes (kernel_heap s) (kmem s)"
    using assms(2) by (rule table_bytes_cong)
  then show "kheap_ok s' = kheap_ok s" "klive s' = klive s" "kavail s' = kavail s" "kroom s' = kroom s"
    using assms(1) by (auto simp: kheap_defs heap_ok_def heap_live_def)
qed

text \<open>Writes inside a live allocation leave the heap's own data alone.\<close>

lemma kheap_store:
  assumes "kheap_ok s" "klive s p = Some n" "kernel_heap s' = kernel_heap s"
    "\<And>x. \<not> in_range p (n * 4096) x \<Longrightarrow> kmem s' x = kmem s x"
  shows "kheap_ok s'" "klive s' = klive s" "kavail s' = kavail s"
proof -
  have "kmem s' x = kmem s x"
    if "in_range (entries (table (kernel_heap s))) (heap_blocks (kernel_heap s)) x" for x
    using heap_live_not_table [of "kernel_heap s" "kmem s" p n x] that assms(1,2,4)
    by (auto simp: kheap_ok_def klive_def)
  with assms(1,3) show "kheap_ok s'" "klive s' = klive s" "kavail s' = kavail s"
    using kheap_cong [of s' s] by blast+
qed

section \<open>Held bytes\<close>

text \<open>
  A byte is held when no allocation can hand it out and the allocator does not write it: it is
  not in the block table, and if it is in the pool it belongs to a live allocation.
\<close>

definition live_bytes :: "'a kheap_state_scheme \<Rightarrow> addr \<Rightarrow> bool" where
  "live_bytes s x \<longleftrightarrow> (\<exists>q n. klive s q = Some n \<and> in_range q (n * 4096) x)"

definition in_table :: "'a kheap_state_scheme \<Rightarrow> addr \<Rightarrow> bool" where
  "in_table s x \<longleftrightarrow> in_range (entries (table (kernel_heap s))) (heap_blocks (kernel_heap s)) x"

definition in_pool :: "'a kheap_state_scheme \<Rightarrow> addr \<Rightarrow> bool" where
  "in_pool s x \<longleftrightarrow> in_range (saddr (kernel_heap s)) (heap_blocks (kernel_heap s) * 4096) x"

definition held :: "'a kheap_state_scheme \<Rightarrow> addr \<Rightarrow> bool" where
  "held s x \<longleftrightarrow> \<not> in_table s x \<and> (in_pool s x \<longrightarrow> live_bytes s x)"

lemma klive_in_pool:
  assumes "kheap_ok s" "klive s p = Some n" "in_range p (n * 4096) x"
  shows "in_pool s x" "\<not> in_table s x"
proof -
  note a = heap_live_addr [of "kernel_heap s" "kmem s" p n]
  have "heap_layout (kernel_heap s)" using assms(1) by (simp add: kheap_ok_def heap_ok_def)
  then have top: "unat (saddr (kernel_heap s)) + heap_blocks (kernel_heap s) * 4096 \<le> 2 ^ 32"
    by (simp add: heap_layout_def)
  show "in_pool s x"
    using assms a top by (simp add: kheap_ok_def klive_def in_pool_def in_range_unat)
  show "\<not> in_table s x"
    using assms heap_live_not_table [of "kernel_heap s" "kmem s" p n x]
    by (simp add: kheap_ok_def klive_def in_table_def)
qed

lemma held_live: "kheap_ok s \<Longrightarrow> live_bytes s x \<Longrightarrow> held s x"
  unfolding held_def live_bytes_def using klive_in_pool by blast

lemma held_page: "kheap_ok s \<Longrightarrow> klive s p = Some n \<Longrightarrow> in_range p (n * 4096) x \<Longrightarrow> held s x"
  by (rule held_live) (auto simp: live_bytes_def)

lemma held_mono:
  "kernel_heap s' = kernel_heap s \<Longrightarrow> klive s \<subseteq>\<^sub>m klive s' \<Longrightarrow> held s x \<Longrightarrow> held s' x"
  unfolding held_def in_table_def in_pool_def live_bytes_def map_le_def by (metis domI)

text \<open>A new allocation takes no held byte.\<close>

lemma held_fresh:
  assumes "kheap_ok s'" "klive s' p = Some n" "klive s p = None" "klive s \<subseteq>\<^sub>m klive s'"
    "kernel_heap s' = kernel_heap s" "held s x"
  shows "\<not> in_range p (n * 4096) x"
proof
  assume x: "in_range p (n * 4096) x"
  then have "in_pool s x" using klive_in_pool [OF assms(1,2) x] assms(5) by (simp add: in_pool_def)
  then obtain q k where q: "klive s q = Some k" "in_range q (k * 4096) x"
    using assms(6) by (auto simp: held_def live_bytes_def)
  then have "klive s' q = Some k" "q \<noteq> p" using assms(3,4) by (auto simp: map_le_def dom_def)
  then show False
    using klive_disjoint [OF assms(1) _ assms(2), of q k] q(2) x by (auto simp: disjoint_ranges_def)
qed

section \<open>Extending a state\<close>

definition extends :: "'a kheap_state_scheme \<Rightarrow> 'a kheap_state_scheme \<Rightarrow> bool" where
  "extends s0 s \<longleftrightarrow> s = s0\<lparr>kmem := kmem s\<rparr> \<and> klive s0 \<subseteq>\<^sub>m klive s
     \<and> (\<forall>x. held s0 x \<longrightarrow> kmem s x = kmem s0 x)"

lemma kmem_only_heap: "s = s0\<lparr>kmem := m\<rparr> \<Longrightarrow> kernel_heap s = kernel_heap s0"
  by simp

lemma kmem_only_trans: "t = s\<lparr>kmem := kmem t\<rparr> \<Longrightarrow> u = t\<lparr>kmem := kmem u\<rparr> \<Longrightarrow> u = s\<lparr>kmem := kmem u\<rparr>"
  by (metis kheap_state.update_convs(1) kheap_state.surjective)

lemma extends_heap: "extends s0 s \<Longrightarrow> kernel_heap s = kernel_heap s0"
  unfolding extends_def using kmem_only_heap by blast

lemma extends_refl: "extends s s"
  by (simp add: extends_def)

lemma extends_live: "extends s s' \<Longrightarrow> klive s p = Some n \<Longrightarrow> klive s' p = Some n"
  unfolding extends_def map_le_def by (metis domI)

lemma extends_fresh: "extends s s' \<Longrightarrow> klive s' p = None \<Longrightarrow> klive s p = None"
  using extends_live by (metis option.exhaust option.distinct(1))

lemma extends_held: "extends s s' \<Longrightarrow> held s x \<Longrightarrow> held s' x"
  using extends_heap held_mono unfolding extends_def by blast

lemma extends_mem: "extends s s' \<Longrightarrow> held s x \<Longrightarrow> kmem s' x = kmem s x"
  by (simp add: extends_def)

lemma extends_trans: "extends s t \<Longrightarrow> extends t u \<Longrightarrow> extends s u"
proof -
  assume a: "extends s t" "extends t u"
  then have "u = s\<lparr>kmem := kmem u\<rparr>" unfolding extends_def using kmem_only_trans by blast
  moreover have "kmem u x = kmem s x" if "held s x" for x
    using extends_mem [OF a(2) extends_held [OF a(1) that]] extends_mem [OF a(1) that] by simp
  ultimately show ?thesis using a map_le_trans unfolding extends_def by metis
qed

lemma extends_page:
  "extends s s' \<Longrightarrow> kheap_ok s \<Longrightarrow> klive s p = Some 1 \<Longrightarrow> in_range p 4096 x \<Longrightarrow> kmem s' x = kmem s x"
  by (rule extends_mem) (use held_page [of s p 1 x] in simp_all)

text \<open>Allocating zeroed memory, and writing inside an allocation that is new, extend a state.\<close>

lemma kzalloc_extends:
  assumes "kheap_ok s" "kroom s (blocks_of sz)" "0 < unat sz" "unat sz \<le> 2 ^ 32 - 4096"
    "kzalloc sz s = (p, s')"
  shows "extends s s'" "kheap_ok s'" "klive s p = None" "klive s' = (klive s)(p \<mapsto> blocks_of sz)"
    "kavail s = kavail s' + blocks_of sz" "p \<noteq> NULL" "in_range p (unat sz) x \<Longrightarrow> kmem s' x = 0"
proof -
  note law = kzalloc_law [OF assms(1,3,4,2,5)]
  show c: "kheap_ok s'" "klive s p = None" "klive s' = (klive s)(p \<mapsto> blocks_of sz)"
    "kavail s = kavail s' + blocks_of sz" "p \<noteq> NULL" "in_range p (unat sz) x \<Longrightarrow> kmem s' x = 0"
    using law by simp_all
  have le: "klive s \<subseteq>\<^sub>m klive s'" using c(2,3) by (auto simp: map_le_def)
  have "s' = s\<lparr>kmem := kmem s'\<rparr>"
    using assms(5) by (auto simp: kzalloc_def kmalloc_def split: prod.splits if_splits)
  moreover have "kmem s' x = kmem s x" if "held s x" for x
  proof (rule law(8))
    have "\<not> in_range p (blocks_of sz * 4096) x"
      using held_fresh [OF c(1) _ c(2) le law(6) that] c(3) by simp
    then show "\<not> in_range p (unat sz) x"
      using in_range_mono [OF _ blocks_of_covers [OF assms(4)]] by blast
  qed (use that in \<open>simp add: held_def in_table_def\<close>)
  ultimately show "extends s s'" using le by (simp add: extends_def)
qed

lemma kzalloc_page_extends:
  assumes "kheap_ok s" "0 < kavail s" "0 < unat sz" "unat sz \<le> 4096" "kzalloc sz s = (p, s')"
  shows "extends s s'" "kheap_ok s'" "klive s p = None" "klive s' = (klive s)(p \<mapsto> 1)"
    "kavail s = Suc (kavail s')" "p \<noteq> NULL" "in_range p (unat sz) x \<Longrightarrow> kmem s' x = 0"
  using kzalloc_extends [OF assms(1) _ assms(3) _ assms(5)] kroom_one [OF assms(2)] assms(3,4)
  by (simp_all add: blocks_of_1)

lemma store_extends:
  assumes "kheap_ok s" "klive s p = Some n" "extends s0 s" "klive s0 p = None"
    "\<And>x. \<not> in_range p (n * 4096) x \<Longrightarrow> m' x = kmem s x"
  shows "extends s0 (s\<lparr>kmem := m'\<rparr>)" "kheap_ok (s\<lparr>kmem := m'\<rparr>)" "klive (s\<lparr>kmem := m'\<rparr>) = klive s"
    "kavail (s\<lparr>kmem := m'\<rparr>) = kavail s"
proof -
  show heap: "kheap_ok (s\<lparr>kmem := m'\<rparr>)" "klive (s\<lparr>kmem := m'\<rparr>) = klive s"
    "kavail (s\<lparr>kmem := m'\<rparr>) = kavail s"
    using assms(5) by (rule_tac kheap_store [OF assms(1,2)]; simp)+
  have le: "klive s0 \<subseteq>\<^sub>m klive s" using assms(3) by (simp only: extends_def)
  have "m' x = kmem s0 x" if "held s0 x" for x
    using held_fresh [OF assms(1,2,4) le extends_heap [OF assms(3)] that] assms(5)
      extends_mem [OF assms(3) that] by simp
  moreover have "s\<lparr>kmem := m'\<rparr> = s0\<lparr>kmem := m'\<rparr>"
    using assms(3) unfolding extends_def by (metis kheap_state.update_convs(1) kheap_state.surjective)
  ultimately show "extends s0 (s\<lparr>kmem := m'\<rparr>)"
    using le heap(2) by (simp add: extends_def)
qed

section \<open>Releasing memory\<close>

text \<open>\<open>freed s P s'\<close>: from \<open>s\<close> to \<open>s'\<close> exactly the allocations \<open>P\<close> were released.\<close>

definition freed :: "'a kheap_state_scheme \<Rightarrow> addr set \<Rightarrow> 'a kheap_state_scheme \<Rightarrow> bool" where
  "freed s P s' \<longleftrightarrow> kheap_ok s' \<and> s' = s\<lparr>kmem := kmem s'\<rparr>
     \<and> klive s' = (\<lambda>q. if q \<in> P then None else klive s q)
     \<and> kavail s' = kavail s + (\<Sum>p\<in>P. the (klive s p))
     \<and> (\<forall>x. \<not> in_table s x \<longrightarrow> kmem s' x = kmem s x)"

lemma freed_refl: "kheap_ok s \<Longrightarrow> freed s {} s"
  by (simp add: freed_def)

lemma freed_insert:
  assumes "freed s P s'" "klive s p = Some n" "p \<notin> P" "finite P"
  shows "freed s (insert p P) (kfree p s')"
proof -
  have a: "kheap_ok s'" "s' = s\<lparr>kmem := kmem s'\<rparr>" "klive s' p = Some n"
      "kavail s' = kavail s + (\<Sum>p\<in>P. the (klive s p))"
    and l: "klive s' = (\<lambda>q. if q \<in> P then None else klive s q)"
    and m: "\<And>x. \<not> in_table s x \<Longrightarrow> kmem s' x = kmem s x"
    using assms(1-3) by (simp_all add: freed_def)
  have hp: "kernel_heap s' = kernel_heap s" using a(2) by (rule kmem_only_heap)
  have "kmem (kfree p s') x = kmem s x" if "\<not> in_table s x" for x
    using m [OF that] heap_free_live(3) [of "kernel_heap s'" "kmem s'" p n x] a(1,3) hp that
    by (simp add: kfree_def kheap_defs in_table_def)
  moreover have "kfree p s' = s\<lparr>kmem := kmem (kfree p s')\<rparr>"
    using a(2) by (metis kfree_def kheap_state.update_convs(1) kheap_state.surjective)
  ultimately show ?thesis
    using kfree_law [OF a(1,3)] a(4) l assms(2-4) by (auto simp: freed_def)
qed

lemma freed_trans:
  assumes "freed s P t" "freed t Q u" "P \<inter> Q = {}" "finite P" "finite Q"
  shows "freed s (P \<union> Q) u"
proof -
  have a: "t = s\<lparr>kmem := kmem t\<rparr>" "klive t = (\<lambda>q. if q \<in> P then None else klive s q)" "\<forall>x. \<not> in_table s x \<longrightarrow> kmem t x = kmem s x"
      "kavail t = kavail s + (\<Sum>p\<in>P. the (klive s p))"
    and b: "u = t\<lparr>kmem := kmem u\<rparr>" "klive u = (\<lambda>q. if q \<in> Q then None else klive t q)" "\<forall>x. \<not> in_table t x \<longrightarrow> kmem u x = kmem t x"
      "kavail u = kavail t + (\<Sum>p\<in>Q. the (klive t p))" "kheap_ok u"
    using assms(1,2) unfolding freed_def by blast+
  have "(\<Sum>p\<in>Q. the (klive t p)) = (\<Sum>p\<in>Q. the (klive s p))"
    using assms(3) by (intro sum.cong) (auto simp: a(2))
  then have "kavail u = kavail s + (\<Sum>p\<in>P \<union> Q. the (klive s p))"
    using a(4) b(4) assms(3-5) by (simp add: sum.union_disjoint)
  moreover have "in_table t = in_table s" using kmem_only_heap [OF a(1)] by (simp add: in_table_def fun_eq_iff)
  then have "\<forall>x. \<not> in_table s x \<longrightarrow> kmem u x = kmem s x" using a(3) b(3) by simp
  moreover have "klive u = (\<lambda>q. if q \<in> P \<union> Q then None else klive s q)" using a(2) b(2) by (auto simp: fun_eq_iff)
  ultimately show ?thesis using b(5) kmem_only_trans [OF a(1) b(1)] unfolding freed_def by blast
qed

text \<open>Releasing what was allocated since \<open>s\<close> leads back to the allocations of \<open>s\<close>.\<close>

lemma extends_freed:
  assumes "extends s s'" "freed s' P s''" "\<And>q. q \<notin> P \<Longrightarrow> klive s' q = klive s q"
    "\<And>q. q \<in> P \<Longrightarrow> klive s q = None"
  shows "kheap_ok s''" "klive s'' = klive s" "s'' = s\<lparr>kmem := kmem s''\<rparr>"
    "held s x \<Longrightarrow> kmem s'' x = kmem s x"
proof -
  show "kheap_ok s''" using assms(2) by (simp add: freed_def)
  show "klive s'' = klive s" using assms(2-4) by (auto simp: freed_def fun_eq_iff)
  show "s'' = s\<lparr>kmem := kmem s''\<rparr>"
    using assms(1,2) unfolding extends_def freed_def using kmem_only_trans by blast
  show "held s x \<Longrightarrow> kmem s'' x = kmem s x"
    using assms(1,2) extends_held [OF assms(1)] by (simp add: extends_def freed_def held_def)
qed

section \<open>The heap after boot\<close>

definition boot_state :: kheap_state where
  "boot_state = kheap_init \<lparr>kmem = (\<lambda>_. 0), kernel_heap = small_heap\<rparr>"

lemma boot_heap: "kheap_ok boot_state" "kavail boot_state = 25600" "klive boot_state = Map.empty"
  using kheap_init_law [of "\<lparr>kmem = (\<lambda>_. 0), kernel_heap = small_heap\<rparr>"]
  by (simp_all add: boot_state_def)

end
