(* ===== verification/Paging.thy ===== *)
theory Paging
  imports Alloc
begin

text \<open>
  Two-level i386 paging: \<^verbatim>\<open>src/src/memory/paging/paging.c\<close>, with the control register
  that \<^verbatim>\<open>paging.asm\<close> loads. Page directories and page tables are arrays of 1024 words in
  the kernel's memory, allocated by \<open>kzalloc\<close>; a \<open>struct paging_4gb_chunk\<close> is one word that
  holds the address of its directory. The locale \<open>translation\<close> is the contract of a page
  table (\<open>paging_get\<close>, \<open>paging_set\<close>) from which the facts on mapping ranges follow.
\<close>

section \<open>Data\<close>

definition PAGING_ACCESS_FROM_ALL :: u32 where [os_defs]: "PAGING_ACCESS_FROM_ALL = 4"
definition PAGING_IS_WRITABLE :: u32 where [os_defs]: "PAGING_IS_WRITABLE = 2"
definition PAGING_IS_PRESENT :: u32 where [os_defs]: "PAGING_IS_PRESENT = 1"
definition PAGING_TOTAL_ENTRIES_PER_TABLE :: u32 where
  [os_defs]: "PAGING_TOTAL_ENTRIES_PER_TABLE = 1024"
definition PAGING_PAGE_SIZE :: u32 where [os_defs]: "PAGING_PAGE_SIZE = 4096"

record paging_state = kheap_state +
  current_directory :: addr
  cr3 :: addr
  kernel_chunk :: addr

section \<open>paging.c\<close>

text \<open>The inner loop of \<open>paging_new_4gb\<close>, which fills one page table.\<close>

definition paging_fill_table :: "addr \<Rightarrow> u32 \<Rightarrow> u8 \<Rightarrow> nat \<Rightarrow> mem \<Rightarrow> mem" where
  "paging_fill_table entry offset flags n m =
     fold (\<lambda>j m. set_word m entry (of_nat j)
            ((offset + of_nat j * PAGING_PAGE_SIZE) OR ucast flags)) [0..<n] m"

text \<open>One iteration of the outer loop: allocate a table, fill it, enter it in the directory.\<close>

definition paging_new_table ::
  "addr \<Rightarrow> u8 \<Rightarrow> nat \<Rightarrow> u32 \<times> 'a kheap_state_scheme \<Rightarrow> u32 \<times> 'a kheap_state_scheme" where
  "paging_new_table directory flags i = (\<lambda>(offset, s).
     let (entry, s) = kzalloc (4 * PAGING_TOTAL_ENTRIES_PER_TABLE) s;
         m = paging_fill_table entry offset flags (unat PAGING_TOTAL_ENTRIES_PER_TABLE) (kmem s);
         offset = offset + PAGING_TOTAL_ENTRIES_PER_TABLE * PAGING_PAGE_SIZE;
         m = set_word m directory (of_nat i) (entry OR ucast flags OR PAGING_IS_WRITABLE) in
     (offset, s\<lparr>kmem := m\<rparr>))"

definition paging_new_4gb :: "u8 \<Rightarrow> 'a kheap_state_scheme \<Rightarrow> addr \<times> 'a kheap_state_scheme" where
  "paging_new_4gb flags s =
     (let (directory, s) = kzalloc (4 * PAGING_TOTAL_ENTRIES_PER_TABLE) s;
          (offset, s) = fold (paging_new_table directory flags)
             [0..<unat PAGING_TOTAL_ENTRIES_PER_TABLE] (0, s);
          (chunk_4gb, s) = kzalloc 4 s in
      (chunk_4gb, s\<lparr>kmem := store32 (kmem s) chunk_4gb directory\<rparr>))"

definition paging_4gb_chunk_get_directory :: "addr \<Rightarrow> 'a kheap_state_scheme \<Rightarrow> addr" where
  "paging_4gb_chunk_get_directory chunk s = load32 (kmem s) chunk"

definition paging_load_directory :: "addr \<Rightarrow> 'a paging_state_scheme \<Rightarrow> 'a paging_state_scheme" where
  "paging_load_directory directory s = s\<lparr>cr3 := directory\<rparr>"

definition paging_switch :: "addr \<Rightarrow> 'a paging_state_scheme \<Rightarrow> 'a paging_state_scheme" where
  "paging_switch directory s =
     (let d = load32 (kmem s) directory; s = paging_load_directory d s in
      s\<lparr>current_directory := d\<rparr>)"

definition paging_free_4gb :: "addr \<Rightarrow> 'a kheap_state_scheme \<Rightarrow> 'a kheap_state_scheme" where
  "paging_free_4gb chunk s =
     (let s = fold (\<lambda>i s.
            let entry = word_at (kmem s) (load32 (kmem s) chunk) (of_nat i) in
            kfree (entry AND 0xFFFFF000) s) [0..<unat PAGING_TOTAL_ENTRIES_PER_TABLE] s;
          s = kfree (load32 (kmem s) chunk) s in
      kfree chunk s)"

definition paging_is_aligned :: "addr \<Rightarrow> bool" where
  "paging_is_aligned addr \<longleftrightarrow> addr mod PAGING_PAGE_SIZE = 0"

text \<open>The two output arguments keep their values when the address is not aligned.\<close>

definition paging_get_indexes :: "addr \<Rightarrow> u32 \<Rightarrow> u32 \<Rightarrow> int \<times> u32 \<times> u32" where
  "paging_get_indexes virtual_address directory_index table_index =
     (if \<not> paging_is_aligned virtual_address then (- EINVARG, directory_index, table_index)
      else (0, virtual_address div (PAGING_TOTAL_ENTRIES_PER_TABLE * PAGING_PAGE_SIZE),
            (virtual_address mod (PAGING_TOTAL_ENTRIES_PER_TABLE * PAGING_PAGE_SIZE))
              div PAGING_PAGE_SIZE))"

definition paging_align_address :: "addr \<Rightarrow> addr" where
  "paging_align_address ptr =
     (if ptr mod PAGING_PAGE_SIZE \<noteq> 0 then ptr + PAGING_PAGE_SIZE - ptr mod PAGING_PAGE_SIZE
      else ptr)"

definition paging_align_to_lower_page :: "addr \<Rightarrow> addr" where
  "paging_align_to_lower_page addr = addr - addr mod PAGING_PAGE_SIZE"

definition paging_set ::
  "addr \<Rightarrow> addr \<Rightarrow> u32 \<Rightarrow> 'a kheap_state_scheme \<Rightarrow> int \<times> 'a kheap_state_scheme" where
  "paging_set directory virtual_address value s =
     (if \<not> paging_is_aligned virtual_address then (- EINVARG, s)
      else
        let (res, directory_index, table_index) = paging_get_indexes virtual_address 0 0 in
        if res < 0 then (res, s)
        else
          let entry = word_at (kmem s) directory directory_index;
              tbl = entry AND 0xFFFFF000 in
          (res, s\<lparr>kmem := set_word (kmem s) tbl table_index value\<rparr>))"

definition paging_map ::
  "addr \<Rightarrow> addr \<Rightarrow> addr \<Rightarrow> u32 \<Rightarrow> 'a kheap_state_scheme \<Rightarrow> int \<times> 'a kheap_state_scheme" where
  "paging_map directory virtual_address physical_address flags s =
     (if virtual_address mod PAGING_PAGE_SIZE \<noteq> 0 \<or> physical_address mod PAGING_PAGE_SIZE \<noteq> 0
      then (- EINVARG, s)
      else paging_set (load32 (kmem s) directory) virtual_address (physical_address OR flags) s)"

primrec paging_map_range_loop ::
  "nat \<Rightarrow> int \<Rightarrow> addr \<Rightarrow> addr \<Rightarrow> addr \<Rightarrow> u32 \<Rightarrow> 'a kheap_state_scheme \<Rightarrow> int \<times> 'a kheap_state_scheme"
where
  "paging_map_range_loop 0 res directory virtual_address physical_address flags s = (res, s)"
| "paging_map_range_loop (Suc n) res directory virtual_address physical_address flags s =
     (let (res, s) = paging_map directory virtual_address physical_address flags s in
      if res < 0 then (res, s)
      else paging_map_range_loop n res directory (virtual_address + PAGING_PAGE_SIZE)
             (physical_address + PAGING_PAGE_SIZE) flags s)"

definition paging_map_range ::
  "addr \<Rightarrow> addr \<Rightarrow> addr \<Rightarrow> int \<Rightarrow> u32 \<Rightarrow> 'a kheap_state_scheme \<Rightarrow> int \<times> 'a kheap_state_scheme" where
  "paging_map_range directory virtual_address physical_address count flags s =
     paging_map_range_loop (nat count) 0 directory virtual_address physical_address flags s"

definition paging_map_to ::
  "addr \<Rightarrow> addr \<Rightarrow> addr \<Rightarrow> addr \<Rightarrow> u32 \<Rightarrow> 'a kheap_state_scheme \<Rightarrow> int \<times> 'a kheap_state_scheme" where
  "paging_map_to directory virtual_address physical_address physical_end_address flags s =
     (if virtual_address mod PAGING_PAGE_SIZE \<noteq> 0 then (- EINVARG, s)
      else if physical_address mod PAGING_PAGE_SIZE \<noteq> 0 then (- EINVARG, s)
      else if physical_end_address mod PAGING_PAGE_SIZE \<noteq> 0 then (- EINVARG, s)
      else if physical_end_address < physical_address then (- EINVARG, s)
      else
        let total_bytes = physical_end_address - physical_address;
            total_pages = uint (total_bytes div PAGING_PAGE_SIZE) in
        paging_map_range directory virtual_address physical_address total_pages flags s)"

definition paging_get :: "addr \<Rightarrow> addr \<Rightarrow> 'a kheap_state_scheme \<Rightarrow> u32" where
  "paging_get directory virtual_address s =
     (let (res, directory_index, table_index) = paging_get_indexes virtual_address 0 0;
          entry = word_at (kmem s) directory directory_index;
          tbl = entry AND 0xFFFFF000 in
      word_at (kmem s) tbl table_index)"

definition paging_get_physical_address :: "addr \<Rightarrow> addr \<Rightarrow> 'a kheap_state_scheme \<Rightarrow> addr" where
  "paging_get_physical_address directory virtual_address s =
     (let new_virtual_address = paging_align_to_lower_page virtual_address;
          difference = virtual_address - new_virtual_address in
      (paging_get directory new_virtual_address s AND 0xFFFFF000) + difference)"

section \<open>Alignment\<close>

lemma aligned_unat: "(a :: addr) mod 4096 = 0 \<longleftrightarrow> unat a mod 4096 = 0"
  by (simp add: word_unat_eq_iff unat_mod)

lemma is_aligned_unat: "paging_is_aligned a \<longleftrightarrow> unat a mod 4096 = 0"
  by (simp add: paging_is_aligned_def os_defs aligned_unat)

lemma mod_page_mask: "(a :: u32) mod 4096 = a AND mask 12"
  using take_bit_eq_mod [of 12 a] take_bit_eq_mask [of 12 a] by (simp del: mask_numeral)

lemma page_mask_NOT: "(0xFFFFF000 :: u32) = NOT (mask 12)"
  by (simp add: mask_eq_exp_minus_1)

lemma mask_page: "(a :: u32) AND 0xFFFFF000 = paging_align_to_lower_page a"
proof -
  have "(a AND mask 12) + (a AND NOT (mask 12)) = (a AND mask 12) OR (a AND NOT (mask 12))"
    by (rule disjunctive_add_eq_or) (rule bit_word_eqI, auto simp: bit_simps)
  also have "\<dots> = a" by (rule bit_word_eqI) (auto simp: bit_simps)
  finally show ?thesis
    unfolding page_mask_NOT paging_align_to_lower_page_def os_defs mod_page_mask
    by (simp only: add_diff_cancel_left' [symmetric] eq_diff_eq add.commute)
qed

lemma align_lower:
  "unat (paging_align_to_lower_page a) = unat a - unat a mod 4096"
  by (simp only: paging_align_to_lower_page_def os_defs, subst unat_sub)
    (simp_all add: word_le_nat_alt unat_mod)

text \<open>Flag bits below the page size are removed by the mask, and survive beside an address.\<close>

lemma mask_flags:
  assumes "unat (p :: u32) mod 4096 = 0" "unat f < 4096"
  shows "(p OR f) AND 0xFFFFF000 = p"
proof -
  have p: "p AND mask 12 = 0" using assms(1) by (simp only: aligned_unat [symmetric] mod_page_mask)
  have "f = f mod 4096" using assms(2) by (simp add: word_unat_eq_iff unat_mod)
  then have f: "f = f AND mask 12" by (simp only: mod_page_mask)
  have "bit ((p OR f) AND NOT (mask 12)) n = bit p n" for n
    using p [THEN arg_cong, of "\<lambda>w. bit w n"] f [THEN arg_cong, of "\<lambda>w. bit w n"]
    by (auto simp: bit_simps dest: bit_imp_le_length)
  then show ?thesis unfolding page_mask_NOT by (intro bit_word_eqI) simp
qed

lemma flags_below_page: "unat (ucast (f :: u8) OR PAGING_IS_WRITABLE :: u32) < 4096"
proof -
  have "(ucast f OR 2 :: u32) = ucast (f OR 2)" by (simp add: unsigned_or_eq)
  then have "unat (ucast f OR 2 :: u32) = unat (f OR 2)" by (simp only:) (simp add: unsigned_ucast_eq take_bit_nat_eq_self less_le_trans [OF unsigned_less])
  also have "\<dots> < 2 ^ 8" using unsigned_less [of "f OR 2"] by simp
  finally show ?thesis by (simp add: os_defs)
qed

section \<open>The page-table entry of an address\<close>

text \<open>
  \<open>table_of s dir i\<close> is the page table that entry \<open>i\<close> of the directory points to;
  \<open>entry_addr\<close> is the address of the word that maps a virtual address.
\<close>

definition table_of :: "'a kheap_state_scheme \<Rightarrow> addr \<Rightarrow> nat \<Rightarrow> addr" where
  "table_of s dir i = word_at (kmem s) dir (of_nat i) AND 0xFFFFF000"

definition dir_index :: "addr \<Rightarrow> nat" where
  "dir_index va = unat va div 4096 div 1024"

definition table_index :: "addr \<Rightarrow> nat" where
  "table_index va = unat va div 4096 mod 1024"

definition entry_addr :: "'a kheap_state_scheme \<Rightarrow> addr \<Rightarrow> addr \<Rightarrow> addr" where
  "entry_addr s dir va = table_of s dir (dir_index va) + 4 * of_nat (table_index va)"

lemma dir_index_less: "dir_index va < 1024"
proof -
  have "unat va < 4294967296" using unat_u32_bound [of va] by simp
  then show ?thesis unfolding dir_index_def by (simp add: div_mult2_eq [symmetric] less_mult_imp_div_less)
qed

lemma table_index_less: "table_index va < 1024"
  by (simp add: table_index_def)

lemma index_inject:
  assumes "dir_index va = dir_index va'" "table_index va = table_index va'"
    "unat va mod 4096 = 0" "unat va' mod 4096 = 0"
  shows "va = va'"
proof -
  have "unat va div 4096 = unat va' div 4096"
    using assms(1,2) unfolding dir_index_def table_index_def by (metis div_mult_mod_eq)
  then have "unat va = unat va'" using assms(3,4) by (metis div_mult_mod_eq)
  then show ?thesis by (rule word_unat_eq_iff [THEN iffD2])
qed

lemma get_indexes:
  assumes "paging_is_aligned va"
  shows "paging_get_indexes va a b = (0, of_nat (dir_index va), of_nat (table_index va))"
proof -
  have "va div 4194304 = of_nat (unat (va div 4194304))" by simp
  also have "unat (va div 4194304) = dir_index va"
    by (simp add: dir_index_def unat_div div_mult2_eq [symmetric])
  finally have d: "va div 4194304 = of_nat (dir_index va)" .
  have "(va mod 4194304) div 4096 = of_nat (unat ((va mod 4194304) div 4096))" by simp
  also have "unat ((va mod 4194304) div 4096) = (unat va mod (4096 * 1024)) div 4096"
    by (simp add: unat_div unat_mod)
  also have "\<dots> = table_index va"
    by (simp only: table_index_def mod_mult2_eq)
  finally have "(va mod 4194304) div 4096 = of_nat (table_index va)" .
  with d assms show ?thesis by (simp add: paging_get_indexes_def os_defs)
qed

lemma paging_set_aligned:
  "paging_is_aligned va \<Longrightarrow>
   paging_set dir va v s = (0, s\<lparr>kmem := store32 (kmem s) (entry_addr s dir va) v\<rparr>)"
  by (simp add: paging_set_def get_indexes set_word_def entry_addr_def table_of_def)

lemma paging_set_unaligned: "\<not> paging_is_aligned va \<Longrightarrow> paging_set dir va v s = (- EINVARG, s)"
  by (simp add: paging_set_def)

lemma paging_get_aligned:
  "paging_is_aligned va \<Longrightarrow> paging_get dir va s = load32 (kmem s) (entry_addr s dir va)"
  by (simp add: paging_get_def get_indexes word_at_def entry_addr_def table_of_def)

section \<open>Directories in the kernel's memory\<close>

text \<open>
  The invariant of a directory: it and its 1024 tables are distinct live one-page allocations
  of the kernel heap.
\<close>

definition directory_ok :: "'a kheap_state_scheme \<Rightarrow> addr \<Rightarrow> bool" where
  "directory_ok s dir \<longleftrightarrow> kheap_ok s \<and> klive s dir = Some 1
     \<and> (\<forall>i < 1024. klive s (table_of s dir i) = Some 1 \<and> table_of s dir i \<noteq> dir)
     \<and> inj_on (table_of s dir) {..< 1024}"

text \<open>What a write to one entry of a directory's tables does to that directory.\<close>

lemma entry_in_table:
  "in_range (entry_addr s dir va) 4 x \<Longrightarrow> in_range (table_of s dir (dir_index va)) 4096 x"
  unfolding entry_addr_def by (rule word_slot [OF table_index_less])

lemma entries_disjoint:
  assumes "directory_ok s dir" "paging_is_aligned va" "paging_is_aligned va'" "va \<noteq> va'"
  shows "disjoint_ranges (entry_addr s dir va) 4 (entry_addr s dir va') 4"
proof (cases "dir_index va = dir_index va'")
  case True
  then have "table_index va \<noteq> table_index va'"
    using index_inject assms(2-4) by (auto simp: is_aligned_unat)
  then show ?thesis
    using True word_slots_disjoint [OF table_index_less table_index_less] by (simp add: entry_addr_def)
next
  case False
  then have "table_of s dir (dir_index va) \<noteq> table_of s dir (dir_index va')"
    using assms(1) by (auto simp: directory_ok_def inj_on_def dir_index_less)
  then have "in_range (table_of s dir (dir_index va)) 4096 x \<Longrightarrow>
      \<not> in_range (table_of s dir (dir_index va')) 4096 x" for x
    using assms(1) klive_page_disjoint by (metis directory_ok_def dir_index_less)
  then show ?thesis unfolding disjoint_ranges_def using entry_in_table by blast
qed

lemma table_of_cong:
  assumes "\<And>x. in_range dir 4096 x \<Longrightarrow> kmem s' x = kmem s x" "i < 1024"
  shows "table_of s' dir i = table_of s dir i"
proof -
  have "load32 (kmem s') (dir + 4 * of_nat i) = load32 (kmem s) (dir + 4 * of_nat i)"
    using assms word_slot by (intro load32_cong) blast
  then show ?thesis by (simp add: table_of_def word_at_def)
qed

lemma directory_ok_cong:
  assumes "directory_ok s dir" "kheap_ok s'" "klive s' = klive s"
    "\<And>x. in_range dir 4096 x \<Longrightarrow> kmem s' x = kmem s x"
  shows "directory_ok s' dir"
  using assms table_of_cong [of dir s' s] by (simp add: directory_ok_def inj_on_def)

lemma paging_set_law:
  assumes "directory_ok s dir" "paging_is_aligned va"
  obtains s' where "paging_set dir va v s = (0, s')" "directory_ok s' dir" "klive s' = klive s"
    "kavail s' = kavail s" "kernel_heap s' = kernel_heap s" "paging_get dir va s' = v"
    "\<And>va'. paging_is_aligned va' \<Longrightarrow> va' \<noteq> va \<Longrightarrow> paging_get dir va' s' = paging_get dir va' s"
    "\<And>x. \<not> in_range (table_of s dir (dir_index va)) 4096 x \<Longrightarrow> kmem s' x = kmem s x"
    "s' = s\<lparr>kmem := kmem s'\<rparr>"
proof -
  let ?t = "table_of s dir (dir_index va)" and ?s = "s\<lparr>kmem := store32 (kmem s) (entry_addr s dir va) v\<rparr>"
  have t: "klive s ?t = Some 1" "?t \<noteq> dir" and ok: "kheap_ok s" "klive s dir = Some 1"
    using assms(1) by (auto simp: directory_ok_def dir_index_less)
  have frame: "kmem ?s x = kmem s x" if "\<not> in_range ?t 4096 x" for x
    using that entry_in_table [of s dir va x] store32_other [of "entry_addr s dir va" x] by auto
  have dir: "kmem ?s x = kmem s x" if "in_range dir 4096 x" for x
    using frame klive_page_disjoint [OF ok(1) t(1) ok(2) t(2)] that by blast
  have heap: "kheap_ok ?s" "klive ?s = klive s" "kavail ?s = kavail s"
    using frame by (rule_tac kheap_store [OF ok(1) t(1)]; simp)+
  have ea: "entry_addr ?s dir va' = entry_addr s dir va'" for va'
    using table_of_cong [of dir ?s s, OF dir dir_index_less] by (simp add: entry_addr_def)
  have "paging_get dir va' ?s = paging_get dir va' s" if "paging_is_aligned va'" "va' \<noteq> va" for va'
    using load32_store32_disjoint [OF entries_disjoint [OF assms(1) that(1) assms(2) that(2)]]
    by (simp only: paging_get_aligned that(1) ea) simp
  moreover have "paging_get dir va ?s = v"
    by (simp only: paging_get_aligned assms(2) ea) simp
  moreover have "directory_ok ?s dir" using directory_ok_cong [OF assms(1) heap(1,2) dir] by blast
  ultimately show thesis
    by (intro that [of ?s]) (use paging_set_aligned [OF assms(2)] heap(2,3) frame in simp_all)
qed

section \<open>The interface of an address space\<close>

text \<open>
  \<open>map1 va pa flags\<close> enters one page, \<open>lookup va\<close> reads the entry of an aligned virtual address,
  \<open>range\<close> is the loop over consecutive pages. The laws say what a single entry does; that a
  range maps exactly its own pages follows.
\<close>

locale address_space =
  fixes map1 :: "addr \<Rightarrow> addr \<Rightarrow> u32 \<Rightarrow> 's \<Rightarrow> int \<times> 's"
    and lookup :: "addr \<Rightarrow> 's \<Rightarrow> u32"
    and ok :: "'s \<Rightarrow> bool"
    and keeps :: "'s \<Rightarrow> 's \<Rightarrow> bool"
    and range :: "nat \<Rightarrow> int \<Rightarrow> addr \<Rightarrow> addr \<Rightarrow> u32 \<Rightarrow> 's \<Rightarrow> int \<times> 's"
  assumes map1_law: "ok s \<Longrightarrow> unat va mod 4096 = 0 \<Longrightarrow> unat pa mod 4096 = 0 \<Longrightarrow>
      \<exists>s'. map1 va pa f s = (0, s') \<and> ok s' \<and> keeps s s' \<and> lookup va s' = pa OR f
        \<and> (\<forall>w. unat w mod 4096 = 0 \<longrightarrow> w \<noteq> va \<longrightarrow> lookup w s' = lookup w s)"
    and keeps_refl: "keeps s s"
    and keeps_trans: "keeps s t \<Longrightarrow> keeps t u \<Longrightarrow> keeps s u"
    and map1_err: "unat va mod 4096 \<noteq> 0 \<or> unat pa mod 4096 \<noteq> 0 \<Longrightarrow> map1 va pa f s = (- EINVARG, s)"
    and range_0: "range 0 r va pa f s = (r, s)"
    and range_Suc: "range (Suc n) r va pa f s =
      (let (r, s) = map1 va pa f s in
       if r < 0 then (r, s) else range n r (va + 4096) (pa + 4096) f s)"
begin

lemma range_err:
  assumes "unat va mod 4096 \<noteq> 0 \<or> unat pa mod 4096 \<noteq> 0" "0 < n"
  shows "range n r va pa f s = (- EINVARG, s)"
  using assms(2) map1_err [OF assms(1)] by (cases n) (simp_all add: range_Suc EINVARG_def)

text \<open>A range inside the address space maps each of its pages and no other.\<close>

lemma range_maps:
  assumes "ok s" "unat va mod 4096 = 0" "unat pa mod 4096 = 0"
    "unat va + n * 4096 \<le> 2 ^ 32" "unat pa + n * 4096 \<le> 2 ^ 32"
  shows "\<exists>s'. range n 0 va pa f s = (0, s') \<and> ok s' \<and> keeps s s'
    \<and> (\<forall>i < n. lookup (va + of_nat (i * 4096)) s' = (pa + of_nat (i * 4096)) OR f)
    \<and> (\<forall>w. unat w mod 4096 = 0 \<longrightarrow> \<not> in_range va (n * 4096) w \<longrightarrow> lookup w s' = lookup w s)"
  using assms
proof (induction n arbitrary: va pa s)
  case 0
  then show ?case by (simp add: range_0 keeps_refl)
next
  case (Suc n)
  obtain s1 where s1: "map1 va pa f s = (0, s1)" "ok s1" "keeps s s1" "lookup va s1 = pa OR f"
    and other: "\<And>w. unat w mod 4096 = 0 \<Longrightarrow> w \<noteq> va \<Longrightarrow> lookup w s1 = lookup w s"
    using map1_law [OF Suc.prems(1-3)] by blast
  show ?case
  proof (cases "n = 0")
    case True
    have "in_range va 4096 va" by (simp add: in_range_def)
    then have "\<not> in_range va 4096 w \<Longrightarrow> w \<noteq> va" for w by blast
    then show ?thesis using True s1 other by (auto simp: range_Suc range_0)
  next
    case False
    then have no: "unat va + 4096 < 2 ^ 32" "unat pa + 4096 < 2 ^ 32" using Suc.prems(4,5) by simp_all
    then have u: "unat (va + 4096) = unat va + 4096" "unat (pa + 4096) = unat pa + 4096"
      using unat_add_lem [of va 4096] unat_add_lem [of pa 4096] by simp_all
    have "\<exists>s'. range n 0 (va + 4096) (pa + 4096) f s1 = (0, s') \<and> ok s' \<and> keeps s1 s'
      \<and> (\<forall>i < n. lookup (va + 4096 + of_nat (i * 4096)) s' = (pa + 4096 + of_nat (i * 4096)) OR f)
      \<and> (\<forall>w. unat w mod 4096 = 0 \<longrightarrow> \<not> in_range (va + 4096) (n * 4096) w \<longrightarrow> lookup w s' = lookup w s1)"
      by (rule Suc.IH) (use s1(2) Suc.prems u in simp_all)
    then obtain s' where s': "range n 0 (va + 4096) (pa + 4096) f s1 = (0, s')" "ok s'" "keeps s1 s'"
      and get: "\<And>i. i < n \<Longrightarrow> lookup (va + 4096 + of_nat (i * 4096)) s' = (pa + 4096 + of_nat (i * 4096)) OR f"
      and rest: "\<And>w. unat w mod 4096 = 0 \<Longrightarrow> \<not> in_range (va + 4096) (n * 4096) w \<Longrightarrow> lookup w s' = lookup w s1"
      by blast
    have rng: "in_range (va + 4096) (n * 4096) w \<longleftrightarrow> unat va + 4096 \<le> unat w \<and> unat w < unat va + Suc n * 4096"
      "in_range va (Suc n * 4096) w \<longleftrightarrow> unat va \<le> unat w \<and> unat w < unat va + Suc n * 4096" for w
      using Suc.prems(4) u(1) by (simp_all add: in_range_unat add.assoc)
    have va: "lookup va s' = pa OR f" using rest [of va] rng(1) [of va] s1(4) Suc.prems(2) by simp
    have "lookup (va + of_nat (i * 4096)) s' = (pa + of_nat (i * 4096)) OR f" if "i < Suc n" for i
      using that va get by (cases i) (simp_all add: add.assoc)
    moreover have "lookup w s' = lookup w s" if "unat w mod 4096 = 0" "\<not> in_range va (Suc n * 4096) w" for w
    proof -
      have "w \<noteq> va" using that(2) rng(2) [of va] by auto
      moreover have "\<not> in_range (va + 4096) (n * 4096) w" using that(2) rng by simp
      ultimately show ?thesis using rest other that(1) by simp
    qed
    ultimately show ?thesis
      using s1(1) s' keeps_trans [OF s1(3) s'(3)] by (auto simp: range_Suc)
  qed
qed

end

section \<open>A chunk provides the interface\<close>

text \<open>
  A chunk is a live allocation that holds the address of its directory. \<open>space_keeps\<close> is the
  frame of the mapping operations: the heap is unchanged and only the pages of the tables are
  written.
\<close>

definition space_ok :: "addr \<Rightarrow> 'a kheap_state_scheme \<Rightarrow> bool" where
  "space_ok c s \<longleftrightarrow> directory_ok s (load32 (kmem s) c) \<and> klive s c = Some 1
     \<and> c \<noteq> load32 (kmem s) c \<and> (\<forall>i < 1024. c \<noteq> table_of s (load32 (kmem s) c) i)"

definition space_lookup :: "addr \<Rightarrow> addr \<Rightarrow> 'a kheap_state_scheme \<Rightarrow> u32" where
  "space_lookup c va s = paging_get (load32 (kmem s) c) va s"

text \<open>The allocations that make up an address space.\<close>

definition space_pages :: "addr \<Rightarrow> 'a kheap_state_scheme \<Rightarrow> addr set" where
  "space_pages c s = insert c (insert (load32 (kmem s) c) (table_of s (load32 (kmem s) c) ` {..< 1024}))"

definition table_pages :: "addr \<Rightarrow> 'a kheap_state_scheme \<Rightarrow> addr \<Rightarrow> bool" where
  "table_pages c s x \<longleftrightarrow> (\<exists>i < 1024. in_range (table_of s (load32 (kmem s) c) i) 4096 x)"

definition space_keeps :: "addr \<Rightarrow> 'a kheap_state_scheme \<Rightarrow> 'a kheap_state_scheme \<Rightarrow> bool" where
  "space_keeps c s s' \<longleftrightarrow> s' = s\<lparr>kmem := kmem s'\<rparr> \<and> klive s' = klive s \<and> kavail s' = kavail s
     \<and> table_pages c s' = table_pages c s \<and> (\<forall>x. \<not> table_pages c s x \<longrightarrow> kmem s' x = kmem s x)"

lemma space_keeps_trans: "space_keeps c s t \<Longrightarrow> space_keeps c t u \<Longrightarrow> space_keeps c s u"
proof -
  assume a: "space_keeps c s t" "space_keeps c t u"
  then have "t = s\<lparr>kmem := kmem t\<rparr>" "u = t\<lparr>kmem := kmem u\<rparr>" by (simp_all only: space_keeps_def)
  then have "u = s\<lparr>kmem := kmem u\<rparr>" by (metis kheap_state.update_convs(1) kheap_state.surjective)
  then show ?thesis using a unfolding space_keeps_def by metis
qed

lemma word_mod_page: "(a :: addr) mod PAGING_PAGE_SIZE \<noteq> 0 \<longleftrightarrow> unat a mod 4096 \<noteq> 0"
  by (simp add: PAGING_PAGE_SIZE_def aligned_unat)

lemma paging_map_law:
  assumes "space_ok c s" "unat va mod 4096 = 0" "unat pa mod 4096 = 0"
  shows "\<exists>s'. paging_map c va pa f s = (0, s') \<and> space_ok c s' \<and> space_keeps c s s'
    \<and> space_lookup c va s' = pa OR f
    \<and> (\<forall>w. unat w mod 4096 = 0 \<longrightarrow> w \<noteq> va \<longrightarrow> space_lookup c w s' = space_lookup c w s)"
proof -
  let ?dir = "load32 (kmem s) c" and ?t = "table_of s (load32 (kmem s) c) (dir_index va)"
  have dir: "directory_ok s ?dir" and c: "klive s c = Some 1" "c \<noteq> ?dir" "c \<noteq> ?t"
    and ct: "\<And>i. i < 1024 \<Longrightarrow> c \<noteq> table_of s ?dir i"
    using assms(1) by (simp_all add: space_ok_def dir_index_less)
  have live: "kheap_ok s" "klive s ?t = Some 1" "klive s ?dir = Some 1" "?t \<noteq> ?dir"
    using dir by (simp_all add: directory_ok_def dir_index_less)
  obtain s' where s': "paging_set ?dir va (pa OR f) s = (0, s')" "directory_ok s' ?dir" "klive s' = klive s"
    "kavail s' = kavail s" "paging_get ?dir va s' = pa OR f"
    and other: "\<And>va'. paging_is_aligned va' \<Longrightarrow> va' \<noteq> va \<Longrightarrow> paging_get ?dir va' s' = paging_get ?dir va' s"
    and frame: "\<And>x. \<not> in_range ?t 4096 x \<Longrightarrow> kmem s' x = kmem s x" and rec: "s' = s\<lparr>kmem := kmem s'\<rparr>"
    using paging_set_law [OF dir] assms(2) by (metis is_aligned_unat)
  have c4: "in_range c 4 x \<Longrightarrow> \<not> in_range ?t 4096 x" for x
    using klive_page_disjoint [OF live(1) c(1) live(2) c(3)] in_range_mono [of c 4 x 4096] by simp
  have ld: "load32 (kmem s') c = ?dir" by (rule load32_cong) (rule frame, erule c4)
  have tb: "table_of s' ?dir i = table_of s ?dir i" if "i < 1024" for i
    using frame klive_page_disjoint [OF live(1,3,2)] live(4) that by (intro table_of_cong) auto
  have "table_pages c s' = table_pages c s"
    unfolding table_pages_def fun_eq_iff ld by (metis tb)
  moreover have "kmem s' x = kmem s x" if "\<not> table_pages c s x" for x
    using that frame dir_index_less by (auto simp: table_pages_def)
  ultimately have "space_keeps c s s'" unfolding space_keeps_def using s'(3,4) rec by blast
  moreover have "space_ok c s'"
    using s'(2,3) c ct by (simp add: space_ok_def ld tb)
  ultimately show ?thesis
    using s'(1,5) other assms(2,3)
    by (intro exI [of _ s']) (simp add: paging_map_def word_mod_page space_lookup_def ld is_aligned_unat)
qed

lemma paging_map_err:
  "unat va mod 4096 \<noteq> 0 \<or> unat pa mod 4096 \<noteq> 0 \<Longrightarrow> paging_map c va pa f s = (- EINVARG, s)"
  by (simp add: paging_map_def word_mod_page)

interpretation sp: address_space "paging_map c" "space_lookup c" "space_ok c" "space_keeps c"
    "\<lambda>n r. paging_map_range_loop n r c" for c
proof unfold_locales
  show "paging_map_range_loop (Suc n) r c va pa f s =
    (let (r, s) = paging_map c va pa f s in
     if r < 0 then (r, s) else paging_map_range_loop n r c (va + 4096) (pa + 4096) f s)" for n r va pa f s
    by (cases "paging_map c va pa f s") (simp add: PAGING_PAGE_SIZE_def)
qed (fact paging_map_law paging_map_err space_keeps_trans | simp add: space_keeps_def)+

text \<open>The whole range, as \<open>paging_map_to\<close> computes it.\<close>

lemma paging_map_to_law:
  assumes "space_ok c s" "unat va mod 4096 = 0" "unat pa mod 4096 = 0" "unat pe mod 4096 = 0"
    "pa \<le> pe" "unat va + (unat pe - unat pa) \<le> 2 ^ 32"
  shows "\<exists>s'. paging_map_to c va pa pe flags s = (0, s') \<and> space_ok c s' \<and> space_keeps c s s'
    \<and> (\<forall>i < (unat pe - unat pa) div 4096.
         space_lookup c (va + of_nat (i * 4096)) s' = (pa + of_nat (i * 4096)) OR flags)
    \<and> (\<forall>w. unat w mod 4096 = 0 \<longrightarrow> \<not> in_range va (unat pe - unat pa) w \<longrightarrow>
         space_lookup c w s' = space_lookup c w s)"
proof -
  let ?n = "(unat pe - unat pa) div 4096"
  have le: "unat pa \<le> unat pe" using assms(5) by (simp add: word_le_nat_alt)
  have n: "?n * 4096 = unat pe - unat pa" using assms(3,4) le by (metis dvd_div_mult_self dvd_diff_nat mod_0_imp_dvd)
  have "nat (uint ((pe - pa) div PAGING_PAGE_SIZE)) = ?n"
    using assms(5) by (simp add: PAGING_PAGE_SIZE_def unat_div unat_sub nat_uint_eq)
  then have "paging_map_to c va pa pe flags s = paging_map_range_loop ?n 0 c va pa flags s"
    using assms(2-5) word_mod_page [of va] word_mod_page [of pa] word_mod_page [of pe]
    by (simp add: paging_map_to_def paging_map_range_def linorder_not_less [symmetric])
  then show ?thesis
    using sp.range_maps [OF assms(1-3), of ?n flags] assms(6) le unat_u32_bound [of pe]
    unfolding n by simp
qed

text \<open>Translation of an address, page by page.\<close>

lemma lower_page:
  assumes "unat va mod 4096 = 0" "off < 4096"
  shows "paging_align_to_lower_page (va + of_nat off) = va"
proof -
  have "unat va \<le> 2 ^ 32 - 4096" using assms(1) unat_u32_bound [of va] by (simp add: mod_eq_0_iff_dvd dvd_def) auto
  then have "unat (va + of_nat off) = unat va + off"
    using assms(2) by (simp add: unat_word_ariths unat_of_nat take_bit_nat_def)
  moreover have "(unat va + off) mod 4096 = off" using assms by (simp add: mod_add_left_eq [symmetric])
  ultimately have "unat (paging_align_to_lower_page (va + of_nat off)) = unat va"
    by (simp add: align_lower)
  then show ?thesis by (simp add: word_unat_eq_iff)
qed

lemma lookup_physical:
  assumes "paging_get dir va s = pa OR flags" "unat va mod 4096 = 0" "unat pa mod 4096 = 0" "unat flags < 4096" "off < 4096"
  shows "paging_get_physical_address dir (va + of_nat off) s = pa + of_nat off"
  using mask_flags [OF assms(3,4)] assms(1) lower_page [OF assms(2,5)] by (simp add: paging_get_physical_address_def)

section \<open>Building an address space\<close>

lemma fill_table:
  assumes "n \<le> 1024"
  shows "j < n \<Longrightarrow> word_at (paging_fill_table t off f n m) t (of_nat j) = (off + of_nat (j * 4096)) OR ucast f"
    "\<not> in_range t 4096 x \<Longrightarrow> paging_fill_table t off f n m x = m x"
proof -
  have step: "paging_fill_table t off f (Suc k) m =
      store32 (paging_fill_table t off f k m) (t + 4 * of_nat k) ((off + of_nat (k * 4096)) OR ucast f)" for k
    by (simp add: paging_fill_table_def set_word_def os_defs)
  show "j < n \<Longrightarrow> word_at (paging_fill_table t off f n m) t (of_nat j) = (off + of_nat (j * 4096)) OR ucast f"
    using assms
  proof (induction n)
    case (Suc k)
    show ?case
    proof (cases "j = k")
      case True
      then show ?thesis by (simp only: step word_at_def load32_store32)
    next
      case False
      with Suc.prems have "disjoint_ranges (t + 4 * of_nat j) 4 (t + 4 * of_nat k) 4"
        by (intro word_slots_disjoint) simp_all
      with False Suc show ?thesis by (simp only: step word_at_def load32_store32_disjoint)
    qed
  qed simp
  show "\<not> in_range t 4096 x \<Longrightarrow> paging_fill_table t off f n m x = m x"
    using assms
  proof (induction n)
    case (Suc k)
    then have "\<not> in_range (t + 4 * of_nat k) 4 x" using word_slot [of k t x] by auto
    with Suc show ?case using store32_other by (simp only: step) simp
  qed (simp add: paging_fill_table_def)
qed

text \<open>
  The state after \<open>i\<close> iterations of \<open>paging_new_4gb\<close>, relative to the state \<open>s0\<close> it
  started from: \<open>i\<close> new tables, filled, and everything live before untouched.
\<close>

definition new_tables :: "'a kheap_state_scheme \<Rightarrow> addr \<Rightarrow> u8 \<Rightarrow> nat \<Rightarrow> u32 \<times> 'a kheap_state_scheme \<Rightarrow> bool"
where
  "new_tables s0 dir f i = (\<lambda>(off, s).
     off = of_nat (i * 4194304) \<and> kheap_ok s \<and> extends s0 s \<and> klive s0 dir = None \<and> klive s dir = Some 1
     \<and> kavail s0 = kavail s + Suc i
     \<and> klive s = (\<lambda>q. if q \<in> insert dir (table_of s dir ` {..< i}) then Some 1 else klive s0 q)
     \<and> (\<forall>k < i. klive s (table_of s dir k) = Some 1 \<and> table_of s dir k \<noteq> dir
          \<and> klive s0 (table_of s dir k) = None)
     \<and> inj_on (table_of s dir) {..< i}
     \<and> (\<forall>k < i. \<forall>j < 1024. word_at (kmem s) (table_of s dir k) (of_nat j) =
          of_nat ((k * 1024 + j) * 4096) OR ucast f))"

text \<open>The memory after one iteration, seen from the pages that matter.\<close>

lemma new_table_memory:
  fixes off v :: u32 and f :: u8
  assumes "kheap_ok s" "klive s dir = Some 1" "0 < kavail s" "kzalloc 4096 s = (t, s1)" "i < 1024"
  defines "m \<equiv> set_word (paging_fill_table t off f 1024 (kmem s1)) dir (of_nat i) v"
  shows "klive s p = Some 1 \<Longrightarrow> p \<noteq> dir \<Longrightarrow> in_range p 4096 x \<Longrightarrow> m x = kmem s x"
    and "j < 1024 \<Longrightarrow> word_at m t (of_nat j) = (off + of_nat (j * 4096)) OR ucast f"
    and "k < 1024 \<Longrightarrow> word_at m dir (of_nat k) = (if i = k then v else word_at (kmem s) dir (of_nat k))"
proof -
  have z: "extends s s1" "kheap_ok s1" "klive s t = None" "klive s1 = (klive s)(t \<mapsto> 1)"
    using kzalloc_page_extends [OF assms(1,3) _ _ assms(4)] by simp_all
  have t: "klive s1 t = Some 1" "t \<noteq> dir" using z(3,4) assms(2) by auto
  have old: "kmem s1 x = kmem s x \<and> \<not> in_range t 4096 x" if p: "klive s p = Some 1" "in_range p 4096 x" for p x
  proof
    show "kmem s1 x = kmem s x" by (rule extends_page [OF z(1) assms(1) p])
    have "klive s1 p = Some 1" "p \<noteq> t" using p(1) z(3,4) by auto
    then show "\<not> in_range t 4096 x" using klive_page_disjoint [OF z(2) _ t(1)] p(2) by blast
  qed
  show "m x = kmem s x" if "klive s p = Some 1" "p \<noteq> dir" "in_range p 4096 x"
    using old [OF that(1,3)] klive_page_disjoint [OF assms(1) that(1) assms(2) that(2,3)] assms(5)
    by (simp add: m_def set_word_outside fill_table(2))
  show "word_at m t (of_nat j) = (off + of_nat (j * 4096)) OR ucast f" if "j < 1024"
  proof -
    have "m x = paging_fill_table t off f 1024 (kmem s1) x" if "in_range t 4096 x" for x
      using klive_page_disjoint [OF z(2) t(1) _ t(2) that] z(4) assms(2,5) t(2)
      by (simp add: m_def set_word_outside)
    then show ?thesis
      using word_at_cong [of t m _ j] fill_table(1) [of 1024 j t off f "kmem s1"] that by simp
  qed
  show "word_at m dir (of_nat k) = (if i = k then v else word_at (kmem s) dir (of_nat k))" if "k < 1024"
  proof -
    have "word_at (paging_fill_table t off f 1024 (kmem s1)) dir (of_nat k) = word_at (kmem s) dir (of_nat k)"
      using old [OF assms(2)] that by (intro word_at_cong) (simp_all add: fill_table(2))
    then show ?thesis using assms(5) that by (simp add: m_def word_at_set_word)
  qed
qed

lemma new_tables_step:
  assumes "new_tables s0 dir f i os" "i < 1024" "0 < kavail (snd os)"
  shows "new_tables s0 dir f (Suc i) (paging_new_table dir f i os)"
proof -
  obtain off s where os: "os = (off, s)" by fastforce
  have off: "off = of_nat (i * 4194304)" and ok: "kheap_ok s" and ext: "extends s0 s"
    and dir: "klive s0 dir = None" "klive s dir = Some 1" and av: "kavail s0 = kavail s + Suc i"
    and lv: "klive s = (\<lambda>q. if q \<in> insert dir (table_of s dir ` {..< i}) then Some 1 else klive s0 q)"
    and tl: "\<And>k. k < i \<Longrightarrow> klive s (table_of s dir k) = Some 1 \<and> table_of s dir k \<noteq> dir
          \<and> klive s0 (table_of s dir k) = None"
    and inj: "inj_on (table_of s dir) {..< i}"
    and val: "\<And>k j. k < i \<Longrightarrow> j < 1024 \<Longrightarrow> word_at (kmem s) (table_of s dir k) (of_nat j) =
          of_nat ((k * 1024 + j) * 4096) OR ucast f"
    using assms(1) by (simp_all add: new_tables_def os)
  obtain t s1 where t: "kzalloc 4096 s = (t, s1)" by fastforce
  note z = kzalloc_page_extends [OF ok _ _ _ t]
  have z1: "extends s s1" "kheap_ok s1" "klive s t = None" "klive s1 = (klive s)(t \<mapsto> 1)"
    "kavail s = Suc (kavail s1)"
    using z assms(3) os by simp_all
  define m2 where "m2 = paging_fill_table t off f 1024 (kmem s1)"
  define v where "v = t OR (ucast f OR PAGING_IS_WRITABLE)"
  define m3 where "m3 = set_word m2 dir (of_nat i) v"
  have res: "paging_new_table dir f i os = (of_nat (Suc i * 4194304), s1\<lparr>kmem := m3\<rparr>)"
    using off by (simp add: paging_new_table_def os t m3_def m2_def v_def PAGING_TOTAL_ENTRIES_PER_TABLE_def
        PAGING_PAGE_SIZE_def or.assoc)
  have t0: "klive s0 t = None" and td: "t \<noteq> dir"
    using z1(3) ext dir(2) by (auto simp: extends_def map_le_def dom_def)
  have e1: "extends s0 s1" using ext z1(1) by (rule extends_trans)
  have "\<And>x. \<not> in_range t (1 * 4096) x \<Longrightarrow> m2 x = kmem s1 x"
    by (simp add: m2_def fill_table(2))
  note s2 = store_extends [OF z1(2) _ e1 t0 this]
  have s2': "extends s0 (s1\<lparr>kmem := m2\<rparr>)" "kheap_ok (s1\<lparr>kmem := m2\<rparr>)"
    "klive (s1\<lparr>kmem := m2\<rparr>) = klive s1" "kavail (s1\<lparr>kmem := m2\<rparr>) = kavail s1"
    using s2 z1(4) by simp_all
  have "\<And>x. \<not> in_range dir (1 * 4096) x \<Longrightarrow> m3 x = kmem (s1\<lparr>kmem := m2\<rparr>) x"
    by (simp add: m3_def set_word_outside assms(2))
  note s3 = store_extends [OF s2'(2) _ s2'(1) dir(1) this]
  have s3': "extends s0 (s1\<lparr>kmem := m3\<rparr>)" "kheap_ok (s1\<lparr>kmem := m3\<rparr>)"
    "klive (s1\<lparr>kmem := m3\<rparr>) = (klive s)(t \<mapsto> 1)" "kavail (s1\<lparr>kmem := m3\<rparr>) = kavail s1"
    using s3 s2' z1(4) td dir(2) by simp_all
  note mem = new_table_memory [OF ok dir(2) _ t assms(2), where off = off and f = f and v = v, folded m2_def m3_def]
  have av0: "0 < kavail s" using assms(3) os by simp
  have told: "table_of (s1\<lparr>kmem := m3\<rparr>) dir k = table_of s dir k" if "k < i" for k
    using mem(3) [OF av0] that assms(2) by (simp add: table_of_def)
  have "unat t mod 4096 = 0" using klive_page_aligned [OF z1(2), of t] z1(4) by simp
  then have tnew: "table_of (s1\<lparr>kmem := m3\<rparr>) dir i = t"
    using mem(3) [OF av0] assms(2) mask_flags flags_below_page by (simp add: table_of_def v_def)
  have "word_at m3 (table_of s dir k) (of_nat j) = of_nat ((k * 1024 + j) * 4096) OR ucast f"
    if "k < i" "j < 1024" for k j
    using val [OF that] tl [OF that(1)] mem(1) [OF av0] that(2) by (subst word_at_cong [of _ m3 "kmem s"]) auto
  then have "word_at m3 (table_of (s1\<lparr>kmem := m3\<rparr>) dir k) (of_nat j) =
      of_nat ((k * 1024 + j) * 4096) OR ucast f" if "k < Suc i" "j < 1024" for k j
    using that told tnew off mem(2) [OF av0] by (cases "k = i") (simp_all add: add_mult_distrib mult.commute)
  moreover have "inj_on (table_of (s1\<lparr>kmem := m3\<rparr>) dir) {..< Suc i}"
  proof -
    have "k < i \<Longrightarrow> table_of s dir k \<noteq> t" for k using tl [of k] z1(3) by auto
    then show ?thesis
      using inj told tnew unfolding inj_on_def by (metis lessThan_iff less_Suc_eq)
  qed
  moreover have "k < Suc i \<Longrightarrow> klive (s1\<lparr>kmem := m3\<rparr>) (table_of (s1\<lparr>kmem := m3\<rparr>) dir k) = Some 1
      \<and> table_of (s1\<lparr>kmem := m3\<rparr>) dir k \<noteq> dir \<and> klive s0 (table_of (s1\<lparr>kmem := m3\<rparr>) dir k) = None" for k
    using tl [of k] told [of k] tnew t0 td by (cases "k = i") (simp_all add: s3'(3) less_Suc_eq)
  moreover have "table_of (s1\<lparr>kmem := m3\<rparr>) dir ` {..< Suc i} = insert t (table_of s dir ` {..< i})"
    using told tnew by (simp add: lessThan_Suc)
  then have "klive (s1\<lparr>kmem := m3\<rparr>) = (\<lambda>q. if q \<in> insert dir (table_of (s1\<lparr>kmem := m3\<rparr>) dir ` {..< Suc i})
      then Some 1 else klive s0 q)"
    using lv [THEN fun_cong] unfolding s3'(3) by (auto simp: fun_eq_iff)
  ultimately show ?thesis
    unfolding res new_tables_def prod.case using s3'(1,2,4) dir av z1(5) td by (simp only: s3'(3) fun_upd_def) simp
qed

lemma new_tables_fold:
  assumes "new_tables s0 dir f 0 (0, s)" "n \<le> 1024" "n \<le> kavail s"
  shows "new_tables s0 dir f n (fold (paging_new_table dir f) [0..<n] (0, s))"
  using assms(2,3)
proof (induction n)
  case 0
  then show ?case using assms(1) by simp
next
  case (Suc n)
  let ?os = "fold (paging_new_table dir f) [0..<n] (0, s)"
  have inv: "new_tables s0 dir f n ?os" using Suc by simp
  have "kavail s0 = kavail (snd ?os) + Suc n" using inv by (auto simp: new_tables_def split: prod.splits)
  moreover have "kavail s0 = kavail s + 1" using assms(1) by (simp add: new_tables_def)
  ultimately show ?case using new_tables_step [OF inv] Suc.prems by simp
qed

lemma new_tables_lookup:
  assumes "new_tables s0 dir f 1024 (off, s)" "unat va mod 4096 = 0"
  shows "paging_get dir va s = va OR ucast f"
proof -
  have "paging_get dir va s = word_at (kmem s) (table_of s dir (dir_index va)) (of_nat (table_index va))"
    using assms(2) by (simp add: paging_get_aligned is_aligned_unat entry_addr_def word_at_def)
  also have "\<dots> = of_nat ((dir_index va * 1024 + table_index va) * 4096) OR ucast f"
    using assms(1) dir_index_less table_index_less by (simp add: new_tables_def)
  also have "(dir_index va * 1024 + table_index va) * 4096 = unat va"
    unfolding dir_index_def table_index_def div_mult_mod_eq using assms(2) by (metis add.right_neutral div_mult_mod_eq)
  finally show ?thesis by simp
qed

lemma new_tables_directory: "new_tables s0 dir f 1024 (off, s) \<Longrightarrow> directory_ok s dir"
  by (simp add: new_tables_def directory_ok_def)

text \<open>Extending a state keeps its directories and what they map.\<close>

lemma directory_ok_extends:
  assumes "directory_ok s dir" "extends s s'" "kheap_ok s'"
  shows "directory_ok s' dir" "i < 1024 \<Longrightarrow> table_of s' dir i = table_of s dir i"
    "unat va mod 4096 = 0 \<Longrightarrow> paging_get dir va s' = paging_get dir va s"
proof -
  have ok: "kheap_ok s" and d: "klive s dir = Some 1" and t: "\<And>i. i < 1024 \<Longrightarrow> klive s (table_of s dir i) = Some 1"
    using assms(1) by (simp_all add: directory_ok_def)
  have tb: "i < 1024 \<Longrightarrow> table_of s' dir i = table_of s dir i" for i
    using extends_page [OF assms(2) ok d] by (intro table_of_cong)
  then show "i < 1024 \<Longrightarrow> table_of s' dir i = table_of s dir i" .
  show "directory_ok s' dir"
    using assms(1,3) tb extends_live [OF assms(2)] by (simp add: directory_ok_def inj_on_def)
  have "word_at (kmem s') (table_of s dir i) (of_nat j) = word_at (kmem s) (table_of s dir i) (of_nat j)"
    if "i < 1024" "j < 1024" for i j
    using extends_page [OF assms(2) ok t [OF that(1)]] that(2) by (intro word_at_cong)
  then show "unat va mod 4096 = 0 \<Longrightarrow> paging_get dir va s' = paging_get dir va s"
    using tb dir_index_less table_index_less
    by (simp add: paging_get_aligned is_aligned_unat entry_addr_def word_at_def)
qed

lemma paging_new_4gb_law:
  assumes "kheap_ok s" "1026 \<le> kavail s" "paging_new_4gb f s = (c, s')"
  shows "space_ok c s'" "extends s s'" "kavail s = kavail s' + 1026"
    "unat va mod 4096 = 0 \<Longrightarrow> space_lookup c va s' = va OR ucast f"
    "q \<in> space_pages c s' \<Longrightarrow> klive s q = None"
    "klive s' = (\<lambda>q. if q \<in> space_pages c s' then Some 1 else klive s q)"
proof -
  obtain dir s1 where d: "kzalloc 4096 s = (dir, s1)" by fastforce
  obtain off s2 where t: "fold (paging_new_table dir f) [0..<1024] (0, s1) = (off, s2)" by fastforce
  obtain s3 where c: "kzalloc 4 s2 = (c, s3)" and s': "s' = s3\<lparr>kmem := store32 (kmem s3) c dir\<rparr>"
    using assms(3) by (auto simp: paging_new_4gb_def PAGING_TOTAL_ENTRIES_PER_TABLE_def d t split: prod.splits)
  have z: "extends s s1" "kheap_ok s1" "klive s dir = None" "klive s1 = (klive s)(dir \<mapsto> 1)"
    "kavail s = Suc (kavail s1)"
    using kzalloc_page_extends [OF assms(1) _ _ _ d] assms(2) by simp_all
  have "new_tables s dir f 0 (0, s1)" using z by (auto simp: new_tables_def)
  from new_tables_fold [OF this, of 1024] z(5) assms(2)
  have nt: "new_tables s dir f 1024 (off, s2)" by (simp add: t)
  note dir = new_tables_directory [OF nt]
  have nt': "kheap_ok s2" "extends s s2" "kavail s = kavail s2 + 1025"
    using nt by (simp_all add: new_tables_def)
  have y: "extends s2 s3" "kheap_ok s3" "klive s2 c = None" "klive s3 = (klive s2)(c \<mapsto> 1)"
    "kavail s2 = Suc (kavail s3)"
    using kzalloc_page_extends [OF nt'(1) _ _ _ c] assms(2) nt'(3) by simp_all
  have "store32 (kmem s3) c dir x = kmem s3 x" if "\<not> in_range c (1 * 4096) x" for x
    using that in_range_mono [of c 4 x 4096] by (intro store32_other) auto
  note e = store_extends [OF y(2) _ y(1) y(3) this, folded s']
  have e': "extends s2 s'" "kheap_ok s'" "klive s' = (klive s2)(c \<mapsto> 1)" "kavail s' = kavail s3"
    using e y(4) by simp_all
  have ld: "load32 (kmem s') c = dir" by (simp add: s')
  note d' = directory_ok_extends [OF dir e'(1,2)]
  have "klive s2 dir = Some 1" "\<And>i. i < 1024 \<Longrightarrow> klive s2 (table_of s2 dir i) = Some 1"
    using dir by (simp_all add: directory_ok_def)
  then have "c \<noteq> dir" "\<And>i. i < 1024 \<Longrightarrow> c \<noteq> table_of s2 dir i" using y(3) by force+
  then show "space_ok c s'" using d' e'(3) by (simp add: space_ok_def ld)
  show "extends s s'" using nt'(2) e'(1) by (rule extends_trans)
  show "kavail s = kavail s' + 1026" using nt'(3) y(5) e'(4) by simp
  show "space_lookup c va s' = va OR ucast f" if "unat va mod 4096 = 0"
    using d'(3) [OF that] new_tables_lookup [OF nt that] by (simp add: space_lookup_def ld)
  have pages: "space_pages c s' = insert c (insert dir (table_of s2 dir ` {..< 1024}))"
    using d'(2) by (simp add: space_pages_def ld)
  have "klive s c = None"
    using y(3) nt'(2) extends_live by (metis option.exhaust option.distinct(1))
  then show "klive s q = None" if "q \<in> space_pages c s'"
    using that nt z(3) unfolding pages by (auto simp: new_tables_def)
  show "klive s' = (\<lambda>q. if q \<in> space_pages c s' then Some 1 else klive s q)"
    using nt unfolding e'(3) pages by (auto simp: new_tables_def)
qed

section \<open>Releasing an address space\<close>

lemma free_tables:
  assumes "space_ok c s" "n \<le> 1024"
  defines "step \<equiv> \<lambda>i s. let entry = word_at (kmem s) (load32 (kmem s) c) (of_nat i) in
            kfree (entry AND 0xFFFFF000) s"
  shows "freed s (table_of s (load32 (kmem s) c) ` {..< n}) (fold step [0..< n] s)"
  using assms(2)
proof (induction n)
  case 0
  then show ?case using assms(1) by (simp add: freed_refl space_ok_def directory_ok_def)
next
  case (Suc n)
  let ?dir = "load32 (kmem s) c"
  obtain t where t: "fold step [0..< n] s = t" by blast
  have ok: "directory_ok s ?dir" "kheap_ok s" "klive s c = Some 1" "klive s ?dir = Some 1"
    "klive s (table_of s ?dir n) = Some 1"
    using assms(1) Suc.prems by (auto simp: space_ok_def directory_ok_def)
  have f: "freed s (table_of s ?dir ` {..< n}) t" using Suc t by simp
  have page: "kmem t x = kmem s x" if "klive s p = Some 1" "in_range p 4096 x" for p x
    using f klive_in_pool(2) [OF ok(2) that(1)] that(2) by (simp add: freed_def)
  have ld: "load32 (kmem t) c = ?dir"
    by (rule load32_cong, rule page [OF ok(3)]) (erule in_range_mono, simp)
  have "table_of t ?dir n = table_of s ?dir n"
    using page [OF ok(4)] Suc.prems by (intro table_of_cong) simp_all
  then have "fold step [0..< Suc n] s = kfree (table_of s ?dir n) t"
    by (simp add: t) (simp add: step_def ld table_of_def)
  moreover have "table_of s ?dir n \<notin> table_of s ?dir ` {..< n}"
    using ok(1) Suc.prems inj_on_image_mem_iff [of "table_of s ?dir" "{..< 1024}" n "{..< n}"]
    by (simp add: directory_ok_def)
  ultimately show ?case
    using freed_insert [OF f ok(5)] by (simp add: lessThan_Suc)
qed

lemma paging_free_4gb_law:
  assumes "space_ok c s"
  shows "freed s (space_pages c s) (paging_free_4gb c s)" "(\<Sum>p\<in>space_pages c s. the (klive s p)) = 1026"
proof -
  let ?dir = "load32 (kmem s) c" and ?T = "table_of s (load32 (kmem s) c) ` {..< 1024}"
  obtain s1 where s1: "fold (\<lambda>i s. let entry = word_at (kmem s) (load32 (kmem s) c) (of_nat i) in
            kfree (entry AND 0xFFFFF000) s) [0..< 1024] s = s1" by blast
  have f: "freed s ?T s1" using free_tables [OF assms, of 1024] unfolding s1 by simp
  have ok: "kheap_ok s" "klive s c = Some 1" "klive s ?dir = Some 1" "?dir \<notin> ?T" "c \<notin> insert ?dir ?T"
    using assms by (auto simp: space_ok_def directory_ok_def)
  have page: "kmem s1 x = kmem s x" if "in_range c 4096 x" for x
    using f klive_in_pool(2) [OF ok(1,2)] that by (simp add: freed_def)
  have ld: "load32 (kmem s1) c = ?dir" by (rule load32_cong, rule page) (erule in_range_mono, simp)
  have "paging_free_4gb c s = kfree c (kfree ?dir s1)"
    using s1 ld by (simp add: paging_free_4gb_def PAGING_TOTAL_ENTRIES_PER_TABLE_def)
  then show "freed s (space_pages c s) (paging_free_4gb c s)"
    using freed_insert [OF freed_insert [OF f ok(3,4)] ok(2,5)]
    by (simp add: space_pages_def)
  have "card ?T = 1024" using assms by (simp add: space_ok_def directory_ok_def card_image)
  then have "card (space_pages c s) = 1026" using ok(4,5) by (simp add: space_pages_def)
  moreover have "p \<in> space_pages c s \<Longrightarrow> klive s p = Some 1" for p
    using assms by (auto simp: space_pages_def space_ok_def directory_ok_def)
  ultimately show "(\<Sum>p\<in>space_pages c s. the (klive s p)) = 1026" by simp
qed

section \<open>Properties\<close>

lemma boot_room: "1026 \<le> kavail boot_state"
  by (simp add: boot_heap)

text \<open>
  C5: with 1026 blocks available, \<open>paging_new_4gb\<close> builds an address space in which every
  virtual page maps to the physical page of the same address with the given flags: the directory,
  its 1024 tables and the chunk are fresh distinct allocations, and what was allocated before keeps
  its contents.
\<close>

theorem paging_new_4gb_identity:
  assumes "kheap_ok s" "1026 \<le> kavail s" "paging_new_4gb flags s = (chunk, s')"
  shows "space_ok chunk s'
    \<and> (\<forall>va. unat va mod 4096 = 0 \<longrightarrow>
         paging_get (paging_4gb_chunk_get_directory chunk s') va s' = va OR ucast flags)
    \<and> extends s s' \<and> kavail s = kavail s' + 1026"
  using paging_new_4gb_law [OF assms] by (simp add: space_lookup_def paging_4gb_chunk_get_directory_def)

theorem paging_new_4gb_identity_witness:
  "\<exists>chunk s'. paging_new_4gb 3 boot_state = (chunk, s')
     \<and> paging_get (paging_4gb_chunk_get_directory chunk s') 0xB8000 s' = 0xB8003"
proof -
  obtain chunk s' where ps: "paging_new_4gb 3 boot_state = (chunk, s')" by fastforce
  have "unat (0xB8000 :: addr) mod 4096 = 0" by simp
  then have "paging_get (paging_4gb_chunk_get_directory chunk s') 0xB8000 s' = 0xB8000 OR ucast (3 :: u8)"
    using paging_new_4gb_identity [OF boot_heap(1) boot_room ps] by (elim conjE allE impE)
  then show ?thesis using ps by simp
qed

text \<open>
  C6: \<open>paging_map_to\<close> on page-aligned arguments maps the virtual range of the same length to the
  physical range, page by page with the given flags; every other page keeps its entry, no
  allocation changes and only page tables of this address space are written.
\<close>

theorem paging_map_to_maps:
  assumes "space_ok c s" "unat va mod 4096 = 0" "unat pa mod 4096 = 0" "unat pe mod 4096 = 0"
    "pa \<le> pe" "unat va + (unat pe - unat pa) \<le> 2 ^ 32"
  shows "\<exists>s'. paging_map_to c va pa pe flags s = (0, s') \<and> space_ok c s' \<and> space_keeps c s s'
    \<and> (\<forall>i < (unat pe - unat pa) div 4096.
         paging_get (load32 (kmem s') c) (va + of_nat (i * 4096)) s' = (pa + of_nat (i * 4096)) OR flags)
    \<and> (\<forall>w. unat w mod 4096 = 0 \<longrightarrow> \<not> in_range va (unat pe - unat pa) w \<longrightarrow>
         paging_get (load32 (kmem s') c) w s' = paging_get (load32 (kmem s) c) w s)"
  using paging_map_to_law [OF assms] unfolding space_lookup_def .

theorem paging_map_to_maps_witness:
  "\<exists>c s s'. paging_new_4gb 1 boot_state = (c, s) \<and> paging_map_to c 0x400000 0x1000000 0x1002000 7 s = (0, s')
     \<and> paging_get (load32 (kmem s') c) 0x401000 s' = 0x1001007"
proof -
  obtain c s where ps: "paging_new_4gb 1 boot_state = (c, s)" by fastforce
  have sp: "space_ok c s" using paging_new_4gb_law(1) [OF boot_heap(1) boot_room ps] .
  obtain s' where "paging_map_to c 0x400000 0x1000000 0x1002000 7 s = (0, s')"
    "\<forall>i < 2. paging_get (load32 (kmem s') c) (0x400000 + of_nat (i * 4096)) s' = (0x1000000 + of_nat (i * 4096)) OR 7"
    using paging_map_to_maps [OF sp, of "0x400000" "0x1000000" "0x1002000" 7] by auto
  then show ?thesis using ps by (auto dest!: spec [of _ 1])
qed

text \<open>
  \<open>paging_map_to\<close> refuses a virtual address, a start or an end that is not page-aligned and an
  end below the start: it returns \<open>-EINVARG\<close> and changes nothing.
\<close>

theorem paging_map_to_rejects:
  assumes "unat va mod 4096 \<noteq> 0 \<or> unat pa mod 4096 \<noteq> 0 \<or> unat pe mod 4096 \<noteq> 0 \<or> pe < pa"
  shows "paging_map_to c va pa pe flags s = (- EINVARG, s)"
  using assms word_mod_page [of va] word_mod_page [of pa] word_mod_page [of pe]
  by (auto simp: paging_map_to_def)

theorem paging_map_to_rejects_witness:
  "paging_map_to 0x2000 0x400000 0x1000000 0x1000800 7 boot_state = (- EINVARG, boot_state)"
  by (rule paging_map_to_rejects) simp

text \<open>
  After \<open>paging_map\<close> maps a page, \<open>paging_get_physical_address\<close> of any address in that page is
  the physical page plus the offset of the address in its page.
\<close>

theorem paging_map_translates:
  assumes "space_ok c s" "unat va mod 4096 = 0" "unat pa mod 4096 = 0" "unat flags < 4096" "off < 4096"
    "paging_map c va pa flags s = (r, s')"
  shows "r = 0 \<and> paging_get_physical_address (load32 (kmem s') c) (va + of_nat off) s' = pa + of_nat off"
proof -
  have "r = 0" "paging_get (load32 (kmem s') c) va s' = pa OR flags"
    using paging_map_law [OF assms(1-3), of flags] assms(6) by (auto simp: space_lookup_def)
  then show ?thesis using lookup_physical [OF _ assms(2-5)] by simp
qed

theorem paging_map_translates_witness:
  "\<exists>c s s'. paging_new_4gb 1 boot_state = (c, s) \<and> paging_map c 0x400000 0x1000000 7 s = (0, s')
     \<and> paging_get_physical_address (load32 (kmem s') c) 0x400123 s' = 0x1000123"
proof -
  obtain c s where ps: "paging_new_4gb 1 boot_state = (c, s)" by fastforce
  have sp: "space_ok c s" using paging_new_4gb_law(1) [OF boot_heap(1) boot_room ps] .
  obtain r s' where m: "paging_map c 0x400000 0x1000000 7 s = (r, s')" by fastforce
  then show ?thesis using paging_map_translates [OF sp _ _ _ _ m, of "0x123"] ps by auto
qed

text \<open>
  C7: releasing an address space right after building it gives back every block: the live
  allocations and the number of available blocks are those before \<open>paging_new_4gb\<close>, and what was
  allocated before keeps its contents.
\<close>

theorem paging_free_4gb_restores:
  assumes "kheap_ok s" "1026 \<le> kavail s" "paging_new_4gb flags s = (c, s')"
  shows "kheap_ok (paging_free_4gb c s') \<and> klive (paging_free_4gb c s') = klive s
    \<and> kavail (paging_free_4gb c s') = kavail s
    \<and> (\<forall>x. held s x \<longrightarrow> kmem (paging_free_4gb c s') x = kmem s x)"
proof -
  note new = paging_new_4gb_law [OF assms]
  note free = paging_free_4gb_law [OF new(1)]
  have "kavail (paging_free_4gb c s') = kavail s" using free new(3) by (simp add: freed_def)
  then show ?thesis using extends_freed [OF new(2) free(1) _ new(5)] new(6) by simp
qed

theorem paging_free_4gb_restores_witness:
  "\<exists>c s'. paging_new_4gb 1 boot_state = (c, s') \<and> klive (paging_free_4gb c s') = Map.empty"
proof -
  obtain c s' where "paging_new_4gb 1 boot_state = (c, s')" by fastforce
  then show ?thesis using paging_free_4gb_restores [OF boot_heap(1) boot_room] boot_heap(3) by auto
qed

end
