(* ===== verification/Terminal.thy ===== *)
theory Terminal
  imports Paging
begin

text \<open>
  The text-mode terminal of \<^verbatim>\<open>src/src/kernel.c\<close>: cursor variables and the video
  memory, which is ordinary memory at \<open>0xB8000\<close>. There is no scrolling: rows past the screen are
  written behind the visible page.
\<close>

section \<open>Data\<close>

definition VGA_WIDTH :: nat where [os_defs]: "VGA_WIDTH = 80"
definition VGA_HEIGHT :: nat where [os_defs]: "VGA_HEIGHT = 25"

record terminal_state = paging_state +
  video_memory :: addr
  terminal_row :: u16
  terminal_col :: u16

section \<open>kernel.c: the terminal\<close>

text \<open>Both arguments are signed characters, promoted to \<open>int\<close>.\<close>

definition terminal_make_char :: "u8 \<Rightarrow> u8 \<Rightarrow> u16" where
  "terminal_make_char c color = word_of_int ((sint color * 256) OR sint c)"

definition terminal_putchar ::
  "int \<Rightarrow> int \<Rightarrow> u8 \<Rightarrow> u8 \<Rightarrow> 'a terminal_state_scheme \<Rightarrow> 'a terminal_state_scheme" where
  "terminal_putchar x y c color s =
     s\<lparr>kmem := store16 (kmem s) (video_memory s + 2 * word_of_int (y * int VGA_WIDTH + x))
        (terminal_make_char c color)\<rparr>"

text \<open>
  The part of \<open>terminal_writechar\<close> after its tests; \<open>terminal_backspace\<close> calls
  \<open>terminal_writechar(' ', 15)\<close>, which is this part.
\<close>

definition terminal_writechar_glyph :: "u8 \<Rightarrow> u8 \<Rightarrow> 'a terminal_state_scheme \<Rightarrow> 'a terminal_state_scheme" where
  "terminal_writechar_glyph c color s =
     (let s = terminal_putchar (uint (terminal_col s)) (uint (terminal_row s)) c color s;
          s = s\<lparr>terminal_col := terminal_col s + 1\<rparr> in
      if unat (terminal_col s) \<ge> VGA_WIDTH
      then s\<lparr>terminal_col := 0, terminal_row := terminal_row s + 1\<rparr> else s)"

definition terminal_backspace :: "'a terminal_state_scheme \<Rightarrow> 'a terminal_state_scheme" where
  "terminal_backspace s =
     (if terminal_row s = 0 \<and> terminal_col s = 0 then s
      else
        let s = (if terminal_col s = 0
                 then s\<lparr>terminal_row := terminal_row s - 1, terminal_col := of_nat VGA_WIDTH\<rparr> else s);
            s = s\<lparr>terminal_col := terminal_col s - 1\<rparr>;
            s = terminal_writechar_glyph 0x20 15 s in
        s\<lparr>terminal_col := terminal_col s - 1\<rparr>)"

definition terminal_writechar :: "u8 \<Rightarrow> u8 \<Rightarrow> 'a terminal_state_scheme \<Rightarrow> 'a terminal_state_scheme" where
  "terminal_writechar c color s =
     (if c = 0x0A then s\<lparr>terminal_col := 0, terminal_row := terminal_row s + 1\<rparr>
      else if c = 0x08 then terminal_backspace s
      else terminal_writechar_glyph c color s)"

definition terminal_init :: "'a terminal_state_scheme \<Rightarrow> 'a terminal_state_scheme" where
  "terminal_init s =
     (let s = s\<lparr>video_memory := 0xB8000, terminal_row := 0, terminal_col := 0\<rparr> in
      fold (\<lambda>y s. fold (\<lambda>x s. terminal_putchar (int x) (int y) 0x20 0 s) [0..<VGA_WIDTH] s)
        [0..<VGA_HEIGHT] s)"

text \<open>\<open>print\<close> takes the length first and then reads each character when it is due.\<close>

definition print :: "addr \<Rightarrow> 'a terminal_state_scheme \<Rightarrow> 'a terminal_state_scheme option" where
  "print str s = do {
     len \<leftarrow> strlen (kmem s) str;
     Some (fold (\<lambda>i s. terminal_writechar (kmem s (str + of_nat i)) 15 s) [0..<len] s)
   }"

text \<open>The same on a string literal of the program image.\<close>

definition print_literal :: "u8 list \<Rightarrow> 'a terminal_state_scheme \<Rightarrow> 'a terminal_state_scheme" where
  "print_literal str s = fold (\<lambda>c s. terminal_writechar c 15 s) str s"

text \<open>
  \<open>panic\<close> prints and then loops for ever: the state it stays in. Code that panics has no result,
  which the callers' models render as \<open>None\<close>.
\<close>

definition panic_screen :: "u8 list \<Rightarrow> 'a terminal_state_scheme \<Rightarrow> 'a terminal_state_scheme" where
  "panic_screen message s =
     print_literal (ascii (CHR 0x0A # ''Kernel panic: '') @ message @ [0x0A]) s"

section \<open>The screen\<close>

text \<open>
  The cell of a screen position, in the coordinates of the code. \<open>on_screen\<close> is the invariant of
  the cursor: its column is a column of the screen and the row is one of the 25 visible ones.
\<close>

definition cell_addr :: "'a terminal_state_scheme \<Rightarrow> nat \<Rightarrow> nat \<Rightarrow> addr" where
  "cell_addr s y x = video_memory s + of_nat (2 * (y * 80 + x))"

definition cell :: "'a terminal_state_scheme \<Rightarrow> nat \<Rightarrow> nat \<Rightarrow> u16" where
  "cell s y x = load16 (kmem s) (cell_addr s y x)"

definition on_screen :: "'a terminal_state_scheme \<Rightarrow> bool" where
  "on_screen s \<longleftrightarrow> video_memory s = 0xB8000 \<and> unat (terminal_row s) < 25 \<and> unat (terminal_col s) < 80"

definition cursor :: "'a terminal_state_scheme \<Rightarrow> nat" where
  "cursor s = unat (terminal_row s) * 80 + unat (terminal_col s)"

text \<open>\<open>glyph_cells s k gs\<close>: the cells from linear position \<open>k\<close> on show the glyphs \<open>gs\<close>.\<close>

definition cell_at :: "mem \<Rightarrow> nat \<Rightarrow> u16" where
  "cell_at m k = load16 m (0xB8000 + of_nat (2 * k))"

definition same_but :: "nat \<Rightarrow> nat \<Rightarrow> mem \<Rightarrow> mem \<Rightarrow> bool" where
  "same_but k n m m' \<longleftrightarrow> (\<forall>x. \<not> in_range (0xB8000 + of_nat (2 * k)) (2 * n) x \<longrightarrow> m' x = m x)"

lemma video_range:
  "k + n \<le> 2 ^ 16 \<Longrightarrow> in_range (0xB8000 + of_nat (2 * k)) (2 * n) x \<longleftrightarrow>
   0xB8000 + 2 * k \<le> unat x \<and> unat x < 0xB8000 + 2 * (k + n)"
proof -
  assume k: "k + n \<le> 2 ^ 16"
  have "unat (0xB8000 + of_nat (2 * k) :: addr) = 0xB8000 + 2 * k"
    using k by (simp add: unat_word_ariths unat_of_nat take_bit_nat_eq_self)
  then show ?thesis using k by (subst in_range_unat) auto
qed

lemma cell_at_same:
  assumes "same_but k n m m'" "j < k \<or> k + n \<le> j" "k + n \<le> 2 ^ 16" "j < 2 ^ 16"
  shows "cell_at m' j = cell_at m j"
  unfolding cell_at_def
proof (rule load16_cong)
  fix x assume "in_range (0xB8000 + of_nat (2 * j)) 2 x"
  then have "\<not> in_range (0xB8000 + of_nat (2 * k)) (2 * n) x"
    using assms(2-4) video_range [of j 1 x] video_range [of k n x] by auto
  then show "m' x = m x" using assms(1) by (simp add: same_but_def)
qed

lemma same_but_trans:
  assumes "same_but k n m m1" "same_but j l m1 m2" "i \<le> k" "k + n \<le> i + h" "i \<le> j" "j + l \<le> i + h" "i + h \<le> 2 ^ 16"
  shows "same_but i h m m2"
  unfolding same_but_def
proof (intro allI impI)
  fix x assume "\<not> in_range (0xB8000 + of_nat (2 * i)) (2 * h) x"
  then have "\<not> in_range (0xB8000 + of_nat (2 * k)) (2 * n) x" "\<not> in_range (0xB8000 + of_nat (2 * j)) (2 * l) x"
    using assms(3-7) video_range [of i h x] video_range [of k n x] video_range [of j l x] by auto
  then show "m2 x = m x" using assms(1,2) by (simp add: same_but_def)
qed

lemma putchar_cell:
  assumes "video_memory s = 0xB8000" "k = y * 80 + x"
  shows "cell_at (kmem (terminal_putchar (int x) (int y) c col s)) k = terminal_make_char c col"
    "same_but k 1 (kmem s) (kmem (terminal_putchar (int x) (int y) c col s))"
proof -
  have a: "video_memory s + 2 * word_of_int (int y * int VGA_WIDTH + int x) = 0xB8000 + of_nat (2 * k)"
    by (simp add: assms VGA_WIDTH_def)
  show "cell_at (kmem (terminal_putchar (int x) (int y) c col s)) k = terminal_make_char c col"
    "same_but k 1 (kmem s) (kmem (terminal_putchar (int x) (int y) c col s))"
    by (simp_all only: terminal_putchar_def a) (simp_all add: cell_at_def same_but_def store16_other)
qed

lemma unat_inc16: "unat (w :: u16) < 2 ^ 16 - 1 \<Longrightarrow> unat (w + 1) = unat w + 1"
  by (simp add: unat_word_ariths)

text \<open>One glyph: its cell is written, the cursor moves to the next one.\<close>

lemma writechar_glyph:
  assumes "video_memory s = 0xB8000" "unat (terminal_col s) < 80" "unat (terminal_row s) < 800"
  shows "cell_at (kmem (terminal_writechar_glyph c col s)) (cursor s) = terminal_make_char c col"
    "same_but (cursor s) 1 (kmem s) (kmem (terminal_writechar_glyph c col s))"
    "cursor (terminal_writechar_glyph c col s) = cursor s + 1"
    "unat (terminal_col (terminal_writechar_glyph c col s)) < 80"
    "video_memory (terminal_writechar_glyph c col s) = 0xB8000"
proof -
  let ?p = "terminal_putchar (uint (terminal_col s)) (uint (terminal_row s)) c col s"
  have "uint (terminal_col s) = int (unat (terminal_col s))" "uint (terminal_row s) = int (unat (terminal_row s))"
    by simp_all
  then have p: "cell_at (kmem ?p) (cursor s) = terminal_make_char c col" "same_but (cursor s) 1 (kmem s) (kmem ?p)"
    using putchar_cell [OF assms(1), of "cursor s" "unat (terminal_row s)" "unat (terminal_col s)"]
    by (simp_all only: cursor_def)
  have same: "terminal_col ?p = terminal_col s" "terminal_row ?p = terminal_row s" "video_memory ?p = 0xB8000"
    using assms(1) by (simp_all add: terminal_putchar_def)
  note inc = unat_inc16 [of "terminal_col s"] unat_inc16 [of "terminal_row s"]
  have g: "terminal_writechar_glyph c col s =
      (if 79 \<le> unat (terminal_col s) then ?p\<lparr>terminal_col := 0, terminal_row := terminal_row s + 1\<rparr>
       else ?p\<lparr>terminal_col := terminal_col s + 1\<rparr>)"
    using inc(1) assms(2) by (simp add: terminal_writechar_glyph_def Let_def VGA_WIDTH_def same)
  show "cell_at (kmem (terminal_writechar_glyph c col s)) (cursor s) = terminal_make_char c col"
    "same_but (cursor s) 1 (kmem s) (kmem (terminal_writechar_glyph c col s))"
    using p by (simp_all add: g)
  show "video_memory (terminal_writechar_glyph c col s) = 0xB8000" using same by (simp add: g)
  show "cursor (terminal_writechar_glyph c col s) = cursor s + 1"
    "unat (terminal_col (terminal_writechar_glyph c col s)) < 80"
    using inc assms(2,3) by (auto simp: g cursor_def same)
qed

definition glyph :: "u8 \<Rightarrow> bool" where
  "glyph c \<longleftrightarrow> c \<noteq> 0x0A \<and> c \<noteq> 0x08"

text \<open>
  A run of glyphs that \<open>f\<close> supplies, as long as it ends before row 800 (the 16-bit row does not
  wrap).
\<close>

lemma write_glyphs:
  assumes "video_memory s = 0xB8000" "unat (terminal_col s) < 80" "cursor s + n < 64000"
    "\<And>i t. i < n \<Longrightarrow> same_but (cursor s) i (kmem s) (kmem t) \<Longrightarrow> f i t = terminal_writechar_glyph (g i) 15 t"
  defines "t \<equiv> fold f [0..<n] s"
  shows "i < n \<Longrightarrow> cell_at (kmem t) (cursor s + i) = terminal_make_char (g i) 15"
    and "same_but (cursor s) n (kmem s) (kmem t)" and "cursor t = cursor s + n"
    and "unat (terminal_col t) < 80" and "video_memory t = 0xB8000"
proof -
  have "(\<forall>i < n. cell_at (kmem t) (cursor s + i) = terminal_make_char (g i) 15)
    \<and> same_but (cursor s) n (kmem s) (kmem t) \<and> cursor t = cursor s + n
    \<and> unat (terminal_col t) < 80 \<and> video_memory t = 0xB8000"
    unfolding t_def using assms(3,4)
  proof (induction n)
    case 0
    then show ?case using assms(1,2) by (simp add: same_but_def)
  next
    case (Suc n)
    let ?t = "fold f [0..<n] s"
    have IH: "\<forall>i < n. cell_at (kmem ?t) (cursor s + i) = terminal_make_char (g i) 15"
      "same_but (cursor s) n (kmem s) (kmem ?t)" "cursor ?t = cursor s + n"
      "unat (terminal_col ?t) < 80" "video_memory ?t = 0xB8000"
      using Suc.IH Suc.prems by simp_all
    have row: "unat (terminal_row ?t) < 800" using IH(3) Suc.prems(1) by (simp add: cursor_def)
    note w = writechar_glyph [OF IH(5,4) row, of "g n" 15]
    have "fold f [0..<Suc n] s = terminal_writechar_glyph (g n) 15 ?t"
      using Suc.prems(2) [of n ?t] IH(2) by simp
    moreover have "cell_at (kmem (terminal_writechar_glyph (g n) 15 ?t)) (cursor s + i) = terminal_make_char (g i) 15"
      if "i < Suc n" for i
      using that w(1) cell_at_same [OF w(2), of "cursor s + i"] IH(1,3) Suc.prems(1)
      by (cases "i = n") auto
    moreover have "same_but (cursor s) (Suc n) (kmem s) (kmem (terminal_writechar_glyph (g n) 15 ?t))"
      using Suc.prems(1) IH(3) by (intro same_but_trans [OF IH(2) w(2)]) simp_all
    ultimately show ?case using w(3-5) IH(3) by simp
  qed
  then show "i < n \<Longrightarrow> cell_at (kmem t) (cursor s + i) = terminal_make_char (g i) 15"
    "same_but (cursor s) n (kmem s) (kmem t)" "cursor t = cursor s + n"
    "unat (terminal_col t) < 80" "video_memory t = 0xB8000"
    by blast+
qed

lemma writechar_glyph_eq: "glyph c \<Longrightarrow> terminal_writechar c col s = terminal_writechar_glyph c col s"
  by (simp add: terminal_writechar_def glyph_def)

text \<open>Backspace writes a blank and steps back, from where the cursor was moved first.\<close>

lemma cursor_unique:
  "r * 80 + c = r' * 80 + c' \<Longrightarrow> c < 80 \<Longrightarrow> c' < (80 :: nat) \<Longrightarrow> r = r' \<and> c = c'"
proof -
  assume a: "r * 80 + c = r' * 80 + c'" "c < 80" "c' < 80"
  have "(r * 80 + c) div 80 = r" "(r * 80 + c) mod 80 = c" "(r' * 80 + c') div 80 = r'" "(r' * 80 + c') mod 80 = c'"
    using a(2,3) by simp_all
  with a(1) show ?thesis by simp
qed

lemma unat_79: "unat (79 :: u16) = 79"
  by (simp add: unsigned_numeral take_bit_nat_eq_self)

lemma unat_dec16: "0 < unat (w :: u16) \<Longrightarrow> unat (w - 1) = unat w - 1"
  by (simp add: unat_sub word_le_nat_alt)

lemma backspace_glyph:
  assumes "video_memory t = 0xB8000" "unat (terminal_col t) < 80" "unat (terminal_row t) < 800"
    "cursor t + 1 = r * 80 + c" "c < 80"
  shows "unat (terminal_row (terminal_writechar_glyph 0x20 15 t)) = r"
    "unat (terminal_col (terminal_writechar_glyph 0x20 15 t)) = c"
  using writechar_glyph(3,4) [OF assms(1-3), of "0x20" 15] assms(4,5)
    cursor_unique [of _ "unat (terminal_col (terminal_writechar_glyph 0x20 15 t))" r c]
  by (auto simp: cursor_def [of "terminal_writechar_glyph _ _ _"])

text \<open>Clearing: rows of blanks, one after the other.\<close>

lemma clear_row:
  fixes c col :: u8
  assumes "video_memory s = 0xB8000" "y < 25" "n \<le> 80"
  defines "t \<equiv> fold (\<lambda>x s. terminal_putchar (int x) (int y) c col s) [0..<n] s"
  shows "(\<forall>i < n. cell_at (kmem t) (y * 80 + i) = terminal_make_char c col)
    \<and> same_but (y * 80) n (kmem s) (kmem t) \<and> video_memory t = 0xB8000
    \<and> terminal_row t = terminal_row s \<and> terminal_col t = terminal_col s"
  unfolding t_def using assms(3)
proof (induction n)
  case 0
  then show ?case using assms(1) by (simp add: same_but_def)
next
  case (Suc n)
  let ?t = "fold (\<lambda>x s. terminal_putchar (int x) (int y) c col s) [0..<n] s"
  have IH: "\<forall>i < n. cell_at (kmem ?t) (y * 80 + i) = terminal_make_char c col"
    "same_but (y * 80) n (kmem s) (kmem ?t)" "video_memory ?t = 0xB8000"
    "terminal_row ?t = terminal_row s" "terminal_col ?t = terminal_col s"
    using Suc by simp_all
  note p = putchar_cell [OF IH(3) refl, where y = y and x = n and c = c and col = col]
  have "cell_at (kmem (terminal_putchar (int n) (int y) c col ?t)) (y * 80 + i) = terminal_make_char c col"
    if "i < Suc n" for i
    using that p(1) cell_at_same [OF p(2), of "y * 80 + i"] IH(1) Suc.prems assms(2) by (cases "i = n") auto
  moreover have "same_but (y * 80) (Suc n) (kmem s) (kmem (terminal_putchar (int n) (int y) c col ?t))"
    using Suc.prems assms(2) by (intro same_but_trans [OF IH(2) p(2)]) simp_all
  ultimately show ?case using IH(3-5) by (simp add: terminal_putchar_def)
qed

lemma clear_screen:
  fixes c col :: u8
  assumes "video_memory s = 0xB8000" "n \<le> 25"
  defines "t \<equiv> fold (\<lambda>y s. fold (\<lambda>x s. terminal_putchar (int x) (int y) c col s) [0..<80] s) [0..<n] s"
  shows "(\<forall>k < n * 80. cell_at (kmem t) k = terminal_make_char c col)
    \<and> same_but 0 (n * 80) (kmem s) (kmem t) \<and> video_memory t = 0xB8000
    \<and> terminal_row t = terminal_row s \<and> terminal_col t = terminal_col s"
  unfolding t_def using assms(2)
proof (induction n)
  case 0
  then show ?case using assms(1) by (simp add: same_but_def)
next
  case (Suc n)
  let ?t = "fold (\<lambda>y s. fold (\<lambda>x s. terminal_putchar (int x) (int y) c col s) [0..<80] s) [0..<n] s"
  let ?u = "fold (\<lambda>x s. terminal_putchar (int x) (int n) c col s) [0..<80] ?t"
  have IH: "\<forall>k < n * 80. cell_at (kmem ?t) k = terminal_make_char c col"
    "same_but 0 (n * 80) (kmem s) (kmem ?t)" "video_memory ?t = 0xB8000"
    "terminal_row ?t = terminal_row s" "terminal_col ?t = terminal_col s"
    using Suc by simp_all
  have r: "\<forall>i < 80. cell_at (kmem ?u) (n * 80 + i) = terminal_make_char c col"
    "same_but (n * 80) 80 (kmem ?t) (kmem ?u)" "video_memory ?u = 0xB8000"
    "terminal_row ?u = terminal_row ?t" "terminal_col ?u = terminal_col ?t"
    using clear_row [OF IH(3) _ order_refl, of n c col] Suc.prems by simp_all
  have "cell_at (kmem ?u) k = terminal_make_char c col" if "k < Suc n * 80" for k
  proof (cases "k < n * 80")
    case True
    then show ?thesis using cell_at_same [OF r(2), of k] IH(1) Suc.prems by simp
  next
    case False
    then show ?thesis using r(1) [rule_format, of "k - n * 80"] that by simp
  qed
  moreover have "same_but 0 (Suc n * 80) (kmem s) (kmem ?u)"
    using Suc.prems by (intro same_but_trans [OF IH(2) r(2)]) simp_all
  moreover have "fold (\<lambda>y s. fold (\<lambda>x s. terminal_putchar (int x) (int y) c col s) [0..<80] s) [0..<Suc n] s = ?u"
    by simp
  ultimately show ?case using r(3-5) IH(4,5) by metis
qed

lemma print_string_law:
  assumes "cstring (kmem s) str cs" "\<forall>c \<in> set cs. glyph c" "video_memory s = 0xB8000"
    "unat (terminal_col s) < 80" "cursor s + length cs < 64000"
    "disjoint_ranges str (Suc (length cs)) (0xB8000 + of_nat (2 * cursor s)) (2 * length cs)"
  shows "\<exists>s'. print str s = Some s'
     \<and> (\<forall>i < length cs. cell_at (kmem s') (cursor s + i) = terminal_make_char (cs ! i) 15)
     \<and> same_but (cursor s) (length cs) (kmem s) (kmem s')
     \<and> cursor s' = cursor s + length cs \<and> unat (terminal_col s') < 80 \<and> video_memory s' = 0xB8000"
proof -
  let ?f = "\<lambda>i s. terminal_writechar (kmem s (str + of_nat i)) 15 s"
  have step: "?f i t = terminal_writechar_glyph (cs ! i) 15 t"
    if i: "i < length cs" and t: "same_but (cursor s) i (kmem s) (kmem t)" for i t
  proof -
    have "in_range str (Suc (length cs)) (str + of_nat i)" using i assms(5) by simp
    then have "\<not> in_range (0xB8000 + of_nat (2 * cursor s)) (2 * length cs) (str + of_nat i)"
      using assms(6) by (simp add: disjoint_ranges_def)
    then have "\<not> in_range (0xB8000 + of_nat (2 * cursor s)) (2 * i) (str + of_nat i)"
      using in_range_mono [of _ "2 * i" _ "2 * length cs"] i by fastforce
    then have "kmem t (str + of_nat i) = cs ! i"
      using t assms(1) i by (simp add: same_but_def cstring_def)
    then show ?thesis using assms(2) i by (simp add: writechar_glyph_eq)
  qed
  have "print str s = Some (fold ?f [0..<length cs] s)"
    using strlen_cstring [OF assms(1)] by (simp add: print_def)
  then show ?thesis using write_glyphs [OF assms(3-5) step] by simp
qed

section \<open>Properties\<close>

text \<open>
  C11: \<open>print\<close> of a terminated string of ordinary characters returns, shows the string from the
  cursor on (white on black, wrapping at column 80), leaves the cursor behind it, and writes
  nothing but those cells.
\<close>

theorem print_shows_string:
  assumes "cstring (kmem s) str cs" "\<forall>c \<in> set cs. glyph c" "video_memory s = 0xB8000"
    "unat (terminal_col s) < 80" "cursor s + length cs < 64000"
    "disjoint_ranges str (Suc (length cs)) (0xB8000 + of_nat (2 * cursor s)) (2 * length cs)"
  shows "\<exists>s'. print str s = Some s'
     \<and> (\<forall>i < length cs. cell_at (kmem s') (cursor s + i) = terminal_make_char (cs ! i) 15)
     \<and> same_but (cursor s) (length cs) (kmem s) (kmem s')
     \<and> cursor s' = cursor s + length cs \<and> unat (terminal_col s') < 80"
  using print_string_law [OF assms] by blast

definition screen_state :: terminal_state where
  "screen_state = \<lparr>kmem = demo_string, kernel_heap = small_heap, current_directory = 0, cr3 = 0,
     kernel_chunk = 0, video_memory = 0xB8000, terminal_row = 3, terminal_col = 79\<rparr>"

theorem print_shows_string_witness:
  "\<exists>s'. print 0x100 screen_state = Some s' \<and> cell_at (kmem s') (4 * 80) = 0x0F42
     \<and> cursor s' = 4 * 80 + 2"
proof -
  have "disjoint_ranges 0x100 (Suc (length [0x41, 0x42, 0x43 :: u8]))
      (0xB8000 + of_nat (2 * cursor screen_state)) (2 * length [0x41, 0x42, 0x43 :: u8])"
    by (rule disjoint_ranges_unat) (simp_all add: cursor_def screen_state_def)
  moreover have "cstring (kmem screen_state) 0x100 [0x41, 0x42, 0x43]"
    using demo_cstring by (simp add: screen_state_def)
  ultimately obtain s' where "print 0x100 screen_state = Some s'"
    "\<forall>i < 3. cell_at (kmem s') (cursor screen_state + i) = terminal_make_char ([0x41, 0x42, 0x43] ! i) 15"
    "cursor s' = cursor screen_state + 3"
    using print_shows_string [of screen_state "0x100" "[0x41, 0x42, 0x43]"]
    by (auto simp: glyph_def screen_state_def cursor_def)
  moreover have "cursor screen_state = 3 * 80 + 79" by (simp add: cursor_def screen_state_def)
  ultimately show ?thesis by (auto simp: terminal_make_char_def dest: spec [of _ 1])
qed

text \<open>
  \<open>terminal_init\<close> from any state blanks the 2000 cells of the screen, puts the cursor in the first
  one, and writes nothing outside the screen.
\<close>

theorem terminal_init_clears:
  "(\<forall>k < 2000. cell_at (kmem (terminal_init s)) k = terminal_make_char 0x20 0)
   \<and> same_but 0 2000 (kmem s) (kmem (terminal_init s))
   \<and> cursor (terminal_init s) = 0 \<and> on_screen (terminal_init s)"
  using clear_screen [of "s\<lparr>video_memory := 0xB8000, terminal_row := 0, terminal_col := 0\<rparr>" 25 "0x20" 0]
  by (simp add: terminal_init_def VGA_WIDTH_def VGA_HEIGHT_def cursor_def on_screen_def
      del: upt_Suc upt.simps upt_rec_numeral)

theorem terminal_init_clears_witness:
  "cell_at (kmem (terminal_init screen_state)) 1999 = 0x0020"
  using terminal_init_clears [of screen_state] by (simp add: terminal_make_char_def)

text \<open>
  Backspace away from column 0 blanks the cell before the cursor and moves the cursor onto it;
  nothing else changes.
\<close>

theorem terminal_backspace_erases:
  assumes "video_memory s = 0xB8000" "0 < unat (terminal_col s)" "unat (terminal_col s) < 80"
    "unat (terminal_row s) < 800"
  shows "cursor (terminal_backspace s) = cursor s - 1
     \<and> cell_at (kmem (terminal_backspace s)) (cursor s - 1) = terminal_make_char 0x20 15
     \<and> same_but (cursor s - 1) 1 (kmem s) (kmem (terminal_backspace s))"
proof -
  define t where "t = s\<lparr>terminal_col := terminal_col s - 1\<rparr>"
  have t: "video_memory t = 0xB8000" "unat (terminal_col t) < 80" "unat (terminal_row t) < 800"
    "cursor t = cursor s - 1" "kmem t = kmem s"
    using assms unat_dec16 [OF assms(2)] by (simp_all add: t_def cursor_def)
  have "cursor t + 1 = unat (terminal_row s) * 80 + unat (terminal_col s)"
    using t(4) assms(2) by (simp add: cursor_def)
  note g = backspace_glyph [OF t(1-3) this assms(3)] writechar_glyph(1,2) [OF t(1-3), of "0x20" 15]
  have "terminal_col s \<noteq> 0" using assms(2) by auto
  then have b: "terminal_backspace s = (terminal_writechar_glyph 0x20 15 t)
      \<lparr>terminal_col := terminal_col (terminal_writechar_glyph 0x20 15 t) - 1\<rparr>"
    by (simp add: terminal_backspace_def Let_def t_def)
  then show ?thesis
    using g t(4,5) assms(2) unat_dec16 [of "terminal_col (terminal_writechar_glyph 0x20 15 t)"]
    by (simp add: cursor_def)
qed

theorem terminal_backspace_erases_witness:
  "cursor (terminal_backspace screen_state) = 3 * 80 + 78"
  using terminal_backspace_erases [of screen_state] by (simp add: screen_state_def cursor_def)

text \<open>
  Backspace at the start of a row other than the first blanks the last cell of the row above but
  leaves the cursor in column 65535 of its own row: the glyph written at column 79 wraps
  the cursor, and the final decrement of the 16-bit column underflows.
\<close>

theorem terminal_backspace_underflows:
  assumes "video_memory s = 0xB8000" "terminal_col s = 0" "0 < unat (terminal_row s)"
    "unat (terminal_row s) < 800"
  shows "terminal_col (terminal_backspace s) = 0xFFFF \<and> terminal_row (terminal_backspace s) = terminal_row s
     \<and> cell_at (kmem (terminal_backspace s)) (cursor s - 1) = terminal_make_char 0x20 15"
proof -
  define t where "t = s\<lparr>terminal_row := terminal_row s - 1, terminal_col := 79\<rparr>"
  have t: "video_memory t = 0xB8000" "unat (terminal_col t) < 80" "unat (terminal_row t) < 800"
    "cursor t = cursor s - 1"
    using assms unat_dec16 [OF assms(3)] by (simp_all add: t_def cursor_def unat_79 diff_mult_distrib)
  have "cursor t + 1 = unat (terminal_row s) * 80 + 0"
    using t(4) assms(2,3) by (simp add: cursor_def)
  from backspace_glyph [OF t(1-3) this]
  have g: "terminal_row (terminal_writechar_glyph 0x20 15 t) = terminal_row s"
    "terminal_col (terminal_writechar_glyph 0x20 15 t) = 0"
    by (simp_all add: word_unat_eq_iff)
  have "terminal_row s \<noteq> 0" using assms(3) by auto
  then have "terminal_backspace s = (terminal_writechar_glyph 0x20 15 t)
      \<lparr>terminal_col := terminal_col (terminal_writechar_glyph 0x20 15 t) - 1\<rparr>"
    using assms(2) by (simp add: terminal_backspace_def Let_def t_def VGA_WIDTH_def)
  then show ?thesis using g t(4) writechar_glyph(1) [OF t(1-3), of "0x20" 15] by simp
qed

theorem terminal_backspace_underflows_witness:
  "terminal_col (terminal_backspace (screen_state\<lparr>terminal_col := 0\<rparr>)) = 0xFFFF"
  using terminal_backspace_underflows [of "screen_state\<lparr>terminal_col := 0\<rparr>"]
  by (simp add: screen_state_def)

end
