(* ===== verification/Disk.thy ===== *)
theory Disk
  imports Terminal
begin

text \<open>
  The ATA disk driver \<^verbatim>\<open>src/src/disk/disk.c\<close> and the byte stream over it,
  \<^verbatim>\<open>src/src/disk/streamer.c\<close>. The machine's ports are a parameter (\<open>bus\<close>): what
  \<open>outb\<close>, \<open>insb\<close> and \<open>insw\<close> of \<^verbatim>\<open>io.asm\<close> do to the device state. What the driver
  relies on, the PIO read protocol of an ATA drive, is the predicate \<open>ata_contract\<close>. The structures
  \<open>disk\<close> and \<open>disk_stream\<close> are kept in typed stores indexed by their addresses.
\<close>

section \<open>Data\<close>

record 'd bus =
  bus_outb :: "u16 \<Rightarrow> u8 \<Rightarrow> 'd \<Rightarrow> 'd"
  bus_insb :: "u16 \<Rightarrow> 'd \<Rightarrow> u8 \<times> 'd"
  bus_insw :: "u16 \<Rightarrow> 'd \<Rightarrow> u16 \<times> 'd"

record disk =
  disk_type :: u32
  disk_sector_size :: int
  disk_ident :: int
  disk_filesystem :: addr
  disk_fs_private :: addr

record disk_stream =
  stream_pos :: int
  stream_disk :: addr

text \<open>
  \<open>disk_var\<close> is the address of the static variable \<open>disk\<close>, \<open>stack_mem\<close> what the kernel stack
  holds before a local buffer is written (its offset 0 is the first byte of the buffer).
\<close>

record 'd disk_state = terminal_state +
  disk_var :: addr
  disks :: "addr \<Rightarrow> disk"
  streams :: "addr \<Rightarrow> disk_stream"
  stack_mem :: mem
  hw :: 'd

definition ALPHAOS_DISK_TYPE_REAL :: u32 where [os_defs]: "ALPHAOS_DISK_TYPE_REAL = 0"

section \<open>disk.c\<close>

text \<open>
  The six port writes that start the transfer. Only the low byte of each value reaches the
  port, so the arithmetic shifts of the signed \<open>lba\<close> are the logical ones.
\<close>

definition disk_command :: "'d bus \<Rightarrow> u32 \<Rightarrow> int \<Rightarrow> 'd \<Rightarrow> 'd" where
  "disk_command bus lba tot d =
     (let d = bus_outb bus 0x1F6 (ucast (drop_bit 24 lba OR 0xE0)) d;
          d = bus_outb bus 0x1F2 (word_of_int tot) d;
          d = bus_outb bus 0x1F3 (ucast (lba AND 0xFF)) d;
          d = bus_outb bus 0x1F4 (ucast (drop_bit 8 lba)) d;
          d = bus_outb bus 0x1F5 (ucast (drop_bit 16 lba)) d in
      bus_outb bus 0x1F7 0x20 d)"

text \<open>Wait for the buffer to be ready: the loop on the status register may not end.\<close>

partial_function (option) disk_wait :: "'d bus \<Rightarrow> 'd \<Rightarrow> 'd option" where
  "disk_wait bus d =
     (let (c, d) = bus_insb bus 0x1F7 d in
      if c AND 0x08 = 0 then disk_wait bus d else Some d)"

primrec disk_copy_words :: "'d bus \<Rightarrow> nat \<Rightarrow> addr \<Rightarrow> mem \<Rightarrow> 'd \<Rightarrow> addr \<times> mem \<times> 'd" where
  "disk_copy_words bus 0 ptr m d = (ptr, m, d)"
| "disk_copy_words bus (Suc n) ptr m d =
     (let (w, d) = bus_insw bus 0x1F0 d in disk_copy_words bus n (ptr + 2) (store16 m ptr w) d)"

primrec disk_read_sectors :: "'d bus \<Rightarrow> nat \<Rightarrow> addr \<Rightarrow> mem \<Rightarrow> 'd \<Rightarrow> (mem \<times> 'd) option" where
  "disk_read_sectors bus 0 ptr m d = Some (m, d)"
| "disk_read_sectors bus (Suc n) ptr m d = do {
     d \<leftarrow> disk_wait bus d;
     let (ptr, m, d) = disk_copy_words bus 256 ptr m d;
     disk_read_sectors bus n ptr m d
   }"

definition disk_read_sector ::
  "'d bus \<Rightarrow> u32 \<Rightarrow> int \<Rightarrow> addr \<Rightarrow> mem \<Rightarrow> 'd \<Rightarrow> (int \<times> mem \<times> 'd) option" where
  "disk_read_sector bus lba tot buf m d = do {
     (m, d) \<leftarrow> disk_read_sectors bus (nat tot) buf m (disk_command bus lba tot d);
     Some (0, m, d)
   }"

definition disk_get :: "int \<Rightarrow> ('d, 'a) disk_state_scheme \<Rightarrow> addr" where
  "disk_get index s = (if index \<noteq> 0 then NULL else disk_var s)"

text \<open>The buffer may be a local array of the caller: the memory it lives in is an argument.\<close>

definition disk_read_block ::
  "'d bus \<Rightarrow> addr \<Rightarrow> u32 \<Rightarrow> int \<Rightarrow> addr \<Rightarrow> mem \<Rightarrow> ('d, 'a) disk_state_scheme \<Rightarrow>
   (int \<times> mem \<times> ('d, 'a) disk_state_scheme) option" where
  "disk_read_block bus idisk lba tot buf m s =
     (if idisk \<noteq> disk_var s then Some (- EIO, m, s)
      else do {
        (res, m, d) \<leftarrow> disk_read_sector bus lba tot buf m (hw s);
        Some (res, m, s\<lparr>hw := d\<rparr>)
      })"

section \<open>streamer.c\<close>

definition diskstreamer_new ::
  "int \<Rightarrow> ('d, 'a) disk_state_scheme \<Rightarrow> addr \<times> ('d, 'a) disk_state_scheme" where
  "diskstreamer_new disk_id s =
     (let disk = disk_get disk_id s in
      if disk = NULL then (NULL, s)
      else
        let (streamer, s) = kzalloc 8 s in
        (streamer, s\<lparr>streams := (streams s)(streamer := \<lparr>stream_pos = 0, stream_disk = disk\<rparr>)\<rparr>))"

definition diskstreamer_seek ::
  "addr \<Rightarrow> int \<Rightarrow> ('d, 'a) disk_state_scheme \<Rightarrow> int \<times> ('d, 'a) disk_state_scheme" where
  "diskstreamer_seek stream p s =
     (0, s\<lparr>streams := (streams s)(stream := (streams s stream)\<lparr>stream_pos := p\<rparr>)\<rparr>)"

primrec diskstreamer_copy :: "nat \<Rightarrow> int \<Rightarrow> mem \<Rightarrow> addr \<Rightarrow> mem \<Rightarrow> addr \<times> mem" where
  "diskstreamer_copy 0 i buf out m = (out, m)"
| "diskstreamer_copy (Suc n) i buf out m =
     diskstreamer_copy n (i + 1) buf (out + 1) (m(out := buf (word_of_int i)))"

lemma cmod_less: "cmod a 512 < 512"
proof (cases "0 \<le> a")
  case False
  then have "cmod a 512 = - ((- a) mod 512)"
    by (simp add: cmod_def cdiv_def minus_div_mult_eq_mod [symmetric] sgn_if)
  then show ?thesis by simp
qed simp

function diskstreamer_read ::
  "'d bus \<Rightarrow> addr \<Rightarrow> addr \<Rightarrow> int \<Rightarrow> mem \<Rightarrow> ('d, 'a) disk_state_scheme \<Rightarrow>
   (int \<times> mem \<times> ('d, 'a) disk_state_scheme) option" where
  "diskstreamer_read bus stream out tot m s =
     (let sector = cdiv (stream_pos (streams s stream)) ALPHAOS_SECTOR_SIZE;
          offset = cmod (stream_pos (streams s stream)) ALPHAOS_SECTOR_SIZE;
          overflow = (offset + tot \<ge> ALPHAOS_SECTOR_SIZE);
          total_to_read = (if overflow then tot - (offset + tot - ALPHAOS_SECTOR_SIZE) else tot) in
      case disk_read_block bus (stream_disk (streams s stream)) (word_of_int sector) 1 0 (stack_mem s) s of
        None \<Rightarrow> None
      | Some (res, buf, s) \<Rightarrow>
          if res < 0 then Some (res, m, s)
          else
            let (out, m) = diskstreamer_copy (nat total_to_read) offset buf out m;
                s = s\<lparr>streams := (streams s)(stream :=
                      (streams s stream)\<lparr>stream_pos := s32 (stream_pos (streams s stream) + total_to_read)\<rparr>)\<rparr> in
            if overflow then diskstreamer_read bus stream out (tot - total_to_read) m s
            else Some (res, m, s))"
  by pat_completeness auto
termination
proof (relation "measure (\<lambda>(bus, stream, out, tot, m, s). nat tot)", goal_cases)
  case 1
  then show ?case by simp
next
  case (2 bus stream out tot m s)
  then show ?case using cmod_less [of "stream_pos (streams s stream)"] by (simp add: ALPHAOS_SECTOR_SIZE_def)
qed

declare diskstreamer_read.simps [simp del]

definition diskstreamer_close :: "addr \<Rightarrow> ('d, 'a) disk_state_scheme \<Rightarrow> ('d, 'a) disk_state_scheme" where
  "diskstreamer_close stream s = kfree stream s"

section \<open>What the drive promises\<close>

text \<open>
  The PIO read protocol. \<open>idle\<close>: the drive accepts a command; \<open>serving d ws\<close>: the words \<open>ws\<close>
  are still to be transferred; \<open>ready\<close>: it has announced data (DRQ); \<open>wait\<close> bounds the polls
  until it does. A read command starts serving the words of the requested sectors, polling the
  status register transfers nothing and shows DRQ after finitely many polls, each read of the data
  port delivers the next word, and at the end of the transfer the drive is idle again.
\<close>

record 'd ata =
  ata_idle :: "'d \<Rightarrow> bool"
  ata_serving :: "'d \<Rightarrow> u16 list \<Rightarrow> bool"
  ata_ready :: "'d \<Rightarrow> bool"
  ata_wait :: "'d \<Rightarrow> nat"

definition disk_word :: "(nat \<Rightarrow> u8) \<Rightarrow> nat \<Rightarrow> u16" where
  "disk_word img i = ucast (img (2 * i)) OR push_bit 8 (ucast (img (2 * i + 1)))"

definition sector_words :: "(nat \<Rightarrow> u8) \<Rightarrow> nat \<Rightarrow> nat \<Rightarrow> u16 list" where
  "sector_words img lba n = map (disk_word img) [lba * 256..<(lba + n) * 256]"

definition ata_command_law :: "'d bus \<Rightarrow> 'd ata \<Rightarrow> (nat \<Rightarrow> u8) \<Rightarrow> bool" where
  "ata_command_law bus ata img \<longleftrightarrow>
     (\<forall>d lba n. ata_idle ata d \<longrightarrow> unat lba < 2 ^ 28 \<longrightarrow> 0 < n \<longrightarrow> n < 256 \<longrightarrow>
        ata_serving ata (disk_command bus lba (int n) d) (sector_words img (unat lba) n))"

definition ata_poll_law :: "'d bus \<Rightarrow> 'd ata \<Rightarrow> bool" where
  "ata_poll_law bus ata \<longleftrightarrow>
     (\<forall>d ws st d'. ata_serving ata d ws \<longrightarrow> ws \<noteq> [] \<longrightarrow> bus_insb bus 0x1F7 d = (st, d') \<longrightarrow>
        ata_serving ata d' ws
        \<and> (if st AND 8 = 0 then ata_wait ata d' < ata_wait ata d else ata_ready ata d'))"

definition ata_data_law :: "'d bus \<Rightarrow> 'd ata \<Rightarrow> bool" where
  "ata_data_law bus ata \<longleftrightarrow>
     (\<forall>d w ws v d'. ata_serving ata d (w # ws) \<longrightarrow> ata_ready ata d \<longrightarrow> bus_insw bus 0x1F0 d = (v, d') \<longrightarrow>
        v = w \<and> ata_serving ata d' ws \<and> (length ws mod 256 \<noteq> 0 \<longrightarrow> ata_ready ata d'))"

definition ata_contract :: "'d bus \<Rightarrow> 'd ata \<Rightarrow> (nat \<Rightarrow> u8) \<Rightarrow> bool" where
  "ata_contract bus ata img \<longleftrightarrow> ata_command_law bus ata img \<and> ata_poll_law bus ata
     \<and> ata_data_law bus ata \<and> (\<forall>d. ata_serving ata d [] \<longrightarrow> ata_idle ata d)"

lemmas ata_laws = ata_command_law_def ata_poll_law_def ata_data_law_def

text \<open>Bytes of the disk.\<close>

definition disk_bytes :: "(nat \<Rightarrow> u8) \<Rightarrow> nat \<Rightarrow> nat \<Rightarrow> u8 list" where
  "disk_bytes img p n = map img [p..<p + n]"

lemma disk_bytes_simps [simp]: "length (disk_bytes img p n) = n" "disk_bytes img p 0 = []"
  by (simp_all add: disk_bytes_def)

lemma nth_disk_bytes: "i < n \<Longrightarrow> disk_bytes img p n ! i = img (p + i)"
  by (simp add: disk_bytes_def)

lemma disk_bytes_append: "disk_bytes img p n @ disk_bytes img (p + n) k = disk_bytes img p (n + k)"
  unfolding disk_bytes_def map_append [symmetric]
  using upt_add_eq_append [of p "p + n" k] by (simp add: add.assoc)

lemma write_bytes_append:
  "write_bytes (write_bytes m a xs) (a + of_nat (length xs)) ys = write_bytes m a (xs @ ys)"
  by (induction xs arbitrary: m a) (simp_all flip: add.assoc)

lemma write_disk_bytes:
  "write_bytes (write_bytes m p (disk_bytes img a n)) (p + of_nat n) (disk_bytes img (a + n) k) =
   write_bytes m p (disk_bytes img a (n + k))"
  using write_bytes_append [of m p "disk_bytes img a n" "disk_bytes img (a + n) k"]
  by (simp add: disk_bytes_append)

section \<open>Reading sectors\<close>

lemma disk_wait_ready:
  assumes "ata_contract bus ata img" "ata_serving ata d ws" "ws \<noteq> []"
  shows "\<exists>d'. disk_wait bus d = Some d' \<and> ata_serving ata d' ws \<and> ata_ready ata d'"
  using assms(2)
proof (induction "ata_wait ata d" arbitrary: d rule: less_induct)
  case less
  obtain st d' where st: "bus_insb bus 0x1F7 d = (st, d')" by fastforce
  have poll: "ata_serving ata d' ws" "if st AND 8 = 0 then ata_wait ata d' < ata_wait ata d else ata_ready ata d'"
    using assms(1,3) less.prems st by (simp_all add: ata_contract_def ata_poll_law_def)
  show ?case
  proof (cases "st AND 8 = 0")
    case True
    then show ?thesis
      using less.hyps [of d'] poll by (subst disk_wait.simps) (simp add: st)
  next
    case False
    then show ?thesis using poll by (subst disk_wait.simps) (simp add: st)
  qed
qed

lemma store16_bytes: "store16 m p (disk_word img i) = write_bytes m p (disk_bytes img (2 * i) 2)"
proof -
  have "ucast (disk_word img i) = img (2 * i)" "ucast (drop_bit 8 (disk_word img i)) = img (2 * i + 1)"
    by (rule bit_word_eqI; force simp: disk_word_def bit_simps dest: bit_imp_le_length)+
  then show ?thesis by (simp add: store16_def disk_bytes_def upt_rec fun_upd_def)
qed

lemma disk_copy_words_serving:
  assumes "ata_contract bus ata img" "ata_serving ata d (map (disk_word img) [k..<k + n] @ ws)"
    "0 < n \<Longrightarrow> ata_ready ata d" "length ws mod 256 = 0" "n \<le> 256"
  shows "\<exists>d'. disk_copy_words bus n p m d = (p + of_nat (2 * n), write_bytes m p (disk_bytes img (2 * k) (2 * n)), d')
     \<and> ata_serving ata d' ws"
  using assms(2,3,5)
proof (induction n arbitrary: k p m d)
  case 0
  then show ?case by simp
next
  case (Suc n)
  obtain v d' where v: "bus_insw bus 0x1F0 d = (v, d')" by fastforce
  let ?ws = "map (disk_word img) [Suc k..<Suc k + n] @ ws"
  have "ata_serving ata d (disk_word img k # ?ws)" "ata_ready ata d"
    using Suc.prems by (simp_all add: upt_conv_Cons del: upt_Suc)
  then have w: "v = disk_word img k" "ata_serving ata d' ?ws" "length ?ws mod 256 \<noteq> 0 \<longrightarrow> ata_ready ata d'"
    using assms(1) v unfolding ata_contract_def ata_data_law_def by blast+
  have "0 < n \<Longrightarrow> ata_ready ata d'"
    using w(3) assms(4) Suc.prems(3) by (simp add: mod_add_right_eq [symmetric])
  then obtain d'' where d'': "disk_copy_words bus n (p + 2) (store16 m p v) d' =
      (p + 2 + of_nat (2 * n), write_bytes (store16 m p v) (p + 2) (disk_bytes img (2 * Suc k) (2 * n)), d'')"
    "ata_serving ata d'' ws"
    using Suc.IH [OF w(2), of "p + 2" "store16 m p v"] Suc.prems(3) by auto
  have "write_bytes (store16 m p v) (p + 2) (disk_bytes img (2 * Suc k) (2 * n)) =
      write_bytes m p (disk_bytes img (2 * k) (2 * Suc n))"
    using write_disk_bytes [of m p img "2 * k" 2 "2 * n"] by (simp add: w(1) store16_bytes)
  then show ?case using v d'' by (simp add: ac_simps)
qed

lemma disk_read_sectors_serving:
  assumes "ata_contract bus ata img" "ata_serving ata d (sector_words img lba n)"
  shows "\<exists>d'. disk_read_sectors bus n p m d = Some (write_bytes m p (disk_bytes img (lba * 512) (n * 512)), d')
     \<and> ata_idle ata d'"
  using assms(2)
proof (induction n arbitrary: lba p m d)
  case 0
  then show ?case using assms(1) by (simp add: sector_words_def ata_contract_def)
next
  case (Suc n)
  let ?ws = "sector_words img (Suc lba) n"
  have split: "sector_words img lba (Suc n) = map (disk_word img) [lba * 256..<lba * 256 + 256] @ ?ws"
    unfolding sector_words_def map_append [symmetric]
    using upt_add_eq_append [of "lba * 256" "lba * 256 + 256" "n * 256"] by (simp add: ac_simps)
  have len: "length ?ws mod 256 = 0" by (simp add: sector_words_def flip: diff_mult_distrib)
  have "sector_words img lba (Suc n) \<noteq> []" by (simp add: split)
  then obtain d1 where d1: "disk_wait bus d = Some d1" "ata_ready ata d1"
      "ata_serving ata d1 (map (disk_word img) [lba * 256..<lba * 256 + 256] @ ?ws)"
    using disk_wait_ready [OF assms(1) Suc.prems] split by auto
  then obtain d2 where d2: "disk_copy_words bus 256 p m d1 =
      (p + of_nat (2 * 256), write_bytes m p (disk_bytes img (2 * (lba * 256)) (2 * 256)), d2)" "ata_serving ata d2 ?ws"
    using disk_copy_words_serving [OF assms(1) d1(3) _ len, of p m] by auto
  let ?m = "write_bytes m p (disk_bytes img (lba * 512) 512)"
  obtain d3 where d3: "disk_read_sectors bus n (p + 512) ?m d2 =
      Some (write_bytes ?m (p + 512) (disk_bytes img (Suc lba * 512) (n * 512)), d3)" "ata_idle ata d3"
    using Suc.IH [OF d2(2), of "p + 512" ?m] by blast
  have "write_bytes ?m (p + 512) (disk_bytes img (Suc lba * 512) (n * 512)) =
      write_bytes m p (disk_bytes img (lba * 512) (Suc n * 512))"
    using write_disk_bytes [of m p img "lba * 512" 512 "n * 512"] by (simp add: add.commute)
  then show ?case using d1(1) d2(1) d3 by (simp add: mult.commute)
qed

lemma disk_read_sector_law:
  assumes "ata_contract bus ata img" "ata_idle ata d" "unat lba < 2 ^ 28" "0 < n" "n < 256"
  shows "\<exists>d'. disk_read_sector bus lba (int n) buf m d =
       Some (0, write_bytes m buf (disk_bytes img (unat lba * 512) (n * 512)), d') \<and> ata_idle ata d'"
proof -
  have "ata_serving ata (disk_command bus lba (int n) d) (sector_words img (unat lba) n)"
    using assms by (simp add: ata_contract_def ata_command_law_def)
  from disk_read_sectors_serving [OF assms(1) this, of buf m] show ?thesis
    by (auto simp: disk_read_sector_def)
qed

section \<open>Reading through a stream\<close>

text \<open>
  \<open>stream_at s st p\<close>: \<open>st\<close> is a stream on the boot disk at byte \<open>p\<close>. A read changes its position
  and the device state only.
\<close>

definition stream_at :: "('d, 'a) disk_state_scheme \<Rightarrow> addr \<Rightarrow> nat \<Rightarrow> bool" where
  "stream_at s st p \<longleftrightarrow> streams s st = \<lparr>stream_pos = int p, stream_disk = disk_var s\<rparr>"

definition advance :: "addr \<Rightarrow> nat \<Rightarrow> 'd \<Rightarrow> ('d, 'a) disk_state_scheme \<Rightarrow> ('d, 'a) disk_state_scheme" where
  "advance st p d s = s\<lparr>streams := (streams s)(st := \<lparr>stream_pos = int p, stream_disk = disk_var s\<rparr>), hw := d\<rparr>"

lemma stream_at_advance: "stream_at (advance st p d s) st p" "hw (advance st p d s) = d"
  "advance st q e (advance st p d s) = advance st q e s"
  by (simp_all add: stream_at_def advance_def)

lemma diskstreamer_copy_bytes:
  assumes "\<And>j. j < n \<Longrightarrow> buf (word_of_int (i + int j)) = img (k + j)"
  shows "diskstreamer_copy n i buf out m = (out + of_nat n, write_bytes m out (disk_bytes img k n))"
  using assms
proof (induction n arbitrary: i k out m)
  case 0
  then show ?case by simp
next
  case (Suc n)
  have "disk_bytes img k (Suc n) = img k # disk_bytes img (Suc k) n"
    by (simp add: disk_bytes_def upt_conv_Cons del: upt_Suc)
  moreover have "diskstreamer_copy n (i + 1) buf (out + 1) (m(out := img k)) =
      (out + 1 + of_nat n, write_bytes (m(out := img k)) (out + 1) (disk_bytes img (Suc k) n))"
    using Suc.prems [of "Suc _"] by (intro Suc.IH) (simp add: ac_simps)
  ultimately show ?case using Suc.prems [of 0] by (simp add: ac_simps fun_upd_def)
qed

text \<open>One round of the loop: the rest of the current sector, or all that is asked for.\<close>

lemma diskstreamer_read_step:
  assumes "ata_contract bus ata img" "ata_idle ata (hw s)" "stream_at s st p" "p + n < 2 ^ 31"
  shows "\<exists>d. ata_idle ata d \<and> diskstreamer_read bus st out (int n) m s =
     (if p mod 512 + n < 512
      then Some (0, write_bytes m out (disk_bytes img p n), advance st (p + n) d s)
      else let k = 512 - p mod 512 in
           diskstreamer_read bus st (out + of_nat k) (int (n - k)) (write_bytes m out (disk_bytes img p k))
             (advance st (p + k) d s))"
proof -
  let ?lba = "of_nat (p div 512) :: u32" and ?o = "p mod 512"
  have lba: "unat ?lba = p div 512" "unat ?lba < 2 ^ 28"
    using assms(4) by (simp_all add: unat_of_nat take_bit_nat_eq_self less_mult_imp_div_less)
  let ?buf = "write_bytes (stack_mem s) 0 (disk_bytes img (p div 512 * 512) 512)"
  obtain d where d: "disk_read_sector bus ?lba 1 0 (stack_mem s) (hw s) = Some (0, ?buf, d)" "ata_idle ata d"
    using disk_read_sector_law [OF assms(1,2) lba(2), of 1 0 "stack_mem s"] lba(1) by auto
  have buf: "?buf (word_of_int (int ?o + int j)) = img (p + j)" if "?o + j < 512" for j
  proof -
    have "word_of_int (int ?o + int j) = (0 + of_nat (?o + j) :: addr)" by simp
    moreover have "p div 512 * 512 + (?o + j) = p + j" by simp
    ultimately show ?thesis
      using that write_bytes_nth [of "?o + j" "disk_bytes img (p div 512 * 512) 512" "stack_mem s" 0]
      by (simp only: nth_disk_bytes disk_bytes_simps) simp
  qed
  define s1 where "s1 = s\<lparr>hw := d\<rparr>"
  have "int p div 512 = int (p div 512)" by (simp add: zdiv_int)
  then have w: "word_of_int (int p div 512) = ?lba" by (simp only:) simp
  have blk: "disk_read_block bus (stream_disk (streams s st)) (word_of_int (int p div 512)) 1 0 (stack_mem s) s =
      Some (0, ?buf, s1)"
    using assms(3) d(1) by (simp add: disk_read_block_def stream_at_def s1_def w)
  have adv: "s1\<lparr>streams := (streams s1)(st := (streams s1 st)\<lparr>stream_pos := s32 (int p + int k)\<rparr>)\<rparr> = advance st (p + k) d s"
    if "p + k < 2 ^ 31" for k
    using assms(3) that s32_id [of "int p + int k"] by (simp add: s1_def advance_def stream_at_def)
  have pos: "stream_pos (streams s st) = int p" "stream_pos (streams s1 st) = int p"
    using assms(3) by (simp_all add: stream_at_def s1_def)
  have off: "int p mod 512 = int ?o" by (simp add: zmod_int)
  show ?thesis
  proof (cases "?o + n < 512")
    case True
    have "diskstreamer_copy n (int ?o) ?buf out m = (out + of_nat n, write_bytes m out (disk_bytes img p n))"
      using True buf by (intro diskstreamer_copy_bytes) simp
    then show ?thesis
      using True d(2) adv [of n] assms(4)
      by (intro exI [of _ d], subst diskstreamer_read.simps)
        (simp add: pos blk ALPHAOS_SECTOR_SIZE_def Let_def off)
  next
    case False
    define k where "k = 512 - ?o"
    have "int k = 512 - int ?o" unfolding k_def by simp
    then have ko: "512 - int ?o = int k" "int n - int k = int (n - k)" "(512 \<le> int ?o + int n) = True"
      "(?o + n < 512) = False" "p + k < 2 ^ 31"
      using False assms(4) by (simp_all add: k_def)
    have "diskstreamer_copy k (int ?o) ?buf out m = (out + of_nat k, write_bytes m out (disk_bytes img p k))"
      using buf by (intro diskstreamer_copy_bytes) (simp add: k_def)
    then show ?thesis
      using d(2) by (intro exI [of _ d], subst diskstreamer_read.simps)
        (simp add: pos blk ALPHAOS_SECTOR_SIZE_def Let_def off ko(1-4) adv [OF ko(5)] flip: k_def)
  qed
qed

lemma diskstreamer_read_law:
  assumes "ata_contract bus ata img" "ata_idle ata (hw s)" "stream_at s st p" "p + n < 2 ^ 31"
  shows "\<exists>d. ata_idle ata d \<and> diskstreamer_read bus st out (int n) m s =
     Some (0, write_bytes m out (disk_bytes img p n), advance st (p + n) d s)"
  using assms(2-4)
proof (induction n arbitrary: p out m s rule: less_induct)
  case (less n)
  obtain d where d: "ata_idle ata d" and step: "diskstreamer_read bus st out (int n) m s =
     (if p mod 512 + n < 512
      then Some (0, write_bytes m out (disk_bytes img p n), advance st (p + n) d s)
      else let k = 512 - p mod 512 in
           diskstreamer_read bus st (out + of_nat k) (int (n - k)) (write_bytes m out (disk_bytes img p k))
             (advance st (p + k) d s))"
    using diskstreamer_read_step [OF assms(1) less.prems, of out m] by blast
  show ?case
  proof (cases "p mod 512 + n < 512")
    case True
    then show ?thesis using d step by auto
  next
    case False
    define k where "k = 512 - p mod 512"
    have k: "0 < k" "k \<le> n" using False by (simp_all add: k_def)
    let ?s = "advance st (p + k) d s" and ?m = "write_bytes m out (disk_bytes img p k)"
    obtain e where "ata_idle ata e" "diskstreamer_read bus st (out + of_nat k) (int (n - k)) ?m ?s =
      Some (0, write_bytes ?m (out + of_nat k) (disk_bytes img (p + k) (n - k)), advance st (p + k + (n - k)) e ?s)"
      using less.IH [of "n - k" ?s "p + k" "out + of_nat k" ?m] k less.prems(3) d
      by (auto simp: stream_at_advance)
    then show ?thesis
      using k step False write_disk_bytes [of m out img p k "n - k"]
      by (auto simp: stream_at_advance Let_def simp flip: k_def)
  qed
qed

section \<open>Properties\<close>

text \<open>
  C10: on a drive that keeps the PIO protocol, \<open>diskstreamer_read\<close> of any length from any position
  returns 0, leaves in the buffer exactly the bytes of the disk from the stream's position on,
  advances the position by that length, and changes nothing else; reads that cross sector borders
  included.
\<close>

theorem diskstreamer_read_correct:
  assumes "ata_contract bus ata img" "ata_idle ata (hw s)" "stream_at s st p" "p + n < 2 ^ 31"
  shows "\<exists>d. ata_idle ata d \<and> diskstreamer_read bus st out (int n) m s =
     Some (0, write_bytes m out (disk_bytes img p n), advance st (p + n) d s)"
  by (rule diskstreamer_read_law [OF assms])

text \<open>
  A drive for the witnesses: it keeps the values written to its registers and the words still
  to be transferred, and announces data at the second poll.
\<close>

record sim_drive =
  sim_regs :: "u16 \<Rightarrow> u8"
  sim_words :: "u16 list"
  sim_busy :: nat

definition sim_lba :: "(u16 \<Rightarrow> u8) \<Rightarrow> nat" where
  "sim_lba r = unat (r 0x1F3) + unat (r 0x1F4) * 2 ^ 8 + unat (r 0x1F5) * 2 ^ 16
     + unat (r 0x1F6 AND 0x0F) * 2 ^ 24"

definition sim_bus :: "(nat \<Rightarrow> u8) \<Rightarrow> sim_drive bus" where
  "sim_bus img = \<lparr>
     bus_outb = (\<lambda>port v d.
       let d = d\<lparr>sim_regs := (sim_regs d)(port := v)\<rparr> in
       if port = 0x1F7 \<and> v = 0x20
       then d\<lparr>sim_words := sector_words img (sim_lba (sim_regs d)) (unat (sim_regs d 0x1F2)), sim_busy := 1\<rparr>
       else d),
     bus_insb = (\<lambda>port d. if sim_busy d = 0 then (0x58, d) else (0x80, d\<lparr>sim_busy := sim_busy d - 1\<rparr>)),
     bus_insw = (\<lambda>port d. (hd (sim_words d), d\<lparr>sim_words := tl (sim_words d),
       sim_busy := (if (length (sim_words d) - 1) mod 256 = 0 then 1 else sim_busy d)\<rparr>))\<rparr>"

definition sim_ata :: "sim_drive ata" where
  "sim_ata = \<lparr>ata_idle = (\<lambda>d. sim_words d = []), ata_serving = (\<lambda>d ws. sim_words d = ws),
     ata_ready = (\<lambda>d. sim_busy d = 0), ata_wait = sim_busy\<rparr>"

lemma base_256:
  "(A :: nat) = B * 2 ^ 8 + b \<Longrightarrow> B = C * 2 ^ 8 + c \<Longrightarrow> d = C \<Longrightarrow> n = A * 2 ^ 8 + a \<Longrightarrow>
   a + b * 2 ^ 8 + c * 2 ^ 16 + d * 2 ^ 24 = n"
  by simp

lemma sim_lba_bytes:
  assumes "unat (lba :: u32) < 2 ^ 28"
  shows "unat (ucast (lba AND 0xFF) :: u8) + unat (ucast (drop_bit 8 lba) :: u8) * 2 ^ 8
     + unat (ucast (drop_bit 16 lba) :: u8) * 2 ^ 16
     + unat (ucast (drop_bit 24 lba OR 0xE0) AND 0x0F :: u8) * 2 ^ 24 = unat lba"
proof -
  let ?n = "unat lba"
  have m: "(0xFF :: u32) = mask 8" "(0x0F :: u8) = mask 4"
    by (simp_all add: mask_eq_exp_minus_1)
  have "(0xE0 :: u32) AND mask 4 = 0" by (simp add: mask_eq_exp_minus_1)
  then have e: "n < 4 \<Longrightarrow> \<not> bit (0xE0 :: u32) n" for n by (drule_tac arg_cong [of _ _ "\<lambda>w. bit w n"]) (simp add: bit_simps)
  have "(ucast (lba AND 0xFF) :: u8) = ucast lba"
    unfolding m by (rule bit_word_eqI) (auto simp: bit_simps)
  then have a: "unat (ucast (lba AND 0xFF) :: u8) = ?n mod 2 ^ 8"
    by (simp add: unsigned_ucast_eq take_bit_eq_mod)
  have b: "unat (ucast (drop_bit 8 lba) :: u8) = ?n div 2 ^ 8 mod 2 ^ 8"
    "unat (ucast (drop_bit 16 lba) :: u8) = ?n div 2 ^ 16 mod 2 ^ 8"
    by (simp_all add: unsigned_ucast_eq take_bit_eq_mod drop_bit_eq_div unat_div)
  have "(ucast (drop_bit 24 lba OR 0xE0) AND 0x0F :: u8) = take_bit 4 (ucast (drop_bit 24 lba))"
    unfolding m using e by (intro bit_word_eqI) (auto simp: bit_simps)
  then have c: "unat (ucast (drop_bit 24 lba OR 0xE0) AND 0x0F :: u8) = ?n div 2 ^ 24 mod 2 ^ 4"
    by (simp add: unsigned_take_bit_eq unsigned_ucast_eq drop_bit_eq_div unat_div) (simp add: take_bit_eq_mod)
  have "?n div 2 ^ 16 = ?n div 2 ^ 8 div 2 ^ 8" "?n div 2 ^ 24 = ?n div 2 ^ 16 div 2 ^ 8"
    by (simp_all flip: div_mult2_eq)
  then have "?n div 2 ^ 8 = ?n div 2 ^ 16 * 2 ^ 8 + ?n div 2 ^ 8 mod 2 ^ 8"
    "?n div 2 ^ 16 = ?n div 2 ^ 24 * 2 ^ 8 + ?n div 2 ^ 16 mod 2 ^ 8"
    by (simp_all only: div_mult_mod_eq)
  moreover have "?n div 2 ^ 24 mod 2 ^ 4 = ?n div 2 ^ 24" using assms by (simp add: less_mult_imp_div_less)
  moreover have "?n = ?n div 2 ^ 8 * 2 ^ 8 + ?n mod 2 ^ 8" by simp
  ultimately show ?thesis unfolding a b c by (rule base_256)
qed

lemma sim_contract: "ata_contract (sim_bus img) sim_ata img"
proof -
  have n: "unat (word_of_int (int n) :: u8) = n" if "n < 256" for n
    using that by (simp add: unat_of_nat take_bit_nat_eq_self)
  have "ata_command_law (sim_bus img) sim_ata img"
    using sim_lba_bytes n
    by (simp add: ata_command_law_def disk_command_def sim_bus_def sim_ata_def sim_lba_def)
  moreover have "ata_poll_law (sim_bus img) sim_ata"
    by (auto simp: ata_poll_law_def sim_bus_def sim_ata_def)
  moreover have "ata_data_law (sim_bus img) sim_ata"
    by (auto simp: ata_data_law_def sim_bus_def sim_ata_def)
  ultimately show ?thesis by (simp add: ata_contract_def sim_ata_def)
qed

definition sim_state :: "sim_drive disk_state" where
  "sim_state = \<lparr>kmem = (\<lambda>_. 0), kernel_heap = small_heap, current_directory = 0, cr3 = 0, kernel_chunk = 0,
     video_memory = 0xB8000, terminal_row = 0, terminal_col = 0, disk_var = 0x100000, disks = (\<lambda>_. \<lparr>disk_type = 0, disk_sector_size = 512, disk_ident = 0,
       disk_filesystem = 0, disk_fs_private = 0\<rparr>),
     streams = (\<lambda>_. \<lparr>stream_pos = 510, stream_disk = 0x100000\<rparr>), stack_mem = (\<lambda>_. 0),
     hw = \<lparr>sim_regs = (\<lambda>_. 0), sim_words = [], sim_busy = 0\<rparr>\<rparr>"

theorem diskstreamer_read_correct_witness:
  "\<exists>m' s'. diskstreamer_read (sim_bus of_nat) 0x2000 0x3000 4 (\<lambda>_. 0) sim_state = Some (0, m', s')
     \<and> m' 0x3001 = 0xFF \<and> m' 0x3002 = 0x00 \<and> stream_pos (streams s' 0x2000) = 514"
proof -
  have "ata_idle sim_ata (hw sim_state)" "stream_at sim_state 0x2000 510"
    by (simp_all add: sim_ata_def sim_state_def stream_at_def)
  from diskstreamer_read_correct [OF sim_contract this, where n = 4 and out = "0x3000" and m = "\<lambda>_. 0" and img = of_nat]
  show ?thesis by (auto simp: disk_bytes_def upt_rec advance_def)
qed

text \<open>
  \<open>disk_read_block\<close> refuses any disk other than the boot disk with \<open>-EIO\<close> and leaves buffer and
  device alone; \<open>diskstreamer_read\<close> on such a stream returns that error without moving the stream.
\<close>

theorem diskstreamer_read_other_disk:
  assumes "stream_disk (streams s st) \<noteq> disk_var s"
  shows "diskstreamer_read bus st out n m s = Some (- EIO, m, s)"
  using assms by (subst diskstreamer_read.simps) (simp add: disk_read_block_def EIO_def Let_def)

theorem diskstreamer_read_other_disk_witness:
  "diskstreamer_read (sim_bus of_nat) 0x2000 0x3000 4 (\<lambda>_. 0) (sim_state\<lparr>disk_var := 0x200000\<rparr>) =
     Some (- EIO, \<lambda>_. 0, sim_state\<lparr>disk_var := 0x200000\<rparr>)"
  by (rule diskstreamer_read_other_disk) (simp add: sim_state_def)

end
