(* ===== verification/Pparser.thy ===== *)
theory Pparser
  imports Alloc
begin

text \<open>
  The path parser, \<^verbatim>\<open>src/src/fs/pparser.c\<close>: a path such as \<open>0:/dir/file.txt\<close> becomes
  a \<open>struct path_root\<close> (drive number, first part) and a linked list of \<open>struct path_part\<close>
  (name, next), all allocated on the kernel heap. The structures are kept in memory as the
  compiler lays them out: two words each.
\<close>

section \<open>Data\<close>

text \<open>Offsets of the fields: \<open>path_root.drive_no\<close>, \<open>path_root.first\<close>; \<open>path_part.part\<close>, \<open>path_part.next\<close>.\<close>

definition root_drive_no :: "mem \<Rightarrow> addr \<Rightarrow> int" where
  "root_drive_no m root = sint (word_at m root 0)"

definition root_first :: "mem \<Rightarrow> addr \<Rightarrow> addr" where
  "root_first m root = word_at m root 1"

definition part_part :: "mem \<Rightarrow> addr \<Rightarrow> addr" where
  "part_part m part = word_at m part 0"

definition part_next :: "mem \<Rightarrow> addr \<Rightarrow> addr" where
  "part_next m part = word_at m part 1"

section \<open>pparser.c\<close>

definition pathparser_path_valid_format :: "mem \<Rightarrow> addr \<Rightarrow> bool" where
  "pathparser_path_valid_format m filename \<longleftrightarrow>
     (let len = int (strnlen m filename ALPHAOS_MAX_PATH) in
      len \<ge> 3 \<and> isdigit (m filename) \<and> memcmp m (filename + 1) (buffer (ascii '':/'')) 0 2 = 0)"

text \<open>The result and the advanced \<open>*path\<close>.\<close>

definition pathparser_get_drive_by_path :: "mem \<Rightarrow> addr \<Rightarrow> int \<times> addr" where
  "pathparser_get_drive_by_path m path =
     (if \<not> pathparser_path_valid_format m path then (- EBADPATH, path)
      else (tonumericdigit (m path), path + 3))"

definition pathparser_create_root :: "int \<Rightarrow> 'a kheap_state_scheme \<Rightarrow> addr \<times> 'a kheap_state_scheme" where
  "pathparser_create_root drive_number s =
     (let (path_r, s) = kzalloc 8 s;
          s = s\<lparr>kmem := set_word (kmem s) path_r 0 (word_of_int drive_number)\<rparr>;
          s = s\<lparr>kmem := set_word (kmem s) path_r 1 0\<rparr> in
      (path_r, s))"

text \<open>The copying loop: \<open>(i, *path, memory)\<close> when it stops.\<close>

partial_function (option) pathparser_copy_part ::
  "addr \<Rightarrow> nat \<Rightarrow> addr \<Rightarrow> mem \<Rightarrow> (nat \<times> addr \<times> mem) option"
where
  "pathparser_copy_part result_path_part i path m =
     (if m path \<noteq> 0x2F \<and> m path \<noteq> 0
      then pathparser_copy_part result_path_part (Suc i) (path + 1)
             (m(result_path_part + of_nat i := m path))
      else Some (i, path, m))"

definition pathparser_get_path_part ::
  "addr \<Rightarrow> 'a kheap_state_scheme \<Rightarrow> (addr \<times> addr \<times> 'a kheap_state_scheme) option" where
  "pathparser_get_path_part path s = do {
     let (result_path_part, s) = kzalloc (word_of_int ALPHAOS_MAX_PATH) s;
     (i, path, m) \<leftarrow> pathparser_copy_part result_path_part 0 path (kmem s);
     let s = s\<lparr>kmem := m\<rparr>;
     let path = (if kmem s path = 0x2F then path + 1 else path);
     if i = 0 then Some (NULL, path, kfree result_path_part s)
     else Some (result_path_part, path, s)
   }"

definition pathparser_parse_path_part ::
  "addr \<Rightarrow> addr \<Rightarrow> 'a kheap_state_scheme \<Rightarrow> (addr \<times> addr \<times> 'a kheap_state_scheme) option" where
  "pathparser_parse_path_part last_part path s = do {
     (path_part_str, path, s) \<leftarrow> pathparser_get_path_part path s;
     if path_part_str = NULL then Some (NULL, path, s)
     else do {
       let (part, s) = kzalloc 8 s;
       let s = s\<lparr>kmem := set_word (kmem s) part 0 path_part_str\<rparr>;
       let s = s\<lparr>kmem := set_word (kmem s) part 1 0\<rparr>;
       let s = (if last_part \<noteq> NULL then s\<lparr>kmem := set_word (kmem s) last_part 1 part\<rparr> else s);
       Some (part, path, s)
     }
   }"

partial_function (option) pathparser_free_parts ::
  "addr \<Rightarrow> 'a kheap_state_scheme \<Rightarrow> 'a kheap_state_scheme option"
where
  "pathparser_free_parts part s =
     (if part \<noteq> NULL then
        let next_part = part_next (kmem s) part;
            s = kfree (part_part (kmem s) part) s;
            s = kfree part s in
        pathparser_free_parts next_part s
      else Some s)"

definition pathparser_free :: "addr \<Rightarrow> 'a kheap_state_scheme \<Rightarrow> 'a kheap_state_scheme option" where
  "pathparser_free root s = do {
     s \<leftarrow> pathparser_free_parts (root_first (kmem s) root) s;
     Some (kfree root s)
   }"

text \<open>The loop of \<open>pathparser_parse\<close> that appends the parts after the first.\<close>

partial_function (option) pathparser_parse_rest ::
  "addr \<Rightarrow> addr \<Rightarrow> 'a kheap_state_scheme \<Rightarrow> 'a kheap_state_scheme option"
where
  "pathparser_parse_rest part path s =
     (if part \<noteq> NULL then do {
        (part, path, s) \<leftarrow> pathparser_parse_path_part part path s;
        pathparser_parse_rest part path s
      } else Some s)"

definition pathparser_parse ::
  "addr \<Rightarrow> addr \<Rightarrow> 'a kheap_state_scheme \<Rightarrow> (addr \<times> 'a kheap_state_scheme) option" where
  "pathparser_parse path current_directory_path s = do {
     len \<leftarrow> strlen (kmem s) path;
     if int len > ALPHAOS_MAX_PATH then Some (NULL, s)
     else do {
       let (res, tmp_path) = pathparser_get_drive_by_path (kmem s) path;
       if res < 0 then Some (NULL, s)
       else do {
         let (path_root, s) = pathparser_create_root res s;
         if path_root = NULL then Some (NULL, s)
         else do {
           (first_part, tmp_path, s) \<leftarrow> pathparser_parse_path_part NULL tmp_path s;
           if first_part = NULL then Some (path_root, s)
           else do {
             let s = s\<lparr>kmem := set_word (kmem s) path_root 1 first_part\<rparr>;
             (part, tmp_path, s) \<leftarrow> pathparser_parse_path_part first_part tmp_path s;
             s \<leftarrow> pathparser_parse_rest part tmp_path s;
             Some (path_root, s)
           }
         }
       }
     }
   }"

section \<open>Specification\<close>

text \<open>The parts of the string after the drive: up to the first empty part or the end.\<close>

abbreviation slash :: u8 where "slash \<equiv> 0x2F"

function path_parts :: "u8 list \<Rightarrow> u8 list list" where
  "path_parts cs =
     (let p = takeWhile (\<lambda>c. c \<noteq> slash) cs in
      if p = [] then [] else p # path_parts (drop (Suc (length p)) cs))"
  by pat_completeness auto
termination by (relation "measure length") (auto simp: takeWhile_eq_Nil_iff)

declare path_parts.simps [simp del]

text \<open>
  \<open>parts_at m p qs\<close>: the linked list from \<open>p\<close> consists of the nodes \<open>qs\<close>, each given by the
  address of the node, the address of its name and the name.
\<close>

fun parts_at :: "mem \<Rightarrow> addr \<Rightarrow> (addr \<times> addr \<times> u8 list) list \<Rightarrow> bool" where
  "parts_at m p [] \<longleftrightarrow> p = NULL"
| "parts_at m p ((a, b, str) # qs) \<longleftrightarrow> p = a \<and> a \<noteq> NULL \<and> part_part m a = b \<and> cstring m b str
     \<and> parts_at m (part_next m a) qs"

definition part_pages :: "(addr \<times> addr \<times> u8 list) list \<Rightarrow> addr list" where
  "part_pages qs = concat (map (\<lambda>(a, b, str). [a, b]) qs)"

lemma part_pages_simps [simp]: "part_pages [] = []" "part_pages ((a, b, str) # qs) = a # b # part_pages qs"
  by (simp_all add: part_pages_def)

definition part_names :: "(addr \<times> addr \<times> u8 list) list \<Rightarrow> u8 list list" where
  "part_names qs = map (\<lambda>(a, b, str). str) qs"

lemma part_names_simps [simp]: "part_names [] = []" "part_names ((a, b, str) # qs) = str # part_names qs"
  by (simp_all add: part_names_def)

text \<open>A string whose bytes no allocation can take.\<close>

definition held_string :: "'a kheap_state_scheme \<Rightarrow> addr \<Rightarrow> u8 list \<Rightarrow> bool" where
  "held_string s p str \<longleftrightarrow> cstring (kmem s) p str \<and> (\<forall>x. in_range p (Suc (length str)) x \<longrightarrow> held s x)"

section \<open>One part\<close>

lemma cstring_drop: "cstring m p cs \<Longrightarrow> n \<le> length cs \<Longrightarrow> cstring m (p + of_nat n) (drop n cs)"
proof (induction n arbitrary: p cs)
  case (Suc n)
  then obtain c ds where "cs = c # ds" by (cases cs) auto
  with Suc show ?case using Suc.IH [of "p + 1" ds] by (simp add: ac_simps)
qed simp

lemma in_range_drop:
  "in_range (p + of_nat n) (Suc (k - n)) x \<Longrightarrow> n \<le> k \<Longrightarrow> k < 2 ^ 32 \<Longrightarrow> in_range p (Suc k) x"
proof -
  assume a: "in_range (p + of_nat n) (Suc (k - n)) x" "n \<le> k" "k < 2 ^ 32"
  then obtain j where "j < Suc (k - n)" "x = p + of_nat (n + j)"
    by (elim in_rangeE) (simp add: add.assoc)
  with a(2,3) show ?thesis using in_range_nth [of "n + j" "Suc k" p] by simp
qed

lemma held_string_drop:
  assumes "held_string s p cs" "n \<le> length cs" "length cs < 2 ^ 32"
  shows "held_string s (p + of_nat n) (drop n cs)"
  using assms cstring_drop in_range_drop [of p n "length cs"] by (auto simp: held_string_def)

lemma held_string_extends:
  "held_string s p cs \<Longrightarrow> extends s s' \<Longrightarrow> held_string s' p cs"
  unfolding held_string_def using extends_held extends_mem cstring_cong by metis

lemma copy_part:
  assumes "cstring m path cs" "\<And>x. in_range path (Suc (length cs)) x \<Longrightarrow> \<not> in_range buf n x"
    "i + length cs \<le> n" "n \<le> 2 ^ 32"
  shows "pathparser_copy_part buf i path m =
    (let p = takeWhile (\<lambda>c. c \<noteq> slash) cs in
     Some (i + length p, path + of_nat (length p), write_bytes m (buf + of_nat i) p))"
  using assms
proof (induction cs arbitrary: m i path)
  case Nil
  then show ?case by (simp add: pathparser_copy_part.simps)
next
  case (Cons c cs)
  show ?case
  proof (cases "c = slash")
    case True
    then show ?thesis using Cons.prems(1) by (simp add: pathparser_copy_part.simps)
  next
    case False
    let ?m = "m(buf + of_nat i := c)"
    have "in_range buf n (buf + of_nat i)" using Cons.prems(3,4) by simp
    then have out: "\<not> in_range path (Suc (length (c # cs))) (buf + of_nat i)"
      using Cons.prems(2) by blast
    have "cstring ?m (path + 1) cs"
      using Cons.prems(1) out by (auto intro!: cstring_cong [of m] simp: in_range_Suc [of path])
    then have "pathparser_copy_part buf (Suc i) (path + 1) ?m =
      (let p = takeWhile (\<lambda>c. c \<noteq> slash) cs in
       Some (Suc i + length p, path + 1 + of_nat (length p), write_bytes ?m (buf + of_nat (Suc i)) p))"
      by (rule Cons.IH) (use Cons.prems in \<open>auto intro: in_range_tail\<close>)
    then show ?thesis
      using False Cons.prems(1)
      by (subst pathparser_copy_part.simps) (simp add: Let_def ac_simps fun_upd_def)
  qed
qed

text \<open>An empty part: the buffer is released again.\<close>

lemma get_path_part_empty:
  assumes "kheap_ok s" "0 < kavail s" "held_string s path cs" "takeWhile (\<lambda>c. c \<noteq> slash) cs = []"
    "length cs \<le> 107"
  shows "\<exists>path' s'. pathparser_get_path_part path s = Some (NULL, path', s')
     \<and> kheap_ok s' \<and> extends s s' \<and> klive s' = klive s \<and> kavail s' = kavail s"
proof -
  obtain b s1 where b: "kzalloc 108 s = (b, s1)" by fastforce
  have z: "extends s s1" "kheap_ok s1" "klive s b = None" "klive s1 = (klive s)(b \<mapsto> 1)"
    "kavail s = Suc (kavail s1)"
    using kzalloc_page_extends [OF assms(1,2) _ _ b] by simp_all
  have f: "freed s1 {b} (kfree b s1)"
    using freed_insert [OF freed_refl [OF z(2)], of b 1] z(4) by simp
  note e = extends_freed [OF z(1) f]
  have e': "kheap_ok (kfree b s1)" "klive (kfree b s1) = klive s" "kfree b s1 = s\<lparr>kmem := kmem (kfree b s1)\<rparr>"
    "\<And>x. held s x \<Longrightarrow> kmem (kfree b s1) x = kmem s x"
    using e z(3,4) by simp_all
  have "extends s (kfree b s1)" unfolding extends_def using e' by simp
  moreover have "kavail (kfree b s1) = kavail s" using f z(4,5) by (simp add: freed_def)
  moreover have "cstring (kmem s1) path cs"
    using held_string_extends [OF assms(3) z(1)] by (simp add: held_string_def)
  then have "kmem s1 path = slash \<or> kmem s1 path = 0"
    using assms(4) by (cases cs) (auto split: if_splits)
  then have "pathparser_copy_part b 0 path (kmem s1) = Some (0, path, kmem s1)"
    by (subst pathparser_copy_part.simps) auto
  then have "pathparser_get_path_part path s =
      Some (NULL, if kmem s1 path = slash then path + 1 else path, kfree b s1)"
    by (simp add: pathparser_get_path_part_def b ALPHAOS_MAX_PATH_def)
  ultimately show ?thesis using e'(1,2) by blast
qed

text \<open>A part with a name: a fresh buffer holds it, and \<open>path\<close> moves past it.\<close>

lemma get_path_part_name:
  assumes "kheap_ok s" "0 < kavail s" "held_string s path cs" "length cs \<le> 107"
    "takeWhile (\<lambda>c. c \<noteq> slash) cs = p" "p \<noteq> []"
  shows "\<exists>b path' s'. pathparser_get_path_part path s = Some (b, path', s') \<and> b \<noteq> NULL
     \<and> kheap_ok s' \<and> extends s s' \<and> klive s b = None \<and> klive s' = (klive s)(b \<mapsto> 1)
     \<and> kavail s = Suc (kavail s') \<and> cstring (kmem s') b p
     \<and> held_string s' path' (drop (Suc (length p)) cs)
     \<and> (\<forall>x. in_range path' (Suc (length cs - Suc (length p))) x \<longrightarrow> in_range path (Suc (length cs)) x)"
proof -
  obtain b s1 where b: "kzalloc 108 s = (b, s1)" by fastforce
  have z: "extends s s1" "kheap_ok s1" "klive s b = None" "klive s1 = (klive s)(b \<mapsto> 1)"
    "kavail s = Suc (kavail s1)" "b \<noteq> NULL" and zero: "\<And>x. in_range b 108 x \<Longrightarrow> kmem s1 x = 0"
    using kzalloc_page_extends [OF assms(1,2) _ _ b] by simp_all
  note str = held_string_extends [OF assms(3) z(1)]
  let ?path = "path + of_nat (length p)" and ?m = "write_bytes (kmem s1) b p"
  have len: "length p \<le> length cs" using assms(5) length_takeWhile_le by metis
  have "\<not> in_range b 4096 x" if "in_range path (Suc (length cs)) x" for x
    using held_fresh [OF z(2) _ z(3) _ extends_heap [OF z(1)], of 1 x] z(1,4) that assms(3)
    by (auto simp: held_string_def extends_def)
  then have cp: "pathparser_copy_part b 0 path (kmem s1) = Some (length p, ?path, ?m)"
    using copy_part [of "kmem s1" path cs b 4096 0] str assms(4,5) by (simp add: held_string_def Let_def)
  have "?m x = kmem s1 x" if "\<not> in_range b (1 * 4096) x" for x
    using that len assms(4) in_range_mono [of b "length p" x 4096] by (auto simp: write_bytes_apply)
  note e = store_extends [OF z(2) _ z(1,3) this]
  have e': "extends s (s1\<lparr>kmem := ?m\<rparr>)" "kheap_ok (s1\<lparr>kmem := ?m\<rparr>)" "klive (s1\<lparr>kmem := ?m\<rparr>) = klive s1"
    "kavail (s1\<lparr>kmem := ?m\<rparr>) = kavail s1"
    using e z(4) by simp_all
  note str' = held_string_extends [OF assms(3) e'(1)]
  let ?path' = "if ?m ?path = slash then ?path + 1 else ?path"
  have "cstring ?m b p"
  proof -
    have "0 \<notin> set p" using assms(3,5) by (auto simp: held_string_def cstring_def dest: set_takeWhileD)
    moreover have "kmem s1 (b + of_nat (length p)) = 0" using zero len assms(4) by simp
    ultimately show ?thesis
      using len assms(4) by (auto simp: cstring_def write_bytes_apply in_range_def unat_of_nat take_bit_nat_def)
  qed
  moreover have "held_string (s1\<lparr>kmem := ?m\<rparr>) ?path' (drop (Suc (length p)) cs)
     \<and> (\<forall>x. in_range ?path' (Suc (length cs - Suc (length p))) x \<longrightarrow> in_range path (Suc (length cs)) x)"
  proof (cases "length p = length cs")
    case True
    then have "?m ?path = 0" using str' by (simp add: held_string_def cstring_def)
    then show ?thesis
      using True held_string_drop [OF str', of "length p"] assms(4) in_range_drop [of path "length p" "length cs"]
      by simp
  next
    case False
    then have lt: "length p < length cs" using len by simp
    then have "cs ! length p = slash" using nth_length_takeWhile [of "\<lambda>c. c \<noteq> slash" cs] assms(5) by auto
    then have "?m ?path = slash" using str' lt by (simp add: held_string_def cstring_def)
    then show ?thesis
      using held_string_drop [OF str', of "Suc (length p)"] lt assms(4) in_range_drop [of path "Suc (length p)" "length cs"]
      by (simp add: ac_simps)
  qed
  moreover have "pathparser_get_path_part path s = Some (b, ?path', s1\<lparr>kmem := ?m\<rparr>)"
    using assms(6) by (simp add: pathparser_get_path_part_def b ALPHAOS_MAX_PATH_def cp)
  ultimately show ?thesis using e' z(3-6) by fastforce
qed

text \<open>A new node: its two words are the name and no successor, and it is linked to the last one.\<close>

lemma node_words:
  "part_part (set_word m a 0 b) a = b" "part_next (set_word m a 1 b) a = b"
  "part_part (set_word m a 1 b) a = part_part m a"
  using word_at_set_word [of 0 0 m a b] word_at_set_word [of 1 1 m a b] word_at_set_word [of 1 0 m a b]
  by (simp_all add: part_part_def part_next_def)

lemma node_words_outside:
  "\<not> in_range a 4096 x \<Longrightarrow> set_word m a 0 b x = m x" "\<not> in_range a 4096 x \<Longrightarrow> set_word m a 1 b x = m x"
  "\<not> in_range (a + 4) 4 x \<Longrightarrow> set_word m a 1 b x = m x"
  using set_word_outside [of 0 a x m b] set_word_outside [of 1 a x m b]
  by (simp_all add: set_word_def store32_other)

lemma node_cong:
  "(\<And>x. in_range a 4 x \<Longrightarrow> m' x = m x) \<Longrightarrow> part_part m' a = part_part m a"
  "(\<And>x. in_range (a + 4) 4 x \<Longrightarrow> m' x = m x) \<Longrightarrow> part_next m' a = part_next m a"
  unfolding part_part_def part_next_def word_at_def by (rule load32_cong, simp)+

definition part_linked ::
  "addr \<Rightarrow> addr \<Rightarrow> addr \<Rightarrow> u8 list \<Rightarrow> 'a kheap_state_scheme \<Rightarrow> 'a kheap_state_scheme \<Rightarrow> bool" where
  "part_linked lst a b p s s' \<longleftrightarrow> a \<noteq> NULL \<and> a \<noteq> b \<and> kheap_ok s' \<and> klive s a = None \<and> klive s b = None
     \<and> klive s' = (klive s)(b \<mapsto> 1, a \<mapsto> 1) \<and> kavail s = kavail s' + 2
     \<and> cstring (kmem s') b p \<and> part_part (kmem s') a = b \<and> part_next (kmem s') a = NULL
     \<and> (lst \<noteq> NULL \<longrightarrow> part_next (kmem s') lst = a) \<and> s' = s\<lparr>kmem := kmem s'\<rparr>
     \<and> (\<forall>x. held s x \<longrightarrow> lst = NULL \<or> \<not> in_range (lst + 4) 4 x \<longrightarrow> kmem s' x = kmem s x)"

lemma parse_path_part_node:
  assumes "kheap_ok s" "2 \<le> kavail s" "held_string s path cs" "length cs \<le> 107"
    "takeWhile (\<lambda>c. c \<noteq> slash) cs = p" "p \<noteq> []"
  shows "\<exists>a b path' s'. pathparser_parse_path_part lst path s =
       Some (a, path', if lst \<noteq> NULL then s'\<lparr>kmem := set_word (kmem s') lst 1 a\<rparr> else s')
     \<and> part_linked NULL a b p s s' \<and> extends s s' \<and> held_string s' path' (drop (Suc (length p)) cs)
     \<and> (\<forall>x. in_range path' (Suc (length cs - Suc (length p))) x \<longrightarrow> in_range path (Suc (length cs)) x)"
proof -
  obtain b path' s1 where g: "pathparser_get_path_part path s = Some (b, path', s1)" "b \<noteq> NULL"
    and s1: "kheap_ok s1" "extends s s1" "klive s b = None" "klive s1 = (klive s)(b \<mapsto> 1)"
     "kavail s = Suc (kavail s1)" "cstring (kmem s1) b p"
    and str: "held_string s1 path' (drop (Suc (length p)) cs)"
     "\<forall>x. in_range path' (Suc (length cs - Suc (length p))) x \<longrightarrow> in_range path (Suc (length cs)) x"
    using get_path_part_name [OF assms(1) _ assms(3-6)] assms(2) by auto
  obtain a s2 where a: "kzalloc 8 s1 = (a, s2)" by fastforce
  have z: "extends s1 s2" "kheap_ok s2" "klive s1 a = None" "klive s2 = (klive s1)(a \<mapsto> 1)"
    "kavail s1 = Suc (kavail s2)" "a \<noteq> NULL"
    using kzalloc_page_extends [OF s1(1) _ _ _ a] assms(2) s1(5) by simp_all
  define m3 where "m3 = set_word (set_word (kmem s2) a 0 b) a 1 0"
  have "m3 x = kmem s2 x" if "\<not> in_range a (1 * 4096) x" for x
    using that by (simp add: m3_def node_words_outside)
  note e = store_extends [OF z(2) _ z(1,3) this]
  have e3: "extends s1 (s2\<lparr>kmem := m3\<rparr>)" "kheap_ok (s2\<lparr>kmem := m3\<rparr>)" "klive (s2\<lparr>kmem := m3\<rparr>) = klive s2"
    "kavail (s2\<lparr>kmem := m3\<rparr>) = kavail s2"
    using e z(4) by simp_all
  note es = extends_trans [OF s1(2) e3(1)]
  have len: "length p \<le> 107" using assms(4,5) length_takeWhile_le [of _ cs] by (metis le_trans)
  have "cstring m3 b p"
  proof (rule cstring_cong [OF s1(6)])
    fix x assume "in_range b (Suc (length p)) x"
    then have "in_range b 4096 x" using len in_range_mono [of b "Suc (length p)" x 4096] by simp
    then show "m3 x = kmem s1 x" using extends_page [OF e3(1) s1(1), of b x] s1(4) by simp
  qed
  moreover have "klive s a = None" "a \<noteq> b" using z(3) s1(4) by (auto split: if_splits)
  ultimately have "part_linked NULL a b p s (s2\<lparr>kmem := m3\<rparr>)"
    unfolding part_linked_def using e3 es s1(3-5) z(4-6)
    by (simp add: m3_def node_words) (simp add: extends_def)
  moreover have "pathparser_parse_path_part lst path s = Some (a, path',
      if lst \<noteq> NULL then (s2\<lparr>kmem := m3\<rparr>)\<lparr>kmem := set_word (kmem (s2\<lparr>kmem := m3\<rparr>)) lst 1 a\<rparr> else s2\<lparr>kmem := m3\<rparr>)"
    using g by (simp add: pathparser_parse_path_part_def a m3_def)
  ultimately show ?thesis using es held_string_extends [OF str(1) e3(1)] str(2) by blast
qed

lemma parse_path_part_name:
  assumes "kheap_ok s" "2 \<le> kavail s" "held_string s path cs" "length cs \<le> 107"
    "takeWhile (\<lambda>c. c \<noteq> slash) cs = p" "p \<noteq> []" "lst \<noteq> NULL" "klive s lst = Some 1"
    "\<And>x. in_range path (Suc (length cs)) x \<Longrightarrow> \<not> in_range lst 4096 x"
  shows "\<exists>a b path' s'. pathparser_parse_path_part lst path s = Some (a, path', s')
     \<and> part_linked lst a b p s s' \<and> held_string s' path' (drop (Suc (length p)) cs)
     \<and> (\<forall>x. in_range path' (Suc (length cs - Suc (length p))) x \<longrightarrow> in_range path (Suc (length cs)) x)"
proof -
  obtain a b path' s3 where run: "pathparser_parse_path_part lst path s =
       Some (a, path', s3\<lparr>kmem := set_word (kmem s3) lst 1 a\<rparr>)"
    and l: "part_linked NULL a b p s s3" and es: "extends s s3"
    and str: "held_string s3 path' (drop (Suc (length p)) cs)"
     "\<And>x. in_range path' (Suc (length cs - Suc (length p))) x \<Longrightarrow> in_range path (Suc (length cs)) x"
    using parse_path_part_node [OF assms(1-6), of lst] assms(7) by auto
  define s4 where "s4 = s3\<lparr>kmem := set_word (kmem s3) lst 1 a\<rparr>"
  have out: "kmem s4 x = kmem s3 x" if "\<not> in_range lst 4096 x \<or> \<not> in_range (lst + 4) 4 x" for x
    using that by (auto simp: s4_def node_words_outside)
  have l3: "kheap_ok s3" "klive s a = None" "klive s b = None" "klive s3 = (klive s)(b \<mapsto> 1, a \<mapsto> 1)" "a \<noteq> b"
    "cstring (kmem s3) b p" "part_part (kmem s3) a = b" "part_next (kmem s3) a = NULL" "s3 = s\<lparr>kmem := kmem s3\<rparr>"
    using l unfolding part_linked_def by blast+
  have live: "klive s3 lst = Some 1" "klive s3 a = Some 1" "klive s3 b = Some 1" "a \<noteq> lst" "b \<noteq> lst"
    using l3(2-5) assms(8) by auto
  have heap: "kheap_ok s4" "klive s4 = klive s3" "kavail s4 = kavail s3"
    by (rule_tac kheap_store [OF l3(1) live(1)]; use out in \<open>simp add: s4_def\<close>)+
  have page: "kmem s4 x = kmem s3 x" if "q = a \<or> q = b" "in_range q k x" "k \<le> 4096" for q k x
    using out klive_page_disjoint [OF l3(1) _ live(1), of q x] live that in_range_mono [OF that(2,3)] by blast
  have len: "length p \<le> 107" using assms(4,5) length_takeWhile_le [of _ cs] by (metis le_trans)
  have "cstring (kmem s4) b p" using page [of b "Suc (length p)"] len by (intro cstring_cong [OF l3(6)]) simp_all
  moreover have "part_part (kmem s4) a = b" using node_cong(1) [of a "kmem s4"] page [of a 4] l3(7) by auto
  moreover have "part_next (kmem s4) a = NULL"
    using node_cong(2) [of a "kmem s4"] page [of a 4096] word_slot [of 1 a] l3(8) by simp
  moreover have "part_next (kmem s4) lst = a" by (simp add: s4_def node_words)
  moreover have "s4 = s\<lparr>kmem := kmem s4\<rparr>" by (rule kmem_only_trans [OF l3(9)]) (simp add: s4_def)
  moreover have "held s x \<Longrightarrow> \<not> in_range (lst + 4) 4 x \<Longrightarrow> kmem s4 x = kmem s x" for x
    using out extends_mem [OF es] by simp
  ultimately have "part_linked lst a b p s s4"
    unfolding part_linked_def using l heap assms(7) by (simp add: part_linked_def)
  moreover have "held_string s4 path' (drop (Suc (length p)) cs)"
  proof -
    have "held s4 = held s3"
      using heap(2) by (simp add: fun_eq_iff held_def in_table_def in_pool_def live_bytes_def s4_def)
    moreover have "\<And>x. in_range path' (Suc (length cs - Suc (length p))) x \<Longrightarrow> kmem s4 x = kmem s3 x"
      using out str(2) assms(9) by blast
    ultimately show ?thesis
      using str(1) cstring_cong [of "kmem s3" path' "drop (Suc (length p)) cs" "kmem s4"]
      by (simp add: held_string_def)
  qed
  ultimately show ?thesis using run str(2) unfolding s4_def by blast
qed

section \<open>The whole path\<close>

text \<open>
  \<open>parsed lst qs s s'\<close>: the nodes \<open>qs\<close> are fresh allocations chained after \<open>lst\<close>; nothing else
  that was held changed.
\<close>

definition parsed ::
  "addr \<Rightarrow> (addr \<times> addr \<times> u8 list) list \<Rightarrow> 'a kheap_state_scheme \<Rightarrow> 'a kheap_state_scheme \<Rightarrow> bool" where
  "parsed lst qs s s' \<longleftrightarrow> kheap_ok s' \<and> s' = s\<lparr>kmem := kmem s'\<rparr>
     \<and> parts_at (kmem s') (part_next (kmem s') lst) qs \<and> distinct (part_pages qs)
     \<and> (\<forall>q \<in> set (part_pages qs). klive s q = None)
     \<and> klive s' = (\<lambda>q. if q \<in> set (part_pages qs) then Some 1 else klive s q)
     \<and> kavail s = kavail s' + 2 * length qs
     \<and> (\<forall>x. held s x \<longrightarrow> \<not> in_range (lst + 4) 4 x \<longrightarrow> kmem s' x = kmem s x)"

lemma word_halves: "in_range a 4 x \<Longrightarrow> \<not> in_range (a + 4) 4 x"
  using word_slots_disjoint [of 0 1 a] by (simp add: disjoint_ranges_def)

lemma parsed_step:
  assumes "part_linked lst a b p s s1" "parsed a qs s1 s'" "kheap_ok s" "klive s lst = Some 1" "length p \<le> 107"
  shows "parsed lst ((a, b, p) # qs) s s'"
proof -
  have l: "a \<noteq> NULL" "a \<noteq> b" "kheap_ok s1" "klive s a = None" "klive s b = None"
     "klive s1 = (klive s)(b \<mapsto> 1, a \<mapsto> 1)" "kavail s = kavail s1 + 2"
     "cstring (kmem s1) b p" "part_part (kmem s1) a = b" "part_next (kmem s1) lst = a" "s1 = s\<lparr>kmem := kmem s1\<rparr>"
     and out: "\<And>x. held s x \<Longrightarrow> \<not> in_range (lst + 4) 4 x \<Longrightarrow> kmem s1 x = kmem s x"
    using assms(1,3,4) klive_nonnull [OF assms(3,4)] by (auto simp: part_linked_def)
  have r: "kheap_ok s'" "s' = s1\<lparr>kmem := kmem s'\<rparr>" "parts_at (kmem s') (part_next (kmem s') a) qs"
     "distinct (part_pages qs)" "\<And>q. q \<in> set (part_pages qs) \<Longrightarrow> klive s1 q = None"
     "klive s' = (\<lambda>q. if q \<in> set (part_pages qs) then Some 1 else klive s1 q)"
     "kavail s1 = kavail s' + 2 * length qs"
     and out1: "\<And>x. held s1 x \<Longrightarrow> \<not> in_range (a + 4) 4 x \<Longrightarrow> kmem s' x = kmem s1 x"
    using assms(2) by (simp_all add: parsed_def)
  have live: "klive s1 a = Some 1" "klive s1 b = Some 1" "klive s1 lst = Some 1" "a \<noteq> lst" "b \<noteq> lst"
    using l(4-6) assms(4) by auto
  have held1: "held s1 x" if "q \<in> {a, b, lst}" "in_range q k x" "k \<le> 4096" for q k x
    using that live held_page [OF l(3), of q 1 x] in_range_mono [of q k x 4096] by auto
  have page: "kmem s' x = kmem s1 x" if "q \<in> {b, lst}" "in_range q k x" "k \<le> 4096" for q k x
  proof (rule out1)
    have "\<not> in_range a 4096 x"
      using klive_page_disjoint [OF l(3) _ live(1), of q x] that live l(2) in_range_mono [of q k x 4096] by auto
    then show "\<not> in_range (a + 4) 4 x" using word_slot [of 1 a x] by auto
  qed (use held1 that in blast)
  have "part_next (kmem s') lst = a"
    using node_cong(2) [of lst "kmem s'"] page [of lst 4096] word_slot [of 1 lst] l(10) by simp
  moreover have "part_part (kmem s') a = b"
    using node_cong(1) [of a "kmem s'" "kmem s1"] out1 held1 [of a 4] word_halves [of a] l(9) by auto
  moreover have "cstring (kmem s') b p" using page [of b "Suc (length p)"] assms(5) by (intro cstring_cong [OF l(8)]) simp_all
  moreover have "kmem s' x = kmem s x" if x: "held s x" "\<not> in_range (lst + 4) 4 x" for x
  proof -
    have le: "klive s \<subseteq>\<^sub>m klive s1" using l(4-6) by (auto simp: map_le_def)
    note hp = kmem_only_heap [OF l(11)]
    have "\<not> in_range (a + 4) 4 x"
      using held_fresh [OF l(3) live(1) l(4) le hp x(1)] word_slot [of 1 a x] by auto
    then show ?thesis using out [OF x] out1 held_mono [OF hp le x(1)] by simp
  qed
  moreover have "q \<in> set (part_pages qs) \<Longrightarrow> q \<noteq> a \<and> q \<noteq> b \<and> klive s q = None" for q
    using r(5) [of q] l(6) by (auto split: if_splits)
  ultimately show ?thesis
    unfolding parsed_def using l r kmem_only_trans [OF l(11) r(2)] by (auto simp: fun_eq_iff)
qed

lemma parse_path_part_empty:
  assumes "kheap_ok s" "0 < kavail s" "held_string s path cs" "takeWhile (\<lambda>c. c \<noteq> slash) cs = []"
    "length cs \<le> 107"
  shows "\<exists>path' s'. pathparser_parse_path_part lst path s = Some (NULL, path', s')
     \<and> kheap_ok s' \<and> extends s s' \<and> klive s' = klive s \<and> kavail s' = kavail s"
  using get_path_part_empty [OF assms] by (auto simp: pathparser_parse_path_part_def)

lemma parse_rest_chain:
  assumes "kheap_ok s" "2 * length (path_parts cs) < kavail s" "held_string s path cs" "length cs \<le> 107"
    "klive s lst = Some 1" "part_next (kmem s) lst = NULL"
    "\<And>x. in_range path (Suc (length cs)) x \<Longrightarrow> \<not> in_range lst 4096 x"
  shows "\<exists>s' qs. pathparser_parse_rest lst path s = Some s' \<and> parsed lst qs s s'
     \<and> part_names qs = path_parts cs"
  using assms
proof (induction cs arbitrary: lst path s rule: path_parts.induct)
  case (1 cs)
  note P = "1.prems"
  let ?p = "takeWhile (\<lambda>c. c \<noteq> slash) cs"
  have nn: "lst \<noteq> NULL" using klive_nonnull [OF P(1,5)] by simp
  show ?case
  proof (cases "?p = []")
    case True
    obtain path' s' where s': "pathparser_parse_path_part lst path s = Some (NULL, path', s')"
      "kheap_ok s'" "extends s s'" "klive s' = klive s" "kavail s' = kavail s"
      using parse_path_part_empty [OF P(1) _ P(3) True P(4), of lst] P(2) by auto
    have "part_next (kmem s') lst = NULL"
      using node_cong(2) [of lst "kmem s'"] extends_page [OF s'(3) P(1,5)] word_slot [of 1 lst] P(6) by simp
    then have "parsed lst [] s s'" using s' by (auto simp: parsed_def extends_def)
    moreover have "pathparser_parse_rest lst path s = Some s'"
      using nn s'(1) by (simp add: pathparser_parse_rest.simps)
    moreover have "path_parts cs = []" using True by (simp add: path_parts.simps)
    ultimately show ?thesis by (intro exI [of _ s'] exI [of _ "[]"]) simp
  next
    case False
    have pp: "path_parts cs = ?p # path_parts (drop (Suc (length ?p)) cs)"
      using False by (subst path_parts.simps) (simp add: Let_def)
    have two: "2 \<le> kavail s" using P(2) pp by simp
    obtain a b path' s1 where s1: "pathparser_parse_path_part lst path s = Some (a, path', s1)"
      and l: "part_linked lst a b ?p s s1" and str: "held_string s1 path' (drop (Suc (length ?p)) cs)"
      and sub: "\<And>x. in_range path' (Suc (length cs - Suc (length ?p))) x \<Longrightarrow> in_range path (Suc (length cs)) x"
      using parse_path_part_name [OF P(1) two P(3,4) refl False nn P(5,7)] by blast
    have "s1 = s\<lparr>kmem := kmem s1\<rparr>" using l by (simp only: part_linked_def)
    then have le: "klive s \<subseteq>\<^sub>m klive s1" "kernel_heap s1 = kernel_heap s"
      using l kmem_only_heap by (auto simp: part_linked_def map_le_def)
    have la: "kheap_ok s1" "klive s1 a = Some 1" "kavail s = kavail s1 + 2" "part_next (kmem s1) a = NULL" "klive s a = None"
      using l by (simp_all add: part_linked_def)
    have "\<not> in_range a 4096 x" if "in_range path' (Suc (length (drop (Suc (length ?p)) cs))) x" for x
      using held_fresh [OF la(1,2,5) le, of x] sub that P(3) by (simp add: held_string_def)
    moreover have "length (drop (Suc (length ?p)) cs) \<le> 107"
      "2 * length (path_parts (drop (Suc (length ?p)) cs)) < kavail s1"
      using P(2,4) pp la(3) by simp_all
    ultimately obtain s' qs where r: "pathparser_parse_rest a path' s1 = Some s'" "parsed a qs s1 s'"
      "part_names qs = path_parts (drop (Suc (length ?p)) cs)"
      using "1.IH" [OF refl False la(1) _ str _ la(2,4)] by blast
    have "length ?p \<le> 107" using P(4) length_takeWhile_le [of _ cs] le_trans by blast
    note parsed_step [OF l r(2) P(1,5) this]
    moreover have "pathparser_parse_rest lst path s = Some s'"
      using nn s1 r(1) by (subst pathparser_parse_rest.simps) simp
    ultimately show ?thesis using pp r(3) by (intro exI [of _ s'] exI [of _ "(a, b, ?p) # qs"]) simp
  qed
qed

text \<open>\<open>root_at s root d names\<close>: \<open>root\<close> is a parsed path on drive \<open>d\<close>, made of the pages \<open>P\<close>.\<close>

definition root_at :: "'a kheap_state_scheme \<Rightarrow> addr \<Rightarrow> int \<Rightarrow> u8 list list \<Rightarrow> addr set \<Rightarrow> bool" where
  "root_at s root d names P \<longleftrightarrow> kheap_ok s \<and> root \<noteq> NULL \<and> root_drive_no (kmem s) root = d
     \<and> (\<exists>qs. parts_at (kmem s) (root_first (kmem s) root) qs \<and> part_names qs = names
          \<and> distinct (root # part_pages qs) \<and> P = set (root # part_pages qs)
          \<and> (\<forall>q \<in> P. klive s q = Some 1))"

definition path_string :: "u8 \<Rightarrow> u8 list \<Rightarrow> u8 list" where
  "path_string d cs = d # ascii '':/'' @ cs"

lemma length_path_string: "length (path_string d cs) = length cs + 3"
  by (simp add: path_string_def ascii_def)

lemma create_root:
  assumes "kheap_ok s" "0 < kavail s" "pathparser_create_root d s = (root, s')"
  shows "extends s s'" "kheap_ok s'" "klive s root = None" "klive s' = (klive s)(root \<mapsto> 1)"
    "kavail s = Suc (kavail s')" "root \<noteq> NULL" "root_first (kmem s') root = NULL"
    "- (2 ^ 31) \<le> d \<Longrightarrow> d < 2 ^ 31 \<Longrightarrow> root_drive_no (kmem s') root = d"
proof -
  obtain s1 where z: "kzalloc 8 s = (root, s1)"
    and s': "s' = s1\<lparr>kmem := set_word (set_word (kmem s1) root 0 (word_of_int d)) root 1 0\<rparr>"
    using assms(3) by (auto simp: pathparser_create_root_def split: prod.splits)
  note k = kzalloc_page_extends [OF assms(1,2) _ _ z]
  have out: "kmem s' x = kmem s1 x" if "\<not> in_range root (1 * 4096) x" for x
    using that by (simp add: s' node_words_outside)
  have k1: "klive s1 root = Some 1" using k(4) by simp
  note e = store_extends [OF k(2) k1 k(1,3), of "kmem s'"]
  have eq: "s1\<lparr>kmem := kmem s'\<rparr> = s'" by (simp add: s')
  show "extends s s'" "kheap_ok s'" "klive s root = None" "klive s' = (klive s)(root \<mapsto> 1)"
    "kavail s = Suc (kavail s')" "root \<noteq> NULL"
    using e out k eq by simp_all
  show "root_first (kmem s') root = NULL"
    using node_words(2) by (simp add: s' root_first_def part_next_def)
  show "- (2 ^ 31) \<le> d \<Longrightarrow> d < 2 ^ 31 \<Longrightarrow> root_drive_no (kmem s') root = d"
    using node_words(1,3) s32_id [of d] by (simp add: s' root_drive_no_def part_part_def s32_def)
qed

lemma valid_format:
  assumes "cstring m path (path_string d cs)" "isdigit d" "length cs \<le> 105"
  shows "pathparser_get_drive_by_path m path = (tonumericdigit d, path + 3)"
    "strlen m path = Some (length cs + 3)" "cstring m (path + 3) cs"
proof -
  note len = length_path_string [of d cs]
  show "strlen m path = Some (length cs + 3)" using strlen_cstring [OF assms(1)] len by simp
  show "cstring m (path + 3) cs"
    using cstring_drop [OF assms(1), of 3] len by (simp add: path_string_def ascii_def)
  have "3 \<le> int (strnlen m path 108)" using strnlen_cstring [OF assms(1), of 108] len by simp
  moreover have "m path = d" "m (path + 1) = 0x3A" "m (path + 2) = 0x2F"
    using assms(1) by (simp_all add: path_string_def ascii_def of_char_def add.assoc)
  then have "bytes_at m (path + 1) 2 = bytes_at (buffer (ascii '':/'')) 0 2"
    by (simp add: bytes_at_def buffer_def ascii_def upt_rec of_char_def ac_simps)
  ultimately show "pathparser_get_drive_by_path m path = (tonumericdigit d, path + 3)"
    using assms(2) \<open>m path = d\<close>
    by (simp add: pathparser_get_drive_by_path_def pathparser_path_valid_format_def memcmp_eq_0_iff
        ALPHAOS_MAX_PATH_def)
qed

text \<open>
  Setting \<open>root->first\<close> is what linking to a node whose \<open>next\<close> is that word does, so the whole
  parse is the loop started at the root.
\<close>

lemma parse_from_root:
  assumes "root \<noteq> NULL"
    "\<And>b path' s1 s2. pathparser_get_path_part path s = Some (b, path', s1) \<Longrightarrow> b \<noteq> NULL \<Longrightarrow>
       kzalloc 8 s1 \<noteq> (NULL, s2)"
  shows "pathparser_parse_path_part NULL path s \<bind> (\<lambda>(first_part, tmp_path, s).
      if first_part = NULL then Some (root, s)
      else let s = s\<lparr>kmem := set_word (kmem s) root 1 first_part\<rparr> in
        pathparser_parse_path_part first_part tmp_path s \<bind> (\<lambda>(part, tmp_path, s). pathparser_parse_rest part tmp_path s \<bind> (\<lambda>s. Some (root, s))))
    = pathparser_parse_rest root path s \<bind> (\<lambda>s. Some (root, s))"
proof -
  have unfold: "p \<noteq> NULL \<Longrightarrow> pathparser_parse_rest p path s \<bind> k =
      pathparser_parse_path_part p path s \<bind> (\<lambda>(p, path, s). pathparser_parse_rest p path s \<bind> k)" for p path s k
    by (subst pathparser_parse_rest.simps) (simp add: split_def)
  have stop: "pathparser_parse_rest NULL path s = Some s" for path s
    by (simp add: pathparser_parse_rest.simps)
  show ?thesis
  proof (cases "pathparser_get_path_part path s")
    case None
    then show ?thesis using assms(1) by (simp add: unfold pathparser_parse_path_part_def)
  next
    case (Some r)
    obtain b path' s1 where r: "r = (b, path', s1)" by (cases r)
    obtain a s2 where a: "kzalloc 8 s1 = (a, s2)" by fastforce
    show ?thesis
    proof (cases "b = NULL")
      case True
      then show ?thesis using assms(1) Some r by (simp add: unfold stop pathparser_parse_path_part_def)
    next
      case False
      define s3 where "s3 = s2\<lparr>kmem := set_word (set_word (kmem s2) a 0 b) a 1 0\<rparr>"
      have "pathparser_parse_path_part NULL path s = Some (a, path', s3)"
        "pathparser_parse_path_part root path s = Some (a, path', s3\<lparr>kmem := set_word (kmem s3) root 1 a\<rparr>)"
        using False assms(1) by (simp_all add: pathparser_parse_path_part_def Some r a s3_def)
      moreover have "a \<noteq> NULL" using assms(2) [of b path' s1 s2] Some r False a by blast
      ultimately show ?thesis using assms(1) by (simp add: unfold)
    qed
  qed
qed

lemma get_path_part_room:
  assumes "kheap_ok s" "2 \<le> kavail s \<or> takeWhile (\<lambda>c. c \<noteq> slash) cs = []" "0 < kavail s" "held_string s path cs"
    "length cs \<le> 107" "pathparser_get_path_part path s = Some (b, path', s1)" "b \<noteq> NULL"
  shows "kzalloc 8 s1 \<noteq> (NULL, s2)"
proof (cases "takeWhile (\<lambda>c. c \<noteq> slash) cs = []")
  case True
  then show ?thesis using get_path_part_empty [OF assms(1,3,4) _ assms(5)] assms(6,7) by auto
next
  case False
  then have "kheap_ok s1" "0 < kavail s1"
    using get_path_part_name [OF assms(1,3,4,5) refl] assms(2,6) by auto
  then show ?thesis using kzalloc_page_extends(6) [of s1 8 NULL s2] by auto
qed

text \<open>The nodes chained to a fresh root make a parsed path.\<close>

lemma parsed_root_at:
  assumes "extends s s1" "kheap_ok s1" "klive s root = None" "klive s1 = (klive s)(root \<mapsto> 1)"
    "kavail s = Suc (kavail s1)" "root \<noteq> NULL" "root_drive_no (kmem s1) root = d" "parsed root qs s1 s'"
    "part_names qs = names"
  shows "root_at s' root d names (set (root # part_pages qs))" "extends s s'"
    "q \<in> set (root # part_pages qs) \<Longrightarrow> klive s q = None"
    "klive s' = (\<lambda>q. if q \<in> set (root # part_pages qs) then Some 1 else klive s q)"
    "kavail s = kavail s' + card (set (root # part_pages qs))"
proof -
  have r: "kheap_ok s'" "s' = s1\<lparr>kmem := kmem s'\<rparr>" "parts_at (kmem s') (part_next (kmem s') root) qs"
     "distinct (part_pages qs)" "\<And>q. q \<in> set (part_pages qs) \<Longrightarrow> klive s1 q = None"
     "klive s' = (\<lambda>q. if q \<in> set (part_pages qs) then Some 1 else klive s1 q)"
     "kavail s1 = kavail s' + 2 * length qs"
     and out: "\<And>x. held s1 x \<Longrightarrow> \<not> in_range (root + 4) 4 x \<Longrightarrow> kmem s' x = kmem s1 x"
    using assms(8) by (simp_all add: parsed_def)
  have live: "klive s1 root = Some 1" using assms(4) by simp
  have "kmem s' x = kmem s1 x" if "in_range root 4 x" for x
    using out held_page [OF assms(2) live, of x] word_halves [OF that] in_range_mono [OF that, of 4096] by simp
  then have "root_drive_no (kmem s') root = d"
    using node_cong(1) [of root "kmem s'" "kmem s1"] assms(7) by (simp add: root_drive_no_def part_part_def)
  moreover have "root \<notin> set (part_pages qs)" using r(5) live by auto
  ultimately show "root_at s' root d names (set (root # part_pages qs))"
    unfolding root_at_def using r assms(4,6,9)
    by (intro conjI exI [of _ qs]) (auto simp: root_first_def part_next_def)
  show fresh: "klive s q = None" if "q \<in> set (root # part_pages qs)" for q
    using that r(5) [of q] assms(3,4) by (cases "q = root") auto
  show live': "klive s' = (\<lambda>q. if q \<in> set (root # part_pages qs) then Some 1 else klive s q)"
    using r(6) assms(4) by (auto simp: fun_eq_iff)
  have "kmem s' x = kmem s x" if "held s x" for x
  proof -
    have "\<not> in_range root (1 * 4096) x"
      using assms(1) by (intro held_fresh [OF assms(2) live assms(3) _ extends_heap [OF assms(1)] that])
        (simp add: extends_def)
    then have "\<not> in_range (root + 4) 4 x" using word_slot [of 1 root x] by auto
    then show ?thesis using out extends_held [OF assms(1) that] extends_mem [OF assms(1) that] by simp
  qed
  moreover have "s1 = s\<lparr>kmem := kmem s1\<rparr>" using assms(1) by (simp only: extends_def)
  ultimately show "extends s s'"
    using live' fresh kmem_only_trans [OF _ r(2)] by (auto simp: extends_def map_le_def)
  have "length (part_pages qs) = 2 * length qs" by (induction qs) auto
  then show "kavail s = kavail s' + card (set (root # part_pages qs))"
    using \<open>root \<notin> set (part_pages qs)\<close> r(4,7) assms(5) by (simp add: distinct_card)
qed

text \<open>With room for it, parsing builds the list of parts and touches nothing that is held.\<close>

lemma pathparser_parse_law:
  assumes "kheap_ok s" "held_string s path (path_string d cs)" "isdigit d" "length cs \<le> 105"
    "2 * length (path_parts cs) + 2 \<le> kavail s"
  shows "\<exists>root s' P. pathparser_parse path cwd s = Some (root, s')
     \<and> root_at s' root (tonumericdigit d) (path_parts cs) P \<and> extends s s'
     \<and> (\<forall>q \<in> P. klive s q = None) \<and> klive s' = (\<lambda>q. if q \<in> P then Some 1 else klive s q)
     \<and> kavail s = kavail s' + card P \<and> finite P"
proof -
  have m: "cstring (kmem s) path (path_string d cs)" using assms(2) by (simp add: held_string_def)
  note vf = valid_format [OF m assms(3,4)]
  have dig: "0 \<le> tonumericdigit d" "tonumericdigit d \<le> 9"
    using assms(3) by (simp_all add: isdigit_def tonumericdigit_def)
  obtain root s1 where root: "pathparser_create_root (tonumericdigit d) s = (root, s1)" by fastforce
  note c = create_root [OF assms(1) _ root]
  have c': "extends s s1" "kheap_ok s1" "klive s root = None" "klive s1 = (klive s)(root \<mapsto> 1)"
    "kavail s = Suc (kavail s1)" "root \<noteq> NULL" "root_first (kmem s1) root = NULL"
    "root_drive_no (kmem s1) root = tonumericdigit d"
    using c assms(5) dig by simp_all
  have str: "held_string s1 (path + 3) cs"
    using held_string_drop [OF held_string_extends [OF assms(2) c'(1)], of 3] assms(4)
    by (simp add: path_string_def ascii_def)
  have sep: "\<not> in_range root 4096 x" if "in_range (path + 3) (Suc (length cs)) x" for x
  proof -
    have "held s x"
      using that assms(2,4) in_range_drop [of path 3 "length cs + 3" x] length_path_string [of d cs]
      by (simp add: held_string_def)
    moreover have "klive s1 root = Some 1" "klive s \<subseteq>\<^sub>m klive s1" using c'(1,4) by (simp_all add: extends_def)
    ultimately show ?thesis
      using held_fresh [OF c'(2) _ c'(3) _ extends_heap [OF c'(1)], of 1 x] by simp
  qed
  have "klive s1 root = Some 1" "part_next (kmem s1) root = NULL" "length cs \<le> 107"
    "2 * length (path_parts cs) < kavail s1"
    using c' assms(4,5) by (simp_all add: root_first_def part_next_def)
  then obtain s' qs where r: "pathparser_parse_rest root (path + 3) s1 = Some s'" "parsed root qs s1 s'"
    "part_names qs = path_parts cs"
    using parse_rest_chain [OF c'(2) _ str _ _ _ sep] by blast
  have "takeWhile (\<lambda>c. c \<noteq> slash) cs \<noteq> [] \<Longrightarrow> 1 \<le> length (path_parts cs)"
    by (subst path_parts.simps) (simp add: Let_def)
  then have two: "2 \<le> kavail s1 \<or> takeWhile (\<lambda>c. c \<noteq> slash) cs = []" using assms(5) c'(5) by linarith
  have "pathparser_get_path_part (path + 3) s1 = Some (b, path', s2) \<Longrightarrow> b \<noteq> NULL \<Longrightarrow> kzalloc 8 s2 \<noteq> (NULL, s3)"
    for b path' s2 s3
    using get_path_part_room [OF c'(2) _ _ str, of b path' s2 s3] two assms(4,5) c'(5) by simp
  then have "pathparser_parse path cwd s = Some (root, s')"
    using parse_from_root [OF c'(6), of "path + 3" s1] r(1) vf root dig c'(6) assms(4)
    by (simp add: pathparser_parse_def ALPHAOS_MAX_PATH_def)
  moreover note parsed_root_at [OF c'(1-6,8) r(2,3)]
  ultimately show ?thesis by blast
qed

section \<open>Releasing a path\<close>

lemma free_parts:
  assumes "freed s P t" "finite P" "parts_at (kmem s) p qs" "distinct (part_pages qs)" "kheap_ok s"
    "P \<inter> set (part_pages qs) = {}" "\<And>q. q \<in> set (part_pages qs) \<Longrightarrow> klive s q = Some 1"
  shows "\<exists>s'. pathparser_free_parts p t = Some s' \<and> freed s (P \<union> set (part_pages qs)) s'"
  using assms
proof (induction "kmem s" p qs arbitrary: P t rule: parts_at.induct)
  case (1 p)
  then show ?case by (simp add: pathparser_free_parts.simps)
next
  case (2 p a b str qs)
  note P = "2.prems"
  have live: "klive s a = Some 1" "klive s b = Some 1" and ab: "a \<noteq> b" "a \<notin> P" "b \<notin> P"
    using P(4,6,7) by auto
  have page: "kmem t x = kmem s x" if "in_range a 4096 x" for x
    using P(1) klive_in_pool(2) [OF P(5) live(1)] that by (simp add: freed_def)
  have node: "part_part (kmem t) a = b" "part_next (kmem t) a = part_next (kmem s) a"
    using node_cong [of a "kmem t" "kmem s"] page in_range_mono [of a 4 _ 4096] word_slot [of 1 a] P(3) by auto
  have "freed s (insert b P) (kfree b t)" using freed_insert [OF P(1) live(2) ab(3) P(2)] .
  from freed_insert [OF this live(1)] have f: "freed s (insert a (insert b P)) (kfree a (kfree b t))"
    using ab P(2) by simp
  have "\<exists>s'. pathparser_free_parts (part_next (kmem s) a) (kfree a (kfree b t)) = Some s'
      \<and> freed s (insert a (insert b P) \<union> set (part_pages qs)) s'"
    by (rule "2.hyps") (use f P in auto)
  then show ?case using P(3) node by (subst pathparser_free_parts.simps) auto
qed

lemma pathparser_free_law:
  assumes "root_at s root d names P"
  shows "\<exists>s'. pathparser_free root s = Some s' \<and> freed s P s'"
proof -
  obtain qs where q: "parts_at (kmem s) (root_first (kmem s) root) qs" "distinct (root # part_pages qs)"
    "P = set (root # part_pages qs)" "\<And>q. q \<in> P \<Longrightarrow> klive s q = Some 1" "kheap_ok s"
    using assms by (auto simp: root_at_def)
  obtain s1 where s1: "pathparser_free_parts (root_first (kmem s) root) s = Some s1"
    "freed s (set (part_pages qs)) s1"
    using free_parts [OF freed_refl [OF q(5)] _ q(1) _ q(5)] q(2-4) by auto
  have "freed s P (kfree root s1)"
    using freed_insert [OF s1(2), of root 1] q(2-4) by simp
  then show ?thesis using s1(1) by (simp add: pathparser_free_def)
qed

section \<open>Properties\<close>

text \<open>
  C8: parsing \<open>d:/p1/p2/...\<close> with room on the heap returns and builds the list of its parts: the
  root holds the drive digit, the linked list holds the names between the slashes, in order, up to
  the first empty one; every node is a fresh allocation, and no byte that was allocated or outside
  the heap (the path itself included) changes.
\<close>

theorem pathparser_parse_correct:
  assumes "kheap_ok s" "held_string s path (path_string d cs)" "isdigit d" "length cs \<le> 105"
    "2 * length (path_parts cs) + 2 \<le> kavail s"
  shows "\<exists>root s' P. pathparser_parse path cwd s = Some (root, s')
     \<and> root_at s' root (tonumericdigit d) (path_parts cs) P \<and> extends s s'
     \<and> (\<forall>q \<in> P. klive s q = None) \<and> klive s' = (\<lambda>q. if q \<in> P then Some 1 else klive s q)"
  using pathparser_parse_law [OF assms, of cwd] by blast

definition path_mem :: mem where
  "path_mem = (\<lambda>_. 0)(0x100 := 0x30, 0x101 := 0x3A, 0x102 := 0x2F, 0x103 := 0x61, 0x104 := 0x2F, 0x105 := 0x62)"

definition path_state :: kheap_state where
  "path_state = kheap_init \<lparr>kmem = path_mem, kernel_heap = small_heap\<rparr>"

lemma path_demo:
  "kheap_ok path_state" "held_string path_state 0x100 (path_string 0x30 [0x61, 0x2F, 0x62])"
  "path_parts [0x61, 0x2F, 0x62] = [[0x61], [0x62]]" "kavail path_state = 25600" "klive path_state = Map.empty"
proof -
  note law = kheap_init_law [of "\<lparr>kmem = path_mem, kernel_heap = small_heap\<rparr>", folded path_state_def]
  show "kheap_ok path_state" "kavail path_state = 25600" "klive path_state = Map.empty" using law by auto
  show "path_parts [0x61, 0x2F, 0x62] = [[0x61], [0x62]]"
    by (simp add: path_parts.simps [of "_ # _"] path_parts.simps [of "[]"])
  have eq: "kmem path_state x = path_mem x" if "\<not> in_range 0x7E00 25600 x" for x using law that by auto
  have out: "\<not> in_range 0x7E00 25600 x \<and> \<not> in_range 0x1000000 104857600 x" if "in_range 0x100 7 x" for x
    using that by (simp add: in_range_unat)
  have "cstring path_mem 0x100 (path_string 0x30 [0x61, 0x2F, 0x62])"
    by (simp add: path_string_def ascii_def of_char_def path_mem_def)
  then have "cstring (kmem path_state) 0x100 (path_string 0x30 [0x61, 0x2F, 0x62])"
    by (rule cstring_cong) (use eq out length_path_string [of "0x30" "[0x61, 0x2F, 0x62]"] in simp)
  then show "held_string path_state 0x100 (path_string 0x30 [0x61, 0x2F, 0x62])"
    using out length_path_string [of "0x30" "[0x61, 0x2F, 0x62]"]
    by (simp add: held_string_def held_def in_table_def in_pool_def path_state_def kheap_init_eq heap_blocks_def)
qed

theorem pathparser_parse_correct_witness:
  "\<exists>root s' P. pathparser_parse 0x100 0 path_state = Some (root, s') \<and> root_at s' root 0 [[0x61], [0x62]] P"
  using pathparser_parse_correct [OF path_demo(1,2), of 0] path_demo(3,4)
  by (auto simp: isdigit_def tonumericdigit_def)

text \<open>
  A path that is longer than 108 bytes, or does not start with a digit, a colon and a slash, is
  refused: \<open>pathparser_parse\<close> returns NULL and changes nothing.
\<close>

theorem pathparser_parse_rejects:
  assumes "cstring (kmem s) path str"
    "108 < length str \<or> length str < 3 \<or> \<not> isdigit (str ! 0) \<or> take 2 (drop 1 str) \<noteq> ascii '':/''"
  shows "pathparser_parse path cwd s = Some (NULL, s)"
proof -
  have len: "strlen (kmem s) path = Some (length str)" using assms(1) by (rule strlen_cstring)
  have n: "int (strnlen (kmem s) path 108) = min (int (length str)) 108"
    using strnlen_cstring [OF assms(1), of 108] by simp
  have "\<not> pathparser_path_valid_format (kmem s) path" if "length str \<le> 108"
  proof (cases "length str < 3")
    case True
    then show ?thesis using n by (simp add: pathparser_path_valid_format_def ALPHAOS_MAX_PATH_def)
  next
    case False
    then obtain a b c cs where str: "str = a # b # c # cs"
      by (cases str rule: remdups_adj.cases) (auto simp: neq_Nil_conv Suc_le_eq numeral_3_eq_3 not_less)
    with assms that False show ?thesis
      by (auto simp: pathparser_path_valid_format_def memcmp_eq_0_iff bytes_at_def buffer_def ascii_def upt_rec ac_simps)
  qed
  then show ?thesis using len by (auto simp: pathparser_parse_def pathparser_get_drive_by_path_def ALPHAOS_MAX_PATH_def EBADPATH_def)
qed

theorem pathparser_parse_rejects_witness:
  "pathparser_parse 0x101 0 path_state = Some (NULL, path_state)"
proof -
  have "cstring (kmem path_state) 0x101 [0x3A, 0x2F, 0x61, 0x2F, 0x62]"
    using path_demo(2) by (simp add: held_string_def path_string_def ascii_def of_char_def)
  then show ?thesis by (rule pathparser_parse_rejects) (simp add: isdigit_def)
qed

text \<open>
  C9: freeing the path just parsed returns and gives back every block it took: the live allocations
  and the available blocks are those before the parse.
\<close>

theorem pathparser_free_restores:
  assumes "kheap_ok s" "held_string s path (path_string d cs)" "isdigit d" "length cs \<le> 105"
    "2 * length (path_parts cs) + 2 \<le> kavail s"
  shows "\<exists>root s' s''. pathparser_parse path cwd s = Some (root, s') \<and> pathparser_free root s' = Some s''
     \<and> kheap_ok s'' \<and> klive s'' = klive s \<and> kavail s'' = kavail s
     \<and> (\<forall>x. held s x \<longrightarrow> kmem s'' x = kmem s x)"
proof -
  obtain root s' P where p: "pathparser_parse path cwd s = Some (root, s')" "extends s s'"
    "root_at s' root (tonumericdigit d) (path_parts cs) P" "\<And>q. q \<in> P \<Longrightarrow> klive s q = None"
    "klive s' = (\<lambda>q. if q \<in> P then Some 1 else klive s q)" "kavail s = kavail s' + card P"
    using pathparser_parse_law [OF assms, of cwd] by blast
  obtain s'' where f: "pathparser_free root s' = Some s''" "freed s' P s''"
    using pathparser_free_law [OF p(3)] by blast
  have "kavail s'' = kavail s" using f(2) p(5,6) by (simp add: freed_def)
  then show ?thesis using p(1) f(1) extends_freed [OF p(2) f(2) _ p(4)] p(5) by auto
qed

theorem pathparser_free_restores_witness:
  "\<exists>root s' s''. pathparser_parse 0x100 0 path_state = Some (root, s') \<and> pathparser_free root s' = Some s''
     \<and> klive s'' = Map.empty"
  using pathparser_free_restores [OF path_demo(1,2), of 0] path_demo(3-5) by (auto simp: isdigit_def)

end
