(* ===== verification/Fat16.thy ===== *)
theory Fat16
  imports Disk Pparser
begin

text \<open>
  The FAT16 driver, \<^verbatim>\<open>src/src/fs/fat/fat16.c\<close>. Its structures live in the kernel's
  memory at the offsets of the (packed) C declarations; the boot record and the directory entries
  are the bytes read from the disk. Local buffers start with what the stack held. A division by
  a zero cluster size, which faults, and a loop that never ends are both the value \<open>None\<close>.
\<close>

section \<open>Data\<close>

definition ALPHAOS_FAT16_SIGNATURE :: u8 where [os_defs]: "ALPHAOS_FAT16_SIGNATURE = 0x29"
definition ALPHAOS_FAT16_FAT_ENTRY_SIZE :: int where [os_defs]: "ALPHAOS_FAT16_FAT_ENTRY_SIZE = 2"
definition ALPHAOS_FAT16_BAD_SECTOR :: int where [os_defs]: "ALPHAOS_FAT16_BAD_SECTOR = 0xFF7"
definition FAT_ITEM_TYPE_DIRECTORY :: u32 where [os_defs]: "FAT_ITEM_TYPE_DIRECTORY = 0"
definition FAT_ITEM_TYPE_FILE :: u32 where [os_defs]: "FAT_ITEM_TYPE_FILE = 1"
definition FAT_FILE_READ_ONLY :: u8 where [os_defs]: "FAT_FILE_READ_ONLY = 0x01"
definition FAT_FILE_SUBDIRECTORY :: u8 where [os_defs]: "FAT_FILE_SUBDIRECTORY = 0x10"

text \<open>File modes and seek modes of \<^verbatim>\<open>file.h\<close>.\<close>

definition SEEK_SET :: u32 where [os_defs]: "SEEK_SET = 0"
definition SEEK_CUR :: u32 where [os_defs]: "SEEK_CUR = 1"
definition SEEK_END :: u32 where [os_defs]: "SEEK_END = 2"
definition FILE_MODE_READ :: u32 where [os_defs]: "FILE_MODE_READ = 0"
definition FILE_MODE_WRITE :: u32 where [os_defs]: "FILE_MODE_WRITE = 1"
definition FILE_MODE_APPEND :: u32 where [os_defs]: "FILE_MODE_APPEND = 2"
definition FILE_MODE_INVALID :: u32 where [os_defs]: "FILE_MODE_INVALID = 3"
definition FILE_STAT_READ_ONLY :: u32 where [os_defs]: "FILE_STAT_READ_ONLY = 1"

definition ERROR :: "int \<Rightarrow> addr" where "ERROR value = word_of_int value"
definition ERROR_I :: "addr \<Rightarrow> int" where "ERROR_I value = sint value"
definition ISERR :: "addr \<Rightarrow> bool" where "ISERR value \<longleftrightarrow> sint value < 0"

text \<open>\<open>struct fat_header\<close> and \<open>struct fat_header_extended\<close>, packed, at the start of \<open>struct fat_private\<close>.\<close>

definition header_sectors_per_cluster :: "mem \<Rightarrow> addr \<Rightarrow> int" where
  "header_sectors_per_cluster m p = uint (m (p + 13))"
definition header_reserved_sectors :: "mem \<Rightarrow> addr \<Rightarrow> int" where
  "header_reserved_sectors m p = uint (load16 m (p + 14))"
definition header_fat_copies :: "mem \<Rightarrow> addr \<Rightarrow> int" where
  "header_fat_copies m p = uint (m (p + 16))"
definition header_root_dir_entries :: "mem \<Rightarrow> addr \<Rightarrow> int" where
  "header_root_dir_entries m p = uint (load16 m (p + 17))"
definition header_sectors_per_fat :: "mem \<Rightarrow> addr \<Rightarrow> int" where
  "header_sectors_per_fat m p = uint (load16 m (p + 22))"
definition header_signature :: "mem \<Rightarrow> addr \<Rightarrow> u8" where
  "header_signature m p = m (p + 38)"
definition sizeof_fat_h :: int where "sizeof_fat_h = 62"

text \<open>\<open>struct fat_directory_item\<close>, packed: 32 bytes.\<close>

definition sizeof_item :: nat where "sizeof_item = 32"
definition item_filename :: "addr \<Rightarrow> addr" where "item_filename p = p"
definition item_ext :: "addr \<Rightarrow> addr" where "item_ext p = p + 8"
definition item_attributes :: "mem \<Rightarrow> addr \<Rightarrow> u8" where "item_attributes m p = m (p + 11)"
definition item_high_first_cluster :: "mem \<Rightarrow> addr \<Rightarrow> u16" where
  "item_high_first_cluster m p = load16 m (p + 20)"
definition item_low_first_cluster :: "mem \<Rightarrow> addr \<Rightarrow> u16" where
  "item_low_first_cluster m p = load16 m (p + 26)"
definition item_file_size :: "mem \<Rightarrow> addr \<Rightarrow> u32" where "item_file_size m p = load32 m (p + 28)"

text \<open>
  Word offsets of \<open>struct fat_directory\<close> (item, total, sector_pos, ending_sector_pos),
  \<open>struct fat_item\<close> (item or directory, type), \<open>struct fat_file_descriptor\<close> (item, pos), and of the
  fields of \<open>struct fat_private\<close> behind the header (62 bytes, padded to 64).
\<close>

definition dir_item :: u32 where "dir_item = 0"
definition dir_total :: u32 where "dir_total = 1"
definition dir_sector_pos :: u32 where "dir_sector_pos = 2"
definition dir_ending_sector_pos :: u32 where "dir_ending_sector_pos = 3"
definition sizeof_fat_directory :: u32 where "sizeof_fat_directory = 16"
definition fitem_ptr :: u32 where "fitem_ptr = 0"
definition fitem_type :: u32 where "fitem_type = 1"
definition sizeof_fat_item :: u32 where "sizeof_fat_item = 8"
definition fdesc_item :: u32 where "fdesc_item = 0"
definition fdesc_pos :: u32 where "fdesc_pos = 1"
definition sizeof_fat_file_descriptor :: u32 where "sizeof_fat_file_descriptor = 8"
definition private_root_directory :: "addr \<Rightarrow> addr" where "private_root_directory p = p + 64"
definition private_cluster_read_stream :: u32 where "private_cluster_read_stream = 20"
definition private_fat_read_stream :: u32 where "private_fat_read_stream = 21"
definition private_directory_stream :: u32 where "private_directory_stream = 22"
definition sizeof_fat_private :: u32 where "sizeof_fat_private = 92"

lemmas fat_offsets = dir_item_def dir_total_def dir_sector_pos_def dir_ending_sector_pos_def
  fitem_ptr_def fitem_type_def fdesc_item_def fdesc_pos_def private_root_directory_def
  private_cluster_read_stream_def private_fat_read_stream_def private_directory_stream_def

text \<open>Assigning one word field of a structure in memory.\<close>

definition set_field :: "addr \<Rightarrow> u32 \<Rightarrow> u32 \<Rightarrow> 'a kheap_state_scheme \<Rightarrow> 'a kheap_state_scheme" where
  "set_field p i v s = s\<lparr>kmem := set_word (kmem s) p i v\<rparr>"

definition get_field :: "addr \<Rightarrow> u32 \<Rightarrow> 'a kheap_state_scheme \<Rightarrow> u32" where
  "get_field p i s = word_at (kmem s) p i"

text \<open>\<open>diskstreamer_read\<close> into the kernel's memory.\<close>

definition diskstreamer_read_mem ::
  "'d bus \<Rightarrow> addr \<Rightarrow> addr \<Rightarrow> int \<Rightarrow> ('d, 'a) disk_state_scheme \<Rightarrow> (int \<times> ('d, 'a) disk_state_scheme) option" where
  "diskstreamer_read_mem bus stream out tot s = do {
     (res, m, s) \<leftarrow> diskstreamer_read bus stream out tot (kmem s) s;
     Some (res, s\<lparr>kmem := m\<rparr>)
   }"

section \<open>fat16.c: mounting\<close>

definition fat16_init_private :: "addr \<Rightarrow> addr \<Rightarrow> ('d, 'a) disk_state_scheme \<Rightarrow> ('d, 'a) disk_state_scheme" where
  "fat16_init_private disk private s =
     (let s = s\<lparr>kmem := memset (kmem s) private 0 (unat sizeof_fat_private)\<rparr>;
          (st, s) = diskstreamer_new (disk_ident (disks s disk)) s;
          s = set_field private private_cluster_read_stream st s;
          (st, s) = diskstreamer_new (disk_ident (disks s disk)) s;
          s = set_field private private_fat_read_stream st s;
          (st, s) = diskstreamer_new (disk_ident (disks s disk)) s in
      set_field private private_directory_stream st s)"

definition fat16_sector_to_absolute :: "addr \<Rightarrow> int \<Rightarrow> ('d, 'a) disk_state_scheme \<Rightarrow> int" where
  "fat16_sector_to_absolute disk sector s = s32 (sector * disk_sector_size (disks s disk))"

text \<open>The counting loop: it reads entry after entry until one starts with a zero byte.\<close>

partial_function (option) fat16_count_items ::
  "'d bus \<Rightarrow> addr \<Rightarrow> int \<Rightarrow> ('d, 'a) disk_state_scheme \<Rightarrow> (int \<times> ('d, 'a) disk_state_scheme) option"
where
  "fat16_count_items bus stream i s =
     diskstreamer_read bus stream 0 (int sizeof_item) (stack_mem s) s \<bind> (\<lambda>(res, item, s).
       if res \<noteq> 0 then Some (- EIO, s)
       else if item 0 = 0 then Some (i, s)
       else if item 0 = 0xE5 then fat16_count_items bus stream i s
       else fat16_count_items bus stream (i + 1) s)"

definition fat16_get_total_items_for_directory ::
  "'d bus \<Rightarrow> addr \<Rightarrow> u32 \<Rightarrow> ('d, 'a) disk_state_scheme \<Rightarrow> (int \<times> ('d, 'a) disk_state_scheme) option" where
  "fat16_get_total_items_for_directory bus disk directory_start_sector s =
     (let fat_private = disk_fs_private (disks s disk);
          directory_start_pos = s32 (uint directory_start_sector * disk_sector_size (disks s disk));
          stream = get_field fat_private private_directory_stream s;
          (res, s) = diskstreamer_seek stream directory_start_pos s in
      if res \<noteq> 0 then Some (- EIO, s)
      else fat16_count_items bus stream 0 s)"

definition fat16_get_root_directory ::
  "'d bus \<Rightarrow> addr \<Rightarrow> addr \<Rightarrow> addr \<Rightarrow> ('d, 'a) disk_state_scheme \<Rightarrow> (int \<times> ('d, 'a) disk_state_scheme) option" where
  "fat16_get_root_directory bus disk fat_private directory s =
     (let m = kmem s;
          root_dir_sector_pos = header_fat_copies m fat_private * header_sectors_per_fat m fat_private
            + header_reserved_sectors m fat_private;
          root_dir_entries = header_root_dir_entries m fat_private;
          root_dir_size = root_dir_entries * int sizeof_item;
          ss = disk_sector_size (disks s disk) in
      if ss = 0 then None
      else do {
        let total_sectors = cdiv root_dir_size ss + (if cmod root_dir_size ss \<noteq> 0 then 1 else 0);
        (total_items, s) \<leftarrow> fat16_get_total_items_for_directory bus disk (word_of_int root_dir_sector_pos) s;
        let (dir, s) = kzalloc (word_of_int root_dir_size) s;
        if dir = NULL then Some (- ENOMEM, s)
        else do {
          let stream = get_field fat_private private_directory_stream s;
          let (res, s) = diskstreamer_seek stream (fat16_sector_to_absolute disk root_dir_sector_pos s) s;
          if res \<noteq> 0 then Some (- EIO, kfree dir s)
          else do {
            (res, s) \<leftarrow> diskstreamer_read_mem bus stream dir root_dir_size s;
            if res \<noteq> 0 then Some (- EIO, kfree dir s)
            else do {
              let s = set_field directory dir_item dir s;
              let s = set_field directory dir_total (word_of_int total_items) s;
              let s = set_field directory dir_sector_pos (word_of_int root_dir_sector_pos) s;
              Some (0, set_field directory dir_ending_sector_pos
                (word_of_int (root_dir_sector_pos + total_sectors)) s)
            }
          }
        }
      })"

text \<open>
  \<open>fat16_fs\<close> is the address of the static \<open>struct filesystem\<close> of the driver: six function pointers
  and a name of 20 bytes.
\<close>

record 'd fat_state = "'d disk_state" +
  fat16_fs :: addr

definition fat16_init :: "('d, 'a) fat_state_scheme \<Rightarrow> addr \<times> ('d, 'a) fat_state_scheme" where
  "fat16_init s = (fat16_fs s, s\<lparr>kmem := write_bytes (kmem s) (fat16_fs s + 24) (ascii ''FAT16'' @ [0])\<rparr>)"

definition set_disk :: "addr \<Rightarrow> (disk \<Rightarrow> disk) \<Rightarrow> ('d, 'a) disk_state_scheme \<Rightarrow> ('d, 'a) disk_state_scheme" where
  "set_disk disk f s = s\<lparr>disks := (disks s)(disk := f (disks s disk))\<rparr>"

definition fat16_resolve ::
  "'d bus \<Rightarrow> addr \<Rightarrow> ('d, 'a) fat_state_scheme \<Rightarrow> (int \<times> ('d, 'a) fat_state_scheme) option" where
  "fat16_resolve bus disk s = do {
     let (fat_private, s) = kzalloc sizeof_fat_private s;
     let s = fat16_init_private disk fat_private s;
     let s = set_disk disk (\<lambda>d. d\<lparr>disk_fs_private := fat_private\<rparr>) s;
     let s = set_disk disk (\<lambda>d. d\<lparr>disk_filesystem := fat16_fs s\<rparr>) s;
     let (stream, s) = diskstreamer_new (disk_ident (disks s disk)) s;
     (res, s) \<leftarrow>
       (if stream = NULL then Some (- ENOMEM, s)
        else do {
          (res, s) \<leftarrow> diskstreamer_read_mem bus stream fat_private sizeof_fat_h s;
          if res \<noteq> 0 then Some (- EIO, s)
          else if header_signature (kmem s) fat_private \<noteq> ALPHAOS_FAT16_SIGNATURE then Some (- EFSNOTUS, s)
          else do {
            (res, s) \<leftarrow> fat16_get_root_directory bus disk fat_private (private_root_directory fat_private) s;
            if res \<noteq> 0 then Some (- EIO, s) else Some (0, s)
          }
        });
     let s = (if stream \<noteq> NULL then diskstreamer_close stream s else s);
     let s = (if res < 0
              then set_disk disk (\<lambda>d. d\<lparr>disk_fs_private := NULL\<rparr>)
                     (if fat_private \<noteq> NULL then kfree fat_private s else s)
              else s);
     Some (res, s)
   }"

section \<open>fat16.c: names and directory items\<close>

text \<open>
  The name is read from the memory \<open>im\<close> of the entry and written to the memory \<open>om\<close> of the buffer:
  \<open>(*out, om)\<close> afterwards.
\<close>

partial_function (option) FAT16_to_proper_string_loop :: "addr \<Rightarrow> mem \<Rightarrow> mem \<Rightarrow> addr \<Rightarrow> (addr \<times> addr \<times> mem) option"
where
  "FAT16_to_proper_string_loop out om im inp =
     (if im inp \<noteq> 0 \<and> im inp \<noteq> 0x20
      then FAT16_to_proper_string_loop (out + 1) (om(out := im inp)) im (inp + 1)
      else Some (out, inp, om))"

definition FAT16_to_proper_string :: "addr \<Rightarrow> mem \<Rightarrow> mem \<Rightarrow> addr \<Rightarrow> (addr \<times> mem) option" where
  "FAT16_to_proper_string out om im inp = do {
     (out, inp, om) \<leftarrow> FAT16_to_proper_string_loop out om im inp;
     Some (out, if im inp = 0x20 then om(out := 0) else om)
   }"

definition fat16_get_full_relative_filename :: "addr \<Rightarrow> mem \<Rightarrow> addr \<Rightarrow> mem \<Rightarrow> int \<Rightarrow> mem option" where
  "fat16_get_full_relative_filename item im out om max_len = do {
     let om = memset om out 0 (nat max_len);
     (out_tmp, om) \<leftarrow> FAT16_to_proper_string out om im (item_filename item);
     if im (item_ext item) \<noteq> 0 \<and> im (item_ext item) \<noteq> 0x20 then do {
       let om = om(out_tmp := 0x2E);
       (out_tmp, om) \<leftarrow> FAT16_to_proper_string (out_tmp + 1) om im (item_ext item);
       Some om
     } else Some om
   }"

definition fat16_clone_directory_item ::
  "addr \<Rightarrow> u32 \<Rightarrow> 'a kheap_state_scheme \<Rightarrow> addr \<times> 'a kheap_state_scheme" where
  "fat16_clone_directory_item item sz s =
     (if unat sz < sizeof_item then (NULL, s)
      else
        let (new_item, s) = kzalloc sz s in
        if new_item = NULL then (NULL, s)
        else (new_item, s\<lparr>kmem := memcpy (kmem s) new_item item (unat sz)\<rparr>))"

definition fat16_get_first_cluster :: "mem \<Rightarrow> addr \<Rightarrow> u32" where
  "fat16_get_first_cluster m item =
     ucast (item_high_first_cluster m item) OR ucast (item_low_first_cluster m item)"

section \<open>fat16.c: clusters\<close>

definition fat16_cluster_to_sector :: "addr \<Rightarrow> int \<Rightarrow> 'a kheap_state_scheme \<Rightarrow> int" where
  "fat16_cluster_to_sector private cluster s =
     s32 (sint (get_field (private_root_directory private) dir_ending_sector_pos s)
       + (cluster - 2) * header_sectors_per_cluster (kmem s) private)"

definition fat16_get_first_fat_sector :: "addr \<Rightarrow> 'a kheap_state_scheme \<Rightarrow> u32" where
  "fat16_get_first_fat_sector private s = word_of_int (header_reserved_sectors (kmem s) private)"

definition fat16_get_fat_entry ::
  "'d bus \<Rightarrow> addr \<Rightarrow> int \<Rightarrow> ('d, 'a) disk_state_scheme \<Rightarrow> (int \<times> ('d, 'a) disk_state_scheme) option" where
  "fat16_get_fat_entry bus disk cluster s =
     (let private = disk_fs_private (disks s disk);
          stream = get_field private private_fat_read_stream s in
      if stream = NULL then Some (- EIO, s)
      else
        let fat_table_position = fat16_get_first_fat_sector private s * word_of_int (disk_sector_size (disks s disk));
            (res, s) = diskstreamer_seek stream
              (sint (fat_table_position * word_of_int (cluster * ALPHAOS_FAT16_FAT_ENTRY_SIZE))) s in
        if res < 0 then Some (res, s)
        else do {
          (res, result, s) \<leftarrow> diskstreamer_read bus stream 0 2 ((stack_mem s)(0 := 0, 1 := 0)) s;
          if res < 0 then Some (res, s) else Some (uint (load16 result 0), s)
        })"

text \<open>The loop over the clusters ahead: the cluster reached, or the error.\<close>

primrec fat16_follow_clusters ::
  "'d bus \<Rightarrow> addr \<Rightarrow> nat \<Rightarrow> int \<Rightarrow> ('d, 'a) disk_state_scheme \<Rightarrow> (int \<times> ('d, 'a) disk_state_scheme) option"
where
  "fat16_follow_clusters bus disk 0 cluster_to_use s = Some (cluster_to_use, s)"
| "fat16_follow_clusters bus disk (Suc n) cluster_to_use s = do {
     (entry, s) \<leftarrow> fat16_get_fat_entry bus disk cluster_to_use s;
     if entry = 0xFF8 \<or> entry = 0xFFF then Some (- EIO, s)
     else if entry = ALPHAOS_FAT16_BAD_SECTOR then Some (- EIO, s)
     else if entry = 0xFF0 \<or> entry = 0xFF6 then Some (- EIO, s)
     else if entry = 0 then Some (- EIO, s)
     else fat16_follow_clusters bus disk n entry s
   }"

definition fat16_cluster_bytes :: "addr \<Rightarrow> ('d, 'a) disk_state_scheme \<Rightarrow> int" where
  "fat16_cluster_bytes disk s =
     header_sectors_per_cluster (kmem s) (disk_fs_private (disks s disk)) * disk_sector_size (disks s disk)"

definition fat16_get_cluster_for_offet ::
  "'d bus \<Rightarrow> addr \<Rightarrow> int \<Rightarrow> int \<Rightarrow> ('d, 'a) disk_state_scheme \<Rightarrow> (int \<times> ('d, 'a) disk_state_scheme) option" where
  "fat16_get_cluster_for_offet bus disk starting_cluster offset s =
     (let size_of_cluster_bytes = fat16_cluster_bytes disk s in
      if size_of_cluster_bytes = 0 then None
      else fat16_follow_clusters bus disk (nat (cdiv offset size_of_cluster_bytes)) starting_cluster s)"

partial_function (option) fat16_read_internal_from_stream ::
  "'d bus \<Rightarrow> addr \<Rightarrow> addr \<Rightarrow> int \<Rightarrow> int \<Rightarrow> int \<Rightarrow> addr \<Rightarrow> ('d, 'a) disk_state_scheme \<Rightarrow>
   (int \<times> ('d, 'a) disk_state_scheme) option"
where
  "fat16_read_internal_from_stream bus disk stream cluster offset tot out s =
     (let private = disk_fs_private (disks s disk);
          size_of_cluster_bytes = fat16_cluster_bytes disk s in
      fat16_get_cluster_for_offet bus disk cluster offset s \<bind> (\<lambda>(cluster_to_use, s).
        if cluster_to_use < 0 then Some (cluster_to_use, s)
        else
          let offset_from_cluster = cmod offset size_of_cluster_bytes;
              starting_sector = fat16_cluster_to_sector private cluster_to_use s;
              starting_pos = s32 (starting_sector * disk_sector_size (disks s disk) + offset_from_cluster);
              total_to_read = (if tot > size_of_cluster_bytes then size_of_cluster_bytes else tot);
              (res, s) = diskstreamer_seek stream starting_pos s in
          if res \<noteq> 0 then Some (res, s)
          else diskstreamer_read_mem bus stream out total_to_read s \<bind> (\<lambda>(res, s).
            if res \<noteq> 0 then Some (res, s)
            else if tot - total_to_read > 0
            then fat16_read_internal_from_stream bus disk stream cluster (offset + total_to_read)
                   (tot - total_to_read) (out + word_of_int total_to_read) s
            else Some (res, s))))"

definition fat16_read_internal ::
  "'d bus \<Rightarrow> addr \<Rightarrow> int \<Rightarrow> int \<Rightarrow> int \<Rightarrow> addr \<Rightarrow> ('d, 'a) disk_state_scheme \<Rightarrow>
   (int \<times> ('d, 'a) disk_state_scheme) option" where
  "fat16_read_internal bus disk starting_cluster offset tot out s =
     (let fs_private = disk_fs_private (disks s disk);
          stream = get_field fs_private private_cluster_read_stream s in
      fat16_read_internal_from_stream bus disk stream starting_cluster offset tot out s)"

section \<open>fat16.c: directories and files\<close>

definition fat16_free_directory :: "addr \<Rightarrow> 'a kheap_state_scheme \<Rightarrow> 'a kheap_state_scheme" where
  "fat16_free_directory directory s =
     (if directory = NULL then s
      else
        let s = (if get_field directory dir_item s \<noteq> NULL then kfree (get_field directory dir_item s) s else s) in
        kfree directory s)"

definition fat_16_fat_item_free :: "addr \<Rightarrow> 'a kheap_state_scheme \<Rightarrow> 'a kheap_state_scheme" where
  "fat_16_fat_item_free item s =
     (if item = NULL then s
      else
        let s = (if get_field item fitem_type s = FAT_ITEM_TYPE_DIRECTORY
                 then fat16_free_directory (get_field item fitem_ptr s) s
                 else if get_field item fitem_type s = FAT_ITEM_TYPE_FILE
                 then kfree (get_field item fitem_ptr s) s
                 else s) in
        kfree item s)"

definition fat16_load_fat_directory ::
  "'d bus \<Rightarrow> addr \<Rightarrow> addr \<Rightarrow> ('d, 'a) disk_state_scheme \<Rightarrow> (addr \<times> ('d, 'a) disk_state_scheme) option" where
  "fat16_load_fat_directory bus disk item s =
     (let fat_private = disk_fs_private (disks s disk) in
      if item_attributes (kmem s) item AND FAT_FILE_SUBDIRECTORY = 0
      then Some (NULL, fat16_free_directory NULL s)
      else
        let (directory, s) = kzalloc sizeof_fat_directory s in
        if directory = NULL then Some (directory, fat16_free_directory directory s)
        else do {
          let cluster = sint (fat16_get_first_cluster (kmem s) item);
          let cluster_sector = fat16_cluster_to_sector fat_private cluster s;
          (total_items, s) \<leftarrow> fat16_get_total_items_for_directory bus disk (word_of_int cluster_sector) s;
          let s = set_field directory dir_total (word_of_int total_items) s;
          let directory_size = s32 (sint (get_field directory dir_total s) * int sizeof_item);
          let (items, s) = kzalloc (word_of_int directory_size) s;
          let s = set_field directory dir_item items s;
          if get_field directory dir_item s = NULL then Some (directory, fat16_free_directory directory s)
          else do {
            (res, s) \<leftarrow> fat16_read_internal bus disk cluster 0 directory_size (get_field directory dir_item s) s;
            if res \<noteq> 0 then Some (directory, fat16_free_directory directory s) else Some (directory, s)
          }
        })"

definition fat16_new_fat_item_for_directory_item ::
  "'d bus \<Rightarrow> addr \<Rightarrow> addr \<Rightarrow> ('d, 'a) disk_state_scheme \<Rightarrow> (addr \<times> ('d, 'a) disk_state_scheme) option" where
  "fat16_new_fat_item_for_directory_item bus disk item s =
     (let (f_item, s) = kzalloc sizeof_fat_item s in
      if f_item = NULL then Some (NULL, s)
      else if item_attributes (kmem s) item AND FAT_FILE_SUBDIRECTORY \<noteq> 0 then do {
        (directory, s) \<leftarrow> fat16_load_fat_directory bus disk item s;
        let s = set_field f_item fitem_ptr directory s;
        Some (f_item, set_field f_item fitem_type FAT_ITEM_TYPE_DIRECTORY s)
      }
      else
        let s = set_field f_item fitem_type FAT_ITEM_TYPE_FILE s;
            (clone, s) = fat16_clone_directory_item item (of_nat sizeof_item) s in
        Some (f_item, set_field f_item fitem_ptr clone s))"

text \<open>The loop over the entries from \<open>i\<close> on; it does not stop at a match.\<close>

primrec fat16_find_loop ::
  "'d bus \<Rightarrow> addr \<Rightarrow> addr \<Rightarrow> addr \<Rightarrow> nat \<Rightarrow> nat \<Rightarrow> addr \<Rightarrow> ('d, 'a) disk_state_scheme \<Rightarrow>
   (addr \<times> ('d, 'a) disk_state_scheme) option"
where
  "fat16_find_loop bus disk directory name 0 i f_item s = Some (f_item, s)"
| "fat16_find_loop bus disk directory name (Suc n) i f_item s = do {
     let item = get_field directory dir_item s + of_nat (i * sizeof_item);
     tmp_filename \<leftarrow> fat16_get_full_relative_filename item (kmem s) 0 (stack_mem s) ALPHAOS_MAX_PATH;
     if istrncmp tmp_filename 0 (kmem s) name (nat ALPHAOS_MAX_PATH) = 0 then do {
       (f_item, s) \<leftarrow> fat16_new_fat_item_for_directory_item bus disk item s;
       fat16_find_loop bus disk directory name n (Suc i) f_item s
     } else fat16_find_loop bus disk directory name n (Suc i) f_item s
   }"

definition fat16_find_item_in_directory ::
  "'d bus \<Rightarrow> addr \<Rightarrow> addr \<Rightarrow> addr \<Rightarrow> ('d, 'a) disk_state_scheme \<Rightarrow> (addr \<times> ('d, 'a) disk_state_scheme) option" where
  "fat16_find_item_in_directory bus disk directory name s =
     fat16_find_loop bus disk directory name (nat (sint (get_field directory dir_total s))) 0 NULL s"

partial_function (option) fat16_walk_parts ::
  "'d bus \<Rightarrow> addr \<Rightarrow> addr \<Rightarrow> addr \<Rightarrow> ('d, 'a) disk_state_scheme \<Rightarrow> (addr \<times> ('d, 'a) disk_state_scheme) option"
where
  "fat16_walk_parts bus disk next_part current_item s =
     (if next_part = NULL then Some (current_item, s)
      else if get_field current_item fitem_type s \<noteq> FAT_ITEM_TYPE_DIRECTORY then Some (NULL, s)
      else fat16_find_item_in_directory bus disk (get_field current_item fitem_ptr s)
             (part_part (kmem s) next_part) s \<bind> (\<lambda>(tmp_item, s).
        let s = fat_16_fat_item_free current_item s in
        fat16_walk_parts bus disk (part_next (kmem s) next_part) tmp_item s))"

definition fat16_get_directory_entry ::
  "'d bus \<Rightarrow> addr \<Rightarrow> addr \<Rightarrow> ('d, 'a) disk_state_scheme \<Rightarrow> (addr \<times> ('d, 'a) disk_state_scheme) option" where
  "fat16_get_directory_entry bus disk path s = do {
     let fat_private = disk_fs_private (disks s disk);
     (root_item, s) \<leftarrow> fat16_find_item_in_directory bus disk (private_root_directory fat_private)
        (part_part (kmem s) path) s;
     if root_item = NULL then Some (NULL, s)
     else fat16_walk_parts bus disk (part_next (kmem s) path) root_item s
   }"

section \<open>fat16.c: the operations of the filesystem\<close>

definition fat16_open ::
  "'d bus \<Rightarrow> addr \<Rightarrow> addr \<Rightarrow> u32 \<Rightarrow> ('d, 'a) disk_state_scheme \<Rightarrow> (addr \<times> ('d, 'a) disk_state_scheme) option" where
  "fat16_open bus disk path mode s =
     (if mode \<noteq> FILE_MODE_READ then Some (ERROR (- ERDONLY), s)
      else
        let (descriptor, s) = kzalloc sizeof_fat_file_descriptor s in
        if descriptor = NULL then Some (ERROR (- ENOMEM), s)
        else do {
          (item, s) \<leftarrow> fat16_get_directory_entry bus disk path s;
          let s = set_field descriptor fdesc_item item s;
          if get_field descriptor fdesc_item s = NULL then Some (ERROR (- EIO), kfree descriptor s)
          else Some (descriptor, set_field descriptor fdesc_pos 0 s)
        })"

definition fat16_free_file_descriptor :: "addr \<Rightarrow> 'a kheap_state_scheme \<Rightarrow> int \<times> 'a kheap_state_scheme" where
  "fat16_free_file_descriptor descriptor s =
     (if descriptor = NULL then (- EINVARG, s)
      else
        let s = (if get_field descriptor fdesc_item s \<noteq> NULL
                 then fat_16_fat_item_free (get_field descriptor fdesc_item s) s else s) in
        (0, kfree descriptor s))"

definition fat16_close :: "addr \<Rightarrow> 'a kheap_state_scheme \<Rightarrow> int \<times> 'a kheap_state_scheme" where
  "fat16_close private s = (let (res, s) = fat16_free_file_descriptor private s in (0, s))"

text \<open>\<open>struct file_stat\<close>: flags, then the size.\<close>

definition fat16_stat :: "addr \<Rightarrow> addr \<Rightarrow> addr \<Rightarrow> 'a kheap_state_scheme \<Rightarrow> int \<times> 'a kheap_state_scheme" where
  "fat16_stat disk private stat s =
     (let item = get_field private fdesc_item s in
      if get_field item fitem_type s \<noteq> FAT_ITEM_TYPE_FILE then (- EINVARG, s)
      else
        let ritem = get_field item fitem_ptr s;
            s = set_field stat 1 (item_file_size (kmem s) ritem) s;
            s = set_field stat 0 0 s;
            s = (if item_attributes (kmem s) ritem AND FAT_FILE_READ_ONLY \<noteq> 0
                 then set_field stat 0 (get_field stat 0 s OR FILE_STAT_READ_ONLY) s else s) in
        (0, s))"

text \<open>The loop over the members: the last result when an error stops it.\<close>

primrec fat16_read_members ::
  "'d bus \<Rightarrow> addr \<Rightarrow> addr \<Rightarrow> nat \<Rightarrow> int \<Rightarrow> u32 \<Rightarrow> addr \<Rightarrow> ('d, 'a) disk_state_scheme \<Rightarrow>
   (int option \<times> ('d, 'a) disk_state_scheme) option"
where
  "fat16_read_members bus disk item 0 offset sz out_ptr s = Some (None, s)"
| "fat16_read_members bus disk item (Suc n) offset sz out_ptr s = do {
     (res, s) \<leftarrow> fat16_read_internal bus disk (sint (fat16_get_first_cluster (kmem s) item)) offset (sint sz) out_ptr s;
     if res < 0 then Some (Some res, s)
     else fat16_read_members bus disk item n (s32 (offset + uint sz)) sz (out_ptr + sz) s
   }"

definition fat16_read ::
  "'d bus \<Rightarrow> addr \<Rightarrow> addr \<Rightarrow> u32 \<Rightarrow> u32 \<Rightarrow> addr \<Rightarrow> ('d, 'a) disk_state_scheme \<Rightarrow>
   (int \<times> ('d, 'a) disk_state_scheme) option" where
  "fat16_read bus disk descriptor sz nmemb out_ptr s =
     (let item = get_field (get_field descriptor fdesc_item s) fitem_ptr s;
          offset = sint (get_field descriptor fdesc_pos s) in
      do {
        (err, s) \<leftarrow> fat16_read_members bus disk item (unat nmemb) offset sz out_ptr s;
        Some (case err of None \<Rightarrow> sint nmemb | Some res \<Rightarrow> res, s)
      })"

definition fat16_seek :: "addr \<Rightarrow> u32 \<Rightarrow> u32 \<Rightarrow> 'a kheap_state_scheme \<Rightarrow> int \<times> 'a kheap_state_scheme" where
  "fat16_seek private offset seek_mode s =
     (let desc = private;
          desc_item = get_field desc fdesc_item s in
      if get_field desc_item fitem_type s \<noteq> FAT_ITEM_TYPE_FILE then (- EINVARG, s)
      else
        let ritem = get_field desc_item fitem_ptr s in
        if offset \<ge> item_file_size (kmem s) ritem then (- EIO, s)
        else if seek_mode = SEEK_SET then (0, set_field desc fdesc_pos offset s)
        else if seek_mode = SEEK_END then (- EUNIMP, s)
        else if seek_mode = SEEK_CUR
        then (0, set_field desc fdesc_pos (get_field desc fdesc_pos s + offset) s)
        else (- EINVARG, s))"

section \<open>Names\<close>

abbreviation blank :: u8 where "blank \<equiv> 0x20"

lemma proper_string_loop:
  assumes "\<forall>j < length t. im (inp + of_nat j) = t ! j" "0 \<notin> set t" "blank \<notin> set t"
    "im (inp + of_nat (length t)) = 0 \<or> im (inp + of_nat (length t)) = blank"
  shows "FAT16_to_proper_string_loop out om im inp =
    Some (out + of_nat (length t), inp + of_nat (length t), write_bytes om out t)"
  using assms
proof (induction t arbitrary: out om inp)
  case Nil
  then show ?case by (subst FAT16_to_proper_string_loop.simps) auto
next
  case (Cons c t)
  have c: "im inp = c" using Cons.prems(1) [rule_format, of 0] by simp
  have "\<forall>j < length t. im (inp + 1 + of_nat j) = t ! j"
    using Cons.prems(1) by (auto simp: add.assoc dest: spec [of _ "Suc _"])
  then have "FAT16_to_proper_string_loop (out + 1) (om(out := c)) im (inp + 1) =
      Some (out + 1 + of_nat (length t), inp + 1 + of_nat (length t), write_bytes (om(out := c)) (out + 1) t)"
    using Cons.prems(2-4) by (intro Cons.IH) (auto simp: add.assoc)
  then show ?case
    using c Cons.prems(2,3) by (subst FAT16_to_proper_string_loop.simps) (simp add: add.assoc fun_upd_def)
qed

text \<open>The two terminator cases leave the same string: the buffer is zero behind what was copied.\<close>

lemma proper_string:
  assumes "\<forall>j < length t. im (inp + of_nat j) = t ! j" "0 \<notin> set t" "blank \<notin> set t"
    "im (inp + of_nat (length t)) = 0 \<or> im (inp + of_nat (length t)) = blank"
    "write_bytes om out t (out + of_nat (length t)) = 0"
  shows "FAT16_to_proper_string out om im inp = Some (out + of_nat (length t), write_bytes om out t)"
proof -
  have "(write_bytes om out t)(out + of_nat (length t) := 0) = write_bytes om out t"
    using assms(5) by (auto simp: fun_eq_iff)
  then show ?thesis
    using proper_string_loop [OF assms(1-4), of out om] by (simp add: FAT16_to_proper_string_def)
qed

text \<open>
  \<open>dos_field m p k t\<close>: the field of \<open>k\<close> bytes at \<open>p\<close> holds the name \<open>t\<close>, padded with blanks.
\<close>

definition dos_field :: "mem \<Rightarrow> addr \<Rightarrow> nat \<Rightarrow> u8 list \<Rightarrow> bool" where
  "dos_field m p k t \<longleftrightarrow> length t \<le> k \<and> 0 \<notin> set t \<and> blank \<notin> set t
     \<and> bytes_at m p k = t @ replicate (k - length t) blank"

lemma dos_field_bytes:
  assumes "dos_field m p k t" "j < k"
  shows "m (p + of_nat j) = (if j < length t then t ! j else blank)"
  using assms nth_bytes_at [of j k m p] by (auto simp: dos_field_def nth_append)

definition dos_name :: "u8 list \<Rightarrow> u8 list \<Rightarrow> u8 list" where
  "dos_name nm ext = nm @ (if ext = [] then [] else 0x2E # ext)"

text \<open>What the routine leaves when the reading of name and extension stops after \<open>t\<close> and \<open>ext\<close>.\<close>

lemma full_name:
  assumes t: "\<forall>j < length t. im (item + of_nat j) = t ! j" "0 \<notin> set t" "blank \<notin> set t"
      "im (item + of_nat (length t)) = 0 \<or> im (item + of_nat (length t)) = blank"
    and e: "\<forall>j < length e. im (item + 8 + of_nat j) = e ! j" "0 \<notin> set e" "blank \<notin> set e"
      "im (item + 8 + of_nat (length e)) = 0 \<or> im (item + 8 + of_nat (length e)) = blank"
    and len: "length t \<le> 11" "length e \<le> 3"
  shows "\<exists>om'. fat16_get_full_relative_filename item im 0 om 108 = Some om' \<and> cstring om' 0 (dos_name t e)"
proof -
  let ?z = "memset om 0 0 108"
  have z: "?z (of_nat j) = 0" if "j < 108" for j using that by (simp add: memset_apply in_range_def unat_of_nat take_bit_nat_eq_self)
  have w: "write_bytes ?z 0 bs (of_nat (length bs)) = 0" if "length bs < 108" for bs
    using that z [of "length bs"] by (simp add: write_bytes_apply in_range_def unat_of_nat take_bit_nat_eq_self)
  have cs: "cstring (write_bytes ?z 0 bs) 0 bs" if "length bs < 108" "0 \<notin> set bs" for bs
    unfolding cstring_def using that w write_bytes_nth [of _ bs ?z 0] by auto
  have s1: "FAT16_to_proper_string 0 ?z im item = Some (of_nat (length t), write_bytes ?z 0 t)"
    using proper_string [OF t, of ?z 0] w [of t] len by simp
  show ?thesis
  proof (cases "e = []")
    case True
    then have "\<not> (im (item + 8) \<noteq> 0 \<and> im (item + 8) \<noteq> blank)" using e(4) by auto
    then have "fat16_get_full_relative_filename item im 0 om 108 = Some (write_bytes ?z 0 t)"
      using s1 by (auto simp: fat16_get_full_relative_filename_def item_filename_def item_ext_def)
    then show ?thesis using cs [of t] t(2) len True by (simp add: dos_name_def)
  next
    case False
    then obtain c cs' where ec: "e = c # cs'" by (cases e) auto
    have "im (item + 8) \<noteq> 0 \<and> im (item + 8) \<noteq> blank"
      using e(1) [rule_format, of 0] e(2,3) ec by auto
    moreover have dot: "(write_bytes ?z 0 t)(of_nat (length t) := 0x2E) = write_bytes ?z 0 (t @ [0x2E])"
      using write_bytes_append [of ?z 0 t "[0x2E]"] by simp
    moreover have "write_bytes (write_bytes ?z 0 (t @ [0x2E])) (of_nat (length t) + 1) e = write_bytes ?z 0 (t @ 0x2E # e)"
      using write_bytes_append [of ?z 0 "t @ [0x2E]" e] by (simp add: add.commute)
    moreover have "FAT16_to_proper_string (of_nat (length t) + 1) (write_bytes ?z 0 (t @ [0x2E])) im (item + 8) =
        Some (of_nat (length t) + 1 + of_nat (length e), write_bytes (write_bytes ?z 0 (t @ [0x2E])) (of_nat (length t) + 1) e)"
      using w [of "t @ 0x2E # e"] len calculation(3) by (intro proper_string [OF e]) (simp add: add.commute add.left_commute)
    ultimately have "fat16_get_full_relative_filename item im 0 om 108 = Some (write_bytes ?z 0 (t @ 0x2E # e))"
      using s1 by (simp add: fat16_get_full_relative_filename_def item_filename_def item_ext_def)
    then show ?thesis using cs [of "t @ 0x2E # e"] t(2) e(2) len False by (simp add: dos_name_def)
  qed
qed

lemma dos_field_stop:
  assumes "dos_field m p k t" "length t < k \<or> m (p + of_nat k) = 0 \<or> m (p + of_nat k) = blank"
  shows "m (p + of_nat (length t)) = 0 \<or> m (p + of_nat (length t)) = blank"
proof (cases "length t < k")
  case False
  then have "length t = k" using assms(1) by (simp add: dos_field_def)
  then show ?thesis using assms(2) by auto
qed (use dos_field_bytes [OF assms(1), of "length t"] in auto)

section \<open>Counting entries\<close>

text \<open>The number of used entries among the first \<open>n\<close> entries of the directory at byte \<open>p\<close> of the disk.\<close>

definition used_entries :: "(nat \<Rightarrow> u8) \<Rightarrow> nat \<Rightarrow> nat \<Rightarrow> nat" where
  "used_entries img p n = length (filter (\<lambda>k. img (p + 32 * k) \<noteq> 0xE5) [0..<n])"

definition dir_ends :: "(nat \<Rightarrow> u8) \<Rightarrow> nat \<Rightarrow> nat \<Rightarrow> bool" where
  "dir_ends img p n \<longleftrightarrow> img (p + 32 * n) = 0 \<and> (\<forall>k < n. img (p + 32 * k) \<noteq> 0)"

lemma used_entries_Suc:
  "used_entries img p (Suc n) = (if img p \<noteq> 0xE5 then 1 else 0) + used_entries img (p + 32) n"
proof -
  have "[0..<Suc n] = 0 # map Suc [0..<n]" by (simp add: upt_conv_Cons map_Suc_upt del: upt_Suc)
  then show ?thesis by (simp add: used_entries_def filter_map comp_def add.assoc del: upt_Suc)
qed

lemma count_items:
  assumes "ata_contract bus ata img" "ata_idle ata (hw s)" "stream_at s st p" "dir_ends img p n"
    "p + 32 * Suc n < 2 ^ 31"
  shows "\<exists>d. ata_idle ata d \<and> fat16_count_items bus st i s =
    Some (i + int (used_entries img p n), advance st (p + 32 * Suc n) d s)"
  using assms(2-5)
proof (induction n arbitrary: p i s)
  case 0
  obtain d where d: "ata_idle ata d" "diskstreamer_read bus st 0 (int 32) (stack_mem s) s =
      Some (0, write_bytes (stack_mem s) 0 (disk_bytes img p 32), advance st (p + 32) d s)"
    using diskstreamer_read_law [OF assms(1) 0(1,2), of 32 0 "stack_mem s"] 0(4) by auto
  have "write_bytes (stack_mem s) 0 (disk_bytes img p 32) 0 = img p"
    using write_bytes_nth [of 0 "disk_bytes img p 32" "stack_mem s" 0] by (simp add: nth_disk_bytes)
  then show ?case
    using d 0(3) by (subst fat16_count_items.simps) (auto simp: sizeof_item_def dir_ends_def used_entries_def)
next
  case (Suc n)
  obtain d where d: "ata_idle ata d" "diskstreamer_read bus st 0 (int 32) (stack_mem s) s =
      Some (0, write_bytes (stack_mem s) 0 (disk_bytes img p 32), advance st (p + 32) d s)"
    using diskstreamer_read_law [OF assms(1) Suc.prems(1,2), of 32 0 "stack_mem s"] Suc.prems(4) by auto
  have b: "write_bytes (stack_mem s) 0 (disk_bytes img p 32) 0 = img p"
    using write_bytes_nth [of 0 "disk_bytes img p 32" "stack_mem s" 0] by (simp add: nth_disk_bytes)
  let ?s = "advance st (p + 32) d s"
  have "dir_ends img (p + 32) n" using Suc.prems(3) by (auto simp: dir_ends_def add.assoc dest: spec [of _ "Suc _"])
  then have IH: "\<exists>d'. ata_idle ata d' \<and> fat16_count_items bus st j ?s =
      Some (j + int (used_entries img (p + 32) n), advance st (p + 32 + 32 * Suc n) d' ?s)" for j
    using Suc.prems(4) d(1) by (intro Suc.IH) (simp_all add: stream_at_advance)
  have "img p \<noteq> 0" using Suc.prems(3) by (auto simp: dir_ends_def dest: spec [of _ 0])
  then show ?case
    using d(2) b IH [of i] IH [of "i + 1"]
    by (subst fat16_count_items.simps) (auto simp: sizeof_item_def used_entries_Suc stream_at_advance add.assoc)
qed

section \<open>Reading inside a cluster\<close>

text \<open>
  What the read path needs of a mounted disk: its private data with the cluster size \<open>spc\<close> (in
  sectors), the sector \<open>es\<close> behind the root directory, and the stream \<open>st\<close> for clusters.
\<close>

definition mounted :: "('d, 'a) disk_state_scheme \<Rightarrow> addr \<Rightarrow> addr \<Rightarrow> nat \<Rightarrow> nat \<Rightarrow> addr \<Rightarrow> bool" where
  "mounted s disk private spc es st \<longleftrightarrow>
     disk_fs_private (disks s disk) = private \<and> disk_sector_size (disks s disk) = 512
     \<and> header_sectors_per_cluster (kmem s) private = int spc \<and> 0 < spc
     \<and> sint (get_field (private_root_directory private) dir_ending_sector_pos s) = int es
     \<and> get_field private private_cluster_read_stream s = st \<and> stream_disk (streams s st) = disk_var s"

definition cluster_pos :: "nat \<Rightarrow> nat \<Rightarrow> nat \<Rightarrow> nat" where
  "cluster_pos spc es c = (es + (c - 2) * spc) * 512"

lemma seek_stream_at:
  "stream_disk (streams s st) = disk_var s \<Longrightarrow> diskstreamer_seek st (int p) s = (0, advance st p (hw s) s)"
  by (cases "streams s st") (simp add: diskstreamer_seek_def advance_def)

lemma s32_nat: "k < 2 ^ 31 \<Longrightarrow> s32 (int k) = int k"
  by (simp add: s32_id)

lemma advance_fields [simp]:
  "kmem (advance st p d s) = kmem s" "disks (advance st p d s) = disks s" "disk_var (advance st p d s) = disk_var s"
  "stack_mem (advance st p d s) = stack_mem s"
  "stream_disk (streams (advance st p d s) st') = (if st' = st then disk_var s else stream_disk (streams s st'))"
  by (simp_all add: advance_def)

lemma read_cluster:
  assumes "ata_contract bus ata img" "ata_idle ata (hw s)" "mounted s disk private spc es st" "2 \<le> c"
    "off + n \<le> spc * 512" "off < spc * 512" "cluster_pos spc es c + off + n < 2 ^ 31"
  shows "\<exists>d. ata_idle ata d \<and> fat16_read_internal bus disk (int c) (int off) (int n) out s =
    Some (0, (advance st (cluster_pos spc es c + off + n) d s)
      \<lparr>kmem := write_bytes (kmem s) out (disk_bytes img (cluster_pos spc es c + off) n)\<rparr>)"
proof -
  let ?p = "cluster_pos spc es c + off"
  have m: "disk_fs_private (disks s disk) = private" "disk_sector_size (disks s disk) = 512"
    "header_sectors_per_cluster (kmem s) private = int spc" "0 < spc"
    "sint (get_field (private_root_directory private) dir_ending_sector_pos s) = int es"
    "get_field private private_cluster_read_stream s = st" "stream_disk (streams s st) = disk_var s"
    using assms(3) by (simp_all add: mounted_def)
  let ?s1 = "advance st ?p (hw s) s"
  have "stream_at ?s1 st ?p" "ata_idle ata (hw ?s1)" using assms(2) by (simp_all add: stream_at_advance)
  then obtain d where d: "ata_idle ata d" "diskstreamer_read bus st out (int n) (kmem s) ?s1 =
      Some (0, write_bytes (kmem s) out (disk_bytes img ?p n), advance st (?p + n) d ?s1)"
    using diskstreamer_read_law [OF assms(1), of ?s1 st ?p n out "kmem s"] assms(7) by blast
  have cl: "fat16_get_cluster_for_offet bus disk (int c) (int off) s = Some (int c, s)"
    using assms(6) m(2-4) by (simp add: fat16_get_cluster_for_offet_def fat16_cluster_bytes_def m(1))
  have c2: "(int c - 2) * int spc = int ((c - 2) * spc)" using assms(4) by simp
  have es: "es + (c - 2) * spc < 2 ^ 31" using assms(7) by (simp add: cluster_pos_def)
  have "fat16_cluster_to_sector private (int c) s = s32 (int (es + (c - 2) * spc))"
    unfolding fat16_cluster_to_sector_def m(3,5) c2 by simp
  also have "\<dots> = int (es + (c - 2) * spc)" using es by (rule s32_nat)
  finally have sec: "fat16_cluster_to_sector private (int c) s = int (es + (c - 2) * spc)" .
  have "s32 (int (es + (c - 2) * spc) * 512 + int off) = s32 (int ?p)" by (simp add: cluster_pos_def)
  also have "\<dots> = int ?p" using assms(7) by (intro s32_nat) simp
  finally have pos: "s32 (int (es + (c - 2) * spc) * 512 + int off) = int ?p" .
  have off: "cmod (int off) (int spc * 512) = int off" using assms(6) m(4) by simp
  have tot: "(int spc * 512 < int n) = False" using assms(5) by simp
  show ?thesis
    using d seek_stream_at [OF m(7), of ?p]
    by (intro exI [of _ d], simp only: fat16_read_internal_def m(1,6) Let_def)
      (subst fat16_read_internal_from_stream.simps,
       simp add: cl m fat16_cluster_bytes_def sec pos [simplified] off tot diskstreamer_read_mem_def stream_at_advance)
qed

lemma fat16_total_items_law:
  assumes "ata_contract bus ata img" "ata_idle ata (hw s)"
    "disk_sector_size (disks s disk) = 512"
    "get_field (disk_fs_private (disks s disk)) private_directory_stream s = st"
    "stream_disk (streams s st) = disk_var s" "dir_ends img (sector * 512) n" "sector * 512 + 32 * Suc n < 2 ^ 31"
  shows "\<exists>d. fat16_get_total_items_for_directory bus disk (of_nat sector) s =
      Some (int (used_entries img (sector * 512) n), advance st (sector * 512 + 32 * Suc n) d s) \<and> ata_idle ata d"
proof -
  let ?s = "advance st (sector * 512) (hw s) s"
  have u: "uint (of_nat sector :: u32) = int sector"
    using assms(7) by (simp add: unsigned_of_nat take_bit_nat_eq_self)
  have p: "s32 (uint (of_nat sector :: u32) * 512) = int (sector * 512)"
    unfolding u using s32_nat [of "sector * 512"] assms(7) by simp
  obtain d where "ata_idle ata d" "fat16_count_items bus st 0 ?s =
    Some (0 + int (used_entries img (sector * 512) n), advance st (sector * 512 + 32 * Suc n) d ?s)"
    using count_items [OF assms(1), of ?s st "sector * 512" n 0] assms(2,6,7) by (auto simp: stream_at_advance)
  then show ?thesis
    using seek_stream_at [OF assms(5), of "sector * 512"]
    by (auto simp: fat16_get_total_items_for_directory_def assms(3,4) p stream_at_advance)
qed

text \<open>The loop of \<open>fat16_read\<close>, as long as it stays in the first cluster and off its own data.\<close>

definition apart :: "addr \<Rightarrow> nat \<Rightarrow> addr \<Rightarrow> addr \<Rightarrow> bool" where
  "apart out n private item \<longleftrightarrow> disjoint_ranges out n private 92 \<and> disjoint_ranges out n item 32"

lemma apart_same:
  assumes "apart out n private item" "\<And>x. \<not> in_range out n x \<Longrightarrow> m' x = m x"
  shows "header_sectors_per_cluster m' private = header_sectors_per_cluster m private"
    "word_at m' (private_root_directory private) dir_ending_sector_pos = word_at m (private_root_directory private) dir_ending_sector_pos"
    "word_at m' private private_cluster_read_stream = word_at m private private_cluster_read_stream"
    "fat16_get_first_cluster m' item = fat16_get_first_cluster m item"
proof -
  have p: "m' (private + of_nat j) = m (private + of_nat j)" if "j < 92" for j
    using assms disjoint_rangesD [OF disjoint_ranges_sym, of out n "private" 92 "private + of_nat j"] that
    by (simp add: apart_def)
  have i: "m' (item + of_nat j) = m (item + of_nat j)" if "j < 32" for j
    using assms disjoint_rangesD [OF disjoint_ranges_sym, of out n item 32 "item + of_nat j"] that
    by (simp add: apart_def)
  show "header_sectors_per_cluster m' private = header_sectors_per_cluster m private"
    using p [of 13] by (simp add: header_sectors_per_cluster_def)
  show "word_at m' (private_root_directory private) dir_ending_sector_pos = word_at m (private_root_directory private) dir_ending_sector_pos"
    using p [of 76] p [of 77] p [of 78] p [of 79] by (simp add: word_at_def load32_def fat_offsets add.assoc)
  show "word_at m' private private_cluster_read_stream = word_at m private private_cluster_read_stream"
    using p [of 80] p [of 81] p [of 82] p [of 83] by (simp add: word_at_def load32_def fat_offsets add.assoc)
  show "fat16_get_first_cluster m' item = fat16_get_first_cluster m item"
    using i [of 20] i [of 21] i [of 26] i [of 27]
    by (simp add: fat16_get_first_cluster_def item_high_first_cluster_def item_low_first_cluster_def load16_def add.assoc)
qed

lemma read_members:
  assumes "ata_contract bus ata img" "ata_idle ata (hw s)" "mounted s disk private spc es st" "2 \<le> c"
    "fat16_get_first_cluster (kmem s) item = of_nat c" "c < 2 ^ 31" "0 < sz"
    "off + k * sz \<le> spc * 512" "cluster_pos spc es c + off + k * sz < 2 ^ 31"
    "apart out (k * sz) private item" "sz < 2 ^ 31"
  shows "\<exists>s'. fat16_read_members bus disk item k (int off) (of_nat sz) out s = Some (None, s')
    \<and> kmem s' = write_bytes (kmem s) out (disk_bytes img (cluster_pos spc es c + off) (k * sz))
    \<and> ata_idle ata (hw s')"
  using assms(2,3,5,8-10)
proof (induction k arbitrary: off out s)
  case 0
  then show ?case by auto
next
  case (Suc k)
  let ?p = "cluster_pos spc es c"
  have b: "off + sz \<le> spc * 512" "off < spc * 512" "?p + off + sz < 2 ^ 31" "off + sz < 2 ^ 31"
    using Suc.prems(4,5) assms(7) by simp_all
  have sz: "sint (of_nat sz :: u32) = int sz" "uint (of_nat sz :: u32) = int sz" "sint (of_nat c :: u32) = int c"
    using assms(6,11) by (simp_all add: sint_small unat_of_nat take_bit_nat_eq_self unsigned_of_nat)
  obtain d where d: "ata_idle ata d" "fat16_read_internal bus disk (int c) (int off) (int sz) out s =
    Some (0, (advance st (?p + off + sz) d s)\<lparr>kmem := write_bytes (kmem s) out (disk_bytes img (?p + off) sz)\<rparr>)"
    using read_cluster [OF assms(1) Suc.prems(1,2) assms(4) b(1-3)] by blast
  define s1 where "s1 = (advance st (?p + off + sz) d s)\<lparr>kmem := write_bytes (kmem s) out (disk_bytes img (?p + off) sz)\<rparr>"
  have a0: "apart out (Suc k * sz) private item" by (rule Suc.prems(6))
  have frame: "kmem s1 x = kmem s x" if "\<not> in_range out (Suc k * sz) x" for x
    using that in_range_mono [of out sz x "Suc k * sz"] assms(11) by (auto simp: s1_def write_bytes_apply)
  note same = apart_same [OF a0 frame]
  have m1: "mounted s1 disk private spc es st" "fat16_get_first_cluster (kmem s1) item = of_nat c" "ata_idle ata (hw s1)"
    using Suc.prems(2,3) d(1) same by (simp_all add: mounted_def get_field_def s1_def) (simp add: advance_def)
  have "in_range (out + of_nat sz) (k * sz) x \<Longrightarrow> in_range out (Suc k * sz) x" for x
    by (rule in_range_sub) (use Suc.prems(5) in auto)
  then have a1: "apart (out + of_nat sz) (k * sz) private item"
    using a0 unfolding apart_def disjoint_ranges_def by blast
  obtain s' where s': "fat16_read_members bus disk item k (int (off + sz)) (of_nat sz) (out + of_nat sz) s1 = Some (None, s')"
    "kmem s' = write_bytes (kmem s1) (out + of_nat sz) (disk_bytes img (?p + (off + sz)) (k * sz))" "ata_idle ata (hw s')"
    using Suc.IH [OF m1(3,1,2) _ _ a1, of "off + sz"] Suc.prems(4,5) by auto
  show ?case
    using s' d(2) Suc.prems(3) b(4) s32_nat [of "off + sz"] write_disk_bytes [of "kmem s" out img "?p + off" sz "k * sz"]
    by (simp add: sz flip: s1_def) (simp add: s1_def ac_simps)
qed

section \<open>Properties\<close>

text \<open>
  \<open>fat16_read\<close> of \<open>nmemb\<close> members of \<open>size\<close> bytes from a mounted disk, inside the first cluster of
  the file: it returns \<open>nmemb\<close> and leaves in the buffer exactly the bytes of the disk from the
  file's first cluster on, at the descriptor's position.
\<close>

theorem fat16_read_first_cluster:
  assumes "ata_contract bus ata img" "ata_idle ata (hw s)" "mounted s disk private spc es st"
    "get_field (get_field desc fdesc_item s) fitem_ptr s = item"
    "fat16_get_first_cluster (kmem s) item = of_nat c" "2 \<le> c" "c < 2 ^ 31"
    "sint (get_field desc fdesc_pos s) = int off" "0 < sz" "off + k * sz \<le> spc * 512"
    "cluster_pos spc es c + off + k * sz < 2 ^ 31" "k < 2 ^ 31" "sz < 2 ^ 31" "apart out (k * sz) private item"
  shows "\<exists>s'. fat16_read bus disk desc (of_nat sz) (of_nat k) out s = Some (int k, s')
    \<and> kmem s' = write_bytes (kmem s) out (disk_bytes img (cluster_pos spc es c + off) (k * sz))
    \<and> ata_idle ata (hw s')"
proof -
  have k: "unat (of_nat k :: u32) = k" "sint (of_nat k :: u32) = int k"
    using assms(12) by (simp_all add: sint_small unat_of_nat take_bit_nat_eq_self)
  obtain s' where "fat16_read_members bus disk item k (int off) (of_nat sz) out s = Some (None, s')"
    "kmem s' = write_bytes (kmem s) out (disk_bytes img (cluster_pos spc es c + off) (k * sz))" "ata_idle ata (hw s')"
    using read_members [OF assms(1,2,3,6,5,7,9,10,11,14,13)] by blast
  then show ?thesis using assms(4,8) k by (simp add: fat16_read_def)
qed

text \<open>
  The witnesses: private data at \<open>0x2000\<close> (one sector per cluster, root directory ending at sector 4,
  one reserved sector), a descriptor at \<open>0x3000\<close> of a file whose first cluster is 2.
\<close>

definition fat_mem :: mem where
  "fat_mem = (\<lambda>_. 0)(0x200D := 1, 0x200E := 1, 0x204C := 4, 0x2054 := 8, 0x3001 := 0x31, 0x3101 := 0x32, 0x321A := 2)"

definition fat_demo :: "sim_drive disk_state" where
  "fat_demo = sim_state\<lparr>kmem := fat_mem, disks := (\<lambda>_. \<lparr>disk_type = 0, disk_sector_size = 512, disk_ident = 0,
     disk_filesystem = 0, disk_fs_private = 0x2000\<rparr>)\<rparr>"

lemma fat_demo:
  "ata_idle sim_ata (hw fat_demo)" "mounted fat_demo 0x100000 0x2000 1 4 0"
  "get_field (get_field 0x3000 fdesc_item fat_demo) fitem_ptr fat_demo = 0x3200"
  "fat16_get_first_cluster (kmem fat_demo) 0x3200 = of_nat 2" "sint (get_field 0x3000 fdesc_pos fat_demo) = int 0"
  by (simp_all add: fat_demo_def sim_state_def sim_ata_def mounted_def get_field_def word_at_def load32_def load16_def
      fat_mem_def fat_offsets header_sectors_per_cluster_def fat16_get_first_cluster_def
      item_high_first_cluster_def item_low_first_cluster_def)

theorem fat16_read_first_cluster_witness:
  "\<exists>s'. fat16_read (sim_bus of_nat) 0x100000 0x3000 3 2 0x4000 fat_demo = Some (2, s') \<and> kmem s' 0x4001 = of_nat 2049"
proof -
  have "apart 0x4000 (2 * 3) 0x2000 0x3200"
    unfolding apart_def by (intro conjI disjoint_ranges_sym [OF disjoint_ranges_unat]) simp_all
  then show ?thesis
    using fat16_read_first_cluster [OF sim_contract fat_demo(1-4) _ _ fat_demo(5), where k = 2 and sz = 3 and img = of_nat and out = "0x4000"]
      write_bytes_nth [of 1 "disk_bytes of_nat 2048 6" fat_mem "0x4000"]
    by (auto simp: cluster_pos_def fat_demo_def nth_disk_bytes)
qed

text \<open>
  \<open>fat16_get_fat_entry\<close> seeks to the product of the table's position and twice the cluster, where the
  entry is at their sum: it returns the two bytes of the disk at that product.
\<close>

theorem fat16_get_fat_entry_position:
  assumes "ata_contract bus ata img" "ata_idle ata (hw s)" "disk_sector_size (disks s disk) = 512"
    "header_reserved_sectors (kmem s) (disk_fs_private (disks s disk)) = int r"
    "get_field (disk_fs_private (disks s disk)) private_fat_read_stream s = st" "st \<noteq> NULL"
    "stream_disk (streams s st) = disk_var s" "r * 512 * (c * 2) + 2 < 2 ^ 31"
  shows "\<exists>s'. fat16_get_fat_entry bus disk (int c) s =
    Some (uint (disk_word (\<lambda>i. img (r * 512 * (c * 2) + i)) 0), s') \<and> kmem s' = kmem s"
proof -
  let ?p = "r * 512 * (c * 2)" and ?m = "(stack_mem s)(0 := 0, 1 := 0)"
  let ?s = "advance st ?p (hw s) s"
  have "(of_nat r * 512 :: u32) * word_of_int (int c * 2) = of_nat ?p" by simp
  then have pos: "sint ((of_nat r * 512 :: u32) * word_of_int (int c * 2)) = int ?p"
    using assms(8) by (simp only:) (simp add: sint_small unat_of_nat take_bit_nat_eq_self del: of_nat_mult)
  obtain d where d: "diskstreamer_read bus st 0 (int 2) ?m ?s =
      Some (0, write_bytes ?m 0 (disk_bytes img ?p 2), advance st (?p + 2) d ?s)"
    using diskstreamer_read_law [OF assms(1), of ?s st ?p 2 0 ?m] assms(2,8) by (auto simp: stream_at_advance)
  have "load16 (write_bytes ?m 0 (disk_bytes img ?p 2)) 0 = disk_word (\<lambda>i. img (?p + i)) 0"
    using write_bytes_nth [of 0 "disk_bytes img ?p 2" ?m 0] write_bytes_nth [of 1 "disk_bytes img ?p 2" ?m 0]
    by (simp add: load16_def disk_word_def nth_disk_bytes)
  then show ?thesis
    using d assms(6) seek_stream_at [OF assms(7), of ?p] pos
    by (simp add: fat16_get_fat_entry_def assms(3-5) fat16_get_first_fat_sector_def ALPHAOS_FAT16_FAT_ENTRY_SIZE_def
        stream_at_advance Let_def)
qed

theorem fat16_get_fat_entry_position_witness:
  "\<exists>s'. fat16_get_fat_entry (sim_bus (\<lambda>n. if n = 512 * 6 then 7 else 0)) 0x100000 3 fat_demo = Some (7, s')"
proof -
  have "header_reserved_sectors (kmem fat_demo) (disk_fs_private (disks fat_demo 0x100000)) = int 1"
    "get_field (disk_fs_private (disks fat_demo 0x100000)) private_fat_read_stream fat_demo = 8"
    "stream_disk (streams fat_demo 8) = disk_var fat_demo" "disk_sector_size (disks fat_demo 0x100000) = 512"
    by (simp_all add: fat_demo_def sim_state_def fat_mem_def header_reserved_sectors_def get_field_def word_at_def
        load32_def load16_def fat_offsets)
  from fat16_get_fat_entry_position [OF sim_contract fat_demo(1) this(4,1,2) _ this(3), of 3 "\<lambda>n. if n = 512 * 6 then 7 else 0"]
  show ?thesis by (auto simp: disk_word_def)
qed

text \<open>
  For a directory entry whose name is shorter than eight characters, and whose extension is shorter
  than three or followed by a blank or zero attribute byte, the routine returns and leaves the usual
  name: the name, and a dot and the extension when there is one.
\<close>

theorem fat16_name_correct:
  assumes "dos_field im item 8 nm" "length nm < 8" "dos_field im (item + 8) 3 ext"
    "length ext < 3 \<or> im (item + 11) = 0 \<or> im (item + 11) = 0x20"
  shows "\<exists>om'. fat16_get_full_relative_filename item im 0 om 108 = Some om' \<and> cstring om' 0 (dos_name nm ext)"
proof (rule full_name)
  show "\<forall>j < length nm. im (item + of_nat j) = nm ! j" using dos_field_bytes [OF assms(1)] assms(2) by simp
  show "\<forall>j < length ext. im (item + 8 + of_nat j) = ext ! j"
    using dos_field_bytes [OF assms(3)] assms(3) by (simp add: dos_field_def)
  show "im (item + of_nat (length nm)) = 0 \<or> im (item + of_nat (length nm)) = blank"
    using dos_field_stop [OF assms(1)] assms(2) by simp
  show "im (item + 8 + of_nat (length ext)) = 0 \<or> im (item + 8 + of_nat (length ext)) = blank"
    using dos_field_stop [OF assms(3)] assms(4) by (simp add: add.assoc)
qed (use assms in \<open>auto simp: dos_field_def\<close>)

definition entry_mem :: "u8 list \<Rightarrow> mem" where
  "entry_mem bs = write_bytes (\<lambda>_. 0) 0x100 bs"

theorem fat16_name_correct_witness:
  "\<exists>om'. fat16_get_full_relative_filename 0x100 (entry_mem (ascii ''SHELL   ELF'')) 0 (\<lambda>_. 0xFF) 108 = Some om'
     \<and> cstring om' 0 (ascii ''SHELL.ELF'')"
proof -
  have "dos_field (entry_mem (ascii ''SHELL   ELF'')) 0x100 8 (ascii ''SHELL'')"
    "dos_field (entry_mem (ascii ''SHELL   ELF'')) (0x100 + 8) 3 (ascii ''ELF'')"
    by (simp_all add: dos_field_def ascii_def of_char_def entry_mem_def bytes_at_def upt_rec numeral_3_eq_3)
  from fat16_name_correct [OF this(1) _ this(2), of "\<lambda>_. 0xFF"] show ?thesis
    by (simp add: ascii_def of_char_def entry_mem_def dos_name_def)
qed

text \<open>
  For a name that fills its eight characters the routine reads on into the extension: the
  name it leaves is the name, the extension, a dot and the extension again (unless there is none),
  so such a file cannot be opened under its own name.
\<close>

theorem fat16_name_overruns:
  assumes "dos_field im item 8 nm" "length nm = 8" "dos_field im (item + 8) 3 ext"
    "length ext < 3 \<or> im (item + 11) = 0 \<or> im (item + 11) = 0x20"
  shows "\<exists>om'. fat16_get_full_relative_filename item im 0 om 108 = Some om' \<and> cstring om' 0 (dos_name (nm @ ext) ext)"
proof (rule full_name)
  have e: "\<forall>j < length ext. im (item + 8 + of_nat j) = ext ! j"
    using dos_field_bytes [OF assms(3)] assms(3) by (simp add: dos_field_def)
  have stop: "im (item + 8 + of_nat (length ext)) = 0 \<or> im (item + 8 + of_nat (length ext)) = blank"
    using dos_field_stop [OF assms(3)] assms(4) by (simp add: add.assoc)
  show "\<forall>j < length (nm @ ext). im (item + of_nat j) = (nm @ ext) ! j"
  proof (intro allI impI)
    fix j assume j: "j < length (nm @ ext)"
    show "im (item + of_nat j) = (nm @ ext) ! j"
    proof (cases "j < 8")
      case True
      then show ?thesis using dos_field_bytes [OF assms(1), of j] assms(2) by (simp add: nth_append)
    next
      case False
      then obtain i where "j = 8 + i" by (metis le_Suc_ex not_less)
      then show ?thesis using e j assms(2) by (simp add: nth_append add.assoc)
    qed
  qed
  show "im (item + of_nat (length (nm @ ext))) = 0 \<or> im (item + of_nat (length (nm @ ext))) = blank"
    using stop assms(2) by (simp add: add.assoc)
  show "\<forall>j < length ext. im (item + 8 + of_nat j) = ext ! j" by (rule e)
  show "im (item + 8 + of_nat (length ext)) = 0 \<or> im (item + 8 + of_nat (length ext)) = blank" by (rule stop)
qed (use assms in \<open>auto simp: dos_field_def\<close>)

theorem fat16_name_overruns_witness:
  "\<exists>om'. fat16_get_full_relative_filename 0x100 (entry_mem (ascii ''LONGNAMETXT'')) 0 (\<lambda>_. 0xFF) 108 = Some om'
     \<and> cstring om' 0 (ascii ''LONGNAMETXT.TXT'')"
proof -
  have "dos_field (entry_mem (ascii ''LONGNAMETXT'')) 0x100 8 (ascii ''LONGNAME'')"
    "dos_field (entry_mem (ascii ''LONGNAMETXT'')) (0x100 + 8) 3 (ascii ''TXT'')"
    by (simp_all add: dos_field_def ascii_def of_char_def entry_mem_def bytes_at_def upt_rec numeral_3_eq_3)
  from fat16_name_overruns [OF this(1) _ this(2), of "\<lambda>_. 0xFF"] show ?thesis
    by (simp add: ascii_def of_char_def entry_mem_def dos_name_def)
qed

text \<open>
  The total of a directory that ends with a zero entry is the number of entries before it that
  are not deleted, whatever the stream did before; a directory without such an end would be read on.
\<close>

theorem fat16_total_items:
  assumes "ata_contract bus ata img" "ata_idle ata (hw s)"
    "disk_sector_size (disks s disk) = 512"
    "get_field (disk_fs_private (disks s disk)) private_directory_stream s = st"
    "stream_disk (streams s st) = disk_var s" "dir_ends img (sector * 512) n" "sector * 512 + 32 * Suc n < 2 ^ 31"
  shows "\<exists>s'. fat16_get_total_items_for_directory bus disk (of_nat sector) s =
      Some (int (used_entries img (sector * 512) n), s') \<and> kmem s' = kmem s \<and> ata_idle ata (hw s')"
  using fat16_total_items_law [OF assms] by (auto simp: advance_def)

theorem fat16_total_items_witness:
  "\<exists>s'. fat16_get_total_items_for_directory (sim_bus (\<lambda>n. if n = 1024 then 0x41 else if n = 1056 then 0xE5 else 0))
     0x100000 2 fat_demo = Some (1, s')"
proof -
  let ?img = "(\<lambda>n. if n = 1024 then 0x41 else if n = 1056 then 0xE5 else 0) :: nat \<Rightarrow> u8"
  have st: "get_field (disk_fs_private (disks fat_demo 0x100000)) private_directory_stream fat_demo = 0"
    "stream_disk (streams fat_demo 0) = disk_var fat_demo" "disk_sector_size (disks fat_demo 0x100000) = 512"
    by (simp_all add: fat_demo_def sim_state_def fat_mem_def get_field_def word_at_def load32_def fat_offsets)
  have ends: "dir_ends ?img (2 * 512) 2" by (auto simp: dir_ends_def less_2_cases_iff)
  have "used_entries ?img (2 * 512) 2 = 1" by (simp add: used_entries_def upt_rec)
  with fat16_total_items [OF sim_contract fat_demo(1) st(3,1,2) ends] show ?thesis by auto
qed

end
