(* ===== verification/Struct.thy ===== *)
theory Struct
  imports Fat16
begin

text \<open>
  Structures in the kernel's memory: reads of a word field after writes to fields of the same or of
  another structure. A structure of \<open>n\<close> words at \<open>p\<close> is the range of \<open>4 * n\<close> bytes from \<open>p\<close> on.
\<close>

lemma unat_slot: "unat (i :: u32) < 2 ^ 30 \<Longrightarrow> k < 4 \<Longrightarrow> unat (4 * i + of_nat k) = 4 * unat i + k"
  by (simp add: unat_word_ariths unat_of_nat take_bit_nat_eq_self)

lemma slotE:
  assumes "in_range (p + 4 * i) 4 x" obtains k where "k < 4" "x = p + (4 * i + of_nat k)"
  using assms by (elim in_rangeE) (simp add: add.assoc)

lemma field_slot: "in_range (p + 4 * i) 4 x \<Longrightarrow> unat i < n \<Longrightarrow> n \<le> 2 ^ 30 \<Longrightarrow> in_range p (4 * n) x"
  by (elim slotE) (simp add: in_range_def unat_slot)

lemma field_slots_disjoint:
  assumes "unat i < 2 ^ 30" "unat j < 2 ^ 30" "i \<noteq> j"
  shows "disjoint_ranges (p + 4 * i) 4 (p + 4 * j) 4"
  unfolding disjoint_ranges_def
proof (intro allI impI notI)
  fix x assume "in_range (p + 4 * i) 4 x" "in_range (p + 4 * j) 4 x"
  then obtain k l where k: "k < 4" "l < 4" "4 * i + of_nat k = 4 * j + of_nat l"
    by (elim slotE) auto
  have "4 * unat i + k = 4 * unat j + l"
    using k(3) unat_slot [OF assms(1) k(1)] unat_slot [OF assms(2) k(2)] by metis
  then have "unat i = unat j" using k(1,2) by linarith
  then show False using assms(3) by (simp add: word_unat_eq_iff)
qed

lemma get_set_field:
  "unat i < 2 ^ 30 \<Longrightarrow> unat j < 2 ^ 30 \<Longrightarrow>
   get_field p j (set_field p i v s) = (if i = j then v else get_field p j s)"
  using field_slots_disjoint [of j i p]
  by (auto simp: get_field_def set_field_def word_at_def set_word_def load32_store32_disjoint)

lemma set_field_outside:
  "\<not> in_range p (4 * n) x \<Longrightarrow> unat i < n \<Longrightarrow> n \<le> 2 ^ 30 \<Longrightarrow> kmem (set_field p i v s) x = kmem s x"
  using field_slot [of p i x n] store32_other [of "p + 4 * i" x] by (auto simp: set_field_def set_word_def)

lemma get_field_cong:
  "(\<And>x. in_range p (4 * n) x \<Longrightarrow> kmem s x = kmem s' x) \<Longrightarrow> unat i < n \<Longrightarrow> n \<le> 2 ^ 30 \<Longrightarrow>
   get_field p i s = get_field p i s'"
  unfolding get_field_def word_at_def by (intro load32_cong) (meson field_slot)

lemma get_field_other:
  assumes "disjoint_ranges p (4 * n) q (4 * k)" "unat i < n" "n \<le> 2 ^ 30" "unat j < k" "k \<le> 2 ^ 30"
  shows "get_field q j (set_field p i v s) = get_field q j s"
proof (rule get_field_cong [OF _ assms(4,5)])
  fix x assume "in_range q (4 * k) x"
  then have "\<not> in_range p (4 * n) x" by (rule disjoint_rangesD [OF disjoint_ranges_sym [OF assms(1)]])
  then show "kmem (set_field p i v s) x = kmem s x" using assms(2,3) by (rule set_field_outside)
qed

lemma set_field_simps [simp]:
  "kernel_heap (set_field p i v s) = kernel_heap s"
  "(set_field p i v s)\<lparr>kmem := m\<rparr> = s\<lparr>kmem := m\<rparr>"
  by (simp_all add: set_field_def)

lemma set_field_kmem_only: "s = s0\<lparr>kmem := m\<rparr> \<Longrightarrow> set_field p i v s = s0\<lparr>kmem := kmem (set_field p i v s)\<rparr>"
  by (simp add: set_field_def)

end
