(* ===== verification/File.thy ===== *)
theory File
  imports Struct
begin

text \<open>
  The virtual file system, \<^verbatim>\<open>src/src/fs/file.c\<close>, and \<open>disk_search_and_init\<close> of
  \<^verbatim>\<open>disk.c\<close>, which mounts the boot disk through it. A \<open>struct filesystem\<close> is six function
  pointers; \<open>fs_ops\<close> is what a pointer to one gives access to, and the functions of this file take
  the dispatch (\<open>ops\<close>) as an argument. The locale \<open>filesystem_driver\<close> is the contract of a driver;
  \<open>fat16_ops\<close> is the driver of this kernel.
\<close>

section \<open>Data\<close>

record 's fs_ops =
  op_resolve :: "addr \<Rightarrow> 's \<Rightarrow> (int \<times> 's) option"
  op_open :: "addr \<Rightarrow> addr \<Rightarrow> u32 \<Rightarrow> 's \<Rightarrow> (addr \<times> 's) option"
  op_read :: "addr \<Rightarrow> addr \<Rightarrow> u32 \<Rightarrow> u32 \<Rightarrow> addr \<Rightarrow> 's \<Rightarrow> (int \<times> 's) option"
  op_seek :: "addr \<Rightarrow> u32 \<Rightarrow> u32 \<Rightarrow> 's \<Rightarrow> (int \<times> 's) option"
  op_stat :: "addr \<Rightarrow> addr \<Rightarrow> addr \<Rightarrow> 's \<Rightarrow> (int \<times> 's) option"
  op_close :: "addr \<Rightarrow> 's \<Rightarrow> (int \<times> 's) option"

definition ALPHAOS_MAX_FILESYSTEMS :: nat where [os_defs]: "ALPHAOS_MAX_FILESYSTEMS = 12"
definition ALPHAOS_MAX_FILEDESCRIPTORS :: nat where [os_defs]: "ALPHAOS_MAX_FILEDESCRIPTORS = 512"
definition ALPHAOS_ALL_OK :: int where [os_defs]: "ALPHAOS_ALL_OK = 0"

record 'd file_state = "'d fat_state" +
  filesystems :: "addr list"
  file_descriptors :: "addr list"

text \<open>Word offsets of \<open>struct file_descriptor\<close>.\<close>

definition fd_index :: u32 where "fd_index = 0"
definition fd_filesystem :: u32 where "fd_filesystem = 1"
definition fd_private :: u32 where "fd_private = 2"
definition fd_disk :: u32 where "fd_disk = 3"
definition sizeof_file_descriptor :: u32 where "sizeof_file_descriptor = 16"

lemmas fd_offsets = fd_index_def fd_filesystem_def fd_private_def fd_disk_def

section \<open>file.c: filesystems\<close>

text \<open>The index of the first entry that is zero: the loops of both tables.\<close>

fun first_free :: "addr list \<Rightarrow> nat \<Rightarrow> nat option" where
  "first_free [] i = None"
| "first_free (p # ps) i = (if p = NULL then Some i else first_free ps (Suc i))"

definition fs_get_free_filesystem :: "('d, 'a) file_state_scheme \<Rightarrow> nat option" where
  "fs_get_free_filesystem s = first_free (filesystems s) 0"

text \<open>Without a free slot the kernel prints a message and loops for ever.\<close>

definition fs_insert_filesystem :: "addr \<Rightarrow> ('d, 'a) file_state_scheme \<Rightarrow> ('d, 'a) file_state_scheme option" where
  "fs_insert_filesystem filesystem s =
     (case fs_get_free_filesystem s of
        None \<Rightarrow> None
      | Some i \<Rightarrow> Some (s\<lparr>filesystems := (filesystems s)[i := filesystem]\<rparr>))"

definition fs_static_load :: "('d, 'a) file_state_scheme \<Rightarrow> ('d, 'a) file_state_scheme option" where
  "fs_static_load s = (let (fs, s) = fat16_init s in fs_insert_filesystem fs s)"

definition fs_load :: "('d, 'a) file_state_scheme \<Rightarrow> ('d, 'a) file_state_scheme option" where
  "fs_load s = fs_static_load (s\<lparr>filesystems := replicate ALPHAOS_MAX_FILESYSTEMS NULL\<rparr>)"

definition fs_init :: "('d, 'a) file_state_scheme \<Rightarrow> ('d, 'a) file_state_scheme option" where
  "fs_init s = fs_load (s\<lparr>file_descriptors := replicate ALPHAOS_MAX_FILEDESCRIPTORS NULL\<rparr>)"

text \<open>The loop over the registered filesystems: the first that accepts the disk.\<close>

primrec fs_resolve_loop ::
  "(addr \<Rightarrow> ('d, 'a) file_state_scheme fs_ops) \<Rightarrow> addr \<Rightarrow> addr list \<Rightarrow> ('d, 'a) file_state_scheme \<Rightarrow>
   (addr \<times> ('d, 'a) file_state_scheme) option"
where
  "fs_resolve_loop ops disk [] s = Some (NULL, s)"
| "fs_resolve_loop ops disk (fs # fss) s =
     (if fs = NULL then fs_resolve_loop ops disk fss s
      else do {
        (res, s) \<leftarrow> op_resolve (ops fs) disk s;
        if res = 0 then Some (fs, s) else fs_resolve_loop ops disk fss s
      })"

definition fs_resolve ::
  "(addr \<Rightarrow> ('d, 'a) file_state_scheme fs_ops) \<Rightarrow> addr \<Rightarrow> ('d, 'a) file_state_scheme \<Rightarrow>
   (addr \<times> ('d, 'a) file_state_scheme) option" where
  "fs_resolve ops disk s = fs_resolve_loop ops disk (filesystems s) s"

text \<open>\<^verbatim>\<open>disk.c\<close>: the boot disk is zeroed, described and mounted.\<close>

definition disk_search_and_init ::
  "(addr \<Rightarrow> ('d, 'a) file_state_scheme fs_ops) \<Rightarrow> ('d, 'a) file_state_scheme \<Rightarrow>
   ('d, 'a) file_state_scheme option" where
  "disk_search_and_init ops s = do {
     let s = set_disk (disk_var s) (\<lambda>_. \<lparr>disk_type = 0, disk_sector_size = 0, disk_ident = 0,
               disk_filesystem = NULL, disk_fs_private = NULL\<rparr>) s;
     let s = set_disk (disk_var s) (\<lambda>d. d\<lparr>disk_type := ALPHAOS_DISK_TYPE_REAL\<rparr>) s;
     let s = set_disk (disk_var s) (\<lambda>d. d\<lparr>disk_sector_size := ALPHAOS_SECTOR_SIZE\<rparr>) s;
     let s = set_disk (disk_var s) (\<lambda>d. d\<lparr>disk_ident := 0\<rparr>) s;
     (fs, s) \<leftarrow> fs_resolve ops (disk_var s) s;
     Some (set_disk (disk_var s) (\<lambda>d. d\<lparr>disk_filesystem := fs\<rparr>) s)
   }"

section \<open>file.c: descriptors\<close>

text \<open>An index outside \<open>1..512\<close>, which no descriptor has, would write beside the table.\<close>

definition file_free_descriptor :: "addr \<Rightarrow> ('d, 'a) file_state_scheme \<Rightarrow> ('d, 'a) file_state_scheme" where
  "file_free_descriptor desc s =
     (let i = sint (get_field desc fd_index s) - 1;
          s = (if 0 \<le> i then s\<lparr>file_descriptors := (file_descriptors s)[nat i := NULL]\<rparr> else s) in
      kfree desc s)"

text \<open>The descriptor written to \<open>*desc_out\<close> is NULL when there is no slot.\<close>

definition file_new_descriptor :: "('d, 'a) file_state_scheme \<Rightarrow> int \<times> addr \<times> ('d, 'a) file_state_scheme" where
  "file_new_descriptor s =
     (case first_free (file_descriptors s) 0 of
        None \<Rightarrow> (- ENOMEM, NULL, s)
      | Some i \<Rightarrow>
          let (desc, s) = kzalloc sizeof_file_descriptor s;
              s = set_field desc fd_index (of_nat (i + 1)) s in
          (0, desc, s\<lparr>file_descriptors := (file_descriptors s)[i := desc]\<rparr>))"

definition file_get_descriptor :: "int \<Rightarrow> ('d, 'a) file_state_scheme \<Rightarrow> addr" where
  "file_get_descriptor fd s =
     (if fd \<le> 0 \<or> fd \<ge> int ALPHAOS_MAX_FILEDESCRIPTORS then NULL
      else file_descriptors s ! nat (fd - 1))"

definition file_get_mode_by_string :: "mem \<Rightarrow> addr \<Rightarrow> u32" where
  "file_get_mode_by_string m str =
     (if strncmp m str (buffer (ascii ''r'')) 0 1 = 0 then FILE_MODE_READ
      else if strncmp m str (buffer (ascii ''w'')) 0 1 = 0 then FILE_MODE_WRITE
      else if strncmp m str (buffer (ascii ''a'')) 0 1 = 0 then FILE_MODE_APPEND
      else FILE_MODE_INVALID)"

text \<open>
  The body of \<open>fopen\<close> up to its label \<open>out\<close>, where negative results become 0. The mode string is
  read by \<open>mode_of\<close>: from the kernel's memory, or from a literal of the program image.
\<close>

definition fopen_result ::
  "(addr \<Rightarrow> ('d, 'a) file_state_scheme fs_ops) \<Rightarrow> addr \<Rightarrow> (mem \<Rightarrow> u32) \<Rightarrow> ('d, 'a) file_state_scheme \<Rightarrow>
   (int \<times> ('d, 'a) file_state_scheme) option" where
  "fopen_result ops filename mode_of s = do {
     (root_path, s) \<leftarrow> pathparser_parse filename NULL s;
     if root_path = NULL then Some (- EINVARG, s)
     else if root_first (kmem s) root_path = NULL then Some (- EINVARG, s)
     else do {
       let disk = disk_get (root_drive_no (kmem s) root_path) s;
       if disk = NULL then Some (- EIO, s)
       else if disk_filesystem (disks s disk) = NULL then Some (- EIO, s)
       else do {
         let mode = mode_of (kmem s);
         if mode = FILE_MODE_INVALID then Some (- EINVARG, s)
         else do {
           (descriptor_private_data, s) \<leftarrow>
             op_open (ops (disk_filesystem (disks s disk))) disk (root_first (kmem s) root_path) mode s;
           if ISERR descriptor_private_data then Some (ERROR_I descriptor_private_data, s)
           else do {
             let (res, desc, s) = file_new_descriptor s;
             if res < 0 then Some (res, s)
             else do {
               let s = set_field desc fd_filesystem (disk_filesystem (disks s disk)) s;
               let s = set_field desc fd_private descriptor_private_data s;
               let s = set_field desc fd_disk disk s;
               Some (sint (get_field desc fd_index s), s)
             }
           }
         }
       }
     }
   }"

definition fopen_mode ::
  "(addr \<Rightarrow> ('d, 'a) file_state_scheme fs_ops) \<Rightarrow> addr \<Rightarrow> (mem \<Rightarrow> u32) \<Rightarrow> ('d, 'a) file_state_scheme \<Rightarrow>
   (int \<times> ('d, 'a) file_state_scheme) option" where
  "fopen_mode ops filename mode_of s = do {
     (res, s) \<leftarrow> fopen_result ops filename mode_of s;
     Some (if res < 0 then 0 else res, s)
   }"

definition fopen ::
  "(addr \<Rightarrow> ('d, 'a) file_state_scheme fs_ops) \<Rightarrow> addr \<Rightarrow> addr \<Rightarrow> ('d, 'a) file_state_scheme \<Rightarrow>
   (int \<times> ('d, 'a) file_state_scheme) option" where
  "fopen ops filename mode_str = fopen_mode ops filename (\<lambda>m. file_get_mode_by_string m mode_str)"

text \<open>\<open>fopen(filename, "r")\<close>\<close>

definition fopen_r ::
  "(addr \<Rightarrow> ('d, 'a) file_state_scheme fs_ops) \<Rightarrow> addr \<Rightarrow> ('d, 'a) file_state_scheme \<Rightarrow>
   (int \<times> ('d, 'a) file_state_scheme) option" where
  "fopen_r ops filename = fopen_mode ops filename (\<lambda>_. file_get_mode_by_string (buffer (ascii ''r'')) 0)"

definition fstat ::
  "(addr \<Rightarrow> ('d, 'a) file_state_scheme fs_ops) \<Rightarrow> int \<Rightarrow> addr \<Rightarrow> ('d, 'a) file_state_scheme \<Rightarrow>
   (int \<times> ('d, 'a) file_state_scheme) option" where
  "fstat ops fd stat s =
     (let desc = file_get_descriptor fd s in
      if desc = NULL then Some (- EIO, s)
      else op_stat (ops (get_field desc fd_filesystem s)) (get_field desc fd_disk s) (get_field desc fd_private s) stat s)"

definition fclose ::
  "(addr \<Rightarrow> ('d, 'a) file_state_scheme fs_ops) \<Rightarrow> int \<Rightarrow> ('d, 'a) file_state_scheme \<Rightarrow>
   (int \<times> ('d, 'a) file_state_scheme) option" where
  "fclose ops fd s =
     (let desc = file_get_descriptor fd s in
      if desc = NULL then Some (- EIO, s)
      else do {
        (res, s) \<leftarrow> op_close (ops (get_field desc fd_filesystem s)) (get_field desc fd_private s) s;
        Some (res, if res = ALPHAOS_ALL_OK then file_free_descriptor desc s else s)
      })"

definition fseek ::
  "(addr \<Rightarrow> ('d, 'a) file_state_scheme fs_ops) \<Rightarrow> int \<Rightarrow> int \<Rightarrow> u32 \<Rightarrow> ('d, 'a) file_state_scheme \<Rightarrow>
   (int \<times> ('d, 'a) file_state_scheme) option" where
  "fseek ops fd offset whence s =
     (let desc = file_get_descriptor fd s in
      if desc = NULL then Some (- EIO, s)
      else op_seek (ops (get_field desc fd_filesystem s)) (get_field desc fd_private s) (word_of_int offset) whence s)"

definition fread ::
  "(addr \<Rightarrow> ('d, 'a) file_state_scheme fs_ops) \<Rightarrow> addr \<Rightarrow> u32 \<Rightarrow> u32 \<Rightarrow> int \<Rightarrow> ('d, 'a) file_state_scheme \<Rightarrow>
   (int \<times> ('d, 'a) file_state_scheme) option" where
  "fread ops ptr sz nmemb fd s =
     (if sz = 0 \<or> nmemb = 0 \<or> fd < 1 then Some (- EINVARG, s)
      else
        let desc = file_get_descriptor fd s in
        if desc = NULL then Some (- EINVARG, s)
        else op_read (ops (get_field desc fd_filesystem s)) (get_field desc fd_disk s)
               (get_field desc fd_private s) sz nmemb ptr s)"

section \<open>The driver of this kernel\<close>

text \<open>The initialiser of \<open>fat16_fs\<close> in \<^verbatim>\<open>fat16.c\<close>.\<close>

definition fat16_ops :: "'d bus \<Rightarrow> ('d, 'a) file_state_scheme fs_ops" where
  "fat16_ops bus = \<lparr>op_resolve = fat16_resolve bus, op_open = fat16_open bus, op_read = fat16_read bus,
     op_seek = (\<lambda>p off mode s. Some (fat16_seek p off mode s)),
     op_stat = (\<lambda>disk p stat s. Some (fat16_stat disk p stat s)),
     op_close = (\<lambda>p s. Some (fat16_close p s))\<rparr>"

section \<open>The tables survive the driver\<close>

text \<open>
  \<open>tabs\<close>: the kernel's tables and the state of the later components, which a driver never touches. Each
  operation of the driver that starts with the tables \<open>t\<close> ends with them.
\<close>

definition tabs :: "('d, 'a) file_state_scheme \<Rightarrow> addr list \<times> addr list \<times> addr \<times> 'a" where
  "tabs s = (filesystems s, file_descriptors s, disk_var s, file_state.more s)"

lemma tabs_simps [simp]:
  "tabs (s\<lparr>kmem := m\<rparr>) = tabs s" "tabs (s\<lparr>streams := sts\<rparr>) = tabs s" "tabs (s\<lparr>hw := d\<rparr>) = tabs s"
  "tabs (s\<lparr>disks := ds\<rparr>) = tabs s" "tabs (kfree p s) = tabs s" "tabs (set_field p i v s) = tabs s"
  "tabs (set_disk disk f s) = tabs s" "tabs (diskstreamer_close st s) = tabs s"
  by (simp_all add: tabs_def kfree_def set_field_def set_disk_def diskstreamer_close_def)

lemma tabs_kzalloc [always_intro]: "tabs s = t \<Longrightarrow> alwaysP (\<lambda>s. tabs s = t) (kzalloc sz s)"
  by (auto simp: kzalloc_def kmalloc_def alwaysP_def Let_def split: prod.split)

lemma tabs_kzallocD: "kzalloc sz s = (p, s') \<Longrightarrow> tabs s' = tabs s"
  using tabs_kzalloc [of s "tabs s" sz] by (simp add: alwaysP_def)

lemma kzalloc_disks: "kzalloc sz s = (p, s') \<Longrightarrow> disks s' = disks s"
  by (auto simp: kzalloc_def kmalloc_def split: prod.splits if_splits)

lemma tabs_read_block [always_intro]:
  "tabs s = t \<Longrightarrow> always (\<lambda>(m, s). tabs s = t) (disk_read_block bus d lba n b m s)"
  by (auto simp: disk_read_block_def always_def bind_eq_Some_conv split: option.splits if_splits)

lemma tabs_stream_read [always_intro]:
  "tabs s = t \<Longrightarrow> always (\<lambda>(m, s). tabs s = t) (diskstreamer_read bus st out n m s)"
proof (induction bus st out n m s rule: diskstreamer_read.induct)
  case (1 bus st out n m s)
  show ?case
    using "1.IH" tabs_read_block [OF "1.prems"]
    by (subst diskstreamer_read.simps) (fastforce simp: Let_def always_def split: option.splits prod.splits)
qed

lemma tabs_stream_new [always_intro]: "tabs s = t \<Longrightarrow> alwaysP (\<lambda>s. tabs s = t) (diskstreamer_new n s)"
  by (auto simp: diskstreamer_new_def Let_def intro!: always_intro)

lemma tabs_stream_seek [always_intro]: "tabs s = t \<Longrightarrow> alwaysP (\<lambda>s. tabs s = t) (diskstreamer_seek st p s)"
  by (auto simp: diskstreamer_seek_def Let_def intro!: always_intro)

lemma tabs_read_mem [always_intro]: "tabs s = t \<Longrightarrow> always (\<lambda>s. tabs s = t) (diskstreamer_read_mem bus st out n s)"
  by (auto simp: diskstreamer_read_mem_def Let_def intro!: always_intro)

lemma tabs_count [always_intro]: "tabs s = t \<Longrightarrow> always (\<lambda>s. tabs s = t) (fat16_count_items bus st i s)"
  proof -
  have "tabs (snd y) = tabs s" if "fat16_count_items bus st i s = Some y" for y
    using that
  proof (induction rule: fat16_count_items.raw_induct [rotated, consumes 1])
    case (1 f bus st i s y)
    have IH: "tabs s = t \<Longrightarrow> always (\<lambda>s. tabs s = t) (f bus st i s)" for bus st i s t
      using 1(1) by (auto intro!: alwaysI)
    show ?case by (rule alwaysD [OF _ 1(2)]) (auto intro!: always_intro IH)
  qed
  then show "tabs s = t \<Longrightarrow> ?thesis" by (auto intro!: alwaysI)
qed

lemma tabs_items [always_intro]: "tabs s = t \<Longrightarrow> always (\<lambda>s. tabs s = t) (fat16_get_total_items_for_directory bus disk sec s)"
  by (auto simp: fat16_get_total_items_for_directory_def Let_def intro!: always_intro)

lemma tabs_root [always_intro]: "tabs s = t \<Longrightarrow> always (\<lambda>s. tabs s = t) (fat16_get_root_directory bus disk p dir s)"
  by (auto simp: fat16_get_root_directory_def Let_def intro!: always_intro)

lemma tabs_clone [always_intro]: "tabs s = t \<Longrightarrow> alwaysP (\<lambda>s. tabs s = t) (fat16_clone_directory_item item sz s)"
  by (auto simp: fat16_clone_directory_item_def Let_def intro!: always_intro)

lemma tabs_entry [always_intro]: "tabs s = t \<Longrightarrow> always (\<lambda>s. tabs s = t) (fat16_get_fat_entry bus disk c s)"
  by (auto simp: fat16_get_fat_entry_def Let_def intro!: always_intro)

lemma tabs_follow [always_intro]: "tabs s = t \<Longrightarrow> always (\<lambda>s. tabs s = t) (fat16_follow_clusters bus disk n c s)"
  by (induction n arbitrary: c s) (auto intro!: always_intro)

lemma tabs_cluster [always_intro]: "tabs s = t \<Longrightarrow> always (\<lambda>s. tabs s = t) (fat16_get_cluster_for_offet bus disk c off s)"
  by (auto simp: fat16_get_cluster_for_offet_def Let_def intro!: always_intro)

lemma tabs_from_stream [always_intro]: "tabs s = t \<Longrightarrow> always (\<lambda>s. tabs s = t) (fat16_read_internal_from_stream bus disk st c off n out s)"
  proof -
  have "tabs (snd y) = tabs s" if "fat16_read_internal_from_stream bus disk st c off n out s = Some y" for y
    using that
  proof (induction rule: fat16_read_internal_from_stream.raw_induct [rotated, consumes 1])
    case (1 f bus disk st c off n out s y)
    have IH: "tabs s = t \<Longrightarrow> always (\<lambda>s. tabs s = t) (f bus disk st c off n out s)" for bus disk st c off n out s t
      using 1(1) by (auto intro!: alwaysI)
    show ?case by (rule alwaysD [OF _ 1(2)]) (auto simp: Let_def intro!: always_intro IH)
  qed
  then show "tabs s = t \<Longrightarrow> ?thesis" by (auto intro!: alwaysI)
qed

lemma tabs_read_internal [always_intro]: "tabs s = t \<Longrightarrow> always (\<lambda>s. tabs s = t) (fat16_read_internal bus disk c off n out s)"
  by (auto simp: fat16_read_internal_def Let_def intro!: always_intro)

lemma tabs_frees [simp]: "tabs (fat16_free_directory d s) = tabs s" "tabs (fat_16_fat_item_free i s) = tabs s"
  by (simp_all add: fat16_free_directory_def fat_16_fat_item_free_def Let_def)

lemma tabs_load_dir [always_intro]: "tabs s = t \<Longrightarrow> always (\<lambda>s. tabs s = t) (fat16_load_fat_directory bus disk i s)"
  by (auto simp: fat16_load_fat_directory_def Let_def intro!: always_intro)

lemma tabs_new_item [always_intro]: "tabs s = t \<Longrightarrow> always (\<lambda>s. tabs s = t) (fat16_new_fat_item_for_directory_item bus disk i s)"
  by (auto simp: fat16_new_fat_item_for_directory_item_def Let_def intro!: always_intro)

lemma tabs_find_loop [always_intro]: "tabs s = t \<Longrightarrow> always (\<lambda>s. tabs s = t) (fat16_find_loop bus disk dir name n i f s)"
proof (induction n arbitrary: i f s)
  case (Suc n)
  then show ?case by (simp add: Let_def, intro always_bind_pure) (auto intro!: always_intro Suc.IH)
qed (auto intro: always_intro)

lemma tabs_find_item [always_intro]: "tabs s = t \<Longrightarrow> always (\<lambda>s. tabs s = t) (fat16_find_item_in_directory bus disk dir name s)"
  by (auto simp: fat16_find_item_in_directory_def Let_def intro!: always_intro)

lemma tabs_walk [always_intro]: "tabs s = t \<Longrightarrow> always (\<lambda>s. tabs s = t) (fat16_walk_parts bus disk part item s)"
  proof -
  have "tabs (snd y) = tabs s" if "fat16_walk_parts bus disk part item s = Some y" for y
    using that
  proof (induction rule: fat16_walk_parts.raw_induct [rotated, consumes 1])
    case (1 f bus disk part item s y)
    have IH: "tabs s = t \<Longrightarrow> always (\<lambda>s. tabs s = t) (f bus disk part item s)" for bus disk part item s t
      using 1(1) by (auto intro!: alwaysI)
    show ?case by (rule alwaysD [OF _ 1(2)]) (auto simp: Let_def intro!: always_intro IH)
  qed
  then show "tabs s = t \<Longrightarrow> ?thesis" by (auto intro!: alwaysI)
qed

lemma tabs_get_entry [always_intro]: "tabs s = t \<Longrightarrow> always (\<lambda>s. tabs s = t) (fat16_get_directory_entry bus disk path s)"
  by (auto simp: fat16_get_directory_entry_def Let_def intro!: always_intro)

lemma tabs_open [always_intro]: "tabs s = t \<Longrightarrow> always (\<lambda>s. tabs s = t) (fat16_open bus disk path mode s)"
  by (auto simp: fat16_open_def Let_def intro!: always_intro)

lemma tabs_close [always_intro]: "tabs s = t \<Longrightarrow> alwaysP (\<lambda>s. tabs s = t) (fat16_close p s)"
  by (auto simp: fat16_close_def fat16_free_file_descriptor_def Let_def intro!: always_intro)

lemma tabs_stat [always_intro]: "tabs s = t \<Longrightarrow> alwaysP (\<lambda>s. tabs s = t) (fat16_stat disk p st s)"
  by (auto simp: fat16_stat_def Let_def intro!: always_intro)

lemma tabs_seek [always_intro]: "tabs s = t \<Longrightarrow> alwaysP (\<lambda>s. tabs s = t) (fat16_seek p off mode s)"
  by (auto simp: fat16_seek_def Let_def intro!: always_intro)

lemma tabs_members [always_intro]: "tabs s = t \<Longrightarrow> always (\<lambda>s. tabs s = t) (fat16_read_members bus disk item n off sz out s)"
  by (induction n arbitrary: off out s) (auto intro!: always_intro)

lemma tabs_read [always_intro]: "tabs s = t \<Longrightarrow> always (\<lambda>s. tabs s = t) (fat16_read bus disk desc sz n out s)"
  by (auto simp: fat16_read_def Let_def intro!: always_intro)

lemma tabs_stream_newD: "diskstreamer_new n s = (p, s') \<Longrightarrow> tabs s' = tabs s"
  using tabs_stream_new [of s "tabs s" n] by (simp add: alwaysP_def)

lemma tabs_init_private [simp]: "tabs (fat16_init_private disk p s) = tabs s"
  by (auto simp: fat16_init_private_def Let_def split: prod.split dest!: tabs_stream_newD)

lemma tabs_resolve [always_intro]: "tabs s = t \<Longrightarrow> always (\<lambda>s. tabs s = t) (fat16_resolve bus disk s)"
  by (auto simp: fat16_resolve_def Let_def intro!: always_intro)

text \<open>The path parser, whose results have an advanced path beside the state.\<close>

lemma tabs_create_root [always_intro]:
  "tabs s = t \<Longrightarrow> alwaysP (\<lambda>s. tabs s = t) (pathparser_create_root d s)"
  by (auto simp: pathparser_create_root_def Let_def intro!: always_intro)

lemma tabs_get_path_part [always_intro]:
  "tabs s = t \<Longrightarrow> always (\<lambda>(b, s). tabs s = t) (pathparser_get_path_part path s)"
  by (cases "kzalloc (word_of_int ALPHAOS_MAX_PATH) s")
    (auto simp: pathparser_get_path_part_def Let_def dest!: tabs_kzallocD intro!: always_bind_pure always_return)

lemma tabs_path_part [always_intro]:
  "tabs s = t \<Longrightarrow> always (\<lambda>(b, s). tabs s = t) (pathparser_parse_path_part lp path s)"
  by (auto simp: pathparser_parse_path_part_def Let_def intro!: always_intro split: prod.split dest!: tabs_kzallocD)

lemma tabs_parse_rest: "pathparser_parse_rest part path s = Some s' \<Longrightarrow> tabs s' = tabs s"
proof (induction rule: pathparser_parse_rest.raw_induct [rotated, consumes 1])
  case (1 f part path s y)
  then show ?case
    using alwaysD [OF tabs_path_part [OF refl]]
    by (fastforce simp: bind_eq_Some_conv split: if_splits)
qed

lemma tabs_parse_rest_bind [always_intro]:
  "tabs s = t \<Longrightarrow> (\<And>s. tabs s = t \<Longrightarrow> always P (f s)) \<Longrightarrow> always P (pathparser_parse_rest part path s \<bind> f)"
  using tabs_parse_rest [of part path s] by (intro always_bind_state) simp

lemma tabs_parse [always_intro]: "tabs s = t \<Longrightarrow> always (\<lambda>s. tabs s = t) (pathparser_parse path cur s)"
  unfolding pathparser_parse_def Let_def
  by (rule always_bind_pure, cases "pathparser_get_drive_by_path (kmem s) path")
    (auto intro!: always_intro)

section \<open>The descriptor table\<close>

lemma first_free_Some:
  "first_free ps i = Some j \<longleftrightarrow> i \<le> j \<and> j - i < length ps \<and> ps ! (j - i) = NULL \<and> (\<forall>k < j - i. ps ! k \<noteq> NULL)"
proof (induction ps arbitrary: i)
  case (Cons p ps)
  show ?case
  proof (cases "p = NULL \<or> j \<le> i")
    case True
    then show ?thesis using Cons.IH [of "Suc i"] by (cases "i = j") (auto simp: nth_Cons')
  next
    case False
    then obtain d where d: "j = Suc (i + d)" using less_iff_Suc_add [of i j] by auto
    show ?thesis using False Cons.IH [of "Suc i"] unfolding d by (auto simp: All_less_Suc2)
  qed
qed simp

lemma first_free_None: "first_free ps i = None \<longleftrightarrow> NULL \<notin> set ps"
  by (induction ps arbitrary: i) auto

text \<open>The structure of a descriptor, filled in.\<close>

definition fill_descriptor :: "addr \<Rightarrow> u32 \<Rightarrow> addr \<Rightarrow> addr \<Rightarrow> addr \<Rightarrow> 'a kheap_state_scheme \<Rightarrow> 'a kheap_state_scheme" where
  "fill_descriptor desc ix fs pd disk s =
     set_field desc fd_disk disk (set_field desc fd_private pd (set_field desc fd_filesystem fs (set_field desc fd_index ix s)))"

lemma set_field_fds: "set_field p i v (s\<lparr>file_descriptors := x\<rparr>) = (set_field p i v s)\<lparr>file_descriptors := x\<rparr>"
  by (simp add: set_field_def)

lemma get_field_fds: "get_field p i (s\<lparr>file_descriptors := x\<rparr>) = get_field p i s"
  by (simp add: get_field_def)

lemma fill_descriptor_fields:
  "get_field desc fd_index (fill_descriptor desc ix fs pd disk s) = ix"
  "get_field desc fd_filesystem (fill_descriptor desc ix fs pd disk s) = fs"
  "get_field desc fd_private (fill_descriptor desc ix fs pd disk s) = pd"
  "get_field desc fd_disk (fill_descriptor desc ix fs pd disk s) = disk"
  by (simp_all add: fill_descriptor_def get_set_field fd_offsets)

lemma tabs_fill_descriptor: "tabs (fill_descriptor desc ix fs pd disk s) = tabs s"
  by (simp add: fill_descriptor_def set_field_def)

text \<open>
  \<open>openable root mode s\<close>: the parsed path names a file on a mounted disk, and the mode is one of the
  three; \<open>fopen\<close> then asks the driver.
\<close>

definition path_disk :: "addr \<Rightarrow> ('d, 'a) file_state_scheme \<Rightarrow> addr" where
  "path_disk root s = disk_get (root_drive_no (kmem s) root) s"

definition openable :: "addr \<Rightarrow> u32 \<Rightarrow> ('d, 'a) file_state_scheme \<Rightarrow> bool" where
  "openable root mode s \<longleftrightarrow> root \<noteq> NULL \<and> root_first (kmem s) root \<noteq> NULL \<and> path_disk root s \<noteq> NULL
     \<and> disk_filesystem (disks s (path_disk root s)) \<noteq> NULL \<and> mode \<noteq> FILE_MODE_INVALID"

lemma descriptor_number: "i < 512 \<Longrightarrow> sint (of_nat (i + 1) :: u32) = int (i + 1)"
  by (subst sint_small) (simp_all only: unat_of_nat, simp_all add: take_bit_nat_eq_self)

section \<open>What the client of a driver may rely on\<close>

locale filesystem_driver =
  fixes ops :: "addr \<Rightarrow> ('d, 'a) file_state_scheme fs_ops"
  assumes keeps_resolve: "tabs s = t \<Longrightarrow> always (\<lambda>s. tabs s = t) (op_resolve (ops fs) disk s)"
    and keeps_open: "tabs s = t \<Longrightarrow> always (\<lambda>s. tabs s = t) (op_open (ops fs) disk path mode s)"
    and keeps_read: "tabs s = t \<Longrightarrow> always (\<lambda>s. tabs s = t) (op_read (ops fs) disk p sz n out s)"
    and keeps_seek: "tabs s = t \<Longrightarrow> always (\<lambda>s. tabs s = t) (op_seek (ops fs) p off whence s)"
    and keeps_stat: "tabs s = t \<Longrightarrow> always (\<lambda>s. tabs s = t) (op_stat (ops fs) disk p st s)"
    and keeps_close: "tabs s = t \<Longrightarrow> always (\<lambda>s. tabs s = t) (op_close (ops fs) p s)"
begin

lemma fread_keeps: "tabs s = t \<Longrightarrow> always (\<lambda>s. tabs s = t) (fread ops p sz n fd s)"
  by (auto simp: fread_def Let_def intro!: always_intro keeps_read)

lemma fseek_keeps: "tabs s = t \<Longrightarrow> always (\<lambda>s. tabs s = t) (fseek ops fd off whence s)"
  by (auto simp: fseek_def Let_def intro!: always_intro keeps_seek)

lemma fstat_keeps: "tabs s = t \<Longrightarrow> always (\<lambda>s. tabs s = t) (fstat ops fd st s)"
  by (auto simp: fstat_def Let_def intro!: always_intro keeps_stat)

lemma fs_resolve_keeps: "tabs s = t \<Longrightarrow> always (\<lambda>s. tabs s = t) (fs_resolve ops disk s)"
proof -
  have "tabs s = t \<Longrightarrow> always (\<lambda>s. tabs s = t) (fs_resolve_loop ops disk fss s)" for fss
    by (induction fss arbitrary: s) (auto intro!: always_intro keeps_resolve)
  then show "tabs s = t \<Longrightarrow> ?thesis" by (simp add: fs_resolve_def)
qed

text \<open>
  \<open>fopen\<close> by cases: what is wrong with the path or the mode, what the driver says, whether a slot is free.
\<close>

lemma fopen_not_openable:
  assumes "pathparser_parse filename NULL s = Some (root, s1)" "\<not> openable root (mode_of (kmem s1)) s1"
  shows "fopen_mode ops filename mode_of s = Some (0, s1) \<and> tabs s1 = tabs s"
  using assms alwaysD [OF tabs_parse [OF refl] assms(1)]
  by (auto simp: fopen_mode_def fopen_result_def Let_def openable_def path_disk_def EINVARG_def EIO_def)

lemma fopen_asks_driver:
  assumes "pathparser_parse filename NULL s = Some (root, s1)" "openable root (mode_of (kmem s1)) s1"
    "op_open (ops (disk_filesystem (disks s1 (path_disk root s1)))) (path_disk root s1) (root_first (kmem s1) root) (mode_of (kmem s1)) s1
       = Some (priv, s2)"
  shows "tabs s2 = tabs s"
    "ISERR priv \<or> NULL \<notin> set (file_descriptors s) \<Longrightarrow> fopen_mode ops filename mode_of s = Some (0, s2)"
    "\<not> ISERR priv \<Longrightarrow> first_free (file_descriptors s) 0 = Some i \<Longrightarrow> i < 512 \<Longrightarrow> kzalloc sizeof_file_descriptor s2 = (desc, s3) \<Longrightarrow>
      fopen_mode ops filename mode_of s = Some (int (i + 1),
        (fill_descriptor desc (of_nat (i + 1)) (disk_filesystem (disks s2 (path_disk root s1))) priv (path_disk root s1) s3)
          \<lparr>file_descriptors := (file_descriptors s)[i := desc]\<rparr>)"
proof -
  show t2: "tabs s2 = tabs s"
    using alwaysD [OF keeps_open [OF refl] assms(3)] alwaysD [OF tabs_parse [OF refl] assms(1)] by simp
  then have f2: "file_descriptors s2 = file_descriptors s" by (simp add: tabs_def)
  note o = assms(2) [unfolded openable_def] and d = path_disk_def [of root s1, symmetric]
  have r: "fopen_result ops filename mode_of s =
      (if ISERR priv then Some (ERROR_I priv, s2)
       else let (res, desc, s) = file_new_descriptor s2 in
         if res < 0 then Some (res, s)
         else let s = set_field desc fd_filesystem (disk_filesystem (disks s (path_disk root s1))) s;
                  s = set_field desc fd_private priv s; s = set_field desc fd_disk (path_disk root s1) s in
           Some (sint (get_field desc fd_index s), s))"
    using assms(1,3) o by (simp add: fopen_result_def Let_def d)
  show "fopen_mode ops filename mode_of s = Some (0, s2)" if "ISERR priv \<or> NULL \<notin> set (file_descriptors s)"
    using that first_free_None [of "file_descriptors s" 0]
    by (auto simp: fopen_mode_def r ISERR_def ERROR_I_def file_new_descriptor_def f2 ENOMEM_def)
  show "fopen_mode ops filename mode_of s = Some (int (i + 1),
        (fill_descriptor desc (of_nat (i + 1)) (disk_filesystem (disks s2 (path_disk root s1))) priv (path_disk root s1) s3)
          \<lparr>file_descriptors := (file_descriptors s)[i := desc]\<rparr>)"
    if h: "\<not> ISERR priv" "first_free (file_descriptors s) 0 = Some i" "i < 512" "kzalloc sizeof_file_descriptor s2 = (desc, s3)"
  proof -
    have s3: "file_descriptors s3 = file_descriptors s" "disks s3 = disks s2"
      using tabs_kzallocD [OF h(4)] t2 kzalloc_disks [OF h(4)] by (simp_all add: tabs_def)
    have n: "file_new_descriptor s2 =
        (0, desc, (set_field desc fd_index (of_nat (i + 1)) s3)\<lparr>file_descriptors := (file_descriptors s)[i := desc]\<rparr>)"
      by (simp add: file_new_descriptor_def f2 h(2,4) Let_def set_field_def s3)
    have ds: "disks (set_field desc fd_index v s3) = disks s2" for v by (simp add: set_field_def s3)
    let ?s = "fill_descriptor desc (of_nat (i + 1)) (disk_filesystem (disks s2 (path_disk root s1))) priv (path_disk root s1) s3"
    have "fopen_result ops filename mode_of s =
        Some (sint (get_field desc fd_index ?s), ?s\<lparr>file_descriptors := (file_descriptors s)[i := desc]\<rparr>)"
      unfolding r n Let_def using h(1) by (simp add: set_field_fds get_field_fds fill_descriptor_def ds del: of_nat_add of_nat_Suc)
    then show ?thesis unfolding fill_descriptor_fields descriptor_number [OF h(3)] by (simp add: fopen_mode_def)
  qed
qed

end

interpretation fat: filesystem_driver "\<lambda>_. fat16_ops bus" for bus
  by unfold_locales (auto simp: fat16_ops_def intro!: always_intro)

section \<open>Closing a file\<close>

text \<open>
  \<open>open_file s fd desc priv item ritem\<close>: descriptor \<open>fd\<close> is open on a file of the FAT16 driver; its
  structures are live allocations of their own.
\<close>

definition open_file :: "('d, 'a) file_state_scheme \<Rightarrow> int \<Rightarrow> addr \<Rightarrow> addr \<Rightarrow> addr \<Rightarrow> addr \<Rightarrow> bool" where
  "open_file s fd desc priv item ritem \<longleftrightarrow>
     0 < fd \<and> fd < 512 \<and> file_descriptors s ! nat (fd - 1) = desc \<and> get_field desc fd_index s = word_of_int fd
     \<and> get_field desc fd_private s = priv \<and> get_field priv fdesc_item s = item
     \<and> get_field item fitem_type s = FAT_ITEM_TYPE_FILE \<and> get_field item fitem_ptr s = ritem
     \<and> distinct [NULL, desc, priv, item, ritem] \<and> (\<forall>p \<in> {desc, priv, item, ritem}. klive s p = Some 1)"

lemma freed_field:
  assumes "kheap_ok s" "freed s P s'" "klive s p = Some 1" "i < 1024"
  shows "get_field p (of_nat i) s' = get_field p (of_nat i) s"
  unfolding get_field_def using assms klive_in_pool(2) [OF assms(1,3)]
  by (intro word_at_cong) (auto simp: freed_def)

lemma kfree_file_descriptors: "kfree p (s\<lparr>file_descriptors := fds\<rparr>) = (kfree p s)\<lparr>file_descriptors := fds\<rparr>"
  by (simp add: kfree_def)

lemma heap_file_descriptors [simp]:
  "kheap_ok (s\<lparr>file_descriptors := fds\<rparr>) = kheap_ok s" "klive (s\<lparr>file_descriptors := fds\<rparr>) = klive s"
  "kavail (s\<lparr>file_descriptors := fds\<rparr>) = kavail s" "in_table (s\<lparr>file_descriptors := fds\<rparr>) x = in_table s x"
  by (rule kheap_cong; simp)+ (simp add: in_table_def)

lemma freed_file_descriptors:
  assumes "freed s P s'"
  shows "freed (s\<lparr>file_descriptors := fds\<rparr>) P (s'\<lparr>file_descriptors := fds\<rparr>)"
proof -
  have "s' = s\<lparr>kmem := kmem s'\<rparr>" using assms by (simp only: freed_def)
  then have "s'\<lparr>file_descriptors := fds\<rparr> = s\<lparr>file_descriptors := fds\<rparr>\<lparr>kmem := kmem s'\<rparr>"
    by (rule ssubst) simp
  then show ?thesis using assms unfolding freed_def heap_file_descriptors by simp
qed

lemma fclose_law:
  assumes "kheap_ok s" "open_file s fd desc priv item ritem" "ops (get_field desc fd_filesystem s) = fat16_ops bus"
  shows "\<exists>s'. fclose ops fd s = Some (0, s')
    \<and> freed (s\<lparr>file_descriptors := (file_descriptors s)[nat (fd - 1) := NULL]\<rparr>) {desc, priv, item, ritem} s'"
proof -
  note o = assms(2) [unfolded open_file_def]
  let ?s3 = "kfree priv (kfree item (kfree ritem s))"
  have f1: "freed s {ritem} (kfree ritem s)"
    using freed_insert [OF freed_refl [OF assms(1)], of ritem 1] o by simp
  have f2: "freed s {item, ritem} (kfree item (kfree ritem s))"
    using freed_insert [OF f1, of item 1] o by simp
  have f3: "freed s {priv, item, ritem} ?s3"
    using freed_insert [OF f2, of priv 1] o by simp
  have f4: "freed s {desc, priv, item, ritem} (kfree desc ?s3)"
    using freed_insert [OF f3, of desc 1] o by simp
  have close: "fat16_close priv s = (0, ?s3)"
    using o by (simp add: fat16_close_def fat16_free_file_descriptor_def fat_16_fat_item_free_def Let_def os_defs)
  have idx: "get_field desc fd_index ?s3 = word_of_int fd"
    using freed_field [OF assms(1) f3, of desc 0] o by (simp add: fd_offsets)
  have "sint (word_of_int fd :: u32) = fd"
    using o s32_id [of fd] by (simp add: s32_def)
  then have "fclose ops fd s =
      Some (0, (kfree desc ?s3)\<lparr>file_descriptors := (file_descriptors s)[nat (fd - 1) := NULL]\<rparr>)"
    using o close idx assms(3) by (simp add: fclose_def file_get_descriptor_def ALPHAOS_MAX_FILEDESCRIPTORS_def
        ALPHAOS_ALL_OK_def fat16_ops_def file_free_descriptor_def Let_def kfree_file_descriptors kfree_def)
  then show ?thesis using freed_file_descriptors [OF f4] by blast
qed

section \<open>Properties\<close>

text \<open>A state for the witnesses: four live blocks, and file 1 open on a file.\<close>

definition file_mem :: mem where
  "file_mem = (\<lambda>_. 0)(0x1000 := 0x41, 0x1001 := 0x41, 0x1002 := 0x41, 0x1003 := 0x41, 0x10000 := 1,
     0x10009 := 0x10, 0x1000A := 1, 0x11001 := 0x20, 0x11002 := 1, 0x12001 := 0x30, 0x12002 := 1, 0x12004 := 1)"

definition file_demo :: "sim_drive file_state" where
  "file_demo = \<lparr>kmem = file_mem, kernel_heap = \<lparr>table = \<lparr>entries = 0x1000, total = 4\<rparr>, saddr = 0x10000\<rparr>,
     current_directory = 0, cr3 = 0, kernel_chunk = 0, video_memory = 0xB8000, terminal_row = 0, terminal_col = 0,
     disk_var = 0x100000, disks = (\<lambda>_. \<lparr>disk_type = 0, disk_sector_size = 512, disk_ident = 0,
       disk_filesystem = 0, disk_fs_private = 0\<rparr>),
     streams = (\<lambda>_. \<lparr>stream_pos = 0, stream_disk = 0x100000\<rparr>), stack_mem = (\<lambda>_. 0),
     hw = \<lparr>sim_regs = (\<lambda>_. 0), sim_words = [], sim_busy = 0\<rparr>, fat16_fs = 0x200000,
     filesystems = 0x200000 # replicate 11 0, file_descriptors = 0x10000 # replicate 511 0\<rparr>"

text \<open>
  When only the last of the 512 slots is free, a file gets the number 512; every operation on that
  number fails with its error and changes nothing, so the slot can never be released.
\<close>

theorem descriptor_512_lost:
  assumes "length (file_descriptors s) = 512" "\<forall>k < 511. file_descriptors s ! k \<noteq> NULL"
    "file_descriptors s ! 511 = NULL"
  shows "\<exists>desc s'. file_new_descriptor s = (0, desc, s') \<and> sint (get_field desc fd_index s') = 512
    \<and> fread ops p 1 1 512 s' = Some (- EINVARG, s') \<and> fseek ops 512 off wh s' = Some (- EIO, s')
    \<and> fstat ops 512 st s' = Some (- EIO, s') \<and> fclose ops 512 s' = Some (- EIO, s')"
proof -
  have f: "first_free (file_descriptors s) 0 = Some 511" using assms by (simp add: first_free_Some)
  obtain desc s1 where k: "kzalloc sizeof_file_descriptor s = (desc, s1)" by fastforce
  let ?s = "(set_field desc fd_index 512 s1)\<lparr>file_descriptors := (file_descriptors s1)[511 := desc]\<rparr>"
  have "file_new_descriptor s = (0, desc, ?s)" using f k by (simp add: file_new_descriptor_def set_field_def)
  moreover have "get_field desc fd_index ?s = 512" by (simp add: get_field_fds get_set_field fd_offsets)
  ultimately show ?thesis
    by (simp add: fread_def fseek_def fstat_def fclose_def file_get_descriptor_def ALPHAOS_MAX_FILEDESCRIPTORS_def)
qed

text \<open>
  C20: \<open>fclose\<close> on an open file of the FAT16 driver returns 0, clears its slot and gives back exactly the
  four allocations of the file: descriptor, driver descriptor, item and directory entry.
\<close>

theorem fclose_releases:
  assumes "kheap_ok s" "open_file s fd desc priv item ritem"
  shows "\<exists>s'. fclose (\<lambda>_. fat16_ops bus) fd s = Some (0, s')
    \<and> freed (s\<lparr>file_descriptors := (file_descriptors s)[nat (fd - 1) := NULL]\<rparr>) {desc, priv, item, ritem} s'"
  by (rule fclose_law [OF assms]) simp

lemma file_demo_open: "kheap_ok file_demo" "open_file file_demo 1 0x10000 0x11000 0x12000 0x13000"
proof -
  have t: "table_bytes (kernel_heap file_demo) (kmem file_demo) = [0x41, 0x41, 0x41, 0x41]"
    by (simp add: table_bytes_def file_demo_def file_mem_def bytes_at_def upt_rec)
  show "kheap_ok file_demo"
    unfolding kheap_ok_def heap_ok_def t
    by (simp add: heap_layout_def file_demo_def heap_blocks_def disjoint_ranges_unat wf_table_def)
  have "klive file_demo 0x10000 = Some 1" "klive file_demo 0x11000 = Some 1" "klive file_demo 0x12000 = Some 1"
    "klive file_demo 0x13000 = Some 1"
    unfolding klive_def heap_live_def t by (simp_all add: live_blocks_def file_demo_def)
  then show "open_file file_demo 1 0x10000 0x11000 0x12000 0x13000"
    by (simp add: open_file_def)
      (simp add: file_demo_def file_mem_def get_field_def word_at_def load32_def fd_offsets fat_offsets FAT_ITEM_TYPE_FILE_def)
qed

theorem fclose_releases_witness:
  "\<exists>s'. fclose (\<lambda>_. fat16_ops (sim_bus (\<lambda>_. 0))) 1 file_demo = Some (0, s') \<and> file_descriptors s' ! 0 = NULL
     \<and> klive s' 0x11000 = None"
proof -
  obtain s' where "fclose (\<lambda>_. fat16_ops (sim_bus (\<lambda>_. 0))) 1 file_demo = Some (0, s')"
    "freed (file_demo\<lparr>file_descriptors := (file_descriptors file_demo)[0 := NULL]\<rparr>) {0x10000, 0x11000, 0x12000, 0x13000} s'"
    using fclose_releases [OF file_demo_open, of "sim_bus (\<lambda>_. 0)"] by auto
  then show ?thesis by (auto simp: freed_def file_demo_def dest: arg_cong [of _ _ file_descriptors])
qed

theorem descriptor_512_lost_witness:
  "\<exists>desc s'. file_new_descriptor (file_demo\<lparr>file_descriptors := replicate 511 1 @ [0]\<rparr>) = (0, desc, s')
     \<and> fclose (\<lambda>_. fat16_ops (sim_bus (\<lambda>_. 0))) 512 s' = Some (- EIO, s')"
  using descriptor_512_lost [of "file_demo\<lparr>file_descriptors := replicate 511 1 @ [0]\<rparr>"
    "\<lambda>_. fat16_ops (sim_bus (\<lambda>_. 0))" 0 0 0 0] by (auto simp: nth_append)

end
