(* ===== verification/Elf.thy ===== *)
theory Elf
  imports File
begin

text \<open>
  The ELF loader, \<^verbatim>\<open>src/src/loader/formats/elf.h\<close>, \<^verbatim>\<open>elf.c\<close> and
  \<^verbatim>\<open>elfloader.c\<close>: a file is read whole into kernel memory, its header is checked, and the
  loadable segments give the range of the image. Headers are read at the packed offsets of the
  C declarations.
\<close>

section \<open>Data\<close>

definition PF_W :: u32 where [os_defs]: "PF_W = 0x02"
definition PT_LOAD :: u32 where [os_defs]: "PT_LOAD = 1"
definition ET_EXEC :: u16 where [os_defs]: "ET_EXEC = 2"
definition EI_CLASS :: addr where [os_defs]: "EI_CLASS = 4"
definition EI_DATA :: addr where [os_defs]: "EI_DATA = 5"
definition ELFCLASSNONE :: u8 where [os_defs]: "ELFCLASSNONE = 0"
definition ELFCLASS32 :: u8 where [os_defs]: "ELFCLASS32 = 1"
definition ELFDATANONE :: u8 where [os_defs]: "ELFDATANONE = 0"
definition ELFDATA2LSB :: u8 where [os_defs]: "ELFDATA2LSB = 1"
definition ALPHAOS_PROGRAM_VIRTUAL_ADDRESS :: addr where [os_defs]: "ALPHAOS_PROGRAM_VIRTUAL_ADDRESS = 0x400000"

text \<open>\<open>struct elf_header\<close>.\<close>

definition e_type :: "mem \<Rightarrow> addr \<Rightarrow> u16" where "e_type m h = load16 m (h + 16)"
definition e_entry :: "mem \<Rightarrow> addr \<Rightarrow> u32" where "e_entry m h = load32 m (h + 24)"
definition e_phoff :: "mem \<Rightarrow> addr \<Rightarrow> u32" where "e_phoff m h = load32 m (h + 28)"
definition e_shoff :: "mem \<Rightarrow> addr \<Rightarrow> u32" where "e_shoff m h = load32 m (h + 32)"
definition e_phnum :: "mem \<Rightarrow> addr \<Rightarrow> u16" where "e_phnum m h = load16 m (h + 44)"
definition e_shstrndx :: "mem \<Rightarrow> addr \<Rightarrow> u16" where "e_shstrndx m h = load16 m (h + 50)"

text \<open>\<open>struct elf32_phdr\<close>: eight words.\<close>

definition sizeof_phdr :: u32 where "sizeof_phdr = 32"
definition p_type :: "mem \<Rightarrow> addr \<Rightarrow> u32" where "p_type m p = word_at m p 0"
definition p_offset :: "mem \<Rightarrow> addr \<Rightarrow> u32" where "p_offset m p = word_at m p 1"
definition p_vaddr :: "mem \<Rightarrow> addr \<Rightarrow> u32" where "p_vaddr m p = word_at m p 2"
definition p_paddr :: "mem \<Rightarrow> addr \<Rightarrow> u32" where "p_paddr m p = word_at m p 3"
definition p_filesz :: "mem \<Rightarrow> addr \<Rightarrow> u32" where "p_filesz m p = word_at m p 4"
definition p_memsz :: "mem \<Rightarrow> addr \<Rightarrow> u32" where "p_memsz m p = word_at m p 5"
definition p_flags :: "mem \<Rightarrow> addr \<Rightarrow> u32" where "p_flags m p = word_at m p 6"

text \<open>\<open>struct elf32_shdr\<close>: ten words.\<close>

definition sizeof_shdr :: u32 where "sizeof_shdr = 40"
definition sh_offset :: "mem \<Rightarrow> addr \<Rightarrow> u32" where "sh_offset m p = word_at m p 4"

text \<open>Word offsets of \<open>struct elf_file\<close>, behind its file name of 108 bytes, and of \<open>struct file_stat\<close>.\<close>

definition ef_in_memory_size :: u32 where "ef_in_memory_size = 27"
definition ef_elf_memory :: u32 where "ef_elf_memory = 28"
definition ef_virtual_base :: u32 where "ef_virtual_base = 29"
definition ef_virtual_end :: u32 where "ef_virtual_end = 30"
definition ef_phys_base :: u32 where "ef_phys_base = 31"
definition ef_phys_end :: u32 where "ef_phys_end = 32"
definition sizeof_elf_file :: u32 where "sizeof_elf_file = 132"
definition stat_filesize :: u32 where "stat_filesize = 1"

lemmas ef_offsets = ef_in_memory_size_def ef_elf_memory_def ef_virtual_base_def ef_virtual_end_def
  ef_phys_base_def ef_phys_end_def

text \<open>
  \<open>kernel_stack\<close> is the address below which the kernel keeps the local variables of the calls in
  progress that are passed by address; each of them has its own place.
\<close>

record 'd elf_state = "'d file_state" +
  kernel_stack :: addr

definition stat_local :: "('d, 'a) elf_state_scheme \<Rightarrow> addr" where "stat_local s = kernel_stack s - 8"

section \<open>elf.c\<close>

definition elf_get_entry_ptr :: "mem \<Rightarrow> addr \<Rightarrow> addr" where "elf_get_entry_ptr m header = e_entry m header"
definition elf_get_entry :: "mem \<Rightarrow> addr \<Rightarrow> u32" where "elf_get_entry m header = e_entry m header"

section \<open>elfloader.c: the headers\<close>

definition elf_signature :: "u8 list" where "elf_signature = 0x7F # ascii ''ELF''"

definition elf_valid_signature :: "mem \<Rightarrow> addr \<Rightarrow> bool" where
  "elf_valid_signature m buf \<longleftrightarrow> memcmp m buf (buffer elf_signature) 0 4 = 0"

definition elf_valid_class :: "mem \<Rightarrow> addr \<Rightarrow> bool" where
  "elf_valid_class m header \<longleftrightarrow> m (header + EI_CLASS) = ELFCLASSNONE \<or> m (header + EI_CLASS) = ELFCLASS32"

definition elf_valid_encoding :: "mem \<Rightarrow> addr \<Rightarrow> bool" where
  "elf_valid_encoding m header \<longleftrightarrow> m (header + EI_DATA) = ELFDATANONE \<or> m (header + EI_DATA) = ELFDATA2LSB"

definition elf_is_executable :: "mem \<Rightarrow> addr \<Rightarrow> bool" where
  "elf_is_executable m header \<longleftrightarrow> e_type m header = ET_EXEC \<and> e_entry m header \<ge> ALPHAOS_PROGRAM_VIRTUAL_ADDRESS"

definition elf_has_program_header :: "mem \<Rightarrow> addr \<Rightarrow> bool" where
  "elf_has_program_header m header \<longleftrightarrow> e_phoff m header \<noteq> 0"

definition elf_memory :: "addr \<Rightarrow> 'a kheap_state_scheme \<Rightarrow> addr" where
  "elf_memory file s = get_field file ef_elf_memory s"

definition elf_header :: "addr \<Rightarrow> 'a kheap_state_scheme \<Rightarrow> addr" where
  "elf_header file s = get_field file ef_elf_memory s"

definition elf_sheader :: "mem \<Rightarrow> addr \<Rightarrow> addr" where
  "elf_sheader m header = header + e_shoff m header"

definition elf_pheader :: "mem \<Rightarrow> addr \<Rightarrow> addr" where
  "elf_pheader m header = (if e_phoff m header = 0 then NULL else header + e_phoff m header)"

definition elf_program_header :: "mem \<Rightarrow> addr \<Rightarrow> nat \<Rightarrow> addr" where
  "elf_program_header m header index = elf_pheader m header + of_nat index * sizeof_phdr"

definition elf_section :: "mem \<Rightarrow> addr \<Rightarrow> nat \<Rightarrow> addr" where
  "elf_section m header index = elf_sheader m header + of_nat index * sizeof_shdr"

definition elf_phdr_phys_address :: "addr \<Rightarrow> addr \<Rightarrow> 'a kheap_state_scheme \<Rightarrow> addr" where
  "elf_phdr_phys_address file phdr s = elf_memory file s + p_offset (kmem s) phdr"

definition elf_str_table :: "mem \<Rightarrow> addr \<Rightarrow> addr" where
  "elf_str_table m header = header + sh_offset m (elf_section m header (unat (e_shstrndx m header)))"

definition elf_virtual_base :: "addr \<Rightarrow> 'a kheap_state_scheme \<Rightarrow> addr" where
  "elf_virtual_base file s = get_field file ef_virtual_base s"
definition elf_virtual_end :: "addr \<Rightarrow> 'a kheap_state_scheme \<Rightarrow> addr" where
  "elf_virtual_end file s = get_field file ef_virtual_end s"
definition elf_phys_base :: "addr \<Rightarrow> 'a kheap_state_scheme \<Rightarrow> addr" where
  "elf_phys_base file s = get_field file ef_phys_base s"
definition elf_phys_end :: "addr \<Rightarrow> 'a kheap_state_scheme \<Rightarrow> addr" where
  "elf_phys_end file s = get_field file ef_phys_end s"

definition elf_validate_loaded :: "mem \<Rightarrow> addr \<Rightarrow> int" where
  "elf_validate_loaded m header =
     (if elf_valid_signature m header \<and> elf_valid_class m header \<and> elf_valid_encoding m header
         \<and> elf_has_program_header m header then ALPHAOS_ALL_OK else - EINFORMAT)"

section \<open>elfloader.c: the segments\<close>

definition elf_process_phdr_pt_load :: "addr \<Rightarrow> addr \<Rightarrow> 'a kheap_state_scheme \<Rightarrow> int \<times> 'a kheap_state_scheme" where
  "elf_process_phdr_pt_load elf_file phdr s =
     (let s = (if get_field elf_file ef_virtual_base s \<ge> p_vaddr (kmem s) phdr
                  \<or> get_field elf_file ef_virtual_base s = 0
               then let s = set_field elf_file ef_virtual_base (p_vaddr (kmem s) phdr) s in
                    set_field elf_file ef_phys_base (elf_memory elf_file s + p_offset (kmem s) phdr) s
               else s);
          end_virtual_address = p_paddr (kmem s) phdr + p_filesz (kmem s) phdr;
          s = (if get_field elf_file ef_virtual_end s \<le> end_virtual_address
                  \<or> get_field elf_file ef_virtual_end s = 0
               then let s = set_field elf_file ef_virtual_end end_virtual_address s in
                    set_field elf_file ef_phys_end
                      (elf_memory elf_file s + p_offset (kmem s) phdr + p_filesz (kmem s) phdr) s
               else s) in
      (0, s))"

definition elf_process_pheader :: "addr \<Rightarrow> addr \<Rightarrow> 'a kheap_state_scheme \<Rightarrow> int \<times> 'a kheap_state_scheme" where
  "elf_process_pheader elf_file phdr s =
     (if p_type (kmem s) phdr = PT_LOAD then elf_process_phdr_pt_load elf_file phdr s else (0, s))"

function elf_process_pheaders_loop ::
  "addr \<Rightarrow> addr \<Rightarrow> nat \<Rightarrow> int \<Rightarrow> 'a kheap_state_scheme \<Rightarrow> int \<times> 'a kheap_state_scheme" where
  "elf_process_pheaders_loop elf_file header i res s =
     (if i < unat (e_phnum (kmem s) header) then
        let phdr = elf_program_header (kmem s) header i;
            (res, s) = elf_process_pheader elf_file phdr s in
        if res < 0 then (res, s) else elf_process_pheaders_loop elf_file header (Suc i) res s
      else (res, s))"
  by pat_completeness auto
termination
proof (relation "measure (\<lambda>(elf_file, header, i, res, s). 65536 - i)", goal_cases)
  case (2 elf_file header i res s)
  have "unat (e_phnum (kmem s) header) < 65536" using unsigned_less [of "e_phnum (kmem s) header"] by simp
  then show ?case using 2(1) by simp
qed simp

declare elf_process_pheaders_loop.simps [simp del]

definition elf_process_pheaders :: "addr \<Rightarrow> 'a kheap_state_scheme \<Rightarrow> int \<times> 'a kheap_state_scheme" where
  "elf_process_pheaders elf_file s = elf_process_pheaders_loop elf_file (elf_header elf_file s) 0 0 s"

definition elf_process_loaded :: "addr \<Rightarrow> 'a kheap_state_scheme \<Rightarrow> int \<times> 'a kheap_state_scheme" where
  "elf_process_loaded elf_file s =
     (let header = elf_header elf_file s;
          res = elf_validate_loaded (kmem s) header in
      if res < 0 then (res, s) else elf_process_pheaders elf_file s)"

section \<open>elfloader.c: loading\<close>

text \<open>
  The result and \<open>*file_out\<close> afterwards. Every path goes to the label \<open>out\<close>, which closes the file
  (number 0 when it was not opened) and returns 0 whatever happened.
\<close>

definition elf_load ::
  "(addr \<Rightarrow> ('d, 'a) elf_state_scheme fs_ops) \<Rightarrow> addr \<Rightarrow> addr \<Rightarrow> ('d, 'a) elf_state_scheme \<Rightarrow>
   (int \<times> addr \<times> ('d, 'a) elf_state_scheme) option" where
  "elf_load ops filename file_out s = do {
     let (elf_file, s) = kzalloc sizeof_elf_file s;
     (res, s) \<leftarrow> fopen_r ops filename s;
     let fd = (if res \<le> 0 then 0 else res);
     (file_out, s) \<leftarrow>
       (if res \<le> 0 then Some (file_out, s)
        else do {
          (res, s) \<leftarrow> fstat ops fd (stat_local s) s;
          if res < 0 then Some (file_out, s)
          else do {
            let (p, s) = kzalloc (get_field (stat_local s) stat_filesize s) s;
            let s = set_field elf_file ef_elf_memory p s;
            (res, s) \<leftarrow> fread ops (get_field elf_file ef_elf_memory s)
              (get_field (stat_local s) stat_filesize s) 1 fd s;
            if res < 0 then Some (file_out, s)
            else do {
              let (res, s) = elf_process_loaded elf_file s;
              if res < 0 then Some (file_out, s) else Some (elf_file, s)
            }
          }
        });
     (res, s) \<leftarrow> fclose ops fd s;
     Some (0, file_out, s)
   }"

definition elf_close :: "addr \<Rightarrow> 'a kheap_state_scheme \<Rightarrow> 'a kheap_state_scheme" where
  "elf_close file s =
     (if file = NULL then s
      else
        let s = kfree (get_field file ef_elf_memory s) s in
        kfree file s)"

section \<open>The range of the image\<close>

definition seg_end :: "mem \<Rightarrow> addr \<Rightarrow> u32" where "seg_end m p = p_paddr m p + p_filesz m p"

text \<open>The loadable segments among the first \<open>n\<close> program headers.\<close>

definition segments :: "mem \<Rightarrow> addr \<Rightarrow> nat \<Rightarrow> addr list" where
  "segments m h n = filter (\<lambda>p. p_type m p = PT_LOAD) (map (elf_program_header m h) [0..<n])"

text \<open>
  \<open>image_range m em ps r\<close>: \<open>r\<close> holds the lowest address of the segments \<open>ps\<close>, the place in the
  file of a segment with that address, the highest end, and the end in the file of a segment with
  that end; all zero when there is no segment.
\<close>

definition image_range :: "mem \<Rightarrow> addr \<Rightarrow> addr list \<Rightarrow> u32 \<times> u32 \<times> u32 \<times> u32 \<Rightarrow> bool" where
  "image_range m em ps = (\<lambda>(vb, pb, ve, pe).
     if ps = [] then vb = 0 \<and> pb = 0 \<and> ve = 0 \<and> pe = 0
     else vb = Min (p_vaddr m ` set ps) \<and> (\<exists>p \<in> set ps. p_vaddr m p = vb \<and> pb = em + p_offset m p)
       \<and> ve = Max (seg_end m ` set ps) \<and> (\<exists>p \<in> set ps. seg_end m p = ve \<and> pe = em + p_offset m p + p_filesz m p))"

definition ef_range :: "addr \<Rightarrow> 'a kheap_state_scheme \<Rightarrow> u32 \<times> u32 \<times> u32 \<times> u32" where
  "ef_range f s = (get_field f ef_virtual_base s, get_field f ef_phys_base s, get_field f ef_virtual_end s,
     get_field f ef_phys_end s)"

definition range_step :: "mem \<Rightarrow> addr \<Rightarrow> addr \<Rightarrow> u32 \<times> u32 \<times> u32 \<times> u32 \<Rightarrow> u32 \<times> u32 \<times> u32 \<times> u32" where
  "range_step m em p = (\<lambda>(vb, pb, ve, pe).
     let (vb, pb) = (if vb \<ge> p_vaddr m p \<or> vb = 0 then (p_vaddr m p, em + p_offset m p) else (vb, pb));
         (ve, pe) = (if ve \<le> seg_end m p \<or> ve = 0 then (seg_end m p, em + p_offset m p + p_filesz m p) else (ve, pe)) in
     (vb, pb, ve, pe))"

lemma image_range_snoc:
  assumes "image_range m em ps r" "p_vaddr m p \<noteq> 0" "\<forall>q \<in> set ps. p_vaddr m q \<noteq> 0"
  shows "image_range m em (ps @ [p]) (range_step m em p r)"
proof -
  obtain vb pb ve pe where r: "r = (vb, pb, ve, pe)" by (cases r) auto
  show ?thesis
  proof (cases "ps = []")
    case True
    then show ?thesis using assms by (simp add: r image_range_def range_step_def)
  next
    case False
    note i = assms(1) [unfolded r image_range_def, simplified False, simplified]
    have "vb \<noteq> 0" using i assms(3) by auto
    moreover have "Min (insert (p_vaddr m p) (p_vaddr m ` set ps)) = min (p_vaddr m p) vb"
      "Max (insert (seg_end m p) (seg_end m ` set ps)) = max (seg_end m p) ve"
      using i False by simp_all
    ultimately show ?thesis using i by (auto simp: r image_range_def range_step_def min_def max_def)
  qed
qed

text \<open>One segment: only the record of the file changes.\<close>

abbreviation same_outside :: "addr \<Rightarrow> mem \<Rightarrow> mem \<Rightarrow> bool" where
  "same_outside f m m' \<equiv> \<forall>x. \<not> in_range f 132 x \<longrightarrow> m' x = m x"

lemma phdr_fields:
  "p_type m p = word_at m p 0" "p_offset m p = word_at m p 1" "p_vaddr m p = word_at m p 2"
  "p_paddr m p = word_at m p 3" "p_filesz m p = word_at m p 4"
  by (simp_all add: p_type_def p_offset_def p_vaddr_def p_paddr_def p_filesz_def)

lemma word_at_same:
  assumes "same_outside f m m'" "disjoint_ranges p (4 * k) f 132" "unat i < k" "k \<le> 2 ^ 30"
  shows "word_at m' p i = word_at m p i"
  unfolding word_at_def
proof (rule load32_cong)
  fix x assume "in_range (p + 4 * i) 4 x"
  then have "in_range p (4 * k) x" using assms(3,4) by (rule field_slot)
  then show "m' x = m x" using assms(1,2) by (simp add: disjoint_ranges_def)
qed

lemma set_ef_same: "unat i < 33 \<Longrightarrow> same_outside f m (kmem s) \<Longrightarrow> same_outside f m (kmem (set_field f i v s))"
  using set_field_outside [of f 33 _ i v s] by simp

lemma phdr_set_field:
  assumes "disjoint_ranges p 32 f 132" "unat i < 33"
  shows "p_offset (kmem (set_field f i v s)) p = p_offset (kmem s) p"
    "p_vaddr (kmem (set_field f i v s)) p = p_vaddr (kmem s) p"
    "p_paddr (kmem (set_field f i v s)) p = p_paddr (kmem s) p"
    "p_filesz (kmem (set_field f i v s)) p = p_filesz (kmem s) p"
  unfolding phdr_fields using assms set_ef_same [where i = i and f = f and s = s and v = v and m = "kmem s"]
  by (intro word_at_same [where k = 8]; simp)+

lemma pt_load_range:
  assumes "disjoint_ranges p 32 f 132"
  shows "ef_range f (snd (elf_process_phdr_pt_load f p s)) = range_step (kmem s) (elf_memory f s) p (ef_range f s)"
    "elf_memory f (snd (elf_process_phdr_pt_load f p s)) = elf_memory f s"
  using assms
  by (simp_all add: elf_process_phdr_pt_load_def ef_range_def range_step_def Let_def phdr_set_field get_set_field
      elf_memory_def ef_offsets seg_end_def)

lemma pt_load_same:
  "same_outside f m (kmem s) \<Longrightarrow> same_outside f m (kmem (snd (elf_process_phdr_pt_load f p s)))"
  by (simp add: elf_process_phdr_pt_load_def Let_def set_ef_same ef_offsets)

text \<open>The invariant of the loop over the program headers.\<close>

definition headers_apart :: "mem \<Rightarrow> addr \<Rightarrow> addr \<Rightarrow> bool" where
  "headers_apart m h f \<longleftrightarrow> disjoint_ranges h 52 f 132
     \<and> (\<forall>i < unat (e_phnum m h). disjoint_ranges (elf_program_header m h i) 32 f 132)"

lemma header_same:
  assumes "same_outside f m m'" "disjoint_ranges h 52 f 132"
  shows "e_phnum m' h = e_phnum m h" "elf_program_header m' h i = elf_program_header m h i"
proof -
  have e: "m' x = m x" if "in_range h 52 x" for x
    using assms that by (simp add: disjoint_ranges_def)
  have r: "m' (h + of_nat j) = m (h + of_nat j)" if "j < 52" for j
    using that e [of "h + of_nat j"] in_range_nth [of j 52 h] by simp
  show "e_phnum m' h = e_phnum m h"
    unfolding e_phnum_def using r [of 44] r [of 45] by (simp add: load16_def add.assoc)
  have "e_phoff m' h = e_phoff m h"
    unfolding e_phoff_def using r [of 28] r [of 29] r [of 30] r [of 31] by (simp add: load32_def add.assoc)
  then show "elf_program_header m' h i = elf_program_header m h i"
    by (simp add: elf_program_header_def elf_pheader_def)
qed

lemma pheaders_loop_law:
  assumes "headers_apart m h f" "\<forall>p \<in> set (segments m h (unat (e_phnum m h))). p_vaddr m p \<noteq> 0"
    "same_outside f m (kmem s)" "elf_memory f s = em" "image_range m em (segments m h i) (ef_range f s)"
    "i \<le> unat (e_phnum m h)"
  shows "\<exists>s'. elf_process_pheaders_loop f h i 0 s = (0, s') \<and> same_outside f m (kmem s') \<and> elf_memory f s' = em
    \<and> image_range m em (segments m h (unat (e_phnum m h))) (ef_range f s')"
  using assms(3-6)
proof (induction "unat (e_phnum m h) - i" arbitrary: i s)
  case 0
  have "e_phnum (kmem s) h = e_phnum m h" using header_same(1) [OF 0(2)] assms(1) by (simp add: headers_apart_def)
  then show ?case using 0 by (subst elf_process_pheaders_loop.simps) simp
next
  case (Suc n)
  let ?p = "elf_program_header m h i"
  note h = header_same [OF Suc.prems(1), of h] assms(1) [unfolded headers_apart_def]
  have i: "i < unat (e_phnum m h)" using Suc.hyps(2) by simp
  then have d: "disjoint_ranges ?p 32 f 132" using h by blast
  have w: "word_at (kmem s) ?p k = word_at m ?p k" if "unat k < 8" for k
    using word_at_same [OF Suc.prems(1), of ?p 8 k] d that by simp
  let ?s1 = "snd (elf_process_pheader f ?p s)"
  have r: "elf_process_pheader f ?p s = (0, ?s1)"
    by (simp add: elf_process_pheader_def elf_process_phdr_pt_load_def Let_def)
  have s1: "same_outside f m (kmem ?s1)" "elf_memory f ?s1 = em"
    using pt_load_same [OF Suc.prems(1)] pt_load_range(2) [OF d, of s] Suc.prems(1,2)
    by (simp_all add: elf_process_pheader_def)
  have step: "range_step (kmem s) em ?p r = range_step m em ?p r" for r
    using w by (simp add: range_step_def phdr_fields seg_end_def split: prod.split)
  have segs: "segments m h (Suc i) = segments m h i @ (if p_type m ?p = PT_LOAD then [?p] else [])"
    by (simp add: segments_def)
  have sub: "set (segments m h (Suc i)) \<subseteq> set (segments m h (unat (e_phnum m h)))"
    using i by (auto simp: segments_def)
  have "image_range m em (segments m h (Suc i)) (ef_range f ?s1)"
  proof (cases "p_type m ?p = PT_LOAD")
    case True
    have "image_range m em (segments m h i @ [?p]) (range_step m em ?p (ef_range f s))"
      using Suc.prems(3) assms(2) sub segs True by (intro image_range_snoc) auto
    moreover have "ef_range f ?s1 = range_step m em ?p (ef_range f s)"
      using True w pt_load_range(1) [OF d, of s] Suc.prems(2) step by (simp add: elf_process_pheader_def phdr_fields)
    ultimately show ?thesis using segs True by simp
  qed (use Suc.prems(3) w segs in \<open>simp add: elf_process_pheader_def phdr_fields\<close>)
  then have "\<exists>s'. elf_process_pheaders_loop f h (Suc i) 0 ?s1 = (0, s') \<and> same_outside f m (kmem s') \<and> elf_memory f s' = em
      \<and> image_range m em (segments m h (unat (e_phnum m h))) (ef_range f s')"
    using s1 i Suc.hyps(2) by (intro Suc.hyps(1)) simp_all
  then show ?case
    using i h r by (subst elf_process_pheaders_loop.simps) (cases "elf_process_pheader f ?p s"; simp)
qed

section \<open>Properties\<close>

text \<open>
  For a valid header with non-zero segment addresses, in memory apart from the fresh record of the
  file, processing succeeds and records the range of the image: the lowest virtual address of the
  loadable segments and the highest \<open>p_paddr + p_filesz\<close>, each with the matching place in the file.
  Nothing outside the record is written.
\<close>

theorem elf_process_loaded_range:
  assumes "elf_validate_loaded (kmem s) (elf_memory f s) = ALPHAOS_ALL_OK" "headers_apart (kmem s) (elf_memory f s) f"
    "ef_range f s = (0, 0, 0, 0)"
    "\<forall>p \<in> set (segments (kmem s) (elf_memory f s) (unat (e_phnum (kmem s) (elf_memory f s)))). p_vaddr (kmem s) p \<noteq> 0"
  shows "\<exists>s'. elf_process_loaded f s = (0, s') \<and> (\<forall>x. \<not> in_range f 132 x \<longrightarrow> kmem s' x = kmem s x)
    \<and> image_range (kmem s) (elf_memory f s)
        (segments (kmem s) (elf_memory f s) (unat (e_phnum (kmem s) (elf_memory f s)))) (ef_range f s')"
proof -
  have "image_range (kmem s) (elf_memory f s) (segments (kmem s) (elf_memory f s) 0) (ef_range f s)"
    using assms(3) by (simp add: image_range_def segments_def)
  from pheaders_loop_law [OF assms(2,4) _ refl this] assms(1) show ?thesis
    by (auto simp: elf_process_loaded_def elf_process_pheaders_def elf_header_def elf_memory_def ALPHAOS_ALL_OK_def)
qed

text \<open>A file with two segments for the witness: record at \<open>0x5000\<close>, file at \<open>0x6000\<close>.\<close>

definition elf_mem :: mem where
  "elf_mem = (\<lambda>_. 0)(0x5071 := 0x60, 0x6000 := 0x7F, 0x6001 := 0x45, 0x6002 := 0x4C, 0x6003 := 0x46, 0x6004 := 1,
     0x6005 := 1, 0x601C := 52, 0x602C := 2,
     0x6034 := 1, 0x6039 := 0x20, 0x603D := 0x10, 0x603E := 0x40, 0x6041 := 0x10, 0x6042 := 0x40, 0x6044 := 8,
     0x6054 := 1, 0x6059 := 0x10, 0x605E := 0x40, 0x6062 := 0x40, 0x6064 := 16)"

theorem elf_process_loaded_range_witness:
  "\<exists>s'. elf_process_loaded 0x5000 \<lparr>kmem = elf_mem, kernel_heap = small_heap\<rparr> = (0, s')
     \<and> elf_virtual_base 0x5000 s' = 0x400000 \<and> elf_virtual_end 0x5000 s' = 0x401008"
proof -
  let ?s = "\<lparr>kmem = elf_mem, kernel_heap = small_heap\<rparr>"
  have em: "elf_memory 0x5000 ?s = 0x6000"
    by (simp add: elf_memory_def get_field_def word_at_def load32_def ef_offsets elf_mem_def)
  have four: "4 = Suc (Suc (Suc (Suc 0)))" by simp
  have b: "buffer elf_signature 0 = 0x7F" "buffer elf_signature 1 = 0x45" "buffer elf_signature 2 = 0x4C"
    "buffer elf_signature 3 = 0x46"
    by (simp_all add: buffer_def elf_signature_def ascii_def of_char_def)
  have "elf_valid_signature elf_mem 0x6000"
    unfolding elf_valid_signature_def four by (simp add: b elf_mem_def)
  then have valid: "elf_validate_loaded elf_mem 0x6000 = ALPHAOS_ALL_OK"
    by (simp add: elf_validate_loaded_def elf_valid_class_def elf_valid_encoding_def elf_has_program_header_def
        e_phoff_def load32_def elf_mem_def EI_CLASS_def EI_DATA_def ELFCLASS32_def ELFDATA2LSB_def)
  have num: "unat (e_phnum elf_mem 0x6000) = 2" by (simp add: e_phnum_def load16_def elf_mem_def)
  have ph: "elf_program_header elf_mem 0x6000 0 = 0x6034" "elf_program_header elf_mem 0x6000 1 = 0x6054"
    by (simp_all add: elf_program_header_def elf_pheader_def e_phoff_def load32_def elf_mem_def sizeof_phdr_def)
  have apart: "headers_apart elf_mem 0x6000 0x5000"
    unfolding headers_apart_def num using ph disjoint_ranges_sym [OF disjoint_ranges_unat]
    by (auto simp: less_2_cases_iff)
  have ty: "p_type elf_mem 0x6034 = 1" "p_type elf_mem 0x6054 = 1" "p_vaddr elf_mem 0x6034 = 0x401000"
    "p_vaddr elf_mem 0x6054 = 0x400000" "seg_end elf_mem 0x6034 = 0x401008" "seg_end elf_mem 0x6054 = 0x400010"
    by (simp_all add: phdr_fields seg_end_def word_at_def load32_def elf_mem_def)
  have segs: "segments elf_mem 0x6000 2 = [0x6034, 0x6054]"
    using ph ty by (simp add: segments_def upt_rec PT_LOAD_def)
  have zero: "ef_range 0x5000 ?s = (0, 0, 0, 0)"
    by (simp add: ef_range_def get_field_def word_at_def load32_def elf_mem_def ef_offsets)
  from elf_process_loaded_range [of ?s "0x5000"] valid apart zero segs ty num
  show ?thesis
    by (auto simp: em image_range_def ef_range_def elf_virtual_base_def elf_virtual_end_def split: prod.splits)
qed

end
