(* ===== verification/Task.thy ===== *)
theory Task
  imports Elf
begin

text \<open>
  Tasks, \<^verbatim>\<open>src/src/task/task.c\<close> and \<^verbatim>\<open>task.h\<close>: each task is a page of kernel
  memory with its saved registers, linked into a list that the scheduler walks round. Code of the
  kernel that runs under a task's page directory reads and writes through that directory
  (\<open>load_virtual\<close>, \<open>store_virtual\<close>); page faults are not modelled. Segment registers
  (\<open>user_registers\<close>, \<open>kernel_registers\<close>) have no counterpart in the state. \<open>task_return\<close> leaves the
  kernel: functions that end with it give the address of the registers that user code resumes with.
\<close>

section \<open>Data\<close>

definition USER_DATA_SEGMENT :: u32 where [os_defs]: "USER_DATA_SEGMENT = 0x23"
definition USER_CODE_SEGMENT :: u32 where [os_defs]: "USER_CODE_SEGMENT = 0x1B"
definition ALPHAOS_USER_PROGRAM_STACK_SIZE :: u32 where [os_defs]: "ALPHAOS_USER_PROGRAM_STACK_SIZE = 1024 * 16"
definition ALPHAOS_PROGRAM_VIRTUAL_STACK_ADDRESS_START :: addr where [os_defs]:
  "ALPHAOS_PROGRAM_VIRTUAL_STACK_ADDRESS_START = 0x3FF000"
definition ALPHAOS_PROGRAM_VIRTUAL_STACK_ADDRESS_END :: addr where [os_defs]:
  "ALPHAOS_PROGRAM_VIRTUAL_STACK_ADDRESS_END = ALPHAOS_PROGRAM_VIRTUAL_STACK_ADDRESS_START - ALPHAOS_USER_PROGRAM_STACK_SIZE"
definition PROCESS_FILETYPE_ELF :: u8 where [os_defs]: "PROCESS_FILETYPE_ELF = 0"
definition PROCESS_FILETYPE_BINARY :: u8 where [os_defs]: "PROCESS_FILETYPE_BINARY = 1"

text \<open>Word offsets of \<open>struct task\<close>: the page directory, twelve registers, process, next and previous.\<close>

definition task_page_directory :: u32 where "task_page_directory = 0"
definition reg_edi :: u32 where "reg_edi = 1"
definition reg_esi :: u32 where "reg_esi = 2"
definition reg_ebp :: u32 where "reg_ebp = 3"
definition reg_ebx :: u32 where "reg_ebx = 4"
definition reg_edx :: u32 where "reg_edx = 5"
definition reg_ecx :: u32 where "reg_ecx = 6"
definition reg_eax :: u32 where "reg_eax = 7"
definition reg_ip :: u32 where "reg_ip = 8"
definition reg_cs :: u32 where "reg_cs = 9"
definition reg_flags :: u32 where "reg_flags = 10"
definition reg_esp :: u32 where "reg_esp = 11"
definition reg_ss :: u32 where "reg_ss = 12"
definition task_process :: u32 where "task_process = 13"
definition task_link_next :: u32 where "task_link_next = 14"
definition task_link_prev :: u32 where "task_link_prev = 15"
definition sizeof_task :: u32 where "sizeof_task = 64"
definition task_registers :: "addr \<Rightarrow> addr" where "task_registers task = task + 4"

lemmas reg_offsets = reg_edi_def reg_esi_def reg_ebp_def reg_ebx_def reg_edx_def reg_ecx_def reg_eax_def
  reg_ip_def reg_cs_def reg_flags_def reg_esp_def reg_ss_def
lemmas task_offsets = task_page_directory_def task_process_def task_link_next_def task_link_prev_def

text \<open>
  What the processor and \<open>pushad\<close> leave on the kernel stack at an interrupt (\<^verbatim>\<open>idt.h\<close>).
\<close>

record interrupt_frame =
  frame_edi :: u32
  frame_esi :: u32
  frame_ebp :: u32
  frame_reserved :: u32
  frame_ebx :: u32
  frame_edx :: u32
  frame_ecx :: u32
  frame_eax :: u32
  frame_ip :: u32
  frame_cs :: u32
  frame_flags :: u32
  frame_esp :: u32
  frame_ss :: u32

text \<open>Two fields of \<open>struct process\<close> that tasks read: the byte \<open>file_type\<close> and the word \<open>elf_file\<close>.\<close>

definition process_file_type :: "mem \<Rightarrow> addr \<Rightarrow> u8" where "process_file_type m p = m (p + 8308)"
definition process_ptr :: u32 where "process_ptr = 2078"

record 'd task_state = "'d elf_state" +
  current_task :: addr
  task_tail :: addr
  task_head :: addr

section \<open>Memory under a page directory\<close>

definition load_virtual :: "'a paging_state_scheme \<Rightarrow> addr \<Rightarrow> u8" where
  "load_virtual s va = kmem s (paging_get_physical_address (current_directory s) va s)"

definition store_virtual :: "addr \<Rightarrow> u8 \<Rightarrow> 'a paging_state_scheme \<Rightarrow> 'a paging_state_scheme" where
  "store_virtual va v s = s\<lparr>kmem := (kmem s)(paging_get_physical_address (current_directory s) va s := v)\<rparr>"

text \<open>\<open>strncpy\<close> through the directory.\<close>

function strncpy_virtual_from :: "addr \<Rightarrow> addr \<Rightarrow> int \<Rightarrow> nat \<Rightarrow> 'a paging_state_scheme \<Rightarrow> 'a paging_state_scheme" where
  "strncpy_virtual_from dest src n i s =
     (if int i < n - 1 \<and> load_virtual s (src + of_nat i) \<noteq> 0
      then strncpy_virtual_from dest src n (Suc i) (store_virtual (dest + of_nat i) (load_virtual s (src + of_nat i)) s)
      else store_virtual (dest + of_nat i) 0 s)"
  by pat_completeness auto
termination by (relation "measure (\<lambda>(dest, src, n, i, s). nat (n - int i))") auto

declare strncpy_virtual_from.simps [simp del]

definition strncpy_virtual :: "addr \<Rightarrow> addr \<Rightarrow> int \<Rightarrow> 'a paging_state_scheme \<Rightarrow> 'a paging_state_scheme" where
  "strncpy_virtual dest src n s = strncpy_virtual_from dest src n 0 s"

text \<open>\<open>kernel_page\<close> of \<^verbatim>\<open>kernel.c\<close>.\<close>

definition kernel_page :: "'a paging_state_scheme \<Rightarrow> 'a paging_state_scheme" where
  "kernel_page s = paging_switch (kernel_chunk s) s"

section \<open>task.c: the list of tasks\<close>

definition task_init :: "addr \<Rightarrow> addr \<Rightarrow> 'a kheap_state_scheme \<Rightarrow> int \<times> 'a kheap_state_scheme" where
  "task_init task process s =
     (let s = s\<lparr>kmem := memset (kmem s) task 0 (unat sizeof_task)\<rparr>;
          (chunk, s) = paging_new_4gb (ucast (PAGING_IS_PRESENT OR PAGING_ACCESS_FROM_ALL)) s;
          s = set_field task task_page_directory chunk s in
      if get_field task task_page_directory s = NULL then (- EIO, s)
      else
        let s = set_field task reg_ip ALPHAOS_PROGRAM_VIRTUAL_ADDRESS s;
            s = (if process_file_type (kmem s) process = PROCESS_FILETYPE_ELF
                 then set_field task reg_ip (e_entry (kmem s) (elf_header (get_field process process_ptr s) s)) s
                 else s);
            s = set_field task reg_ss USER_DATA_SEGMENT s;
            s = set_field task reg_cs USER_CODE_SEGMENT s;
            s = set_field task reg_esp ALPHAOS_PROGRAM_VIRTUAL_STACK_ADDRESS_START s;
            s = set_field task task_process process s in
        (0, s))"

definition task_get_next :: "('d, 'a) task_state_scheme \<Rightarrow> addr" where
  "task_get_next s =
     (if get_field (current_task s) task_link_next s = NULL then task_head s
      else get_field (current_task s) task_link_next s)"

definition task_list_remove :: "addr \<Rightarrow> ('d, 'a) task_state_scheme \<Rightarrow> ('d, 'a) task_state_scheme" where
  "task_list_remove task s =
     (let s = (if get_field task task_link_prev s \<noteq> NULL
               then set_field (get_field task task_link_prev s) task_link_next (get_field task task_link_next s) s
               else s);
          s = (if task = task_head s then s\<lparr>task_head := get_field task task_link_next s\<rparr> else s);
          s = (if task = task_tail s then s\<lparr>task_tail := get_field task task_link_prev s\<rparr> else s);
          s = (if task = current_task s then s\<lparr>current_task := task_get_next s\<rparr> else s) in
      s)"

definition task_free :: "addr \<Rightarrow> ('d, 'a) task_state_scheme \<Rightarrow> int \<times> ('d, 'a) task_state_scheme" where
  "task_free task s =
     (let s = paging_free_4gb (get_field task task_page_directory s) s;
          s = task_list_remove task s in
      (0, kfree task s))"

definition task_new :: "addr \<Rightarrow> ('d, 'a) task_state_scheme \<Rightarrow> addr \<times> ('d, 'a) task_state_scheme" where
  "task_new process s =
     (let (task, s) = kzalloc sizeof_task s in
      if task = NULL then (ERROR (- ENOMEM), s)
      else
        let (res, s) = task_init task process s in
        if res \<noteq> ALPHAOS_ALL_OK
        then if res < 0 then (ERROR res, snd (task_free task s)) else (task, s)
        else if task_head s = NULL
        then (task, s\<lparr>task_head := task, task_tail := task, current_task := task\<rparr>)
        else
          let s = set_field (task_tail s) task_link_next task s;
              s = set_field task task_link_prev (task_tail s) s in
          (task, s\<lparr>task_tail := task\<rparr>))"

section \<open>task.c: switching\<close>

definition task_switch :: "addr \<Rightarrow> ('d, 'a) task_state_scheme \<Rightarrow> int \<times> ('d, 'a) task_state_scheme" where
  "task_switch task s =
     (let s = s\<lparr>current_task := task\<rparr> in (0, paging_switch (get_field task task_page_directory s) s))"

text \<open>Without a task to run the kernel panics. Otherwise user code resumes with the registers given.\<close>

definition task_next :: "('d, 'a) task_state_scheme \<Rightarrow> (addr \<times> ('d, 'a) task_state_scheme) option" where
  "task_next s =
     (let next_task = task_get_next s in
      if next_task = NULL then None
      else let (res, s) = task_switch next_task s in Some (task_registers next_task, s))"

definition task_run_first_ever_task ::
  "('d, 'a) task_state_scheme \<Rightarrow> (addr \<times> ('d, 'a) task_state_scheme) option" where
  "task_run_first_ever_task s =
     (if current_task s = NULL then None
      else let (res, s) = task_switch (task_head s) s in Some (task_registers (task_head s), s))"

definition task_page :: "('d, 'a) task_state_scheme \<Rightarrow> int \<times> ('d, 'a) task_state_scheme" where
  "task_page s = (let (res, s) = task_switch (current_task s) s in (0, s))"

definition task_page_task :: "addr \<Rightarrow> ('d, 'a) task_state_scheme \<Rightarrow> int \<times> ('d, 'a) task_state_scheme" where
  "task_page_task task s = (0, paging_switch (get_field task task_page_directory s) s)"

definition task_save_state :: "addr \<Rightarrow> interrupt_frame \<Rightarrow> 'a kheap_state_scheme \<Rightarrow> 'a kheap_state_scheme" where
  "task_save_state task frame s =
     (let s = set_field task reg_ip (frame_ip frame) s;
          s = set_field task reg_cs (frame_cs frame) s;
          s = set_field task reg_flags (frame_flags frame) s;
          s = set_field task reg_esp (frame_esp frame) s;
          s = set_field task reg_ss (frame_ss frame) s;
          s = set_field task reg_eax (frame_eax frame) s;
          s = set_field task reg_ebp (frame_ebp frame) s;
          s = set_field task reg_ebx (frame_ebx frame) s;
          s = set_field task reg_ecx (frame_ecx frame) s;
          s = set_field task reg_edi (frame_edi frame) s;
          s = set_field task reg_edx (frame_edx frame) s in
      set_field task reg_esi (frame_esi frame) s)"

definition task_current_save_state ::
  "interrupt_frame \<Rightarrow> ('d, 'a) task_state_scheme \<Rightarrow> ('d, 'a) task_state_scheme option" where
  "task_current_save_state frame s =
     (if current_task s = NULL then None else Some (task_save_state (current_task s) frame s))"

section \<open>task.c: the memory of a task\<close>

definition copy_string_from_task ::
  "addr \<Rightarrow> addr \<Rightarrow> addr \<Rightarrow> int \<Rightarrow> ('d, 'a) task_state_scheme \<Rightarrow> int \<times> ('d, 'a) task_state_scheme" where
  "copy_string_from_task task virtual physical max_len s =
     (if max_len \<ge> 4096 then (- EINVARG, s)
      else
        let (tmp, s) = kzalloc (word_of_int max_len) s in
        if tmp = NULL then (- ENOMEM, s)
        else
          let chunk = get_field task task_page_directory s;
              task_directory = paging_4gb_chunk_get_directory chunk s;
              old_entry = paging_get task_directory tmp s;
              (res, s) = paging_map chunk tmp tmp
                (PAGING_IS_WRITABLE OR PAGING_IS_PRESENT OR PAGING_ACCESS_FROM_ALL) s;
              s = paging_switch (get_field task task_page_directory s) s;
              s = strncpy_virtual tmp virtual max_len s;
              s = kernel_page s;
              (res, s) = paging_set task_directory tmp old_entry s in
          if res < 0 then (- EIO, kfree tmp s)
          else
            let s = s\<lparr>kmem := strncpy (kmem s) physical tmp max_len\<rparr> in
            (res, kfree tmp s))"

definition task_get_stack_item ::
  "addr \<Rightarrow> int \<Rightarrow> ('d, 'a) task_state_scheme \<Rightarrow> u32 \<times> ('d, 'a) task_state_scheme" where
  "task_get_stack_item task index s =
     (let sp_ptr = get_field task reg_esp s;
          (res, s) = task_page_task task s;
          result = load32 (load_virtual s) (sp_ptr + 4 * word_of_int index) in
      (result, kernel_page s))"

definition task_virtual_address_to_physical :: "addr \<Rightarrow> addr \<Rightarrow> ('d, 'a) task_state_scheme \<Rightarrow> addr" where
  "task_virtual_address_to_physical task virtual_address s =
     paging_get_physical_address (paging_4gb_chunk_get_directory (get_field task task_page_directory s) s)
       virtual_address s"

section \<open>The list of tasks\<close>

text \<open>
  \<open>task_links s ts\<close>: the tasks \<open>ts\<close>, on distinct pages, are linked in this order from the head to the
  tail, forwards and backwards.
\<close>

definition task_links :: "('d, 'a) task_state_scheme \<Rightarrow> addr list \<Rightarrow> bool" where
  "task_links s ts \<longleftrightarrow> distinct ts \<and> NULL \<notin> set ts
     \<and> (\<forall>i < length ts. get_field (ts ! i) task_link_next s = (if Suc i < length ts then ts ! Suc i else NULL)
         \<and> get_field (ts ! i) task_link_prev s = (if i = 0 then NULL else ts ! (i - 1)))"

definition task_list :: "('d, 'a) task_state_scheme \<Rightarrow> addr list \<Rightarrow> bool" where
  "task_list s ts \<longleftrightarrow> task_links s ts \<and> ts \<noteq> [] \<and> task_head s = hd ts \<and> task_tail s = last ts"

lemma task_switch_state [simp]:
  "kmem (snd (task_switch t s)) = kmem s" "task_head (snd (task_switch t s)) = task_head s"
  "task_tail (snd (task_switch t s)) = task_tail s" "current_task (snd (task_switch t s)) = t"
  "kernel_heap (snd (task_switch t s)) = kernel_heap s"
  by (simp_all add: task_switch_def paging_switch_def paging_load_directory_def Let_def)

lemma task_list_kmem:
  "kmem s' = kmem s \<Longrightarrow> task_head s' = task_head s \<Longrightarrow> task_tail s' = task_tail s \<Longrightarrow>
   task_list s' ts = task_list s ts"
  by (simp add: task_list_def task_links_def get_field_def)

lemma task_set_field [simp]:
  "task_head (set_field p i v s) = task_head s" "task_tail (set_field p i v s) = task_tail s"
  "current_task (set_field p i v s) = current_task s"
  by (simp_all add: set_field_def)

lemma task_nonnull: "task_list s ts \<Longrightarrow> k < length ts \<Longrightarrow> ts ! k \<noteq> NULL"
  unfolding task_list_def task_links_def using nth_mem [of k ts] by metis

lemma task_get_next_ring:
  assumes "task_list s ts" "i < length ts" "current_task s = ts ! i"
  shows "task_get_next s = ts ! (Suc i mod length ts)"
proof (cases "Suc i < length ts")
  case True
  with assms(1) have "ts ! Suc i \<noteq> NULL" by (rule task_nonnull)
  then show ?thesis using assms True by (simp add: task_get_next_def task_list_def task_links_def)
next
  case False
  then have "Suc i = length ts" using assms(2) by simp
  then show ?thesis using assms by (simp add: task_get_next_def task_list_def task_links_def hd_conv_nth)
qed

lemma task_next_ring:
  assumes "task_list s ts" "i < length ts" "current_task s = ts ! i"
  shows "\<exists>s'. task_next s = Some (task_registers (ts ! (Suc i mod length ts)), s') \<and> task_list s' ts
    \<and> current_task s' = ts ! (Suc i mod length ts) \<and> kmem s' = kmem s
    \<and> current_directory s' = load32 (kmem s) (get_field (ts ! (Suc i mod length ts)) task_page_directory s)"
proof -
  let ?t = "ts ! (Suc i mod length ts)"
  have "Suc i mod length ts < length ts" using assms(2) by (intro mod_less_divisor) auto
  with assms(1) have "?t \<noteq> NULL" by (rule task_nonnull)
  moreover have "task_list (snd (task_switch ?t s)) ts" using task_list_kmem [of "snd (task_switch ?t s)" s ts] assms(1) by simp
  moreover have "current_directory (snd (task_switch ?t s)) = load32 (kmem s) (get_field ?t task_page_directory s)"
    by (simp add: task_switch_def paging_switch_def paging_load_directory_def Let_def get_field_def)
  moreover have "task_next s = (if ?t = NULL then None else Some (task_registers ?t, snd (task_switch ?t s)))"
    by (simp add: task_next_def task_get_next_ring [OF assms] Let_def split_beta)
  ultimately show ?thesis by (intro exI [of _ "snd (task_switch ?t s)"]) simp
qed

text \<open>A run of switches, as the clock interrupt makes them.\<close>

primrec task_turns :: "nat \<Rightarrow> ('d, 'a) task_state_scheme \<Rightarrow> ('d, 'a) task_state_scheme option" where
  "task_turns 0 s = Some s"
| "task_turns (Suc n) s = do { (regs, s) \<leftarrow> task_next s; task_turns n s }"

lemma task_turns_ring:
  assumes "task_list s ts" "i < length ts" "current_task s = ts ! i"
  shows "\<exists>s'. task_turns n s = Some s' \<and> task_list s' ts \<and> current_task s' = ts ! ((i + n) mod length ts)
    \<and> kmem s' = kmem s"
  using assms
proof (induction n arbitrary: i s)
  case (Suc n)
  obtain s1 where s1: "task_next s = Some (task_registers (ts ! (Suc i mod length ts)), s1)" "task_list s1 ts"
      "current_task s1 = ts ! (Suc i mod length ts)" "kmem s1 = kmem s"
    using task_next_ring [OF Suc.prems] by blast
  have "Suc i mod length ts < length ts" using Suc.prems(2) by (intro mod_less_divisor) auto
  then obtain s' where "task_turns n s1 = Some s'" "task_list s' ts" "kmem s' = kmem s1"
      "current_task s' = ts ! ((Suc i mod length ts + n) mod length ts)"
    using Suc.IH [OF s1(2) _ s1(3)] by blast
  then show ?case using s1 by (simp add: mod_add_left_eq)
qed simp

section \<open>Address spaces and other writes\<close>

text \<open>An address space depends on its own pages only.\<close>

lemma space_cong:
  assumes "space_ok c s" "kheap_ok s'" "\<And>q. q \<in> space_pages c s \<Longrightarrow> klive s' q = Some 1"
    "\<And>q x. q \<in> space_pages c s \<Longrightarrow> in_range q 4096 x \<Longrightarrow> kmem s' x = kmem s x"
  shows "space_ok c s'" "space_pages c s' = space_pages c s"
    "unat va mod 4096 = 0 \<Longrightarrow> space_lookup c va s' = space_lookup c va s"
proof -
  let ?dir = "load32 (kmem s) c"
  have pages: "c \<in> space_pages c s" "?dir \<in> space_pages c s" "i < 1024 \<Longrightarrow> table_of s ?dir i \<in> space_pages c s" for i
    by (simp_all add: space_pages_def)
  have ld: "load32 (kmem s') c = ?dir"
    using assms(4) [OF pages(1)] in_range_mono [of c 4 _ 4096] by (intro load32_cong) auto
  have tb: "table_of s' ?dir i = table_of s ?dir i" if "i < 1024" for i
    using assms(4) [OF pages(2)] that by (intro table_of_cong) auto
  show sp: "space_pages c s' = space_pages c s" by (auto simp: space_pages_def ld tb)
  have "inj_on (table_of s' ?dir) {..< 1024}"
    using assms(1) tb by (auto simp: space_ok_def directory_ok_def inj_on_def)
  then show "space_ok c s'"
    using assms(1,2) assms(3) [OF pages(1)] assms(3) [OF pages(2)] assms(3) [OF pages(3)]
    by (simp add: space_ok_def directory_ok_def ld tb)
  show "space_lookup c va s' = space_lookup c va s" if "unat va mod 4096 = 0"
  proof -
    have al: "paging_is_aligned va" using that by (simp add: is_aligned_unat)
    have e: "entry_addr s' ?dir va = entry_addr s ?dir va" by (simp add: entry_addr_def tb dir_index_less)
    have "load32 (kmem s') (entry_addr s ?dir va) = load32 (kmem s) (entry_addr s ?dir va)"
      using assms(4) [OF pages(3) [OF dir_index_less]] entry_in_table by (intro load32_cong) blast
    then show ?thesis by (simp add: space_lookup_def ld paging_get_aligned [OF al] e)
  qed
qed

section \<open>Creating a task\<close>

text \<open>\<open>fresh_page s0 t s\<close>: since \<open>s0\<close> only allocations and writes to new memory happened, and \<open>t\<close> is a new page.\<close>

definition fresh_page :: "'a kheap_state_scheme \<Rightarrow> addr \<Rightarrow> 'a kheap_state_scheme \<Rightarrow> bool" where
  "fresh_page s0 t s \<longleftrightarrow> extends s0 s \<and> kheap_ok s \<and> klive s t = Some 1 \<and> klive s0 t = None"

lemma fresh_page_store:
  assumes "fresh_page s0 t s" "\<And>x. \<not> in_range t 4096 x \<Longrightarrow> m x = kmem s x"
  shows "fresh_page s0 t (s\<lparr>kmem := m\<rparr>)" "klive (s\<lparr>kmem := m\<rparr>) = klive s" "kavail (s\<lparr>kmem := m\<rparr>) = kavail s"
  using assms store_extends [of s t 1 s0 m] by (simp_all add: fresh_page_def)

lemma fresh_page_field:
  assumes "fresh_page s0 t s" "unat i < 1024"
  shows "fresh_page s0 t (set_field t i v s)" "klive (set_field t i v s) = klive s" "kavail (set_field t i v s) = kavail s"
proof -
  have "kmem (set_field t i v s) x = kmem s x" if "\<not> in_range t 4096 x" for x
    using set_field_outside [of t 1024 x i v s] that assms(2) by simp
  then show "fresh_page s0 t (set_field t i v s)" "klive (set_field t i v s) = klive s" "kavail (set_field t i v s) = kavail s"
    using fresh_page_store [OF assms(1), of "kmem (set_field t i v s)"] by (simp_all add: set_field_def)
qed

text \<open>Writes inside another allocation leave an address space alone.\<close>

lemma space_live: "space_ok c s \<Longrightarrow> q \<in> space_pages c s \<Longrightarrow> klive s q = Some 1"
  by (auto simp: space_pages_def space_ok_def directory_ok_def)

lemma space_apart:
  assumes "space_ok c s" "klive s p = Some n" "p \<notin> space_pages c s" "q \<in> space_pages c s" "in_range q 4096 x"
  shows "\<not> in_range p (n * 4096) x"
proof -
  have ok: "kheap_ok s" using assms(1) by (simp add: space_ok_def directory_ok_def)
  show ?thesis
    using klive_disjoint [OF ok space_live [OF assms(1,4)] assms(2)] assms(3-5) by (auto simp: disjoint_ranges_def)
qed

lemma space_store:
  assumes "space_ok c s" "klive s p = Some n" "p \<notin> space_pages c s" "kernel_heap s' = kernel_heap s"
    "\<And>x. \<not> in_range p (n * 4096) x \<Longrightarrow> kmem s' x = kmem s x"
  shows "space_ok c s'" "space_pages c s' = space_pages c s"
    "unat va mod 4096 = 0 \<Longrightarrow> space_lookup c va s' = space_lookup c va s"
    "kheap_ok s'" "klive s' = klive s" "kavail s' = kavail s"
proof -
  have ok: "kheap_ok s" using assms(1) by (simp add: space_ok_def directory_ok_def)
  note h = kheap_store [OF ok assms(2,4,5)]
  show "kheap_ok s'" "klive s' = klive s" "kavail s' = kavail s" using h by simp_all
  have same: "kmem s' x = kmem s x" if "q \<in> space_pages c s" "in_range q 4096 x" for q x
    using assms(5) space_apart [OF assms(1-3) that] .
  have live: "klive s' q = Some 1" if "q \<in> space_pages c s" for q
    using space_live [OF assms(1) that] h(2) by simp
  show "space_ok c s'" "space_pages c s' = space_pages c s"
    by (rule space_cong [OF assms(1) h(1)]; blast intro: live same)+
  show "space_lookup c va s' = space_lookup c va s" if "unat va mod 4096 = 0"
    by (rule space_cong(3) [OF assms(1) h(1) _ _ that]; blast intro: live same)
qed

lemma space_set_field:
  assumes "space_ok c s" "klive s t = Some 1" "t \<notin> space_pages c s" "unat i < 1024"
  shows "space_ok c (set_field t i v s)" "space_pages c (set_field t i v s) = space_pages c s"
    "unat va mod 4096 = 0 \<Longrightarrow> space_lookup c va (set_field t i v s) = space_lookup c va s"
    "kheap_ok (set_field t i v s)" "klive (set_field t i v s) = klive s"
  using space_store [OF assms(1-3), of "set_field t i v s"] set_field_outside [of t 1024 _ i v s] assms(4) by simp_all

text \<open>The program's entry point as \<open>task_init\<close> reads it, and the memory it reads for that.\<close>

definition program_entry :: "addr \<Rightarrow> 'a kheap_state_scheme \<Rightarrow> u32" where
  "program_entry p s =
     (if process_file_type (kmem s) p = PROCESS_FILETYPE_ELF
      then e_entry (kmem s) (elf_header (get_field p process_ptr s) s) else ALPHAOS_PROGRAM_VIRTUAL_ADDRESS)"

definition program_held :: "addr \<Rightarrow> 'a kheap_state_scheme \<Rightarrow> bool" where
  "program_held p s \<longleftrightarrow> (\<forall>x. in_range p 9364 x \<longrightarrow> held s x)
     \<and> (\<forall>x. in_range (get_field p process_ptr s) 132 x \<longrightarrow> held s x)
     \<and> (\<forall>x. in_range (elf_header (get_field p process_ptr s) s) 52 x \<longrightarrow> held s x)"

lemma program_entry_extends:
  assumes "program_held p s0" "extends s0 s"
  shows "program_entry p s = program_entry p s0"
proof -
  note h = assms(1) [unfolded program_held_def] and e = extends_mem [OF assms(2)]
  have "process_file_type (kmem s) p = process_file_type (kmem s0) p"
    unfolding process_file_type_def using e h in_range_nth [of 8308 9364 p] by simp
  moreover have f: "get_field p process_ptr s = get_field p process_ptr s0"
    using e h by (intro get_field_cong [where n = 2341]) (simp_all add: process_ptr_def)
  moreover have "elf_header (get_field p process_ptr s0) s = elf_header (get_field p process_ptr s0) s0"
    unfolding elf_header_def using e h by (intro get_field_cong [where n = 33]) (simp_all add: ef_offsets)
  moreover have "e_entry (kmem s) (elf_header (get_field p process_ptr s0) s0) =
      e_entry (kmem s0) (elf_header (get_field p process_ptr s0) s0)"
    unfolding e_entry_def
  proof (rule load32_cong)
    fix x assume "in_range (elf_header (get_field p process_ptr s0) s0 + 24) 4 x"
    then obtain k where "k < 4" "x = elf_header (get_field p process_ptr s0) s0 + of_nat (24 + k)"
      by (elim in_rangeE) (simp add: add.assoc)
    then show "kmem s x = kmem s0 x" using e h in_range_nth [of "24 + k" 52] by simp
  qed
  ultimately show ?thesis by (simp add: program_entry_def)
qed

text \<open>The new page with its new identity mapping, while the fields of the task are written.\<close>

definition task_space :: "'a kheap_state_scheme \<Rightarrow> addr \<Rightarrow> addr \<Rightarrow> 'a kheap_state_scheme \<Rightarrow> bool" where
  "task_space s0 t c s \<longleftrightarrow> fresh_page s0 t s \<and> space_ok c s \<and> t \<notin> space_pages c s
     \<and> (\<forall>q \<in> space_pages c s. klive s0 q = None) \<and> (\<forall>va. unat va mod 4096 = 0 \<longrightarrow> space_lookup c va s = va OR 5)"

abbreviation task_space_at :: "'a kheap_state_scheme \<Rightarrow> addr \<Rightarrow> addr \<Rightarrow> addr set \<Rightarrow> (addr \<Rightarrow> nat option) \<Rightarrow> nat \<Rightarrow> 'a kheap_state_scheme \<Rightarrow> bool" where
  "task_space_at s0 t c P L n s \<equiv> task_space s0 t c s \<and> space_pages c s = P \<and> klive s = L \<and> kavail s = n"

lemma task_space_field:
  assumes "task_space_at s0 t c P L n s" "unat i < 1024"
  shows "task_space_at s0 t c P L n (set_field t i v s)"
proof -
  have f: "fresh_page s0 t s" "space_ok c s" "t \<notin> space_pages c s" "klive s t = Some 1"
    using assms(1) by (auto simp: task_space_def fresh_page_def)
  note k = space_set_field [OF f(2,4,3) assms(2), where v = v]
  show ?thesis using assms fresh_page_field [OF f(1) assms(2), of v] k(1-3) by (auto simp: task_space_def)
qed

text \<open>\<open>task_ready\<close>: the fields of a task that has not run yet.\<close>

definition task_ready :: "addr \<Rightarrow> addr \<Rightarrow> u32 \<Rightarrow> 'a kheap_state_scheme \<Rightarrow> bool" where
  "task_ready t p ip s \<longleftrightarrow> get_field t task_process s = p \<and> get_field t reg_ip s = ip
     \<and> get_field t reg_cs s = USER_CODE_SEGMENT \<and> get_field t reg_ss s = USER_DATA_SEGMENT
     \<and> get_field t reg_esp s = ALPHAOS_PROGRAM_VIRTUAL_STACK_ADDRESS_START"

lemma task_init_law:
  assumes "fresh_page s0 t s" "1026 \<le> kavail s" "program_held p s0"
  shows "\<exists>c s'. task_init t p s = (0, s') \<and> task_space s0 t c s' \<and> get_field t task_page_directory s' = c
    \<and> task_ready t p (program_entry p s0) s' \<and> get_field t task_link_next s' = NULL \<and> get_field t task_link_prev s' = NULL
    \<and> kavail s = kavail s' + 1026 \<and> klive s' = (\<lambda>q. if q \<in> space_pages c s' then Some 1 else klive s q)"
proof -
  let ?m = "memset (kmem s) t 0 (unat sizeof_task)"
  let ?s1 = "s\<lparr>kmem := ?m\<rparr>"
  have m: "?m x = kmem s x" if "\<not> in_range t 4096 x" for x
    using that in_range_mono [of t 64 x 4096] by (auto simp: memset_apply sizeof_task_def)
  note f1 = fresh_page_store [OF assms(1), of ?m, OF m]
  have ok1: "kheap_ok ?s1" "1026 \<le> kavail ?s1" "klive ?s1 t = Some 1" using f1 assms(2) by (simp_all add: fresh_page_def)
  obtain c s2 where c: "paging_new_4gb 5 ?s1 = (c, s2)" by fastforce
  note p = paging_new_4gb_law [OF ok1(1,2) c]
  have t2: "extends ?s1 s2" "space_ok c s2" "kheap_ok s2" "kavail ?s1 = kavail s2 + 1026"
    using p(1-3) by (simp_all add: space_ok_def directory_ok_def)
  have fresh2: "fresh_page s0 t s2"
    using f1(1) t2(1,3) extends_trans extends_live by (auto simp: fresh_page_def)
  have ext: "klive s0 q = None" if "q \<in> space_pages c s2" for q
    using p(5) [OF that] f1(1) extends_fresh by (auto simp: fresh_page_def)
  have "t \<notin> space_pages c s2" using p(5) [of t] ok1(3) by auto
  then have ts2: "task_space s0 t c s2" using fresh2 t2(2) p(4) ext by (simp add: task_space_def)
  have zero: "get_field t i s2 = 0" if "unat i < 16" for i
  proof -
    have "get_field t i s2 = get_field t i ?s1"
      using extends_page [OF t2(1) ok1(1,3)] in_range_mono [of t 64 _ 4096] that by (intro get_field_cong [where n = 16]) auto
    also have "\<dots> = 0"
      unfolding get_field_def word_at_def using field_slot [of t i _ 16] that
      by (intro load32_zero) (auto simp: memset_apply sizeof_task_def)
    finally show ?thesis .
  qed
  have cn: "c \<noteq> NULL" using klive_nonnull [OF t2(3)] t2(2) by (auto simp: space_ok_def)
  define s4 where "s4 = set_field t reg_ip ALPHAOS_PROGRAM_VIRTUAL_ADDRESS (set_field t task_page_directory c s2)"
  define s5 where "s5 = (if process_file_type (kmem s4) p = PROCESS_FILETYPE_ELF
     then set_field t reg_ip (e_entry (kmem s4) (elf_header (get_field p process_ptr s4) s4)) s4 else s4)"
  define s' where "s' = set_field t task_process p (set_field t reg_esp ALPHAOS_PROGRAM_VIRTUAL_STACK_ADDRESS_START
     (set_field t reg_cs USER_CODE_SEGMENT (set_field t reg_ss USER_DATA_SEGMENT s5)))"
  have "task_space_at s0 t c (space_pages c s2) (klive s2) (kavail s2) s2" using ts2 by simp
  then have ts4: "task_space_at s0 t c (space_pages c s2) (klive s2) (kavail s2) s4"
    unfolding s4_def by (intro task_space_field; simp add: reg_offsets task_offsets)
  have "task_space_at s0 t c (space_pages c s2) (klive s2) (kavail s2) s5"
    using ts4 task_space_field [OF ts4, of reg_ip] by (simp add: s5_def reg_offsets)
  then have ts': "task_space_at s0 t c (space_pages c s2) (klive s2) (kavail s2) s'"
    unfolding s'_def by (intro task_space_field; simp add: reg_offsets task_offsets)
  have e: "program_entry p s4 = program_entry p s0"
    using program_entry_extends [OF assms(3), of s4] ts4 by (simp add: task_space_def fresh_page_def)
  have "get_field t reg_ip s4 = ALPHAOS_PROGRAM_VIRTUAL_ADDRESS" by (simp add: s4_def get_set_field reg_offsets)
  then have "get_field t reg_ip s5 = program_entry p s4"
    by (simp add: s5_def program_entry_def get_set_field reg_offsets)
  then have ip: "get_field t reg_ip s5 = program_entry p s0" unfolding e .
  have keep: "get_field t i s5 = get_field t i s2" if "i \<noteq> reg_ip" "i \<noteq> task_page_directory" "unat i < 16" for i
    using that by (simp add: s5_def s4_def get_set_field reg_offsets task_offsets)
  have dir: "get_field t task_page_directory s5 = c"
    by (simp add: s5_def s4_def get_set_field reg_offsets task_offsets)
  have "task_init t p s = (0, s')"
    using c cn unfolding s'_def s5_def s4_def
    by (simp add: task_init_def Let_def get_set_field task_offsets os_defs PAGING_IS_PRESENT_def PAGING_ACCESS_FROM_ALL_def)
  moreover have "task_ready t p (program_entry p s0) s'"
    using ip by (simp add: task_ready_def s'_def get_set_field reg_offsets task_offsets)
  moreover have "get_field t task_page_directory s' = c" "get_field t task_link_next s' = NULL" "get_field t task_link_prev s' = NULL"
    using dir keep [of task_link_next] keep [of task_link_prev] zero
    by (simp_all add: s'_def get_set_field reg_offsets task_offsets)
  moreover have "kavail s = kavail s' + 1026" "klive s' = (\<lambda>q. if q \<in> space_pages c s' then Some 1 else klive s q)"
    using ts' t2(4) f1(3) p(6) arg_cong [OF f1(2), of "\<lambda>L q. if q \<in> space_pages c s2 then Some 1 else L q"]
    by (metis, metis)
  ultimately show ?thesis using ts' by blast
qed

text \<open>The invariant of the task list: it is well linked, and every task is a live page.\<close>

definition tasks_inv :: "('d, 'a) task_state_scheme \<Rightarrow> addr list \<Rightarrow> bool" where
  "tasks_inv s ts \<longleftrightarrow> kheap_ok s \<and> (if ts = [] then task_head s = NULL else task_list s ts)
     \<and> (\<forall>t \<in> set ts. klive s t = Some 1)"

lemma page_field_other:
  assumes "kheap_ok s" "klive s p = Some 1" "klive s q = Some 1" "p \<noteq> q" "unat i < 1024" "unat j < 1024"
  shows "get_field q j (set_field p i v s) = get_field q j s"
proof (rule get_field_other)
  show "disjoint_ranges p (4 * 1024) q (4 * 1024)"
    using klive_page_disjoint [OF assms(1-4)] by (simp add: disjoint_ranges_def)
qed (use assms(5,6) in simp_all)

lemma extends_field: "extends s s' \<Longrightarrow> kheap_ok s \<Longrightarrow> klive s p = Some 1 \<Longrightarrow> unat i < 1024 \<Longrightarrow> get_field p i s' = get_field p i s"
  using extends_page [of s s' p] by (intro get_field_cong [where n = 1024]) simp_all

text \<open>Nothing but the memory and the heap descriptor matters to these notions.\<close>

lemma same_heap:
  assumes "kmem s' = kmem s" "kernel_heap s' = kernel_heap s"
  shows "kheap_ok s' = kheap_ok s" "klive s' = klive s" "get_field q i s' = get_field q i s"
    "space_ok c s' = space_ok c s" "space_lookup c va s' = space_lookup c va s"
    "task_ready q p ip s' = task_ready q p ip s" "kavail s' = kavail s" "space_pages c s' = space_pages c s"
proof -
  show h: "kheap_ok s' = kheap_ok s" "klive s' = klive s" "kavail s' = kavail s" by (rule kheap_cong; simp add: assms)+
  show "get_field q i s' = get_field q i s" for q i by (simp add: get_field_def assms)
  then show "task_ready q p ip s' = task_ready q p ip s" by (simp add: task_ready_def)
  have t: "table_of s' = table_of s" by (simp add: fun_eq_iff table_of_def assms)
  then show "space_ok c s' = space_ok c s" by (simp add: space_ok_def directory_ok_def assms h)
  show "space_pages c s' = space_pages c s" by (simp add: space_pages_def t assms)
  show "space_lookup c va s' = space_lookup c va s"
    by (simp add: space_lookup_def paging_get_def assms)
qed

lemma extends_task_vars:
  fixes s :: "('d, 'a) task_state_scheme"
  assumes "extends s s'"
  shows "task_head s' = task_head s" "task_tail s' = task_tail s" "current_task s' = current_task s"
proof -
  obtain m where "s' = s\<lparr>kmem := m\<rparr>" using assms by (auto simp only: extends_def)
  then show "task_head s' = task_head s" "task_tail s' = task_tail s" "current_task s' = current_task s"
    by simp_all
qed

text \<open>Appending a page to a well-linked list.\<close>

lemma task_links_append:
  assumes "task_links s ts" "kheap_ok s" "\<forall>q \<in> set ts. klive s q = Some 1" "klive s t = Some 1" "t \<notin> set ts" "t \<noteq> NULL"
    "ts \<noteq> []" "get_field t task_link_next s = NULL"
  shows "task_links (set_field t task_link_prev (last ts) (set_field (last ts) task_link_next t s)) (ts @ [t])"
proof -
  let ?l = "last ts" and ?s1 = "set_field (last ts) task_link_next t s"
  let ?s2 = "set_field t task_link_prev (last ts) ?s1"
  note ts = assms(1) [unfolded task_links_def]
  have l: "?l \<in> set ts" "?l \<noteq> t" using assms(5,7) by auto
  have h1: "kheap_ok ?s1" "klive ?s1 = klive s"
    using kheap_store [OF assms(2), of ?l 1 ?s1] set_field_outside [of ?l 1024 _ task_link_next t s] assms(3) l(1)
    by (simp_all add: task_offsets)
  have f1: "get_field q j ?s1 = (if q = ?l \<and> j = task_link_next then t else get_field q j s)"
    if "q = t \<or> q \<in> set ts" "unat j < 16" for q j
    using that assms(3,4) l page_field_other [OF assms(2), of ?l q task_link_next j t]
    by (cases "q = ?l") (auto simp: get_set_field task_offsets)
  have f2: "get_field q j ?s2 = (if q = t \<and> j = task_link_prev then ?l else get_field q j ?s1)"
    if "q = t \<or> q \<in> set ts" "unat j < 16" for q j
    using that assms(3,4,5) h1 page_field_other [OF h1(1), of t q task_link_prev j ?l]
    by (cases "q = t") (auto simp: get_set_field task_offsets)
  have nx: "get_field q task_link_next ?s2 = (if q = ?l then t else get_field q task_link_next s)"
    "get_field q task_link_prev ?s2 = (if q = t then ?l else get_field q task_link_prev s)" if "q = t \<or> q \<in> set ts" for q
    using f1 [OF that] f2 [OF that] l(2) by (simp_all add: task_offsets)
  have last: "ts ! i = ?l \<longleftrightarrow> Suc i = length ts" if "i < length ts" for i
    using ts assms(7) that nth_eq_iff_index_eq [of ts i "length ts - 1"] by (auto simp: last_conv_nth)
  show ?thesis
    unfolding task_links_def
  proof (intro conjI allI impI)
    show "distinct (ts @ [t])" "NULL \<notin> set (ts @ [t])" using ts assms(5,6) by auto
    fix i assume i: "i < length (ts @ [t])"
    show "get_field ((ts @ [t]) ! i) task_link_next ?s2 = (if Suc i < length (ts @ [t]) then (ts @ [t]) ! Suc i else NULL)"
    proof (cases "i < length ts")
      case True
      then have "ts ! i \<in> set ts" by simp
      then show ?thesis using nx [of "ts ! i"] last [OF True] ts True by (auto simp: nth_append)
    next
      case False
      then show ?thesis using i nx [of t] l(2) assms(8) by (simp add: nth_append)
    qed
    show "get_field ((ts @ [t]) ! i) task_link_prev ?s2 = (if i = 0 then NULL else (ts @ [t]) ! (i - 1))"
    proof (cases "i < length ts")
      case True
      then have "ts ! i \<in> set ts" "ts ! i \<noteq> t" "i - 1 < length ts" using assms(5) by auto
      then show ?thesis using nx(2) [of "ts ! i"] ts True by (simp add: nth_append)
    next
      case False
      then have "i = length ts" using i by simp
      then show ?thesis using nx [of t] assms(7) by (simp add: nth_append last_conv_nth)
    qed
  qed
qed

section \<open>Removing a task\<close>

lemma task_links_same:
  "task_links s ts \<Longrightarrow> (\<And>q. q \<in> set ts \<Longrightarrow> get_field q task_link_next s' = get_field q task_link_next s
     \<and> get_field q task_link_prev s' = get_field q task_link_prev s) \<Longrightarrow> task_links s' ts"
  by (simp add: task_links_def)

lemma task_list_remove_last_law:
  assumes "tasks_inv s (ts @ [t])" "ts \<noteq> []"
  shows "task_list (task_list_remove t s) ts"
    "current_task (task_list_remove t s) = (if current_task s = t then hd ts else current_task s)"
    "kernel_heap (task_list_remove t s) = kernel_heap s"
    "\<not> in_range (last ts) 4096 x \<Longrightarrow> kmem (task_list_remove t s) x = kmem s x"
proof -
  have ok: "kheap_ok s" "\<And>q. q = t \<or> q \<in> set ts \<Longrightarrow> klive s q = Some 1"
    and vars: "task_head s = hd ts" "task_tail s = t" and links: "task_links s (ts @ [t])"
    using assms by (auto simp: tasks_inv_def task_list_def)
  have d: "distinct ts" "t \<notin> set ts" "NULL \<notin> set ts" "t \<noteq> NULL" using links by (auto simp: task_links_def)
  have nx: "get_field (ts ! i) task_link_next s = (if Suc i < length ts then ts ! Suc i else t)"
    "get_field (ts ! i) task_link_prev s = (if i = 0 then NULL else ts ! (i - 1))" if "i < length ts" for i
    using links that by (auto simp: task_links_def nth_append dest!: spec [of _ i])
  have tn: "get_field t task_link_next s = NULL" "get_field t task_link_prev s = last ts"
    using links assms(2) by (auto simp: task_links_def nth_append last_conv_nth dest!: spec [of _ "length ts"])
  have l: "last ts \<in> set ts" "last ts \<noteq> t" "last ts \<noteq> NULL" "hd ts \<noteq> t"
    using d assms(2) last_in_set [OF assms(2)] hd_in_set [OF assms(2)] by metis+
  let ?s1 = "set_field (last ts) task_link_next NULL s"
  have f1: "get_field q j ?s1 = get_field q j s" if "q = t \<or> q \<in> set ts" "q \<noteq> last ts \<or> j \<noteq> task_link_next" "unat j < 16" for q j
    using that ok(2) l page_field_other [OF ok(1), of "last ts" q task_link_next j NULL]
    by (cases "q = last ts") (auto simp: get_set_field task_offsets)
  have ft: "get_field t task_link_prev ?s1 = last ts" "get_field t task_link_next ?s1 = NULL"
    using f1 [of t] l(2) tn by (simp_all add: task_offsets)
  let ?s2 = "?s1\<lparr>task_tail := last ts\<rparr>"
  have r: "task_list_remove t s = (if current_task s = t then ?s2\<lparr>current_task := hd ts\<rparr> else ?s2)"
    using tn l vars ft by (simp add: task_list_remove_def Let_def task_get_next_def get_field_def)
  have last: "ts ! i = last ts \<longleftrightarrow> Suc i = length ts" if "i < length ts" for i
    using d(1) assms(2) that nth_eq_iff_index_eq [of ts i "length ts - 1"] by (auto simp: last_conv_nth)
  have "task_links ?s1 ts"
    unfolding task_links_def
  proof (intro conjI allI impI)
    fix i assume i: "i < length ts"
    then have m: "ts ! i \<in> set ts" by simp
    show "get_field (ts ! i) task_link_next ?s1 = (if Suc i < length ts then ts ! Suc i else NULL)"
    proof (cases "Suc i = length ts")
      case True
      then have "ts ! i = last ts" using last [OF i] by simp
      then show ?thesis using True by (simp add: get_set_field task_offsets)
    next
      case False
      then show ?thesis using f1 [of "ts ! i" task_link_next] m i nx(1) [OF i] last [OF i] by (simp add: task_offsets)
    qed
    show "get_field (ts ! i) task_link_prev ?s1 = (if i = 0 then NULL else ts ! (i - 1))"
      using f1 [of "ts ! i" task_link_prev] m nx(2) [OF i] by (simp add: task_offsets)
  qed (use d in simp_all)
  moreover have "get_field q j (task_list_remove t s) = get_field q j ?s1" for q j
    unfolding r by (simp add: get_field_def)
  ultimately show "task_list (task_list_remove t s) ts"
    using vars assms(2) task_links_same [of ?s1 ts "task_list_remove t s"] by (simp add: task_list_def r)
  show "current_task (task_list_remove t s) = (if current_task s = t then hd ts else current_task s)"
    "kernel_heap (task_list_remove t s) = kernel_heap s"
    by (simp_all add: r)
  show "kmem (task_list_remove t s) x = kmem s x" if "\<not> in_range (last ts) 4096 x"
    using set_field_outside [of "last ts" 1024 x task_link_next NULL s] that by (simp add: r task_offsets)
qed

section \<open>Properties\<close>

lemma task_new_law:
  fixes s :: "('d, 'a) task_state_scheme"
  assumes "tasks_inv s ts" "1027 \<le> kavail s" "program_held p s"
  shows "\<exists>t s'. task_new p s = (t, s') \<and> klive s t = None \<and> tasks_inv s' (ts @ [t])
    \<and> current_task s' = (if ts = [] then t else current_task s)
    \<and> task_ready t p (program_entry p s) s' \<and> space_ok (get_field t task_page_directory s') s'
    \<and> (\<forall>va. unat va mod 4096 = 0 \<longrightarrow> space_lookup (get_field t task_page_directory s') va s' = va OR 5)
    \<and> klive s \<subseteq>\<^sub>m klive s' \<and> klive s' t = Some 1 \<and> t \<notin> space_pages (get_field t task_page_directory s') s'
    \<and> (\<forall>q \<in> space_pages (get_field t task_page_directory s') s'. klive s q = None) \<and> kavail s = kavail s' + 1027
    \<and> (\<exists>m h tl cu. s' = s\<lparr>kmem := m, task_head := h, task_tail := tl, current_task := cu\<rparr>)
    \<and> (\<forall>x. held s x \<longrightarrow> (\<forall>q \<in> set ts. \<not> in_range q 4096 x) \<longrightarrow> kmem s' x = kmem s x)"
proof -
  have ok: "kheap_ok s" and live: "\<forall>q \<in> set ts. klive s q = Some 1" using assms(1) by (simp_all add: tasks_inv_def)
  obtain t s1 where t: "kzalloc sizeof_task s = (t, s1)" by fastforce
  have z: "extends s s1" "kheap_ok s1" "klive s t = None" "klive s1 = (klive s)(t \<mapsto> 1)" "kavail s = Suc (kavail s1)" "t \<noteq> NULL"
    using kzalloc_page_extends [OF ok _ _ _ t] assms(2) by (simp_all add: sizeof_task_def)
  have "fresh_page s t s1" using z by (simp add: fresh_page_def)
  then obtain c s2 where i: "task_init t p s1 = (0, s2)" "task_space s t c s2" "get_field t task_page_directory s2 = c"
      "task_ready t p (program_entry p s) s2" "get_field t task_link_next s2 = NULL" "get_field t task_link_prev s2 = NULL"
      "kavail s1 = kavail s2 + 1026"
    using task_init_law [of s t s1 p] assms(2,3) z(5) by auto
  have ts2: "extends s s2" "kheap_ok s2" "klive s2 t = Some 1" "space_ok c s2" "t \<notin> space_pages c s2"
    using i(2) by (simp_all add: task_space_def fresh_page_def)
  obtain m2 where m2: "s2 = s\<lparr>kmem := m2\<rparr>" using ts2(1) by (auto simp only: extends_def)
  have keep: "klive s \<subseteq>\<^sub>m klive s2" "kavail s = kavail s2 + 1027" "\<forall>q \<in> space_pages c s2. klive s q = None"
    "\<And>x. held s x \<Longrightarrow> kmem s2 x = kmem s x"
    using ts2(1) i(2,7) z(5) extends_mem [OF ts2(1)] by (simp_all add: extends_def task_space_def)
  note vars = extends_task_vars [OF ts2(1)]
  have live2: "\<forall>q \<in> set ts. klive s2 q = Some 1" "t \<notin> set ts" using live extends_live [OF ts2(1)] z(3) by auto
  show ?thesis
  proof (cases "ts = []")
    case True
    let ?s' = "s2\<lparr>task_head := t, task_tail := t, current_task := t\<rparr>"
    have "task_new p s = (t, ?s')"
      using True assms(1) vars by (simp add: task_new_def t i(1) z(6) ALPHAOS_ALL_OK_def tasks_inv_def)
    moreover note h = same_heap [of ?s' s2]
    have "tasks_inv ?s' [t]"
      using ts2(2,3) z(6) i(5,6) by (simp add: tasks_inv_def task_list_def task_links_def h)
    moreover have "\<exists>m h tl cu. ?s' = s\<lparr>kmem := m, task_head := h, task_tail := tl, current_task := cu\<rparr>"
      by (intro exI [of _ m2] exI [of _ t]) (simp add: m2)
    ultimately show ?thesis using True z(3) i(2-4) keep ts2(3,5) by (simp add: h task_space_def)
  next
    case False
    let ?s3 = "set_field (last ts) task_link_next t s2"
    let ?s4 = "set_field t task_link_prev (last ts) ?s3"
    have head: "task_tail s = last ts" "task_links s ts" "task_head s = hd ts"
      using False assms(1) by (simp_all add: tasks_inv_def task_list_def)
    have hn: "task_head s \<noteq> NULL"
      unfolding head(3) using head(2) hd_in_set [OF False] unfolding task_links_def by metis
    have "task_links s2 ts"
      using head(2) extends_field [OF ts2(1) ok] live by (simp add: task_links_def task_offsets)
    then have links: "task_links ?s4 (ts @ [t])"
      using ts2 live2 z(6) False i(5) by (intro task_links_append) simp_all
    have new: "task_new p s = (t, ?s4\<lparr>task_tail := t\<rparr>)"
      using head hn vars by (simp add: task_new_def t i(1) z(6) ALPHAOS_ALL_OK_def set_field_def)
    let ?s' = "?s4\<lparr>task_tail := t\<rparr>"
    have l: "last ts \<in> set ts" "last ts \<noteq> t" using False live2(2) by auto
    have lp: "last ts \<notin> space_pages c s2" "klive s2 (last ts) = Some 1"
      using i(2) live live2(1) l(1) by (auto simp: task_space_def)
    note c3 = space_set_field [OF ts2(4) lp(2,1), where i = task_link_next and v = t]
    have k3: "klive ?s3 t = Some 1" "t \<notin> space_pages c ?s3" using c3 ts2(3,5) by (simp_all add: task_offsets)
    note c4 = space_set_field [OF c3(1) k3, where i = task_link_prev and v = "last ts"]
    have f: "get_field t j ?s4 = get_field t j s2" if "unat j < 15" for j
      using that page_field_other [OF ts2(2) lp(2) ts2(3) l(2), of task_link_next j t]
      by (auto simp: get_set_field task_offsets)
    have same: "kmem ?s' = kmem ?s4" "kernel_heap ?s' = kernel_heap ?s4" by simp_all
    note h = same_heap [OF same]
    have lk: "space_lookup c va ?s4 = va OR 5" if "unat va mod 4096 = 0" for va
      using i(2) that c3(3) c4(3) by (simp add: task_space_def task_offsets)
    have kl: "klive ?s4 = klive s2" "kheap_ok ?s4" using c3(5) c4(4,5) by (simp_all add: task_offsets)
    have "task_links ?s' (ts @ [t])" using links by (simp add: task_links_def h)
    then have "tasks_inv ?s' (ts @ [t])"
      using False head(3) vars live2 ts2(3) kl by (simp add: tasks_inv_def task_list_def h)
    moreover have "task_ready t p (program_entry p s) ?s4"
      using i(4) by (simp add: task_ready_def f task_process_def reg_offsets)
    moreover have d: "get_field t task_page_directory ?s4 = c"
      using f [of task_page_directory] i(3) by (simp add: task_page_directory_def)
    moreover have "space_ok c ?s4" by (rule c4(1)) (simp_all add: task_link_prev_def task_link_next_def)
    moreover have "space_pages c ?s4 = space_pages c s2" "kavail ?s4 = kavail s2"
    proof -
      show "space_pages c ?s4 = space_pages c s2" using c3(2) c4(2) by (simp add: task_offsets)
      have "kavail ?s3 = kavail s2" by (rule kheap_store(3) [OF ts2(2) lp(2)]) (use set_field_outside [of "last ts" 1024 _ task_link_next t s2] in \<open>simp_all add: task_offsets\<close>)
      moreover have "kavail ?s4 = kavail ?s3"
        by (rule kheap_store(3) [OF _ k3(1)]) (use c3(4) set_field_outside [of t 1024 _ task_link_prev "last ts" ?s3] in \<open>simp_all add: task_offsets\<close>)
      ultimately show "kavail ?s4 = kavail s2" by simp
    qed
    moreover have "\<exists>m h tl cu. ?s' = s\<lparr>kmem := m, task_head := h, task_tail := tl, current_task := cu\<rparr>"
      by (intro exI [of _ "kmem ?s4"] exI [of _ "task_head s"] exI [of _ t] exI [of _ "current_task s"]) (simp add: m2 set_field_def)
    moreover have "kmem ?s4 x = kmem s x" if "held s x" "\<forall>q \<in> set ts. \<not> in_range q 4096 x" for x
    proof -
      have "\<not> in_range t (1 * 4096) x" using held_fresh [OF ts2(2,3) z(3) keep(1) extends_heap [OF ts2(1)] that(1)] .
      then show ?thesis
        using keep(4) [OF that(1)] that(2) l(1) set_field_outside [of t 1024 x task_link_prev "last ts" ?s3]
          set_field_outside [of "last ts" 1024 x task_link_next t s2] by (simp add: task_offsets)
    qed
    ultimately show ?thesis using new False z(3) lk vars keep ts2(3,5) kl
      by (intro exI [of _ t] exI [of _ ?s']) (simp add: h)
  qed
qed

text \<open>
  C21: with 1027 free blocks, \<open>task_new\<close> succeeds: the new task, on a fresh page, is appended to the list
  and becomes the current one when it is the first; it gets an identity-mapped address space of its
  own and starts at the entry point of the program with the user segments and stack.
\<close>

theorem task_new_appends:
  assumes "tasks_inv s ts" "1027 \<le> kavail s" "program_held p s"
  shows "\<exists>t s'. task_new p s = (t, s') \<and> klive s t = None \<and> tasks_inv s' (ts @ [t])
    \<and> current_task s' = (if ts = [] then t else current_task s)
    \<and> task_ready t p (program_entry p s) s' \<and> space_ok (get_field t task_page_directory s') s'
    \<and> (\<forall>va. unat va mod 4096 = 0 \<longrightarrow> space_lookup (get_field t task_page_directory s') va s' = va OR 5)"
  using task_new_law [OF assms] by blast

text \<open>
  C22: round robin. When the tasks of the list are switched to one after the other, as the clock
  interrupt does, every task of the list gets its turn within as many switches as there are tasks,
  and the switches return (they never panic) and change neither the list nor the memory.
\<close>

theorem task_turns_reach_all:
  assumes "task_list s ts" "i < length ts" "current_task s = ts ! i" "j < length ts"
  shows "\<exists>n s'. n \<le> length ts \<and> task_turns n s = Some s' \<and> current_task s' = ts ! j
    \<and> task_list s' ts \<and> kmem s' = kmem s"
proof -
  let ?n = "(j + length ts - i) mod length ts"
  have "?n \<le> length ts" using assms(2) by (intro less_imp_le mod_less_divisor) auto
  moreover have "(i + ?n) mod length ts = j"
    using assms(2,4) by (simp add: mod_add_right_eq)
  ultimately show ?thesis using task_turns_ring [OF assms(1-3), of ?n] by metis
qed

text \<open>States for the witnesses: the booted heap, and three linked tasks on a heap of three blocks.\<close>

definition demo_state :: "mem \<Rightarrow> heap \<Rightarrow> sim_drive task_state" where
  "demo_state m hp = \<lparr>kmem = m, kernel_heap = hp, current_directory = 0, cr3 = 0, kernel_chunk = 0,
     video_memory = 0xB8000, terminal_row = 0, terminal_col = 0, disk_var = 0x100000,
     disks = (\<lambda>_. \<lparr>disk_type = 0, disk_sector_size = 512, disk_ident = 0, disk_filesystem = 0, disk_fs_private = 0\<rparr>),
     streams = (\<lambda>_. \<lparr>stream_pos = 0, stream_disk = 0x100000\<rparr>), stack_mem = (\<lambda>_. 0),
     hw = \<lparr>sim_regs = (\<lambda>_. 0), sim_words = [], sim_busy = 0\<rparr>, fat16_fs = 0x200000,
     filesystems = 0x200000 # replicate 11 0, file_descriptors = replicate 512 0, kernel_stack = 0x600000,
     current_task = 0, task_tail = 0, task_head = 0\<rparr>"

definition linked_mem :: mem where
  "linked_mem = (\<lambda>_. 0)(0x1000 := 0x41, 0x1001 := 0x41, 0x1002 := 0x41,
     0x10039 := 0x10, 0x1003A := 1, 0x11039 := 0x20, 0x1103A := 1, 0x1103E := 1, 0x1203D := 0x10, 0x1203E := 1)"

definition linked_tasks :: "sim_drive task_state" where
  "linked_tasks = (demo_state linked_mem small_heap)\<lparr>current_task := 0x10000, task_head := 0x10000, task_tail := 0x12000\<rparr>"

lemma linked_tasks: "tasks_inv linked_tasks [0x10000, 0x11000, 0x12000]"
proof -
  have t: "table_bytes small_heap linked_mem = [0x41, 0x41, 0x41]"
    by (simp add: small_table linked_mem_def)
  have ok: "kheap_ok linked_tasks"
    by (simp add: kheap_ok_def heap_ok_def linked_tasks_def demo_state_def t small_heap_layout wf_table_def)
  have live: "klive linked_tasks 0x10000 = Some 1" "klive linked_tasks 0x11000 = Some 1" "klive linked_tasks 0x12000 = Some 1"
    unfolding klive_def heap_live_def linked_tasks_def demo_state_def
    by (simp_all add: t) (simp_all add: live_blocks_def small_heap_def)
  have "task_links linked_tasks [0x10000, 0x11000, 0x12000]"
    by (simp add: task_links_def All_less_Suc linked_tasks_def demo_state_def linked_mem_def get_field_def word_at_def
        load32_def task_offsets)
  then have "task_list linked_tasks [0x10000, 0x11000, 0x12000]"
    by (simp add: task_list_def linked_tasks_def demo_state_def)
  then show ?thesis using ok live by (simp add: tasks_inv_def)
qed

theorem task_turns_reach_all_witness:
  "\<exists>n s'. task_turns n linked_tasks = Some s' \<and> current_task s' = 0x12000"
  using task_turns_reach_all [of linked_tasks "[0x10000, 0x11000, 0x12000]" 0 2] linked_tasks
  by (auto simp: tasks_inv_def linked_tasks_def)

definition booted :: "sim_drive task_state" where
  "booted = demo_state (kmem boot_state) (kernel_heap boot_state)"

lemma booted_heap: "kheap_ok booted" "kavail booted = 25600"
  using boot_heap by (simp_all add: booted_def demo_state_def kheap_defs)

lemma booted_held: "unat x < 0x7E00 \<or> 0x200000 \<le> unat x \<and> unat x < 0x300000 \<Longrightarrow> held booted x"
  by (auto simp: held_def in_table_def in_pool_def booted_def demo_state_def boot_state_def kheap_init_eq heap_blocks_def
      in_range_unat)

lemma booted_program: "program_held 0x200000 booted"
proof -
  have z: "kmem booted x = 0" for x
    by (simp add: booted_def demo_state_def boot_state_def kheap_init_eq memset_apply)
  have "get_field p i booted = 0" for p i by (simp add: get_field_def word_at_def load32_def z)
  then show ?thesis
    by (auto simp: program_held_def elf_header_def in_range_unat intro!: booted_held)
qed

theorem task_new_appends_witness:
  "\<exists>t s'. task_new 0x200000 booted = (t, s')
     \<and> current_task s' = t \<and> get_field t reg_cs s' = USER_CODE_SEGMENT"
proof -
  have "tasks_inv booted []" using booted_heap(1) by (simp add: tasks_inv_def booted_def demo_state_def)
  from task_new_appends [OF this _ booted_program] booted_heap(2)
  show ?thesis by (auto simp: task_ready_def)
qed

text \<open>
  Removing the last of several tasks keeps the list well linked; if it was the current task, the
  first one becomes current.
\<close>

theorem task_list_remove_last:
  assumes "tasks_inv s (ts @ [t])" "ts \<noteq> []"
  shows "task_list (task_list_remove t s) ts
    \<and> current_task (task_list_remove t s) = (if current_task s = t then hd ts else current_task s)"
  using task_list_remove_last_law [OF assms] by blast

theorem task_list_remove_last_witness:
  "task_list (task_list_remove 0x12000 linked_tasks) [0x10000, 0x11000]"
  using task_list_remove_last [of linked_tasks "[0x10000, 0x11000]" "0x12000"] linked_tasks by simp

text \<open>
  C23: \<open>task_list_remove\<close> does not update the \<open>prev\<close> pointer of the task behind the removed one. Removing
  the second and then the third of three tasks leaves the third linked behind the first and the
  second as the tail of the list: the scheduler switches to a task that was freed.
\<close>

theorem task_list_remove_stale:
  assumes "tasks_inv s [a, b, c]" "current_task s = a"
  defines "s' \<equiv> task_list_remove c (task_list_remove b s)"
  shows "task_get_next s' = c \<and> task_tail s' = b \<and> task_head s' = a \<and> current_task s' = a"
proof -
  have ok: "kheap_ok s" "klive s a = Some 1" "klive s b = Some 1" "klive s c = Some 1"
    and vars: "task_head s = a" "task_tail s = c" and links: "task_links s [a, b, c]"
    using assms(1) by (simp_all add: tasks_inv_def task_list_def)
  have d: "a \<noteq> b" "a \<noteq> c" "b \<noteq> c" "a \<noteq> NULL" "b \<noteq> NULL" "c \<noteq> NULL"
    and l: "get_field b task_link_prev s = a" "get_field b task_link_next s = c" "get_field c task_link_prev s = b"
      "get_field c task_link_next s = NULL"
    using links by (auto simp: task_links_def All_less_Suc)
  let ?s1 = "set_field a task_link_next c s"
  let ?s2 = "set_field b task_link_next NULL ?s1"
  have s1: "task_list_remove b s = ?s1"
    using d vars l assms(2) by (simp add: task_list_remove_def Let_def)
  have f1: "get_field q j ?s1 = get_field q j s" if "q \<in> {b, c}" "unat j < 16" for q j
    using that d ok page_field_other [OF ok(1), of a q task_link_next j c] by (auto simp: task_offsets)
  have h1: "kheap_ok ?s1" "klive ?s1 = klive s"
    using kheap_store [OF ok(1,2), of ?s1] set_field_outside [of a 1024 _ task_link_next c s] by (simp_all add: task_offsets)
  have f2: "get_field q j ?s2 = get_field q j ?s1" if "q \<in> {a, c}" "unat j < 16" for q j
    using that d ok h1 page_field_other [OF h1(1), of b q task_link_next j NULL] by (auto simp: task_offsets)
  have c: "get_field c task_link_prev ?s1 = b" "get_field c task_link_next ?s1 = NULL" "get_field c task_link_prev ?s2 = b"
    using f1 [of c] f2 [of c] l by (simp_all add: task_offsets)
  have "s' = ?s2\<lparr>task_tail := b\<rparr>"
    unfolding assms(3) s1 using d vars c assms(2) by (simp add: task_list_remove_def Let_def)
  moreover have "get_field a task_link_next ?s2 = c"
    using f2 [of a task_link_next] by (simp add: get_set_field task_offsets)
  ultimately show ?thesis using vars assms(2) d by (simp add: task_get_next_def get_field_def)
qed

theorem task_list_remove_stale_witness:
  "task_get_next (task_list_remove 0x12000 (task_list_remove 0x11000 linked_tasks)) = 0x12000"
  using task_list_remove_stale [OF linked_tasks] by (simp add: linked_tasks_def)

end
