(* ===== verification/Process.thy ===== *)
theory Process
  imports Task
begin

text \<open>
  Processes, \<^verbatim>\<open>src/src/task/process.c\<close> and \<^verbatim>\<open>process.h\<close>: loading a program,
  mapping its image, its stack and its allocations into the address space of its task, its
  arguments, and its termination. The structures are in kernel memory at the offsets the compiler
  gives them. A panic is the value \<open>None\<close>.
\<close>

section \<open>Data\<close>

definition ALPHAOS_MAX_PROGRAM_ALLOCATIONS :: nat where [os_defs]: "ALPHAOS_MAX_PROGRAM_ALLOCATIONS = 1024"
definition ALPHAOS_MAX_PATH_LENGTH :: int where [os_defs]: "ALPHAOS_MAX_PATH_LENGTH = 108"
definition ALPHAOS_MAX_PROCESSES :: nat where [os_defs]: "ALPHAOS_MAX_PROCESSES = 12"

text \<open>
  \<open>struct process\<close>: the identifier (two bytes), the file name, then words: task, 1024 allocations of
  two words each, the byte \<open>file_type\<close>, image, stack, size, the keyboard buffer of 1024 bytes with
  its head and tail, and the arguments.
\<close>

definition process_id :: "mem \<Rightarrow> addr \<Rightarrow> u16" where "process_id m p = load16 m p"
definition process_filename :: "addr \<Rightarrow> addr" where "process_filename p = p + 2"
definition process_task :: u32 where "process_task = 28"
definition allocation_ptr :: "nat \<Rightarrow> u32" where "allocation_ptr i = of_nat (29 + 2 * i)"
definition allocation_size :: "nat \<Rightarrow> u32" where "allocation_size i = of_nat (30 + 2 * i)"
definition process_stack :: u32 where "process_stack = 2079"
definition process_size :: u32 where "process_size = 2080"
definition keyboard_buffer :: "addr \<Rightarrow> addr" where "keyboard_buffer p = p + 8324"
definition keyboard_head :: u32 where "keyboard_head = 2337"
definition keyboard_tail :: u32 where "keyboard_tail = 2338"
definition process_argc :: u32 where "process_argc = 2339"
definition process_argv :: u32 where "process_argv = 2340"
definition sizeof_process :: u32 where "sizeof_process = 9364"

lemmas process_offsets = process_task_def process_ptr_def process_stack_def process_size_def keyboard_head_def
  keyboard_tail_def process_argc_def process_argv_def allocation_ptr_def allocation_size_def

text \<open>\<open>struct command_argument\<close>: 512 bytes of text, then the next argument.\<close>

definition sizeof_argument :: int where "sizeof_argument = 512"
definition argument_next :: u32 where "argument_next = 128"

record 'd process_state = "'d task_state" +
  current_process :: addr
  processes :: "addr list"

section \<open>process.c: the table of processes\<close>

definition process_init :: "addr \<Rightarrow> 'a kheap_state_scheme \<Rightarrow> 'a kheap_state_scheme" where
  "process_init process s = s\<lparr>kmem := memset (kmem s) process 0 (unat sizeof_process)\<rparr>"

definition process_get :: "int \<Rightarrow> ('d, 'a) process_state_scheme \<Rightarrow> addr" where
  "process_get pid s =
     (if pid < 0 \<or> pid \<ge> int ALPHAOS_MAX_PROCESSES then NULL else processes s ! nat pid)"

definition process_switch :: "addr \<Rightarrow> ('d, 'a) process_state_scheme \<Rightarrow> int \<times> ('d, 'a) process_state_scheme" where
  "process_switch process s = (0, s\<lparr>current_process := process\<rparr>)"

primrec first_process :: "addr list \<Rightarrow> addr option" where
  "first_process [] = None"
| "first_process (p # ps) = (if p \<noteq> NULL then Some p else first_process ps)"

definition process_switch_to_any :: "('d, 'a) process_state_scheme \<Rightarrow> ('d, 'a) process_state_scheme option" where
  "process_switch_to_any s =
     (case first_process (processes s) of None \<Rightarrow> None | Some p \<Rightarrow> Some (s\<lparr>current_process := p\<rparr>))"

definition process_unlik :: "addr \<Rightarrow> ('d, 'a) process_state_scheme \<Rightarrow> ('d, 'a) process_state_scheme option" where
  "process_unlik process s =
     (let s = s\<lparr>processes := (processes s)[unat (process_id (kmem s) process) := NULL]\<rparr> in
      if current_process s = process then process_switch_to_any s else Some s)"

definition process_get_free_slot :: "('d, 'a) process_state_scheme \<Rightarrow> int" where
  "process_get_free_slot s = (case first_free (processes s) 0 of None \<Rightarrow> - EISTKN | Some i \<Rightarrow> int i)"

section \<open>process.c: allocations\<close>

text \<open>The index of the first of the \<open>n\<close> entries from \<open>i\<close> on whose pointer is \<open>ptr\<close>.\<close>

primrec allocation_search :: "addr \<Rightarrow> addr \<Rightarrow> 'a kheap_state_scheme \<Rightarrow> nat \<Rightarrow> nat \<Rightarrow> nat option" where
  "allocation_search process ptr s 0 i = None"
| "allocation_search process ptr s (Suc n) i =
     (if get_field process (allocation_ptr i) s = ptr then Some i
      else allocation_search process ptr s n (Suc i))"

definition process_find_free_allocation_index :: "addr \<Rightarrow> 'a kheap_state_scheme \<Rightarrow> int" where
  "process_find_free_allocation_index process s =
     (case allocation_search process NULL s ALPHAOS_MAX_PROGRAM_ALLOCATIONS 0 of None \<Rightarrow> - ENOMEM | Some i \<Rightarrow> int i)"

definition process_is_process_pointer :: "addr \<Rightarrow> addr \<Rightarrow> 'a kheap_state_scheme \<Rightarrow> bool" where
  "process_is_process_pointer process ptr s \<longleftrightarrow>
     allocation_search process ptr s ALPHAOS_MAX_PROGRAM_ALLOCATIONS 0 \<noteq> None"

definition process_allocation_unjoin :: "addr \<Rightarrow> addr \<Rightarrow> 'a kheap_state_scheme \<Rightarrow> 'a kheap_state_scheme" where
  "process_allocation_unjoin process ptr s =
     (case allocation_search process ptr s ALPHAOS_MAX_PROGRAM_ALLOCATIONS 0 of
        None \<Rightarrow> s
      | Some i \<Rightarrow> set_field process (allocation_size i) 0 (set_field process (allocation_ptr i) 0 s))"

definition process_get_allocation_by_addr :: "addr \<Rightarrow> addr \<Rightarrow> 'a kheap_state_scheme \<Rightarrow> nat option" where
  "process_get_allocation_by_addr process a s = allocation_search process a s ALPHAOS_MAX_PROGRAM_ALLOCATIONS 0"

definition process_directory :: "addr \<Rightarrow> 'a kheap_state_scheme \<Rightarrow> addr" where
  "process_directory process s = get_field (get_field process process_task s) task_page_directory s"

definition USER_PAGE :: u32 where
  "USER_PAGE = PAGING_IS_PRESENT OR PAGING_ACCESS_FROM_ALL OR PAGING_IS_WRITABLE"

definition process_malloc :: "addr \<Rightarrow> u32 \<Rightarrow> 'a kheap_state_scheme \<Rightarrow> addr \<times> 'a kheap_state_scheme" where
  "process_malloc process sz s =
     (let (ptr, s) = kzalloc sz s in
      if ptr = NULL then (NULL, s)
      else
        let index = process_find_free_allocation_index process s in
        if index < 0 then (NULL, kfree ptr s)
        else
          let (res, s) = paging_map_to (process_directory process s) ptr ptr (paging_align_address (ptr + sz)) USER_PAGE s in
          if res < 0 then (NULL, kfree ptr s)
          else
            let s = set_field process (allocation_ptr (nat index)) ptr s;
                s = set_field process (allocation_size (nat index)) sz s in
            (ptr, s))"

definition process_free :: "addr \<Rightarrow> addr \<Rightarrow> 'a kheap_state_scheme \<Rightarrow> 'a kheap_state_scheme" where
  "process_free process ptr s =
     (case process_get_allocation_by_addr process ptr s of
        None \<Rightarrow> s
      | Some i \<Rightarrow>
          let (res, s) = paging_map_to (process_directory process s) (get_field process (allocation_ptr i) s) 0
                (paging_align_address (get_field process (allocation_ptr i) s + get_field process (allocation_size i) s)) 0 s in
          if res < 0 then s
          else kfree ptr (process_allocation_unjoin process ptr s))"

definition process_terminate_allocation :: "addr \<Rightarrow> 'a kheap_state_scheme \<Rightarrow> int \<times> 'a kheap_state_scheme" where
  "process_terminate_allocation process s =
     (0, fold (\<lambda>i s. process_free process (get_field process (allocation_ptr i) s) s) [0..<ALPHAOS_MAX_PROGRAM_ALLOCATIONS] s)"

section \<open>process.c: termination\<close>

definition process_free_binary_data :: "addr \<Rightarrow> 'a kheap_state_scheme \<Rightarrow> int \<times> 'a kheap_state_scheme" where
  "process_free_binary_data process s = (0, kfree (get_field process process_ptr s) s)"

definition process_free_elf_data :: "addr \<Rightarrow> 'a kheap_state_scheme \<Rightarrow> int \<times> 'a kheap_state_scheme" where
  "process_free_elf_data process s = (0, elf_close (get_field process process_ptr s) s)"

definition process_free_program_data :: "addr \<Rightarrow> 'a kheap_state_scheme \<Rightarrow> int \<times> 'a kheap_state_scheme" where
  "process_free_program_data process s =
     (if process_file_type (kmem s) process = PROCESS_FILETYPE_BINARY then process_free_binary_data process s
      else if process_file_type (kmem s) process = PROCESS_FILETYPE_ELF then process_free_elf_data process s
      else (- EINVARG, s))"

definition process_terminate ::
  "addr \<Rightarrow> ('d, 'a) process_state_scheme \<Rightarrow> (int \<times> ('d, 'a) process_state_scheme) option" where
  "process_terminate process s =
     (let (res, s) = process_terminate_allocation process s in
      if res < 0 then Some (0, s)
      else
        let (res, s) = process_free_program_data process s in
        if res < 0 then Some (0, s)
        else do {
          let s = kfree (get_field process process_stack s) s;
          let (res, s) = task_free (get_field process process_task s) s;
          s \<leftarrow> process_unlik process s;
          Some (0, s)
        })"

section \<open>process.c: arguments\<close>

definition process_get_arguments :: "addr \<Rightarrow> addr \<Rightarrow> addr \<Rightarrow> 'a kheap_state_scheme \<Rightarrow> 'a kheap_state_scheme" where
  "process_get_arguments process argc argv s =
     (let s = s\<lparr>kmem := store32 (kmem s) argc (get_field process process_argc s)\<rparr> in
      s\<lparr>kmem := store32 (kmem s) argv (get_field process process_argv s)\<rparr>)"

partial_function (option) process_count_arguments_from :: "mem \<Rightarrow> addr \<Rightarrow> int \<Rightarrow> int option" where
  "process_count_arguments_from m current count =
     (if current \<noteq> NULL then process_count_arguments_from m (word_at m current argument_next) (count + 1)
      else Some count)"

definition process_count_command_arguments :: "mem \<Rightarrow> addr \<Rightarrow> int option" where
  "process_count_command_arguments m root_argument = process_count_arguments_from m root_argument 0"

partial_function (option) process_inject_loop ::
  "addr \<Rightarrow> addr \<Rightarrow> addr \<Rightarrow> nat \<Rightarrow> 'a kheap_state_scheme \<Rightarrow> (int \<times> 'a kheap_state_scheme) option"
where
  "process_inject_loop process argv current i s =
     (if current \<noteq> NULL then
        let (argument, s) = process_malloc process (word_of_int sizeof_argument) s in
        if argument = NULL then Some (- ENOMEM, s)
        else
          let s = s\<lparr>kmem := strncpy (kmem s) argument current sizeof_argument\<rparr>;
              s = set_field argv (of_nat i) argument s in
          process_inject_loop process argv (get_field current argument_next s) (Suc i) s
      else Some (0, s))"

definition process_inject_arguments ::
  "addr \<Rightarrow> addr \<Rightarrow> 'a kheap_state_scheme \<Rightarrow> (int \<times> 'a kheap_state_scheme) option" where
  "process_inject_arguments process root_argument s = do {
     argc \<leftarrow> process_count_command_arguments (kmem s) root_argument;
     if argc = 0 then Some (- EIO, s)
     else do {
       let (argv, s) = process_malloc process (4 * word_of_int argc) s;
       if argv = NULL then Some (- ENOMEM, s)
       else do {
         (res, s) \<leftarrow> process_inject_loop process argv root_argument 0 s;
         if res < 0 then Some (res, s)
         else Some (res, set_field process process_argv argv (set_field process process_argc (word_of_int argc) s))
       }
     }
   }"

section \<open>process.c: loading\<close>

definition set_file_type :: "addr \<Rightarrow> u8 \<Rightarrow> 'a kheap_state_scheme \<Rightarrow> 'a kheap_state_scheme" where
  "set_file_type process v s = s\<lparr>kmem := (kmem s)(process + 8308 := v)\<rparr>"

definition process_load_binary ::
  "(addr \<Rightarrow> ('d, 'a) process_state_scheme fs_ops) \<Rightarrow> addr \<Rightarrow> addr \<Rightarrow> ('d, 'a) process_state_scheme \<Rightarrow>
   (int \<times> ('d, 'a) process_state_scheme) option" where
  "process_load_binary ops filename process s = do {
     (fd, s) \<leftarrow> fopen_r ops filename s;
     (res, program_data_ptr, s) \<leftarrow>
       (if fd = 0 then Some (- EIO, NULL, s)
        else do {
          (res, s) \<leftarrow> fstat ops fd (stat_local s) s;
          if res \<noteq> ALPHAOS_ALL_OK then Some (res, NULL, s)
          else do {
            let (program_data_ptr, s) = kzalloc (get_field (stat_local s) stat_filesize s) s;
            if program_data_ptr = NULL then Some (- ENOMEM, program_data_ptr, s)
            else do {
              (n, s) \<leftarrow> fread ops program_data_ptr (get_field (stat_local s) stat_filesize s) 1 fd s;
              if n \<noteq> 1 then Some (- EIO, program_data_ptr, s)
              else do {
                let s = set_file_type process PROCESS_FILETYPE_BINARY s;
                let s = set_field process process_ptr program_data_ptr s;
                let s = set_field process process_size (get_field (stat_local s) stat_filesize s) s;
                Some (res, program_data_ptr, s)
              }
            }
          }
        });
     let s = (if res < 0 \<and> program_data_ptr \<noteq> NULL then kfree program_data_ptr s else s);
     (r, s) \<leftarrow> fclose ops fd s;
     Some (res, s)
   }"

definition process_load_elf ::
  "(addr \<Rightarrow> ('d, 'a) process_state_scheme fs_ops) \<Rightarrow> addr \<Rightarrow> addr \<Rightarrow> ('d, 'a) process_state_scheme \<Rightarrow>
   (int \<times> ('d, 'a) process_state_scheme) option" where
  "process_load_elf ops filename process s = do {
     (res, elf_file, s) \<leftarrow> elf_load ops filename NULL s;
     if res < 0 then Some (res, s)
     else do {
       let s = set_file_type process PROCESS_FILETYPE_ELF s;
       Some (res, set_field process process_ptr elf_file s)
     }
   }"

definition process_load_data ::
  "(addr \<Rightarrow> ('d, 'a) process_state_scheme fs_ops) \<Rightarrow> addr \<Rightarrow> addr \<Rightarrow> ('d, 'a) process_state_scheme \<Rightarrow>
   (int \<times> ('d, 'a) process_state_scheme) option" where
  "process_load_data ops filename process s = do {
     (res, s) \<leftarrow> process_load_elf ops filename process s;
     if res = - EINFORMAT then process_load_binary ops filename process s else Some (res, s)
   }"

definition process_map_binary :: "addr \<Rightarrow> 'a kheap_state_scheme \<Rightarrow> int \<times> 'a kheap_state_scheme" where
  "process_map_binary process s =
     (let ptr = get_field process process_ptr s;
          (r, s) = paging_map_to (process_directory process s) ALPHAOS_PROGRAM_VIRTUAL_ADDRESS ptr
            (paging_align_address (ptr + get_field process process_size s)) USER_PAGE s in
      (0, s))"

text \<open>The loop over the program headers.\<close>

function process_map_elf_loop ::
  "addr \<Rightarrow> addr \<Rightarrow> addr \<Rightarrow> addr \<Rightarrow> nat \<Rightarrow> int \<Rightarrow> 'a kheap_state_scheme \<Rightarrow> int \<times> 'a kheap_state_scheme" where
  "process_map_elf_loop process elf_file header phdrs i res s =
     (if i < unat (e_phnum (kmem s) header) then
        let phdr = phdrs + of_nat i * sizeof_phdr;
            phdr_phys_address = elf_phdr_phys_address elf_file phdr s;
            flags = PAGING_IS_PRESENT OR PAGING_ACCESS_FROM_ALL;
            flags = (if p_flags (kmem s) phdr AND PF_W \<noteq> 0 then flags OR PAGING_IS_WRITABLE else flags);
            (res, s) = paging_map_to (process_directory process s)
              (paging_align_to_lower_page (p_vaddr (kmem s) phdr)) (paging_align_to_lower_page phdr_phys_address)
              (paging_align_address (phdr_phys_address + p_memsz (kmem s) phdr)) flags s in
        if res < 0 then (res, s) else process_map_elf_loop process elf_file header phdrs (Suc i) res s
      else (res, s))"
  by pat_completeness auto
termination
proof (relation "measure (\<lambda>(process, elf_file, header, phdrs, i, res, s). 65536 - i)", goal_cases)
  case (2 process elf_file header phdrs i res s)
  have "unat (e_phnum (kmem s) header) < 65536" using unsigned_less [of "e_phnum (kmem s) header"] by simp
  then show ?case using 2(1) by simp
qed simp

declare process_map_elf_loop.simps [simp del]

definition process_map_elf :: "addr \<Rightarrow> 'a kheap_state_scheme \<Rightarrow> int \<times> 'a kheap_state_scheme" where
  "process_map_elf process s =
     (let elf_file = get_field process process_ptr s;
          header = elf_header elf_file s;
          phdrs = elf_pheader (kmem s) header in
      process_map_elf_loop process elf_file header phdrs 0 0 s)"

definition process_map_memory :: "addr \<Rightarrow> 'a kheap_state_scheme \<Rightarrow> (int \<times> 'a kheap_state_scheme) option" where
  "process_map_memory process s = do {
     (res, s) \<leftarrow>
       (if process_file_type (kmem s) process = PROCESS_FILETYPE_ELF then Some (process_map_elf process s)
        else if process_file_type (kmem s) process = PROCESS_FILETYPE_BINARY then Some (process_map_binary process s)
        else None);
     if res < 0 then Some (res, s)
     else do {
       let stack = get_field process process_stack s;
       let (r, s) = paging_map_to (process_directory process s) ALPHAOS_PROGRAM_VIRTUAL_STACK_ADDRESS_END stack
         (paging_align_address (stack + ALPHAOS_USER_PROGRAM_STACK_SIZE)) USER_PAGE s;
       Some (res, s)
     }
   }"

text \<open>
  The result and \<open>*process\<close> afterwards. The label \<open>out\<close> releases the stack after an error. A NULL
  task, not an error value, is what the code tests for.
\<close>

definition process_load_for_slot ::
  "(addr \<Rightarrow> ('d, 'a) process_state_scheme fs_ops) \<Rightarrow> addr \<Rightarrow> addr \<Rightarrow> nat \<Rightarrow> ('d, 'a) process_state_scheme \<Rightarrow>
   (int \<times> addr \<times> ('d, 'a) process_state_scheme) option" where
  "process_load_for_slot ops filename process_out process_slot s =
     (if process_get (int process_slot) s \<noteq> NULL then Some (- EISTKN, process_out, s)
      else do {
        let (process, s) = kzalloc sizeof_process s;
        (res, process_out, s) \<leftarrow>
          (if process = NULL then Some (- ENOMEM, process_out, s)
           else do {
             let s = process_init process s;
             (res, s) \<leftarrow> process_load_data ops filename process s;
             if res < 0 then Some (res, process_out, s)
             else do {
               let (program_stack_pointer, s) = kzalloc ALPHAOS_USER_PROGRAM_STACK_SIZE s;
               if program_stack_pointer = NULL then Some (- ENOMEM, process_out, s)
               else do {
                 let s = s\<lparr>kmem := strncpy (kmem s) (process_filename process) filename ALPHAOS_MAX_PATH_LENGTH\<rparr>;
                 let s = set_field process process_stack program_stack_pointer s;
                 let s = s\<lparr>kmem := store16 (kmem s) process (of_nat process_slot)\<rparr>;
                 let (task, s) = task_new process s;
                 if ERROR_I task = 0 then Some (ERROR_I task, process_out, s)
                 else do {
                   let s = set_field process process_task task s;
                   (res, s) \<leftarrow> process_map_memory process s;
                   if res < 0 then Some (res, process_out, s)
                   else Some (res, process, s\<lparr>processes := (processes s)[process_slot := process]\<rparr>)
                 }
               }
             }
           });
        let s = (if res < 0 \<and> process \<noteq> NULL \<and> get_field process process_stack s \<noteq> NULL
                 then kfree (get_field process process_stack s) s else s);
        Some (res, process_out, s)
      })"

definition process_load ::
  "(addr \<Rightarrow> ('d, 'a) process_state_scheme fs_ops) \<Rightarrow> addr \<Rightarrow> addr \<Rightarrow> ('d, 'a) process_state_scheme \<Rightarrow>
   (int \<times> addr \<times> ('d, 'a) process_state_scheme) option" where
  "process_load ops filename process_out s =
     (let process_slot = process_get_free_slot s in
      if process_slot < 0 then Some (- EISTKN, process_out, s)
      else process_load_for_slot ops filename process_out (nat process_slot) s)"

definition process_load_switch ::
  "(addr \<Rightarrow> ('d, 'a) process_state_scheme fs_ops) \<Rightarrow> addr \<Rightarrow> addr \<Rightarrow> ('d, 'a) process_state_scheme \<Rightarrow>
   (int \<times> addr \<times> ('d, 'a) process_state_scheme) option" where
  "process_load_switch ops filename process_out s = do {
     (res, process_out, s) \<leftarrow> process_load ops filename process_out s;
     let s = (if res = 0 then snd (process_switch process_out s) else s);
     Some (res, process_out, s)
   }"

section \<open>The allocations of a process\<close>

text \<open>
  The invariant: the structures of the process and of its task are live allocations apart from the
  pages of the task's address space.
\<close>

definition process_ok :: "addr \<Rightarrow> 'a kheap_state_scheme \<Rightarrow> bool" where
  "process_ok p s \<longleftrightarrow> kheap_ok s \<and> klive s p = Some 3 \<and> klive s (get_field p process_task s) = Some 1
     \<and> space_ok (process_directory p s) s \<and> get_field p process_task s \<notin> space_pages (process_directory p s) s"

definition allocation :: "addr \<Rightarrow> nat \<Rightarrow> 'a kheap_state_scheme \<Rightarrow> addr \<times> u32" where
  "allocation p i s = (get_field p (allocation_ptr i) s, get_field p (allocation_size i) s)"

text \<open>Every page of the address space as the task sees it.\<close>

definition process_lookup :: "addr \<Rightarrow> addr \<Rightarrow> 'a kheap_state_scheme \<Rightarrow> u32" where
  "process_lookup p va s = space_lookup (process_directory p s) va s"

lemma unat_allocation:
  "i < 1024 \<Longrightarrow> unat (allocation_ptr i) = 29 + 2 * i" "i < 1024 \<Longrightarrow> unat (allocation_size i) = 30 + 2 * i"
  unfolding allocation_ptr_def allocation_size_def by (subst unat_of_nat, simp add: take_bit_nat_eq_self)+

lemma allocation_fields:
  assumes "i < 1024" "j < 1024"
  shows "allocation_ptr i = allocation_ptr j \<longleftrightarrow> i = j" "allocation_size i = allocation_size j \<longleftrightarrow> i = j"
    "allocation_ptr i \<noteq> allocation_size j" "allocation_ptr i \<noteq> process_task" "allocation_size i \<noteq> process_task"
proof -
  have u: "unat process_task = 28" by (simp add: process_task_def)
  show "allocation_ptr i = allocation_ptr j \<longleftrightarrow> i = j" "allocation_size i = allocation_size j \<longleftrightarrow> i = j"
    using unat_allocation [OF assms(1)] unat_allocation [OF assms(2)] by (metis add_left_cancel mult_left_cancel zero_neq_numeral)+
  have "even (unat (allocation_size j))" "odd (unat (allocation_ptr i))" "28 < unat (allocation_size i)"
    using unat_allocation [OF assms(1)] unat_allocation [OF assms(2)] by simp_all
  then show "allocation_ptr i \<noteq> allocation_size j" "allocation_ptr i \<noteq> process_task" "allocation_size i \<noteq> process_task"
    using u by auto
qed

lemma set_allocation:
  assumes "i < 1024"
  shows "j < 1024 \<Longrightarrow> allocation p j (set_field p (allocation_size i) z (set_field p (allocation_ptr i) v s))
      = (if j = i then (v, z) else allocation p j s)"
    "get_field p process_task (set_field p (allocation_size i) z (set_field p (allocation_ptr i) v s)) = get_field p process_task s"
proof -
  have u: "unat process_task = 28" by (simp add: process_task_def)
  show "j < 1024 \<Longrightarrow> allocation p j (set_field p (allocation_size i) z (set_field p (allocation_ptr i) v s))
      = (if j = i then (v, z) else allocation p j s)"
    using assms unat_allocation [of i] unat_allocation [of j] allocation_fields [of i j] allocation_fields [of j i]
    by (simp add: allocation_def get_set_field)
  show "get_field p process_task (set_field p (allocation_size i) z (set_field p (allocation_ptr i) v s)) = get_field p process_task s"
    using assms u unat_allocation [of i] allocation_fields [of i i] by (simp add: get_set_field)
qed

lemma allocation_search_Some:
  "allocation_search p ptr s n k = Some i \<Longrightarrow> k \<le> i \<and> i < k + n \<and> get_field p (allocation_ptr i) s = ptr"
proof (induction n arbitrary: k)
  case (Suc n)
  show ?case using Suc.prems Suc.IH [of "Suc k"] by (auto split: if_splits)
qed simp

lemma allocation_search_cong:
  "(\<And>i. i < k + n \<Longrightarrow> get_field p (allocation_ptr i) s' = get_field p (allocation_ptr i) s) \<Longrightarrow>
   allocation_search p ptr s' n k = allocation_search p ptr s n k"
  by (induction n arbitrary: k) simp_all

text \<open>What the allocations and the space of a process depend on.\<close>

lemma process_fields_cong:
  "(\<And>x. in_range p (3 * 4096) x \<Longrightarrow> kmem s' x = kmem s x) \<Longrightarrow> unat j < 3072 \<Longrightarrow> get_field p j s' = get_field p j s"
  by (intro get_field_cong [where n = 3072]) simp_all

lemma process_same:
  assumes "\<And>x. in_range p (3 * 4096) x \<Longrightarrow> kmem s' x = kmem s x"
    "\<And>x. in_range (get_field p process_task s) 4096 x \<Longrightarrow> kmem s' x = kmem s x"
  shows "get_field p process_task s' = get_field p process_task s" "process_directory p s' = process_directory p s"
    "i < 1024 \<Longrightarrow> allocation p i s' = allocation p i s"
    "allocation_search p ptr s' 1024 0 = allocation_search p ptr s 1024 0"
proof -
  show t: "get_field p process_task s' = get_field p process_task s"
    by (intro process_fields_cong assms(1)) (simp_all add: process_task_def)
  show "process_directory p s' = process_directory p s"
    unfolding process_directory_def t using assms(2) by (intro get_field_cong [where n = 1024]) (simp_all add: task_offsets)
  have f: "get_field p (allocation_ptr i) s' = get_field p (allocation_ptr i) s"
      "get_field p (allocation_size i) s' = get_field p (allocation_size i) s" if "i < 1024" for i
    using that by (auto intro!: process_fields_cong assms(1) simp: unat_allocation)
  show "i < 1024 \<Longrightarrow> allocation p i s' = allocation p i s" by (simp add: allocation_def f)
  show "allocation_search p ptr s' 1024 0 = allocation_search p ptr s 1024 0"
    by (rule allocation_search_cong) (simp add: f)
qed

text \<open>Allocating and releasing other memory does not change the process.\<close>

definition process_parts :: "addr \<Rightarrow> 'a kheap_state_scheme \<Rightarrow> addr set" where
  "process_parts p s = {p, get_field p process_task s} \<union> space_pages (process_directory p s) s"

lemma process_frame:
  assumes "process_ok p s" "kheap_ok s'" "\<And>q. q \<in> process_parts p s \<Longrightarrow> klive s' q = klive s q"
    "\<And>q n x. q \<in> process_parts p s \<Longrightarrow> klive s q = Some n \<Longrightarrow> in_range q (n * 4096) x \<Longrightarrow> kmem s' x = kmem s x"
  shows "process_ok p s'" "process_directory p s' = process_directory p s"
    "unat va mod 4096 = 0 \<Longrightarrow> process_lookup p va s' = process_lookup p va s"
    "i < 1024 \<Longrightarrow> allocation p i s' = allocation p i s"
    "allocation_search p ptr s' 1024 0 = allocation_search p ptr s 1024 0"
    "space_pages (process_directory p s) s' = space_pages (process_directory p s) s"
    "process_parts p s' = process_parts p s"
proof -
  let ?c = "process_directory p s" and ?t = "get_field p process_task s"
  have ok: "klive s p = Some 3" "klive s ?t = Some 1" "space_ok ?c s" "?t \<notin> space_pages ?c s"
    using assms(1) by (simp_all add: process_ok_def)
  have in_parts: "p \<in> process_parts p s" "?t \<in> process_parts p s" "q \<in> space_pages ?c s \<Longrightarrow> q \<in> process_parts p s" for q
    by (simp_all add: process_parts_def)
  have pm: "kmem s' x = kmem s x" if "in_range p (3 * 4096) x" for x
    using assms(4) [OF in_parts(1) ok(1) that] .
  have tm: "kmem s' x = kmem s x" if "in_range ?t 4096 x" for x
    using assms(4) [OF in_parts(2) ok(2)] that by simp
  note same = process_same [OF pm tm]
  have live: "klive s' q = Some 1" if "q \<in> space_pages ?c s" for q
    using assms(3) [OF in_parts(3) [OF that]] space_live [OF ok(3) that] by simp
  have mem: "kmem s' x = kmem s x" if "q \<in> space_pages ?c s" "in_range q 4096 x" for q x
    using assms(4) [OF in_parts(3) [OF that(1)] space_live [OF ok(3) that(1)]] that(2) by simp
  note sp = space_cong [OF ok(3) assms(2) live mem]
  have t: "get_field p process_task s' = ?t" by (rule same(1))
  show d: "process_directory p s' = ?c" by (rule same(2))
  show pages: "space_pages ?c s' = space_pages ?c s" by (rule sp(2))
  show "process_parts p s' = process_parts p s" unfolding process_parts_def t d pages ..
  have "space_ok ?c s'" by (rule sp(1))
  then show "process_ok p s'"
    unfolding process_ok_def t d pages
    using assms(2) ok assms(3) [OF in_parts(1)] assms(3) [OF in_parts(2)] by simp
  show "unat va mod 4096 = 0 \<Longrightarrow> process_lookup p va s' = process_lookup p va s"
    unfolding process_lookup_def d by (rule sp(3))
  show "i < 1024 \<Longrightarrow> allocation p i s' = allocation p i s" by (rule same(3))
  show "allocation_search p ptr s' 1024 0 = allocation_search p ptr s 1024 0" by (rule same(4))
qed

lemma process_parts_live: "process_ok p s \<Longrightarrow> q \<in> process_parts p s \<Longrightarrow> \<exists>n. klive s q = Some n"
  using space_live by (fastforce simp: process_ok_def process_parts_def)

lemma process_extends:
  assumes "process_ok p s" "extends s s'" "kheap_ok s'"
  shows "process_ok p s'" "process_directory p s' = process_directory p s"
    "unat va mod 4096 = 0 \<Longrightarrow> process_lookup p va s' = process_lookup p va s"
    "i < 1024 \<Longrightarrow> allocation p i s' = allocation p i s"
    "allocation_search p ptr s' 1024 0 = allocation_search p ptr s 1024 0"
    "space_pages (process_directory p s) s' = space_pages (process_directory p s) s"
    "process_parts p s' = process_parts p s"
proof -
  have ok: "kheap_ok s" using assms(1) by (simp add: process_ok_def)
  have live: "klive s' q = klive s q" if q: "q \<in> process_parts p s" for q
    using process_parts_live [OF assms(1) q] extends_live [OF assms(2), of q] by auto
  have mem: "kmem s' x = kmem s x" if "q \<in> process_parts p s" "klive s q = Some n" "in_range q (n * 4096) x" for q n x
    using extends_mem [OF assms(2) held_page [OF ok that(2,3)]] .
  note f = process_frame [OF assms(1,3) live mem]
  show "process_ok p s'" by (rule f(1))
  show "process_directory p s' = process_directory p s" by (rule f(2))
  show "unat va mod 4096 = 0 \<Longrightarrow> process_lookup p va s' = process_lookup p va s" by (rule f(3))
  show "i < 1024 \<Longrightarrow> allocation p i s' = allocation p i s" by (rule f(4))
  show "allocation_search p ptr s' 1024 0 = allocation_search p ptr s 1024 0" by (rule f(5))
  show "space_pages (process_directory p s) s' = space_pages (process_directory p s) s" by (rule f(6))
  show "process_parts p s' = process_parts p s" by (rule f(7))
qed

lemma process_kfree:
  assumes "process_ok p s" "klive s q = Some n" "q \<notin> process_parts p s"
  shows "process_ok p (kfree q s)" "process_directory p (kfree q s) = process_directory p s"
    "unat va mod 4096 = 0 \<Longrightarrow> process_lookup p va (kfree q s) = process_lookup p va s"
    "i < 1024 \<Longrightarrow> allocation p i (kfree q s) = allocation p i s"
    "klive (kfree q s) = (klive s)(q := None)"
proof -
  have ok: "kheap_ok s" using assms(1) by (simp add: process_ok_def)
  have fr: "freed s {q} (kfree q s)" using freed_insert [OF freed_refl [OF ok] assms(2)] by simp
  have h: "kheap_ok (kfree q s)" "klive (kfree q s) = (klive s)(q := None)" using kfree_law [OF ok assms(2)] by simp_all
  have live: "klive (kfree q s) r = klive s r" if "r \<in> process_parts p s" for r using that assms(3) h(2) by auto
  have mem: "kmem (kfree q s) x = kmem s x" if "r \<in> process_parts p s" "klive s r = Some k" "in_range r (k * 4096) x" for r k x
    using klive_in_pool(2) [OF ok that(2,3)] fr by (simp add: freed_def)
  note f = process_frame [OF assms(1) h(1) live mem]
  show "process_ok p (kfree q s)" by (rule f(1))
  show "process_directory p (kfree q s) = process_directory p s" by (rule f(2))
  show "unat va mod 4096 = 0 \<Longrightarrow> process_lookup p va (kfree q s) = process_lookup p va s" by (rule f(3))
  show "i < 1024 \<Longrightarrow> allocation p i (kfree q s) = allocation p i s" by (rule f(4))
  show "klive (kfree q s) = (klive s)(q := None)" by (fact h)
qed

text \<open>Mapping pages writes only the tables of the address space.\<close>

lemma space_keeps_apart:
  assumes "space_ok c s" "space_keeps c s s'" "klive s p = Some n" "p \<notin> space_pages c s" "in_range p (n * 4096) x"
  shows "kmem s' x = kmem s x"
proof -
  have "\<not> table_pages c s x"
    using space_apart [OF assms(1,3,4) _ _] assms(5) by (auto simp: table_pages_def space_pages_def)
  then show ?thesis using assms(2) unfolding space_keeps_def by blast
qed

lemma table_pages_cong:
  assumes "\<And>q x. q \<in> space_pages c s \<Longrightarrow> in_range q 4096 x \<Longrightarrow> kmem s' x = kmem s x"
  shows "table_pages c s' = table_pages c s"
proof -
  let ?dir = "load32 (kmem s) c"
  have pages: "c \<in> space_pages c s" "?dir \<in> space_pages c s" by (simp_all add: space_pages_def)
  have "load32 (kmem s') c = ?dir"
    using assms [OF pages(1)] in_range_mono [of c 4 _ 4096] by (intro load32_cong) auto
  moreover have "table_of s' ?dir i = table_of s ?dir i" if "i < 1024" for i
    using assms [OF pages(2)] that by (intro table_of_cong) auto
  ultimately show ?thesis by (auto simp: table_pages_def fun_eq_iff)
qed

lemma space_keeps_same:
  assumes "space_ok c s" "space_keeps c s s'"
  shows "space_pages c s' = space_pages c s"
proof -
  let ?dir = "load32 (kmem s) c"
  have d: "directory_ok s ?dir" "klive s c = Some 1" "c \<noteq> ?dir" "\<forall>i < 1024. c \<noteq> table_of s ?dir i"
    using assms(1) by (simp_all add: space_ok_def)
  have ok: "kheap_ok s" using d(1) by (simp add: directory_ok_def)
  have same: "kmem s' x = kmem s x"
    if q: "klive s q = Some 1" "\<forall>i < 1024. q \<noteq> table_of s ?dir i" "in_range q 4096 x" for q x
  proof -
    have "\<not> in_range (table_of s ?dir i) 4096 x" if "i < 1024" for i
      using klive_page_disjoint [OF ok q(1), of "table_of s ?dir i" x] d(1) q(2,3) that by (auto simp: directory_ok_def)
    then show ?thesis using assms(2) unfolding space_keeps_def table_pages_def by blast
  qed
  have ld: "load32 (kmem s') c = ?dir"
    by (rule load32_cong) (use same [OF d(2,4)] in_range_mono [of c 4 _ 4096] in simp)
  have "klive s ?dir = Some 1" "\<forall>i < 1024. ?dir \<noteq> table_of s ?dir i" using d(1) by (auto simp: directory_ok_def)
  then have "table_of s' ?dir i = table_of s ?dir i" if "i < 1024" for i
    using same that by (intro table_of_cong) auto
  then show ?thesis by (auto simp: space_pages_def ld)
qed

lemma process_map:
  assumes "process_ok p s" "unat va mod 4096 = 0" "unat pa mod 4096 = 0" "unat pe mod 4096 = 0"
    "pa \<le> pe" "unat va + (unat pe - unat pa) \<le> 2 ^ 32"
  shows "\<exists>s'. paging_map_to (process_directory p s) va pa pe flags s = (0, s') \<and> process_ok p s'
    \<and> process_directory p s' = process_directory p s \<and> get_field p process_task s' = get_field p process_task s
    \<and> kernel_heap s' = kernel_heap s
    \<and> klive s' = klive s \<and> kavail s' = kavail s
    \<and> (\<forall>i < 1024. allocation p i s' = allocation p i s)
    \<and> space_keeps (process_directory p s) s s' \<and> space_pages (process_directory p s) s' = space_pages (process_directory p s) s
    \<and> (\<forall>q n. klive s q = Some n \<longrightarrow> q \<notin> space_pages (process_directory p s) s \<longrightarrow>
        (\<forall>x. in_range q (n * 4096) x \<longrightarrow> kmem s' x = kmem s x))
    \<and> (\<forall>i < (unat pe - unat pa) div 4096. process_lookup p (va + of_nat (i * 4096)) s' = (pa + of_nat (i * 4096)) OR flags)
    \<and> (\<forall>w. unat w mod 4096 = 0 \<longrightarrow> \<not> in_range va (unat pe - unat pa) w \<longrightarrow> process_lookup p w s' = process_lookup p w s)"
proof -
  let ?c = "process_directory p s" and ?t = "get_field p process_task s"
  have ok: "klive s p = Some 3" "klive s ?t = Some 1" "space_ok ?c s" "?t \<notin> space_pages ?c s"
    using assms(1) by (simp_all add: process_ok_def)
  obtain s' where s': "paging_map_to ?c va pa pe flags s = (0, s')" "space_ok ?c s'" "space_keeps ?c s s'"
    and maps: "\<forall>i < (unat pe - unat pa) div 4096. space_lookup ?c (va + of_nat (i * 4096)) s' = (pa + of_nat (i * 4096)) OR flags"
    and others: "\<forall>w. unat w mod 4096 = 0 \<longrightarrow> \<not> in_range va (unat pe - unat pa) w \<longrightarrow> space_lookup ?c w s' = space_lookup ?c w s"
    using paging_map_to_law [OF ok(3) assms(2-6), of flags] by blast
  have k: "kernel_heap s' = kernel_heap s" "klive s' = klive s" "kavail s' = kavail s" "kheap_ok s'"
    using s'(2,3) kmem_only_heap unfolding space_keeps_def space_ok_def directory_ok_def by blast+
  have pq: "p \<notin> space_pages ?c s" using space_live [OF ok(3), of p] ok(1) by auto
  have pages: "space_pages ?c s' = space_pages ?c s" by (rule space_keeps_same [OF ok(3) s'(3)])
  have mem: "kmem s' x = kmem s x" if "klive s q = Some n" "q \<notin> space_pages ?c s" "in_range q (n * 4096) x" for q n x
    using space_keeps_apart [OF ok(3) s'(3) that] .
  have pm: "kmem s' x = kmem s x" if "in_range p (3 * 4096) x" for x using mem [OF ok(1) pq that] .
  have tm: "kmem s' x = kmem s x" if "in_range ?t 4096 x" for x using mem [OF ok(2,4)] that by simp
  have t: "get_field p process_task s' = ?t" using process_same(1) pm tm by blast
  have d: "process_directory p s' = ?c" using process_same(2) pm tm by blast
  have a: "allocation p i s' = allocation p i s" if "i < 1024" for i using process_same(3) pm tm that by blast
  have "process_ok p s'" unfolding process_ok_def t d using k ok s'(2) pages by simp
  moreover have "process_lookup p w s' = space_lookup ?c w s'" "process_lookup p w s = space_lookup ?c w s" for w
    by (simp_all add: process_lookup_def d)
  ultimately show ?thesis using s'(1,3) d t k(1-3) a pages mem maps others by (intro exI [of _ s']) simp
qed

text \<open>Recording an allocation writes only the structure of the process.\<close>

lemma process_record:
  fixes v z :: u32
  assumes "process_ok p s" "i < 1024"
  defines "s' \<equiv> set_field p (allocation_size i) z (set_field p (allocation_ptr i) v s)"
  shows "process_ok p s'" "process_directory p s' = process_directory p s" "klive s' = klive s" "kavail s' = kavail s"
    "unat va mod 4096 = 0 \<Longrightarrow> process_lookup p va s' = process_lookup p va s"
    "j < 1024 \<Longrightarrow> allocation p j s' = (if j = i then (v, z) else allocation p j s)"
    "\<not> in_range p (3 * 4096) x \<Longrightarrow> kmem s' x = kmem s x"
    "space_pages (process_directory p s) s' = space_pages (process_directory p s) s"
    "process_parts p s' = process_parts p s"
proof -
  let ?c = "process_directory p s" and ?t = "get_field p process_task s"
  have ok: "kheap_ok s" "klive s p = Some 3" "klive s ?t = Some 1" "space_ok ?c s" "?t \<notin> space_pages ?c s"
    using assms(1) by (simp_all add: process_ok_def)
  show out: "kmem s' x = kmem s x" if "\<not> in_range p (3 * 4096) x" for x
    using set_field_outside [of p 3072 x "allocation_ptr i" v s]
      set_field_outside [of p 3072 x "allocation_size i" z "set_field p (allocation_ptr i) v s"] that assms(2)
    by (simp add: s'_def unat_allocation)
  have pq: "p \<notin> space_pages ?c s" using space_live [OF ok(4), of p] ok(2) by auto
  have hp: "kernel_heap s' = kernel_heap s" by (simp add: s'_def)
  note sp = space_store [OF ok(4,2) pq hp out]
  have sp': "space_ok ?c s'" "space_pages ?c s' = space_pages ?c s" "kheap_ok s'" "klive s' = klive s" "kavail s' = kavail s"
    by (rule sp(1), assumption) (rule sp(2,4,5,6), assumption)+
  show "klive s' = klive s" "kavail s' = kavail s" by (fact sp')+
  show "space_pages ?c s' = space_pages ?c s" by (fact sp')
  have tp: "?t \<noteq> p" using ok(2,3) by auto
  have t: "get_field p process_task s' = ?t" unfolding s'_def by (rule set_allocation(2) [OF assms(2)])
  show d: "process_directory p s' = ?c"
    unfolding process_directory_def t
  proof (rule get_field_cong [where n = 1024])
    fix x assume "in_range ?t (4 * 1024) x"
    then have "\<not> in_range p (3 * 4096) x"
      using klive_disjoint [OF ok(1,3,2) tp] by (simp add: disjoint_ranges_def)
    then show "kmem s' x = kmem s x" by (rule out)
  qed (simp_all add: task_offsets)
  show "process_ok p s'" unfolding process_ok_def t d using sp' ok by simp
  show "process_parts p s' = process_parts p s" unfolding process_parts_def t d sp'(2) ..
  show "unat va mod 4096 = 0 \<Longrightarrow> process_lookup p va s' = process_lookup p va s"
    unfolding process_lookup_def d by (rule sp(3), assumption)
  show "j < 1024 \<Longrightarrow> allocation p j s' = (if j = i then (v, z) else allocation p j s)"
    unfolding s'_def by (rule set_allocation(1) [OF assms(2)])
qed

lemma align_up_nat:
  fixes m :: nat
  shows "m mod 4096 = 0 \<Longrightarrow> (m + 4095) div 4096 * 4096 = m"
    "m mod 4096 \<noteq> 0 \<Longrightarrow> m + (4096 - m mod 4096) = (m + 4095) div 4096 * 4096"
proof -
  obtain q r where m: "m = r + 4096 * q" "m mod 4096 = r" "r < 4096"
    by (metis add.commute mult_div_mod_eq mod_less_divisor zero_less_numeral)
  show "(m + 4095) div 4096 * 4096 = m" if "m mod 4096 = 0"
    using m(1) that m(2) by simp
  have "(m + 4095) div 4096 = Suc q" if "r \<noteq> 0"
    unfolding m(1) using m(3) that by (intro div_nat_eqI) simp_all
  then show "m + (4096 - m mod 4096) = (m + 4095) div 4096 * 4096" if "m mod 4096 \<noteq> 0"
    unfolding m(2) using that m by simp
qed

lemma unat_align_address:
  assumes "unat a + 4095 < 2 ^ 32"
  shows "unat (paging_align_address a) = (unat a + 4095) div 4096 * 4096"
proof (cases "unat a mod 4096 = 0")
  case True
  then have "a mod 4096 = 0" by (simp add: word_unat_eq_iff unat_mod)
  then show ?thesis using align_up_nat(1) [OF True] by (simp add: paging_align_address_def PAGING_PAGE_SIZE_def)
next
  case False
  then have r: "a mod 4096 \<noteq> 0" by (simp add: word_unat_eq_iff unat_mod)
  have "unat (4096 - a mod 4096) = 4096 - unat a mod 4096"
    by (simp add: unat_sub word_le_nat_alt unat_mod)
  moreover have "unat a + (4096 - unat a mod 4096) < 2 ^ 32"
    using align_up_nat(2) [OF False] assms div_times_less_eq_dividend [of "unat a + 4095" 4096] by linarith
  ultimately have "unat (a + (4096 - a mod 4096)) = unat a + (4096 - unat a mod 4096)"
    by (subst unat_add_lem [THEN iffD1]) simp_all
  moreover have "paging_align_address a = a + (4096 - a mod 4096)"
    using r by (simp add: paging_align_address_def PAGING_PAGE_SIZE_def)
  ultimately show ?thesis using align_up_nat(2) [OF False] by simp
qed

lemma klive_top:
  assumes "kheap_ok s" "klive s p = Some n"
  shows "unat p + n * 4096 \<le> unat (saddr (kernel_heap s)) + heap_blocks (kernel_heap s) * 4096"
  using heap_live_addr [of "kernel_heap s" "kmem s" p n] assms by (simp add: kheap_defs)

text \<open>The last byte of the pool is below 4 GiB, so that the end of a buffer does not wrap.\<close>

definition pool_below_4g :: "'a kheap_state_scheme \<Rightarrow> bool" where
  "pool_below_4g s \<longleftrightarrow> unat (saddr (kernel_heap s)) + heap_blocks (kernel_heap s) * 4096 < 2 ^ 32"

lemma buffer_end:
  assumes "kheap_ok s" "klive s p = Some (blocks_of sz)" "0 < unat sz" "unat sz \<le> 2 ^ 32 - 4096" "pool_below_4g s"
  shows "unat (paging_align_address (p + sz)) = unat p + blocks_of sz * 4096"
    "unat p + blocks_of sz * 4096 < 2 ^ 32" "unat p mod 4096 = 0"
proof -
  have al: "unat p mod 4096 = 0" using klive_page_aligned [OF assms(1,2)] .
  then obtain k where k: "unat p = k * 4096" using mod_0_imp_dvd by (metis dvd_div_mult_self)
  have top: "unat p + blocks_of sz * 4096 < 2 ^ 32"
    using klive_top [OF assms(1,2)] assms(5) by (simp add: pool_below_4g_def)
  have "unat sz \<le> blocks_of sz * 4096" by (rule blocks_of_covers [OF assms(4)])
  then have add: "unat (p + sz) = unat p + unat sz"
    using top by (subst unat_add_lem [THEN iffD1]) simp_all
  have b: "blocks_of sz * 4096 = (unat sz + 4095) div 4096 * 4096" using assms(4) by (simp add: blocks_of_eq)
  have "k + blocks_of sz < 1048576" using top k by simp
  then have "unat p + blocks_of sz * 4096 \<le> 2 ^ 32 - 4096" using k by simp
  then have "unat p + unat sz + 4095 < 2 ^ 32" using blocks_of_covers [OF assms(4)] by simp
  then have "unat (paging_align_address (p + sz)) = (unat p + unat sz + 4095) div 4096 * 4096"
    using unat_align_address [of "p + sz"] add by simp
  also have "\<dots> = unat p + blocks_of sz * 4096" using b k by (simp add: add.assoc div_mult_self4)
  finally show "unat (paging_align_address (p + sz)) = unat p + blocks_of sz * 4096" .
  show "unat p + blocks_of sz * 4096 < 2 ^ 32" by (fact top)
  show "unat p mod 4096 = 0" by (fact al)
qed

lemma page_step:
  fixes a :: u32 assumes "unat a mod 4096 = 0" shows "unat (a + of_nat (k * 4096)) mod 4096 = 0"
proof -
  have "(4096 :: nat) dvd unat (of_nat (k * 4096) :: u32)"
    by (simp only: unat_of_nat) (simp add: take_bit_eq_mod dvd_mod)
  moreover have "4096 dvd unat a" using assms by (rule mod_0_imp_dvd)
  ultimately have "4096 dvd (unat a + unat (of_nat (k * 4096) :: u32)) mod 2 ^ 32" by (simp add: dvd_mod)
  then show ?thesis by (simp add: unat_word_ariths mod_eq_0_iff_dvd)
qed

text \<open>
  C24: \<open>process_malloc\<close> with room in the pool and a free entry returns a new zeroed buffer, records it in
  the first free entry and no other, maps its pages writable for the task at their own addresses,
  changes no other mapping, and keeps the invariant of the process.
\<close>

theorem process_malloc_maps:
  assumes "process_ok p s" "pool_below_4g s" "0 < unat sz" "unat sz \<le> 2 ^ 32 - 4096" "kroom s (blocks_of sz)"
    "allocation_search p NULL s 1024 0 = Some i"
  shows "\<exists>ptr s'. process_malloc p sz s = (ptr, s') \<and> ptr \<noteq> NULL \<and> process_ok p s'
    \<and> klive s ptr = None \<and> klive s' = (klive s)(ptr \<mapsto> blocks_of sz)
    \<and> (\<forall>x. in_range ptr (unat sz) x \<longrightarrow> kmem s' x = 0)
    \<and> (\<forall>j < 1024. allocation p j s' = (if j = i then (ptr, sz) else allocation p j s))
    \<and> (\<forall>k < blocks_of sz. process_lookup p (ptr + of_nat (k * 4096)) s' = (ptr + of_nat (k * 4096)) OR USER_PAGE)
    \<and> (\<forall>w. unat w mod 4096 = 0 \<longrightarrow> \<not> in_range ptr (blocks_of sz * 4096) w \<longrightarrow> process_lookup p w s' = process_lookup p w s)"
proof -
  let ?c = "process_directory p s"
  obtain ptr s1 where z: "kzalloc sz s = (ptr, s1)" by fastforce
  have ok: "kheap_ok s" "klive s p = Some 3" "space_ok ?c s" using assms(1) by (simp_all add: process_ok_def)
  note k = kzalloc_extends [OF ok(1) assms(5,3,4) z]
  note e = process_extends [OF assms(1) k(1,2)]
  have i: "i < 1024" using allocation_search_Some [OF assms(6)] by simp
  have free: "process_find_free_allocation_index p s1 = int i"
    using e(5) assms(6) by (simp add: process_find_free_allocation_index_def ALPHAOS_MAX_PROGRAM_ALLOCATIONS_def)
  have live: "klive s1 ptr = Some (blocks_of sz)" and below: "pool_below_4g s1"
    using k(4) assms(2) extends_heap [OF k(1)] by (simp_all add: pool_below_4g_def)
  note b = buffer_end [OF k(2) live assms(3,4) below]
  have new: "ptr \<notin> space_pages ?c s1"
    using space_live [OF ok(3), of ptr] k(3) e(6) by auto
  let ?pe = "paging_align_address (ptr + sz)"
  have n: "unat ?pe - unat ptr = blocks_of sz * 4096" "unat ?pe mod 4096 = 0" "ptr \<le> ?pe"
      "unat ptr + (unat ?pe - unat ptr) \<le> 2 ^ 32"
    using b by (simp_all add: word_le_nat_alt mod_add_left_eq)
  obtain s2 where s2: "paging_map_to (process_directory p s1) ptr ptr ?pe USER_PAGE s1 = (0, s2)" "process_ok p s2"
      "klive s2 = klive s1"
    and a2: "\<forall>j < 1024. allocation p j s2 = allocation p j s1"
    and m2: "\<forall>x. in_range ptr (blocks_of sz * 4096) x \<longrightarrow> kmem s2 x = kmem s1 x"
    and l2: "\<forall>k < blocks_of sz. process_lookup p (ptr + of_nat (k * 4096)) s2 = (ptr + of_nat (k * 4096)) OR USER_PAGE"
      "\<forall>w. unat w mod 4096 = 0 \<longrightarrow> \<not> in_range ptr (blocks_of sz * 4096) w \<longrightarrow> process_lookup p w s2 = process_lookup p w s1"
    using process_map [OF e(1) b(3,3) n(2,3,4), of USER_PAGE] live new unfolding n(1) e(2) by auto
  let ?s' = "set_field p (allocation_size i) sz (set_field p (allocation_ptr i) ptr s2)"
  note r = process_record [OF s2(2) i, where z = sz and v = ptr]
  have "process_malloc p sz s = (ptr, ?s')"
    using z k(6) free s2(1) by (simp add: process_malloc_def Let_def)
  moreover have "kmem ?s' x = 0" if "in_range ptr (unat sz) x" for x
  proof -
    have x: "in_range ptr (blocks_of sz * 4096) x" using in_range_mono [OF that blocks_of_covers [OF assms(4)]] .
    have "klive s1 p = Some 3" "ptr \<noteq> p" using k(3,4) ok(2) by auto
    then have "\<not> in_range p (3 * 4096) x"
      using klive_disjoint [OF k(2) live, of p 3] x by (auto simp: disjoint_ranges_def)
    then show ?thesis using r(7) m2 x k(7) [OF that] by simp
  qed
  moreover have "unat (ptr + of_nat (k * 4096)) mod 4096 = 0" for k by (rule page_step [OF b(3)])
  ultimately show ?thesis
    using r(1,3,5,6) s2(3) a2 l2 k(3,4,6) e(3,4) by (intro exI [of _ ptr] exI [of _ ?s']) simp
qed

text \<open>A process with one task and no allocations yet, on the heap after boot.\<close>

lemma booted_room: "n \<le> 25600 \<Longrightarrow> kroom booted n"
proof -
  assume n: "n \<le> 25600"
  have len: "length (ktable booted) = 25600"
    by (simp add: ktable_def length_table_bytes booted_def demo_state_def boot_state_def kheap_init_eq heap_blocks_def)
  have "length (filter free_entry (ktable booted)) = length (ktable booted)"
    using booted_heap(2) len by (simp add: kavail_def)
  then have "filter free_entry (ktable booted) = ktable booted"
    using length_filter_less [of _ "ktable booted" free_entry] by (metis filter_id_conv less_irrefl)
  then have "\<forall>e \<in> set (ktable booted). free_entry e" by (metis filter_id_conv)
  then have "fits (ktable booted) n 0" using n len by (simp add: fits_def)
  then show ?thesis unfolding kroom_def by blast
qed

text \<open>A state with the memory and the heap that boot leaves; all its memory is zero.\<close>

lemma like_booted:
  assumes "kmem s = kmem booted" "kernel_heap s = kernel_heap booted"
  shows "kheap_ok s" "kavail s = 25600" "n \<le> 25600 \<Longrightarrow> kroom s n" "kmem s x = 0" "unat x < 0x7E00 \<Longrightarrow> held s x"
proof -
  show "kheap_ok s" "kavail s = 25600" using booted_heap assms by (simp_all add: kheap_defs)
  show "kroom s n" if "n \<le> 25600" using booted_room [OF that] assms by (simp add: kroom_def ktable_def)
  show "kmem s x = 0" using assms(1) by (simp add: booted_def demo_state_def boot_state_def kheap_init_eq memset_apply)
  show "held s x" if "unat x < 0x7E00"
    using booted_held [of x] that assms by (simp add: held_def in_table_def in_pool_def live_bytes_def klive_def)
qed

lemma boot_process:
  fixes s0 :: "'a kheap_state_scheme"
  assumes "kmem s0 = kmem booted" "kernel_heap s0 = kernel_heap booted"
  shows "\<exists>p s. process_ok p s \<and> 24570 \<le> kavail s \<and> kernel_heap s = kernel_heap boot_state
     \<and> (\<forall>x. in_range p 9364 x \<longrightarrow> \<not> in_range (p + 4 * process_task) 4 x \<longrightarrow> kmem s x = 0)
     \<and> kmem s 0x6E00 = 0 \<and> (\<exists>m. s = s0\<lparr>kmem := m\<rparr>)"
proof -
  note b0 = like_booted [OF assms]
  obtain p s1 where p: "kzalloc sizeof_process s0 = (p, s1)" by fastforce
  have b: "blocks_of sizeof_process = 3" by (simp add: blocks_of_eq sizeof_process_def)
  note k1 = kzalloc_extends [OF b0(1) _ _ _ p]
  have k: "extends s0 s1" "kheap_ok s1" "klive s1 p = Some 3" "kavail s1 = 25597"
    using k1(1,2,4,5) b0(2,3) unfolding b by (simp_all add: sizeof_process_def)
  have zero: "kmem s1 x = 0" if "in_range p 9364 x" for x
    using k1(7) [of x] b0(3) [of 3] that unfolding b by (simp add: sizeof_process_def)
  have f0: "get_field p i s1 = 0" if "unat i < 2341" for i
    unfolding get_field_def word_at_def using field_slot [of p i _ 2341] that zero by (intro load32_zero) auto
  have low: "held s1 x \<and> kmem s1 x = 0" if "unat x < 0x7E00" for x
    using extends_held [OF k(1)] extends_mem [OF k(1)] b0(5) [OF that] b0(4) by simp
  have "get_field 0 ef_elf_memory s1 = 0"
    unfolding get_field_def word_at_def using low by (intro load32_zero) (auto simp: ef_offsets in_range_unat)
  then have held: "program_held p s1"
    using f0 [of process_ptr] low held_page [OF k(2,3)] in_range_mono [of p 9364 _ 12288]
    by (auto simp: program_held_def process_ptr_def elf_header_def in_range_unat)
  obtain t s2 where t: "kzalloc sizeof_task s1 = (t, s2)" by fastforce
  note k2 = kzalloc_page_extends [OF k(2) _ _ _ t]
  have k': "extends s1 s2" "kheap_ok s2" "klive s1 t = None" "klive s2 = (klive s1)(t \<mapsto> 1)" "kavail s2 = 25596"
    using k2(1-5) k(4) by (simp_all add: sizeof_task_def)
  have "fresh_page s1 t s2" "1026 \<le> kavail s2" using k' by (simp_all add: fresh_page_def)
  from task_init_law [OF this held] obtain c s3 where c: "task_space s1 t c s3" "get_field t task_page_directory s3 = c"
    "kavail s2 = kavail s3 + 1026" by blast
  have s3: "extends s1 s3" "kheap_ok s3" "klive s3 t = Some 1" "space_ok c s3" "t \<notin> space_pages c s3"
    using c(1) by (simp_all add: task_space_def fresh_page_def)
  have p3: "klive s3 p = Some 3" using extends_live [OF s3(1) k(3)] .
  have pq: "p \<notin> space_pages c s3" "t \<noteq> p" using space_live [OF s3(4), of p] p3 s3(3) by auto
  let ?s = "set_field p process_task t s3"
  have out: "kmem ?s x = kmem s3 x" if "\<not> in_range p (3 * 4096) x" for x
    using set_field_outside [of p 3072 x process_task t s3] that by (simp add: process_task_def)
  have sp: "space_ok c ?s" "space_pages c ?s = space_pages c s3" "kheap_ok ?s" "klive ?s = klive s3" "kavail ?s = kavail s3"
    using space_store [OF s3(4) p3 pq(1) _ out] by simp_all
  have "get_field t task_page_directory ?s = get_field t task_page_directory s3"
  proof (rule get_field_cong [where n = 1024])
    fix x assume "in_range t (4 * 1024) x"
    then have "\<not> in_range p (3 * 4096) x" using klive_disjoint [OF s3(2,3) p3 pq(2)] by (simp add: disjoint_ranges_def)
    then show "kmem ?s x = kmem s3 x" by (rule out)
  qed (simp_all add: task_offsets)
  moreover have "get_field p process_task ?s = t" by (simp add: get_set_field process_task_def)
  ultimately have "process_ok p ?s" using s3 sp p3 c(2) by (simp add: process_ok_def process_directory_def)
  moreover have hp: "kernel_heap ?s = kernel_heap boot_state"
    using extends_heap [OF s3(1)] extends_heap [OF k(1)] assms(2) by (simp add: booted_def demo_state_def)
  moreover have "kmem ?s x = 0" if "in_range p 9364 x" "\<not> in_range (p + 4 * process_task) 4 x" for x
  proof -
    have "in_range p (3 * 4096) x" using in_range_mono [OF that(1)] by simp
    then have "kmem s3 x = kmem s1 x" using extends_mem [OF s3(1) held_page [OF k(2,3)]] by simp
    then show ?thesis using zero [OF that(1)] that(2) by (simp add: set_field_def set_word_def store32_other)
  qed
  moreover have "kmem ?s 0x6E00 = 0"
  proof -
    have "\<not> in_pool ?s 0x6E00" unfolding in_pool_def hp by (simp add: boot_state_def kheap_init_eq heap_blocks_def in_range_unat)
    then have "\<not> in_range p (3 * 4096) 0x6E00" using klive_in_pool(1) [OF sp(3), of p 3] p3 sp(4) by auto
    then show ?thesis using out low [of "0x6E00"] extends_mem [OF s3(1)] by simp
  qed
  moreover have "\<exists>m. ?s = s0\<lparr>kmem := m\<rparr>"
  proof -
    obtain m1 m3 where "s1 = s0\<lparr>kmem := m1\<rparr>" "s3 = s1\<lparr>kmem := m3\<rparr>" using k(1) s3(1) unfolding extends_def by metis
    then show ?thesis by (intro exI [of _ "set_word m3 p process_task t"]) (simp add: set_field_def)
  qed
  ultimately show ?thesis using sp(5) c(3) k'(5) by (intro exI [of _ p] exI [of _ ?s]) auto
qed

text \<open>The same, with all entries empty.\<close>

lemma zero_allocations:
  assumes "\<forall>x. in_range p 9364 x \<longrightarrow> \<not> in_range (p + 4 * process_task) 4 x \<longrightarrow> kmem s x = 0"
  shows "unat j < 2341 \<Longrightarrow> j \<noteq> process_task \<Longrightarrow> get_field p j s = 0" "i < 1024 \<Longrightarrow> allocation p i s = (0, 0)"
proof -
  show f: "get_field p j s = 0" if j: "unat j < 2341" "j \<noteq> process_task" for j
    unfolding get_field_def word_at_def
  proof (rule load32_zero)
    fix x assume x: "in_range (p + 4 * j) 4 x"
    have "in_range p (4 * 2341) x" by (rule field_slot [OF x j(1)]) simp
    moreover have "\<not> in_range (p + 4 * process_task) 4 x"
      using field_slots_disjoint [of j process_task p] x j by (auto simp: disjoint_ranges_def process_task_def)
    ultimately show "kmem s x = 0" using assms by simp
  qed
  show "allocation p i s = (0, 0)" if "i < 1024"
    unfolding allocation_def using f unat_allocation [OF that] allocation_fields(4,5) [OF that that] that by simp
qed

lemma demo_process:
  "\<exists>p (s :: sim_drive task_state). process_ok p s \<and> pool_below_4g s \<and> 24570 \<le> kavail s
     \<and> (\<forall>i < 1024. allocation p i s = (0, 0)) \<and> kernel_heap s = kernel_heap boot_state"
proof -
  obtain p and s :: "sim_drive task_state" where s: "process_ok p s" "24570 \<le> kavail s" "kernel_heap s = kernel_heap boot_state"
    "\<forall>x. in_range p 9364 x \<longrightarrow> \<not> in_range (p + 4 * process_task) 4 x \<longrightarrow> kmem s x = 0"
    using boot_process [of booted] by blast
  moreover have "pool_below_4g s" using s(3) by (simp add: pool_below_4g_def boot_state_def kheap_init_eq heap_blocks_def)
  ultimately show ?thesis using zero_allocations(2) [OF s(4)] by blast
qed

theorem process_malloc_maps_witness:
  "\<exists>p (s :: sim_drive task_state) ptr s'. process_malloc p 512 s = (ptr, s') \<and> ptr \<noteq> NULL \<and> allocation p 0 s' = (ptr, 512)"
proof -
  obtain p and s :: "sim_drive task_state" where s: "process_ok p s" "pool_below_4g s" "24570 \<le> kavail s"
    "\<forall>i < 1024. allocation p i s = (0, 0)" using demo_process by blast
  have f: "get_field p (allocation_ptr 0) s = 0" using s(4) by (simp add: allocation_def)
  have "allocation_search p NULL s (Suc 1023) 0 = Some 0" by (simp only: allocation_search.simps f if_True simp_thms)
  then have f: "allocation_search p NULL s 1024 0 = Some 0" by simp
  have "blocks_of 512 = 1" by (simp add: blocks_of_1)
  then have "kroom s (blocks_of 512)" using kroom_one [of s] s(3) by simp
  with process_malloc_maps [OF s(1,2), of 512 0] f show ?thesis by fastforce
qed

text \<open>Recording writes only the table of allocations.\<close>

lemma allocation_record_other:
  assumes "i < 1024" "\<not> in_range (p + 116) 8192 x"
  shows "kmem (set_field p (allocation_size i) z (set_field p (allocation_ptr i) v s)) x = kmem s x"
proof -
  have out: "kmem (set_field p j w s) x = kmem s x" if "29 \<le> unat j" "unat j < 2077" for j w and s :: "'b kheap_state_scheme"
  proof -
    have "\<not> in_range (p + 116 + 4 * (j - 29)) 4 x"
    proof
      have u: "unat (j - 29) = unat j - 29" using that(1) by (simp add: unat_sub word_le_nat_alt)
      assume "in_range (p + 116 + 4 * (j - 29)) 4 x"
      then have "in_range (p + 116) (4 * 2048) x" by (rule field_slot) (use that u in simp_all)
      then show False using assms(2) by simp
    qed
    moreover have "p + 116 + 4 * (j - 29) = p + 4 * j" by (simp add: algebra_simps)
    ultimately show ?thesis by (simp add: set_field_def set_word_def store32_other)
  qed
  show ?thesis using assms(1) by (simp add: out unat_allocation)
qed

text \<open>
  The steps of \<open>process_free\<close> up to the release of the buffer, for any entry: an empty one is taken for an
  allocation at address 0.
\<close>

lemma process_free_law:
  assumes "process_ok p s" "allocation_search p ptr s 1024 0 = Some i" "allocation p i s = (ptr, sz)"
    "unat ptr mod 4096 = 0" "unat (paging_align_address (ptr + sz)) mod 4096 = 0"
    "unat ptr + unat (paging_align_address (ptr + sz)) \<le> 2 ^ 32"
  shows "\<exists>s'. process_free p ptr s = kfree ptr s' \<and> process_ok p s' \<and> s' = s\<lparr>kmem := kmem s'\<rparr>
    \<and> process_directory p s' = process_directory p s \<and> process_parts p s' = process_parts p s
    \<and> get_field p process_task s' = get_field p process_task s
    \<and> space_pages (process_directory p s) s' = space_pages (process_directory p s) s
    \<and> table_pages (process_directory p s) s' = table_pages (process_directory p s) s \<and> klive s' = klive s
    \<and> (\<forall>j < 1024. allocation p j s' = (if j = i then (0, 0) else allocation p j s))
    \<and> (\<forall>x. \<not> table_pages (process_directory p s) s x \<longrightarrow> \<not> in_range (p + 116) 8192 x \<longrightarrow> kmem s' x = kmem s x)
    \<and> (\<forall>k < unat (paging_align_address (ptr + sz)) div 4096. process_lookup p (ptr + of_nat (k * 4096)) s' = of_nat (k * 4096))
    \<and> (\<forall>w. unat w mod 4096 = 0 \<longrightarrow> \<not> in_range ptr (unat (paging_align_address (ptr + sz))) w \<longrightarrow>
         process_lookup p w s' = process_lookup p w s)"
proof -
  let ?pe = "paging_align_address (ptr + sz)" and ?c = "process_directory p s"
  have i: "i < 1024" using allocation_search_Some [OF assms(2)] by simp
  have a: "get_field p (allocation_ptr i) s = ptr" "get_field p (allocation_size i) s = sz"
    using assms(3) by (simp_all add: allocation_def)
  obtain s1 where s1: "paging_map_to ?c ptr 0 ?pe 0 s = (0, s1)" "process_ok p s1" "klive s1 = klive s"
      "process_directory p s1 = ?c" "get_field p process_task s1 = get_field p process_task s"
      "space_keeps ?c s s1" "space_pages ?c s1 = space_pages ?c s"
    and a1: "\<forall>j < 1024. allocation p j s1 = allocation p j s"
    and l1: "\<forall>k < unat ?pe div 4096. process_lookup p (ptr + of_nat (k * 4096)) s1 = of_nat (k * 4096)"
      "\<forall>w. unat w mod 4096 = 0 \<longrightarrow> \<not> in_range ptr (unat ?pe) w \<longrightarrow> process_lookup p w s1 = process_lookup p w s"
    using process_map [OF assms(1,4) _ assms(5), of 0 0] assms(6) by auto
  have search: "allocation_search p ptr s1 1024 0 = Some i"
    using allocation_search_cong [of 0 1024 p s1 s ptr] a1 assms(2) by (simp add: allocation_def)
  let ?s2 = "set_field p (allocation_size i) 0 (set_field p (allocation_ptr i) 0 s1)"
  note r = process_record [OF s1(2) i, where z = 0 and v = 0]
  have task: "get_field p process_task ?s2 = get_field p process_task s1" by (rule set_allocation(2) [OF i])
  have free: "process_free p ptr s = kfree ptr ?s2"
    using s1(1) assms(2) a search
    by (simp add: process_free_def process_get_allocation_by_addr_def process_allocation_unjoin_def ALPHAOS_MAX_PROGRAM_ALLOCATIONS_def)
  have tab: "table_pages ?c s1 = table_pages ?c s" "\<And>x. \<not> table_pages ?c s x \<Longrightarrow> kmem s1 x = kmem s x"
    using s1(6) by (simp_all only: space_keeps_def) blast
  have p1: "klive s1 p = Some 3" "space_ok ?c s1" using s1(2,4) by (simp_all add: process_ok_def)
  have "table_pages ?c ?s2 = table_pages ?c s1"
  proof -
    have "kmem ?s2 x = kmem s1 x" if "q \<in> space_pages ?c s1" "in_range q 4096 x" for q x
      by (rule r(7)) (use space_apart [OF p1(2,1) _ that] space_live [OF p1(2), of p] p1(1) in auto)
    then show ?thesis by (rule table_pages_cong)
  qed
  moreover obtain m1 where "s1 = s\<lparr>kmem := m1\<rparr>" using s1(6) by (auto simp only: space_keeps_def)
  then have "?s2 = s\<lparr>kmem := kmem ?s2\<rparr>" by (simp add: set_field_def)
  moreover have "process_parts p ?s2 = process_parts p s"
    using r(2,8) s1(4,5,7) task by (simp add: process_parts_def)
  moreover have "unat (ptr + of_nat (k * 4096)) mod 4096 = 0" for k by (rule page_step [OF assms(4)])
  ultimately show ?thesis
    using free r(1-3,5,6,8) s1(3-5,7) a1 l1 tab task allocation_record_other [OF i, of p _ 0 0 s1]
    by (intro exI [of _ ?s2]) simp
qed

text \<open>
  C25: \<open>process_free\<close> releases the buffer and its entry and keeps the invariant of the process, but
  it maps far more than the buffer: from the buffer on, as many pages as there are below the end of
  the buffer lose their mapping and get the entries 0, 4096, 8192 and so on, which are not present. Every
  later allocation of the process in that range becomes inaccessible to it.
\<close>

theorem process_free_unmaps:
  assumes "process_ok p s" "pool_below_4g s" "allocation_search p ptr s 1024 0 = Some i" "allocation p i s = (ptr, sz)"
    "0 < unat sz" "unat sz \<le> 2 ^ 32 - 4096" "klive s ptr = Some (blocks_of sz)" "ptr \<notin> process_parts p s"
    "2 * unat ptr + blocks_of sz * 4096 \<le> 2 ^ 32"
  shows "process_ok p (process_free p ptr s) \<and> klive (process_free p ptr s) = (klive s)(ptr := None)
    \<and> (\<forall>j < 1024. allocation p j (process_free p ptr s) = (if j = i then (0, 0) else allocation p j s))
    \<and> (\<forall>k < unat ptr div 4096 + blocks_of sz.
         process_lookup p (ptr + of_nat (k * 4096)) (process_free p ptr s) = of_nat (k * 4096))
    \<and> (\<forall>w. unat w mod 4096 = 0 \<longrightarrow> \<not> in_range ptr (unat ptr + blocks_of sz * 4096) w \<longrightarrow>
         process_lookup p w (process_free p ptr s) = process_lookup p w s)"
proof -
  have ok: "kheap_ok s" using assms(1) by (simp add: process_ok_def)
  note b = buffer_end [OF ok assms(7,5,6,2)]
  have pages: "(unat ptr + blocks_of sz * 4096) div 4096 = unat ptr div 4096 + blocks_of sz" by simp
  have n: "unat (paging_align_address (ptr + sz)) mod 4096 = 0"
    "unat ptr + unat (paging_align_address (ptr + sz)) \<le> 2 ^ 32" using b assms(9) by (simp_all add: mod_add_left_eq)
  obtain s1 where s1: "process_free p ptr s = kfree ptr s1" "process_ok p s1" "process_parts p s1 = process_parts p s" "klive s1 = klive s"
    "\<forall>j < 1024. allocation p j s1 = (if j = i then (0, 0) else allocation p j s)"
    "\<forall>k < unat ptr div 4096 + blocks_of sz. process_lookup p (ptr + of_nat (k * 4096)) s1 = of_nat (k * 4096)"
    "\<forall>w. unat w mod 4096 = 0 \<longrightarrow> \<not> in_range ptr (unat ptr + blocks_of sz * 4096) w \<longrightarrow>
         process_lookup p w s1 = process_lookup p w s"
    using process_free_law [OF assms(1,3,4) b(3) n] unfolding b(1) pages by blast
  have "ptr \<notin> process_parts p s1" using assms(8) s1(3) by simp
  note f = process_kfree [OF s1(2) _ this]
  have "unat (ptr + of_nat (k * 4096)) mod 4096 = 0" for k by (rule page_step [OF b(3)])
  then show ?thesis unfolding s1(1) using f s1(4-7) assms(7) by simp
qed

theorem process_free_unmaps_witness:
  "\<exists>p (s :: sim_drive task_state) ptr. klive s ptr = Some 1 \<and> klive (process_free p ptr s) ptr = None
     \<and> process_lookup p (ptr + 0x1000) (process_free p ptr s) = 0x1000"
proof -
  obtain p and s :: "sim_drive task_state" where s: "process_ok p s" "pool_below_4g s" "24570 \<le> kavail s"
    "\<forall>i < 1024. allocation p i s = (0, 0)" "kernel_heap s = kernel_heap boot_state" using demo_process by blast
  obtain q s1 where q: "kzalloc 4096 s = (q, s1)" by fastforce
  have ok: "kheap_ok s" using s(1) by (simp add: process_ok_def)
  note k = kzalloc_page_extends [OF ok _ _ _ q]
  have k': "extends s s1" "kheap_ok s1" "klive s q = None" "klive s1 q = Some 1"
    using k(1-4) s(3) by simp_all
  note e = process_extends [OF s(1) k'(1,2)]
  let ?s = "set_field p (allocation_size 0) 4096 (set_field p (allocation_ptr 0) q s1)"
  note r = process_record [OF e(1), of 0, where z = 4096 and v = q]
  have "process_parts p ?s = process_parts p s" using r(9) e(7) by simp
  then have new: "q \<notin> process_parts p ?s" using process_parts_live [OF s(1), of q] k'(3) by auto
  have live: "klive ?s q = Some 1" using r(3) k'(4) by simp
  have hp: "kernel_heap ?s = kernel_heap boot_state" using extends_heap [OF k'(1)] s(5) by simp
  have top: "unat q + 4096 \<le> 121634816"
    using klive_top [of ?s q 1] r(1) live hp by (simp add: process_ok_def boot_state_def kheap_init_eq heap_blocks_def)
  have below: "pool_below_4g ?s" using hp by (simp add: pool_below_4g_def boot_state_def kheap_init_eq heap_blocks_def)
  have a: "allocation p 0 ?s = (q, 4096)" using r(6) [of 0] by simp
  then have "get_field p (allocation_ptr 0) ?s = q" by (simp add: allocation_def)
  then have "allocation_search p q ?s (Suc 1023) 0 = Some 0" by (simp only: allocation_search.simps if_True simp_thms)
  then have f: "allocation_search p q ?s 1024 0 = Some 0" by simp
  have b: "blocks_of 4096 = 1" by (simp add: blocks_of_1)
  have "kheap_ok ?s" using r(1) by (simp add: process_ok_def)
  then have "4096 dvd unat q" "0 < unat q"
    using klive_page_aligned [of ?s q] klive_nonnull [of ?s q] live by (auto simp: unat_gt_0)
  then have "0 < unat q div 4096" using dvd_imp_le [of 4096 "unat q"] by (simp add: div_greater_zero_iff)
  then show ?thesis
    using process_free_unmaps [OF r(1) below f a] live new top unfolding b
    by (intro exI [of _ p] exI [of _ ?s] exI [of _ q]) (auto dest!: spec [of _ 1])
qed

section \<open>Loading a program\<close>

lemma elf_load_result: "elf_load ops filename file_out s = Some (res, f, s') \<Longrightarrow> res = 0"
  unfolding elf_load_def Let_def by (auto simp: bind_eq_Some_conv split: prod.splits)

lemma set_file_type_other:
  "unat i < 2 ^ 30 \<Longrightarrow> i \<noteq> 2077 \<Longrightarrow> get_field p i (set_file_type p v s) = get_field p i s"
proof -
  assume i: "unat i < 2 ^ 30" "i \<noteq> 2077"
  have "in_range (p + 4 * 2077) 4 (p + 8308)" by (simp add: in_range_def)
  then have "\<not> in_range (p + 4 * i) 4 (p + 8308)"
    using field_slots_disjoint [of 2077 i p] i by (auto simp: disjoint_ranges_def)
  then show ?thesis
    unfolding get_field_def word_at_def set_file_type_def by (intro load32_cong) auto
qed

lemma file_type_set_field:
  assumes "unat i < 2 ^ 30" "i \<noteq> 2077"
  shows "process_file_type (kmem (set_field p i v s)) p = process_file_type (kmem s) p"
proof -
  have "in_range (p + 4 * 2077) 4 (p + 8308)" by (simp add: in_range_def)
  then have "\<not> in_range (p + 4 * i) 4 (p + 8308)"
    using field_slots_disjoint [of 2077 i p] assms by (auto simp: disjoint_ranges_def)
  then show ?thesis
    by (auto simp: process_file_type_def set_field_def set_word_def store32_other)
qed

text \<open>
  \<open>process_load_data\<close> reports success for every file: \<open>elf_load\<close> returns 0 on each of its error paths,
  so a file that cannot be opened or is no ELF image makes an ELF process, and the fallback to the binary
  loader is never taken.
\<close>

theorem process_load_data_always_ok:
  assumes "process_load_data ops filename p s = Some (r, s')"
  shows "r = 0 \<and> process_file_type (kmem s') p = PROCESS_FILETYPE_ELF"
proof -
  obtain res s1 where l: "process_load_elf ops filename p s = Some (res, s1)"
    using assms by (auto simp: process_load_data_def bind_eq_Some_conv)
  then obtain f s2 where s1: "res = 0" "s1 = set_field p process_ptr f (set_file_type p PROCESS_FILETYPE_ELF s2)"
    using elf_load_result by (fastforce simp: process_load_elf_def bind_eq_Some_conv split: if_splits)
  then have "process_file_type (kmem s1) p = PROCESS_FILETYPE_ELF"
    by (simp add: file_type_set_field process_ptr_def) (simp add: set_file_type_def process_file_type_def)
  then show ?thesis using assms l s1(1) by (simp add: process_load_data_def EINFORMAT_def)
qed

definition process_demo :: "sim_drive process_state" where
  "process_demo = task_state.extend booted \<lparr>current_process = 0, processes = replicate 12 0\<rparr>"

lemma fopen_r_empty_path: "kmem s filename = 0 \<Longrightarrow> fopen_r ops filename s = Some (0, s)"
  by (simp add: fopen_r_def fopen_mode_def fopen_result_def pathparser_parse_def pathparser_get_drive_by_path_def os_defs
      strlen_def strlen_from.simps [of _ _ 0] strnlen_def strnlen_from.simps [of _ _ _ 0] pathparser_path_valid_format_def)

theorem process_load_data_always_ok_witness:
  "\<exists>s'. process_load_data (\<lambda>_. fat16_ops (sim_bus (\<lambda>_. 0))) 0x3000 0x200000 process_demo = Some (0, s')
     \<and> process_file_type (kmem s') 0x200000 = PROCESS_FILETYPE_ELF"
proof -
  let ?ops = "\<lambda>_. fat16_ops (sim_bus (\<lambda>_. 0))"
  note d = process_demo_def task_state.extend_def
  have h: "kmem process_demo = kmem booted" "kernel_heap process_demo = kernel_heap booted" by (simp_all add: d)
  have ok: "kheap_ok process_demo" "kavail process_demo = 25600" using booted_heap h by (simp_all add: kheap_defs)
  obtain f s1 where f: "kzalloc sizeof_elf_file process_demo = (f, s1)" by fastforce
  have e: "extends process_demo s1" using kzalloc_page_extends(1) [OF ok(1) _ _ _ f] ok(2) by (simp add: sizeof_elf_file_def)
  have "held process_demo 0x3000" using booted_held [of "0x3000"] h
    by (simp add: held_def in_table_def in_pool_def live_bytes_def klive_def)
  then have "kmem s1 0x3000 = 0"
    using extends_mem [OF e] h by (simp add: booted_def demo_state_def boot_state_def kheap_init_eq memset_apply)
  note o = fopen_r_empty_path [where ops = ?ops, OF this]
  have "process_load_elf ?ops 0x3000 0x200000 process_demo
      = Some (0, set_field 0x200000 process_ptr 0 (set_file_type 0x200000 PROCESS_FILETYPE_ELF s1))"
    by (simp add: process_load_elf_def elf_load_def f o fclose_def file_get_descriptor_def)
  then have l: "process_load_data ?ops 0x3000 0x200000 process_demo
      = Some (0, set_field 0x200000 process_ptr 0 (set_file_type 0x200000 PROCESS_FILETYPE_ELF s1))"
    by (simp add: process_load_data_def EINFORMAT_def)
  show ?thesis using process_load_data_always_ok [OF l] l by blast
qed

end
