(* ===== verification/Idt.thy ===== *)
theory Idt
  imports Process
begin

text \<open>
  The interrupt descriptor table and the tables of callbacks, \<^verbatim>\<open>src/src/idt/idt.c\<close> and
  \<^verbatim>\<open>idt.h\<close>: building the descriptors, registering interrupt callbacks and system calls. The
  handlers that call through these tables are in the theory \<open>Kernel\<close>, after the functions the tables
  can hold. A function pointer is a value of a data type of those functions, 0 is \<open>None\<close>.
\<close>

section \<open>Data\<close>

definition ALPHAOS_TOTAL_INTERRUPTS :: nat where [os_defs]: "ALPHAOS_TOTAL_INTERRUPTS = 512"
definition ALPHAOS_MAX_ISR80H_COMMANDS :: nat where [os_defs]: "ALPHAOS_MAX_ISR80H_COMMANDS = 1024"
definition KERNEL_CODE_SELECTOR :: u16 where [os_defs]: "KERNEL_CODE_SELECTOR = 0x08"
definition KERNEL_DATA_SELECTOR :: u32 where [os_defs]: "KERNEL_DATA_SELECTOR = 0x10"

datatype interrupt_callback = Idt_handle_exception | Idt_clock | Classic_keyboard_handle_interrupt

datatype isr80h_command =
    Command0_sum | Command1_print | Command2_getkey | Command3_putchar | Command4_malloc | Command5_free
  | Command6_process_load_start | Command7_invoke_system_command | Command8_get_program_arguments | Command9_exit

text \<open>
  Code addresses that the linker and the assembler provide: the 512 interrupt stubs of
  \<^verbatim>\<open>idt.asm\<close>, the function \<open>idt_zero\<close> and the system call stub.
\<close>

record kernel_code =
  interrupt_pointer_table :: "nat \<Rightarrow> addr"
  idt_zero_address :: addr
  isr80h_wrapper :: addr

text \<open>\<open>idt_descriptors\<close> is the address of the array; \<open>idtr\<close> is the processor's register.\<close>

record 'd idt_state = "'d process_state" +
  idt_descriptors :: addr
  idtr_descriptor_limit :: u16
  idtr_descriptor_base :: u32
  idtr :: "u16 \<times> u32"
  interrupt_callbacks :: "interrupt_callback option list"
  isr80h_commands :: "isr80h_command option list"

section \<open>idt.c\<close>

definition no_interrupt_handler :: "'d bus \<Rightarrow> ('d, 'a) idt_state_scheme \<Rightarrow> ('d, 'a) idt_state_scheme" where
  "no_interrupt_handler bus s = s\<lparr>hw := bus_outb bus 0x20 0x20 (hw s)\<rparr>"

definition idt_zero :: "'a terminal_state_scheme \<Rightarrow> 'a terminal_state_scheme" where
  "idt_zero s = print_literal (ascii ''Division by zero exception'' @ [0x0A]) s"

text \<open>\<open>struct idt_desc\<close>: \<open>offset_1\<close>, \<open>selector\<close>, \<open>zero\<close>, \<open>type_attr\<close>, \<open>offset_2\<close> at offsets 0, 2, 4, 5, 6.\<close>

definition idt_set :: "nat \<Rightarrow> addr \<Rightarrow> ('d, 'a) idt_state_scheme \<Rightarrow> ('d, 'a) idt_state_scheme" where
  "idt_set interrupt_no address s =
     (let desc = idt_descriptors s + of_nat (8 * interrupt_no);
          m = store16 (kmem s) desc (ucast (address AND 0x0000FFFF));
          m = store16 m (desc + 2) KERNEL_CODE_SELECTOR;
          m = m(desc + 4 := 0x00);
          m = m(desc + 5 := 0xEE);
          m = store16 m (desc + 6) (ucast (drop_bit 16 address)) in
      s\<lparr>kmem := m\<rparr>)"

definition idt_register_interrupt_callback ::
  "int \<Rightarrow> interrupt_callback \<Rightarrow> ('d, 'a) idt_state_scheme \<Rightarrow> int \<times> ('d, 'a) idt_state_scheme" where
  "idt_register_interrupt_callback interrupt callback s =
     (if interrupt < 0 \<or> interrupt \<ge> int ALPHAOS_TOTAL_INTERRUPTS then (- EINVARG, s)
      else (0, s\<lparr>interrupt_callbacks := (interrupt_callbacks s)[nat interrupt := Some callback]\<rparr>))"

definition idt_load :: "('d, 'a) idt_state_scheme \<Rightarrow> ('d, 'a) idt_state_scheme" where
  "idt_load s = s\<lparr>idtr := (idtr_descriptor_limit s, idtr_descriptor_base s)\<rparr>"

definition idt_init :: "kernel_code \<Rightarrow> ('d, 'a) idt_state_scheme \<Rightarrow> ('d, 'a) idt_state_scheme" where
  "idt_init code s =
     (let s = s\<lparr>kmem := memset (kmem s) (idt_descriptors s) 0 (8 * ALPHAOS_TOTAL_INTERRUPTS)\<rparr>;
          s = s\<lparr>idtr_descriptor_limit := of_nat (8 * ALPHAOS_TOTAL_INTERRUPTS - 1)\<rparr>;
          s = s\<lparr>idtr_descriptor_base := idt_descriptors s\<rparr>;
          s = fold (\<lambda>i. idt_set i (interrupt_pointer_table code i)) [0..<ALPHAOS_TOTAL_INTERRUPTS] s;
          s = idt_set 0 (idt_zero_address code) s;
          s = idt_set 0x80 (isr80h_wrapper code) s;
          s = fold (\<lambda>i s. snd (idt_register_interrupt_callback (int i) Idt_handle_exception s)) [0..<0x20] s;
          (r, s) = idt_register_interrupt_callback 0x20 Idt_clock s in
      idt_load s)"

text \<open>A panic is \<open>None\<close>.\<close>

definition isr80h_register_command ::
  "int \<Rightarrow> isr80h_command \<Rightarrow> ('d, 'a) idt_state_scheme \<Rightarrow> ('d, 'a) idt_state_scheme option" where
  "isr80h_register_command command_id command s =
     (if command_id < 0 \<or> command_id \<ge> int ALPHAOS_MAX_ISR80H_COMMANDS then None
      else if isr80h_commands s ! nat command_id \<noteq> None then None
      else Some (s\<lparr>isr80h_commands := (isr80h_commands s)[nat command_id := Some command]\<rparr>))"

section \<open>The descriptors\<close>

text \<open>What the processor reads from the descriptor of an interrupt: offset, selector and type byte.\<close>

definition gate :: "mem \<Rightarrow> addr \<Rightarrow> nat \<Rightarrow> u32 \<times> u16 \<times> u8" where
  "gate m base i =
     (let desc = base + of_nat (8 * i) in
      (ucast (load16 m desc) OR push_bit 16 (ucast (load16 m (desc + 6))), load16 m (desc + 2), m (desc + 5)))"

lemma gate_slot:
  assumes "i < 512" "in_range (base + of_nat (8 * i)) 8 x" shows "in_range base 4096 x"
proof -
  obtain k where "k < 8" "x = base + of_nat (8 * i + k)"
    using assms(2) by (elim in_rangeE) (simp add: add.assoc)
  then show ?thesis using assms(1) in_range_nth [of "8 * i + k" 4096 base] by simp
qed

lemma gates_disjoint:
  assumes "i < 512" "j < 512" "i \<noteq> j" "in_range (base + of_nat (8 * i)) 8 x"
  shows "\<not> in_range (base + of_nat (8 * j)) 8 x"
proof
  assume "in_range (base + of_nat (8 * j)) 8 x"
  then obtain k l where "k < 8" "x = base + of_nat (8 * i + k)" "l < 8" "x = base + of_nat (8 * j + l)"
    using assms(4) by (elim in_rangeE) (simp add: add.assoc)
  then have "8 * i + k = 8 * j + l"
    using assms(1,2) add_of_nat_u32_inject [of "8 * i + k" "8 * j + l" base] by auto
  then show False using \<open>k < 8\<close> \<open>l < 8\<close> assms(3) by presburger
qed

lemma gate_cong:
  "(\<And>x. in_range (base + of_nat (8 * i)) 8 x \<Longrightarrow> m x = m' x) \<Longrightarrow> gate m base i = gate m' base i"
  by (simp add: gate_def Let_def load16_def in_range_Suc eval_nat_numeral add.assoc)

lemma load16_store16_other: "\<not> in_range a 2 b \<Longrightarrow> \<not> in_range a 2 (b + 1) \<Longrightarrow> load16 (store16 m a v) b = load16 m b"
  by (simp add: load16_def store16_other)

lemma word_split:
  fixes a :: u32
  shows "ucast (ucast (a AND 0x0000FFFF) :: u16) OR push_bit 16 (ucast (ucast (drop_bit 16 a) :: u16)) = a"
proof -
  have m: "(0x0000FFFF :: u32) = mask 16" by (simp add: mask_eq_exp_minus_1)
  show ?thesis
    unfolding m by (rule bit_word_eqI)
      (auto simp: bit_or_iff bit_push_bit_iff bit_ucast_iff bit_and_iff bit_drop_bit_eq bit_mask_iff)
qed

lemma gate_idt_set:
  assumes "i < 512" "j < 512"
  shows "gate (kmem (idt_set i a s)) (idt_descriptors s) j =
      (if j = i then (a, KERNEL_CODE_SELECTOR, 0xEE) else gate (kmem s) (idt_descriptors s) j)"
    "\<not> in_range (idt_descriptors s) 4096 x \<Longrightarrow> kmem (idt_set i a s) x = kmem s x"
    "idt_set i a s = s\<lparr>kmem := kmem (idt_set i a s)\<rparr>"
proof -
  let ?d = "idt_descriptors s + of_nat (8 * i)"
  have out: "kmem (idt_set i a s) x = kmem s x" if "\<not> in_range ?d 8 x" for x
    using that by (simp add: idt_set_def Let_def store16_def in_range_Suc eval_nat_numeral add.assoc)
  then show "\<not> in_range (idt_descriptors s) 4096 x \<Longrightarrow> kmem (idt_set i a s) x = kmem s x"
    using gate_slot [OF assms(1)] by blast
  show "idt_set i a s = s\<lparr>kmem := kmem (idt_set i a s)\<rparr>" by (simp add: idt_set_def Let_def)
  show "gate (kmem (idt_set i a s)) (idt_descriptors s) j =
      (if j = i then (a, KERNEL_CODE_SELECTOR, 0xEE) else gate (kmem s) (idt_descriptors s) j)"
  proof (cases "j = i")
    case True
    have "load16 (m(y := v)) b = load16 m b" if "y \<noteq> b" "y \<noteq> b + 1" for m :: mem and y b v
      using that by (simp add: load16_def)
    then show ?thesis
      unfolding True gate_def idt_set_def Let_def
      by (simp add: load16_store16_other in_range_2 word_split add.assoc store16_other)
  next
    case False
    then have "gate (kmem (idt_set i a s)) (idt_descriptors s) j = gate (kmem s) (idt_descriptors s) j"
      using out gates_disjoint [OF assms(2,1)] by (intro gate_cong) blast
    then show ?thesis using False by simp
  qed
qed

lemma idt_set_fold:
  assumes "n \<le> 512"
  shows "\<exists>m. fold (\<lambda>i. idt_set i (f i)) [0..<n] s = s\<lparr>kmem := m\<rparr>
    \<and> (\<forall>j < n. gate m (idt_descriptors s) j = (f j, KERNEL_CODE_SELECTOR, 0xEE))
    \<and> (\<forall>x. \<not> in_range (idt_descriptors s) 4096 x \<longrightarrow> m x = kmem s x)"
  using assms
proof (induction n)
  case 0
  show ?case by (intro exI [of _ "kmem s"]) simp
next
  case (Suc n)
  then obtain m where m: "fold (\<lambda>i. idt_set i (f i)) [0..<n] s = s\<lparr>kmem := m\<rparr>"
    "\<forall>j < n. gate m (idt_descriptors s) j = (f j, KERNEL_CODE_SELECTOR, 0xEE)"
    "\<forall>x. \<not> in_range (idt_descriptors s) 4096 x \<longrightarrow> m x = kmem s x" by auto
  let ?s1 = "idt_set n (f n) (s\<lparr>kmem := m\<rparr>)"
  have n: "n < 512" using Suc.prems by simp
  note g = gate_idt_set [OF n, where a = "f n" and s = "s\<lparr>kmem := m\<rparr>", simplified]
  have "fold (\<lambda>i. idt_set i (f i)) [0..<Suc n] s = ?s1" using m(1) by simp
  also have "\<dots> = s\<lparr>kmem := kmem ?s1\<rparr>" using g(3) [OF n] by (metis kheap_state.update_convs(1) kheap_state.surjective)
  finally have "fold (\<lambda>i. idt_set i (f i)) [0..<Suc n] s = s\<lparr>kmem := kmem ?s1\<rparr>" .
  moreover have "gate (kmem ?s1) (idt_descriptors s) j = (f j, KERNEL_CODE_SELECTOR, 0xEE)" if "j < Suc n" for j
    using g(1) [of j] m(2) that n by (cases "j = n") auto
  moreover have "kmem ?s1 x = kmem s x" if "\<not> in_range (idt_descriptors s) 4096 x" for x
    using g(2) [OF n that] m(3) that by simp
  ultimately show ?case by blast
qed

lemma register_fold:
  "fold (\<lambda>i s. snd (idt_register_interrupt_callback (int i) c s)) xs s
     = s\<lparr>interrupt_callbacks := fold (\<lambda>i cs. if i < 512 then cs[i := Some c] else cs) xs (interrupt_callbacks s)\<rparr>"
  by (induction xs arbitrary: s) (simp_all add: idt_register_interrupt_callback_def ALPHAOS_TOTAL_INTERRUPTS_def)

lemma nth_fold_update:
  "n \<le> 512 \<Longrightarrow> length cs = 512 \<Longrightarrow> j < 512 \<Longrightarrow>
   length (fold (\<lambda>i cs. if i < 512 then cs[i := v] else cs) [0..<n] cs) = 512
   \<and> fold (\<lambda>i cs. if i < 512 then cs[i := v] else cs) [0..<n] cs ! j = (if j < n then v else cs ! j)"
proof (induction n)
  case (Suc n)
  then show ?case by (cases "j = n") (auto simp: nth_list_update)
qed simp

lemma register_clock:
  "idt_register_interrupt_callback 0x20 c s = (0, s\<lparr>interrupt_callbacks := (interrupt_callbacks s)[32 := Some c]\<rparr>)"
  by (simp add: idt_register_interrupt_callback_def ALPHAOS_TOTAL_INTERRUPTS_def)

text \<open>
  C26: after \<open>idt_init\<close> the processor finds in every one of the 512 descriptors a 32-bit interrupt gate
  callable from user code, to \<open>idt_zero\<close> for 0, to the system call stub for 0x80 and to its own stub for every
  other number; the limit of the register covers the table. Exceptions 0 to 31 have the exception
  callback, 32 the clock, and the other callbacks and the memory outside the table are unchanged.
\<close>

theorem idt_init_gates:
  fixes code :: kernel_code
  assumes "length (interrupt_callbacks s) = 512"
  defines "s' \<equiv> idt_init code s"
  shows "(\<forall>i < 512. gate (kmem s') (idt_descriptors s') i =
      (if i = 0 then idt_zero_address code else if i = 0x80 then isr80h_wrapper code else interrupt_pointer_table code i,
       KERNEL_CODE_SELECTOR, 0xEE))
    \<and> idtr s' = (8 * 512 - 1, idt_descriptors s')
    \<and> (\<forall>i < 512. interrupt_callbacks s' ! i =
      (if i < 0x20 then Some Idt_handle_exception else if i = 0x20 then Some Idt_clock else interrupt_callbacks s ! i))
    \<and> (\<forall>x. \<not> in_range (idt_descriptors s) 4096 x \<longrightarrow> kmem s' x = kmem s x)"
proof -
  let ?b = "idt_descriptors s"
  let ?s0 = "s\<lparr>kmem := memset (kmem s) ?b 0 4096, idtr_descriptor_limit := 4095, idtr_descriptor_base := ?b\<rparr>"
  obtain m where m: "fold (\<lambda>i. idt_set i (interrupt_pointer_table code i)) [0..<512] ?s0 = ?s0\<lparr>kmem := m\<rparr>"
    "\<forall>j < 512. gate m ?b j = (interrupt_pointer_table code j, KERNEL_CODE_SELECTOR, 0xEE)"
    "\<forall>x. \<not> in_range ?b 4096 x \<longrightarrow> m x = kmem ?s0 x"
    using idt_set_fold [of 512 "interrupt_pointer_table code" ?s0] by auto
  let ?s1 = "?s0\<lparr>kmem := m\<rparr>"
  let ?s2 = "idt_set 0 (idt_zero_address code) ?s1" and ?s3 = "idt_set 0x80 (isr80h_wrapper code) (idt_set 0 (idt_zero_address code) ?s1)"
  let ?cs = "(fold (\<lambda>i cs. if i < 512 then cs[i := Some Idt_handle_exception] else cs) [0..<32] (interrupt_callbacks s))[32 := Some Idt_clock]"
  have s2: "?s2 = ?s1\<lparr>kmem := kmem ?s2\<rparr>" and s3: "?s3 = ?s2\<lparr>kmem := kmem ?s3\<rparr>"
    by (rule gate_idt_set(3) [of _ 0]; simp)+
  have f: "idt_descriptors ?s2 = ?b" "interrupt_callbacks ?s3 = interrupt_callbacks s" "idt_descriptors ?s3 = ?b"
      "idtr_descriptor_limit ?s3 = 4095" "idtr_descriptor_base ?s3 = ?b"
    using s2 s3 by (simp_all add: idt_set_def Let_def)
  have s': "s' = idt_load (?s3\<lparr>interrupt_callbacks := ?cs\<rparr>)"
    unfolding s'_def idt_init_def Let_def ALPHAOS_TOTAL_INTERRUPTS_def
    using m(1) f(2) by (simp add: register_fold register_clock)
  have g2: "gate (kmem ?s2) ?b i = (if i = 0 then (idt_zero_address code, KERNEL_CODE_SELECTOR, 0xEE) else gate m ?b i)"
    if "i < 512" for i
    using gate_idt_set(1) [of 0 i "idt_zero_address code" ?s1] that by simp
  have g3: "gate (kmem ?s3) ?b i = (if i = 0x80 then (isr80h_wrapper code, KERNEL_CODE_SELECTOR, 0xEE) else gate (kmem ?s2) ?b i)"
    if "i < 512" for i
    using gate_idt_set(1) [of 128 i "isr80h_wrapper code" ?s2] that f(1) by simp
  have out: "kmem ?s3 x = kmem s x" if "\<not> in_range ?b 4096 x" for x
    using gate_idt_set(2) [of 128 0, where s = ?s2 and x = x] gate_idt_set(2) [of 0 0, where s = ?s1 and x = x]
      m(3) f(1) that by (simp add: memset_apply)
  have cs: "?cs ! i = (if i < 0x20 then Some Idt_handle_exception else if i = 0x20 then Some Idt_clock else interrupt_callbacks s ! i)"
    if "i < 512" for i
    using nth_fold_update [of 32 "interrupt_callbacks s" i "Some Idt_handle_exception"] assms(1) that
    by (auto simp: nth_list_update)
  show ?thesis unfolding s' using f g2 g3 m(2) out cs by (simp add: idt_load_def)
qed

text \<open>A state for the witnesses.\<close>

definition demo_code :: kernel_code where
  "demo_code = \<lparr>interrupt_pointer_table = (\<lambda>i. 0x110000 + of_nat (16 * i)), idt_zero_address = 0x120000,
     isr80h_wrapper = 0x130000\<rparr>"

definition idt_demo :: "sim_drive idt_state" where
  "idt_demo = process_state.extend process_demo \<lparr>idt_descriptors = 0x140000, idtr_descriptor_limit = 0,
     idtr_descriptor_base = 0, idtr = (0, 0), interrupt_callbacks = replicate 512 None,
     isr80h_commands = replicate 1024 None\<rparr>"

theorem idt_init_gates_witness:
  "gate (kmem (idt_init demo_code idt_demo)) (idt_descriptors (idt_init demo_code idt_demo)) 0x80 = (0x130000, 0x08, 0xEE)
   \<and> interrupt_callbacks (idt_init demo_code idt_demo) ! 0x20 = Some Idt_clock"
proof -
  have "length (interrupt_callbacks idt_demo) = 512" by (simp add: idt_demo_def process_state.extend_def)
  from idt_init_gates [OF this, of demo_code] show ?thesis
    by (auto simp: demo_code_def KERNEL_CODE_SELECTOR_def dest: spec [of _ "128 :: nat"] spec [of _ "32 :: nat"])
qed

end
