(* ===== verification/Keyboard.thy ===== *)
theory Keyboard
  imports Idt
begin

text \<open>
  The keyboard, \<^verbatim>\<open>src/src/keyboard/keyboard.c\<close> and the PS/2 driver
  \<^verbatim>\<open>src/src/keyboard/classic.c\<close>: the list of keyboards, the ring buffer that every process
  has for the keys it has not read, and the interrupt handler. The locale \<open>fifo\<close> is the contract of a
  bounded queue; the ring buffer of a process is an instance of it.
\<close>

section \<open>Data\<close>

definition ALPHAOS_KEYBOARD_BUFFER_SIZE :: nat where [os_defs]: "ALPHAOS_KEYBOARD_BUFFER_SIZE = 1024"
definition KEYBOARD_CAPS_LOCK_ON :: int where [os_defs]: "KEYBOARD_CAPS_LOCK_ON = 1"
definition KEYBOARD_CAPS_LOCK_OFF :: int where [os_defs]: "KEYBOARD_CAPS_LOCK_OFF = 0"
definition CLASSIC_KEYBOARD_CAPS_LOCK :: u8 where [os_defs]: "CLASSIC_KEYBOARD_CAPS_LOCK = 0x3A"
definition CLASSIC_KEYBOARD_KEY_RELEASED :: u8 where [os_defs]: "CLASSIC_KEYBOARD_KEY_RELEASED = 0x80"
definition PS2_PORT :: u16 where [os_defs]: "PS2_PORT = 0x64"
definition PS2_COMMAND_ENABLE_FIRST_PORT :: u8 where [os_defs]: "PS2_COMMAND_ENABLE_FIRST_PORT = 0xAE"
definition ISR_KEYBOARD_INTERRUPT :: int where [os_defs]: "ISR_KEYBOARD_INTERRUPT = 0x21"
definition KEYBOARD_INPUT_PORT :: u16 where [os_defs]: "KEYBOARD_INPUT_PORT = 0x60"

datatype keyboard_init_function = Classic_keyboard_init

record keyboard =
  keyboard_init_fn :: "keyboard_init_function option"
  keyboard_name :: string
  capslock_state :: int
  keyboard_next :: addr

text \<open>\<open>classic_keyboard\<close> is the address of the static structure; the structures are a typed store.\<close>

record 'd keyboard_state = "'d idt_state" +
  classic_keyboard :: addr
  keyboards :: "addr \<Rightarrow> keyboard"
  keyboard_list_head :: addr
  keyboard_list_last :: addr

section \<open>keyboard.c: the buffer of a process\<close>

definition keyboard_get_tail_index :: "addr \<Rightarrow> 'a kheap_state_scheme \<Rightarrow> int" where
  "keyboard_get_tail_index process s = int (unat (get_field process keyboard_tail s) mod ALPHAOS_KEYBOARD_BUFFER_SIZE)"

definition keyboard_backspace :: "addr \<Rightarrow> 'a kheap_state_scheme \<Rightarrow> 'a kheap_state_scheme" where
  "keyboard_backspace process s =
     (let s = set_field process keyboard_tail (get_field process keyboard_tail s - 1) s;
          real_index = keyboard_get_tail_index process s in
      s\<lparr>kmem := (kmem s)(keyboard_buffer process + word_of_int real_index := 0)\<rparr>)"

definition keyboard_push :: "u8 \<Rightarrow> ('d, 'a) process_state_scheme \<Rightarrow> ('d, 'a) process_state_scheme" where
  "keyboard_push c s =
     (let process = current_process s in
      if process = NULL then s
      else if c = 0 then s
      else
        let real_index = keyboard_get_tail_index process s;
            s = s\<lparr>kmem := (kmem s)(keyboard_buffer process + word_of_int real_index := c)\<rparr> in
        set_field process keyboard_tail (get_field process keyboard_tail s + 1) s)"

definition keyboard_pop :: "('d, 'a) process_state_scheme \<Rightarrow> u8 \<times> ('d, 'a) process_state_scheme" where
  "keyboard_pop s =
     (if current_task s = NULL then (0, s)
      else
        let process = get_field (current_task s) task_process s;
            real_index = unat (get_field process keyboard_head s) mod ALPHAOS_KEYBOARD_BUFFER_SIZE;
            c = kmem s (keyboard_buffer process + of_nat real_index) in
        if c = 0 then (0, s)
        else
          let s = s\<lparr>kmem := (kmem s)(keyboard_buffer process + of_nat real_index := 0)\<rparr> in
          (c, set_field process keyboard_head (get_field process keyboard_head s + 1) s))"

section \<open>Caps lock and scan codes\<close>

definition keyboard_set_capslock :: "addr \<Rightarrow> int \<Rightarrow> ('d, 'a) keyboard_state_scheme \<Rightarrow> ('d, 'a) keyboard_state_scheme" where
  "keyboard_set_capslock keyboard state s =
     s\<lparr>keyboards := (keyboards s)(keyboard := (keyboards s keyboard)\<lparr>capslock_state := state\<rparr>)\<rparr>"

definition keyboard_get_capslock :: "addr \<Rightarrow> ('d, 'a) keyboard_state_scheme \<Rightarrow> int" where
  "keyboard_get_capslock keyboard s = capslock_state (keyboards s keyboard)"

definition keyboard_scan_set_one :: "u8 list" where
  "keyboard_scan_set_one =
     [0x00, 0x1B] @ ascii ''1234567890-='' @ [0x08, 0x09] @ ascii ''QWERTYUIOP[]'' @ [0x0D, 0x00]
     @ ascii ''ASDFGHJKL;'' @ [0x27, 0x60, 0x00, 0x5C] @ ascii ''ZXCVBNM,./'' @ [0x00, 0x2A, 0x00, 0x20]
     @ replicate 11 0x00 @ ascii ''789-456+1230.''"

definition classic_keyboard_scancode_to_char :: "u8 \<Rightarrow> ('d, 'a) keyboard_state_scheme \<Rightarrow> u8" where
  "classic_keyboard_scancode_to_char scancode s =
     (if unat scancode \<ge> length keyboard_scan_set_one then 0
      else
        let c = keyboard_scan_set_one ! unat scancode in
        if keyboard_get_capslock (classic_keyboard s) s = KEYBOARD_CAPS_LOCK_OFF then
          if c \<ge> 0x41 \<and> c \<le> 0x5A then c + 0x20 else c
        else c)"

section \<open>The driver\<close>

definition classic_keyboard_init :: "'d bus \<Rightarrow> ('d, 'a) keyboard_state_scheme \<Rightarrow> int \<times> ('d, 'a) keyboard_state_scheme" where
  "classic_keyboard_init bus s =
     (let (r, s) = idt_register_interrupt_callback ISR_KEYBOARD_INTERRUPT Classic_keyboard_handle_interrupt s;
          s = keyboard_set_capslock (classic_keyboard s) KEYBOARD_CAPS_LOCK_OFF s;
          s = s\<lparr>hw := bus_outb bus PS2_PORT PS2_COMMAND_ENABLE_FIRST_PORT (hw s)\<rparr> in
      (0, s))"

definition classic_keyboard_handle_interrupt ::
  "'d bus \<Rightarrow> ('d, 'a) keyboard_state_scheme \<Rightarrow> ('d, 'a) keyboard_state_scheme" where
  "classic_keyboard_handle_interrupt bus s =
     (let s = kernel_page s;
          (scancode, d) = bus_insb bus KEYBOARD_INPUT_PORT (hw s);
          s = s\<lparr>hw := snd (bus_insb bus KEYBOARD_INPUT_PORT d)\<rparr> in
      if scancode AND CLASSIC_KEYBOARD_KEY_RELEASED \<noteq> 0 then s
      else
        let s = (if scancode = CLASSIC_KEYBOARD_CAPS_LOCK then
                   let old_state = keyboard_get_capslock (classic_keyboard s) s in
                   keyboard_set_capslock (classic_keyboard s)
                     (if old_state = KEYBOARD_CAPS_LOCK_ON then KEYBOARD_CAPS_LOCK_OFF else KEYBOARD_CAPS_LOCK_ON) s
                 else s);
            c = classic_keyboard_scancode_to_char scancode s;
            s = (if c \<noteq> 0 then keyboard_push c s else s) in
        snd (task_page s))"

definition classic_init :: "('d, 'a) keyboard_state_scheme \<Rightarrow> addr" where
  "classic_init s = classic_keyboard s"

definition keyboard_insert :: "'d bus \<Rightarrow> addr \<Rightarrow> ('d, 'a) keyboard_state_scheme \<Rightarrow> int \<times> ('d, 'a) keyboard_state_scheme" where
  "keyboard_insert bus keyboard s =
     (case keyboard_init_fn (keyboards s keyboard) of
        None \<Rightarrow> (- EINVARG, s)
      | Some Classic_keyboard_init \<Rightarrow>
          let s = (if keyboard_list_last s \<noteq> NULL
                   then s\<lparr>keyboards := (keyboards s)(keyboard_list_last s :=
                            (keyboards s (keyboard_list_last s))\<lparr>keyboard_next := keyboard\<rparr>),
                          keyboard_list_last := keyboard\<rparr>
                   else s\<lparr>keyboard_list_head := keyboard, keyboard_list_last := keyboard\<rparr>) in
          classic_keyboard_init bus s)"

definition keyboard_init :: "'d bus \<Rightarrow> ('d, 'a) keyboard_state_scheme \<Rightarrow> ('d, 'a) keyboard_state_scheme" where
  "keyboard_init bus s = snd (keyboard_insert bus (classic_init s) s)"

section \<open>The contract of the buffer\<close>

datatype key_op = Push u8 | Pop | Erase

text \<open>
  The specification: a queue of at most \<open>cap\<close> keys, where key 0 is no key. The result is what the \<open>Pop\<close>s
  returned, and the queue. A key typed into a full queue and one erased from an empty queue have no result: the code
  checks for neither, and what it does then is stated separately.
\<close>

fun queue_spec :: "nat \<Rightarrow> key_op list \<Rightarrow> u8 list \<Rightarrow> (u8 list \<times> u8 list) option" where
  "queue_spec cap [] q = Some ([], q)"
| "queue_spec cap (Push c # ops) q = (if c = 0 then queue_spec cap ops q
     else if length q \<ge> cap then None else queue_spec cap ops (q @ [c]))"
| "queue_spec cap (Pop # ops) q =
     (case q of [] \<Rightarrow> map_option (\<lambda>(out, q). (0 # out, q)) (queue_spec cap ops [])
      | c # cs \<Rightarrow> map_option (\<lambda>(out, q). (c # out, q)) (queue_spec cap ops cs))"
| "queue_spec cap (Erase # ops) q = (if q = [] then None else queue_spec cap ops (butlast q))"

locale fifo =
  fixes push :: "u8 \<Rightarrow> 's \<Rightarrow> 's" and pop :: "'s \<Rightarrow> u8 \<times> 's" and erase :: "'s \<Rightarrow> 's"
    and contents :: "'s \<Rightarrow> u8 list" and ok :: "'s \<Rightarrow> bool" and cap :: nat
    and run :: "key_op list \<Rightarrow> 's \<Rightarrow> u8 list \<times> 's"
  assumes push_law: "ok s \<Longrightarrow> c \<noteq> 0 \<Longrightarrow> length (contents s) < cap \<Longrightarrow> ok (push c s) \<and> contents (push c s) = contents s @ [c]"
    and push_zero: "push 0 s = s"
    and pop_empty: "ok s \<Longrightarrow> contents s = [] \<Longrightarrow> pop s = (0, s)"
    and pop_law: "ok s \<Longrightarrow> contents s = c # cs \<Longrightarrow> \<exists>s'. pop s = (c, s') \<and> ok s' \<and> contents s' = cs"
    and erase_law: "ok s \<Longrightarrow> contents s \<noteq> [] \<Longrightarrow> ok (erase s) \<and> contents (erase s) = butlast (contents s)"
    and run_Nil: "run [] s = ([], s)"
    and run_Push: "run (Push c # ops) s = run ops (push c s)"
    and run_Pop: "run (Pop # ops) s = (let (c, s) = pop s; (out, s) = run ops s in (c # out, s))"
    and run_Erase: "run (Erase # ops) s = run ops (erase s)"
begin

lemma run_refines:
  "ok s \<Longrightarrow> queue_spec cap ops (contents s) = Some (out, q) \<Longrightarrow> \<exists>s'. run ops s = (out, s') \<and> ok s' \<and> contents s' = q"
proof (induction ops arbitrary: s out)
  case Nil
  then show ?case by (simp add: run_Nil)
next
  case (Cons x ops)
  show ?case
  proof (cases x)
    case (Push c)
    show ?thesis
    proof (cases "c = 0")
      case True
      then show ?thesis using Cons Push by (simp add: run_Push push_zero)
    next
      case False
      then have "length (contents s) < cap" "queue_spec cap ops (contents s @ [c]) = Some (out, q)"
        using Cons.prems(2) Push by (auto split: if_splits)
      then show ?thesis using Cons.IH [of "push c s"] push_law [OF Cons.prems(1) False] by (simp add: Push run_Push)
    qed
  next
    case Erase
    then have "contents s \<noteq> []" "queue_spec cap ops (butlast (contents s)) = Some (out, q)"
      using Cons.prems(2) by (auto split: if_splits)
    then show ?thesis using Cons.IH [of "erase s"] erase_law [OF Cons.prems(1)] by (simp add: Erase run_Erase)
  next
    case Pop
    show ?thesis
    proof (cases "contents s")
      case Nil
      then obtain out' where "queue_spec cap ops (contents s) = Some (out', q)" "out = 0 # out'"
        using Cons.prems(2) Pop by auto
      then show ?thesis using Cons.IH [OF Cons.prems(1)] pop_empty [OF Cons.prems(1) Nil] by (auto simp: Pop run_Pop)
    next
      case (Cons c cs)
      then obtain out' where o: "queue_spec cap ops cs = Some (out', q)" "out = c # out'"
        using Cons.prems(2) Pop by auto
      obtain s1 where "pop s = (c, s1)" "ok s1" "contents s1 = cs" using pop_law [OF Cons.prems(1) Cons] by blast
      then show ?thesis using Cons.IH [of s1] o by (auto simp: Pop run_Pop)
    qed
  qed
qed

text \<open>First in, first out: what is typed into an empty buffer is read in the same order.\<close>

lemma spec_pushes: "0 \<notin> set cs \<Longrightarrow> length q + length cs \<le> cap \<Longrightarrow>
    queue_spec cap (map Push cs @ ops) q = queue_spec cap ops (q @ cs)"
  by (induction cs arbitrary: q) auto

lemma spec_pops: "queue_spec cap (replicate (length cs) Pop @ ops) (cs @ q) = map_option (\<lambda>(out, q). (cs @ out, q)) (queue_spec cap ops q)"
  by (induction cs) (simp_all add: map_option.compositionality comp_def split_beta map_option.identity option.map_ident)

end

section \<open>The ring buffer is a bounded queue\<close>

text \<open>Keys typed, keys read and keys erased, in any order.\<close>

fun keyboard_run :: "addr \<Rightarrow> key_op list \<Rightarrow> ('d, 'a) process_state_scheme \<Rightarrow> u8 list \<times> ('d, 'a) process_state_scheme" where
  "keyboard_run p [] s = ([], s)"
| "keyboard_run p (Push c # ops) s = keyboard_run p ops (keyboard_push c s)"
| "keyboard_run p (Pop # ops) s =
     (let (c, s) = keyboard_pop s; (out, s) = keyboard_run p ops s in (c # out, s))"
| "keyboard_run p (Erase # ops) s = keyboard_run p ops (keyboard_backspace p s)"

definition key_cell :: "addr \<Rightarrow> nat \<Rightarrow> addr" where
  "key_cell p k = keyboard_buffer p + of_nat (k mod 1024)"

definition key_count :: "addr \<Rightarrow> 'a kheap_state_scheme \<Rightarrow> nat" where
  "key_count p s = unat (get_field p keyboard_tail s - get_field p keyboard_head s)"

definition key_at :: "addr \<Rightarrow> nat \<Rightarrow> 'a kheap_state_scheme \<Rightarrow> u8" where
  "key_at p j s = kmem s (key_cell p (unat (get_field p keyboard_head s) + j))"

definition keys :: "addr \<Rightarrow> 'a kheap_state_scheme \<Rightarrow> u8 list" where
  "keys p s = map (\<lambda>j. key_at p j s) [0..<key_count p s]"

text \<open>
  The process has the keyboard and is the one of the running task; exactly the cells from the head to
  the tail are not 0.
\<close>

definition keys_ok :: "addr \<Rightarrow> ('d, 'a) process_state_scheme \<Rightarrow> bool" where
  "keys_ok p s \<longleftrightarrow> p \<noteq> NULL \<and> current_process s = p \<and> current_task s \<noteq> NULL \<and> get_field (current_task s) task_process s = p
     \<and> disjoint_ranges p 9364 (current_task s) 64
     \<and> key_count p s \<le> 1024 \<and> (\<forall>j < 1024. key_at p j s \<noteq> 0 \<longleftrightarrow> j < key_count p s)"

lemma unat_small: "k < 2 ^ 32 \<Longrightarrow> unat (of_nat k :: u32) = k"
  by (simp add: unat_of_nat take_bit_nat_eq_self)

lemma unat_mod_1024: "unat (x + of_nat k :: u32) mod 1024 = (unat x + k) mod 1024"
proof -
  have "unat (x + of_nat k :: u32) mod 1024 = (unat x + k) mod 2 ^ 32 mod 1024"
    by (simp add: unat_word_ariths unat_of_nat take_bit_eq_mod mod_add_right_eq)
  also have "\<dots> = (unat x + k) mod 1024" by (rule mod_mod_cancel) simp
  finally show ?thesis .
qed

lemma mod_1024_inject: "(a + i) mod 1024 = (a + j) mod 1024 \<Longrightarrow> i < 1024 \<Longrightarrow> j < 1024 \<Longrightarrow> i = (j :: nat)"
proof (induction i j rule: linorder_wlog)
  case (le i j)
  then have "1024 dvd (a + j) - (a + i)" by (metis add_le_cancel_left mod_eq_dvd_iff_nat)
  then show ?case using le nat_dvd_not_less [of "j - i" 1024] by (cases "i = j") auto
qed simp

lemma key_cell_eq: "key_cell p i = key_cell p j \<longleftrightarrow> i mod 1024 = j mod 1024"
  using add_of_nat_u32_inject [of "i mod 1024" "j mod 1024" "keyboard_buffer p"] mod_less_divisor [of 1024 i] mod_less_divisor [of 1024 j]
  by (auto simp: key_cell_def)

lemma key_cell_in: "in_range p 9364 (key_cell p k)"
  using in_range_nth [of "8324 + k mod 1024" 9364 p] mod_less_divisor [of 1024 k]
  by (simp add: key_cell_def keyboard_buffer_def add.assoc)

lemma key_cell_field:
  assumes "i = keyboard_head \<or> i = keyboard_tail" shows "\<not> in_range (p + 4 * i) 4 (key_cell p k)"
proof
  assume "in_range (p + 4 * i) 4 (key_cell p k)"
  then obtain l where l: "l < 4" "key_cell p k = p + 4 * i + of_nat l" by (elim in_rangeE)
  obtain f where f: "4 * i = of_nat f" "f = 9348 \<or> f = 9352"
    using assms that [of 9348] that [of 9352] by (auto simp: keyboard_head_def keyboard_tail_def)
  have "p + of_nat (8324 + k mod 1024) = p + of_nat (f + l)"
    using l(2) f(1) by (simp add: key_cell_def keyboard_buffer_def add.assoc)
  then have "8324 + k mod 1024 = f + l"
    using add_of_nat_u32_inject [of "8324 + k mod 1024" "f + l" p] mod_less_divisor [of 1024 k] f(2) l(1) by auto
  then show False using f(2) mod_less_divisor [of 1024 k] by auto
qed

text \<open>A write to a cell of the buffer and one to a field of the structure.\<close>

definition put_key :: "addr \<Rightarrow> nat \<Rightarrow> u8 \<Rightarrow> 'a kheap_state_scheme \<Rightarrow> 'a kheap_state_scheme" where
  "put_key p k c s = s\<lparr>kmem := (kmem s)(key_cell p k := c)\<rparr>"

lemma put_key_simps [simp]:
  "i = keyboard_head \<or> i = keyboard_tail \<Longrightarrow> get_field p i (put_key p k c s) = get_field p i s"
  "kmem (put_key p k c s) (key_cell p j) = (if j mod 1024 = k mod 1024 then c else kmem s (key_cell p j))"
  "kmem (set_field p keyboard_head v s) (key_cell p j) = kmem s (key_cell p j)"
  "kmem (set_field p keyboard_tail v s) (key_cell p j) = kmem s (key_cell p j)"
proof -
  show "i = keyboard_head \<or> i = keyboard_tail \<Longrightarrow> get_field p i (put_key p k c s) = get_field p i s"
    unfolding get_field_def word_at_def put_key_def using key_cell_field [of i p k] by (intro load32_cong) auto
qed (auto simp: put_key_def key_cell_eq set_field_def set_word_def store32_other key_cell_field)

lemma head_tail: "get_field p keyboard_head (set_field p keyboard_tail v s) = get_field p keyboard_head s"
  "get_field p keyboard_tail (set_field p keyboard_head v s) = get_field p keyboard_tail s"
  "get_field p keyboard_tail (set_field p keyboard_tail v s) = v" "get_field p keyboard_head (set_field p keyboard_head v s) = v"
  by (simp_all add: get_set_field keyboard_head_def keyboard_tail_def)

lemma put_key_vars [simp]:
  "current_process (put_key p k c s) = current_process s" "current_task (put_key p k c s) = current_task s"
  "current_process (set_field p i v s) = current_process s"
  by (simp_all add: put_key_def set_field_def)

text \<open>Such writes keep the parts of the invariant that do not concern the buffer.\<close>

lemma keys_okI:
  assumes "keys_ok p s" "\<And>x. \<not> in_range p 9364 x \<Longrightarrow> kmem s' x = kmem s x" "current_process s' = current_process s"
    "current_task s' = current_task s" "key_count p s' \<le> 1024" "\<forall>j < 1024. key_at p j s' \<noteq> 0 \<longleftrightarrow> j < key_count p s'"
  shows "keys_ok p s'"
proof -
  have "get_field (current_task s) task_process s' = get_field (current_task s) task_process s"
  proof (rule get_field_cong [where n = 16])
    fix x assume "in_range (current_task s) (4 * 16) x"
    then have "\<not> in_range p 9364 x" using assms(1) by (auto simp: keys_ok_def disjoint_ranges_def)
    then show "kmem s' x = kmem s x" by (rule assms(2))
  qed (simp_all add: task_offsets)
  then show ?thesis using assms by (simp add: keys_ok_def)
qed

lemma buffer_write:
  "\<not> in_range p 9364 x \<Longrightarrow> i = keyboard_head \<or> i = keyboard_tail \<Longrightarrow> kmem (set_field p i v (put_key p k c s)) x = kmem s x"
  "\<not> in_range p 9364 x \<Longrightarrow> i = keyboard_head \<or> i = keyboard_tail \<Longrightarrow> kmem (put_key p k c (set_field p i v s)) x = kmem s x"
  using set_field_outside [of p 2341 x i v s] set_field_outside [of p 2341 x i v "put_key p k c s"] key_cell_in [of p k]
  by (auto simp: put_key_def keyboard_head_def keyboard_tail_def)

text \<open>Pushing and erasing as writes of a cell and of the tail, whatever the buffer holds.\<close>

lemma put_key_cong: "k mod 1024 = l mod 1024 \<Longrightarrow> put_key p k c s = put_key p l c s"
  by (simp add: put_key_def key_cell_def)

lemma keyboard_push_eq:
  assumes "current_process s = p" "p \<noteq> NULL" "c \<noteq> 0"
  shows "keyboard_push c s =
    set_field p keyboard_tail (get_field p keyboard_tail s + 1) (put_key p (unat (get_field p keyboard_tail s)) c s)"
proof -
  have put: "s\<lparr>kmem := (kmem s)(keyboard_buffer p + word_of_int (keyboard_get_tail_index p s) := c)\<rparr>
      = put_key p (unat (get_field p keyboard_tail s)) c s"
    by (simp add: keyboard_get_tail_index_def ALPHAOS_KEYBOARD_BUFFER_SIZE_def put_key_def key_cell_def)
  show ?thesis unfolding keyboard_push_def Let_def assms(1) put using assms(2,3) by simp
qed

lemma keyboard_backspace_eq:
  "keyboard_backspace p s =
    put_key p (unat (get_field p keyboard_tail s - 1)) 0 (set_field p keyboard_tail (get_field p keyboard_tail s - 1) s)"
  by (simp add: keyboard_backspace_def Let_def keyboard_get_tail_index_def ALPHAOS_KEYBOARD_BUFFER_SIZE_def put_key_def
      key_cell_def head_tail)

lemma keyboard_push_ring:
  assumes "keys_ok p s" "c \<noteq> 0" "length (keys p s) < 1024"
  shows "keys_ok p (keyboard_push c s) \<and> keys p (keyboard_push c s) = keys p s @ [c]"
proof -
  let ?h = "get_field p keyboard_head s" and ?n = "key_count p s"
  have n: "?n < 1024" using assms(3) by (simp add: keys_def)
  have tail: "get_field p keyboard_tail s = ?h + of_nat ?n" by (simp add: key_count_def)
  let ?s = "put_key p (unat ?h + ?n) c s"
  define s' where "s' = set_field p keyboard_tail (?h + of_nat ?n + 1) ?s"
  have p: "current_process s = p" "p \<noteq> NULL" using assms(1) by (simp_all add: keys_ok_def)
  have push: "keyboard_push c s = s'"
    unfolding keyboard_push_eq [OF p assms(2)] tail s'_def by (simp only: put_key_cong [OF unat_mod_1024])
  have h': "get_field p keyboard_head s' = ?h" by (simp add: s'_def head_tail)
  have n': "key_count p s' = Suc ?n"
  proof -
    have "get_field p keyboard_tail s' - ?h = of_nat (Suc ?n)" by (simp add: s'_def head_tail)
    then have "key_count p s' = unat (of_nat (Suc ?n) :: u32)" unfolding key_count_def [of p s'] h' by (rule arg_cong)
    also have "\<dots> = Suc ?n" using n by (intro unat_small) simp
    finally show ?thesis .
  qed
  have at: "key_at p j s' = (if j = ?n then c else key_at p j s)" if "j < 1024" for j
    using mod_1024_inject [of "unat ?h" j ?n] that n unfolding key_at_def h' by (auto simp: s'_def)
  have ok: "\<forall>j < 1024. key_at p j s \<noteq> 0 \<longleftrightarrow> j < ?n" using assms(1) by (simp add: keys_ok_def)
  have "keys_ok p s'"
  proof (rule keys_okI [OF assms(1)])
    show "\<forall>j < 1024. key_at p j s' \<noteq> 0 \<longleftrightarrow> j < key_count p s'"
      using ok at assms(2) n' by (auto simp: less_Suc_eq)
    show "kmem s' x = kmem s x" if "\<not> in_range p 9364 x" for x unfolding s'_def using that by (rule buffer_write(1)) simp
  qed (use n n' in \<open>simp_all add: s'_def\<close>)
  moreover have "keys p s' = keys p s @ [c]"
    using n at by (simp add: keys_def n')
  ultimately show ?thesis by (simp add: push)
qed

text \<open>Reading needs less than the invariant: the running task's process and a key at the head.\<close>

definition reads_keys :: "addr \<Rightarrow> ('d, 'a) process_state_scheme \<Rightarrow> bool" where
  "reads_keys p s \<longleftrightarrow> current_task s \<noteq> NULL \<and> get_field (current_task s) task_process s = p
     \<and> disjoint_ranges p 9364 (current_task s) 64"

lemma keys_ok_reads: "keys_ok p s \<Longrightarrow> reads_keys p s"
  by (simp add: keys_ok_def reads_keys_def)

lemma reads_keysI:
  assumes "reads_keys p s" "\<And>x. \<not> in_range p 9364 x \<Longrightarrow> kmem s' x = kmem s x" "current_task s' = current_task s"
  shows "reads_keys p s'"
proof -
  have "get_field (current_task s) task_process s' = get_field (current_task s) task_process s"
  proof (rule get_field_cong [where n = 16])
    fix x assume "in_range (current_task s) (4 * 16) x"
    then have "\<not> in_range p 9364 x" using assms(1) by (auto simp: reads_keys_def disjoint_ranges_def)
    then show "kmem s' x = kmem s x" by (rule assms(2))
  qed (simp_all add: task_offsets)
  then show ?thesis using assms by (simp add: reads_keys_def)
qed

lemma pop_cell:
  "kmem s (keyboard_buffer p + of_nat (unat (get_field p keyboard_head s) mod ALPHAOS_KEYBOARD_BUFFER_SIZE)) = key_at p 0 s"
  by (simp add: key_at_def key_cell_def ALPHAOS_KEYBOARD_BUFFER_SIZE_def)

lemma keyboard_pop_none: "reads_keys p s \<Longrightarrow> key_at p 0 s = 0 \<Longrightarrow> keyboard_pop s = (0, s)"
  by (simp add: keyboard_pop_def Let_def reads_keys_def pop_cell)

lemma keyboard_pop_key:
  assumes "reads_keys p s" "key_at p 0 s \<noteq> 0"
  obtains s' where "keyboard_pop s = (key_at p 0 s, s')"
    "get_field p keyboard_head s' = get_field p keyboard_head s + 1" "get_field p keyboard_tail s' = get_field p keyboard_tail s"
    "\<And>j. j < 1024 \<Longrightarrow> key_at p j s' = (if j = 1023 then 0 else key_at p (Suc j) s)"
    "\<And>x. \<not> in_range p 9364 x \<Longrightarrow> kmem s' x = kmem s x"
    "current_task s' = current_task s" "current_process s' = current_process s" "reads_keys p s'"
proof -
  let ?h = "get_field p keyboard_head s"
  let ?s = "put_key p (unat ?h) 0 s"
  define s' where "s' = set_field p keyboard_head (?h + 1) ?s"
  have p: "get_field (current_task s) task_process s = p" "current_task s \<noteq> NULL" using assms(1) by (simp_all add: reads_keys_def)
  have put: "s\<lparr>kmem := (kmem s)(keyboard_buffer p + of_nat (unat ?h mod ALPHAOS_KEYBOARD_BUFFER_SIZE) := 0)\<rparr> = ?s"
    by (simp add: put_key_def key_cell_def ALPHAOS_KEYBOARD_BUFFER_SIZE_def)
  have pop: "keyboard_pop s = (key_at p 0 s, s')"
    unfolding keyboard_pop_def Let_def p(1) pop_cell put s'_def using p(2) assms(2) by simp
  have h': "get_field p keyboard_head s' = ?h + 1" by (simp add: s'_def head_tail)
  have at: "key_at p j s' = (if j = 1023 then 0 else key_at p (Suc j) s)" if j: "j < 1024" for j
  proof -
    have "unat (?h + 1) mod 1024 = (unat ?h + 1) mod 1024" using unat_mod_1024 [of ?h 1] by simp
    then have "(unat (?h + 1) + j) mod 1024 = (unat ?h + 1 + j) mod 1024" by (rule mod_add_cong [OF _ refl])
    then have "key_cell p (unat (?h + 1) + j) = key_cell p (unat ?h + Suc j)" by (intro key_cell_eq [THEN iffD2]) simp
    then have c: "key_at p j s' = kmem ?s (key_cell p (unat ?h + Suc j))"
      unfolding key_at_def h' by (simp only: s'_def put_key_simps)
    have e: "(unat ?h + Suc j) mod 1024 = unat ?h mod 1024 \<longleftrightarrow> j = 1023"
      using mod_1024_inject [of "unat ?h" "Suc j" 0] j by (cases "j = 1023") auto
    show ?thesis by (simp only: c put_key_simps e) (simp only: key_at_def)
  qed
  have out: "kmem s' x = kmem s x" if "\<not> in_range p 9364 x" for x unfolding s'_def using that by (rule buffer_write(1)) simp
  have vars: "current_task s' = current_task s" "current_process s' = current_process s"
    "get_field p keyboard_tail s' = get_field p keyboard_tail s" by (simp_all add: s'_def head_tail)
  have r: "reads_keys p s'" by (rule reads_keysI [OF assms(1) out vars(1)])
  show thesis by (rule that [OF pop h' vars(3) at out vars(1,2) r])
qed

lemma keyboard_pop_ring:
  assumes "keys_ok p s"
  shows "keys p s = [] \<Longrightarrow> keyboard_pop s = (0, s)"
    "keys p s = c # cs \<Longrightarrow> \<exists>s'. keyboard_pop s = (c, s') \<and> keys_ok p s' \<and> keys p s' = cs"
proof -
  let ?h = "get_field p keyboard_head s" and ?n = "key_count p s"
  have ok: "\<forall>j < 1024. key_at p j s \<noteq> 0 \<longleftrightarrow> j < ?n" and le: "?n \<le> 1024"
    using assms by (simp_all add: keys_ok_def)
  note r = keys_ok_reads [OF assms]
  have len: "length (keys p s) = ?n" by (simp add: keys_def)
  show "keyboard_pop s = (0, s)" if "keys p s = []"
    using keyboard_pop_none [OF r] ok len that by auto
  show "\<exists>s'. keyboard_pop s = (c, s') \<and> keys_ok p s' \<and> keys p s' = cs" if k: "keys p s = c # cs"
  proof -
    obtain m where m: "?n = Suc m" using len k by (cases ?n) auto
    have up: "[0..<?n] = 0 # map Suc [0..<m]" by (simp add: m map_Suc_upt upt_conv_Cons del: upt_Suc)
    have c: "key_at p 0 s = c" "cs = map (\<lambda>j. key_at p (Suc j) s) [0..<m]"
      using k by (simp_all add: keys_def up comp_def)
    then have nz: "key_at p 0 s \<noteq> 0" using ok [rule_format, of 0] m by simp
    obtain s' where pop: "keyboard_pop s = (key_at p 0 s, s')"
      and h': "get_field p keyboard_head s' = ?h + 1" "get_field p keyboard_tail s' = get_field p keyboard_tail s"
      and at: "\<And>j. j < 1024 \<Longrightarrow> key_at p j s' = (if j = 1023 then 0 else key_at p (Suc j) s)"
      and out: "\<And>x. \<not> in_range p 9364 x \<Longrightarrow> kmem s' x = kmem s x"
      and vars: "current_task s' = current_task s" "current_process s' = current_process s" and "reads_keys p s'"
      by (rule keyboard_pop_key [OF r nz]) (rule that, assumption+)
    have n': "key_count p s' = m"
    proof -
      have "get_field p keyboard_tail s' = ?h + of_nat ?n" by (simp add: h'(2) key_count_def)
      then have "get_field p keyboard_tail s' - (?h + 1) = of_nat m" using m by simp
      then have "key_count p s' = unat (of_nat m :: u32)" unfolding key_count_def [of p s'] h'(1) by (rule arg_cong)
      also have "\<dots> = m" using le m by (intro unat_small) simp
      finally show ?thesis .
    qed
    have "key_at p j s' \<noteq> 0 \<longleftrightarrow> j < m" if "j < 1024" for j
      using at [OF that] ok m le that by (cases "j = 1023") auto
    then have "keys_ok p s'" using keys_okI [OF assms out vars(2,1)] n' m le by simp
    moreover have "keys p s' = cs" unfolding keys_def n' c(2) using at m le by auto
    ultimately show ?thesis using pop c(1) by blast
  qed
qed

lemma keyboard_backspace_ring:
  assumes "keys_ok p s" "keys p s \<noteq> []"
  shows "keys_ok p (keyboard_backspace p s) \<and> keys p (keyboard_backspace p s) = butlast (keys p s)"
proof -
  let ?h = "get_field p keyboard_head s" and ?n = "key_count p s"
  have ok: "\<forall>j < 1024. key_at p j s \<noteq> 0 \<longleftrightarrow> j < ?n" and le: "?n \<le> 1024"
    using assms(1) by (simp_all add: keys_ok_def)
  obtain m where m: "?n = Suc m" using assms(2) by (cases ?n) (simp_all add: keys_def)
  have tail: "get_field p keyboard_tail s = ?h + of_nat (Suc m)" using m by (simp add: key_count_def flip: m)
  let ?s = "set_field p keyboard_tail (?h + of_nat m) s"
  define s' where "s' = put_key p (unat ?h + m) 0 ?s"
  have "get_field p keyboard_tail s - 1 = ?h + of_nat m" by (simp add: tail)
  then have bs: "keyboard_backspace p s = s'"
    unfolding keyboard_backspace_eq s'_def by (simp only: put_key_cong [OF unat_mod_1024])
  have h': "get_field p keyboard_head s' = ?h" by (simp add: s'_def head_tail)
  have n': "key_count p s' = m"
  proof -
    have "get_field p keyboard_tail s' - ?h = of_nat m" by (simp add: s'_def head_tail)
    then have "key_count p s' = unat (of_nat m :: u32)" unfolding key_count_def [of p s'] h' by (rule arg_cong)
    also have "\<dots> = m" using le m by (intro unat_small) simp
    finally show ?thesis .
  qed
  have at: "key_at p j s' = (if j = m then 0 else key_at p j s)" if "j < 1024" for j
    using mod_1024_inject [of "unat ?h" j m] that m le unfolding key_at_def h' by (auto simp: s'_def)
  have "keys_ok p s'"
  proof (rule keys_okI [OF assms(1)])
    have "key_at p j s' \<noteq> 0 \<longleftrightarrow> j < m" if "j < 1024" for j
      using at [OF that] ok m that by (cases "j = m") auto
    then show "\<forall>j < 1024. key_at p j s' \<noteq> 0 \<longleftrightarrow> j < key_count p s'" unfolding n' by blast
    show "kmem s' x = kmem s x" if "\<not> in_range p 9364 x" for x unfolding s'_def using that by (rule buffer_write(2)) simp
  qed (use m le n' in \<open>simp_all add: s'_def\<close>)
  moreover have "keys p s' = butlast (keys p s)" unfolding keys_def n' m using at m le by (simp add: butlast_append)
  ultimately show ?thesis by (simp add: bs)
qed

lemma keyboard_push_zero: "keyboard_push 0 s = s"
  by (simp add: keyboard_push_def Let_def)

interpretation kb: fifo keyboard_push keyboard_pop "keyboard_backspace p" "keys p" "keys_ok p" 1024 "keyboard_run p" for p
  by unfold_locales
    (fact keyboard_push_ring keyboard_push_zero keyboard_pop_ring(1) keyboard_pop_ring(2) keyboard_backspace_ring | simp)+

text \<open>
  Outside the contract. A key typed into a full buffer goes over the oldest one, and the head still points there; a key
  erased from an empty buffer takes the tail behind the head, and the next key is typed where the head is not.
\<close>

lemma keyboard_pop_all:
  "reads_keys p s \<Longrightarrow> n \<le> 1024 \<Longrightarrow> \<forall>j < n. key_at p j s \<noteq> 0 \<Longrightarrow>
    fst (keyboard_run p (replicate n Pop) s) = map (\<lambda>j. key_at p j s) [0..<n]"
proof (induction n arbitrary: s)
  case 0
  then show ?case by simp
next
  case (Suc n)
  from Suc.prems have nz: "key_at p 0 s \<noteq> 0" by simp
  obtain s' where pop: "keyboard_pop s = (key_at p 0 s, s')" "reads_keys p s'"
    and at: "\<And>j. j < 1024 \<Longrightarrow> key_at p j s' = (if j = 1023 then 0 else key_at p (Suc j) s)"
    by (rule keyboard_pop_key [OF Suc.prems(1) nz]) (rule that, assumption+)
  have at': "key_at p j s' = key_at p (Suc j) s" if "j < n" for j using at [of j] that Suc.prems(2) by simp
  have "fst (keyboard_run p (replicate n Pop) s') = map (\<lambda>j. key_at p j s') [0..<n]"
    using Suc.prems(2,3) at' by (intro Suc.IH [OF pop(2)]) simp_all
  also have "\<dots> = map (\<lambda>j. key_at p (Suc j) s) [0..<n]" using at' by simp
  finally show ?case by (simp add: pop(1) split_beta upt_conv_Cons map_Suc_upt [symmetric] comp_def del: upt_Suc)
qed

lemma keyboard_push_full:
  assumes "keys_ok p s" "length (keys p s) = 1024" "c \<noteq> 0"
  shows "fst (keyboard_run p (Push c # replicate 1024 Pop) s) = c # tl (keys p s)"
proof -
  let ?h = "get_field p keyboard_head s"
  obtain N :: nat where N: "N = 1024" "0 < N" "N \<le> 1024" by simp
  have n: "key_count p s = 1024" using assms(2) by (simp add: keys_def)
  have p: "current_process s = p" "p \<noteq> NULL" using assms(1) by (simp_all add: keys_ok_def)
  have tail: "get_field p keyboard_tail s = ?h + of_nat 1024" unfolding n [symmetric] by (simp add: key_count_def)
  define s' where "s' = set_field p keyboard_tail (?h + of_nat 1024 + 1) (put_key p (unat ?h) c s)"
  have ix: "unat (?h + of_nat 1024) mod 1024 = unat ?h mod 1024" unfolding unat_mod_1024 by simp
  have push: "keyboard_push c s = s'"
    unfolding keyboard_push_eq [OF p assms(3)] tail s'_def by (simp only: put_key_cong [OF ix])
  have h': "get_field p keyboard_head s' = ?h" by (simp add: s'_def head_tail)
  have at: "key_at p j s' = (if j = 0 then c else key_at p j s)" if "j < 1024" for j
    using mod_1024_inject [of "unat ?h" j 0] that unfolding key_at_def h' by (auto simp: s'_def)
  have ok: "\<forall>j < 1024. key_at p j s \<noteq> 0" using assms(1) n by (simp add: keys_ok_def)
  have "reads_keys p s'"
  proof (rule reads_keysI [OF keys_ok_reads [OF assms(1)]])
    show "kmem s' x = kmem s x" if "\<not> in_range p 9364 x" for x unfolding s'_def using that by (rule buffer_write(1)) simp
  qed (simp add: s'_def)
  then have "fst (keyboard_run p (replicate N Pop) s') = map (\<lambda>j. key_at p j s') [0..<N]"
    using ok assms(3) at N(3) by (intro keyboard_pop_all) auto
  also have "[0..<N] = 0 # [1..<N]" using N(2) by (simp add: upt_conv_Cons)
  also have "map (\<lambda>j. key_at p j s') (0 # [1..<N]) = c # map (\<lambda>j. key_at p j s) [1..<N]" using at N(3) by simp
  also have "map (\<lambda>j. key_at p j s) [1..<N] = tl (keys p s)" unfolding keys_def n N(1) [symmetric] by (simp add: map_tl [symmetric])
  finally have "fst (keyboard_run p (replicate N Pop) (keyboard_push c s)) = c # tl (keys p s)" by (simp only: push)
  then show ?thesis by (simp only: keyboard_run.simps N(1))
qed

lemma keyboard_erase_empty:
  assumes "keys_ok p s" "keys p s = []" "c \<noteq> 0"
  shows "fst (keyboard_run p (Erase # Push c # replicate n Pop) s) = replicate n 0"
proof -
  let ?h = "get_field p keyboard_head s"
  have n: "key_count p s = 0" using assms(2) by (simp add: keys_def)
  have p: "current_process s = p" "p \<noteq> NULL" using assms(1) by (simp_all add: keys_ok_def)
  have tail: "get_field p keyboard_tail s = ?h" using n by (simp add: key_count_def unat_eq_0)
  define s1 where "s1 = keyboard_backspace p s"
  have s1: "s1 = put_key p (unat (?h - 1)) 0 (set_field p keyboard_tail (?h - 1) s)"
    by (simp only: s1_def keyboard_backspace_eq tail)
  then have f1: "get_field p keyboard_tail s1 = ?h - 1" "get_field p keyboard_head s1 = ?h" "current_process s1 = p"
    using p by (simp_all add: head_tail)
  define s2 where "s2 = set_field p keyboard_tail ?h (put_key p (unat (?h - 1)) c s1)"
  have push: "keyboard_push c s1 = s2" using keyboard_push_eq [OF f1(3) p(2) assms(3)] by (simp add: f1(1) s2_def)
  have ne: "unat ?h mod 1024 \<noteq> unat (?h - 1) mod 1024"
  proof
    assume e: "unat ?h mod 1024 = unat (?h - 1) mod 1024"
    have "unat ?h mod 1024 = (unat (?h - 1) + 1) mod 1024" using unat_mod_1024 [of "?h - 1" 1] by simp
    then show False using e mod_1024_inject [of "unat (?h - 1)" 1 0] by simp
  qed
  have h2: "get_field p keyboard_head s2 = ?h" by (simp add: s2_def head_tail f1(2))
  have "key_at p 0 s2 = key_at p 0 s" using ne unfolding key_at_def h2 by (auto simp: s2_def s1)
  also have "\<dots> = 0" using assms(1) n by (simp add: keys_ok_def)
  finally have z: "key_at p 0 s2 = 0" .
  have r1: "reads_keys p s1"
  proof (rule reads_keysI [OF keys_ok_reads [OF assms(1)]])
    show "kmem s1 x = kmem s x" if "\<not> in_range p 9364 x" for x unfolding s1 using that by (rule buffer_write(2)) simp
  qed (simp add: s1)
  have "reads_keys p s2"
  proof (rule reads_keysI [OF r1])
    show "kmem s2 x = kmem s1 x" if "\<not> in_range p 9364 x" for x unfolding s2_def using that by (rule buffer_write(1)) simp
  qed (simp add: s2_def)
  note pop = keyboard_pop_none [OF this z]
  have "keyboard_run p (replicate n Pop) s2 = (replicate n 0, s2)" by (induction n) (simp_all add: pop)
  then show ?thesis by (simp add: push flip: s1_def)
qed

text \<open>
  C27: the ring buffer of a process behaves as a queue of 1024 keys on every sequence of keys typed, erased and read in
  which no key is typed into a full buffer and none erased from an empty one (exactly the sequences for which
  \<open>queue_spec\<close> has a result; a push of key 0 changes nothing): the reads return what the reads of the
  queue return (0 when it is empty), the head and tail wrapping as they may, and the invariant holds at the end.
  The code checks for neither excluded case. A key typed into a full buffer replaces the oldest key: what is read then
  is the newest key first, followed by the others in order. A key typed after an erase in an empty buffer
  is not read, however often one reads.
\<close>

theorem keyboard_refines_queue:
  assumes "keys_ok p s"
  shows "(\<forall>ops out q. queue_spec 1024 ops (keys p s) = Some (out, q) \<longrightarrow>
      (\<exists>s'. keyboard_run p ops s = (out, s') \<and> keys_ok p s' \<and> keys p s' = q))
    \<and> (\<forall>c. length (keys p s) = 1024 \<longrightarrow> c \<noteq> 0 \<longrightarrow>
      fst (keyboard_run p (Push c # replicate 1024 Pop) s) = c # tl (keys p s))
    \<and> (\<forall>c n. keys p s = [] \<longrightarrow> c \<noteq> 0 \<longrightarrow> fst (keyboard_run p (Erase # Push c # replicate n Pop) s) = replicate n 0)"
  by (intro conjI allI impI kb.run_refines [OF assms] keyboard_push_full [OF assms] keyboard_erase_empty [OF assms]) assumption+

text \<open>A state for the witnesses: the process at 2 MiB runs, and no key was typed yet.\<close>

definition typing_mem :: mem where "typing_mem = (\<lambda>_. 0)(0x210036 := 0x20)"

definition typing_demo :: "sim_drive process_state" where
  "typing_demo = process_demo\<lparr>kmem := typing_mem, current_process := 0x200000, current_task := 0x210000\<rparr>"

lemma typing_state:
  assumes "kmem s = typing_mem" "current_process s = 0x200000" "current_task s = 0x210000"
  shows "keys_ok 0x200000 s" "keys 0x200000 s = []"
proof -
  have z: "kmem s x = (if x = 0x210036 then 0x20 else 0)" for x by (simp add: assms(1) typing_mem_def)
  have f: "get_field 0x200000 keyboard_head s = 0" "get_field 0x200000 keyboard_tail s = 0"
    "get_field 0x210000 task_process s = 0x200000"
    by (simp_all add: get_field_def word_at_def load32_def z keyboard_head_def keyboard_tail_def task_offsets)
  have d: "disjoint_ranges 0x200000 9364 0x210000 64" by (rule disjoint_ranges_unat) simp_all
  have "key_at 0x200000 j s = 0" for j
  proof -
    have "\<not> in_range 0x200000 9364 0x210036" by (simp add: in_range_unat)
    then have "key_cell 0x200000 k \<noteq> 0x210036" for k using key_cell_in [of "0x200000" k] by auto
    then show ?thesis by (simp add: key_at_def z)
  qed
  then show "keys_ok 0x200000 s" "keys 0x200000 s = []"
    using f d assms(2,3) by (simp_all add: keys_ok_def keys_def key_count_def)
qed

lemma typing_demo: "keys_ok 0x200000 typing_demo" "keys 0x200000 typing_demo = []"
  by (rule typing_state; simp add: typing_demo_def)+

theorem keyboard_refines_queue_witness:
  "\<exists>s'. keyboard_run 0x200000 [Push 0x61, Push 0x62, Pop, Erase, Pop] typing_demo = ([0x61, 0], s') \<and> keys 0x200000 s' = []"
  using conjunct1 [OF keyboard_refines_queue [OF typing_demo(1)], rule_format,
      of "[Push 0x61, Push 0x62, Pop, Erase, Pop]" "[0x61, 0]" "[]"] typing_demo(2) by auto

section \<open>Scan codes\<close>

text \<open>The letters of the table, and what they become.\<close>

lemma scan_code_small: "unat scancode < length keyboard_scan_set_one \<Longrightarrow> keyboard_scan_set_one ! unat scancode < 0x80"
proof -
  have "\<forall>c \<in> set keyboard_scan_set_one. c < 0x80" by (simp add: keyboard_scan_set_one_def ascii_def of_char_def)
  then show "unat scancode < length keyboard_scan_set_one \<Longrightarrow> ?thesis" using nth_mem by blast
qed

end
