(* ===== verification/Isr80h.thy ===== *)
theory Isr80h
  imports Keyboard
begin

text \<open>
  The system calls, \<^verbatim>\<open>src/src/isr80h/\<close>: registering the ten commands, and each command. A
  command returns a word to the caller or, when it switches to a program, resumes user code from
  the registers of a task and never returns.
\<close>

section \<open>Data\<close>

datatype control = Return u32 | Resume addr

definition SYSTEM_COMMAND0_SUM :: int where [os_defs]: "SYSTEM_COMMAND0_SUM = 0"
definition SYSTEM_COMMAND1_PRINT :: int where [os_defs]: "SYSTEM_COMMAND1_PRINT = 1"
definition SYSTEM_COMMAND2_GETKEY :: int where [os_defs]: "SYSTEM_COMMAND2_GETKEY = 2"
definition SYSTEM_COMMAND3_PUTCHAR :: int where [os_defs]: "SYSTEM_COMMAND3_PUTCHAR = 3"
definition SYSTEM_COMMAND4_MALLOC :: int where [os_defs]: "SYSTEM_COMMAND4_MALLOC = 4"
definition SYSTEM_COMMAND5_FREE :: int where [os_defs]: "SYSTEM_COMMAND5_FREE = 5"
definition SYSTEM_COMMAND6_PROCESS_LOAD_START :: int where [os_defs]: "SYSTEM_COMMAND6_PROCESS_LOAD_START = 6"
definition SYSTEM_COMMAND7_INVOKE_SYSTEM_COMMAND :: int where [os_defs]: "SYSTEM_COMMAND7_INVOKE_SYSTEM_COMMAND = 7"
definition SYSTEM_COMMAND8_GET_PROGRAM_ARGUMENTS :: int where [os_defs]: "SYSTEM_COMMAND8_GET_PROGRAM_ARGUMENTS = 8"
definition SYSTEM_COMMAND9_EXIT :: int where [os_defs]: "SYSTEM_COMMAND9_EXIT = 9"

text \<open>
  Local arrays whose address is passed on. The frames of the functions called lie below
  \<open>kernel_stack\<close>, those of the command above it.
\<close>

definition buf_local :: "('d, 'a) elf_state_scheme \<Rightarrow> addr" where "buf_local s = kernel_stack s"
definition path_local :: "('d, 'a) elf_state_scheme \<Rightarrow> addr" where "path_local s = kernel_stack s"
definition filename_local :: "('d, 'a) elf_state_scheme \<Rightarrow> addr" where "filename_local s = kernel_stack s + 108"

section \<open>isr80h.c\<close>

definition isr80h_register_commands :: "('d, 'a) idt_state_scheme \<Rightarrow> ('d, 'a) idt_state_scheme option" where
  "isr80h_register_commands s = do {
     s \<leftarrow> isr80h_register_command SYSTEM_COMMAND0_SUM Command0_sum s;
     s \<leftarrow> isr80h_register_command SYSTEM_COMMAND1_PRINT Command1_print s;
     s \<leftarrow> isr80h_register_command SYSTEM_COMMAND2_GETKEY Command2_getkey s;
     s \<leftarrow> isr80h_register_command SYSTEM_COMMAND3_PUTCHAR Command3_putchar s;
     s \<leftarrow> isr80h_register_command SYSTEM_COMMAND4_MALLOC Command4_malloc s;
     s \<leftarrow> isr80h_register_command SYSTEM_COMMAND5_FREE Command5_free s;
     s \<leftarrow> isr80h_register_command SYSTEM_COMMAND6_PROCESS_LOAD_START Command6_process_load_start s;
     s \<leftarrow> isr80h_register_command SYSTEM_COMMAND7_INVOKE_SYSTEM_COMMAND Command7_invoke_system_command s;
     s \<leftarrow> isr80h_register_command SYSTEM_COMMAND8_GET_PROGRAM_ARGUMENTS Command8_get_program_arguments s;
     isr80h_register_command SYSTEM_COMMAND9_EXIT Command9_exit s
   }"

section \<open>misc.c, io.c and memory.c\<close>

definition isr80h_command0_sum :: "('d, 'a) task_state_scheme \<Rightarrow> control \<times> ('d, 'a) task_state_scheme" where
  "isr80h_command0_sum s =
     (let (v2, s) = task_get_stack_item (current_task s) 1 s;
          (v1, s) = task_get_stack_item (current_task s) 0 s in
      (Return (v1 + v2), s))"

definition isr80h_command1_print ::
  "('d, 'a) task_state_scheme \<Rightarrow> (control \<times> ('d, 'a) task_state_scheme) option" where
  "isr80h_command1_print s = do {
     let (user_space_msg_buffer, s) = task_get_stack_item (current_task s) 0 s;
     let (r, s) = copy_string_from_task (current_task s) user_space_msg_buffer (buf_local s) 1024 s;
     s \<leftarrow> print (buf_local s) s;
     Some (Return 0, s)
   }"

text \<open>A \<open>char\<close> is signed: the key is extended with its sign.\<close>

definition isr80h_command2_getkey :: "('d, 'a) process_state_scheme \<Rightarrow> control \<times> ('d, 'a) process_state_scheme" where
  "isr80h_command2_getkey s = (let (c, s) = keyboard_pop s in (Return (scast c), s))"

definition isr80h_command3_putchar :: "('d, 'a) task_state_scheme \<Rightarrow> control \<times> ('d, 'a) task_state_scheme" where
  "isr80h_command3_putchar s =
     (let (item, s) = task_get_stack_item (current_task s) 0 s in
      (Return 0, terminal_writechar (ucast item) 15 s))"

definition isr80h_command4_malloc :: "('d, 'a) task_state_scheme \<Rightarrow> control \<times> ('d, 'a) task_state_scheme" where
  "isr80h_command4_malloc s =
     (let (sz, s) = task_get_stack_item (current_task s) 0 s;
          (ptr, s) = process_malloc (get_field (current_task s) task_process s) sz s in
      (Return ptr, s))"

definition isr80h_command5_free :: "('d, 'a) task_state_scheme \<Rightarrow> control \<times> ('d, 'a) task_state_scheme" where
  "isr80h_command5_free s =
     (let (ptr, s) = task_get_stack_item (current_task s) 0 s in
      (Return 0, process_free (get_field (current_task s) task_process s) ptr s))"

section \<open>process.c\<close>

text \<open>The end of the commands that start a program: its task runs.\<close>

definition run_process :: "addr \<Rightarrow> ('d, 'a) task_state_scheme \<Rightarrow> control \<times> ('d, 'a) task_state_scheme" where
  "run_process process s =
     (let task = get_field process process_task s;
          (r, s) = task_switch task s in
      (Resume (task_registers (get_field process process_task s)), s))"

definition isr80h_command6_process_load_start ::
  "(addr \<Rightarrow> ('d, 'a) process_state_scheme fs_ops) \<Rightarrow> ('d, 'a) process_state_scheme \<Rightarrow>
   (control \<times> ('d, 'a) process_state_scheme) option" where
  "isr80h_command6_process_load_start ops s = do {
     let (filename_user_ptr, s) = task_get_stack_item (current_task s) 0 s;
     let (res, s) = copy_string_from_task (current_task s) filename_user_ptr (filename_local s) ALPHAOS_MAX_PATH_LENGTH s;
     if res < 0 then Some (Return 0, s)
     else do {
       let s = s\<lparr>kmem := write_bytes (kmem s) (path_local s) (ascii ''0:/'' @ [0])\<rparr>;
       m \<leftarrow> strcpy (kmem s) (path_local s + 3) (filename_local s);
       let s = s\<lparr>kmem := m\<rparr>;
       (res, process, s) \<leftarrow> process_load_switch ops (path_local s) NULL s;
       if res < 0 then Some (Return 0, s) else Some (run_process process s)
     }
   }"

definition isr80h_command7_invoke_system_command ::
  "(addr \<Rightarrow> ('d, 'a) process_state_scheme fs_ops) \<Rightarrow> ('d, 'a) process_state_scheme \<Rightarrow>
   (control \<times> ('d, 'a) process_state_scheme) option" where
  "isr80h_command7_invoke_system_command ops s = do {
     let (item, s) = task_get_stack_item (current_task s) 0 s;
     let args = task_virtual_address_to_physical (current_task s) item s;
     empty \<leftarrow> (if args = NULL then Some True else do { len \<leftarrow> strlen (kmem s) args; Some (len = 0) });
     if empty then Some (Return (ERROR (- EINVARG)), s)
     else do {
       let s = s\<lparr>kmem := write_bytes (kmem s) (path_local s) (ascii ''0:/'' @ [0])\<rparr>;
       let s = s\<lparr>kmem := strncpy (kmem s) (path_local s + 3) args ALPHAOS_MAX_PATH_LENGTH\<rparr>;
       (res, process, s) \<leftarrow> process_load_switch ops (path_local s) NULL s;
       if res < 0 then Some (Return (ERROR res), s)
       else do {
         (res, s) \<leftarrow> process_inject_arguments process args s;
         if res < 0 then Some (Return (ERROR res), s) else Some (run_process process s)
       }
     }
   }"

text \<open>\<open>struct process_arguments\<close>: \<open>argc\<close> at offset 0, \<open>argv\<close> at offset 4.\<close>

definition isr80h_command8_get_program_arguments ::
  "('d, 'a) task_state_scheme \<Rightarrow> control \<times> ('d, 'a) task_state_scheme" where
  "isr80h_command8_get_program_arguments s =
     (let process = get_field (current_task s) task_process s;
          (item, s) = task_get_stack_item (current_task s) 0 s;
          arguments = task_virtual_address_to_physical (current_task s) item s in
      (Return 0, process_get_arguments process arguments (arguments + 4) s))"

definition isr80h_command9_exit ::
  "('d, 'a) process_state_scheme \<Rightarrow> (control \<times> ('d, 'a) process_state_scheme) option" where
  "isr80h_command9_exit s = do {
     (r, s) \<leftarrow> process_terminate (get_field (current_task s) task_process s) s;
     (regs, s) \<leftarrow> task_next s;
     Some (Resume regs, s)
   }"

section \<open>The dispatch\<close>

text \<open>The functions of the table \<open>isr80h_commands\<close>. None of them uses the interrupt frame.\<close>

fun isr80h_call ::
  "(addr \<Rightarrow> ('d, 'a) process_state_scheme fs_ops) \<Rightarrow> isr80h_command \<Rightarrow> ('d, 'a) process_state_scheme \<Rightarrow>
   (control \<times> ('d, 'a) process_state_scheme) option" where
  "isr80h_call ops Command0_sum s = Some (isr80h_command0_sum s)"
| "isr80h_call ops Command1_print s = isr80h_command1_print s"
| "isr80h_call ops Command2_getkey s = Some (isr80h_command2_getkey s)"
| "isr80h_call ops Command3_putchar s = Some (isr80h_command3_putchar s)"
| "isr80h_call ops Command4_malloc s = Some (isr80h_command4_malloc s)"
| "isr80h_call ops Command5_free s = Some (isr80h_command5_free s)"
| "isr80h_call ops Command6_process_load_start s = isr80h_command6_process_load_start ops s"
| "isr80h_call ops Command7_invoke_system_command s = isr80h_command7_invoke_system_command ops s"
| "isr80h_call ops Command8_get_program_arguments s = Some (isr80h_command8_get_program_arguments s)"
| "isr80h_call ops Command9_exit s = isr80h_command9_exit s"

definition isr80h_handle_command ::
  "(addr \<Rightarrow> ('d, 'a) idt_state_scheme fs_ops) \<Rightarrow> int \<Rightarrow> ('d, 'a) idt_state_scheme \<Rightarrow>
   (control \<times> ('d, 'a) idt_state_scheme) option" where
  "isr80h_handle_command ops command s =
     (if command < 0 \<or> command \<ge> int ALPHAOS_MAX_ISR80H_COMMANDS then Some (Return 0, s)
      else case isr80h_commands s ! nat command of
        None \<Rightarrow> Some (Return 0, s)
      | Some command_func \<Rightarrow> isr80h_call ops command_func s)"

definition isr80h_handler ::
  "(addr \<Rightarrow> ('d, 'a) idt_state_scheme fs_ops) \<Rightarrow> int \<Rightarrow> interrupt_frame \<Rightarrow> ('d, 'a) idt_state_scheme \<Rightarrow>
   (control \<times> ('d, 'a) idt_state_scheme) option" where
  "isr80h_handler ops command frame s = do {
     let s = kernel_page s;
     s \<leftarrow> task_current_save_state frame s;
     (res, s) \<leftarrow> isr80h_handle_command ops command s;
     (case res of
        Return v \<Rightarrow> Some (Return v, snd (task_page s))
      | Resume regs \<Rightarrow> Some (Resume regs, s))
   }"

section \<open>The table of system calls\<close>

lemma register_free:
  "i < 1024 \<Longrightarrow> isr80h_commands s ! i = None \<Longrightarrow>
   isr80h_register_command (int i) c s = Some (s\<lparr>isr80h_commands := (isr80h_commands s)[i := Some c]\<rparr>)"
  by (simp add: isr80h_register_command_def ALPHAOS_MAX_ISR80H_COMMANDS_def)

definition isr80h_table :: "isr80h_command list" where
  "isr80h_table = [Command0_sum, Command1_print, Command2_getkey, Command3_putchar, Command4_malloc, Command5_free,
     Command6_process_load_start, Command7_invoke_system_command, Command8_get_program_arguments, Command9_exit]"

lemma register_commands:
  assumes "length (isr80h_commands s) = 1024" "\<forall>i < 10. isr80h_commands s ! i = None"
  shows "isr80h_register_commands s = Some (s\<lparr>isr80h_commands := map Some isr80h_table @ drop 10 (isr80h_commands s)\<rparr>)"
proof -
  have "take 10 (isr80h_commands s) = replicate 10 None"
    using assms by (intro nth_equalityI) simp_all
  then obtain cs where cs: "isr80h_commands s = replicate 10 None @ cs" "cs = drop 10 (isr80h_commands s)"
    by (metis append_take_drop_id)
  have ten: "replicate 10 None = [None, None, None, None, None, None, None, None, None, None]" by (simp add: eval_nat_numeral)
  show ?thesis
    unfolding isr80h_register_commands_def cs(2) [symmetric] isr80h_table_def isr80h_register_command_def os_defs cs(1) ten
    by simp
qed

text \<open>
  C28: registering the commands in an empty table makes the ten system calls, and only them, reachable: command
  \<open>i < 10\<close> calls the function of that number, every other number, negative or too large, returns 0 and
  changes nothing, and a second registration panics.
\<close>

theorem isr80h_commands_dispatch:
  assumes "isr80h_commands s = replicate 1024 None"
  shows "\<exists>s'. isr80h_register_commands s = Some s' \<and> isr80h_register_commands s' = None
    \<and> (\<forall>i. isr80h_handle_command ops i s' =
         (if 0 \<le> i \<and> i < 10 then isr80h_call ops (isr80h_table ! nat i) s' else Some (Return 0, s')))"
proof -
  let ?s = "s\<lparr>isr80h_commands := map Some isr80h_table @ replicate 1014 None\<rparr>"
  have len: "length isr80h_table = 10" by (simp add: isr80h_table_def)
  have r: "isr80h_register_commands s = Some ?s" using register_commands [of s] assms by simp
  have "isr80h_register_commands ?s = None"
    by (simp add: isr80h_register_commands_def isr80h_register_command_def isr80h_table_def os_defs)
  moreover have "isr80h_handle_command ops i ?s =
      (if 0 \<le> i \<and> i < 10 then isr80h_call ops (isr80h_table ! nat i) ?s else Some (Return 0, ?s))" for i
    using len by (auto simp: isr80h_handle_command_def ALPHAOS_MAX_ISR80H_COMMANDS_def nth_append)
  ultimately show ?thesis using r by blast
qed

theorem isr80h_commands_dispatch_witness:
  "\<exists>s'. isr80h_register_commands idt_demo = Some s'
     \<and> isr80h_handle_command (\<lambda>_. fat16_ops (sim_bus (\<lambda>_. 0))) 10 s' = Some (Return 0, s')"
proof -
  have "isr80h_commands idt_demo = replicate 1024 None" by (simp add: idt_demo_def process_state.extend_def)
  from isr80h_commands_dispatch [OF this, of "\<lambda>_. fat16_ops (sim_bus (\<lambda>_. 0))"] show ?thesis by fastforce
qed

end
