(* ===== verification/Gdt.thy ===== *)
theory Gdt
  imports Prelude
begin

text \<open>
  Segment descriptors, \<^verbatim>\<open>src/src/gdt/gdt.c\<close>: the packing of base, limit and type into
  the eight bytes the processor reads. \<open>descriptor_base\<close>, \<open>descriptor_limit\<close> and \<open>descriptor_type\<close>
  are the processor's reading of those bytes, granularity included. \<open>panic\<close> never returns: it is
  the value \<open>None\<close>.
\<close>

section \<open>Data\<close>

record gdt_structured =
  gdt_base :: u32
  gdt_limit :: u32
  gdt_type :: u8

definition gdt_size :: nat where [os_defs]: "gdt_size = 8"

section \<open>gdt.c\<close>

text \<open>The assignments, in their order, to the bytes of \<open>target\<close>.\<close>

definition encodeGdtEntry :: "addr \<Rightarrow> gdt_structured \<Rightarrow> mem \<Rightarrow> mem option" where
  "encodeGdtEntry target source m =
     (if gdt_limit source > 65536 \<and> gdt_limit source AND 0xFFF \<noteq> 0xFFF then None
      else
        let m = m(target + 6 := 0x40);
            (source, m) = (if gdt_limit source > 65536
               then (source\<lparr>gdt_limit := drop_bit 12 (gdt_limit source)\<rparr>, m(target + 6 := 0xC0))
               else (source, m));
            m = m(target + 0 := ucast (gdt_limit source AND 0xFF));
            m = m(target + 1 := ucast (drop_bit 8 (gdt_limit source) AND 0xFF));
            m = m(target + 6 := m (target + 6) OR ucast (drop_bit 16 (gdt_limit source) AND 0x0F));
            m = m(target + 2 := ucast (gdt_base source AND 0xFF));
            m = m(target + 3 := ucast (drop_bit 8 (gdt_base source) AND 0xFF));
            m = m(target + 4 := ucast (drop_bit 16 (gdt_base source) AND 0xFF));
            m = m(target + 7 := ucast (drop_bit 24 (gdt_base source) AND 0xFF)) in
        Some (m(target + 5 := gdt_type source)))"

primrec gdt_structured_to_gdt :: "addr \<Rightarrow> gdt_structured list \<Rightarrow> mem \<Rightarrow> mem option" where
  "gdt_structured_to_gdt gdt [] m = Some m"
| "gdt_structured_to_gdt gdt (e # es) m =
     Option.bind (encodeGdtEntry gdt e m) (gdt_structured_to_gdt (gdt + of_nat gdt_size) es)"

text \<open>
  The table of \<^verbatim>\<open>kernel.c\<close>; \<open>tss\<close> is the address of the task state segment, whose
  size is 100 bytes.
\<close>

definition kernel_gdt_structured :: "addr \<Rightarrow> gdt_structured list" where
  "kernel_gdt_structured tss =
     [\<lparr>gdt_base = 0, gdt_limit = 0, gdt_type = 0\<rparr>,
      \<lparr>gdt_base = 0, gdt_limit = 0xFFFFFFFF, gdt_type = 0x9A\<rparr>,
      \<lparr>gdt_base = 0, gdt_limit = 0xFFFFFFFF, gdt_type = 0x92\<rparr>,
      \<lparr>gdt_base = 0, gdt_limit = 0xFFFFFFFF, gdt_type = 0xF8\<rparr>,
      \<lparr>gdt_base = 0, gdt_limit = 0xFFFFFFFF, gdt_type = 0xF2\<rparr>,
      \<lparr>gdt_base = tss, gdt_limit = 100, gdt_type = 0xE9\<rparr>]"

section \<open>What the processor reads\<close>

definition descriptor_base :: "mem \<Rightarrow> addr \<Rightarrow> u32" where
  "descriptor_base m a = ucast (m (a + 2)) OR push_bit 8 (ucast (m (a + 3)))
     OR push_bit 16 (ucast (m (a + 4))) OR push_bit 24 (ucast (m (a + 7)))"

definition descriptor_raw_limit :: "mem \<Rightarrow> addr \<Rightarrow> u32" where
  "descriptor_raw_limit m a = ucast (m a) OR push_bit 8 (ucast (m (a + 1)))
     OR push_bit 16 (ucast (m (a + 6) AND 0x0F))"

definition descriptor_granular :: "mem \<Rightarrow> addr \<Rightarrow> bool" where
  "descriptor_granular m a \<longleftrightarrow> bit (m (a + 6)) 7"

text \<open>With the granularity bit the limit counts 4 KiB pages, the last of them included.\<close>

definition descriptor_limit :: "mem \<Rightarrow> addr \<Rightarrow> u32" where
  "descriptor_limit m a =
     (if descriptor_granular m a then push_bit 12 (descriptor_raw_limit m a) OR 0xFFF
      else descriptor_raw_limit m a)"

definition descriptor_type :: "mem \<Rightarrow> addr \<Rightarrow> u8" where
  "descriptor_type m a = m (a + 5)"

section \<open>Encoding and reading back\<close>

lemma low_mask: "(0xFF :: u32) = mask 8" "(0x0F :: u32) = mask 4" "(0x0F :: u8) = mask 4" "(0xFFF :: u32) = mask 12"
  by (simp_all add: mask_eq_exp_minus_1)

lemma encode_bytes:
  assumes "\<not> (gdt_limit e > 65536 \<and> gdt_limit e AND 0xFFF \<noteq> 0xFFF)"
  defines "big \<equiv> gdt_limit e > 65536"
  defines "lim \<equiv> if big then drop_bit 12 (gdt_limit e) else gdt_limit e"
  shows "encodeGdtEntry a e m = Some (write_bytes m a
    [ucast lim, ucast (drop_bit 8 lim), ucast (gdt_base e), ucast (drop_bit 8 (gdt_base e)),
     ucast (drop_bit 16 (gdt_base e)), gdt_type e,
     (if big then 0xC0 else 0x40) OR ucast (drop_bit 16 lim AND 0x0F), ucast (drop_bit 24 (gdt_base e))])"
proof -
  have b: "(ucast (w AND 0xFF) :: u8) = ucast w" for w :: u32
    unfolding low_mask by (rule bit_word_eqI) (auto simp: bit_simps)
  show ?thesis
    using assms(1) by (auto simp: encodeGdtEntry_def b big_def lim_def Let_def fun_eq_iff add.assoc)
qed

text \<open>\<open>encodable\<close>: the limits the code accepts.\<close>

definition encodable :: "gdt_structured \<Rightarrow> bool" where
  "encodable e \<longleftrightarrow> gdt_limit e \<le> 65536 \<or> gdt_limit e AND 0xFFF = 0xFFF"

definition describes :: "mem \<Rightarrow> addr \<Rightarrow> gdt_structured \<Rightarrow> bool" where
  "describes m a e \<longleftrightarrow> descriptor_base m a = gdt_base e \<and> descriptor_limit m a = gdt_limit e
     \<and> descriptor_type m a = gdt_type e"

lemma high_flags:
  "bit ((if big then 0xC0 else 0x40 :: u8) OR ucast (w AND 0x0F :: u32)) 7 = big"
  "((if big then 0xC0 else 0x40 :: u8) OR ucast (w AND 0x0F :: u32)) AND 0x0F = ucast (w AND 0x0F)"
proof -
  have "bit (0xC0 :: u8) 7" "\<not> bit (0x40 :: u8) 7" by (simp_all add: bit_numeral_rec)
  then show "bit ((if big then 0xC0 else 0x40 :: u8) OR ucast (w AND 0x0F :: u32)) 7 = big"
    unfolding low_mask by (auto simp: bit_simps)
  have "(0xC0 :: u8) AND mask 4 = 0" "(0x40 :: u8) AND mask 4 = 0" by (simp_all add: mask_eq_exp_minus_1)
  moreover have "ucast (w AND mask 4) AND mask 4 = (ucast (w AND mask 4) :: u8)"
    by (rule bit_word_eqI) (auto simp: bit_simps)
  ultimately show "((if big then 0xC0 else 0x40 :: u8) OR ucast (w AND 0x0F :: u32)) AND 0x0F = ucast (w AND 0x0F)"
    unfolding low_mask by (simp add: bit.conj_disj_distrib2 del: mask_numeral)
qed

lemma limit_bytes:
  assumes "take_bit 20 lim = (lim :: u32)"
  shows "ucast (ucast lim :: u8) OR push_bit 8 (ucast (ucast (drop_bit 8 lim) :: u8))
     OR push_bit 16 (ucast (ucast (drop_bit 16 lim AND 0x0F) :: u8)) = lim"
proof (rule bit_word_eqI)
  fix n assume "n < LENGTH(32)"
  then consider "n < 8" | "8 \<le> n" "n < 16" | "16 \<le> n" "n < 20" | "20 \<le> n" "n < 32" by fastforce
  moreover have "bit lim n \<Longrightarrow> n < 20" using assms by (metis bit_take_bit_iff)
  ultimately show "bit (ucast (ucast lim :: u8) OR push_bit 8 (ucast (ucast (drop_bit 8 lim) :: u8))
     OR push_bit 16 (ucast (ucast (drop_bit 16 lim AND 0x0F) :: u8)) :: u32) n = bit lim n"
    unfolding low_mask by cases (auto simp: bit_simps)
qed

lemma page_limit: "w AND 0xFFF = (0xFFF :: u32) \<Longrightarrow> push_bit 12 (drop_bit 12 w) OR 0xFFF = w"
proof (rule bit_word_eqI)
  fix n assume "n < LENGTH(32)" "w AND 0xFFF = (0xFFF :: u32)"
  then have "n < 12 \<Longrightarrow> bit w n"
    unfolding low_mask by (drule_tac arg_cong [of _ _ "\<lambda>w. bit w n"]) (simp add: bit_simps)
  then show "bit (push_bit 12 (drop_bit 12 w) OR 0xFFF) n = bit w n"
    using \<open>n < LENGTH(32)\<close> unfolding low_mask by (auto simp: bit_simps)
qed

lemma encode_describes:
  assumes "encodable e"
  shows "\<exists>bs. encodeGdtEntry a e m = Some (write_bytes m a bs) \<and> length bs = 8
    \<and> (\<forall>m'. (\<forall>i < 8. m' (a + of_nat i) = bs ! i) \<longrightarrow> describes m' a e)"
proof -
  define big where "big = (gdt_limit e > 65536)"
  define lim where "lim = (if big then drop_bit 12 (gdt_limit e) else gdt_limit e)"
  define fl where "fl = (if big then 0xC0 else 0x40 :: u8) OR ucast (drop_bit 16 lim AND 0x0F)"
  let ?bs = "[ucast lim, ucast (drop_bit 8 lim), ucast (gdt_base e), ucast (drop_bit 8 (gdt_base e)),
     ucast (drop_bit 16 (gdt_base e)), gdt_type e, fl, ucast (drop_bit 24 (gdt_base e))] :: u8 list"
  have enc: "encodeGdtEntry a e m = Some (write_bytes m a ?bs)"
    using encode_bytes [of e a m] assms by (auto simp: encodable_def big_def lim_def fl_def not_less)
  have lim20: "take_bit 20 lim = lim"
  proof -
    have "unat lim < 2 ^ 20"
      using assms unat_u32_bound [of "gdt_limit e"]
      by (auto simp: lim_def big_def encodable_def drop_bit_eq_div unat_div word_less_nat_alt word_le_nat_alt less_mult_imp_div_less)
    then show ?thesis by (simp add: word_unat_eq_iff unsigned_take_bit_eq take_bit_nat_eq_self)
  qed
  have "describes m' a e" if m': "\<forall>i < 8. m' (a + of_nat i) = ?bs ! i" for m'
  proof -
    have b: "m' a = ucast lim" "m' (a + 1) = ucast (drop_bit 8 lim)" "m' (a + 2) = ucast (gdt_base e)"
      "m' (a + 3) = ucast (drop_bit 8 (gdt_base e))" "m' (a + 4) = ucast (drop_bit 16 (gdt_base e))"
      "m' (a + 5) = gdt_type e" "m' (a + 6) = fl" "m' (a + 7) = ucast (drop_bit 24 (gdt_base e))"
      using m' [rule_format, of 0] m' [rule_format, of 1] m' [rule_format, of 2] m' [rule_format, of 3]
        m' [rule_format, of 4] m' [rule_format, of 5] m' [rule_format, of 6] m' [rule_format, of 7] by simp_all
    have "descriptor_raw_limit m' a = lim"
      using limit_bytes [OF lim20] high_flags(2) by (simp add: descriptor_raw_limit_def b fl_def)
    moreover have "descriptor_granular m' a = big"
      using high_flags(1) by (simp add: descriptor_granular_def b fl_def)
    moreover have "push_bit 12 (drop_bit 12 (gdt_limit e)) OR 0xFFF = gdt_limit e" if big
      using that assms by (intro page_limit) (auto simp: big_def encodable_def)
    ultimately show ?thesis
      using bytes_of_word32 [of "gdt_base e"] b
      by (simp add: describes_def descriptor_base_def descriptor_limit_def descriptor_type_def lim_def)
  qed
  with enc show ?thesis by (intro exI [of _ ?bs]) simp
qed

section \<open>Tables\<close>

lemma gdt_table:
  assumes "\<forall>e \<in> set es. encodable e" "8 * length es \<le> 2 ^ 32"
  shows "\<exists>m'. gdt_structured_to_gdt gdt es m = Some m'
    \<and> (\<forall>x. \<not> in_range gdt (8 * length es) x \<longrightarrow> m' x = m x)
    \<and> (\<forall>i < length es. describes m' (gdt + of_nat (8 * i)) (es ! i))"
  using assms
proof (induction es arbitrary: gdt m)
  case Nil
  then show ?case by simp
next
  case (Cons e es)
  obtain bs where bs: "encodeGdtEntry gdt e m = Some (write_bytes m gdt bs)" "length bs = 8"
    and read: "\<And>m'. (\<forall>i < 8. m' (gdt + of_nat i) = bs ! i) \<Longrightarrow> describes m' gdt e"
    using encode_describes [of e gdt m] Cons.prems(1) by auto
  have "\<forall>e \<in> set es. encodable e" "8 * length es \<le> 2 ^ 32" using Cons.prems by simp_all
  then obtain m' where m': "gdt_structured_to_gdt (gdt + 8) es (write_bytes m gdt bs) = Some m'"
    and frame: "\<And>x. \<not> in_range (gdt + 8) (8 * length es) x \<Longrightarrow> m' x = write_bytes m gdt bs x"
    and rest: "\<And>i. i < length es \<Longrightarrow> describes m' (gdt + 8 + of_nat (8 * i)) (es ! i)"
    using Cons.IH [of "gdt + 8" "write_bytes m gdt bs"] by blast
  have off: "in_range (gdt + of_nat 8) (8 * length es) (gdt + of_nat i) \<longleftrightarrow> 8 \<le> i \<and> i < 8 + 8 * length es"
    if "i < 2 ^ 32" for i
    using that Cons.prems(2) in_range_offset [of i 8 "8 * length es" gdt] by simp
  have "describes m' gdt e"
  proof (rule read, intro allI impI)
    fix i :: nat assume i: "i < 8"
    then have "m' (gdt + of_nat i) = write_bytes m gdt bs (gdt + of_nat i)"
      using off [of i] by (intro frame) simp
    then show "m' (gdt + of_nat i) = bs ! i" using i bs(2) write_bytes_nth [of i bs m gdt] by simp
  qed
  then have "describes m' (gdt + of_nat (8 * i)) ((e # es) ! i)" if "i < length (e # es)" for i
    using that rest [of "i - 1"] by (cases i) (simp_all add: add.assoc)
  moreover have "m' x = m x" if x: "\<not> in_range gdt (8 * length (e # es)) x" for x
  proof -
    have "\<not> in_range gdt 8 x" using x in_range_mono [of gdt 8 x] by auto
    then have "write_bytes m gdt bs x = m x" using bs(2) by (simp add: write_bytes_apply)
    moreover have "\<not> in_range (gdt + 8) (8 * length es) x"
    proof
      assume "in_range (gdt + 8) (8 * length es) x"
      then obtain j where "j < 8 * length es" "x = gdt + of_nat (8 + j)"
        by (elim in_rangeE) (simp add: add.assoc)
      then show False using x Cons.prems(2) in_range_nth [of "8 + j" "8 * length (e # es)" gdt] by simp
    qed
    ultimately show ?thesis using frame by simp
  qed
  ultimately show ?case using bs(1) m' by (simp add: gdt_size_def)
qed

section \<open>Properties\<close>

text \<open>
  C12: a table of accepted segments is encoded so that the processor reads every one back: base, type,
  and limit (in 4 KiB pages above 64 KiB) are those of the structured entry; only the bytes of
  the table are written.
\<close>

theorem gdt_table_decodes:
  assumes "\<forall>e \<in> set es. encodable e" "8 * length es \<le> 2 ^ 32"
  shows "\<exists>m'. gdt_structured_to_gdt gdt es m = Some m'
    \<and> (\<forall>i < length es. descriptor_base m' (gdt + of_nat (8 * i)) = gdt_base (es ! i)
         \<and> descriptor_limit m' (gdt + of_nat (8 * i)) = gdt_limit (es ! i)
         \<and> descriptor_type m' (gdt + of_nat (8 * i)) = gdt_type (es ! i))
    \<and> (\<forall>x. \<not> in_range gdt (8 * length es) x \<longrightarrow> m' x = m x)"
  using gdt_table [OF assms, of gdt m] unfolding describes_def by blast

theorem gdt_table_decodes_witness:
  "\<exists>m'. gdt_structured_to_gdt 0x5000 (kernel_gdt_structured 0x9000) (\<lambda>_. 0) = Some m'
     \<and> descriptor_limit m' 0x5008 = 0xFFFFFFFF \<and> descriptor_base m' 0x5028 = 0x9000"
proof -
  have enc: "\<forall>e \<in> set (kernel_gdt_structured 0x9000). encodable e"
    by (simp add: kernel_gdt_structured_def encodable_def)
  have len: "length (kernel_gdt_structured 0x9000) = 6" by (simp add: kernel_gdt_structured_def)
  from gdt_table_decodes [OF enc, of "0x5000" "\<lambda>_. 0"] len obtain m' where
    "gdt_structured_to_gdt 0x5000 (kernel_gdt_structured 0x9000) (\<lambda>_. 0) = Some m'"
    "\<forall>i < 6. descriptor_base m' (0x5000 + of_nat (8 * i)) = gdt_base (kernel_gdt_structured 0x9000 ! i)
         \<and> descriptor_limit m' (0x5000 + of_nat (8 * i)) = gdt_limit (kernel_gdt_structured 0x9000 ! i)
         \<and> descriptor_type m' (0x5000 + of_nat (8 * i)) = gdt_type (kernel_gdt_structured 0x9000 ! i)"
    by auto
  then show ?thesis
    using spec [of "\<lambda>i. i < 6 \<longrightarrow> descriptor_base m' (0x5000 + of_nat (8 * i)) = gdt_base (kernel_gdt_structured 0x9000 ! i)
         \<and> descriptor_limit m' (0x5000 + of_nat (8 * i)) = gdt_limit (kernel_gdt_structured 0x9000 ! i)" 1]
      spec [of "\<lambda>i. i < 6 \<longrightarrow> descriptor_base m' (0x5000 + of_nat (8 * i)) = gdt_base (kernel_gdt_structured 0x9000 ! i)" 5]
    by (auto simp: kernel_gdt_structured_def)
qed

text \<open>
  The encoder panics, and so never returns, exactly when some limit exceeds 64 KiB and does not
  end on a page boundary.
\<close>

theorem gdt_table_panics:
  assumes "8 * length es \<le> 2 ^ 32"
  shows "gdt_structured_to_gdt gdt es m = None \<longleftrightarrow>
    (\<exists>e \<in> set es. 65536 < gdt_limit e \<and> gdt_limit e AND 0xFFF \<noteq> 0xFFF)"
proof
  assume n: "gdt_structured_to_gdt gdt es m = None"
  show "\<exists>e \<in> set es. 65536 < gdt_limit e \<and> gdt_limit e AND 0xFFF \<noteq> 0xFFF"
  proof (rule ccontr)
    assume "\<not> ?thesis"
    then have "\<forall>e \<in> set es. encodable e" by (auto simp: encodable_def not_less)
    from gdt_table [OF this assms, of gdt m] n show False by auto
  qed
next
  assume "\<exists>e \<in> set es. 65536 < gdt_limit e \<and> gdt_limit e AND 0xFFF \<noteq> 0xFFF"
  then show "gdt_structured_to_gdt gdt es m = None"
  proof (induction es arbitrary: gdt m)
    case (Cons e es)
    then show ?case
      by (cases "encodeGdtEntry gdt e m") (auto simp: encodeGdtEntry_def Let_def split: if_splits)
  qed simp
qed

theorem gdt_table_panics_witness:
  "gdt_structured_to_gdt 0x5000 [\<lparr>gdt_base = 0, gdt_limit = 0x20000, gdt_type = 0x92\<rparr>] (\<lambda>_. 0) = None"
  using gdt_table_panics [of "[\<lparr>gdt_base = 0, gdt_limit = 0x20000, gdt_type = 0x92\<rparr>]" "0x5000" "\<lambda>_. 0"] by simp

end
