(* ===== verification/Kernel.thy ===== *)
theory Kernel
  imports Isr80h Gdt
begin

text \<open>
  The parts of the kernel that tie the others together: the interrupt handlers of
  \<^verbatim>\<open>src/src/idt/idt.c\<close>, which call through the tables of the theory \<open>Idt\<close>, and
  \<^verbatim>\<open>kernel_main\<close> of \<^verbatim>\<open>src/src/kernel.c\<close>. \<open>ops\<close> is the dispatch over the
  drivers of mounted filesystems, \<open>bus\<close> the machine's ports.
\<close>

section \<open>idt.c: handlers\<close>

definition idt_handle_exception ::
  "('d, 'a) process_state_scheme \<Rightarrow> (control \<times> ('d, 'a) process_state_scheme) option" where
  "idt_handle_exception s = do {
     (r, s) \<leftarrow> process_terminate (get_field (current_task s) task_process s) s;
     let s = print_literal (ascii ''Program terminated due to an exception'' @ [0x0A]) s;
     (regs, s) \<leftarrow> task_next s;
     Some (Resume regs, s)
   }"

definition idt_clock :: "'d bus \<Rightarrow> ('d, 'a) task_state_scheme \<Rightarrow> (control \<times> ('d, 'a) task_state_scheme) option" where
  "idt_clock bus s = do {
     let s = s\<lparr>hw := bus_outb bus 0x20 0x20 (hw s)\<rparr>;
     (regs, s) \<leftarrow> task_next s;
     Some (Resume regs, s)
   }"

text \<open>The functions of the table \<open>interrupt_callbacks\<close>; one that returns has no value (0 here).\<close>

fun interrupt_call ::
  "'d bus \<Rightarrow> interrupt_callback \<Rightarrow> ('d, 'a) keyboard_state_scheme \<Rightarrow> (control \<times> ('d, 'a) keyboard_state_scheme) option" where
  "interrupt_call bus Idt_handle_exception s = idt_handle_exception s"
| "interrupt_call bus Idt_clock s = idt_clock bus s"
| "interrupt_call bus Classic_keyboard_handle_interrupt s = Some (Return 0, classic_keyboard_handle_interrupt bus s)"

text \<open>The stubs pass a number below 512.\<close>

definition interrupt_handler ::
  "'d bus \<Rightarrow> nat \<Rightarrow> interrupt_frame \<Rightarrow> ('d, 'a) keyboard_state_scheme \<Rightarrow>
   (control \<times> ('d, 'a) keyboard_state_scheme) option" where
  "interrupt_handler bus interrupt frame s = do {
     let s = kernel_page s;
     (res, s) \<leftarrow>
       (case interrupt_callbacks s ! interrupt of
          None \<Rightarrow> Some (Return 0, s)
        | Some callback \<Rightarrow> do {
            s \<leftarrow> task_current_save_state frame s;
            interrupt_call bus callback s
          });
     (case res of
        Resume regs \<Rightarrow> Some (Resume regs, s)
      | Return v \<Rightarrow>
          let (r, s) = task_page s in Some (Return 0, s\<lparr>hw := bus_outb bus 0x20 0x20 (hw s)\<rparr>))
   }"

section \<open>kernel.c\<close>

text \<open>
  Addresses of the variables \<open>gtd_real\<close> and \<open>tss\<close>, the registers that the boot code loads, and whether
  paging is on.
\<close>

record 'd kernel_state = "'d keyboard_state" +
  gtd_real :: addr
  tss_var :: addr
  gdtr :: "addr \<times> u32"
  tr :: u32
  paging_enabled :: bool

definition ALPHAOS_TOTAL_GDT_SEGMENTS :: nat where [os_defs]: "ALPHAOS_TOTAL_GDT_SEGMENTS = 6"
definition sizeof_tss :: nat where "sizeof_tss = 100"
definition tss_esp0 :: u32 where "tss_esp0 = 1"
definition tss_ss0 :: u32 where "tss_ss0 = 2"

definition gdt_load :: "addr \<Rightarrow> u32 \<Rightarrow> ('d, 'a) kernel_state_scheme \<Rightarrow> ('d, 'a) kernel_state_scheme" where
  "gdt_load gdt sz s = s\<lparr>gdtr := (gdt, sz)\<rparr>"

definition tss_load :: "u32 \<Rightarrow> ('d, 'a) kernel_state_scheme \<Rightarrow> ('d, 'a) kernel_state_scheme" where
  "tss_load segment s = s\<lparr>tr := segment\<rparr>"

definition enable_paging :: "('d, 'a) kernel_state_scheme \<Rightarrow> ('d, 'a) kernel_state_scheme" where
  "enable_paging s = s\<lparr>paging_enabled := True\<rparr>"

text \<open>\<open>kernel_main\<close> up to the first program.\<close>

definition kernel_boot ::
  "(addr \<Rightarrow> ('d, 'a) kernel_state_scheme fs_ops) \<Rightarrow> 'd bus \<Rightarrow> kernel_code \<Rightarrow> ('d, 'a) kernel_state_scheme \<Rightarrow>
   ('d, 'a) kernel_state_scheme option" where
  "kernel_boot ops bus code s = do {
     let s = terminal_init s;
     let s = s\<lparr>kmem := memset (kmem s) (gtd_real s) 0 (8 * ALPHAOS_TOTAL_GDT_SEGMENTS)\<rparr>;
     m \<leftarrow> gdt_structured_to_gdt (gtd_real s) (kernel_gdt_structured (tss_var s)) (kmem s);
     let s = gdt_load (gtd_real s) (of_nat (8 * ALPHAOS_TOTAL_GDT_SEGMENTS)) (s\<lparr>kmem := m\<rparr>);
     let s = kheap_init s;
     s \<leftarrow> fs_init s;
     s \<leftarrow> disk_search_and_init ops s;
     let s = idt_init code s;
     let s = s\<lparr>kmem := memset (kmem s) (tss_var s) 0 sizeof_tss\<rparr>;
     let s = set_field (tss_var s) tss_esp0 0x600000 s;
     let s = set_field (tss_var s) tss_ss0 KERNEL_DATA_SELECTOR s;
     let s = tss_load 0x28 s;
     let (chunk, s) = paging_new_4gb (ucast (PAGING_IS_WRITABLE OR PAGING_IS_PRESENT OR PAGING_ACCESS_FROM_ALL)) s;
     let s = s\<lparr>kernel_chunk := chunk\<rparr>;
     let s = paging_switch (kernel_chunk s) s;
     let s = enable_paging s;
     s \<leftarrow> isr80h_register_commands s;
     Some (keyboard_init bus s)
   }"

text \<open>
  The rest: the shell is loaded (\<open>shell_path\<close> is the address of the literal "0:/shell.elf"), gets
  its own name as argument, in a local \<open>struct command_argument\<close>, and runs. The result is the
  address of the registers that user code starts with.
\<close>

definition arg_local :: "('d, 'a) elf_state_scheme \<Rightarrow> addr" where "arg_local s = kernel_stack s"

definition kernel_main ::
  "(addr \<Rightarrow> ('d, 'a) kernel_state_scheme fs_ops) \<Rightarrow> 'd bus \<Rightarrow> kernel_code \<Rightarrow> addr \<Rightarrow> ('d, 'a) kernel_state_scheme \<Rightarrow>
   (control \<times> ('d, 'a) kernel_state_scheme) option" where
  "kernel_main ops bus code shell_path s = do {
     s \<leftarrow> kernel_boot ops bus code s;
     (res, process, s) \<leftarrow> process_load_switch ops shell_path NULL s;
     if res \<noteq> ALPHAOS_ALL_OK then None
     else do {
       let arg = arg_local s;
       let s = s\<lparr>kmem := write_bytes (kmem s) arg (ascii ''SHELL.ELF'' @ [0])\<rparr>;
       let s = set_field arg argument_next NULL s;
       (r, s) \<leftarrow> process_inject_arguments process arg s;
       (regs, s) \<leftarrow> task_run_first_ever_task s;
       Some (Resume regs, s)
     }
   }"

section \<open>Saving the registers of the interrupted task\<close>

definition registers_saved :: "addr \<Rightarrow> interrupt_frame \<Rightarrow> 'a kheap_state_scheme \<Rightarrow> bool" where
  "registers_saved t frame s \<longleftrightarrow> get_field t reg_ip s = frame_ip frame \<and> get_field t reg_cs s = frame_cs frame
     \<and> get_field t reg_flags s = frame_flags frame \<and> get_field t reg_esp s = frame_esp frame
     \<and> get_field t reg_ss s = frame_ss frame \<and> get_field t reg_eax s = frame_eax frame
     \<and> get_field t reg_ebp s = frame_ebp frame \<and> get_field t reg_ebx s = frame_ebx frame
     \<and> get_field t reg_ecx s = frame_ecx frame \<and> get_field t reg_edi s = frame_edi frame
     \<and> get_field t reg_edx s = frame_edx frame \<and> get_field t reg_esi s = frame_esi frame"

lemma registers_saved_cong: "kmem s' = kmem s \<Longrightarrow> registers_saved t frame s' = registers_saved t frame s"
  by (simp add: registers_saved_def get_field_def)

lemma task_field_outside: "\<not> in_range t 64 x \<Longrightarrow> unat i < 16 \<Longrightarrow> kmem (set_field t i v s) x = kmem s x"
  using set_field_outside [of t 16 x i v s] by simp

lemma task_save_state_law:
  "registers_saved t frame (task_save_state t frame s)"
  "i \<in> {task_page_directory, task_process, task_link_next, task_link_prev} \<Longrightarrow>
     get_field t i (task_save_state t frame s) = get_field t i s"
  "\<not> in_range t 64 x \<Longrightarrow> kmem (task_save_state t frame s) x = kmem s x"
  "task_save_state t frame s = s\<lparr>kmem := kmem (task_save_state t frame s)\<rparr>"
proof -
  show "registers_saved t frame (task_save_state t frame s)"
    unfolding task_save_state_def Let_def registers_saved_def by (simp add: get_set_field reg_offsets)
  show "i \<in> {task_page_directory, task_process, task_link_next, task_link_prev} \<Longrightarrow>
     get_field t i (task_save_state t frame s) = get_field t i s"
    unfolding task_save_state_def Let_def by (auto simp: get_set_field reg_offsets task_offsets)
  show "\<not> in_range t 64 x \<Longrightarrow> kmem (task_save_state t frame s) x = kmem s x"
    unfolding task_save_state_def Let_def by (simp add: task_field_outside reg_offsets)
  show "task_save_state t frame s = s\<lparr>kmem := kmem (task_save_state t frame s)\<rparr>"
    unfolding task_save_state_def Let_def by (simp add: set_field_def)
qed

text \<open>The tasks stay linked and their address spaces stay in place.\<close>

lemma task_save_state_vars [simp]:
  "task_head (task_save_state t frame s) = task_head s" "task_tail (task_save_state t frame s) = task_tail s"
  "current_task (task_save_state t frame s) = current_task s" "kernel_heap (task_save_state t frame s) = kernel_heap s"
  "hw (task_save_state t frame s) = hw s"
  by (simp_all add: task_save_state_def Let_def set_field_def)

lemma process_save_state_vars [simp]: "current_process (task_save_state t frame s) = current_process s"
  by (simp add: task_save_state_def Let_def set_field_def)

lemma keyboard_save_state_vars [simp]:
  "interrupt_callbacks (task_save_state t frame s) = interrupt_callbacks s"
  "isr80h_commands (task_save_state t frame s) = isr80h_commands s"
  "classic_keyboard (task_save_state t frame s) = classic_keyboard s" "keyboards (task_save_state t frame s) = keyboards s"
  by (simp_all add: task_save_state_def Let_def set_field_def)

lemma tasks_save_field:
  assumes "tasks_inv s ts" "t \<in> set ts" "q \<in> set ts" "i \<in> {task_page_directory, task_process, task_link_next, task_link_prev}"
  shows "get_field q i (task_save_state t frame s) = get_field q i s"
proof (cases "q = t")
  case True
  then show ?thesis using task_save_state_law(2) assms(4) by blast
next
  case False
  have ok: "kheap_ok s" "klive s q = Some 1" "klive s t = Some 1" using assms by (auto simp: tasks_inv_def)
  show ?thesis
  proof (rule get_field_cong [where n = 16])
    fix x assume "in_range q (4 * 16) x"
    then have "in_range q 4096 x" by (rule in_range_mono) simp
    then have "\<not> in_range t 4096 x" using klive_page_disjoint [OF ok(1-3) False] by blast
    then have "\<not> in_range t 64 x" using in_range_mono [of t 64 x 4096] by auto
    then show "kmem (task_save_state t frame s) x = kmem s x" by (rule task_save_state_law(3))
  qed (use assms(4) in \<open>auto simp: task_offsets\<close>)
qed

lemma tasks_inv_save:
  assumes "tasks_inv s ts" "t \<in> set ts"
  shows "tasks_inv (task_save_state t frame s) ts"
proof -
  let ?s = "task_save_state t frame s"
  have ne: "ts \<noteq> []" using assms(2) by auto
  then have ok: "kheap_ok s" "\<forall>q \<in> set ts. klive s q = Some 1" "task_list s ts"
    using assms by (simp_all add: tasks_inv_def)
  have out: "kmem ?s x = kmem s x" if "\<not> in_range t (1 * 4096) x" for x
    using that in_range_mono [of t 64 x 4096] by (intro task_save_state_law(3)) auto
  have "klive s t = Some 1" using ok(2) assms(2) by blast
  note h = kheap_store [OF ok(1) this _ out, simplified]
  have "task_links ?s ts"
    using ok(3) tasks_save_field [OF assms nth_mem] unfolding task_list_def task_links_def by simp
  then have "task_list ?s ts" using ok(3) by (simp add: task_list_def)
  then show ?thesis using ok ne h by (simp add: tasks_inv_def)
qed

section \<open>The clock\<close>

text \<open>
  C29: the clock interrupt preempts: the registers of the interrupted task are saved in its structure,
  the controller is acknowledged, and the next task of the list is resumed with its own registers
  in its own address space. The list keeps its invariant, and outside the structure of the interrupted
  task no byte of memory changes.
\<close>

theorem clock_interrupt_switches:
  assumes "tasks_inv s ts" "i < length ts" "current_task s = ts ! i" "interrupt_callbacks s ! 0x20 = Some Idt_clock"
  defines "next \<equiv> ts ! (Suc i mod length ts)"
  shows "\<exists>s'. interrupt_handler bus 0x20 frame s = Some (Resume (task_registers next), s')
    \<and> registers_saved (ts ! i) frame s' \<and> current_task s' = next
    \<and> current_directory s' = load32 (kmem s') (get_field next task_page_directory s')
    \<and> tasks_inv s' ts \<and> hw s' = bus_outb bus 0x20 0x20 (hw s)
    \<and> (\<forall>x. \<not> in_range (ts ! i) 64 x \<longrightarrow> kmem s' x = kmem s x)"
proof -
  let ?t = "ts ! i"
  let ?k = "kernel_page s"
  let ?s = "task_save_state ?t frame ?k"
  let ?h = "?s\<lparr>hw := bus_outb bus 0x20 0x20 (hw ?s)\<rparr>"
  have k: "kmem ?k = kmem s" "kernel_heap ?k = kernel_heap s" "task_head ?k = task_head s" "task_tail ?k = task_tail s"
    "current_task ?k = current_task s" "hw ?k = hw s" "interrupt_callbacks ?k = interrupt_callbacks s"
    by (simp_all add: kernel_page_def paging_switch_def paging_load_directory_def Let_def)
  have tin: "?t \<in> set ts" using assms(2) by simp
  have inv: "tasks_inv s' ts = tasks_inv s'' ts" if "kmem s' = kmem s''" "kernel_heap s' = kernel_heap s''"
    "task_head s' = task_head s''" "task_tail s' = task_tail s''" for s' s'' :: "('a, 'b) keyboard_state_scheme"
    using same_heap(1,2) [OF that(1,2)] task_list_kmem [OF that(1,3,4)] that(3) by (simp add: tasks_inv_def)
  have ik: "tasks_inv ?k ts" using inv [of ?k s] k assms(1) by simp
  have is': "tasks_inv ?h ts" using inv [of ?h ?s] tasks_inv_save [OF ik tin] by simp
  moreover have "ts \<noteq> []" using assms(2) by auto
  ultimately have l: "task_list ?h ts" by (simp add: tasks_inv_def)
  have cur: "current_task ?h = ?t" using k(5) assms(3) by simp
  obtain s' where s': "task_next ?h = Some (task_registers next, s')" "task_list s' ts" "current_task s' = next"
    "kmem s' = kmem ?h" "current_directory s' = load32 (kmem ?h) (get_field next task_page_directory ?h)"
    using task_next_ring [OF l assms(2) cur] unfolding next_def by blast
  have "s' = snd (task_switch next ?h)"
    using s'(1) unfolding task_next_def Let_def task_get_next_ring [OF l assms(2) cur] next_def [symmetric]
    by (simp add: split_beta split: if_splits)
  then have sv: "kernel_heap s' = kernel_heap ?h" "task_head s' = task_head ?h" "task_tail s' = task_tail ?h" "hw s' = hw ?h"
    by (simp_all add: task_switch_def paging_switch_def paging_load_directory_def Let_def)
  have "?t \<noteq> NULL" using task_nonnull [OF l assms(2)] .
  then have "task_current_save_state frame ?k = Some ?s" using k(5) assms(3) by (simp add: task_current_save_state_def)
  then have "interrupt_handler bus 0x20 frame s = Some (Resume (task_registers next), s')"
    using assms(4) k(7) s'(1) by (simp add: interrupt_handler_def idt_clock_def)
  moreover have "registers_saved ?t frame s'"
    using task_save_state_law(1) registers_saved_cong [of s' ?s] s'(4) by simp
  moreover have "tasks_inv s' ts" using inv [of s' ?h] s'(4) sv(1-3) is' by simp
  moreover have "current_directory s' = load32 (kmem s') (get_field next task_page_directory s')"
    using s'(4,5) by (simp add: get_field_def)
  moreover have "kmem s' x = kmem s x" if "\<not> in_range ?t 64 x" for x
    using task_save_state_law(3) [OF that, where frame = frame and s = ?k] s'(4) k(1) by simp
  moreover have "hw s' = bus_outb bus 0x20 0x20 (hw s)"
    using sv(4) k(6) by simp
  ultimately show ?thesis using s'(3) by blast
qed

text \<open>A state for the witnesses: the given tasks and memory, the tables filled, process and task at 2 MiB.\<close>

definition kernel_demo :: "sim_drive task_state \<Rightarrow> sim_drive keyboard_state" where
  "kernel_demo s = idt_state.extend (process_state.extend (task_state.extend s
      \<lparr>current_process = 0x200000, processes = 0x200000 # replicate 11 0\<rparr>)
      \<lparr>idt_descriptors = 0x140000, idtr_descriptor_limit = 0, idtr_descriptor_base = 0, idtr = (0, 0),
       interrupt_callbacks = replicate 32 (Some Idt_handle_exception)
         @ [Some Idt_clock, Some Classic_keyboard_handle_interrupt] @ replicate 478 None,
       isr80h_commands = [Some Command0_sum, Some Command1_print, Some Command2_getkey] @ replicate 1021 None\<rparr>)
      \<lparr>classic_keyboard = 0x220000, keyboards = (\<lambda>_. \<lparr>keyboard_init_fn = Some Classic_keyboard_init,
         keyboard_name = ''classic'', capslock_state = 0, keyboard_next = 0\<rparr>),
       keyboard_list_head = 0x220000, keyboard_list_last = 0x220000\<rparr>"

lemmas kernel_demo_defs = kernel_demo_def idt_state.extend_def process_state.extend_def task_state.extend_def

definition demo_frame :: interrupt_frame where
  "demo_frame = \<lparr>frame_edi = 1, frame_esi = 2, frame_ebp = 3, frame_reserved = 0, frame_ebx = 4, frame_edx = 5,
     frame_ecx = 6, frame_eax = 7, frame_ip = 0x400000, frame_cs = 0x1B, frame_flags = 0x202, frame_esp = 0x3FF000,
     frame_ss = 0x23\<rparr>"

theorem clock_interrupt_switches_witness:
  "\<exists>s'. interrupt_handler (sim_bus (\<lambda>_. 0)) 0x20 demo_frame (kernel_demo linked_tasks) = Some (Resume 0x11004, s')
     \<and> get_field 0x10000 reg_eax s' = 7 \<and> current_task s' = 0x11000"
proof -
  let ?s = "kernel_demo linked_tasks"
  have v: "kmem ?s = kmem linked_tasks" "kernel_heap ?s = kernel_heap linked_tasks" "task_head ?s = task_head linked_tasks"
    "task_tail ?s = task_tail linked_tasks" "current_task ?s = 0x10000"
    by (simp_all add: kernel_demo_defs linked_tasks_def)
  have "tasks_inv ?s [0x10000, 0x11000, 0x12000]"
    using linked_tasks v(1-4) by (simp add: tasks_inv_def kheap_defs task_list_def task_links_def get_field_def)
  moreover have "interrupt_callbacks ?s ! 0x20 = Some Idt_clock" by (simp add: kernel_demo_defs nth_append)
  ultimately show ?thesis
    using clock_interrupt_switches [of ?s "[0x10000, 0x11000, 0x12000]" 0 "sim_bus (\<lambda>_. 0)" demo_frame] v(5)
    by (auto simp: registers_saved_def demo_frame_def task_registers_def)
qed

section \<open>From the keyboard to the program\<close>

lemma keys_cong:
  assumes "kmem s' = kmem s" "current_process s' = current_process s" "current_task s' = current_task s"
  shows "keys_ok p s' = keys_ok p s" "keys p s' = keys p s"
  using assms by (simp_all add: keys_ok_def keys_def key_count_def key_at_def get_field_def)

lemma page_vars [simp]:
  "kmem (kernel_page s) = kmem s" "current_process (kernel_page s) = current_process s" "current_task (kernel_page s) = current_task s"
  "kmem (snd (task_page s)) = kmem s" "current_process (snd (task_page s)) = current_process s"
  "current_task (snd (task_page s)) = current_task s" "hw (kernel_page s) = hw s"
  by (simp_all add: kernel_page_def task_page_def task_switch_def paging_switch_def paging_load_directory_def Let_def)

lemma page_tables [simp]:
  "interrupt_callbacks (kernel_page s) = interrupt_callbacks s" "isr80h_commands (kernel_page s) = isr80h_commands s"
  "isr80h_commands (snd (task_page s)) = isr80h_commands s"
  "keyboards (kernel_page k) = keyboards k" "classic_keyboard (kernel_page k) = classic_keyboard k"
  by (simp_all add: kernel_page_def task_page_def task_switch_def paging_switch_def paging_load_directory_def Let_def)

lemma keys_save:
  assumes "keys_ok p s"
  shows "keys_ok p (task_save_state (current_task s) frame s)" "keys p (task_save_state (current_task s) frame s) = keys p s"
proof -
  let ?s = "task_save_state (current_task s) frame s"
  have d: "disjoint_ranges p 9364 (current_task s) 64" using assms by (simp add: keys_ok_def)
  have m: "kmem ?s x = kmem s x" if "in_range p 9364 x" for x
    using disjoint_rangesD [OF d that] by (rule task_save_state_law(3))
  have f: "get_field p i ?s = get_field p i s" if "unat i < 2341" for i
    using m that by (intro get_field_cong [where n = 2341]) simp_all
  have h: "get_field p keyboard_head ?s = get_field p keyboard_head s" "get_field p keyboard_tail ?s = get_field p keyboard_tail s"
    by (simp_all add: f keyboard_head_def keyboard_tail_def)
  have k: "key_at p j ?s = key_at p j s" for j unfolding key_at_def h by (rule m [OF key_cell_in])
  have t: "get_field (current_task s) task_process ?s = get_field (current_task s) task_process s"
    by (rule task_save_state_law(2)) simp
  show "keys_ok p ?s" "keys p ?s = keys p s"
    using assms by (simp_all add: keys_ok_def keys_def key_count_def h k t)
qed

lemma handler_types:
  assumes "keys_ok p s" "length (keys p s) < 1024" "bus_insb bus KEYBOARD_INPUT_PORT (hw s) = (code, d)"
    "code AND CLASSIC_KEYBOARD_KEY_RELEASED = 0" "code \<noteq> CLASSIC_KEYBOARD_CAPS_LOCK"
  defines "c \<equiv> classic_keyboard_scancode_to_char code s"
  shows "keys_ok p (classic_keyboard_handle_interrupt bus s)"
    "keys p (classic_keyboard_handle_interrupt bus s) = keys p s @ (if c = 0 then [] else [c])"
    "isr80h_commands (classic_keyboard_handle_interrupt bus s) = isr80h_commands s"
proof -
  let ?s = "(kernel_page s)\<lparr>hw := snd (bus_insb bus KEYBOARD_INPUT_PORT d)\<rparr>"
  have k: "keys_ok p ?s" "keys p ?s = keys p s" using keys_cong [of ?s s p] assms(1) by simp_all
  have c: "classic_keyboard_scancode_to_char code ?s = c"
    by (simp add: c_def classic_keyboard_scancode_to_char_def keyboard_get_capslock_def)
  let ?r = "if c \<noteq> 0 then keyboard_push c ?s else ?s"
  have h: "classic_keyboard_handle_interrupt bus s = snd (task_page ?r)"
    using assms(3-5) c by (simp add: classic_keyboard_handle_interrupt_def)
  have r: "keys_ok p ?r" "keys p ?r = keys p s @ (if c = 0 then [] else [c])"
    using keyboard_push_ring [OF k(1), of c] k assms(2) by (cases "c = 0"; simp)+
  have "isr80h_commands ?r = isr80h_commands s" by (simp add: keyboard_push_def Let_def set_field_def)
  then show "keys_ok p (classic_keyboard_handle_interrupt bus s)"
    "keys p (classic_keyboard_handle_interrupt bus s) = keys p s @ (if c = 0 then [] else [c])"
    "isr80h_commands (classic_keyboard_handle_interrupt bus s) = isr80h_commands s"
    unfolding h using r keys_cong [of "snd (task_page ?r)" ?r p] by simp_all
qed

lemma tolower_ascii:
  assumes "x < 0x80"
  shows "tolower x = (if 0x41 \<le> x \<and> x \<le> 0x5A then x + 0x20 else x)" "tolower x = 0 \<longleftrightarrow> x = 0"
    "scast (tolower x) = (ucast (tolower x) :: u32)"
proof -
  have s: "sint y = uint y" if "y < 0x80" for y :: u8
  proof -
    have "uint y < 128" using that by (simp add: word_less_def)
    moreover have "- 128 \<le> uint y" by (rule order_trans [OF _ uint_ge_0]) simp
    ultimately have "signed_take_bit 7 (uint y) = uint y" by (intro signed_take_bit_int_eq_self) simp_all
    then show ?thesis by (simp add: sint_uint)
  qed
  show e: "tolower x = (if 0x41 \<le> x \<and> x \<le> 0x5A then x + 0x20 else x)"
    using s [OF assms] by (simp add: tolower_def word_le_def)
  have "tolower x < 0x80"
  proof (cases "0x41 \<le> x \<and> x \<le> 0x5A")
    case True
    then have "unat (x + 0x20) = unat x + 32" by (subst unat_add_lem [THEN iffD1]) (simp_all add: word_le_nat_alt)
    then show ?thesis using True e by (simp add: word_less_nat_alt word_le_nat_alt)
  next
    case False
    then show ?thesis using e assms by (simp only: if_False)
  qed
  then show "scast (tolower x) = (ucast (tolower x) :: u32)"
    by (simp only: scast_eq ucast_eq s)
  show "tolower x = 0 \<longleftrightarrow> x = 0" by (rule tolower_eq_0)
qed

text \<open>
  C30: a typed key reaches the program. When a process with no unread key runs and the keyboard delivers the
  code of a pressed key with caps lock off, the interrupt handler returns, and the next system call
  \<open>getkey\<close> (2) of the process returns the character of the key, in lower case if it is a letter, and
  leaves no unread key.
\<close>

theorem typed_key_is_read:
  assumes "keys_ok p s" "keys p s = []" "interrupt_callbacks s ! 0x21 = Some Classic_keyboard_handle_interrupt"
    "isr80h_commands s ! 2 = Some Command2_getkey" "bus_insb bus KEYBOARD_INPUT_PORT (hw s) = (code, d)"
    "code AND CLASSIC_KEYBOARD_KEY_RELEASED = 0" "code \<noteq> CLASSIC_KEYBOARD_CAPS_LOCK"
    "keyboard_get_capslock (classic_keyboard s) s = KEYBOARD_CAPS_LOCK_OFF"
    "unat code < length keyboard_scan_set_one" "keyboard_scan_set_one ! unat code \<noteq> 0"
  shows "\<exists>s' s''. interrupt_handler bus 0x21 frame s = Some (Return 0, s')
    \<and> isr80h_handler ops SYSTEM_COMMAND2_GETKEY frame' s'
        = Some (Return (ucast (tolower (keyboard_scan_set_one ! unat code))), s'')
    \<and> keys_ok p s'' \<and> keys p s'' = []"
proof -
  let ?c = "tolower (keyboard_scan_set_one ! unat code)"
  let ?k = "kernel_page s" and ?t = "current_task s"
  let ?s = "task_save_state ?t frame ?k"
  have t: "?t \<noteq> NULL" using assms(1) by (simp add: keys_ok_def)
  have k: "keys_ok p ?k" "keys p ?k = []" using keys_cong [of ?k s p] assms(1,2) by simp_all
  have s: "keys_ok p ?s" "keys p ?s = []" using keys_save [OF k(1), of frame] k(2) by simp_all
  have small: "keyboard_scan_set_one ! unat code < 0x80" by (rule scan_code_small [OF assms(9)])
  have sc: "classic_keyboard_scancode_to_char code ?s = ?c"
    using assms(8,9) tolower_ascii(1) [OF small]
    by (simp add: classic_keyboard_scancode_to_char_def keyboard_get_capslock_def Let_def)
  have c: "?c \<noteq> 0" "scast ?c = (ucast ?c :: u32)" using tolower_ascii(2,3) [OF small] assms(10) by simp_all
  let ?h = "classic_keyboard_handle_interrupt bus ?s"
  have h: "keys_ok p ?h" "keys p ?h = [?c]" "isr80h_commands ?h = isr80h_commands s"
    using handler_types [OF s(1) _ _ assms(6,7), of bus d] s(2) sc c(1) assms(5) by simp_all
  define s' where "s' = (snd (task_page ?h))\<lparr>hw := bus_outb bus 0x20 0x20 (hw (snd (task_page ?h)))\<rparr>"
  have i: "interrupt_handler bus 0x21 frame s = Some (Return 0, s')"
    using assms(3) t by (simp add: interrupt_handler_def task_current_save_state_def s'_def Let_def split_beta)
  have k': "keys_ok p s'" "keys p s' = [?c]" "isr80h_commands s' = isr80h_commands s"
    using keys_cong [of s' ?h p] h by (simp_all add: s'_def)
  let ?g = "task_save_state (current_task s') frame' (kernel_page s')"
  have g: "keys_ok p ?g" "keys p ?g = [?c]"
    using keys_cong [of "kernel_page s'" s' p] keys_save [of p "kernel_page s'" frame'] k'(1,2) by simp_all
  obtain u where u: "keyboard_pop ?g = (?c, u)" "keys_ok p u" "keys p u = []"
    using keyboard_pop_ring(2) [OF g(1), of ?c "[]"] g(2) by auto
  have "current_task s' \<noteq> NULL" using k'(1) by (simp add: keys_ok_def)
  then have "isr80h_handler ops SYSTEM_COMMAND2_GETKEY frame' s' = Some (Return (ucast ?c), snd (task_page u))"
    using u(1) k'(3) assms(4) c(2)
    by (simp add: isr80h_handler_def task_current_save_state_def isr80h_handle_command_def SYSTEM_COMMAND2_GETKEY_def
        ALPHAOS_MAX_ISR80H_COMMANDS_def isr80h_command2_getkey_def)
  moreover have "keys_ok p (snd (task_page u))" "keys p (snd (task_page u)) = []"
    using keys_cong [of "snd (task_page u)" u p] u by simp_all
  ultimately show ?thesis using i by blast
qed

text \<open>A keyboard on which the key A is pressed.\<close>

definition key_bus :: "sim_drive bus" where
  "key_bus = (sim_bus (\<lambda>_. 0))\<lparr>bus_insb := (\<lambda>port d. (0x1E, d))\<rparr>"

theorem typed_key_is_read_witness:
  "\<exists>(s :: sim_drive keyboard_state) s' s''. interrupt_handler key_bus 0x21 demo_frame s = Some (Return 0, s')
     \<and> isr80h_handler (\<lambda>_. fat16_ops key_bus) SYSTEM_COMMAND2_GETKEY demo_frame s' = Some (Return 0x61, s'')"
proof -
  let ?s = "kernel_demo ((demo_state typing_mem small_heap)\<lparr>current_task := 0x210000\<rparr>)"
  have k: "keys_ok 0x200000 ?s" "keys 0x200000 ?s = []"
    by (rule typing_state; simp add: kernel_demo_defs demo_state_def)+
  have bus: "bus_insb key_bus KEYBOARD_INPUT_PORT (hw ?s) = (0x1E, hw ?s)" by (simp add: key_bus_def)
  have code: "keyboard_scan_set_one ! unat (0x1E :: u8) = 0x41" "unat (0x1E :: u8) < length keyboard_scan_set_one"
    by (simp_all add: keyboard_scan_set_one_def ascii_def of_char_def)
  have flags: "(0x1E :: u8) AND CLASSIC_KEYBOARD_KEY_RELEASED = 0" "(0x1E :: u8) \<noteq> CLASSIC_KEYBOARD_CAPS_LOCK"
    "keyboard_scan_set_one ! unat (0x1E :: u8) \<noteq> 0"
    unfolding code(1) by (simp_all add: CLASSIC_KEYBOARD_KEY_RELEASED_def CLASSIC_KEYBOARD_CAPS_LOCK_def)
  have tables: "interrupt_callbacks ?s ! 0x21 = Some Classic_keyboard_handle_interrupt" "isr80h_commands ?s ! 2 = Some Command2_getkey"
    "keyboard_get_capslock (classic_keyboard ?s) ?s = KEYBOARD_CAPS_LOCK_OFF"
    by (simp_all add: kernel_demo_defs keyboard_get_capslock_def KEYBOARD_CAPS_LOCK_OFF_def nth_append)
  have "ucast (tolower (keyboard_scan_set_one ! unat (0x1E :: u8))) = (0x61 :: u32)"
    unfolding code(1) by (simp add: tolower_def)
  with typed_key_is_read [OF k tables(1,2) bus flags(1,2) tables(3) code(2) flags(3), of demo_frame "\<lambda>_. fat16_ops key_bus" demo_frame]
  show ?thesis by metis
qed

end
