(* ===== verification/Stdlib.thy ===== *)
theory Stdlib
  imports CString
begin

text \<open>
  The library of user programs, \<^verbatim>\<open>src/programs/stdlib/src/\<close>: \<open>itoa\<close>, \<open>strtok\<close>,
  \<open>printf\<close>. Its \<open>string.c\<close> and \<open>memory.c\<close> otherwise repeat the
  kernel's routines, which the theory \<open>CString\<close> models. The system call stubs are assembly: what a call
  does to the memory of the program and to the world outside is a parameter (\<open>syscalls\<close>).
\<close>

section \<open>The program's state\<close>

record 'w syscalls =
  sys_print :: "addr \<Rightarrow> mem \<Rightarrow> 'w \<Rightarrow> 'w"
  sys_getkey :: "'w \<Rightarrow> int \<times> 'w"
  sys_putchar :: "u8 \<Rightarrow> 'w \<Rightarrow> 'w"
  sys_malloc :: "u32 \<Rightarrow> mem \<Rightarrow> 'w \<Rightarrow> addr \<times> mem \<times> 'w"
  sys_free :: "addr \<Rightarrow> mem \<Rightarrow> 'w \<Rightarrow> mem \<times> 'w"
  sys_system :: "addr \<Rightarrow> mem \<Rightarrow> 'w \<Rightarrow> int \<times> mem \<times> 'w"
  sys_arguments :: "addr \<Rightarrow> mem \<Rightarrow> 'w \<Rightarrow> mem \<times> 'w"

text \<open>
  \<open>umem\<close> is the program's memory, \<open>sp\<close> the variable of \<open>strtok\<close>, \<open>itoa_text\<close> the address of the static
  array of \<open>itoa\<close>, \<open>user_stack\<close> where the local array of the function called lies.
\<close>

record 'w user_state =
  umem :: mem
  sp :: addr
  itoa_text :: addr
  user_stack :: addr
  world :: 'w

section \<open>stdlib.c\<close>

function itoa_loop :: "addr \<Rightarrow> int \<Rightarrow> nat \<Rightarrow> mem \<Rightarrow> nat \<times> mem" where
  "itoa_loop text value loc m =
     (if value = 0 then (loc, m)
      else itoa_loop text (cdiv value 10) (loc - 1) (m(text + of_nat (loc - 1) := word_of_int (48 - cmod value 10))))"
  by pat_completeness auto
termination
proof (relation "measure (\<lambda>(text, v, loc, m). nat \<bar>v\<bar>)", goal_cases)
  case (2 a v loc m)
  then have "\<bar>cdiv v 10\<bar> = \<bar>v\<bar> div 10" by (simp add: cdiv_def abs_mult)
  moreover have "\<bar>v\<bar> div 10 < \<bar>v\<bar>" using 2 by (intro int_div_less_self) auto
  ultimately show ?case using 2 by simp
qed simp

declare itoa_loop.simps [simp del]

definition itoa :: "int \<Rightarrow> 'w user_state \<Rightarrow> addr \<times> 'w user_state" where
  "itoa value s =
     (let text = itoa_text s;
          m = (umem s)(text + 11 := 0);
          (neg, value) = (if value \<ge> 0 then (False, - value) else (True, value));
          (loc, m) = itoa_loop text value 11 m;
          (loc, m) = (if loc = 11 then (loc - 1, m(text + of_nat (loc - 1) := 0x30)) else (loc, m));
          (loc, m) = (if neg then (loc - 1, m(text + of_nat (loc - 1) := 0x2D)) else (loc, m)) in
      (text + of_nat loc, s\<lparr>umem := m\<rparr>))"

definition malloc :: "'w syscalls \<Rightarrow> u32 \<Rightarrow> 'w user_state \<Rightarrow> addr \<times> 'w user_state" where
  "malloc sys sz s = (let (p, m, w) = sys_malloc sys sz (umem s) (world s) in (p, s\<lparr>umem := m, world := w\<rparr>))"

definition free :: "'w syscalls \<Rightarrow> addr \<Rightarrow> 'w user_state \<Rightarrow> 'w user_state" where
  "free sys ptr s = (let (m, w) = sys_free sys ptr (umem s) (world s) in s\<lparr>umem := m, world := w\<rparr>)"

section \<open>strtok\<close>

text \<open>The index of the first delimiter, from \<open>i\<close> on, that is the character; the length if there is none.\<close>

function strtok_match :: "mem \<Rightarrow> addr \<Rightarrow> nat \<Rightarrow> u8 \<Rightarrow> nat \<Rightarrow> nat" where
  "strtok_match m delim len c i =
     (if i < len then if c = m (delim + of_nat i) then i else strtok_match m delim len c (Suc i) else i)"
  by pat_completeness auto
termination by (relation "measure (\<lambda>(m, delim, len, c, i). len - i)") auto

declare strtok_match.simps [simp del]

partial_function (option) strtok_skip :: "mem \<Rightarrow> addr \<Rightarrow> nat \<Rightarrow> addr \<Rightarrow> addr option" where
  "strtok_skip m delim len p_start =
     (if strtok_match m delim len (m p_start) 0 = len then Some p_start
      else strtok_skip m delim len (p_start + 1))"

partial_function (option) strtok_end :: "mem \<Rightarrow> addr \<Rightarrow> nat \<Rightarrow> addr \<Rightarrow> (mem \<times> addr) option" where
  "strtok_end m delim len p =
     (if m p \<noteq> 0 then
        if strtok_match m delim len (m p) 0 < len then Some (m(p := 0), p + 1)
        else strtok_end m delim len (p + 1)
      else Some (m, p))"

definition strtok :: "addr \<Rightarrow> addr \<Rightarrow> 'w user_state \<Rightarrow> (addr \<times> 'w user_state) option" where
  "strtok str delim s = do {
     len \<leftarrow> strlen (umem s) delim;
     if str = 0 \<and> sp s = 0 then Some (0, s)
     else do {
       let s = (if str \<noteq> 0 \<and> sp s = 0 then s\<lparr>sp := str\<rparr> else s);
       p_start \<leftarrow> strtok_skip (umem s) delim len (sp s);
       let s = s\<lparr>sp := p_start\<rparr>;
       if umem s (sp s) = 0 then Some (0, s\<lparr>sp := 0\<rparr>)
       else do {
         (m, p) \<leftarrow> strtok_end (umem s) delim len (sp s);
         Some (p_start, s\<lparr>umem := m, sp := p\<rparr>)
       }
     }
   }"

section \<open>stdio.c\<close>

definition putchar :: "'w syscalls \<Rightarrow> u32 \<Rightarrow> 'w user_state \<Rightarrow> int \<times> 'w user_state" where
  "putchar sys c s = (0, s\<lparr>world := sys_putchar sys (ucast c) (world s)\<rparr>)"

definition uprint :: "'w syscalls \<Rightarrow> addr \<Rightarrow> 'w user_state \<Rightarrow> 'w user_state" where
  "uprint sys str s = s\<lparr>world := sys_print sys str (umem s) (world s)\<rparr>"

text \<open>
  The arguments are the words after the format on the stack. A format that ends in a percent sign runs on
  behind its terminator.
\<close>

partial_function (option) printf_loop ::
  "'w syscalls \<Rightarrow> addr \<Rightarrow> addr \<Rightarrow> 'w user_state \<Rightarrow> (int \<times> 'w user_state) option" where
  "printf_loop sys p ap s =
     (if umem s p = 0 then Some (0, s)
      else if umem s p \<noteq> 0x25 then printf_loop sys (p + 1) ap (snd (putchar sys (scast (umem s p)) s))
      else
        let p = p + 1; arg = load32 (umem s) ap in
        if umem s p = 0x69 \<or> umem s p = 0x64 then
          let (str, s) = itoa (sint arg) s in printf_loop sys (p + 1) (ap + 4) (uprint sys str s)
        else if umem s p = 0x73 then printf_loop sys (p + 1) (ap + 4) (uprint sys arg s)
        else if umem s p = 0x63 then printf_loop sys (p + 1) (ap + 4) (snd (putchar sys arg s))
        else printf_loop sys (p + 1) ap (snd (putchar sys (scast (umem s p)) s)))"

definition printf :: "'w syscalls \<Rightarrow> addr \<Rightarrow> addr \<Rightarrow> 'w user_state \<Rightarrow> (int \<times> 'w user_state) option" where
  "printf sys format ap s = printf_loop sys format ap s"

section \<open>Numbers as text\<close>

text \<open>The specification: decimal digits without leading zeros, after a sign if the number is negative.\<close>

fun digits :: "nat \<Rightarrow> u8 list" where
  "digits n = (if n < 10 then [of_nat (48 + n)] else digits (n div 10) @ [of_nat (48 + n mod 10)])"

declare digits.simps [simp del]

definition decimal :: "int \<Rightarrow> u8 list" where
  "decimal v = (if v < 0 then 0x2D # digits (nat (- v)) else digits (nat v))"

lemma length_digits: "n < 10 ^ Suc k \<Longrightarrow> length (digits n) \<le> Suc k"
proof (induction k arbitrary: n)
  case 0
  then show ?case by (simp add: digits.simps)
next
  case (Suc k)
  then have "n div 10 < 10 ^ Suc k" by (simp add: div_less_iff_less_mult)
  then show ?case using Suc.IH [of "n div 10"] by (simp add: digits.simps [of n])
qed

lemma digits_nonzero: "0 \<notin> set (digits n)"
proof (induction n rule: digits.induct)
  case (1 n)
  have "(of_nat (48 + k) :: u8) \<noteq> 0" if "k < 10" for k
  proof -
    have "unat (of_nat (48 + k) :: u8) = 48 + k" using that by (subst unat_of_nat) (simp add: take_bit_nat_eq_self)
    then show ?thesis by (metis add_is_0 unat_0 zero_neq_numeral)
  qed
  from this [of n] this [of "n mod 10"] 1 show ?case by (subst digits.simps) auto
qed

lemma itoa_step: "itoa_loop base (- int n) loc m =
    (if n = 0 then (loc, m)
     else itoa_loop base (- int (n div 10)) (loc - 1) (m(base + of_nat (loc - 1) := of_nat (48 + n mod 10))))"
proof -
  have d: "cdiv (- int n) 10 = - int (n div 10)" by (cases "n = 0") (simp_all add: cdiv_def zdiv_int)
  have "48 - cmod (- int n) 10 = int (48 + n mod 10)"
    unfolding cmod_def d by (simp add: zmod_int minus_mult_div_eq_mod [symmetric] zdiv_int)
  then have w: "(word_of_int (48 - cmod (- int n) 10) :: u8) = of_nat (48 + n mod 10)" by (simp only: of_int_of_nat_eq)
  show ?thesis unfolding itoa_loop.simps [of base "- int n"] d w by simp
qed

text \<open>Writes at an index of the array of 12 bytes.\<close>

lemma text_index: "i < 12 \<Longrightarrow> j < 12 \<Longrightarrow> (base + of_nat i :: addr) = base + of_nat j \<longleftrightarrow> i = j"
  using add_of_nat_u32_inject [of i j base] by auto

definition text_from :: "addr \<Rightarrow> nat \<Rightarrow> u8 list \<Rightarrow> mem \<Rightarrow> mem \<Rightarrow> bool" where
  "text_from base k ds m m' \<longleftrightarrow> (\<forall>i < length ds. m' (base + of_nat (k + i)) = ds ! i)
     \<and> (\<forall>j < 12. k + length ds \<le> j \<longrightarrow> m' (base + of_nat j) = m (base + of_nat j))
     \<and> (\<forall>x. \<not> in_range base 12 x \<longrightarrow> m' x = m x)"

lemma text_from_Cons:
  assumes "text_from base (Suc k) ds m m'" "Suc k + length ds \<le> 12"
  shows "text_from base k (d # ds) m (m'(base + of_nat k := d))"
proof -
  have "(m'(base + of_nat k := d)) (base + of_nat (k + i)) = (d # ds) ! i" if "i < length (d # ds)" for i
    using assms that text_index [of "k + i" k base] by (cases i) (auto simp: text_from_def)
  moreover have "base + of_nat j \<noteq> base + of_nat k" if "j < 12" "Suc k + length ds \<le> j" for j
    using that assms(2) text_index [of j k base] by auto
  moreover have "in_range base 12 (base + of_nat k)" using assms(2) by (intro in_range_nth) simp_all
  ultimately show ?thesis using assms(1) by (auto simp: text_from_def)
qed

lemma text_from_snoc:
  assumes "text_from base k ds (m(base + of_nat l := d)) m'" "l = k + length ds" "l < 12"
  shows "text_from base k (ds @ [d]) m m'"
proof -
  have "in_range base 12 (base + of_nat l)" using assms(3) by (intro in_range_nth) simp_all
  then show ?thesis
    using assms text_index [of _ l base] by (auto simp: text_from_def nth_append less_Suc_eq)
qed

lemma itoa_loop_digits:
  "0 < n \<Longrightarrow> length (digits n) \<le> loc \<Longrightarrow> loc < 12 \<Longrightarrow>
   \<exists>m'. itoa_loop base (- int n) loc m = (loc - length (digits n), m')
     \<and> text_from base (loc - length (digits n)) (digits n) m m'"
proof (induction n arbitrary: loc m rule: digits.induct)
  case (1 n)
  let ?d = "of_nat (48 + n mod 10) :: u8" and ?m = "m(base + of_nat (loc - 1) := of_nat (48 + n mod 10))"
  have l: "loc - 1 < 12" "0 < loc" using "1.prems" by (auto simp: digits.simps [of n] split: if_splits)
  show ?case
  proof (cases "n < 10")
    case True
    then have "itoa_loop base (- int n) loc m = (loc - 1, ?m)"
      using "1.prems"(1) itoa_step [of base n loc m] itoa_step [of base 0 "loc - 1" ?m] by simp
    moreover have "text_from base (loc - 1) [?d] m ?m"
      using text_from_snoc [of base "loc - 1" "[]" m "loc - 1" ?d ?m] l by (simp add: text_from_def)
    ultimately show ?thesis using True by (simp add: digits.simps [of n])
  next
    case False
    let ?ds = "digits (n div 10)"
    have ds: "digits n = ?ds @ [?d]" using False by (simp add: digits.simps [of n])
    have pre: "0 < n div 10" "length ?ds \<le> loc - 1" using False "1.prems"(2) ds by simp_all
    obtain m' where m': "itoa_loop base (- int (n div 10)) (loc - 1) ?m = (loc - 1 - length ?ds, m')"
        "text_from base (loc - 1 - length ?ds) ?ds ?m m'"
      using "1.IH" [OF False pre l(1), of ?m] by blast
    have "text_from base (loc - 1 - length ?ds) (?ds @ [?d]) m m'"
      by (rule text_from_snoc [OF m'(2) _ l(1)]) (use pre(2) in simp)
    then show ?thesis using m'(1) itoa_step [of base n loc m] "1.prems"(1) ds by simp
  qed
qed

lemma text_from_cstring:
  assumes "text_from base k ds m m'" "k + length ds = 11" "m (base + 11) = 0" "0 \<notin> set ds"
  shows "cstring m' (base + of_nat k) ds"
proof -
  have e: "base + of_nat k + of_nat (length ds) = base + of_nat 11"
    using assms(2) by (simp only: add.assoc flip: of_nat_add)
  have "m' (base + of_nat 11) = m (base + of_nat 11)"
    using assms(1,2) unfolding text_from_def by (elim conjE) (erule allE [of _ 11], simp)
  then have "m' (base + of_nat k + of_nat (length ds)) = 0" unfolding e using assms(3) by simp
  then show ?thesis using assms(1,4) by (simp add: cstring_def text_from_def add.assoc)
qed

text \<open>The digits with the case of zero.\<close>

lemma itoa_digits:
  fixes n :: nat
  assumes "length (digits n) \<le> 10"
  shows "\<exists>m'. (let (loc, m) = itoa_loop base (- int n) 11 m in
      if loc = 11 then (loc - 1, m(base + of_nat (loc - 1) := 0x30)) else (loc, m)) = (11 - length (digits n), m')
    \<and> text_from base (11 - length (digits n)) (digits n) m m'"
proof (cases "n = 0")
  case True
  let ?m = "m(base + of_nat 10 := 0x30)"
  have "text_from base 10 ([] @ [0x30]) m ?m"
    by (rule text_from_snoc [of _ _ _ _ 10]) (simp_all add: text_from_def)
  then show ?thesis using itoa_step [of base 0 11 m] True by (simp add: digits.simps [of 0])
next
  case False
  then have "0 < length (digits n)" by (subst digits.simps) simp
  then have "11 - length (digits n) \<noteq> 11" using assms by linarith
  then show ?thesis using itoa_loop_digits [of n 11 base m] False assms by auto
qed

lemma itoa_writes:
  assumes "- (2 ^ 31) \<le> v" "v < 2 ^ 31"
  shows "\<exists>k s'. itoa v s = (itoa_text s + of_nat k, s') \<and> k + length (decimal v) = 11
    \<and> cstring (umem s') (itoa_text s + of_nat k) (decimal v)
    \<and> s' = s\<lparr>umem := umem s'\<rparr> \<and> (\<forall>x. \<not> in_range (itoa_text s) 12 x \<longrightarrow> umem s' x = umem s x)"
proof -
  let ?t = "itoa_text s" and ?m = "(umem s)(itoa_text s + 11 := 0)"
  let ?n = "nat \<bar>v\<bar>" and ?L = "length (digits (nat \<bar>v\<bar>))"
  have len: "?L \<le> 10" using assms length_digits [of ?n 9] by simp
  obtain m where m: "(let (loc, m) = itoa_loop ?t (- int ?n) 11 ?m in
      if loc = 11 then (loc - 1, m(?t + of_nat (loc - 1) := 0x30)) else (loc, m)) = (11 - ?L, m)"
    "text_from ?t (11 - ?L) (digits ?n) ?m m"
    using itoa_digits [OF len] by blast
  obtain l mm where l: "itoa_loop ?t (- int ?n) 11 ?m = (l, mm)" by fastforce
  then have lm: "(if l = 11 then (l - 1, mm(?t + of_nat (l - 1) := 0x30)) else (l, mm)) = (11 - ?L, m)" using m(1) by simp
  have "\<exists>m'. itoa v s = (?t + of_nat (11 - length (decimal v)), s\<lparr>umem := m'\<rparr>)
      \<and> text_from ?t (11 - length (decimal v)) (decimal v) ?m m' \<and> length (decimal v) \<le> 11"
  proof (cases "v < 0")
    case True
    then have d: "decimal v = 0x2D # digits ?n" "- int ?n = v" by (simp_all add: decimal_def)
    have k: "Suc (10 - ?L) = 11 - ?L" using len by simp
    have "text_from ?t (10 - ?L) (0x2D # digits ?n) ?m (m(?t + of_nat (10 - ?L) := 0x2D))"
      by (rule text_from_Cons) (use m(2) k len in simp_all)
    moreover have "itoa v s = (?t + of_nat (10 - ?L), s\<lparr>umem := m(?t + of_nat (10 - ?L) := 0x2D)\<rparr>)"
      using True k unfolding itoa_def Let_def l [unfolded d(2)] prod.case lm by (simp add: l [unfolded d(2)] lm)
    ultimately show ?thesis using d(1) len by auto
  next
    case False
    then have d: "decimal v = digits ?n" "- int ?n = - v" by (simp_all add: decimal_def)
    have "itoa v s = (?t + of_nat (11 - ?L), s\<lparr>umem := m\<rparr>)"
      using False unfolding itoa_def Let_def by (simp add: l [unfolded d(2)] lm)
    then show ?thesis using m(2) d(1) len by auto
  qed
  then obtain m' where m': "itoa v s = (?t + of_nat (11 - length (decimal v)), s\<lparr>umem := m'\<rparr>)"
    "text_from ?t (11 - length (decimal v)) (decimal v) ?m m'" "length (decimal v) \<le> 11" by blast
  have "0 \<notin> set (decimal v)" using digits_nonzero by (auto simp: decimal_def)
  then have "cstring m' (?t + of_nat (11 - length (decimal v))) (decimal v)"
    using text_from_cstring [OF m'(2)] m'(3) by simp
  moreover have "in_range ?t 12 (?t + of_nat 11)" by (rule in_range_nth) simp_all
  then have "m' x = umem s x" if "\<not> in_range ?t 12 x" for x
    using m'(2) that by (auto simp: text_from_def)
  ultimately show ?thesis using m'(1,3)
    by (intro exI [of _ "11 - length (decimal v)"] exI [of _ "s\<lparr>umem := m'\<rparr>"]) simp
qed

text \<open>Reading a number back, by Horner's rule over \<open>tonumericdigit\<close>.\<close>

definition read_digits :: "u8 list \<Rightarrow> int" where
  "read_digits = foldl (\<lambda>n c. 10 * n + tonumericdigit c) 0"

definition read_decimal :: "u8 list \<Rightarrow> int" where
  "read_decimal cs = (if hd cs = 0x2D then - read_digits (tl cs) else read_digits cs)"

lemma tonumericdigit_digit: "n < 10 \<Longrightarrow> tonumericdigit (of_nat (48 + n)) = int n"
proof -
  assume "n < 10"
  then have "n \<in> {0, 1, 2, 3, 4, 5, 6, 7, 8, 9}" by auto
  then show ?thesis by (elim insertE) (simp_all add: tonumericdigit_def)
qed

lemma read_digits_digits: "read_digits (digits n) = int n"
proof (induction n rule: digits.induct)
  case (1 n)
  show ?case
  proof (cases "n < 10")
    case True
    then show ?thesis by (subst digits.simps) (simp add: read_digits_def tonumericdigit_digit del: of_nat_add)
  next
    case False
    have "int n = 10 * int (n div 10) + int (n mod 10)" by (simp add: zdiv_int zmod_int)
    then show ?thesis using 1 False tonumericdigit_digit [of "n mod 10"]
      by (subst digits.simps) (simp add: read_digits_def del: of_nat_add)
  qed
qed

lemma hd_digits: "hd (digits n) \<noteq> 0x2D"
proof (induction n rule: digits.induct)
  case (1 n)
  have "digits (n div 10) \<noteq> []" by (subst digits.simps) simp
  moreover have "(of_nat (48 + n) :: u8) \<noteq> 0x2D" if "n < 10"
  proof
    assume "(of_nat (48 + n) :: u8) = 0x2D"
    then have "tonumericdigit 0x2D = int n" using tonumericdigit_digit [OF that] by (simp only:)
    then show False by (simp add: tonumericdigit_def)
  qed
  ultimately show ?case using 1 by (subst digits.simps) auto
qed

lemma read_decimal_decimal: "read_decimal (decimal v) = v"
  using hd_digits by (simp add: read_decimal_def decimal_def read_digits_digits)

text \<open>
  C31: for every \<open>int\<close>, the smallest one included, \<open>itoa\<close> returns a pointer into its array to
  the decimal text of the number, without leading zeros and from which the number can be read back, and
  writes only that array.
\<close>

theorem itoa_decimal:
  assumes "- (2 ^ 31) \<le> v" "v < 2 ^ 31"
  shows "\<exists>k s'. itoa v s = (itoa_text s + of_nat k, s') \<and> k + length (decimal v) = 11
    \<and> cstring (umem s') (itoa_text s + of_nat k) (decimal v) \<and> read_decimal (decimal v) = v
    \<and> s' = s\<lparr>umem := umem s'\<rparr> \<and> (\<forall>x. \<not> in_range (itoa_text s) 12 x \<longrightarrow> umem s' x = umem s x)"
  using itoa_writes [OF assms, of s] read_decimal_decimal by blast

definition demo_user :: "'w \<Rightarrow> 'w user_state" where
  "demo_user w = \<lparr>umem = (\<lambda>_. 0xFF), sp = 0, itoa_text = 0x402000, user_stack = 0x3FE000, world = w\<rparr>"

lemma decimal_min: "decimal (- 2147483648) = [0x2D, 0x32, 0x31, 0x34, 0x37, 0x34, 0x38, 0x33, 0x36, 0x34, 0x38]"
  by (simp add: decimal_def digits.simps)

theorem itoa_decimal_witness:
  "\<exists>k s'. itoa (- 2147483648) (demo_user ()) = (0x402000 + of_nat k, s') \<and> k + 11 = 11
    \<and> cstring (umem s') (0x402000 + of_nat k) [0x2D, 0x32, 0x31, 0x34, 0x37, 0x34, 0x38, 0x33, 0x36, 0x34, 0x38]"
  using itoa_decimal [of "- 2147483648" "demo_user ()"] unfolding decimal_min by (auto simp: demo_user_def)

section \<open>Formatted output\<close>

text \<open>
  The specification: the text a format and its arguments stand for. A format that ends in a percent sign
  has none.
\<close>

datatype printf_arg = Number int | Text "u8 list" | Character u32

fun formatted :: "u8 list \<Rightarrow> printf_arg list \<Rightarrow> u8 list option" where
  "formatted [] args = Some []"
| "formatted [c] args = (if c = 0x25 then None else Some [c])"
| "formatted (c # d # cs) args =
     (if c \<noteq> 0x25 then map_option (Cons c) (formatted (d # cs) args)
      else if d = 0x69 \<or> d = 0x64 then
        (case args of Number v # args \<Rightarrow> map_option (append (decimal v)) (formatted cs args) | _ \<Rightarrow> None)
      else if d = 0x73 then
        (case args of Text xs # args \<Rightarrow> map_option (append xs) (formatted cs args) | _ \<Rightarrow> None)
      else if d = 0x63 then
        (case args of Character w # args \<Rightarrow> map_option (Cons (ucast w)) (formatted cs args) | _ \<Rightarrow> None)
      else map_option (Cons d) (formatted cs args))"

text \<open>The arguments on the stack; strings lie outside the array of \<open>itoa\<close>, whose address is \<open>t\<close>.\<close>

fun argument :: "mem \<Rightarrow> addr \<Rightarrow> u32 \<Rightarrow> printf_arg \<Rightarrow> bool" where
  "argument m t w (Number v) \<longleftrightarrow> w = word_of_int v \<and> - (2 ^ 31) \<le> v \<and> v < 2 ^ 31"
| "argument m t w (Text xs) \<longleftrightarrow> cstring m w xs \<and> length xs < 1024 \<and> disjoint_ranges w (Suc (length xs)) t 12"
| "argument m t w (Character c) \<longleftrightarrow> w = c"

fun arguments :: "mem \<Rightarrow> addr \<Rightarrow> addr \<Rightarrow> printf_arg list \<Rightarrow> bool" where
  "arguments m t ap [] \<longleftrightarrow> True"
| "arguments m t ap (x # xs) \<longleftrightarrow>
     argument m t (load32 m ap) x \<and> disjoint_ranges ap 4 t 12 \<and> arguments m t (ap + 4) xs"

text \<open>The kernel prints a string of a program, up to the size of its buffer, character by character.\<close>

definition console :: "'w syscalls \<Rightarrow> bool" where
  "console sys \<longleftrightarrow> (\<forall>p m w xs. cstring m p xs \<longrightarrow> length xs < 1024 \<longrightarrow> sys_print sys p m w = fold (sys_putchar sys) xs w)"

abbreviation same_outside :: "addr \<Rightarrow> mem \<Rightarrow> mem \<Rightarrow> bool" where
  "same_outside t m m' \<equiv> (\<forall>x. \<not> in_range t 12 x \<longrightarrow> m' x = m x)"

lemma cstring_same:
  "same_outside t m m' \<Longrightarrow> disjoint_ranges p (Suc (length xs)) t 12 \<Longrightarrow> cstring m p xs \<Longrightarrow> cstring m' p xs"
  by (erule cstring_cong) (auto dest: disjoint_rangesD)

lemma argument_same: "same_outside t m m' \<Longrightarrow> argument m t w x \<Longrightarrow> argument m' t w x"
  by (cases x) (auto intro: cstring_same)

lemma arguments_same: "same_outside t m m' \<Longrightarrow> arguments m t ap xs \<Longrightarrow> arguments m' t ap xs"
proof (induction xs arbitrary: ap)
  case (Cons x xs)
  then have "load32 m' ap = load32 m ap" by (intro load32_cong) (auto dest: disjoint_rangesD)
  then show ?case using Cons argument_same by auto
qed simp

lemma disjoint_tail: "disjoint_ranges p (Suc n) t k \<Longrightarrow> disjoint_ranges (p + 1) n t k"
  by (auto simp: disjoint_ranges_def in_range_Suc)

lemma printf_loop_itoa:
  assumes "umem s p = 0x25" "umem s (p + 1) = 0x69 \<or> umem s (p + 1) = 0x64" "load32 (umem s) ap = word_of_int v"
    "- (2 ^ 31) \<le> v" "v < 2 ^ 31" "console sys"
  shows "\<exists>m'. printf_loop sys p ap s = printf_loop sys (p + 2) (ap + 4)
      (s\<lparr>umem := m', world := fold (sys_putchar sys) (decimal v) (world s)\<rparr>) \<and> same_outside (itoa_text s) (umem s) m'"
proof -
  obtain k s' where s': "itoa v s = (itoa_text s + of_nat k, s')" "k + length (decimal v) = 11"
    "cstring (umem s') (itoa_text s + of_nat k) (decimal v)" "s' = s\<lparr>umem := umem s'\<rparr>" "same_outside (itoa_text s) (umem s) (umem s')"
    using itoa_writes [OF assms(4,5), of s] by blast
  have "sint (load32 (umem s) ap) = v" using s32_id [OF assms(4,5)] unfolding assms(3) s32_def by simp
  moreover have "length (decimal v) < 1024" using s'(2) by linarith
  then have "sys_print sys (itoa_text s + of_nat k) (umem s') w = fold (sys_putchar sys) (decimal v) w" for w
    using assms(6) s'(3) unfolding console_def by blast
  moreover have "world s' = world s" by (subst s'(4)) simp
  ultimately have "printf_loop sys p ap s = printf_loop sys (p + 2) (ap + 4) (s'\<lparr>world := fold (sys_putchar sys) (decimal v) (world s)\<rparr>)"
    using assms(1,2) s'(1) by (subst printf_loop.simps) (auto simp: Let_def uprint_def add.assoc)
  then show ?thesis using s'(5) by (subst (asm) s'(4)) blast
qed

lemma ucast_scast_u8: "ucast (scast (c :: u8) :: u32) = c"
  by (rule bit_word_eqI) (simp add: bit_simps)

lemma printf_loop_char:
  assumes "umem s p = c" "c \<noteq> 0" "c \<noteq> 0x25"
  shows "printf_loop sys p ap s = printf_loop sys (p + 1) ap (s\<lparr>umem := umem s, world := fold (sys_putchar sys) [c] (world s)\<rparr>)"
  using assms by (subst printf_loop.simps) (simp add: putchar_def ucast_scast_u8)

lemma printf_loop_percent:
  assumes "umem s p = 0x25" "umem s (p + 1) = c" "c \<notin> {0x69, 0x64, 0x73, 0x63}"
  shows "printf_loop sys p ap s = printf_loop sys (p + 2) ap (s\<lparr>umem := umem s, world := fold (sys_putchar sys) [c] (world s)\<rparr>)"
  using assms by (subst printf_loop.simps) (simp add: putchar_def ucast_scast_u8 Let_def add.assoc)

lemma printf_loop_character:
  assumes "umem s p = 0x25" "umem s (p + 1) = 0x63"
  shows "printf_loop sys p ap s = printf_loop sys (p + 2) (ap + 4)
      (s\<lparr>umem := umem s, world := fold (sys_putchar sys) [ucast (load32 (umem s) ap)] (world s)\<rparr>)"
  using assms by (subst printf_loop.simps) (simp add: putchar_def Let_def add.assoc)

lemma printf_loop_text:
  assumes "umem s p = 0x25" "umem s (p + 1) = 0x73" "console sys" "cstring (umem s) (load32 (umem s) ap) xs" "length xs < 1024"
  shows "printf_loop sys p ap s = printf_loop sys (p + 2) (ap + 4) (s\<lparr>umem := umem s, world := fold (sys_putchar sys) xs (world s)\<rparr>)"
proof -
  have "sys_print sys (load32 (umem s) ap) (umem s) (world s) = fold (sys_putchar sys) xs (world s)"
    using assms(3-5) unfolding console_def by blast
  then show ?thesis using assms(1,2) by (subst printf_loop.simps) (simp add: uprint_def Let_def add.assoc)
qed

text \<open>One step of the loop, then the rest of the format.\<close>

lemma printf_step:
  assumes "printf_loop sys p ap s = printf_loop sys p' ap' (s\<lparr>umem := m1, world := fold (sys_putchar sys) xs (world s)\<rparr>)"
    "same_outside (itoa_text s) (umem s) m1"
    "\<And>s1. umem s1 = m1 \<Longrightarrow> itoa_text s1 = itoa_text s \<Longrightarrow>
      \<exists>m'. printf_loop sys p' ap' s1 = Some (0, s1\<lparr>umem := m', world := fold (sys_putchar sys) ys (world s1)\<rparr>)
        \<and> same_outside (itoa_text s1) (umem s1) m'"
  shows "\<exists>m'. printf_loop sys p ap s = Some (0, s\<lparr>umem := m', world := fold (sys_putchar sys) (xs @ ys) (world s)\<rparr>)
      \<and> same_outside (itoa_text s) (umem s) m'"
  using assms(3) [of "s\<lparr>umem := m1, world := fold (sys_putchar sys) xs (world s)\<rparr>"] assms(1,2) by auto

lemma printf_loop_formatted:
  assumes "console sys"
  shows "formatted cs args = Some out \<Longrightarrow> cstring (umem s) p cs \<Longrightarrow> disjoint_ranges p (Suc (length cs)) (itoa_text s) 12 \<Longrightarrow>
    arguments (umem s) (itoa_text s) ap args \<Longrightarrow>
    \<exists>m'. printf_loop sys p ap s = Some (0, s\<lparr>umem := m', world := fold (sys_putchar sys) out (world s)\<rparr>)
      \<and> same_outside (itoa_text s) (umem s) m'"
proof (induction cs args arbitrary: p ap s out rule: formatted.induct)
  case (1 args)
  then show ?case by (subst printf_loop.simps) (auto intro!: exI [of _ "umem s"])
next
  case (2 c args)
  then have c: "umem s p = c" "c \<noteq> 0" "c \<noteq> 0x25" "umem s (p + 1) = 0" "out = [c] @ []" by (auto split: if_splits)
  show ?case unfolding c(5)
    by (rule printf_step [OF printf_loop_char [OF c(1-3)]])
      (simp, subst printf_loop.simps, use c(4) in \<open>auto intro!: exI [of _ "umem s"]\<close>)
next
  case (3 c d cs args)
  note same = cstring_same [rotated 2] arguments_same [rotated]
  have c: "umem s p = c" "umem s (p + 1) = d" "c \<noteq> 0" "cstring (umem s) (p + 1) (d # cs)" "cstring (umem s) (p + 2) cs"
    using "3.prems"(2) by (auto simp: add.assoc)
  have dis: "disjoint_ranges (p + 1) (Suc (length (d # cs))) (itoa_text s) 12" "disjoint_ranges (p + 2) (Suc (length cs)) (itoa_text s) 12"
    using disjoint_tail [OF "3.prems"(3) [unfolded list.size add_Suc_right add_0_right]] disjoint_tail [of "p + 1"] by (auto simp: add.assoc)
  show ?case
  proof (cases "c = 0x25")
    case False
    then obtain ys where ys: "formatted (d # cs) args = Some ys" "out = [c] @ ys" using "3.prems"(1) by auto
    show ?thesis unfolding ys(2)
      by (rule printf_step [OF printf_loop_char [OF c(1,3) False]])
        (simp, rule "3.IH"(1) [OF False ys(1)], use c(4) dis(1) "3.prems"(4) in simp_all)
  next
    case True
    consider "d = 0x69 \<or> d = 0x64" | "d = 0x73" | "d = 0x63" | "d \<notin> {0x69, 0x64, 0x73, 0x63}" by blast
    then show ?thesis
    proof cases
      case 1
      then obtain v as ys where ys: "args = Number v # as" "formatted cs as = Some ys" "out = decimal v @ ys"
        using "3.prems"(1) True by (auto split: list.splits printf_arg.splits)
      have v: "load32 (umem s) ap = word_of_int v" "- (2 ^ 31) \<le> v" "v < 2 ^ 31" and as: "arguments (umem s) (itoa_text s) (ap + 4) as"
        using "3.prems"(4) unfolding ys(1) by simp_all
      obtain m1 where m1: "printf_loop sys p ap s = printf_loop sys (p + 2) (ap + 4)
          (s\<lparr>umem := m1, world := fold (sys_putchar sys) (decimal v) (world s)\<rparr>)" "same_outside (itoa_text s) (umem s) m1"
        using printf_loop_itoa [OF _ _ v assms, of p] c(1,2) True 1 by auto
      show ?thesis unfolding ys(3)
        by (rule printf_step [OF m1])
          (rule "3.IH"(2) [OF _ 1 ys(1) refl ys(2)], use True c(5) dis(2) as same m1(2) in auto)
    next
      case 2
      then obtain xs as ys where ys: "args = Text xs # as" "formatted cs as = Some ys" "out = xs @ ys"
        using "3.prems"(1) True by (auto split: list.splits printf_arg.splits)
      have t: "cstring (umem s) (load32 (umem s) ap) xs" "length xs < 1024" and as: "arguments (umem s) (itoa_text s) (ap + 4) as"
        using "3.prems"(4) unfolding ys(1) by simp_all
      have nd: "\<not> (d = 0x69 \<or> d = 0x64)" using 2 by simp
      show ?thesis unfolding ys(3)
        by (rule printf_step [OF printf_loop_text [OF _ _ assms t]])
          (use c(1,2) True 2 in simp, use c(1,2) True 2 in simp, simp,
            rule "3.IH"(3) [OF _ nd 2 ys(1) refl ys(2)], use True c(5) dis(2) as in auto)
    next
      case 3
      then obtain w as ys where ys: "args = Character w # as" "formatted cs as = Some ys" "out = [ucast w] @ ys"
        using "3.prems"(1) True by (auto split: list.splits printf_arg.splits)
      have w: "load32 (umem s) ap = w" and as: "arguments (umem s) (itoa_text s) (ap + 4) as"
        using "3.prems"(4) unfolding ys(1) by simp_all
      have nd: "\<not> (d = 0x69 \<or> d = 0x64)" "d \<noteq> 0x73" using 3 by simp_all
      show ?thesis unfolding ys(3) w [symmetric]
        by (rule printf_step [OF printf_loop_character])
          (use c(1,2) True 3 in simp, use c(1,2) True 3 in simp, simp,
            rule "3.IH"(4) [OF _ nd 3 ys(1) refl ys(2)], use True c(5) dis(2) as in auto)
    next
      case 4
      then obtain ys where ys: "formatted cs args = Some ys" "out = [d] @ ys" using "3.prems"(1) True by auto
      show ?thesis unfolding ys(2)
        by (rule printf_step [OF printf_loop_percent])
          (use c(1) True in simp, use c(2) in simp, use 4 in simp, simp,
            rule "3.IH"(5) [OF _ _ _ _ ys(1)], use True 4 c(5) dis(2) "3.prems"(4) in auto)
    qed
  qed
qed

text \<open>
  C32: on a console that prints strings character by character, \<open>printf\<close> returns and puts out exactly
  the text its format and arguments stand for; it writes no memory but the array of \<open>itoa\<close>.
\<close>

theorem printf_formats:
  assumes "console sys" "cstring (umem s) format cs" "arguments (umem s) (itoa_text s) ap args"
    "disjoint_ranges format (Suc (length cs)) (itoa_text s) 12" "formatted cs args = Some out"
  shows "\<exists>s'. printf sys format ap s = Some (0, s') \<and> world s' = fold (sys_putchar sys) out (world s)
    \<and> s' = s\<lparr>umem := umem s', world := world s'\<rparr> \<and> (\<forall>x. \<not> in_range (itoa_text s) 12 x \<longrightarrow> umem s' x = umem s x)"
proof -
  obtain m' where "printf sys format ap s = Some (0, s\<lparr>umem := m', world := fold (sys_putchar sys) out (world s)\<rparr>)"
    "same_outside (itoa_text s) (umem s) m'"
    using printf_loop_formatted [OF assms(1,5,2,4,3)] unfolding printf_def by blast
  then show ?thesis by simp
qed

text \<open>A keyboard that holds the keys still to be read, a screen of characters, and no memory to give away.\<close>

definition demo_syscalls :: "(int list \<times> u8 list) syscalls" where
  "demo_syscalls = \<lparr>sys_print = (\<lambda>p m (ks, out). case strlen m p of Some n \<Rightarrow> (ks, out @ bytes_at m p n) | None \<Rightarrow> (ks, out)),
     sys_getkey = (\<lambda>(ks, out). case ks of [] \<Rightarrow> (0, [], out) | k # ks \<Rightarrow> (k, ks, out)),
     sys_putchar = (\<lambda>c (ks, out). (ks, out @ [c])), sys_malloc = (\<lambda>n m w. (0, m, w)),
     sys_free = (\<lambda>p m w. (m, w)), sys_system = (\<lambda>p m w. (0, m, w)),
     sys_arguments = (\<lambda>p m w. (m, w))\<rparr>"

lemma demo_fold_putchar: "fold (sys_putchar demo_syscalls) xs (ks, out) = (ks, out @ xs)"
  by (induction xs arbitrary: out) (simp_all add: demo_syscalls_def)

lemma demo_console: "console demo_syscalls"
proof -
  have "sys_print demo_syscalls p m w = fold (sys_putchar demo_syscalls) xs w" if "cstring m p xs" for p m w xs
  proof -
    have "bytes_at m p (length xs) = xs" using that by (intro nth_equalityI) (simp_all add: cstring_def)
    then show ?thesis using strlen_cstring [OF that] demo_fold_putchar [of xs "fst w" "snd w"]
      by (cases w) (simp add: demo_syscalls_def)
  qed
  then show ?thesis by (simp add: console_def)
qed

definition demo_printf :: "(int list \<times> u8 list) user_state" where
  "demo_printf = (demo_user ([], [])) \<lparr>umem :=
     store32 ((\<lambda>_. 0)(0x100 := 0x78, 0x101 := 0x3D, 0x102 := 0x25, 0x103 := 0x64, 0x104 := 0x21)) 0x200 (word_of_int (- 5))\<rparr>"

theorem printf_formats_witness:
  "\<exists>s'. printf demo_syscalls 0x100 0x200 demo_printf = Some (0, s') \<and> world s' = ([], [0x78, 0x3D, 0x2D, 0x35, 0x21])"
proof -
  let ?fmt = "[0x78, 0x3D, 0x25, 0x64, 0x21] :: u8 list"
  have f: "cstring (umem demo_printf) 0x100 ?fmt"
    by (simp add: demo_printf_def store32_def)
  have args: "arguments (umem demo_printf) (itoa_text demo_printf) 0x200 [Number (- 5)]"
    "disjoint_ranges 0x100 (Suc (length ?fmt)) (itoa_text demo_printf) 12"
    by (simp_all add: demo_printf_def demo_user_def disjoint_ranges_unat)
  have out: "formatted ?fmt [Number (- 5)] = Some [0x78, 0x3D, 0x2D, 0x35, 0x21]"
    by (simp add: decimal_def digits.simps)
  have w: "world demo_printf = ([], [])" by (simp add: demo_printf_def demo_user_def)
  from printf_formats [OF demo_console f args out] show ?thesis
    unfolding w demo_fold_putchar append_Nil by blast
qed

section \<open>Tokens\<close>

lemma strtok_match_from:
  "i \<le> len \<Longrightarrow> strtok_match m delim len c i \<le> len
    \<and> (strtok_match m delim len c i = len \<longleftrightarrow> (\<forall>j. i \<le> j \<and> j < len \<longrightarrow> c \<noteq> m (delim + of_nat j)))"
proof (induction m delim len c i rule: strtok_match.induct)
  case (1 m delim len c i)
  show ?case
  proof (cases "i < len \<and> c \<noteq> m (delim + of_nat i)")
    case True
    then have "strtok_match m delim len c i = strtok_match m delim len c (Suc i)"
      by (subst strtok_match.simps) simp
    moreover have "(\<forall>j. i \<le> j \<and> j < len \<longrightarrow> c \<noteq> m (delim + of_nat j))
        \<longleftrightarrow> (\<forall>j. Suc i \<le> j \<and> j < len \<longrightarrow> c \<noteq> m (delim + of_nat j))"
      using True by (metis Suc_leD Suc_leI le_neq_implies_less)
    ultimately show ?thesis using 1 True by simp
  next
    case False
    then have "strtok_match m delim len c i = i" by (subst strtok_match.simps) simp
    then show ?thesis using "1.prems" False by auto
  qed
qed

lemma strtok_match_delim:
  assumes "cstring m delim ds"
  shows "strtok_match m delim (length ds) c 0 = length ds \<longleftrightarrow> c \<notin> set ds"
    "strtok_match m delim (length ds) c 0 < length ds \<longleftrightarrow> c \<in> set ds"
  using assms strtok_match_from [of 0 "length ds" m delim c]
  by (auto simp: cstring_def in_set_conv_nth le_less)

lemma strtok_skip_cstring:
  assumes "cstring m delim ds"
  shows "cstring m a xs \<Longrightarrow> strtok_skip m delim (length ds) a = Some (a + of_nat (length (takeWhile (\<lambda>c. c \<in> set ds) xs)))"
proof (induction xs arbitrary: a)
  case Nil
  then show ?case using assms strtok_match_delim [OF assms]
    by (subst strtok_skip.simps) (simp add: cstring_def)
next
  case (Cons x xs)
  then show ?case using strtok_match_delim [OF assms] by (subst strtok_skip.simps) (simp add: add.assoc)
qed

lemma strtok_end_cstring:
  assumes "cstring m delim ds"
  shows "cstring m a xs \<Longrightarrow> strtok_end m delim (length ds) a =
    (let k = length (takeWhile (\<lambda>c. c \<notin> set ds) xs) in
     Some (if k = length xs then m else m(a + of_nat k := 0), a + of_nat (length xs - length (drop (Suc k) xs))))"
proof (induction xs arbitrary: a)
  case Nil
  then show ?case by (subst strtok_end.simps) simp
next
  case (Cons x xs)
  then show ?case using strtok_match_delim [OF assms]
    by (subst strtok_end.simps) (auto simp: Let_def add.assoc of_nat_diff Suc_diff_le)
qed

text \<open>Cutting a string at one of its characters.\<close>

lemma cstring_cut:
  assumes "cstring m a (xs @ y # ys)"
  shows "cstring (m(a + of_nat (length xs) := 0)) a xs"
    "cstring (m(a + of_nat (length xs) := 0)) (a + of_nat (Suc (length xs))) ys"
proof -
  have len: "length xs + Suc (length ys) < 2 ^ 32" using cstring_length [OF assms] by simp
  have i: "i < length xs + Suc (Suc (length ys)) \<Longrightarrow> (a + of_nat i = a + of_nat (length xs)) = (i = length xs)" for i
    using len by (subst add_of_nat_u32_inject) auto
  show "cstring (m(a + of_nat (length xs) := 0)) a xs"
    using assms i unfolding cstring_append by (auto simp: cstring_def)
  have "cstring m (a + of_nat (Suc (length xs))) ys" using assms unfolding cstring_append by (simp add: ac_simps)
  moreover have "m' (a + of_nat (Suc (length xs)) + of_nat j) = m (a + of_nat (Suc (length xs)) + of_nat j)"
    if "j \<le> length ys" "m' = m(a + of_nat (length xs) := 0)" for j m'
    using i [of "Suc (length xs) + j"] that by (simp only: add.assoc fun_upd_def flip: of_nat_add) simp
  ultimately show "cstring (m(a + of_nat (length xs) := 0)) (a + of_nat (Suc (length xs))) ys"
    by (simp add: cstring_def)
qed

text \<open>The specification: the next token and what is left of the text behind the delimiter that ends it.\<close>

definition next_token :: "u8 list \<Rightarrow> u8 list \<Rightarrow> u8 list" where
  "next_token ds xs = takeWhile (\<lambda>c. c \<notin> set ds) (dropWhile (\<lambda>c. c \<in> set ds) xs)"

definition after_token :: "u8 list \<Rightarrow> u8 list \<Rightarrow> u8 list" where
  "after_token ds xs = drop 1 (dropWhile (\<lambda>c. c \<notin> set ds) (dropWhile (\<lambda>c. c \<in> set ds) xs))"

lemma drop_Suc_takeWhile: "drop (Suc (length (takeWhile P xs))) xs = drop 1 (dropWhile P xs)"
  by (induction xs) auto

lemma next_token_Nil: "next_token ds xs = [] \<longleftrightarrow> dropWhile (\<lambda>c. c \<in> set ds) xs = []"
  unfolding next_token_def by (induction xs) auto

lemma token_split:
  assumes "dropWhile (\<lambda>c. c \<in> set ds) xs = ys"
  shows "ys = next_token ds xs \<and> after_token ds xs = [] \<or> (\<exists>y. ys = next_token ds xs @ y # after_token ds xs)"
proof -
  let ?rest = "dropWhile (\<lambda>c. c \<notin> set ds) ys"
  have ys: "ys = next_token ds xs @ ?rest" and r: "after_token ds xs = drop 1 ?rest"
    unfolding next_token_def after_token_def assms by simp_all
  show ?thesis
  proof (cases ?rest)
    case Nil
    have "after_token ds xs = []" using r unfolding Nil by simp
    moreover have "ys = next_token ds xs" using ys unfolding Nil by simp
    ultimately show ?thesis by blast
  next
    case (Cons y zs)
    have "zs = after_token ds xs" using r unfolding Cons by simp
    then have "ys = next_token ds xs @ y # after_token ds xs" using ys unfolding Cons by simp
    then show ?thesis by blast
  qed
qed

text \<open>
  One call, \<open>a\<close> the place where the last call stopped, or the argument if no text is being split. The
  argument is ignored while a text is being split.
\<close>

lemma strtok_next_token:
  assumes "cstring (umem s) delim ds" "str \<noteq> 0 \<or> sp s \<noteq> 0" "a = (if sp s = 0 then str else sp s)" "cstring (umem s) a xs"
  shows "if next_token ds xs = [] then strtok str delim s = Some (0, s\<lparr>sp := 0\<rparr>)
    else \<exists>s'. strtok str delim s = Some (a + of_nat (length (takeWhile (\<lambda>c. c \<in> set ds) xs)), s')
      \<and> cstring (umem s') (a + of_nat (length (takeWhile (\<lambda>c. c \<in> set ds) xs))) (next_token ds xs)
      \<and> sp s' = a + of_nat (length xs - length (after_token ds xs)) \<and> cstring (umem s') (sp s') (after_token ds xs)
      \<and> s' = s\<lparr>umem := umem s', sp := sp s'\<rparr> \<and> (\<forall>x. \<not> in_range a (length xs) x \<longrightarrow> umem s' x = umem s x)"
proof -
  let ?m = "umem s" and ?skip = "takeWhile (\<lambda>c. c \<in> set ds) xs" and ?ys = "dropWhile (\<lambda>c. c \<in> set ds) xs"
  let ?t = "next_token ds xs" and ?rest = "after_token ds xs" and ?p = "a + of_nat (length (takeWhile (\<lambda>c. c \<in> set ds) xs))"
  have xs: "xs = ?skip @ ?ys" by simp
  have ys: "cstring ?m ?p ?ys" using assms(4) by (subst (asm) xs) (simp add: cstring_append del: takeWhile_dropWhile_id)
  have t: "?t = takeWhile (\<lambda>c. c \<notin> set ds) ?ys" "?rest = drop (Suc (length ?t)) ?ys"
    by (simp_all add: next_token_def after_token_def drop_Suc_takeWhile)
  have empty: "?t = [] \<longleftrightarrow> ?ys = []" by (rule next_token_Nil)
  have start: "(if str \<noteq> 0 \<and> sp s = 0 then s\<lparr>sp := str\<rparr> else s) = s\<lparr>sp := a\<rparr>" using assms(2,3) by auto
  have first: "strtok str delim s = (if ?m ?p = 0 then Some (0, s\<lparr>sp := 0\<rparr>) else do {
      (m, p) \<leftarrow> strtok_end ?m delim (length ds) ?p; Some (?p, s\<lparr>umem := m, sp := p\<rparr>) })"
  proof -
    have "(str = 0 \<and> sp s = 0) = False" using assms(2) by blast
    then show ?thesis
      using strlen_cstring [OF assms(1)] strtok_skip_cstring [OF assms(1) assms(4)]
      unfolding strtok_def by (simp only: start if_False bind.bind_lunit) (simp add: Let_def)
  qed
  show ?thesis
  proof (cases "?ys = []")
    case True
    then have "?m ?p = 0" using ys unfolding True cstring_Nil by blast
    then show ?thesis using first empty True by simp
  next
    case False
    have nz: "?m ?p \<noteq> 0" using ys False by (cases ?ys) auto
    let ?k = "length ?t"
    let ?m' = "if ?k = length ?ys then ?m else ?m(?p + of_nat ?k := 0)"
    let ?q = "?p + of_nat (length ?ys - length ?rest)"
    have e: "strtok_end ?m delim (length ds) ?p = Some (?m', ?q)"
      using strtok_end_cstring [OF assms(1) ys] unfolding t by (simp add: Let_def)
    have run: "strtok str delim s = Some (?p, s\<lparr>umem := ?m', sp := ?q\<rparr>)" using first nz e by simp
    have "length xs - length ?rest = length ?skip + (length ?ys - length ?rest)"
      using arg_cong [OF xs, of length] t(2) by (simp del: takeWhile_dropWhile_id)
    then have q: "?q = a + of_nat (length xs - length ?rest)" by (simp add: add.assoc)
    have out: "\<not> in_range a (length xs) x \<Longrightarrow> ?m' x = ?m x" for x
    proof -
      assume x: "\<not> in_range a (length xs) x"
      show "?m' x = ?m x"
      proof (cases "?k = length ?ys")
        case False
        then have "length ?skip + ?k < length xs"
          using token_split [OF refl, of ds xs] arg_cong [OF xs, of length] by (auto simp del: takeWhile_dropWhile_id)
        then have "in_range a (length xs) (a + of_nat (length ?skip + ?k))"
          using cstring_length [OF assms(4)] by (intro in_range_nth) simp_all
        then show ?thesis using x by (auto simp: add.assoc)
      qed simp
    qed
    have "cstring ?m' ?p ?t \<and> cstring ?m' ?q ?rest"
      using token_split [OF refl, of ds xs]
    proof (elim disjE exE)
      assume c: "?ys = ?t \<and> ?rest = []"
      then have "cstring ?m ?p ?t" "?m' = ?m" using ys by simp_all
      then show ?thesis using c by (simp add: cstring_def)
    next
      fix y assume c: "?ys = ?t @ y # ?rest"
      from arg_cong [OF c, of length] have "?m' = ?m(?p + of_nat ?k := 0)" "length ?ys - length ?rest = Suc ?k" by simp_all
      then show ?thesis using cstring_cut [OF ys [unfolded c]] by (simp only: simp_thms)
    qed
    then show ?thesis using run out empty False unfolding q
      by (intro if_not_P [THEN iffD2] exI [of _ "s\<lparr>umem := ?m', sp := ?q\<rparr>"]) (simp_all add: q)
  qed
qed

text \<open>All tokens of a text, and the calls that deliver them one after the other.\<close>

function words :: "u8 list \<Rightarrow> u8 list \<Rightarrow> u8 list list" where
  "words ds xs = (if next_token ds xs = [] then [] else next_token ds xs # words ds (after_token ds xs))"
  by pat_completeness auto
termination
proof (relation "measure (length \<circ> snd)", goal_cases)
  case (2 ds xs)
  then have "length (after_token ds xs) < length (dropWhile (\<lambda>c. c \<in> set ds) xs)"
    unfolding next_token_Nil using token_split [OF refl, of ds xs] by (cases "next_token ds xs") (auto dest: arg_cong [of _ _ length])
  then show ?case using length_dropWhile_le [of "\<lambda>c. c \<in> set ds" xs] by simp
qed simp

declare words.simps [simp del]

partial_function (option) strtok_all :: "addr \<Rightarrow> addr \<Rightarrow> 'w user_state \<Rightarrow> (addr list \<times> 'w user_state) option" where
  "strtok_all str delim s = do {
     (t, s) \<leftarrow> strtok str delim s;
     if t = 0 then Some ([], s) else do { (ts, s) \<leftarrow> strtok_all 0 delim s; Some (t # ts, s) }
   }"

lemma length_token_split:
  "length (takeWhile (\<lambda>c. c \<in> set ds) xs) + length (next_token ds xs) + length (after_token ds xs) \<le> length xs"
  "after_token ds xs \<noteq> [] \<Longrightarrow>
    length (takeWhile (\<lambda>c. c \<in> set ds) xs) + Suc (length (next_token ds xs)) + length (after_token ds xs) = length xs"
proof -
  have xs: "length xs = length (takeWhile (\<lambda>c. c \<in> set ds) xs) + length (dropWhile (\<lambda>c. c \<in> set ds) xs)"
    by (metis length_append takeWhile_dropWhile_id)
  from token_split [OF refl, of ds xs] show "length (takeWhile (\<lambda>c. c \<in> set ds) xs) + length (next_token ds xs) + length (after_token ds xs) \<le> length xs"
    unfolding xs by (auto dest: arg_cong [of _ _ length])
  assume "after_token ds xs \<noteq> []"
  then show "length (takeWhile (\<lambda>c. c \<in> set ds) xs) + Suc (length (next_token ds xs)) + length (after_token ds xs) = length xs"
    using token_split [OF refl, of ds xs] unfolding xs by (auto dest: arg_cong [of _ _ length])
qed

text \<open>A text that is being split, or is about to be: neither it nor its place is at address 0.\<close>

definition splitting :: "addr \<Rightarrow> u8 list \<Rightarrow> addr \<Rightarrow> addr \<Rightarrow> u8 list \<Rightarrow> 'w user_state \<Rightarrow> bool" where
  "splitting delim ds str a xs s \<longleftrightarrow> cstring (umem s) delim ds \<and> (str \<noteq> 0 \<or> sp s \<noteq> 0) \<and> a = (if sp s = 0 then str else sp s)
     \<and> cstring (umem s) a xs \<and> \<not> in_range a (Suc (length xs)) 0 \<and> disjoint_ranges a (Suc (length xs)) delim (Suc (length ds))"

lemma strtok_token:
  assumes "splitting delim ds str a xs s" "next_token ds xs \<noteq> []"
  obtains t s' where "strtok str delim s = Some (t, s')" "t \<noteq> 0" "cstring (umem s') t (next_token ds xs)"
    "splitting delim ds 0 (sp s') (after_token ds xs) s'" "s' = s\<lparr>umem := umem s', sp := sp s'\<rparr>" "sp s' \<noteq> 0"
    "\<And>x. \<not> in_range a (length xs) x \<Longrightarrow> umem s' x = umem s x"
    "\<And>x. in_range t (Suc (length (next_token ds xs))) x \<Longrightarrow> in_range a (Suc (length xs)) x \<and> \<not> in_range (sp s') (length (after_token ds xs)) x"
    "\<And>x n. in_range (sp s') (n + length (after_token ds xs)) x \<Longrightarrow> in_range a (n + length xs) x \<or> 1 < n"
proof -
  note sp = assms(1) [unfolded splitting_def]
  let ?k = "length (takeWhile (\<lambda>c. c \<in> set ds) xs)" and ?t = "next_token ds xs" and ?r = "after_token ds xs"
  let ?j = "length xs - length ?r"
  obtain s' where s': "strtok str delim s = Some (a + of_nat ?k, s')" "cstring (umem s') (a + of_nat ?k) ?t"
    "sp s' = a + of_nat ?j" "cstring (umem s') (sp s') ?r" "s' = s\<lparr>umem := umem s', sp := sp s'\<rparr>"
    "\<forall>x. \<not> in_range a (length xs) x \<longrightarrow> umem s' x = umem s x"
    using strtok_next_token [of s delim ds str a xs] sp assms(2) by auto
  have len: "Suc (length xs) \<le> 2 ^ 32" using cstring_length sp by fastforce
  have split: "?k + length ?t + length ?r \<le> length xs" by (rule length_token_split)
  have tok: "in_range a (Suc (length xs)) x" if "in_range (a + of_nat ?k) (Suc (length ?t)) x" for x
    by (rule in_range_sub [OF that _ len]) (use split in simp)
  have rest: "in_range a (n + length xs) x \<or> 1 < n" if "in_range (sp s') (n + length ?r) x" for x n
  proof (cases "1 < n")
    case False
    then show ?thesis using in_range_sub [OF that [unfolded s'(3)], of "n + length xs"] split len by simp
  qed simp
  have apart: "\<not> in_range (sp s') (length ?r) x" if x: "in_range (a + of_nat ?k) (Suc (length ?t)) x" for x
  proof
    assume r: "in_range (sp s') (length ?r) x"
    then have "?r \<noteq> []" by auto
    then have eq: "?k + Suc (length ?t) + length ?r = length xs" by (rule length_token_split(2))
    obtain i where i: "i < Suc (length ?t)" "x = a + of_nat (?k + i)" using x by (elim in_rangeE) (simp add: add.assoc)
    have "?k + i < 2 ^ 32" "?j + length ?r \<le> 2 ^ 32" using i(1) eq len by simp_all
    from in_range_offset [OF this, of a] r i eq show False unfolding s'(3) by simp
  qed
  have delim: "cstring (umem s') delim ds"
  proof (rule cstring_cong [of "umem s"])
    fix x assume "in_range delim (Suc (length ds)) x"
    then have "\<not> in_range a (length xs) x" using sp by (meson disjoint_rangesD in_range_mono le_SucI order_refl)
    then show "umem s' x = umem s x" using s'(6) by blast
  qed (use sp in blast)
  have nz: "a + of_nat ?k \<noteq> 0" "sp s' \<noteq> 0"
    using tok [of "a + of_nat ?k"] rest [of 1 "sp s'"] sp by (auto simp: in_range_Suc)
  have "splitting delim ds 0 (sp s') ?r s'"
    using delim nz(2) s'(4) rest [of 1] sp unfolding splitting_def by (auto simp: disjoint_ranges_def)
  then show thesis using that [OF s'(1) nz(1) s'(2) _ s'(5) nz(2)] s'(6) tok rest apart by blast
qed

lemma strtok_no_token:
  assumes "splitting delim ds str a xs s" "next_token ds xs = []"
  shows "strtok str delim s = Some (0, s\<lparr>sp := 0\<rparr>)"
  using strtok_next_token [of s delim ds str a xs] assms by (auto simp: splitting_def)

lemma same_but_place: "s1 = s\<lparr>umem := m, sp := p\<rparr> \<Longrightarrow> s2 = s1\<lparr>umem := m', sp := q\<rparr> \<Longrightarrow> s2 = s\<lparr>umem := m', sp := q\<rparr>"
  by simp

lemma strtok_all_words:
  "splitting delim ds str a xs s \<Longrightarrow>
   \<exists>ts s'. strtok_all str delim s = Some (ts, s') \<and> list_all2 (cstring (umem s')) ts (words ds xs)
     \<and> s' = s\<lparr>umem := umem s', sp := 0\<rparr> \<and> (\<forall>x. \<not> in_range a (length xs) x \<longrightarrow> umem s' x = umem s x)"
proof (induction ds xs arbitrary: str a s rule: words.induct)
  case (1 ds xs)
  show ?case
  proof (cases "next_token ds xs = []")
    case True
    then show ?thesis using strtok_no_token [OF "1.prems"]
      by (subst strtok_all.simps, subst words.simps) simp
  next
    case False
    obtain t s1 where s1: "strtok str delim s = Some (t, s1)" "t \<noteq> 0" "cstring (umem s1) t (next_token ds xs)"
      "splitting delim ds 0 (sp s1) (after_token ds xs) s1" "s1 = s\<lparr>umem := umem s1, sp := sp s1\<rparr>"
      "\<And>x. \<not> in_range a (length xs) x \<Longrightarrow> umem s1 x = umem s x"
      "\<And>x. in_range t (Suc (length (next_token ds xs))) x \<Longrightarrow> in_range a (Suc (length xs)) x \<and> \<not> in_range (sp s1) (length (after_token ds xs)) x"
      "\<And>x n. in_range (sp s1) (n + length (after_token ds xs)) x \<Longrightarrow> in_range a (n + length xs) x \<or> 1 < n"
      using strtok_token [OF "1.prems" False] by metis
    obtain ts s2 where s2: "strtok_all 0 delim s1 = Some (ts, s2)" "list_all2 (cstring (umem s2)) ts (words ds (after_token ds xs))"
      "s2 = s1\<lparr>umem := umem s2, sp := 0\<rparr>" "\<forall>x. \<not> in_range (sp s1) (length (after_token ds xs)) x \<longrightarrow> umem s2 x = umem s1 x"
      using "1.IH" [OF False s1(4)] by blast
    have "cstring (umem s2) t (next_token ds xs)" using s1(3) by (rule cstring_cong) (use s1(7) s2(4) in blast)
    moreover have "s2 = s\<lparr>umem := umem s2, sp := 0\<rparr>" by (rule same_but_place [OF s1(5) s2(3)])
    moreover have "umem s2 x = umem s x" if "\<not> in_range a (length xs) x" for x
    proof -
      have "\<not> in_range (sp s1) (length (after_token ds xs)) x" using s1(8) [of 0 x] that by auto
      then show ?thesis using s1(6) [OF that] s2(4) by simp
    qed
    ultimately show ?thesis using s1(1,2) s2(1,2) False
      by (subst strtok_all.simps, subst words.simps) auto
  qed
qed

text \<open>
  C33: \<open>strtok\<close>, called with a text and then with NULL until it returns NULL, delivers pointers to
  the words of the text in their order, each a string of its own in the end; it stops, forgets its place, so that another
  text can follow, and writes only inside the text.
\<close>

theorem strtok_splits:
  assumes "cstring (umem s) delim ds" "cstring (umem s) str xs" "sp s = 0" "str \<noteq> 0" "unat str + length xs < 2 ^ 32"
    "disjoint_ranges str (Suc (length xs)) delim (Suc (length ds))"
  shows "\<exists>ts s'. strtok_all str delim s = Some (ts, s') \<and> list_all2 (cstring (umem s')) ts (words ds xs)
    \<and> s' = s\<lparr>umem := umem s'\<rparr> \<and> (\<forall>x. \<not> in_range str (length xs) x \<longrightarrow> umem s' x = umem s x)"
proof -
  have "\<not> in_range str (Suc (length xs)) 0"
  proof -
    have "unat str \<noteq> 0" using assms(4) by (simp add: unat_eq_zero)
    then show ?thesis using in_range_unat [of str "Suc (length xs)" 0] assms(5) by simp
  qed
  then have "splitting delim ds str str xs s" using assms by (simp add: splitting_def)
  moreover have "s\<lparr>umem := m, sp := 0\<rparr> = s\<lparr>umem := m\<rparr>" for m using assms(3) by simp
  ultimately show ?thesis using strtok_all_words [of delim ds str str xs s] by simp
qed

definition demo_tokens :: "unit user_state" where
  "demo_tokens = (demo_user ()) \<lparr>umem := (\<lambda>_. 0)(0x100 := 0x20, 0x101 := 0x6C, 0x102 := 0x73, 0x103 := 0x20, 0x104 := 0x62, 0x200 := 0x20)\<rparr>"

theorem strtok_splits_witness:
  "\<exists>ts s'. strtok_all 0x100 0x200 demo_tokens = Some (ts, s') \<and> list_all2 (cstring (umem s')) ts [[0x6C, 0x73], [0x62]]"
proof -
  have m: "cstring (umem demo_tokens) 0x200 [0x20]" "cstring (umem demo_tokens) 0x100 [0x20, 0x6C, 0x73, 0x20, 0x62]" "sp demo_tokens = 0"
    by (simp_all add: demo_tokens_def demo_user_def)
  have d: "disjoint_ranges 0x100 (Suc (length [0x20, 0x6C, 0x73, 0x20, 0x62 :: u8])) 0x200 (Suc (length [0x20 :: u8]))"
    by (simp add: disjoint_ranges_unat)
  have w: "words [0x20] [0x20, 0x6C, 0x73, 0x20, 0x62] = [[0x6C, 0x73], [0x62]]"
    by (simp add: words.simps next_token_def after_token_def)
  show ?thesis using strtok_splits [OF m _ _ d] unfolding w by auto
qed

end
