(* ===== verification/Alphaos.thy ===== *)
theory Alphaos
  imports Stdlib
begin

text \<open>
  \<^verbatim>\<open>src/programs/stdlib/src/alphaos.c\<close>: line input and command parsing. The specifications are the
  line editor \<open>edit_line\<close> and the words of a command.
\<close>

section \<open>alphaos.c\<close>

text \<open>\<open>struct command_argument\<close>: 512 bytes of text, then the word \<open>next\<close>.\<close>

definition command_argument_size :: u32 where "command_argument_size = 516"
definition command_argument_next :: u32 where "command_argument_next = 128"

definition set_argument :: "addr \<Rightarrow> addr \<Rightarrow> 'w user_state \<Rightarrow> 'w user_state" where
  "set_argument arg token s =
     s\<lparr>umem := set_word (strncpy (umem s) arg token 512) arg command_argument_next 0\<rparr>"

partial_function (option) parse_command_loop ::
  "'w syscalls \<Rightarrow> addr \<Rightarrow> addr \<Rightarrow> addr \<Rightarrow> 'w user_state \<Rightarrow> 'w user_state option" where
  "parse_command_loop sys delim current token s =
     (if token = 0 then Some s
      else
        let (new_command, s) = malloc sys command_argument_size s in
        if new_command = 0 then Some s
        else do {
          let s = set_argument new_command token s;
          let s = s\<lparr>umem := set_word (umem s) current command_argument_next new_command\<rparr>;
          (token, s) \<leftarrow> strtok 0 delim s;
          parse_command_loop sys delim new_command token s
        })"

text \<open>\<open>delim\<close> is the address of the literal of one blank; the local copy of the command lies at \<open>user_stack\<close>.\<close>

definition alphaos_parse_command ::
  "'w syscalls \<Rightarrow> addr \<Rightarrow> addr \<Rightarrow> int \<Rightarrow> 'w user_state \<Rightarrow> (addr \<times> 'w user_state) option" where
  "alphaos_parse_command sys delim command max_len s =
     (if max_len > 1025 then Some (0, s)
      else do {
        let scommand = user_stack s;
        let s = s\<lparr>umem := strncpy (umem s) scommand command 1025\<rparr>;
        (token, s) \<leftarrow> strtok scommand delim s;
        if token = 0 then Some (0, s)
        else do {
          let (root_command, s) = malloc sys command_argument_size s;
          if root_command = 0 then Some (0, s)
          else do {
            let s = set_argument root_command token s;
            (token, s) \<leftarrow> strtok 0 delim s;
            s \<leftarrow> parse_command_loop sys delim root_command token s;
            Some (root_command, s)
          }
        }
      })"

partial_function (option) getkey_loop :: "'w syscalls \<Rightarrow> 'w \<Rightarrow> (int \<times> 'w) option" where
  "getkey_loop sys w = (let (val, w) = sys_getkey sys w in if val = 0 then getkey_loop sys w else Some (val, w))"

text \<open>\<open>__getkeyblock\<close>: the value of the first call is overwritten.\<close>

definition getkeyblock :: "'w syscalls \<Rightarrow> 'w \<Rightarrow> (int \<times> 'w) option" where
  "getkeyblock sys w = (let (val, w) = sys_getkey sys w in getkey_loop sys w)"

partial_function (option) readline_loop ::
  "'w syscalls \<Rightarrow> addr \<Rightarrow> int \<Rightarrow> bool \<Rightarrow> int \<Rightarrow> 'w user_state \<Rightarrow> (int \<times> 'w user_state) option" where
  "readline_loop sys out max_len output_while_typing i s =
     (if i < max_len - 1 then do {
        (key, w) \<leftarrow> getkeyblock sys (world s);
        let c = (word_of_int key :: u8);
        let s = s\<lparr>world := w\<rparr>;
        if c = 13 then Some (i, s)
        else do {
          let s = (if output_while_typing then s\<lparr>world := sys_putchar sys c (world s)\<rparr> else s);
          if c = 8 \<and> i \<ge> 1
          then readline_loop sys out max_len output_while_typing (i - 2 + 1) (s\<lparr>umem := (umem s)(out + word_of_int i := 0)\<rparr>)
          else readline_loop sys out max_len output_while_typing (i + 1) (s\<lparr>umem := (umem s)(out + word_of_int i := c)\<rparr>)
        }
      } else Some (i, s))"

definition terminal_readline :: "'w syscalls \<Rightarrow> addr \<Rightarrow> int \<Rightarrow> bool \<Rightarrow> 'w user_state \<Rightarrow> 'w user_state option" where
  "terminal_readline sys out max_len output_while_typing s = do {
     (i, s) \<leftarrow> readline_loop sys out max_len output_while_typing 0 s;
     Some (s\<lparr>umem := (umem s)(out + word_of_int i := 0)\<rparr>)
   }"

text \<open>The local copy of the command lies above the one of \<open>alphaos_parse_command\<close>.\<close>

definition system_run :: "'w syscalls \<Rightarrow> addr \<Rightarrow> addr \<Rightarrow> 'w user_state \<Rightarrow> (int \<times> 'w user_state) option" where
  "system_run sys delim command s = do {
     let buff = user_stack s + 1028;
     let s = s\<lparr>umem := strncpy (umem s) buff command 1024\<rparr>;
     (root_command_arg, s) \<leftarrow> alphaos_parse_command sys delim buff 1024 s;
     if root_command_arg = 0 then Some (- 1, s)
     else
       let (r, m, w) = sys_system sys root_command_arg (umem s) (world s) in
       Some (r, s\<lparr>umem := m, world := w\<rparr>)
   }"

section \<open>Line input\<close>

text \<open>
  The specification of \<open>terminal_readline\<close>: the text after some keys, if the line is then complete, by the
  return key or by its length.
\<close>

fun edit_line :: "nat \<Rightarrow> u8 list \<Rightarrow> u8 list \<Rightarrow> u8 list option" where
  "edit_line room line [] = (if length line = room then Some line else None)"
| "edit_line room line (k # ks) =
     (if length line = room then None
      else if k = 13 then (if ks = [] then Some line else None)
      else if k = 8 \<and> line \<noteq> [] then edit_line room (butlast line) ks
      else edit_line room (line @ [k]) ks)"

text \<open>The keys \<open>getkeyblock\<close> delivers in a row, each echoed before the next, and the world after them.\<close>

inductive typed :: "'w syscalls \<Rightarrow> bool \<Rightarrow> 'w \<Rightarrow> u8 list \<Rightarrow> 'w \<Rightarrow> bool" for sys echo where
  typed_none: "typed sys echo w [] w"
| typed_key: "getkeyblock sys w = Some (key, w1) \<Longrightarrow> c = word_of_int key \<Longrightarrow>
    typed sys echo (if echo \<and> c \<noteq> 13 then sys_putchar sys c w1 else w1) ks w' \<Longrightarrow> typed sys echo w (c # ks) w'"

inductive_cases typed_NilE: "typed sys echo w [] w'"

definition entered :: "mem \<Rightarrow> addr \<Rightarrow> nat \<Rightarrow> u8 list \<Rightarrow> mem \<Rightarrow> bool" where
  "entered m out room line m' \<longleftrightarrow> bytes_at m' out (length line) = line \<and> (\<forall>x. \<not> in_range out (Suc room) x \<longrightarrow> m' x = m x)"

lemma bytes_at_before:
  assumes "n \<le> k" "k < 2 ^ 32"
  shows "bytes_at (m(a + of_nat k := v)) a n = bytes_at m a n"
proof (rule nth_equalityI)
  fix i assume "i < length (bytes_at (m(a + of_nat k := v)) a n)"
  then have "i < n" "a + of_nat i \<noteq> a + of_nat k" using assms add_of_nat_u32_inject [of i k a] by auto
  then show "bytes_at (m(a + of_nat k := v)) a n ! i = bytes_at m a n ! i" by simp
qed simp

lemma entered_snoc:
  assumes "entered m out room line m'" "length line < room" "room < 2 ^ 31"
  shows "entered m out room (line @ [k]) (m'(out + of_nat (length line) := k))"
proof -
  let ?m = "m'(out + of_nat (length line) := k)"
  have "in_range out (Suc room) (out + of_nat (length line))" using assms(2,3) by (intro in_range_nth) simp_all
  moreover have "bytes_at ?m out (Suc (length line)) = bytes_at ?m out (length line) @ [k]" by (simp add: bytes_at_def)
  ultimately show ?thesis using assms bytes_at_before [of "length line" "length line" m' out k] by (auto simp: entered_def)
qed

lemma entered_butlast:
  assumes "entered m out room line m'" "length line \<le> room" "room < 2 ^ 31"
  shows "entered m out room (butlast line) (m'(out + of_nat (length line) := 0))"
proof -
  have "in_range out (Suc room) (out + of_nat (length line))" using assms(2,3) by (intro in_range_nth) simp_all
  moreover have "bytes_at m' out (length line - 1) = butlast (bytes_at m' out (length line))"
    by (rule nth_equalityI) (simp_all add: nth_butlast)
  ultimately show ?thesis
    using assms bytes_at_before [of "length line - 1" "length line" m' out 0] by (auto simp: entered_def)
qed

lemma readline_loop_edits:
  assumes "typed sys echo w ks w'" "room < 2 ^ 31"
  shows "world s = w \<Longrightarrow> length line \<le> room \<Longrightarrow> entered m out room line (umem s) \<Longrightarrow> edit_line room line ks = Some res \<Longrightarrow>
    \<exists>m'. readline_loop sys out (int room + 1) echo (int (length line)) s = Some (int (length res), s\<lparr>umem := m', world := w'\<rparr>)
      \<and> entered m out room res m' \<and> length res \<le> room"
  using assms(1)
proof (induction arbitrary: line s rule: typed.induct)
  case (typed_none w)
  then have "line = res" "length res = room" by (auto split: if_splits)
  then show ?case using typed_none by (subst readline_loop.simps) (auto intro!: exI [of _ "umem s"])
next
  case (typed_key w key w1 c ks w')
  let ?w = "if echo \<and> c \<noteq> 13 then sys_putchar sys c w1 else w1"
  have len: "length line < room" using typed_key.prems by (auto split: if_splits)
  show ?case
  proof (cases "c = 13")
    case True
    then have "ks = []" "res = line" using typed_key.prems len by (auto split: if_splits)
    then have "w' = w1" using typed_key.hyps(3) True by (auto elim: typed_NilE)
    then show ?thesis using typed_key.hyps(1,2) typed_key.prems len True \<open>res = line\<close>
      by (subst readline_loop.simps) (auto intro!: exI [of _ "umem s"])
  next
    case False
    let ?m = "(umem s)(out + of_nat (length line) := if c = 8 \<and> line \<noteq> [] then 0 else c)"
    let ?line = "if c = 8 \<and> line \<noteq> [] then butlast line else line @ [c]"
    have step: "readline_loop sys out (int room + 1) echo (int (length line)) s =
        readline_loop sys out (int room + 1) echo (int (length ?line)) (s\<lparr>world := ?w, umem := ?m\<rparr>)"
      using typed_key.hyps(1,2) typed_key.prems(1) len False
      by (subst readline_loop.simps) (auto simp: Let_def Suc_le_eq of_nat_diff add.commute)
    have e: "entered m out room ?line ?m" "length ?line \<le> room"
      using entered_snoc [OF typed_key.prems(3) len assms(2)] entered_butlast [OF typed_key.prems(3,2) assms(2)] len by auto
    have ed: "edit_line room ?line ks = Some res"
      using typed_key.prems(4) len False by (cases "c = 8 \<and> line \<noteq> []") auto
    have u: "umem (s\<lparr>world := ?w, umem := ?m\<rparr>) = ?m" "world (s\<lparr>world := ?w, umem := ?m\<rparr>) = ?w"
      "s\<lparr>world := ?w, umem := ?m, world := w', umem := m''\<rparr> = s\<lparr>world := w', umem := m''\<rparr>" for m'' by simp_all
    have "\<exists>m''. readline_loop sys out (int room + 1) echo (int (length ?line)) (s\<lparr>world := ?w, umem := ?m\<rparr>)
        = Some (int (length res), s\<lparr>world := ?w, umem := ?m, umem := m'', world := w'\<rparr>)
        \<and> entered m out room res m'' \<and> length res \<le> room"
      by (rule typed_key.IH [OF u(2) e(2) _ ed]) (unfold u(1), rule e(1))
    then show ?thesis unfolding step by simp
  qed
qed

lemma terminal_readline_line:
  assumes "typed sys echo (world s) ks w'" "room < 2 ^ 31" "edit_line room [] ks = Some line"
  shows "\<exists>m'. terminal_readline sys out (int room + 1) echo s = Some (s\<lparr>umem := m', world := w'\<rparr>)
    \<and> entered (umem s) out room line m' \<and> m' (out + of_nat (length line)) = 0 \<and> length line \<le> room"
proof -
  obtain m' where m': "readline_loop sys out (int room + 1) echo 0 s = Some (int (length line), s\<lparr>umem := m', world := w'\<rparr>)"
    "entered (umem s) out room line m'" "length line \<le> room"
    using readline_loop_edits [OF assms(1,2) refl, of "[]" "umem s" out line] assms(3)
    by (auto simp: entered_def bytes_at_def)
  let ?m = "m'(out + of_nat (length line) := 0)"
  have "in_range out (Suc room) (out + of_nat (length line))" using m'(3) assms(2) by (intro in_range_nth) simp_all
  then have "entered (umem s) out room line ?m"
    using m'(2,3) assms(2) bytes_at_before [of "length line" "length line" m' out 0] by (auto simp: entered_def)
  then show ?thesis using m'(1,3) unfolding terminal_readline_def
    by (intro exI [of _ ?m]) simp
qed

text \<open>
  C34: line input is the line editor \<open>edit_line\<close>. If the keys typed complete a line of the editor,
  \<open>terminal_readline\<close> returns, the buffer holds the line and a terminator, the keys have been echoed and
  consumed up to the return key, and no memory outside the buffer has changed.
\<close>

theorem terminal_readline_edits:
  assumes "0 < n" "n \<le> 2 ^ 31" "typed sys echo (world s) ks w'" "edit_line (nat (n - 1)) [] ks = Some line"
  shows "\<exists>s'. terminal_readline sys out n echo s = Some s' \<and> bytes_at (umem s') out (length line) = line
    \<and> umem s' (out + of_nat (length line)) = 0 \<and> s' = s\<lparr>umem := umem s', world := w'\<rparr>
    \<and> (\<forall>x. \<not> in_range out (nat n) x \<longrightarrow> umem s' x = umem s x)"
proof -
  define room where "room = nat (n - 1)"
  have room: "n = int room + 1" "Suc room = nat n" "room < 2 ^ 31" using assms(1,2) by (simp_all add: room_def)
  obtain m' where "terminal_readline sys out (int room + 1) echo s = Some (s\<lparr>umem := m', world := w'\<rparr>)"
    "entered (umem s) out room line m'" "m' (out + of_nat (length line)) = 0"
    using terminal_readline_line [OF assms(3) room(3)] assms(4) unfolding room_def by blast
  then show ?thesis using room(2) unfolding room(1) [symmetric] by (auto simp: entered_def)
qed

lemma demo_getkeyblock: "k \<noteq> 0 \<Longrightarrow> getkeyblock demo_syscalls (x # k # ks, out) = Some (k, ks, out)"
  by (simp add: getkeyblock_def getkey_loop.simps demo_syscalls_def)

lemma demo_putchar: "sys_putchar demo_syscalls c (ks, out) = (ks, out @ [c])"
  by (simp add: demo_syscalls_def)

theorem terminal_readline_edits_witness:
  "\<exists>s'. terminal_readline demo_syscalls 0x300000 16 True (demo_user ([0, 0x6C, 0, 0x74, 0, 8, 0, 0x73, 0, 13], [])) = Some s'
    \<and> bytes_at (umem s') 0x300000 2 = [0x6C, 0x73] \<and> umem s' 0x300002 = 0 \<and> world s' = ([], [0x6C, 0x74, 8, 0x73])"
proof -
  let ?w = "([0, 0x6C, 0, 0x74, 0, 8, 0, 0x73, 0, 13], []) :: int list \<times> u8 list"
  let ?s = "demo_user ?w"
  have "typed demo_syscalls True ?w [0x6C, 0x74, 8, 0x73, 13] ([], [0x6C, 0x74, 8, 0x73])"
    by (rule typed_key, simp add: demo_getkeyblock, simp, simp add: demo_putchar)+ (rule typed_none)
  then have t: "typed demo_syscalls True (world ?s) [0x6C, 0x74, 8, 0x73, 13] ([], [0x6C, 0x74, 8, 0x73])"
    by (simp add: demo_user_def)
  have e: "edit_line (nat (16 - 1)) [] [0x6C, 0x74, 8, 0x73, 13] = Some [0x6C, 0x73]" by simp
  have n: "(0::int) < 16" "(16::int) \<le> 2 ^ 31" and l: "length [0x6C, 0x73 :: u8] = 2" by simp_all
  from terminal_readline_edits [OF n t e, of "0x300000"]
  obtain s' where s': "terminal_readline demo_syscalls 0x300000 16 True ?s = Some s'"
    "bytes_at (umem s') 0x300000 2 = [0x6C, 0x73]" "umem s' (0x300000 + of_nat 2) = 0"
    "s' = ?s\<lparr>umem := umem s', world := ([], [0x6C, 0x74, 8, 0x73])\<rparr>"
    unfolding l by blast
  have "world s' = ([], [0x6C, 0x74, 8, 0x73])" by (subst s'(4)) simp
  then show ?thesis using s'(1,2,3) by simp
qed

section \<open>Commands\<close>

text \<open>The linked list of arguments in memory; an argument longer than its field is cut.\<close>

fun argument_list :: "mem \<Rightarrow> addr \<Rightarrow> u8 list list \<Rightarrow> bool" where
  "argument_list m p [] \<longleftrightarrow> p = 0"
| "argument_list m p (w # ws) \<longleftrightarrow> p \<noteq> 0 \<and> cstring m p (take 511 w) \<and> argument_list m (load32 m (p + 512)) ws"

text \<open>
  What the parser relies on of the kernel's memory for programs: \<open>live\<close> tells which addresses belong to the
  program. An allocation changes none of them and adds the bytes of its block, if it succeeds.
\<close>

definition user_heap :: "'w syscalls \<Rightarrow> ('w \<Rightarrow> addr \<Rightarrow> bool) \<Rightarrow> bool" where
  "user_heap sys live \<longleftrightarrow> (\<forall>n m w p m' w'. sys_malloc sys n m w = (p, m', w') \<longrightarrow>
     (\<forall>x. live w x \<longrightarrow> m' x = m x \<and> live w' x) \<and>
     (p \<noteq> 0 \<longrightarrow> (\<forall>x. in_range p (unat n) x \<longrightarrow> live w' x \<and> \<not> live w x)))"

text \<open>
  The allocations of one run of the parser: \<open>taken sys n w w'\<close> says that \<open>n\<close> elements were asked for one after the other,
  from the world \<open>w\<close> to the world \<open>w'\<close>, and every request was granted; \<open>refused sys w s'\<close>, that the next one, in the world
  \<open>w\<close>, was not, and left the state \<open>s'\<close>. A list ends after \<open>n\<close> elements because there are no words left,
  and no further element was asked for, or because the element for the next word was refused.
\<close>

primrec taken :: "'w syscalls \<Rightarrow> nat \<Rightarrow> 'w \<Rightarrow> 'w \<Rightarrow> bool" where
  "taken sys 0 w w' \<longleftrightarrow> w' = w"
| "taken sys (Suc n) w w' \<longleftrightarrow>
     (\<exists>m p m' w1. sys_malloc sys command_argument_size m w = (p, m', w1) \<and> p \<noteq> 0 \<and> taken sys n w1 w')"

definition refused :: "'w syscalls \<Rightarrow> 'w \<Rightarrow> 'w user_state \<Rightarrow> bool" where
  "refused sys w s' \<longleftrightarrow> (\<exists>s. world s = w \<and> malloc sys command_argument_size s = (0, s'))"

definition list_ends :: "'w syscalls \<Rightarrow> nat \<Rightarrow> u8 list list \<Rightarrow> 'w \<Rightarrow> 'w user_state \<Rightarrow> bool" where
  "list_ends sys n rest w s' \<longleftrightarrow> (\<exists>w1. taken sys n w w1 \<and>
     (if rest = [] then world s' = w1 \<and> sp s' = 0 else refused sys w1 s' \<and> sp s' \<noteq> 0))"

lemma list_ends_done [simp]: "sp s' = 0 \<Longrightarrow> world s' = w \<Longrightarrow> list_ends sys 0 [] w s'"
  by (simp add: list_ends_def)

lemma list_ends_refused:
  "malloc sys command_argument_size s = (0, s') \<Longrightarrow> sp s' \<noteq> 0 \<Longrightarrow> rest \<noteq> [] \<Longrightarrow> list_ends sys 0 rest (world s) s'"
  by (auto simp: list_ends_def refused_def)

lemma list_ends_element:
  assumes "malloc sys command_argument_size s = (p, s1)" "p \<noteq> 0" "list_ends sys n rest (world s1) s'"
  shows "list_ends sys (Suc n) rest (world s) s'"
proof -
  obtain m where "sys_malloc sys command_argument_size (umem s) (world s) = (p, m, world s1)"
    using assms(1) by (auto simp: malloc_def split: prod.splits)
  then have "taken sys (Suc n) (world s) w1" if "taken sys n (world s1) w1" for w1 using assms(2) that by auto
  then show ?thesis using assms(3) unfolding list_ends_def by blast
qed

lemma node_ranges:
  "in_range p 512 x \<Longrightarrow> \<not> in_range (p + 512) 4 x" "in_range p 512 x \<Longrightarrow> in_range p 516 x"
  "in_range (p + 512) 4 x \<Longrightarrow> in_range p 516 x"
proof -
  assume x: "in_range p 512 x"
  then obtain i where i: "i < 512" "x = p + of_nat i" by (rule in_rangeE)
  then show "\<not> in_range (p + 512) 4 x" using in_range_offset [of i 512 4 p] by simp
  show "in_range p 516 x" using x by (rule in_range_mono) simp
next
  assume "in_range (p + 512) 4 x"
  then show "in_range p 516 x" using in_range_sub [of p 512 4 x 516] by simp
qed

text \<open>Filling in a new element: its text and a null link.\<close>

lemma set_argument_text:
  assumes "cstring (umem s) token w" "disjoint_ranges p 516 token (Suc (length w))"
  shows "\<exists>m'. set_argument p token s = s\<lparr>umem := m'\<rparr> \<and> cstring m' p (take 511 w) \<and> load32 m' (p + 512) = 0
    \<and> (\<forall>x. \<not> in_range p 516 x \<longrightarrow> m' x = umem s x)"
proof -
  let ?bs = "take 511 w @ [0]" and ?m = "write_bytes (umem s) p (take 511 w @ [0])"
  have d: "disjoint_ranges p (nat 512) token (min (nat 512) (Suc (length w)))"
    using assms(2) by (rule disjoint_ranges_mono) simp_all
  have copy: "strncpy (umem s) p token 512 = ?m"
    using strncpy_cstring [OF assms(1) _ _ d] by simp
  let ?m' = "store32 ?m (p + 512) 0"
  have nz: "0 \<notin> set (take 511 w)" using assms(1) by (auto simp: cstring_def dest: in_set_takeD)
  have "cstring ?m p (take 511 w)" by (rule cstring_write_bytes) (use nz in simp_all)
  then have "cstring ?m' p (take 511 w)"
    by (rule cstring_cong) (rule store32_other, rule node_ranges(1), erule in_range_mono, simp)
  moreover have "?m' x = umem s x" if "\<not> in_range p 516 x" for x
  proof -
    have "length ?bs \<le> 516" by simp
    then have "\<not> in_range (p + 512) 4 x" "\<not> in_range p (length ?bs) x"
      using that node_ranges(3) in_range_mono [of p "length ?bs" x 516] by blast+
    then show ?thesis by (simp add: store32_other write_bytes_apply)
  qed
  moreover have "set_argument p token s = s\<lparr>umem := ?m'\<rparr>"
    by (simp add: set_argument_def copy set_word_def command_argument_next_def)
  ultimately show ?thesis by (intro exI [of _ ?m']) simp
qed

text \<open>The loop with the call of \<open>strtok\<close> before it.\<close>

definition parse_arguments :: "'w syscalls \<Rightarrow> addr \<Rightarrow> addr \<Rightarrow> 'w user_state \<Rightarrow> 'w user_state option" where
  "parse_arguments sys delim current s =
     do { (token, s) \<leftarrow> strtok 0 delim s; parse_command_loop sys delim current token s }"

text \<open>The program's memory around the list: the text being split, the delimiters and the last element.\<close>

definition parsing :: "('w \<Rightarrow> addr \<Rightarrow> bool) \<Rightarrow> addr \<Rightarrow> u8 list \<Rightarrow> addr \<Rightarrow> addr \<Rightarrow> addr \<Rightarrow> u8 list \<Rightarrow> 'w user_state \<Rightarrow> bool" where
  "parsing live delim ds current str a xs s \<longleftrightarrow> splitting delim ds str a xs s
     \<and> (\<forall>x. in_range a (Suc (length xs)) x \<or> in_range delim (Suc (length ds)) x \<or> in_range current 516 x \<longrightarrow> live (world s) x)
     \<and> disjoint_ranges current 516 a (Suc (length xs)) \<and> disjoint_ranges current 516 delim (Suc (length ds))
     \<and> load32 (umem s) (current + 512) = 0"

lemma splitting_cong:
  assumes "splitting delim ds 0 a xs s" "sp s' = sp s"
    "\<And>x. in_range a (Suc (length xs)) x \<or> in_range delim (Suc (length ds)) x \<Longrightarrow> umem s' x = umem s x"
  shows "splitting delim ds 0 a xs s'"
  using assms cstring_cong [of "umem s" delim ds "umem s'"] cstring_cong [of "umem s" a xs "umem s'"]
  unfolding splitting_def by auto

lemma unat_numeral_516: "unat (516 :: u32) = 516"
  by simp

text \<open>A new element, filled with a token, from the program's memory.\<close>

lemma new_argument:
  assumes "user_heap sys live" "splitting delim ds 0 a xs s" "cstring (umem s) t w"
    "\<And>x. in_range a (Suc (length xs)) x \<or> in_range delim (Suc (length ds)) x \<or> in_range t (Suc (length w)) x \<Longrightarrow> live (world s) x"
    "malloc sys command_argument_size s = (p, s1)" "p \<noteq> 0"
  obtains m' where "set_argument p t s1 = s\<lparr>umem := m', world := world s1\<rparr>" "cstring m' p (take 511 w)"
    "parsing live delim ds p 0 a xs (s\<lparr>umem := m', world := world s1\<rparr>)"
    "\<And>x. live (world s) x \<Longrightarrow> m' x = umem s x \<and> live (world s1) x \<and> \<not> in_range p 516 x"
    "\<And>x. in_range p 516 x \<Longrightarrow> live (world s1) x"
proof -
  obtain m wd where call: "sys_malloc sys command_argument_size (umem s) (world s) = (p, m, wd)" "s1 = s\<lparr>umem := m, world := wd\<rparr>"
    using assms(5) by (auto simp: malloc_def split: prod.splits)
  have keep: "m x = umem s x" "live wd x" if "live (world s) x" for x
    using assms(1) call(1) that unfolding user_heap_def by blast+
  have fresh: "live wd x" "\<not> live (world s) x" if "in_range p 516 x" for x
    using assms(1,6) call(1) that unfolding user_heap_def command_argument_size_def
    by (metis (no_types, lifting) unat_numeral_516)+
  have "cstring (umem s1) t w" using assms(3)
    by (rule cstring_cong) (use keep assms(4) call(2) in auto)
  moreover have "disjoint_ranges p 516 t (Suc (length w))" using fresh assms(4) by (auto simp: disjoint_ranges_def)
  ultimately obtain m' where m': "set_argument p t s1 = s1\<lparr>umem := m'\<rparr>" "cstring m' p (take 511 w)" "load32 m' (p + 512) = 0"
    "\<forall>x. \<not> in_range p 516 x \<longrightarrow> m' x = umem s1 x"
    using set_argument_text by blast
  have old: "m' x = umem s x \<and> live wd x \<and> \<not> in_range p 516 x" if "live (world s) x" for x
  proof -
    have "\<not> in_range p 516 x" using fresh(2) that by blast
    then show ?thesis using m'(4) keep [OF that] call(2) by simp
  qed
  have eq: "s1\<lparr>umem := m'\<rparr> = s\<lparr>umem := m', world := world s1\<rparr>" using call(2) by simp
  have "splitting delim ds 0 a xs (s\<lparr>umem := m', world := wd\<rparr>)"
    using assms(2) by (rule splitting_cong) (use old assms(4) in auto)
  then have "parsing live delim ds p 0 a xs (s\<lparr>umem := m', world := wd\<rparr>)"
    using old fresh assms(4) m'(3) unfolding parsing_def by (auto simp: disjoint_ranges_def)
  then show thesis using that [of m'] m'(1,2) old fresh(1) eq call(2) by simp
qed

lemma parsing_cong:
  assumes "parsing live delim ds current 0 a xs s" "sp s' = sp s" "world s' = world s"
    "\<And>x. in_range a (Suc (length xs)) x \<or> in_range delim (Suc (length ds)) x \<or> in_range current 516 x \<Longrightarrow> umem s' x = umem s x"
  shows "parsing live delim ds current 0 a xs s'"
proof -
  have "splitting delim ds 0 a xs s'"
    by (rule splitting_cong [of delim ds a xs s]) (use assms in \<open>auto simp: parsing_def\<close>)
  moreover have "load32 (umem s') (current + 512) = load32 (umem s) (current + 512)"
    by (rule load32_cong) (use assms(4) node_ranges(3) in blast)
  ultimately show ?thesis using assms(1,3) unfolding parsing_def by simp
qed

lemma parse_arguments_words:
  assumes "user_heap sys live"
  shows "parsing live delim ds current 0 a xs s \<Longrightarrow>
    \<exists>s' ws rest. parse_arguments sys delim current s = Some s' \<and> words ds xs = ws @ rest
      \<and> argument_list (umem s') (load32 (umem s') (current + 512)) ws
      \<and> list_ends sys (length ws) rest (world s) s'
      \<and> s' = s\<lparr>umem := umem s', sp := sp s', world := world s'\<rparr>
      \<and> (\<forall>x. live (world s) x \<longrightarrow> live (world s') x
          \<and> (\<not> in_range a (length xs) x \<longrightarrow> \<not> in_range (current + 512) 4 x \<longrightarrow> umem s' x = umem s x))"
proof (induction ds xs arbitrary: current a s rule: words.induct)
  case (1 ds xs)
  note pars = "1.prems" [unfolded parsing_def]
  show ?case
  proof (cases "next_token ds xs = []")
    case True
    have "strtok 0 delim s = Some (0, s\<lparr>sp := 0\<rparr>)" using strtok_no_token True pars by blast
    moreover have "words ds xs = []" using True by (subst words.simps) simp
    ultimately show ?thesis using pars
      by (intro exI [of _ "s\<lparr>sp := 0\<rparr>"] exI [of _ "[]"])
        (simp add: parse_arguments_def parse_command_loop.simps)
  next
    case False
    obtain t s1 where s1: "strtok 0 delim s = Some (t, s1)" "t \<noteq> 0" "cstring (umem s1) t (next_token ds xs)"
      "splitting delim ds 0 (sp s1) (after_token ds xs) s1" "s1 = s\<lparr>umem := umem s1, sp := sp s1\<rparr>" "sp s1 \<noteq> 0"
      "\<And>x. \<not> in_range a (length xs) x \<Longrightarrow> umem s1 x = umem s x"
      "\<And>x. in_range t (Suc (length (next_token ds xs))) x \<Longrightarrow> in_range a (Suc (length xs)) x \<and> \<not> in_range (sp s1) (length (after_token ds xs)) x"
      "\<And>x n. in_range (sp s1) (n + length (after_token ds xs)) x \<Longrightarrow> in_range a (n + length xs) x \<or> 1 < n"
      using strtok_token [OF conjunct1 [OF pars] False] by metis
    have w1: "world s1 = world s" by (subst s1(5)) simp
    have rest_range: "in_range a (Suc (length xs)) x" if "in_range (sp s1) (Suc (length (after_token ds xs))) x" for x
      using s1(9) [of 1] that by simp
    have link_old: "umem s1 x = umem s x" if "in_range current 516 x" for x
    proof -
      have "\<not> in_range a (length xs) x" using pars that by (meson disjoint_rangesD in_range_mono le_SucI order_refl)
      then show ?thesis by (rule s1(7))
    qed
    obtain p s2 where p: "malloc sys command_argument_size s1 = (p, s2)" by fastforce
    show ?thesis
    proof (cases "p = 0")
      case True
      obtain m wd where call: "sys_malloc sys command_argument_size (umem s1) (world s) = (0, m, wd)" "s2 = s1\<lparr>umem := m, world := wd\<rparr>"
        using p True w1 by (auto simp: malloc_def split: prod.splits)
      have keep: "m x = umem s1 x" "live wd x" if "live (world s) x" for x
        using assms call(1) that unfolding user_heap_def by blast+
      have "load32 m (current + 512) = load32 (umem s) (current + 512)"
        by (rule load32_cong) (use keep(1) link_old node_ranges(3) pars in metis)
      moreover have "parse_arguments sys delim current s = Some s2"
        using s1(1,2) p True by (simp add: parse_arguments_def parse_command_loop.simps [of _ _ _ t])
      moreover have ne: "words ds xs \<noteq> []" using False by (subst words.simps) simp
      moreover have "list_ends sys 0 (words ds xs) (world s) s2"
        using list_ends_refused [of sys s1 s2 "words ds xs"] p True s1(6) w1 ne by (simp add: call(2))
      moreover have "s2 = s\<lparr>umem := m, sp := sp s1, world := wd\<rparr>" unfolding call(2) by (subst s1(5)) simp
      ultimately show ?thesis using pars s1(6,7) keep
        by (intro exI [of _ s2] exI [of _ "[]"] exI [of _ "words ds xs"]) simp
    next
      case nn: False
      have live: "live (world s1) x" if "in_range (sp s1) (Suc (length (after_token ds xs))) x \<or> in_range delim (Suc (length ds)) x
          \<or> in_range t (Suc (length (next_token ds xs))) x" for x
        using that rest_range s1(8) pars unfolding w1 by blast
      obtain m where m: "set_argument p t s2 = s1\<lparr>umem := m, world := world s2\<rparr>" "cstring m p (take 511 (next_token ds xs))"
        "parsing live delim ds p 0 (sp s1) (after_token ds xs) (s1\<lparr>umem := m, world := world s2\<rparr>)"
        "\<And>x. live (world s1) x \<Longrightarrow> m x = umem s1 x \<and> live (world s2) x \<and> \<not> in_range p 516 x"
        "\<And>x. in_range p 516 x \<Longrightarrow> live (world s2) x"
        using new_argument [OF assms s1(4,3) live p nn] by blast
      let ?m = "store32 m (current + 512) p"
      let ?s = "s1\<lparr>world := world s2, umem := ?m\<rparr>"
      have cur: "\<not> in_range p 516 x" "live (world s2) x" if "in_range current 516 x" for x
        using m(4) [of x] pars that unfolding w1 by blast+
      have other: "?m x = m x" if "\<not> in_range current 516 x" for x
        using that node_ranges(3) [of current x] by (metis store32_other)
      have apart: "\<not> in_range current 516 x" if "in_range (sp s1) (Suc (length (after_token ds xs))) x
          \<or> in_range delim (Suc (length ds)) x \<or> in_range p 516 x" for x
        using that cur(1) rest_range pars unfolding disjoint_ranges_def by blast
      have "parsing live delim ds p 0 (sp s1) (after_token ds xs) ?s"
        using m(3) by (rule parsing_cong) (use apart in \<open>auto intro: other\<close>)
      from "1.IH" [OF False this]
      obtain s' ws rest where s': "parse_arguments sys delim p ?s = Some s'" "words ds (after_token ds xs) = ws @ rest"
        "argument_list (umem s') (load32 (umem s') (p + 512)) ws" "list_ends sys (length ws) rest (world s2) s'"
        "s' = ?s\<lparr>umem := umem s', sp := sp s', world := world s'\<rparr>"
        "\<forall>x. live (world s2) x \<longrightarrow> live (world s') x
          \<and> (\<not> in_range (sp s1) (length (after_token ds xs)) x \<longrightarrow> \<not> in_range (p + 512) 4 x \<longrightarrow> umem s' x = ?m x)"
        by auto
      have keep: "umem s' x = ?m x" if "live (world s2) x" "\<not> in_range (sp s1) (length (after_token ds xs)) x" "\<not> in_range (p + 512) 4 x" for x
        using s'(6) that by blast
      have run: "parse_arguments sys delim current s = Some s'"
        using s'(1) s1(1,2) p nn m(1)
        by (simp add: parse_arguments_def parse_command_loop.simps [of _ _ _ t] set_word_def command_argument_next_def)
      have "words ds xs = next_token ds xs # ws @ rest" using False s'(2) by (subst words.simps) simp
      moreover have "load32 (umem s') (current + 512) = p"
      proof -
        have "load32 (umem s') (current + 512) = load32 ?m (current + 512)"
        proof (rule load32_cong, rule keep)
          fix x assume "in_range (current + 512) 4 x"
          then have x: "in_range current 516 x" by (rule node_ranges(3))
          show "live (world s2) x" using x by (rule cur(2))
          show "\<not> in_range (sp s1) (length (after_token ds xs)) x" using apart x in_range_mono [of "sp s1" _ x] by (meson le_SucI order_refl)
          show "\<not> in_range (p + 512) 4 x" using cur(1) [OF x] node_ranges(3) by blast
        qed
        then show ?thesis by simp
      qed
      moreover have "cstring (umem s') p (take 511 (next_token ds xs))"
        using m(2)
      proof (rule cstring_cong)
        fix x assume "in_range p (Suc (length (take 511 (next_token ds xs)))) x"
        then have x: "in_range p 512 x" by (rule in_range_mono) simp
        then have y: "in_range p 516 x" by (rule node_ranges(2))
        have "\<not> in_range (sp s1) (length (after_token ds xs)) x"
          using m(4) [of x] y live in_range_mono [of "sp s1" _ x] by (meson le_SucI order_refl)
        then show "umem s' x = m x" using keep [OF m(5) [OF y]] node_ranges(1) [OF x] other [of x] apart [of x] y by simp
      qed
      ultimately have "argument_list (umem s') (load32 (umem s') (current + 512)) (next_token ds xs # ws)"
        "words ds xs = (next_token ds xs # ws) @ rest" using s'(3) nn by simp_all
      moreover have "live (world s') x \<and> (\<not> in_range a (length xs) x \<longrightarrow> \<not> in_range (current + 512) 4 x \<longrightarrow> umem s' x = umem s x)"
        if "live (world s) x" for x
      proof -
        have l: "m x = umem s1 x" "live (world s2) x" "\<not> in_range p 516 x" using m(4) that unfolding w1 by blast+
        have "umem s' x = umem s x" if "\<not> in_range a (length xs) x" "\<not> in_range (current + 512) 4 x"
          using keep [OF l(2)] s1(9) [of 0 x] l(1,3) that s1(7) node_ranges(3) store32_other [of "current + 512" x m p] by auto
        then show ?thesis using s'(6) l(2) by blast
      qed
      moreover have "s' = s\<lparr>umem := umem s', sp := sp s', world := world s'\<rparr>"
        by (subst s'(5), subst s1(5)) simp
      moreover have "list_ends sys (length (next_token ds xs # ws)) rest (world s) s'"
        using list_ends_element [OF p nn s'(4)] w1 by simp
      ultimately show ?thesis using run by blast
    qed
  qed
qed

text \<open>The strings, the delimiter and the free stack a command is parsed with.\<close>

definition command_in :: "('w \<Rightarrow> addr \<Rightarrow> bool) \<Rightarrow> addr \<Rightarrow> addr \<Rightarrow> u8 list \<Rightarrow> 'w user_state \<Rightarrow> bool" where
  "command_in live delim command cmd s \<longleftrightarrow> cstring (umem s) command cmd \<and> cstring (umem s) delim [0x20]
     \<and> user_stack s \<noteq> 0 \<and> unat (user_stack s) + 1025 \<le> 2 ^ 32
     \<and> disjoint_ranges (user_stack s) 1025 command (Suc (length cmd)) \<and> disjoint_ranges (user_stack s) 1025 delim 2
     \<and> (\<forall>x. in_range (user_stack s) 1025 x \<or> in_range delim 2 x \<longrightarrow> live (world s) x)"

lemma command_copied:
  assumes "command_in live delim command cmd s" "sp s = 0"
  shows "\<exists>m. strncpy (umem s) (user_stack s) command 1025 = m \<and> (\<forall>x. \<not> in_range (user_stack s) 1025 x \<longrightarrow> m x = umem s x)
    \<and> splitting delim [0x20] (user_stack s) (user_stack s) (take 1024 cmd) (s\<lparr>umem := m\<rparr>)"
proof -
  note c = assms(1) [unfolded command_in_def]
  let ?b = "user_stack s" and ?bs = "take 1024 cmd @ [0]"
  let ?m = "write_bytes (umem s) ?b ?bs"
  have "disjoint_ranges ?b (nat 1025) command (min (nat 1025) (Suc (length cmd)))"
    using c by (auto intro: disjoint_ranges_mono)
  then have copy: "strncpy (umem s) ?b command 1025 = ?m"
    using strncpy_cstring [of "umem s" command cmd 1025 ?b] c by simp
  have len: "length ?bs \<le> 1025" by simp
  have out: "?m x = umem s x" if "\<not> in_range ?b 1025 x" for x
    using that in_range_mono [OF _ len] by (auto simp: write_bytes_apply)
  have nz: "0 \<notin> set (take 1024 cmd)" using c by (auto simp: cstring_def dest: in_set_takeD)
  have "cstring ?m delim [0x20]"
    by (rule cstring_cong [of "umem s"])
      (use c out in \<open>auto simp: disjoint_ranges_def numeral_2_eq_2\<close>)
  moreover have "cstring ?m ?b (take 1024 cmd)" by (rule cstring_write_bytes) (use nz in simp_all)
  moreover have "disjoint_ranges ?b (Suc (length (take 1024 cmd))) delim (Suc (length [0x20 :: u8]))"
    using c by (elim conjE) (erule disjoint_ranges_mono, simp_all)
  moreover have "\<not> in_range ?b (Suc (length (take 1024 cmd))) 0"
  proof -
    have "unat ?b \<noteq> 0" using c by (simp add: unat_eq_zero)
    then have "\<not> in_range ?b 1025 0" using in_range_unat [of ?b 1025 0] c by simp
    then show ?thesis using in_range_mono [of ?b _ 0 1025] by (metis len length_append_singleton)
  qed
  ultimately have "splitting delim [0x20] ?b ?b (take 1024 cmd) (s\<lparr>umem := ?m\<rparr>)"
    using assms(2) c by (simp add: splitting_def)
  then show ?thesis using copy out by blast
qed

lemma alphaos_parse_command_spec:
  assumes "user_heap sys live" "command_in live delim command cmd s" "sp s = 0" "n \<le> 1025"
  shows "\<exists>p s' ws rest. alphaos_parse_command sys delim command n s = Some (p, s')
    \<and> words [0x20] (take 1024 cmd) = ws @ rest \<and> argument_list (umem s') p ws
    \<and> list_ends sys (length ws) rest (world s) s'
    \<and> s' = s\<lparr>umem := umem s', sp := sp s', world := world s'\<rparr>
    \<and> (\<forall>x. live (world s) x \<longrightarrow> live (world s') x \<and> (\<not> in_range (user_stack s) 1025 x \<longrightarrow> umem s' x = umem s x))"
proof -
  let ?b = "user_stack s" and ?cmd = "take 1024 cmd"
  note c = assms(2) [unfolded command_in_def]
  obtain m where m: "strncpy (umem s) ?b command 1025 = m" "\<forall>x. \<not> in_range ?b 1025 x \<longrightarrow> m x = umem s x"
    "splitting delim [0x20] ?b ?b ?cmd (s\<lparr>umem := m\<rparr>)"
    using command_copied [OF assms(2,3)] by blast
  have len: "Suc (length ?cmd) \<le> 1025" by simp
  show ?thesis
  proof (cases "next_token [0x20] ?cmd = []")
    case True
    have "words [0x20] ?cmd = []" using True by (subst words.simps) simp
    then show ?thesis using strtok_no_token [OF m(3) True] assms(3,4) m(1,2)
      by (intro exI [of _ 0] exI [of _ "s\<lparr>umem := m\<rparr>"] exI [of _ "[]"])
        (simp add: alphaos_parse_command_def Let_def)
  next
    case False
    let ?w = "next_token [0x20] ?cmd" and ?rest = "after_token [0x20] ?cmd"
    obtain t s1 where s1: "strtok ?b delim (s\<lparr>umem := m\<rparr>) = Some (t, s1)" "t \<noteq> 0" "cstring (umem s1) t ?w"
      "splitting delim [0x20] 0 (sp s1) ?rest s1" "s1 = s\<lparr>umem := umem s1, sp := sp s1\<rparr>" "sp s1 \<noteq> 0"
      "\<And>x. \<not> in_range ?b (length ?cmd) x \<Longrightarrow> umem s1 x = m x"
      "\<And>x. in_range t (Suc (length ?w)) x \<Longrightarrow> in_range ?b (Suc (length ?cmd)) x \<and> \<not> in_range (sp s1) (length ?rest) x"
      "\<And>x n. in_range (sp s1) (n + length ?rest) x \<Longrightarrow> in_range ?b (n + length ?cmd) x \<or> 1 < n"
      by (rule strtok_token [OF m(3) False]) simp
    have w1: "world s1 = world s" by (subst s1(5)) simp
    have live: "live (world s1) x" if "in_range (sp s1) (Suc (length ?rest)) x \<or> in_range delim (Suc (length [0x20 :: u8])) x
        \<or> in_range t (Suc (length ?w)) x" for x
      using that s1(8) [of x] s1(9) [of 1 x] c in_range_mono [OF _ len, of ?b x] unfolding w1 by (auto simp: numeral_2_eq_2)
    have old: "umem s1 x = umem s x" if "\<not> in_range ?b 1025 x" for x
    proof -
      have "\<not> in_range ?b (length ?cmd) x" using that in_range_mono [of ?b "length ?cmd" x 1025] len by linarith
      then show ?thesis using s1(7) m(2) that by simp
    qed
    obtain p s2 where p: "malloc sys command_argument_size s1 = (p, s2)" by fastforce
    have start: "alphaos_parse_command sys delim command n s = (if p = 0 then Some (0, s2)
        else do { s \<leftarrow> parse_arguments sys delim p (set_argument p t s2); Some (p, s) })"
      using s1(1,2) p assms(4) m(1) by (simp add: alphaos_parse_command_def Let_def parse_arguments_def case_prod_beta')
    have ne: "words [0x20] ?cmd = ?w # words [0x20] ?rest" using False by (subst words.simps) simp
    show ?thesis
    proof (cases "p = 0")
      case True
      obtain m2 wd where call: "sys_malloc sys command_argument_size (umem s1) (world s) = (0, m2, wd)" "s2 = s1\<lparr>umem := m2, world := wd\<rparr>"
        using p True w1 by (auto simp: malloc_def split: prod.splits)
      have keep: "m2 x = umem s1 x" "live wd x" if "live (world s) x" for x
        using assms(1) call(1) that unfolding user_heap_def by blast+
      have "list_ends sys 0 (words [0x20] ?cmd) (world s) s2"
        using list_ends_refused [of sys s1 s2 "words [0x20] ?cmd"] p True s1(6) w1 ne by (simp add: call(2))
      moreover have "s2 = s\<lparr>umem := m2, sp := sp s1, world := wd\<rparr>" unfolding call(2) by (subst s1(5)) simp
      ultimately show ?thesis using start True s1(6) keep old ne
        by (intro exI [of _ 0] exI [of _ s2] exI [of _ "[]"] exI [of _ "words [0x20] ?cmd"]) simp
    next
      case nn: False
      obtain m2 where m2: "set_argument p t s2 = s1\<lparr>umem := m2, world := world s2\<rparr>" "cstring m2 p (take 511 ?w)"
        "parsing live delim [0x20] p 0 (sp s1) ?rest (s1\<lparr>umem := m2, world := world s2\<rparr>)"
        "\<And>x. live (world s1) x \<Longrightarrow> m2 x = umem s1 x \<and> live (world s2) x \<and> \<not> in_range p 516 x"
        "\<And>x. in_range p 516 x \<Longrightarrow> live (world s2) x"
        using new_argument [OF assms(1) s1(4,3) live p nn] by blast
      obtain s' ws rest where s': "parse_arguments sys delim p (s1\<lparr>umem := m2, world := world s2\<rparr>) = Some s'"
        "words [0x20] ?rest = ws @ rest" "argument_list (umem s') (load32 (umem s') (p + 512)) ws"
        "list_ends sys (length ws) rest (world s2) s'"
        "s' = s1\<lparr>umem := m2, world := world s2, umem := umem s', sp := sp s', world := world s'\<rparr>"
        "\<forall>x. live (world s2) x \<longrightarrow> live (world s') x
          \<and> (\<not> in_range (sp s1) (length ?rest) x \<longrightarrow> \<not> in_range (p + 512) 4 x \<longrightarrow> umem s' x = m2 x)"
        using parse_arguments_words [OF assms(1) m2(3)] by auto
      have apart: "\<not> in_range (sp s1) (length ?rest) x" if "in_range p 516 x" for x
        using m2(4) [of x] that live in_range_mono [of "sp s1" _ x] by (meson le_SucI order_refl)
      have "cstring (umem s') p (take 511 ?w)"
        using m2(2)
      proof (rule cstring_cong)
        fix x assume "in_range p (Suc (length (take 511 ?w))) x"
        then have x: "in_range p 512 x" by (rule in_range_mono) simp
        then show "umem s' x = m2 x" using s'(6) m2(5) node_ranges(1,2) apart by blast
      qed
      then have "argument_list (umem s') p (?w # ws)" "words [0x20] ?cmd = (?w # ws) @ rest"
        using s'(2,3) nn ne by simp_all
      moreover have "live (world s') x \<and> (\<not> in_range ?b 1025 x \<longrightarrow> umem s' x = umem s x)" if "live (world s) x" for x
      proof -
        have l: "m2 x = umem s1 x" "live (world s2) x" "\<not> in_range p 516 x" using m2(4) that unfolding w1 by blast+
        have "umem s' x = umem s x" if "\<not> in_range ?b 1025 x"
        proof -
          have "\<not> in_range ?b (length ?cmd) x" using that in_range_mono [of ?b "length ?cmd" x 1025] len by linarith
          then have "\<not> in_range (sp s1) (length ?rest) x" using s1(9) [of 0 x] by auto
          then show ?thesis using s'(6) l node_ranges(3) [of p x] old [OF that] by metis
        qed
        then show ?thesis using s'(6) l(2) by blast
      qed
      moreover have "s' = s\<lparr>umem := umem s', sp := sp s', world := world s'\<rparr>"
        by (subst s'(5), subst s1(5)) simp
      moreover have "alphaos_parse_command sys delim command n s = Some (p, s')" using start nn m2(1) s'(1) by simp
      moreover have "list_ends sys (length (?w # ws)) rest (world s) s'"
        using list_ends_element [OF p nn s'(4)] w1 by simp
      ultimately show ?thesis by blast
    qed
  qed
qed

text \<open>
  C35: \<open>alphaos_parse_command\<close> returns, and the list it returns holds the words of the command, in
  order, as far as they lie in the first 1024 characters, each cut to 511. It holds all of them, unless the allocation of an element
  fails: the parser asks for one element per word, one after the other, and when a request is refused it stops there. In that
  case, and only then, \<open>strtok\<close> still holds its place in the copy, and the next command would be ignored. What the program
  owned before is unchanged but for the local copy, and a size above 1025 is rejected.
\<close>

theorem alphaos_parse_command_words:
  assumes "user_heap sys live" "command_in live delim command cmd s" "sp s = 0"
  shows "if n > 1025 then alphaos_parse_command sys delim command n s = Some (0, s)
    else \<exists>p s' ws rest. alphaos_parse_command sys delim command n s = Some (p, s')
      \<and> words [0x20] (take 1024 cmd) = ws @ rest \<and> argument_list (umem s') p ws
      \<and> list_ends sys (length ws) rest (world s) s'
      \<and> (\<forall>x. live (world s) x \<longrightarrow> live (world s') x \<and> (\<not> in_range (user_stack s) 1025 x \<longrightarrow> umem s' x = umem s x))"
proof (cases "n > 1025")
  case True
  then show ?thesis by (simp add: alphaos_parse_command_def)
next
  case False
  then have "n \<le> 1025" by simp
  from alphaos_parse_command_spec [OF assms this] show ?thesis unfolding if_not_P [OF False] by blast
qed

text \<open>A heap that hands out its memory upwards from an address, until the addresses are used up.\<close>

definition bump_live :: "nat \<Rightarrow> addr \<Rightarrow> bool" where
  "bump_live brk x \<longleftrightarrow> unat x < brk"

definition bump_syscalls :: "nat syscalls" where
  "bump_syscalls = \<lparr>sys_print = (\<lambda>p m w. w), sys_getkey = (\<lambda>w. (13, w)), sys_putchar = (\<lambda>c w. w),
     sys_malloc = (\<lambda>n m brk. if 0 < brk \<and> brk + unat n < 2 ^ 32 then (of_nat brk, m, brk + unat n) else (0, m, brk)),
     sys_free = (\<lambda>p m w. (m, w)), sys_system = (\<lambda>p m w. (0, m, w)), sys_arguments = (\<lambda>p m w. (m, w))\<rparr>"

lemma bump_heap: "user_heap bump_syscalls bump_live"
  unfolding user_heap_def
proof (intro allI impI)
  fix n m p m' and w w' :: nat
  assume call: "sys_malloc bump_syscalls n m w = (p, m', w')"
  show "(\<forall>x. bump_live w x \<longrightarrow> m' x = m x \<and> bump_live w' x) \<and>
    (p \<noteq> 0 \<longrightarrow> (\<forall>x. in_range p (unat n) x \<longrightarrow> bump_live w' x \<and> \<not> bump_live w x))"
  proof (cases "0 < w \<and> w + unat n < 2 ^ 32")
    case True
    then have p: "p = of_nat w" "m' = m" "w' = w + unat n" using call by (simp_all add: bump_syscalls_def)
    have "unat p = w" using True unfolding p(1) by (simp add: unat_of_nat take_bit_nat_eq_self)
    then show ?thesis using p(2,3) True in_range_unat [of p "unat n"] by (auto simp: bump_live_def)
  next
    case False
    then show ?thesis using call by (auto simp: bump_syscalls_def bump_live_def split: if_splits)
  qed
qed

definition demo_command :: "nat user_state" where
  "demo_command = (demo_user 0x500000) \<lparr>umem := (\<lambda>_. 0)(0x100 := 0x6C, 0x101 := 0x73, 0x102 := 0x20, 0x103 := 0x62, 0x200 := 0x20)\<rparr>"

lemma bump_malloc: "sys_malloc bump_syscalls command_argument_size m w =
    (if 0 < w \<and> w + 516 < 2 ^ 32 then (of_nat w, m, w + 516) else (0, m, w))"
  by (simp add: bump_syscalls_def command_argument_size_def)

lemma bump_taken: "taken bump_syscalls n w w' \<Longrightarrow> w' = w + n * 516"
  by (induction n arbitrary: w) (fastforce simp: bump_malloc split: if_splits)+

lemma bump_refused: "refused bump_syscalls w s' \<Longrightarrow> 0 < w \<Longrightarrow> 2 ^ 32 \<le> w + 516"
  by (auto simp: refused_def malloc_def bump_malloc word_unat_eq_iff unat_of_nat take_bit_nat_eq_self split: if_splits)

text \<open>While the addresses last, every word becomes an element.\<close>

lemma bump_list_ends:
  assumes "list_ends bump_syscalls n rest w s'" "0 < w" "w + Suc n * 516 < 2 ^ 32"
  shows "rest = [] \<and> sp s' = 0"
proof -
  obtain w1 where w1: "taken bump_syscalls n w w1" "if rest = [] then world s' = w1 \<and> sp s' = 0 else refused bump_syscalls w1 s' \<and> sp s' \<noteq> 0"
    using assms(1) unfolding list_ends_def by blast
  show ?thesis using w1(2) bump_taken [OF w1(1)] bump_refused [of w1 s'] assms(2,3) by (auto split: if_splits)
qed

theorem alphaos_parse_command_words_witness:
  "\<exists>p s'. alphaos_parse_command bump_syscalls 0x200 0x100 1024 demo_command = Some (p, s')
    \<and> argument_list (umem s') p [[0x6C, 0x73], [0x62]] \<and> sp s' = 0"
proof -
  let ?cmd = "[0x6C, 0x73, 0x20, 0x62] :: u8 list"
  have "disjoint_ranges 0x3FE000 1025 0x100 (Suc (length ?cmd))" "disjoint_ranges 0x3FE000 1025 0x200 2"
    by (rule disjoint_ranges_sym, rule disjoint_ranges_unat, simp, simp)+
  moreover have "bump_live 0x500000 x" if "in_range 0x3FE000 1025 x \<or> in_range 0x200 2 x" for x
    using that by (auto simp: bump_live_def in_range_unat)
  ultimately have "command_in bump_live 0x200 0x100 ?cmd demo_command"
    by (simp add: command_in_def demo_command_def demo_user_def)
  moreover have d: "sp demo_command = 0" "world demo_command = 0x500000" by (simp_all add: demo_command_def demo_user_def)
  moreover have ws: "words [0x20] (take 1024 ?cmd) = [[0x6C, 0x73], [0x62]]"
    by (simp add: words.simps next_token_def after_token_def)
  ultimately obtain p s' ws rest where r: "alphaos_parse_command bump_syscalls 0x200 0x100 1024 demo_command = Some (p, s')"
      "[[0x6C, 0x73], [0x62]] = ws @ rest" "argument_list (umem s') p ws" "list_ends bump_syscalls (length ws) rest 0x500000 s'"
    using alphaos_parse_command_words [OF bump_heap, of "0x200" "0x100" ?cmd demo_command 1024] by auto
  have "length (ws @ rest) = 2" unfolding r(2) [symmetric] by simp
  then have "rest = []" "sp s' = 0" using bump_list_ends [OF r(4)] by simp_all
  then show ?thesis using r by auto
qed


end
