(* ===== verification/Programs.thy ===== *)
theory Programs
  imports Alphaos
begin

text \<open>
  The programs of \<^verbatim>\<open>src/programs/\<close> over the user library: the entry point \<open>c_start\<close>, the shell,
  and \<^verbatim>\<open>blank\<close>, which prints its arguments. The stack grows downwards, so the locals of a program lie above those
  of the library routines it calls: the command line of the shell at \<open>user_stack + 2052\<close>, the structure of
  \<open>c_start\<close> at \<open>user_stack + 3076\<close>.
\<close>

section \<open>start.c\<close>

definition c_start :: "'w syscalls \<Rightarrow> (int \<Rightarrow> addr \<Rightarrow> 'w user_state \<Rightarrow> (int \<times> 'w user_state) option) \<Rightarrow>
    'w user_state \<Rightarrow> 'w user_state option" where
  "c_start sys main s = do {
     let args = user_stack s + 3076;
     let (m, w) = sys_arguments sys args (umem s) (world s);
     let s = s\<lparr>umem := m, world := w\<rparr>;
     (res, s) \<leftarrow> main (sint (word_at (umem s) args 0)) (word_at (umem s) args 1) s;
     Some s
   }"

section \<open>The shell\<close>

text \<open>One turn of its endless loop; \<open>prompt\<close> and \<open>delim\<close> are addresses of string literals.\<close>

definition shell_turn :: "'w syscalls \<Rightarrow> addr \<Rightarrow> addr \<Rightarrow> 'w user_state \<Rightarrow> 'w user_state option" where
  "shell_turn sys prompt delim s = do {
     let s = uprint sys prompt s;
     let buf = user_stack s + 2052;
     s \<leftarrow> terminal_readline sys buf 1024 True s;
     let s = snd (putchar sys 10 s);
     (r, s) \<leftarrow> system_run sys delim buf s;
     Some (snd (putchar sys 10 s))
   }"

partial_function (option) shell_loop :: "'w syscalls \<Rightarrow> addr \<Rightarrow> addr \<Rightarrow> 'w user_state \<Rightarrow> (int \<times> 'w user_state) option" where
  "shell_loop sys prompt delim s = do { s \<leftarrow> shell_turn sys prompt delim s; shell_loop sys prompt delim s }"

definition shell_main :: "'w syscalls \<Rightarrow> addr \<Rightarrow> addr \<Rightarrow> addr \<Rightarrow> int \<Rightarrow> addr \<Rightarrow> 'w user_state \<Rightarrow> (int \<times> 'w user_state) option" where
  "shell_main sys welcome prompt delim argc argv s = do {
     (r, s) \<leftarrow> printf sys welcome (user_stack s) s;
     shell_loop sys prompt delim s
   }"

section \<open>blank.c\<close>

text \<open>Two arguments on the stack, behind the format.\<close>

definition push2 :: "u32 \<Rightarrow> u32 \<Rightarrow> 'w user_state \<Rightarrow> 'w user_state" where
  "push2 a b s = s\<lparr>umem := store32 (store32 (umem s) (user_stack s) a) (user_stack s + 4) b\<rparr>"

function blank_loop :: "'w syscalls \<Rightarrow> addr \<Rightarrow> int \<Rightarrow> addr \<Rightarrow> int \<Rightarrow> 'w user_state \<Rightarrow> (int \<times> 'w user_state) option" where
  "blank_loop sys format argc argv i s =
     (if i < argc then do {
        let s = push2 (word_of_int i) (word_at (umem s) argv (word_of_int i)) s;
        (r, s) \<leftarrow> printf sys format (user_stack s) s;
        blank_loop sys format argc argv (i + 1) s
      } else Some (0, s))"
  by pat_completeness auto
termination by (relation "measure (\<lambda>(sys, format, argc, argv, i, s). nat (argc - i))") auto

declare blank_loop.simps [simp del]

definition blank_main :: "'w syscalls \<Rightarrow> addr \<Rightarrow> int \<Rightarrow> addr \<Rightarrow> 'w user_state \<Rightarrow> (int \<times> 'w user_state) option" where
  "blank_main sys format argc argv s = blank_loop sys format argc argv 0 s"

section \<open>Printing the arguments\<close>

definition argument_line :: "nat \<Rightarrow> u8 list \<Rightarrow> u8 list" where
  "argument_line i xs = ascii ''arg['' @ decimal (int i) @ ascii '']: '' @ xs @ [10]"

definition blank_format :: "u8 list" where
  "blank_format = ascii ''arg[%d]: %s'' @ [10]"

lemma blank_format_line: "formatted blank_format [Number (int i), Text xs] = Some (argument_line i xs)"
  by (simp add: blank_format_def argument_line_def ascii_def)

text \<open>
  The format and the arguments lie apart from what a turn of the loop writes: the stack and the array of
  \<open>itoa\<close>.
\<close>

definition scratch :: "'w user_state \<Rightarrow> addr \<Rightarrow> bool" where
  "scratch s x \<longleftrightarrow> in_range (itoa_text s) 12 x \<or> in_range (user_stack s) 8 x"

definition clear_of :: "'w user_state \<Rightarrow> addr \<Rightarrow> nat \<Rightarrow> bool" where
  "clear_of s p n \<longleftrightarrow> (\<forall>x. in_range p n x \<longrightarrow> \<not> scratch s x)"

definition main_arguments :: "addr \<Rightarrow> addr \<Rightarrow> u8 list list \<Rightarrow> 'w user_state \<Rightarrow> bool" where
  "main_arguments format argv xss s \<longleftrightarrow>
     cstring (umem s) format blank_format \<and> clear_of s format (Suc (length blank_format))
     \<and> disjoint_ranges (user_stack s) 8 (itoa_text s) 12
     \<and> (\<forall>i < length xss. let p = word_at (umem s) argv (of_nat i) in
          cstring (umem s) p (xss ! i) \<and> length (xss ! i) < 1024 \<and> clear_of s p (Suc (length (xss ! i)))
          \<and> clear_of s (argv + 4 * of_nat i) 4)"

lemma main_arguments_cong:
  assumes "main_arguments format argv xss s" "itoa_text s' = itoa_text s" "user_stack s' = user_stack s"
    "\<And>x. \<not> scratch s x \<Longrightarrow> umem s' x = umem s x"
  shows "main_arguments format argv xss s'"
proof -
  have c: "cstring (umem s') p xs" if "cstring (umem s) p xs" "clear_of s p (Suc (length xs))" for p xs
    using that(1) by (rule cstring_cong) (use that(2) assms(4) in \<open>auto simp: clear_of_def\<close>)
  have w: "word_at (umem s') argv (of_nat i) = word_at (umem s) argv (of_nat i)" if "clear_of s (argv + 4 * of_nat i) 4" for i
    unfolding word_at_def by (rule load32_cong) (use that assms(4) in \<open>auto simp: clear_of_def\<close>)
  have "clear_of s' = clear_of s" using assms(2,3) by (intro ext) (simp add: clear_of_def scratch_def)
  then show ?thesis using assms(1-3) c w unfolding main_arguments_def by (auto simp: Let_def)
qed

lemma push2_words:
  "load32 (umem (push2 a b s)) (user_stack s) = a" "load32 (umem (push2 a b s)) (user_stack s + 4) = b"
  "\<not> in_range (user_stack s) 8 x \<Longrightarrow> umem (push2 a b s) x = umem s x"
proof -
  let ?p = "user_stack s"
  have d: "disjoint_ranges ?p 4 (?p + 4) 4"
    using word_slots_disjoint [of 0 1 ?p] by simp
  show "load32 (umem (push2 a b s)) ?p = a" "load32 (umem (push2 a b s)) (?p + 4) = b"
    using d by (simp_all add: push2_def load32_store32_disjoint)
  show "umem (push2 a b s) x = umem s x" if x: "\<not> in_range ?p 8 x"
  proof -
    have "\<not> in_range ?p 4 x" "\<not> in_range (?p + 4) 4 x"
      using x in_range_mono [of ?p 4 x 8] in_range_sub [of ?p 4 4 x 8] by auto
    then show ?thesis by (simp add: push2_def store32_other)
  qed
qed

lemma blank_turn:
  assumes "console sys" "main_arguments format argv xss s" "i < length xss" "int i < 2 ^ 31"
  shows "\<exists>s'. printf sys format (user_stack s) (push2 (of_nat i) (word_at (umem s) argv (of_nat i)) s) = Some (0, s')
    \<and> world s' = fold (sys_putchar sys) (argument_line i (xss ! i)) (world s) \<and> main_arguments format argv xss s'
    \<and> s' = s\<lparr>umem := umem s', world := world s'\<rparr> \<and> (\<forall>x. \<not> scratch s x \<longrightarrow> umem s' x = umem s x)"
proof -
  let ?p = "word_at (umem s) argv (of_nat i)"
  let ?s = "push2 (of_nat i) ?p s"
  have same: "itoa_text ?s = itoa_text s" "user_stack ?s = user_stack s" "world ?s = world s"
    by (simp_all add: push2_def)
  have m: "umem ?s x = umem s x" if "\<not> scratch s x" for x
    using that push2_words(3) [of s x] by (simp add: scratch_def)
  have args: "main_arguments format argv xss ?s" using main_arguments_cong [OF assms(2) same(1,2) m] by blast
  have p: "word_at (umem ?s) argv (of_nat i) = ?p"
  proof -
    have "clear_of s (argv + 4 * of_nat i) 4" using assms(2,3) unfolding main_arguments_def Let_def by blast
    then show ?thesis using m unfolding word_at_def clear_of_def by (intro load32_cong) blast
  qed
  have xs: "cstring (umem ?s) ?p (xss ! i)" "length (xss ! i) < 1024" "clear_of s ?p (Suc (length (xss ! i)))"
    using args assms(2,3) p unfolding main_arguments_def Let_def by metis+
  have st: "disjoint_ranges (user_stack s) 8 (itoa_text s) 12" using assms(2) by (simp add: main_arguments_def)
  have "disjoint_ranges (user_stack s) 4 (itoa_text s) 12" "disjoint_ranges (user_stack s + 4) 4 (itoa_text s) 12"
    using disjoint_ranges_mono [OF st, of 4 12] st in_range_sub [of "user_stack s" 4 4 _ 8] by (auto simp: disjoint_ranges_def)
  then have a: "arguments (umem ?s) (itoa_text ?s) (user_stack s) [Number (int i), Text (xss ! i)]"
    using push2_words(1,2) [of "of_nat i" ?p s] xs assms(4) unfolding same
    by (auto simp: clear_of_def scratch_def disjoint_ranges_def)
  have f: "cstring (umem ?s) format blank_format" "disjoint_ranges format (Suc (length blank_format)) (itoa_text ?s) 12"
    using args unfolding same by (auto simp: main_arguments_def clear_of_def scratch_def disjoint_ranges_def same)
  obtain m' where m': "printf_loop sys format (user_stack s) ?s
      = Some (0, ?s\<lparr>umem := m', world := fold (sys_putchar sys) (argument_line i (xss ! i)) (world ?s)\<rparr>)"
    "same_outside (itoa_text ?s) (umem ?s) m'"
    using printf_loop_formatted [OF assms(1) blank_format_line f(1,2) a] by blast
  let ?s' = "?s\<lparr>umem := m', world := fold (sys_putchar sys) (argument_line i (xss ! i)) (world ?s)\<rparr>"
  have out: "umem ?s' x = umem s x" if "\<not> scratch s x" for x
    using m'(2) m [OF that] that unfolding same by (simp add: scratch_def)
  have "main_arguments format argv xss ?s'"
    by (rule main_arguments_cong [OF assms(2)]) (use out in \<open>simp_all add: same\<close>)
  then show ?thesis using m'(1) out
    by (intro exI [of _ ?s']) (simp add: printf_def same push2_def)
qed

lemma blank_loop_prints:
  assumes "console sys" "length xss \<le> 2 ^ 31"
  shows "i \<le> length xss \<Longrightarrow> main_arguments format argv xss s \<Longrightarrow>
    \<exists>s'. blank_loop sys format (int (length xss)) argv (int i) s = Some (0, s')
      \<and> world s' = fold (sys_putchar sys) (concat (map (\<lambda>i. argument_line i (xss ! i)) [i..<length xss])) (world s)
      \<and> s' = s\<lparr>umem := umem s', world := world s'\<rparr> \<and> (\<forall>x. \<not> scratch s x \<longrightarrow> umem s' x = umem s x)"
proof (induction "length xss - i" arbitrary: i s)
  case 0
  then show ?case by (intro exI [of _ s]) (simp add: blank_loop.simps)
next
  case (Suc n)
  then have i: "i < length xss" "int i < 2 ^ 31" using assms(2) by auto
  have n: "n = length xss - Suc i" "Suc i \<le> length xss" using Suc.hyps(2) i(1) by simp_all
  obtain s1 where s1: "printf sys format (user_stack s) (push2 (of_nat i) (word_at (umem s) argv (of_nat i)) s) = Some (0, s1)"
    "world s1 = fold (sys_putchar sys) (argument_line i (xss ! i)) (world s)" "main_arguments format argv xss s1"
    "s1 = s\<lparr>umem := umem s1, world := world s1\<rparr>" "\<forall>x. \<not> scratch s x \<longrightarrow> umem s1 x = umem s x"
    using blank_turn [OF assms(1) Suc.prems(2) i] by blast
  obtain s2 where s2: "blank_loop sys format (int (length xss)) argv (int (Suc i)) s1 = Some (0, s2)"
    "world s2 = fold (sys_putchar sys) (concat (map (\<lambda>i. argument_line i (xss ! i)) [Suc i..<length xss])) (world s1)"
    "s2 = s1\<lparr>umem := umem s2, world := world s2\<rparr>" "\<forall>x. \<not> scratch s1 x \<longrightarrow> umem s2 x = umem s1 x"
    using Suc.hyps(1) [OF n s1(3)] by blast
  have st: "user_stack (push2 a b s) = user_stack s" for a b by (simp add: push2_def)
  have "scratch s1 = scratch s" by (subst s1(4)) (simp add: scratch_def fun_eq_iff)
  moreover have "blank_loop sys format (int (length xss)) argv (int i) s = Some (0, s2)"
    using s1(1) s2(1) i(1) st by (subst blank_loop.simps) (simp add: Let_def add.commute)
  moreover have "s2 = s\<lparr>umem := umem s2, world := world s2\<rparr>" by (subst s2(3), subst s1(4)) simp
  moreover have "[i..<length xss] = i # [Suc i..<length xss]" using i(1) by (simp add: upt_conv_Cons)
  ultimately show ?case using s1(2,5) s2(2,4) by (intro exI [of _ s2]) simp
qed

text \<open>
  The program prints one line for each of its arguments, with the index in decimal, in order, and
  returns 0; it writes only its stack and the array of \<open>itoa\<close>.
\<close>

theorem blank_main_prints:
  assumes "console sys" "main_arguments format argv xss s" "length xss < 2 ^ 31"
  shows "\<exists>s'. blank_main sys format (int (length xss)) argv s = Some (0, s')
    \<and> world s' = fold (sys_putchar sys) (concat (map (\<lambda>i. argument_line i (xss ! i)) [0..<length xss])) (world s)
    \<and> (\<forall>x. \<not> scratch s x \<longrightarrow> umem s' x = umem s x)"
  using blank_loop_prints [OF assms(1) less_imp_le [OF assms(3)] le0 assms(2)] unfolding blank_main_def by auto

definition demo_arguments :: "(int list \<times> u8 list) user_state" where
  "demo_arguments = (demo_user ([], [])) \<lparr>umem :=
     store32 (write_bytes (write_bytes (\<lambda>_. 0) 0x100 (blank_format @ [0])) 0x400 ([0x6C, 0x73] @ [0])) 0x300 0x400\<rparr>"

lemma demo_clear: "unat p + n \<le> 0x3FE000 \<Longrightarrow> clear_of demo_arguments p n"
  by (auto simp: clear_of_def scratch_def demo_arguments_def demo_user_def in_range_unat)

lemma demo_main_arguments: "main_arguments 0x100 0x300 [[0x6C, 0x73]] demo_arguments"
proof -
  let ?m1 = "write_bytes (\<lambda>_. 0) 0x100 (blank_format @ [0])" and ?m2 = "write_bytes (write_bytes (\<lambda>_. 0) 0x100 (blank_format @ [0])) 0x400 ([0x6C, 0x73] @ [0])"
  have len: "length blank_format = 12" "0 \<notin> set blank_format" by (simp_all add: blank_format_def ascii_def)
  have w: "word_at (umem demo_arguments) 0x300 (of_nat 0) = 0x400" by (simp add: demo_arguments_def word_at_def)
  have "cstring ?m1 0x100 blank_format" by (rule cstring_write_bytes) (use len in simp_all)
  then have "cstring ?m2 0x100 blank_format"
    by (rule cstring_cong) (use len in \<open>auto simp: write_bytes_apply in_range_unat\<close>)
  then have f: "cstring (umem demo_arguments) 0x100 blank_format"
    unfolding demo_arguments_def by simp (erule cstring_cong, rule store32_other, use len in \<open>auto simp: in_range_unat\<close>)
  have "cstring ?m2 0x400 [0x6C, 0x73]" by (rule cstring_write_bytes) simp_all
  then have "cstring (umem demo_arguments) 0x400 [0x6C, 0x73]"
    unfolding demo_arguments_def by (simp add: store32_other in_range_unat)
  moreover have "disjoint_ranges (user_stack demo_arguments) 8 (itoa_text demo_arguments) 12"
    by (simp add: demo_arguments_def demo_user_def disjoint_ranges_unat)
  moreover have "clear_of demo_arguments 0x100 (Suc (length blank_format))" "clear_of demo_arguments 0x400 (Suc (length [0x6C, 0x73 :: u8]))"
    "clear_of demo_arguments (0x300 + 4 * of_nat 0) 4"
    by (rule demo_clear, use len in simp)+
  ultimately show ?thesis using f w unfolding main_arguments_def Let_def by (auto simp: less_Suc0)
qed

theorem blank_main_prints_witness:
  "\<exists>s'. blank_main demo_syscalls 0x100 1 0x300 demo_arguments = Some (0, s') \<and> world s' = ([], ascii ''arg[0]: ls'' @ [10])"
proof -
  have "world demo_arguments = ([], [])" by (simp add: demo_arguments_def demo_user_def)
  then show ?thesis using blank_main_prints [OF demo_console demo_main_arguments]
    by (auto simp: demo_putchar argument_line_def ascii_def decimal_def digits.simps)
qed

section \<open>A turn of the shell\<close>

text \<open>
  What \<open>system_run\<close> does with a line that fits its buffer, from the world \<open>w\<close>: the words of the line
  are handed to the kernel as a list, all of them unless the program was refused the memory for a further element (the
  list then ends before its word); with no element at all, the result is -1 and the kernel is not called.
\<close>

definition run_words :: "'w syscalls \<Rightarrow> addr \<Rightarrow> 'w \<Rightarrow> u8 list \<Rightarrow> (int \<times> 'w user_state) \<Rightarrow> bool" where
  "run_words sys delim w line res \<longleftrightarrow> (\<exists>buff s0 p s1 ws rest. world s0 = w \<and> cstring (umem s0) buff line
     \<and> alphaos_parse_command sys delim buff 1024 s0 = Some (p, s1)
     \<and> words [0x20] line = ws @ rest \<and> argument_list (umem s1) p ws \<and> list_ends sys (length ws) rest w s1
     \<and> res = (if ws = [] then (- 1, s1)
         else let (r, m, w) = sys_system sys p (umem s1) (world s1) in (r, s1\<lparr>umem := m, world := w\<rparr>)))"

text \<open>The stack of a turn, 3076 bytes, and the literal of the delimiter.\<close>

definition turn_stack :: "('w \<Rightarrow> addr \<Rightarrow> bool) \<Rightarrow> addr \<Rightarrow> 'w user_state \<Rightarrow> 'w \<Rightarrow> bool" where
  "turn_stack live delim s w \<longleftrightarrow> cstring (umem s) delim [0x20] \<and> user_stack s \<noteq> 0 \<and> unat (user_stack s) + 3076 \<le> 2 ^ 32
     \<and> disjoint_ranges (user_stack s) 3076 delim 2
     \<and> (\<forall>x. in_range (user_stack s) 3076 x \<or> in_range delim 2 x \<longrightarrow> live w x)"

lemma stack_part: "k + n \<le> 3076 \<Longrightarrow> in_range (b + of_nat k) n x \<Longrightarrow> in_range b 3076 x"
  by (erule in_range_sub) simp_all

lemma stack_parts_disjoint:
  assumes "k + n \<le> l" "l + n' \<le> 3076"
  shows "disjoint_ranges (b + of_nat k) n (b + of_nat l) n'"
  unfolding disjoint_ranges_def
proof (intro allI impI notI)
  fix x assume x: "in_range (b + of_nat k) n x" "in_range (b + of_nat l) n' x"
  then obtain i where i: "i < n" "x = b + of_nat (k + i)" by (elim in_rangeE) (simp add: add.assoc)
  show False using x(2) in_range_offset [of "k + i" l n' b] i assms by simp
qed

lemma system_run_words:
  assumes "user_heap sys live" "turn_stack live delim s (world s)" "sp s = 0" "cstring (umem s) command line"
    "length line \<le> 1023" "disjoint_ranges (user_stack s) 2052 command (Suc (length line))"
  shows "\<exists>res. system_run sys delim command s = Some res \<and> run_words sys delim (world s) line res"
proof -
  note t = assms(2) [unfolded turn_stack_def]
  let ?b = "user_stack s" and ?buff = "user_stack s + of_nat 1028" and ?bs = "line @ [0]"
  let ?m = "write_bytes (umem s) ?buff ?bs"
  let ?s = "s\<lparr>umem := ?m\<rparr>"
  have len: "length ?bs \<le> 1024" using assms(5) by simp
  have "disjoint_ranges ?buff (nat 1024) command (min (nat 1024) (Suc (length line)))"
    using assms(6) in_range_sub [of ?b 1028 1024 _ 2052] in_range_mono [of command "min (nat 1024) (Suc (length line))" _ "Suc (length line)"]
    by (auto simp: disjoint_ranges_def)
  then have "strncpy (umem s) ?buff command 1024 = write_bytes (umem s) ?buff (take 1023 line @ [0])"
    using strncpy_cstring [OF assms(4), of 1024 ?buff] by simp
  then have copy: "strncpy (umem s) ?buff command 1024 = ?m" using assms(5) by simp
  have out: "?m x = umem s x" if "\<not> in_range ?buff 1024 x" for x
    using that in_range_mono [OF _ len] len by (auto simp: write_bytes_apply)
  have "0 \<notin> set line" using assms(4) by (simp add: cstring_def)
  then have buff: "cstring ?m ?buff line" using len by (intro cstring_write_bytes) simp_all
  have d: "\<not> in_range ?buff 1024 x" "\<not> in_range ?b 1025 x" if "in_range delim 2 x" for x
    using t that in_range_sub [of ?b 1028 1024 x 3076] in_range_mono [of ?b 1025 x 3076] by (auto simp: disjoint_ranges_def)
  have "cstring ?m delim [0x20]"
    by (rule cstring_cong [of "umem s"]) (use t d(1) out in \<open>auto simp: numeral_2_eq_2\<close>)
  moreover have "disjoint_ranges ?b 1025 ?buff (Suc (length line))"
    using stack_parts_disjoint [of 0 1025 1028 "Suc (length line)" ?b] assms(5) by simp
  moreover have "disjoint_ranges ?b 1025 delim 2" using d(2) by (auto simp: disjoint_ranges_def)
  moreover have "live (world s) x" if "in_range ?b 1025 x \<or> in_range delim 2 x" for x
    using t that in_range_mono [of ?b 1025 x 3076] by auto
  ultimately have c: "command_in live delim ?buff line ?s" using buff t by (simp add: command_in_def)
  obtain p s1 ws rest where p: "alphaos_parse_command sys delim ?buff 1024 ?s = Some (p, s1)"
    "words [0x20] (take 1024 line) = ws @ rest" "argument_list (umem s1) p ws"
    "list_ends sys (length ws) rest (world s) s1"
    using alphaos_parse_command_spec [OF assms(1) c, of 1024] assms(3) by auto
  have "p = 0 \<longleftrightarrow> ws = []" using p(3) by (cases ws) simp_all
  then have run: "system_run sys delim command s = Some (if ws = [] then (- 1, s1)
      else let (r, m, w) = sys_system sys p (umem s1) (world s1) in (r, s1\<lparr>umem := m, world := w\<rparr>))"
    using p(1) copy by (simp add: system_run_def split_beta Let_def)
  have "words [0x20] line = ws @ rest" using p(2) assms(5) by simp
  then have "run_words sys delim (world s) line (if ws = [] then (- 1, s1)
      else let (r, m, w) = sys_system sys p (umem s1) (world s1) in (r, s1\<lparr>umem := m, world := w\<rparr>))"
    unfolding run_words_def using p(1,3,4) buff
    by (intro exI [of _ ?buff] exI [of _ ?s] exI [of _ p] exI [of _ s1] exI [of _ ws] exI [of _ rest]) simp
  then show ?thesis using run by blast
qed

text \<open>
  C36: if the keys typed after the prompt complete a line, a turn of the shell echoes them, hands exactly the words of
  the line to the kernel as a command, in order, and prints a newline before and after. A word is left out only if the allocation of
  its element, which the parser makes after those of the words before it, is refused by the kernel; the words after it are left out
  with it.
\<close>

theorem shell_turn_runs_line:
  assumes "user_heap sys live" "typed sys True (sys_print sys prompt (umem s) (world s)) ks w'" "edit_line 1023 [] ks = Some line"
    "0 \<notin> set line" "turn_stack live delim s (sys_putchar sys 10 w')" "sp s = 0"
  shows "\<exists>r s1. shell_turn sys prompt delim s = Some (s1\<lparr>world := sys_putchar sys 10 (world s1)\<rparr>)
    \<and> run_words sys delim (sys_putchar sys 10 w') line (r, s1)"
proof -
  let ?b = "user_stack s" and ?buf = "user_stack s + of_nat 2052" and ?w = "sys_putchar sys 10 w'"
  note t = assms(5) [unfolded turn_stack_def]
  let ?s0 = "uprint sys prompt s"
  have "typed sys True (world ?s0) ks w'" using assms(2) by (simp add: uprint_def)
  from terminal_readline_line [OF this _ assms(3), of ?buf]
  obtain m where m: "terminal_readline sys ?buf 1024 True ?s0 = Some (?s0\<lparr>umem := m, world := w'\<rparr>)"
    "entered (umem s) ?buf 1023 line m" "m (?buf + of_nat (length line)) = 0" "length line \<le> 1023"
    by (auto simp: uprint_def)
  let ?s = "s\<lparr>umem := m, world := ?w\<rparr>"
  have out: "m x = umem s x" if "\<not> in_range ?buf 1024 x" for x using m(2) that by (simp add: entered_def)
  have "cstring m ?buf line"
    using m(2,3) assms(4) unfolding cstring_def entered_def by (metis nth_bytes_at)
  moreover have "cstring m delim [0x20]"
  proof (rule cstring_cong [of "umem s"])
    fix x assume "in_range delim (Suc (length [0x20 :: u8])) x"
    then have "\<not> in_range ?buf 1024 x"
      using t in_range_sub [of ?b 2052 1024 x 3076] by (auto simp: disjoint_ranges_def numeral_2_eq_2)
    then show "m x = umem s x" by (rule out)
  qed (use t in blast)
  then have "turn_stack live delim ?s (world ?s)" using t by (simp add: turn_stack_def)
  moreover have "disjoint_ranges ?b 2052 ?buf (Suc (length line))"
    using stack_parts_disjoint [of 0 2052 2052 "Suc (length line)" ?b] m(4) by simp
  ultimately obtain r s1 where r: "system_run sys delim ?buf ?s = Some (r, s1)" "run_words sys delim ?w line (r, s1)"
    using system_run_words [OF assms(1), of delim ?s ?buf line] assms(6) m(4) by auto
  have "shell_turn sys prompt delim s = Some (s1\<lparr>world := sys_putchar sys 10 (world s1)\<rparr>)"
    using m(1) r(1) by (simp add: shell_turn_def putchar_def uprint_def Let_def)
  then show ?thesis using r(2) by blast
qed

text \<open>A machine with keys to read, a screen, and the end of the memory given away.\<close>

definition machine :: "(int list \<times> u8 list \<times> nat) syscalls" where
  "machine = \<lparr>sys_print = (\<lambda>p m w. w),
     sys_getkey = (\<lambda>(ks, w). case ks of [] \<Rightarrow> (0, [], w) | k # ks \<Rightarrow> (k, ks, w)),
     sys_putchar = (\<lambda>c (ks, out, brk). (ks, out @ [c], brk)),
     sys_malloc = (\<lambda>n m (ks, out, brk). let (p, m, brk) = sys_malloc bump_syscalls n m brk in (p, m, ks, out, brk)),
     sys_free = (\<lambda>p m w. (m, w)), sys_system = (\<lambda>p m w. (0, m, w)), sys_arguments = (\<lambda>p m w. (m, w))\<rparr>"

definition machine_live :: "int list \<times> u8 list \<times> nat \<Rightarrow> addr \<Rightarrow> bool" where
  "machine_live w = bump_live (snd (snd w))"

lemma machine_heap: "user_heap machine machine_live"
  using bump_heap unfolding user_heap_def machine_def machine_live_def
  by (auto split: prod.splits)

lemma machine_getkeyblock: "k \<noteq> 0 \<Longrightarrow> getkeyblock machine (x # k # ks, w) = Some (k, ks, w)"
  by (simp add: getkeyblock_def getkey_loop.simps machine_def)

lemma machine_putchar: "sys_putchar machine c (ks, out, brk) = (ks, out @ [c], brk)"
  by (simp add: machine_def)

definition demo_shell :: "(int list \<times> u8 list \<times> nat) user_state" where
  "demo_shell = (demo_user ([0, 0x6C, 0, 0x73, 0, 13], [], 0x500000)) \<lparr>umem := (\<lambda>_. 0)(0x200 := 0x20)\<rparr>"

lemma machine_not_refused: "0 < brk \<Longrightarrow> brk + 516 < 2 ^ 32 \<Longrightarrow> \<not> refused machine (ks, out, brk) s'"
  by (auto simp: refused_def malloc_def machine_def bump_malloc Let_def word_unat_eq_iff unat_of_nat take_bit_nat_eq_self)

text \<open>The user types "ls": the kernel is given the list of this one word.\<close>

theorem shell_turn_runs_line_witness:
  "\<exists>p s1. shell_turn machine 0x300 0x200 demo_shell = Some (s1\<lparr>world := sys_putchar machine 10 (world s1)\<rparr>)
    \<and> argument_list (umem s1) p [[0x6C, 0x73]]"
proof -
  let ?w = "([], [0x6C, 0x73], 0x500000) :: int list \<times> u8 list \<times> nat"
  have "typed machine True ([0, 0x6C, 0, 0x73, 0, 13], [], 0x500000) [0x6C, 0x73, 13] ?w"
    by (rule typed_key, simp add: machine_getkeyblock, simp, simp add: machine_putchar)+ (rule typed_none)
  then have t: "typed machine True (sys_print machine 0x300 (umem demo_shell) (world demo_shell)) [0x6C, 0x73, 13] ?w"
    by (simp add: demo_shell_def demo_user_def machine_def)
  have e: "edit_line 1023 [] [0x6C, 0x73, 13] = Some [0x6C, 0x73]" by simp
  have "disjoint_ranges 0x3FE000 3076 0x200 2"
    by (rule disjoint_ranges_sym, rule disjoint_ranges_unat) simp_all
  moreover have "bump_live 0x500000 x" if "in_range 0x3FE000 3076 x \<or> in_range 0x200 2 x" for x
    using that by (auto simp: bump_live_def in_range_unat)
  ultimately have "turn_stack machine_live 0x200 demo_shell (sys_putchar machine 10 ?w)"
    by (simp add: turn_stack_def demo_shell_def demo_user_def machine_putchar machine_live_def)
  from shell_turn_runs_line [OF machine_heap t e _ this]
  obtain r s1 where s1: "shell_turn machine 0x300 0x200 demo_shell = Some (s1\<lparr>world := sys_putchar machine 10 (world s1)\<rparr>)"
      "run_words machine 0x200 ([], [0x6C, 0x73, 10], 0x500000) [0x6C, 0x73] (r, s1)"
    by (auto simp: demo_shell_def demo_user_def machine_putchar)
  then obtain p s2 ws rest where r: "words [0x20] [0x6C, 0x73] = ws @ rest" "argument_list (umem s2) p ws"
      "list_ends machine (length ws) rest ([], [0x6C, 0x73, 10], 0x500000) s2"
      "(r, s1) = (if ws = [] then (- 1, s2)
         else let (r, m, w) = sys_system machine p (umem s2) (world s2) in (r, s2\<lparr>umem := m, world := w\<rparr>))"
    unfolding run_words_def by blast
  have w: "words [0x20] [0x6C, 0x73] = [[0x6C, 0x73 :: u8]]" by (simp add: words.simps next_token_def after_token_def)
  have "ws \<noteq> []"
  proof
    assume "ws = []"
    then have "refused machine ([], [0x6C, 0x73, 10], 0x500000) s2" using r(1,3) w by (auto simp: list_ends_def)
    then show False using machine_not_refused by simp
  qed
  then have "ws = [[0x6C, 0x73]]" "umem s1 = umem s2"
    using r(1,4) w by (auto simp: Cons_eq_append_conv machine_def)
  then show ?thesis using s1(1) r(2) by metis
qed

end
