(* ===== verification/Usercopy.thy ===== *)
theory Usercopy
  imports Task
begin

text \<open>
  Strings that the kernel copies from the memory of a program: \<open>copy_string_from_task\<close> of
  \<^verbatim>\<open>task/task.c\<close>. It maps a new kernel page into the address space of the task, copies to it under the
  directory of the task, undoes the mapping and copies again under its own.
\<close>

section \<open>Copying under a directory\<close>

abbreviation physical :: "addr \<Rightarrow> 'a kheap_state_scheme \<Rightarrow> addr \<Rightarrow> addr" where
  "physical dir s x \<equiv> paging_get_physical_address dir x s"

abbreviation off_page :: "addr \<Rightarrow> mem \<Rightarrow> mem \<Rightarrow> bool" where
  "off_page p m m' \<equiv> (\<forall>x. \<not> in_range p 4096 x \<longrightarrow> m' x = m x)"

text \<open>
  The page \<open>p\<close> is mapped to itself by the current directory, and writing to it changes no
  translation.
\<close>

definition window_page :: "addr \<Rightarrow> 'a paging_state_scheme \<Rightarrow> bool" where
  "window_page p s \<longleftrightarrow> (\<forall>k < 4096. physical (current_directory s) s (p + of_nat k) = p + of_nat k)
     \<and> (\<forall>m. off_page p (kmem s) m \<longrightarrow> physical (current_directory s) (s\<lparr>kmem := m\<rparr>) = physical (current_directory s) s)"

text \<open>A byte that the current directory shows at an address, off the page.\<close>

definition sees :: "addr \<Rightarrow> addr \<Rightarrow> u8 \<Rightarrow> 'a paging_state_scheme \<Rightarrow> bool" where
  "sees p x b s \<longleftrightarrow> kmem s (physical (current_directory s) s x) = b \<and> \<not> in_range p 4096 (physical (current_directory s) s x)"

lemma window_physical:
  "window_page p s \<Longrightarrow> off_page p (kmem s) m \<Longrightarrow> physical (current_directory s) (s\<lparr>kmem := m\<rparr>) x = physical (current_directory s) s x"
  unfolding window_page_def by (metis (no_types, lifting))

lemma load_virtual_sees:
  assumes "window_page p s" "off_page p (kmem s) m" "sees p x b s"
  shows "load_virtual (s\<lparr>kmem := m\<rparr>) x = b"
  using assms window_physical [OF assms(1,2)] by (simp add: load_virtual_def sees_def)

lemma store_virtual_window:
  assumes "window_page p s" "off_page p (kmem s) m" "k < 4096"
  shows "store_virtual (p + of_nat k) b (s\<lparr>kmem := m\<rparr>) = s\<lparr>kmem := m(p + of_nat k := b)\<rparr>"
    "off_page p (kmem s) (m(p + of_nat k := b))"
proof -
  have "in_range p 4096 (p + of_nat k)" using assms(3) by (intro in_range_nth) simp_all
  then show "store_virtual (p + of_nat k) b (s\<lparr>kmem := m\<rparr>) = s\<lparr>kmem := m(p + of_nat k := b)\<rparr>"
    "off_page p (kmem s) (m(p + of_nat k := b))"
    using assms window_physical [OF assms(1,2)] by (auto simp: store_virtual_def window_page_def)
qed

lemma strncpy_virtual_from_bytes:
  assumes "window_page p s" "n \<le> 4096"
  shows "\<forall>j < length t. sees p (v + of_nat (i + j)) (t ! j) s \<Longrightarrow> 0 \<notin> set t \<Longrightarrow> int (i + length t) \<le> n - 1 \<Longrightarrow>
    (int (i + length t) < n - 1 \<Longrightarrow> sees p (v + of_nat (i + length t)) 0 s) \<Longrightarrow> off_page p (kmem s) m \<Longrightarrow>
    strncpy_virtual_from p v n i (s\<lparr>kmem := m\<rparr>) = s\<lparr>kmem := write_bytes m (p + of_nat i) (t @ [0])\<rparr>"
proof (induction t arbitrary: i m)
  case Nil
  have "strncpy_virtual_from p v n i (s\<lparr>kmem := m\<rparr>) = store_virtual (p + of_nat i) 0 (s\<lparr>kmem := m\<rparr>)"
    using Nil.prems(3,4) load_virtual_sees [OF assms(1) Nil.prems(5)]
    by (subst strncpy_virtual_from.simps) auto
  then show ?case using store_virtual_window(1) [OF assms(1) Nil.prems(5), of i 0] Nil.prems(3) assms(2) by (simp add: fun_upd_def)
next
  case (Cons c t)
  have i: "int i < n - 1" "i < 4096" using Cons.prems(3) assms(2) by simp_all
  have c: "sees p (v + of_nat i) c s" "c \<noteq> 0" using Cons.prems(1,2) by (auto dest: spec [of _ 0])
  note st = store_virtual_window [OF assms(1) Cons.prems(5) i(2), of c]
  have "strncpy_virtual_from p v n i (s\<lparr>kmem := m\<rparr>) = strncpy_virtual_from p v n (Suc i) (s\<lparr>kmem := m(p + of_nat i := c)\<rparr>)"
    using i(1) c(2) load_virtual_sees [OF assms(1) Cons.prems(5) c(1)] st(1)
    by (subst strncpy_virtual_from.simps) simp
  also have "\<dots> = s\<lparr>kmem := write_bytes (m(p + of_nat i := c)) (p + of_nat (Suc i)) (t @ [0])\<rparr>"
  proof (rule Cons.IH [OF _ _ _ _ st(2)])
    show "\<forall>j < length t. sees p (v + of_nat (Suc i + j)) (t ! j) s"
    proof (intro allI impI)
      fix j assume "j < length t"
      then show "sees p (v + of_nat (Suc i + j)) (t ! j) s" using Cons.prems(1) [rule_format, of "Suc j"] by simp
    qed
    show "0 \<notin> set t" "int (Suc i + length t) \<le> n - 1" using Cons.prems(2,3) by simp_all
    show "sees p (v + of_nat (Suc i + length t)) 0 s" if "int (Suc i + length t) < n - 1"
      using Cons.prems(4) that by simp
  qed
  finally show ?case by (simp add: ac_simps)
qed

section \<open>Strings of a program\<close>

text \<open>
  A string in the address space \<open>c\<close>: its bytes, read through the tables, lie in memory that no
  allocation can hand out and outside the tables themselves; nor could the addresses become pages of the heap.
\<close>

definition user_string :: "addr \<Rightarrow> addr \<Rightarrow> u8 list \<Rightarrow> 'a kheap_state_scheme \<Rightarrow> bool" where
  "user_string c v xs s \<longleftrightarrow> cstring (\<lambda>x. kmem s (physical (load32 (kmem s) c) s x)) v xs
     \<and> (\<forall>x. in_range v (Suc (length xs)) x \<longrightarrow> held s x \<and> held s (physical (load32 (kmem s) c) s x)
          \<and> \<not> table_pages c s (physical (load32 (kmem s) c) s x))"

lemma physical_kmem: "kmem s' = kmem s \<Longrightarrow> physical dir s' x = physical dir s x"
  by (simp add: paging_get_physical_address_def paging_get_def Let_def)

text \<open>The translation of an address depends on the entry of its page only.\<close>

lemma physical_lookup:
  "physical (load32 (kmem s) c) s x =
     (space_lookup c (paging_align_to_lower_page x) s AND 0xFFFFF000) + (x - paging_align_to_lower_page x)"
  by (simp add: paging_get_physical_address_def space_lookup_def Let_def)

lemma lower_page_aligned: "unat (paging_align_to_lower_page x) mod 4096 = 0"
  by (simp add: align_lower)

lemma in_lower_page: "in_range (paging_align_to_lower_page x) 4096 x"
proof -
  have "unat (x - paging_align_to_lower_page x) = unat x mod 4096"
    by (simp add: paging_align_to_lower_page_def os_defs unat_mod)
  then show ?thesis by (simp add: in_range_def)
qed

lemma not_in_page_lower: "unat p mod 4096 = 0 \<Longrightarrow> \<not> in_range p 4096 x \<Longrightarrow> paging_align_to_lower_page x \<noteq> p"
  using in_lower_page by blast

lemma unat_word_of_int_small: "0 \<le> n \<Longrightarrow> n < 2 ^ 32 \<Longrightarrow> unat (word_of_int n :: u32) = nat n"
  by (simp add: unat_eq_nat_uint uint_word_of_int_eq take_bit_int_eq_self)

text \<open>The heap and the address space with the new page.\<close>

lemma window_allocated:
  assumes "space_ok c s" "0 < kavail s" "0 < n" "n < 4096" "kzalloc (word_of_int n) s = (p, s1)"
  shows "extends s s1" "klive s1 = (klive s)(p \<mapsto> 1)" "klive s p = None" "p \<noteq> NULL" "unat p mod 4096 = 0"
    "space_ok c s1" "p \<notin> space_pages c s1" "load32 (kmem s1) c = load32 (kmem s) c" "space_pages c s1 = space_pages c s"
    "unat va mod 4096 = 0 \<Longrightarrow> space_lookup c va s1 = space_lookup c va s"
    "held s x \<Longrightarrow> \<not> in_range p 4096 x" "table_pages c s1 = table_pages c s"
proof -
  have ok: "kheap_ok s" using assms(1) by (simp add: space_ok_def directory_ok_def)
  have sz: "unat (word_of_int n :: u32) = nat n" using assms(3,4) by (simp add: unat_word_of_int_small)
  note a = kzalloc_page_extends [OF ok assms(2) _ _ assms(5)]
  have k: "0 < unat (word_of_int n :: u32)" "unat (word_of_int n :: u32) \<le> 4096" using assms(3,4) unfolding sz by simp_all
  show ext: "extends s s1" and live: "klive s1 = (klive s)(p \<mapsto> 1)" "klive s p = None" "p \<noteq> NULL"
    using a(1,3,4,6) [OF k] by simp_all
  have ok1: "kheap_ok s1" using a(2) [OF k] .
  show "unat p mod 4096 = 0" using klive_page_aligned [OF ok1, of p 1] live(1) by simp
  have mem: "kmem s1 x = kmem s x" if "q \<in> space_pages c s" "in_range q 4096 x" for q x
    using extends_page [OF ext ok space_live [OF assms(1) that(1)] that(2)] .
  have l: "klive s1 q = Some 1" if "q \<in> space_pages c s" for q
    using extends_live [OF ext space_live [OF assms(1) that]] .
  show "space_ok c s1" and pages: "space_pages c s1 = space_pages c s"
    by (rule space_cong [OF assms(1) ok1]; blast intro: l mem)+
  show "space_lookup c va s1 = space_lookup c va s" if "unat va mod 4096 = 0"
    by (rule space_cong(3) [OF assms(1) ok1 _ _ that]; blast intro: l mem)
  show "p \<notin> space_pages c s1" using pages space_live [OF assms(1), of p] live(2) by auto
  have "c \<in> space_pages c s" by (simp add: space_pages_def)
  then show ld: "load32 (kmem s1) c = load32 (kmem s) c"
    using mem in_range_mono [of c 4 _ 4096] by (intro load32_cong) auto
  have "load32 (kmem s) c \<in> space_pages c s" by (simp add: space_pages_def)
  then have "table_of s1 (load32 (kmem s) c) i = table_of s (load32 (kmem s) c) i" if "i < 1024" for i
    using mem that by (intro table_of_cong) auto
  then show "table_pages c s1 = table_pages c s" unfolding table_pages_def ld by (metis (no_types, lifting))
  have "klive s1 p = Some 1" "klive s \<subseteq>\<^sub>m klive s1" using live(1) ext by (simp, simp only: extends_def)
  then show "held s x \<Longrightarrow> \<not> in_range p 4096 x"
    using held_fresh [OF ok1 _ live(2) _ extends_heap [OF ext], of 1 x] by simp
qed

text \<open>The entry of the page while it is mapped, and the table it lies in.\<close>

lemma window_entry:
  assumes "space_ok c s" "klive s p = Some 1" "p \<notin> space_pages c s" "unat p mod 4096 = 0"
  shows "in_range (entry_addr s (load32 (kmem s) c) p) 4 x \<Longrightarrow>
      \<not> in_range p 4096 x \<and> \<not> in_range c 4096 x \<and> \<not> in_range (load32 (kmem s) c) 4096 x \<and> table_pages c s x"
    "paging_get (load32 (kmem s) c) p s = load32 (kmem s) (entry_addr s (load32 (kmem s) c) p)"
    "paging_map c p p 7 s = (0, s\<lparr>kmem := store32 (kmem s) (entry_addr s (load32 (kmem s) c) p) (p OR 7)\<rparr>)"
proof -
  let ?dir = "load32 (kmem s) c" let ?t = "table_of s ?dir (dir_index p)"
  have al: "paging_is_aligned p" using assms(4) by (simp add: is_aligned_unat)
  have t: "?t \<in> space_pages c s" "?t \<noteq> c" "c \<in> space_pages c s" "?t \<noteq> ?dir" "?dir \<in> space_pages c s"
    using assms(1) dir_index_less [of p] by (auto simp: space_pages_def space_ok_def directory_ok_def)
  have ok: "kheap_ok s" using assms(1) by (simp add: space_ok_def directory_ok_def)
  show "\<not> in_range p 4096 x \<and> \<not> in_range c 4096 x \<and> \<not> in_range ?dir 4096 x \<and> table_pages c s x"
    if "in_range (entry_addr s ?dir p) 4 x"
  proof -
    have x: "in_range ?t 4096 x" by (rule entry_in_table [OF that])
    note live = space_live [OF assms(1)]
    show ?thesis
      using space_apart [OF assms(1-3) t(1) x] klive_page_disjoint [OF ok live [OF t(1)] live [OF t(3)] t(2) x]
        klive_page_disjoint [OF ok live [OF t(1)] live [OF t(5)] t(4) x] x dir_index_less [of p] by (auto simp: table_pages_def)
  qed
  show "paging_get ?dir p s = load32 (kmem s) (entry_addr s ?dir p)" by (rule paging_get_aligned [OF al])
  show "paging_map c p p 7 s = (0, s\<lparr>kmem := store32 (kmem s) (entry_addr s ?dir p) (p OR 7)\<rparr>)"
    using assms(4) by (simp add: paging_map_def word_mod_page paging_set_aligned [OF al])
qed

text \<open>A memory that differs in the entry and in the page only: the tables, but for the entry, are the same.\<close>

lemma window_tables:
  assumes "space_ok c s" "klive s p = Some 1" "p \<notin> space_pages c s" "unat p mod 4096 = 0"
    "\<And>x. \<not> in_range p 4096 x \<Longrightarrow> \<not> in_range (entry_addr s (load32 (kmem s) c) p) 4 x \<Longrightarrow> kmem s' x = kmem s x"
  shows "load32 (kmem s') c = load32 (kmem s) c" "entry_addr s' (load32 (kmem s) c) p = entry_addr s (load32 (kmem s) c) p"
    "space_pages c s' = space_pages c s"
proof -
  let ?dir = "load32 (kmem s) c"
  note e = window_entry(1) [OF assms(1-4)]
  have q: "?dir \<in> space_pages c s" "c \<in> space_pages c s" by (simp_all add: space_pages_def)
  have same: "kmem s' x = kmem s x" if "in_range ?dir 4096 x \<or> in_range c 4096 x" for x
    using that e [of x] space_apart [OF assms(1-3) q(1), of x] space_apart [OF assms(1-3) q(2), of x]
    by (intro assms(5)) auto
  show ld: "load32 (kmem s') c = ?dir" using same in_range_mono [of c 4 _ 4096] by (intro load32_cong) auto
  have tb: "table_of s' ?dir i = table_of s ?dir i" if "i < 1024" for i
    using same that by (intro table_of_cong) auto
  then show "space_pages c s' = space_pages c s" unfolding space_pages_def ld by auto
  show "entry_addr s' ?dir p = entry_addr s ?dir p" using tb by (simp add: entry_addr_def dir_index_less)
qed

text \<open>The copy under the directory of the task, into the mapped page.\<close>

lemma window_copied:
  fixes s :: "'a paging_state_scheme"
  assumes "space_ok c s" "0 < kavail s" "0 < n" "n < 4096" "kzalloc (word_of_int n) s = (p, s1)" "user_string c v xs s"
    "dir = load32 (kmem s) c" "m = store32 (kmem s1) (entry_addr s1 dir p) (p OR 7)"
  shows "strncpy_virtual p v n (s1\<lparr>kmem := m, cr3 := dir, current_directory := dir\<rparr>)
    = s1\<lparr>kmem := write_bytes m p (take (nat n - 1) xs @ [0]), cr3 := dir, current_directory := dir\<rparr>"
proof -
  note a = window_allocated [OF assms(1-5)]
  note e = window_entry [OF a(6) _ a(7,5)]
  have live: "klive s1 p = Some 1" using a(2) by simp
  have ld: "load32 (kmem s1) c = dir" using a(8) assms(7) by simp
  let ?s2 = "s1\<lparr>kmem := m\<rparr>" and ?s3 = "s1\<lparr>kmem := m, cr3 := dir, current_directory := dir\<rparr>"
  have map: "paging_map c p p 7 s1 = (0, ?s2)" using e(3) [OF live] unfolding assms(8) ld .
  have s2: "space_ok c ?s2" "space_keeps c s1 ?s2" "space_lookup c p ?s2 = p OR 7"
    "\<forall>w. unat w mod 4096 = 0 \<longrightarrow> w \<noteq> p \<longrightarrow> space_lookup c w ?s2 = space_lookup c w s1"
    using paging_map_law [OF a(6,5,5), of 7] unfolding map by auto
  have m: "m x = kmem s1 x" if "\<not> in_range (entry_addr s1 dir p) 4 x" for x
    using that unfolding assms(8) by (rule store32_other)
  have tabs: "load32 m c = dir" "space_pages c ?s2 = space_pages c s1"
    using window_tables [OF a(6) live a(7,5), of ?s2] m unfolding ld by simp_all
  have live2: "klive ?s2 p = Some 1" using s2(2) live by (simp add: space_keeps_def)
  have off: "physical dir (?s3\<lparr>kmem := m'\<rparr>) x = physical dir ?s2 x" if "off_page p m m'" for m' x
  proof -
    let ?s4 = "?s3\<lparr>kmem := m'\<rparr>"
    have k: "kmem ?s4 y = kmem ?s2 y" if "\<not> in_range p (1 * 4096) y" for y using that \<open>off_page p m m'\<close> by simp
    have np: "p \<notin> space_pages c ?s2" using tabs(2) a(7) by simp
    have l: "space_lookup c (paging_align_to_lower_page x) ?s4 = space_lookup c (paging_align_to_lower_page x) ?s2"
      by (rule space_store(3) [OF s2(1) live2 np _ k lower_page_aligned]) simp_all
    have "load32 m' c = dir"
    proof -
      have "load32 m' c = load32 m c"
      proof (rule load32_cong)
        fix y assume "in_range c 4 y"
        then have "in_range c 4096 y" by (rule in_range_mono) simp
        moreover have "c \<in> space_pages c ?s2" by (simp add: space_pages_def)
        ultimately have "\<not> in_range p 4096 y" using space_apart [OF s2(1) live2 np, of c y] by simp
        then show "m' y = m y" using that by simp
      qed
      then show ?thesis using tabs(1) by simp
    qed
    then show ?thesis using physical_lookup [of ?s4 c x] physical_lookup [of ?s2 c x] l tabs(1) by simp
  qed
  have base: "physical dir ?s3 x = physical dir ?s2 x" for x by (rule physical_kmem) simp
  have window: "window_page p ?s3"
  proof -
    have "physical dir ?s2 (p + of_nat k) = p + of_nat k" if "k < 4096" for k
      using lookup_physical [OF _ a(5,5) _ that, of dir ?s2 7] s2(3) tabs(1) by (simp add: space_lookup_def)
    then show ?thesis unfolding window_page_def using off base by simp
  qed
  have see: "sees p x b ?s3" if x: "in_range v (Suc (length xs)) x" "kmem s (physical dir s x) = b" for x b
  proof -
    let ?y = "physical dir s x"
    have h: "held s x" "held s ?y" "\<not> table_pages c s ?y" using assms(6,7) x(1) by (simp_all add: user_string_def)
    have "paging_align_to_lower_page x \<noteq> p" using not_in_page_lower [OF a(5)] a(11) [OF h(1)] by blast
    then have "space_lookup c (paging_align_to_lower_page x) ?s2 = space_lookup c (paging_align_to_lower_page x) s"
      using s2(4) a(10) lower_page_aligned by metis
    then have ph: "physical dir ?s2 x = ?y"
      using physical_lookup [of ?s2 c x] physical_lookup [of s c x] tabs(1) assms(7) by simp
    have "\<not> in_range (entry_addr s1 dir p) 4 ?y" using e(1) [OF live, of ?y] h(3) a(12) unfolding ld by auto
    then have "m ?y = kmem s ?y" using m extends_mem [OF a(1) h(2)] by simp
    then show ?thesis using base [of x] ph x(2) a(11) [OF h(2)] by (simp add: sees_def)
  qed
  let ?t = "take (nat n - 1) xs"
  have str: "cstring (\<lambda>x. kmem s (physical dir s x)) v xs" using assms(6,7) by (simp add: user_string_def)
  have len: "Suc (length xs) \<le> 2 ^ 32" using cstring_length [OF str] by simp
  have "strncpy_virtual_from p v n 0 (?s3\<lparr>kmem := m\<rparr>) = ?s3\<lparr>kmem := write_bytes m (p + of_nat 0) (?t @ [0])\<rparr>"
  proof (rule strncpy_virtual_from_bytes [OF window])
    show "\<forall>j < length ?t. sees p (v + of_nat (0 + j)) (?t ! j) ?s3"
      using str len by (auto simp: cstring_def intro!: see in_range_nth)
    show "0 \<notin> set ?t" using str by (auto simp: cstring_def dest: in_set_takeD)
    show "sees p (v + of_nat (0 + length ?t)) 0 ?s3" if "int (0 + length ?t) < n - 1"
    proof -
      have "length ?t = length xs" using that by (simp add: min_def split: if_splits)
      then show ?thesis using str len by (auto simp: cstring_def intro!: see in_range_nth)
    qed
  qed (use assms(3,4) in auto)
  moreover have "?s3\<lparr>kmem := m\<rparr> = ?s3"
    "?s3\<lparr>kmem := write_bytes m (p + of_nat 0) (?t @ [0])\<rparr>
      = s1\<lparr>kmem := write_bytes m p (?t @ [0]), cr3 := dir, current_directory := dir\<rparr>" by simp_all
  ultimately show ?thesis unfolding strncpy_virtual_def by (simp only:)
qed

section \<open>The whole copy\<close>

lemma store32_back: "in_range a 4 x \<Longrightarrow> store32 m' a (load32 m a) x = m x"
  using store32_same [of m a x] by (auto simp: in_range_4 store32_def)

text \<open>
  The task, its address space and that of the kernel are allocations of their own, a page is free, and the
  buffer is not part of the heap.
\<close>

definition copy_ready :: "addr \<Rightarrow> addr \<Rightarrow> addr \<Rightarrow> int \<Rightarrow> ('d, 'a) task_state_scheme \<Rightarrow> bool" where
  "copy_ready t c buf n s \<longleftrightarrow> get_field t task_page_directory s = c \<and> space_ok c s \<and> 0 < kavail s
     \<and> (\<forall>q \<in> {t, kernel_chunk s}. klive s q = Some 1 \<and> q \<notin> space_pages c s)
     \<and> (\<forall>x. in_range buf (nat n) x \<longrightarrow> \<not> in_pool s x \<and> \<not> in_table s x)"

text \<open>The steps up to the second copy, and the memory they leave.\<close>

lemma copy_string_steps:
  assumes "copy_ready t c buf n s" "0 < n" "n < 4096" "user_string c v xs s" "kzalloc (word_of_int n) s = (p, s1)"
  shows "\<exists>m. copy_string_from_task t v buf n s =
      (0, kfree p (s1\<lparr>cr3 := load32 (kmem s) (kernel_chunk s), current_directory := load32 (kmem s) (kernel_chunk s),
                     kmem := strncpy m buf p n\<rparr>))
    \<and> off_page p (kmem s1) m \<and> cstring m p (take (nat n - 1) xs)"
proof -
  note r = assms(1) [unfolded copy_ready_def]
  have r': "space_ok c s" "0 < kavail s" using r by simp_all
  note a = window_allocated [OF r' assms(2,3,5)]
  have live: "klive s1 p = Some 1" using a(2) by simp
  note e = window_entry [OF a(6) live a(7,5)]
  define dir where "dir = load32 (kmem s) c"
  define en where "en = entry_addr s1 dir p"
  define m where "m = store32 (kmem s1) en (p OR 7)"
  define m4 where "m4 = write_bytes m p (take (nat n - 1) xs @ [0])"
  define d where "d = load32 (kmem s) (kernel_chunk s)"
  let ?s2 = "s1\<lparr>kmem := m\<rparr>" and ?s3 = "s1\<lparr>kmem := m, cr3 := dir, current_directory := dir\<rparr>"
  let ?s5 = "s1\<lparr>kmem := m4, cr3 := d, current_directory := d\<rparr>"
  have ld: "load32 (kmem s1) c = dir" using a(8) by (simp add: dir_def)
  have ok: "kheap_ok s" using r'(1) by (simp add: space_ok_def directory_ok_def)
  have len: "length (take (nat n - 1) xs @ [0]) \<le> 4096" using assms(3) by simp
  have off4: "m4 x = kmem s1 x" if "\<not> in_range p 4096 x" "\<not> in_range en 4 x" for x
  proof -
    have "\<not> in_range p (length (take (nat n - 1) xs @ [0])) x" using that(1) len in_range_mono by blast
    then show ?thesis using that(2) len unfolding m4_def m_def by (simp add: write_bytes_apply store32_other)
  qed
  have page: "kmem s1 x = kmem s x" "m x = kmem s x" "m4 x = kmem s x"
    if q: "q \<in> {t, kernel_chunk s}" "in_range q 4096 x" for q x
  proof -
    have l: "klive s q = Some 1" "q \<notin> space_pages c s" using r q(1) by blast+
    show k: "kmem s1 x = kmem s x" by (rule extends_page [OF a(1) ok l(1) q(2)])
    have l1: "klive s1 q = Some 1" "q \<notin> space_pages c s1" using extends_live [OF a(1) l(1)] l(2) a(9) by simp_all
    have "\<not> in_range en 4 x"
    proof
      assume "in_range en 4 x"
      then have "in_range (table_of s1 dir (dir_index p)) 4096 x" unfolding en_def by (rule entry_in_table)
      moreover have "table_of s1 dir (dir_index p) \<in> space_pages c s1"
        unfolding space_pages_def ld using dir_index_less by blast
      ultimately show False using space_apart [OF a(6) l1] q(2) by simp
    qed
    moreover have "\<not> in_range p 4096 x" by (rule a(11)) (rule held_page [OF ok l(1)], use q(2) in simp)
    ultimately show "m x = kmem s x" "m4 x = kmem s x" using k off4 by (simp_all add: m_def store32_other)
  qed
  have "get_field t task_page_directory s1 = get_field t task_page_directory s"
    "get_field t task_page_directory ?s2 = get_field t task_page_directory s"
    by (intro get_field_cong [where n = 1024]; use page(1,2) [of t] in \<open>simp add: task_page_directory_def\<close>)+
  then have tf: "get_field t task_page_directory s1 = c" "get_field t task_page_directory ?s2 = c" using r by simp_all
  have kd: "load32 m4 (kernel_chunk s) = d" unfolding d_def
    by (rule load32_cong) (use page(3) [of "kernel_chunk s"] in_range_mono [of "kernel_chunk s" 4 _ 4096] in auto)
  have map: "paging_map c p p 7 s1 = (0, ?s2)" using e(3) unfolding m_def en_def ld .
  have c2: "load32 m c = dir" "entry_addr ?s5 dir p = en"
    using window_tables [OF a(6) live a(7,5), of ?s2] window_tables [OF a(6) live a(7,5), of ?s5] off4
    unfolding ld en_def [symmetric] by (simp_all add: m_def store32_other)
  have copied: "strncpy_virtual p v n ?s3 = s1\<lparr>kmem := m4, cr3 := dir, current_directory := dir\<rparr>"
    unfolding m4_def by (rule window_copied [OF r' assms(2,3,5,4)]) (simp_all add: dir_def m_def en_def)
  define m5 where "m5 = store32 m4 en (load32 (kmem s1) en)"
  obtain m1 where "s1 = s\<lparr>kmem := m1\<rparr>" using a(1) unfolding extends_def by blast
  then have kc: "kernel_chunk s1 = kernel_chunk s" by simp
  have set: "paging_set dir p (load32 (kmem s1) en) ?s5 = (0, ?s5\<lparr>kmem := m5\<rparr>)"
    using a(5) c2(2) by (simp add: paging_set_aligned is_aligned_unat m5_def)
  have "copy_string_from_task t v buf n s =
      (0, kfree p (s1\<lparr>cr3 := d, current_directory := d, kmem := strncpy m5 buf p n\<rparr>))"
  proof -
    have flags: "PAGING_IS_WRITABLE OR PAGING_IS_PRESENT OR PAGING_ACCESS_FROM_ALL = (7 :: u32)"
      by (simp add: os_defs PAGING_IS_PRESENT_def PAGING_ACCESS_FROM_ALL_def)
    have sw: "paging_switch c ?s2 = ?s3" using c2(1) by (simp add: paging_switch_def paging_load_directory_def Let_def)
    have kp: "kernel_page (s1\<lparr>kmem := m4, cr3 := dir, current_directory := dir\<rparr>) = ?s5"
      using kc kd by (simp add: kernel_page_def paging_switch_def paging_load_directory_def Let_def)
    have old: "paging_get dir p s1 = load32 (kmem s1) en" using e(2) unfolding ld en_def .
    show ?thesis
      using assms(3) a(4)
      unfolding copy_string_from_task_def assms(5) prod.case Let_def flags tf(1) paging_4gb_chunk_get_directory_def ld old map sw
        tf(2) copied kp set
      by simp
  qed
  moreover have "off_page p (kmem s1) m5"
    using off4 store32_back [of en _ m4 "kmem s1"] unfolding m5_def by (metis store32_other)
  moreover have "cstring m5 p (take (nat n - 1) xs)"
  proof -
    have "0 \<notin> set (take (nat n - 1) xs)" using assms(4) by (auto simp: user_string_def cstring_def dest: in_set_takeD)
    then have "cstring m4 p (take (nat n - 1) xs)" unfolding m4_def using len by (intro cstring_write_bytes) simp_all
    then show ?thesis
    proof (rule cstring_cong)
      fix x assume "in_range p (Suc (length (take (nat n - 1) xs))) x"
      then have "in_range p 4096 x" by (rule in_range_mono) (use len in simp)
      then have "\<not> in_range en 4 x" using e(1) [of x] unfolding en_def ld by blast
      then show "m5 x = m4 x" unfolding m5_def by (rule store32_other)
    qed
  qed
  ultimately show ?thesis unfolding d_def by blast
qed

text \<open>The state after the second copy and the release of the page, relative to the one before.\<close>

lemma copy_string_law:
  assumes "copy_ready t c buf n s" "0 < n" "n < 4096" "user_string c v xs s"
  shows "\<exists>s'. copy_string_from_task t v buf n s = (0, s') \<and> cstring (kmem s') buf (take (nat n - 1) xs)
    \<and> (\<forall>x. held s x \<longrightarrow> \<not> in_range buf (nat n) x \<longrightarrow> kmem s' x = kmem s x)
    \<and> s' = s\<lparr>cr3 := load32 (kmem s) (kernel_chunk s), current_directory := load32 (kmem s) (kernel_chunk s), kmem := kmem s'\<rparr>
    \<and> kheap_ok s' \<and> klive s' = klive s \<and> kavail s' = kavail s"
proof -
  note r = assms(1) [unfolded copy_ready_def]
  have r': "space_ok c s" "0 < kavail s" using r by simp_all
  define d where "d = load32 (kmem s) (kernel_chunk s)"
  have ok: "kheap_ok s" using r'(1) by (simp add: space_ok_def directory_ok_def)
  obtain p s1 where k: "kzalloc (word_of_int n) s = (p, s1)" by fastforce
  note a = window_allocated [OF r' assms(2,3) k]
  obtain m where m: "copy_string_from_task t v buf n s = (0, kfree p (s1\<lparr>cr3 := d, current_directory := d, kmem := strncpy m buf p n\<rparr>))"
    "off_page p (kmem s1) m" "cstring m p (take (nat n - 1) xs)"
    using copy_string_steps [OF assms k] unfolding d_def by blast
  let ?t = "take (nat n - 1) xs" and ?s6 = "s1\<lparr>cr3 := d, current_directory := d, kmem := strncpy m buf p n\<rparr>"
  have k1: "kheap_ok s1" "kavail s = Suc (kavail s1)"
    using kzalloc_page_extends(2,5) [OF ok r'(2) _ _ k] assms(2,3) unat_word_of_int_small [of n] by simp_all
  obtain m1 where m1: "s1 = s\<lparr>kmem := m1\<rparr>" using a(1) unfolding extends_def by blast
  then have heap: "kernel_heap s1 = kernel_heap s" "in_table s1 = in_table s" "in_pool s1 = in_pool s"
    by (simp_all add: in_table_def in_pool_def fun_eq_iff)
  have live: "klive s1 p = Some 1" using a(2) by simp
  have pool: "in_pool s x" "\<not> in_table s x" if "in_range p 4096 x" for x
    using klive_in_pool [OF k1(1) live, of x] that heap(2,3) by simp_all
  have buf: "\<not> in_pool s x" "\<not> in_table s x" if "in_range buf (nat n) x" for x using r that by blast+
  have nt: "length (?t @ [0]) \<le> nat n" "nat n \<le> 4096" using assms(2,3) by simp_all
  have "disjoint_ranges buf (nat n) p (min (nat n) (Suc (length ?t)))"
    unfolding disjoint_ranges_def using buf(1) pool(1) in_range_mono [of p "min (nat n) (Suc (length ?t))" _ 4096] nt(2) by (meson min.cobounded1 order_trans)
  then have "strncpy m buf p n = write_bytes m buf (take (nat (n - 1)) ?t @ [0])"
    using assms(2,3) by (intro strncpy_cstring [OF m(3)]) simp_all
  moreover have "nat (n - 1) = nat n - 1" by arith
  ultimately have m6: "strncpy m buf p n = write_bytes m buf (?t @ [0])" by simp
  have off: "kmem ?s6 x = kmem s1 x" if "\<not> in_range p 4096 x" "\<not> in_range buf (nat n) x" for x
  proof -
    have "\<not> in_range buf (length (?t @ [0])) x" using that(2) nt(1) in_range_mono by blast
    then show ?thesis using m(2) that(1) nt m6 by (simp add: write_bytes_apply)
  qed
  have h6: "kheap_ok ?s6 = kheap_ok s1" "klive ?s6 = klive s1" "kavail ?s6 = kavail s1"
  proof -
    have t: "kmem ?s6 x = kmem s1 x" if "in_range (entries (table (kernel_heap s1))) (heap_blocks (kernel_heap s1)) x" for x
      using that off [of x] buf(2) [of x] pool(2) [of x] heap(1) unfolding in_table_def by auto
    show "kheap_ok ?s6 = kheap_ok s1" "klive ?s6 = klive s1" "kavail ?s6 = kavail s1"
      by (rule kheap_cong [OF _ t], simp, assumption)+
  qed
  let ?s' = "kfree p ?s6"
  have "freed ?s6 {p} ?s'"
    using freed_insert [OF freed_refl, of ?s6 p 1] h6(1,2) k1(1) live by simp
  then have f: "kheap_ok ?s'" "?s' = ?s6\<lparr>kmem := kmem ?s'\<rparr>" "klive ?s' = (\<lambda>q. if q \<in> {p} then None else klive ?s6 q)"
    "kavail ?s' = kavail ?s6 + 1" "\<And>x. \<not> in_table ?s6 x \<Longrightarrow> kmem ?s' x = kmem ?s6 x"
    using h6(2) live unfolding freed_def by simp_all
  have tab: "in_table ?s6 = in_table s" using heap(2) by (simp add: in_table_def fun_eq_iff heap)
  have "0 \<notin> set ?t" using m(3) by (simp add: cstring_def)
  then have "cstring (kmem ?s6) buf ?t" using nt m6 by (simp del: append.simps add: cstring_write_bytes)
  then have str: "cstring (kmem ?s') buf ?t"
    by (rule cstring_cong) (rule f(5), use buf(2) nt tab in_range_mono [of buf "Suc (length ?t)" _ "nat n"] in auto)
  have mem: "kmem ?s' x = kmem s x" if "held s x" "\<not> in_range buf (nat n) x" for x
    using f(5) [of x] off [OF a(11) [OF that(1)] that(2)] extends_mem [OF a(1) that(1)] that(1) tab by (simp add: held_def)
  have "klive ?s' = klive s" unfolding f(3) h6(2) a(2) using a(3) by (auto simp: fun_eq_iff)
  moreover have "kavail ?s' = kavail s" using f(4) h6(3) k1(2) by simp
  moreover have "?s' = s\<lparr>cr3 := d, current_directory := d, kmem := kmem ?s'\<rparr>"
    by (subst f(2), subst m1) simp
  ultimately show ?thesis using m(1) str mem f(1) unfolding d_def by blast
qed

end
