(* ===== verification/Syscalls.thy ===== *)
theory Syscalls
  imports Isr80h Usercopy
begin

text \<open>
  System calls from the program's side to the kernel's: the string that a program passes to \<open>print\<close>
  appears on the screen.
\<close>

section \<open>A task with a string\<close>

text \<open>Addresses between the block table and the pool.\<close>

definition low :: "addr \<Rightarrow> bool" where
  "low x \<longleftrightarrow> 0xE200 \<le> unat x \<and> unat x < 0x1000000"

lemma booted_low:
  assumes "kernel_heap s = kernel_heap booted" "low x"
  shows "\<not> in_pool s x" "\<not> in_table s x" "held s x"
  using assms(2) by (auto simp: low_def held_def in_table_def in_pool_def assms(1) booted_def demo_state_def boot_state_def
      kheap_init_eq heap_blocks_def in_range_unat)

text \<open>A memory that differs at low addresses only has the same heap and the same address spaces.\<close>

lemma low_write:
  fixes s s' :: "'a kheap_state_scheme"
  assumes "kernel_heap s = kernel_heap booted" "kernel_heap s' = kernel_heap s" "space_ok c s" "\<And>x. \<not> low x \<Longrightarrow> kmem s' x = kmem s x"
  shows "space_ok c s'" "space_pages c s' = space_pages c s" "klive s' = klive s" "kavail s' = kavail s"
    "unat va mod 4096 = 0 \<Longrightarrow> space_lookup c va s' = space_lookup c va s"
    "klive s q = Some n \<Longrightarrow> in_range q (n * 4096) x \<Longrightarrow> kmem s' x = kmem s x"
proof -
  have ok: "kheap_ok s" using assms(3) by (simp add: space_ok_def directory_ok_def)
  have t: "kmem s' x = kmem s x" if "in_range (entries (table (kernel_heap s))) (heap_blocks (kernel_heap s)) x" for x
    using that booted_low(2) [OF assms(1), of x] assms(4) [of x] unfolding in_table_def by blast
  have h: "kheap_ok s' = kheap_ok s" "klive s' = klive s" "kavail s' = kavail s"
    by (rule kheap_cong [OF assms(2) t], assumption)+
  then show "klive s' = klive s" "kavail s' = kavail s" by simp_all
  show m: "kmem s' x = kmem s x" if "klive s q = Some n" "in_range q (n * 4096) x" for q n x
    using klive_in_pool(1) [OF ok that] booted_low(1) [OF assms(1)] assms(4) by blast
  have l: "klive s' q = Some 1" if "q \<in> space_pages c s" for q using space_live [OF assms(3) that] h(2) by simp
  have k: "kmem s' x = kmem s x" if "q \<in> space_pages c s" "in_range q 4096 x" for q x
    by (rule m [OF space_live [OF assms(3) that(1)]]) (use that(2) in simp)
  have ok': "kheap_ok s'" using ok h(1) by simp
  show "space_ok c s'" "space_pages c s' = space_pages c s"
    by (rule space_cong [OF assms(3) ok']; blast intro: l k)+
  show "space_lookup c va s' = space_lookup c va s" if "unat va mod 4096 = 0"
    by (rule space_cong(3) [OF assms(3) ok' _ _ that]; blast intro: l k)
qed

text \<open>The identity mapping of a new space.\<close>

lemma identity_physical:
  assumes "\<And>va. unat va mod 4096 = 0 \<Longrightarrow> space_lookup c va s = va OR 5"
  shows "physical (load32 (kmem s) c) s x = x"
proof -
  let ?l = "paging_align_to_lower_page x"
  obtain k where k: "k < 4096" "x = ?l + of_nat k" using in_lower_page by (rule in_rangeE)
  have "physical (load32 (kmem s) c) s (?l + of_nat k) = ?l + of_nat k"
    by (rule lookup_physical [of _ ?l s ?l 5])
      (use assms [OF lower_page_aligned] lower_page_aligned k(1) in \<open>simp_all add: space_lookup_def\<close>)
  then show ?thesis using k(2) by simp
qed

definition hi_mem :: "mem \<Rightarrow> mem" where
  "hi_mem m = store32 (m(0x400000 := 0x48, 0x400001 := 0x49, 0x400002 := 0)) 0x3FF000 0x400000"

lemma hi_mem:
  "\<not> low x \<Longrightarrow> hi_mem m x = m x" "cstring (hi_mem m) 0x400000 [0x48, 0x49]" "load32 (hi_mem m) 0x3FF000 = 0x400000"
proof -
  show "hi_mem m x = m x" if "\<not> low x"
  proof -
    have "\<not> in_range 0x3FF000 4 x" "x \<noteq> 0x400000" "x \<noteq> 0x400001" "x \<noteq> 0x400002"
      using that by (auto simp: low_def in_range_unat)
    then show ?thesis by (simp add: hi_mem_def store32_other)
  qed
  show "cstring (hi_mem m) 0x400000 [0x48, 0x49]" by (simp add: hi_mem_def store32_other in_range_unat)
  show "load32 (hi_mem m) 0x3FF000 = 0x400000" by (simp add: hi_mem_def)
qed

text \<open>A booted kernel with one task, whose stack points to the string, and a page for the kernel's own space.\<close>

definition printing :: "addr \<Rightarrow> addr \<Rightarrow> sim_drive task_state \<Rightarrow> bool" where
  "printing t c s \<longleftrightarrow> copy_ready t c 0x600000 1024 s \<and> user_string c 0x400000 [0x48, 0x49] s
     \<and> load32 (\<lambda>x. kmem s (physical (load32 (kmem s) c) s x)) (get_field t reg_esp s) = 0x400000
     \<and> current_task s = t \<and> kernel_stack s = 0x600000 \<and> video_memory s = 0xB8000 \<and> terminal_row s = 0 \<and> terminal_col s = 0"

lemma printing_state: "\<exists>t c s. printing t c s"
proof -
  obtain t s1 where t: "kzalloc sizeof_task booted = (t, s1)" by fastforce
  note k1 = kzalloc_page_extends [OF booted_heap(1) _ _ _ t]
  have k1': "extends booted s1" "kheap_ok s1" "klive booted t = None" "klive s1 = (klive booted)(t \<mapsto> 1)" "kavail s1 = 25599"
    using k1(1-5) booted_heap(2) by (simp_all add: sizeof_task_def)
  have "fresh_page booted t s1" "1026 \<le> kavail s1" using k1' by (simp_all add: fresh_page_def)
  from task_init_law [OF this booted_program] obtain c s2 where c: "task_space booted t c s2" "get_field t task_page_directory s2 = c"
    "task_ready t 0x200000 (program_entry 0x200000 booted) s2" "kavail s1 = kavail s2 + 1026" by blast
  have s2: "extends booted s2" "kheap_ok s2" "klive s2 t = Some 1" "space_ok c s2" "t \<notin> space_pages c s2"
    "\<And>va. unat va mod 4096 = 0 \<Longrightarrow> space_lookup c va s2 = va OR 5"
    using c(1) by (simp_all add: task_space_def fresh_page_def)
  have avail2: "0 < kavail s2" using c(4) k1'(5) by simp
  obtain k s3 where k: "kzalloc (word_of_int 4) s2 = (k, s3)" by fastforce
  note a = window_allocated [OF s2(4) avail2 _ _ k]
  have s3: "extends s2 s3" "klive s3 = (klive s2)(k \<mapsto> 1)" "klive s2 k = None" "space_ok c s3" "k \<notin> space_pages c s3"
    "space_pages c s3 = space_pages c s2" "\<And>va. unat va mod 4096 = 0 \<Longrightarrow> space_lookup c va s3 = space_lookup c va s2"
    using a(1-3,6,7,9,10) by simp_all
  have "kheap_ok s3" using s3(4) by (simp add: space_ok_def directory_ok_def)
  have avail3: "0 < kavail s3"
    using kzalloc_page_extends(5) [OF s2(2) avail2 _ _ k] c(4) k1'(5) by simp
  let ?s = "s3\<lparr>kernel_chunk := k, current_task := t, kmem := hi_mem (kmem s3)\<rparr>"
  have h3: "kernel_heap s3 = kernel_heap booted" using extends_heap [OF s3(1)] extends_heap [OF s2(1)] by simp
  have vars: "kernel_stack s3 = 0x600000" "video_memory s3 = 0xB8000" "terminal_row s3 = 0" "terminal_col s3 = 0"
  proof -
    obtain m2 m3 where "s2 = booted\<lparr>kmem := m2\<rparr>" "s3 = s2\<lparr>kmem := m3\<rparr>" using s2(1) s3(1) unfolding extends_def by metis
    then show "kernel_stack s3 = 0x600000" "video_memory s3 = 0xB8000" "terminal_row s3 = 0" "terminal_col s3 = 0"
      by (simp_all add: booted_def demo_state_def)
  qed
  note w = low_write [OF h3 _ s3(4), of ?s]
  have w': "space_ok c ?s" "space_pages c ?s = space_pages c s3" "klive ?s = klive s3" "kavail ?s = kavail s3"
    "\<And>va. unat va mod 4096 = 0 \<Longrightarrow> space_lookup c va ?s = va OR 5"
    "\<And>q n x. klive s3 q = Some n \<Longrightarrow> in_range q (n * 4096) x \<Longrightarrow> kmem ?s x = kmem s3 x"
    using w hi_mem(1) s3(7) s2(6) by simp_all
  have hs: "kernel_heap ?s = kernel_heap booted" using h3 by simp
  have live: "klive s3 t = Some 1" "klive s3 k = Some 1" "t \<notin> space_pages c s3" using extends_live [OF s3(1) s2(3)] s3(2,6) s2(5) by simp_all
  have f: "get_field t i ?s = get_field t i s2" if "unat i < 1024" for i
  proof -
    have "get_field t i ?s = get_field t i s3"
      by (rule get_field_cong [where n = 1024]) (use w'(6) [OF live(1)] that in simp_all)
    then show ?thesis using extends_field [OF s3(1) s2(2,3) that] by simp
  qed
  have buf: "\<not> in_pool ?s x \<and> \<not> in_table ?s x" if "in_range 0x600000 1024 x" for x
  proof -
    have "low x" using that by (auto simp: low_def in_range_unat)
    then show ?thesis using booted_low(1,2) [OF hs] by blast
  qed
  have "copy_ready t c 0x600000 1024 ?s"
    using w'(1-4) live avail3 buf f [of task_page_directory] c(2) s3(5) by (simp add: copy_ready_def task_page_directory_def)
  moreover have phys: "physical (load32 (kmem ?s) c) ?s x = x" for x
    by (rule identity_physical) (rule w'(5))
  have "user_string c 0x400000 [0x48, 0x49] ?s"
  proof -
    have "held ?s x \<and> \<not> table_pages c ?s x" if "in_range 0x400000 (Suc (length [0x48, 0x49 :: u8])) x" for x
    proof -
      have x: "low x" using that by (auto simp: low_def in_range_unat)
      have "\<not> in_range q 4096 x" if "q \<in> space_pages c ?s" for q
        using klive_in_pool(1) [of ?s q 1 x] space_live [OF w'(1) that] w'(1) booted_low(1) [OF hs x]
        by (auto simp: space_ok_def directory_ok_def)
      then show ?thesis using booted_low(3) [OF hs x] by (auto simp: table_pages_def space_pages_def)
    qed
    then show ?thesis using hi_mem(2) by (simp only: user_string_def phys) simp
  qed
  moreover have "load32 (\<lambda>x. kmem ?s (physical (load32 (kmem ?s) c) ?s x)) (get_field t reg_esp ?s) = 0x400000"
    unfolding phys using f [of reg_esp] c(3) hi_mem(3)
    by (simp add: task_ready_def ALPHAOS_PROGRAM_VIRTUAL_STACK_ADDRESS_START_def reg_esp_def)
  ultimately have "printing t c ?s" using vars by (simp add: printing_def)
  then show ?thesis by blast
qed

section \<open>The print call\<close>

text \<open>
  Reading a stack item leaves the kernel's own directory in force and changes nothing else; the string and the
  readiness of the copy do not depend on the directory in force.
\<close>

abbreviation kernel_directory :: "('d, 'a) task_state_scheme \<Rightarrow> ('d, 'a) task_state_scheme" where
  "kernel_directory s \<equiv> s\<lparr>cr3 := load32 (kmem s) (kernel_chunk s), current_directory := load32 (kmem s) (kernel_chunk s)\<rparr>"

lemma task_get_stack_item_first:
  assumes "get_field t task_page_directory s = c"
    "load32 (\<lambda>x. kmem s (physical (load32 (kmem s) c) s x)) (get_field t reg_esp s) = v"
  shows "task_get_stack_item t 0 s = (v, kernel_directory s)"
proof -
  let ?s = "s\<lparr>cr3 := load32 (kmem s) c, current_directory := load32 (kmem s) c\<rparr>"
  have p: "task_page_task t s = (0, ?s)"
    using assms(1) by (simp add: task_page_task_def paging_switch_def paging_load_directory_def Let_def)
  have "load_virtual ?s = (\<lambda>x. kmem s (physical (load32 (kmem s) c) s x))"
    using physical_kmem [of ?s s] by (simp add: load_virtual_def fun_eq_iff)
  moreover have "kernel_page ?s = kernel_directory s"
    by (simp add: kernel_page_def paging_switch_def paging_load_directory_def Let_def)
  ultimately show ?thesis using assms(2) by (simp add: task_get_stack_item_def p)
qed

lemma kernel_directory_held: "held (kernel_directory s) x = held s x"
proof -
  have "klive (kernel_directory s) = klive s" by (rule kheap_cong) simp_all
  then show ?thesis by (simp add: held_def live_bytes_def in_pool_def in_table_def)
qed

lemma kernel_directory_ready:
  "user_string c v xs (kernel_directory s) = user_string c v xs s" (is ?U)
  "copy_ready t c buf n s \<Longrightarrow> copy_ready t c buf n (kernel_directory s)"
proof -
  let ?s = "kernel_directory s"
  have h: "kheap_ok ?s = kheap_ok s" "klive ?s = klive s" "kavail ?s = kavail s" by (rule kheap_cong; simp)+
  have p: "physical d ?s x = physical d s x" for d x by (rule physical_kmem) simp
  have tp: "space_pages c ?s = space_pages c s" by (simp add: space_pages_def table_of_def)
  have hd: "held ?s x = held s x" "in_pool ?s x = in_pool s x" "in_table ?s x = in_table s x" for x
    by (simp_all add: kernel_directory_held in_pool_def in_table_def)
  show ?U using p hd tp by (simp add: user_string_def table_pages_def table_of_def)
  show "copy_ready t c buf n ?s" if "copy_ready t c buf n s"
  proof -
    have r: "space_ok c s" using that by (simp add: copy_ready_def)
    then have "space_ok c ?s"
      by (rule space_cong(1)) (use r h(1,2) space_live [OF r] in \<open>simp_all add: space_ok_def directory_ok_def\<close>)
    then show ?thesis using that h hd tp by (simp add: copy_ready_def get_field_def)
  qed
qed

section \<open>Properties\<close>

text \<open>
  C37: a string of a program reaches the kernel's buffer as it is, cut to the size of the buffer. Afterwards the
  kernel's own directory is in force, the address space of the task is exactly what it was, the borrowed page
  is free again, and nothing but the buffer has changed in memory.
\<close>

theorem copy_string_delivers:
  assumes "copy_ready t c buf n s" "0 < n" "n < 4096" "user_string c v xs s"
  shows "\<exists>s'. copy_string_from_task t v buf n s = (0, s') \<and> cstring (kmem s') buf (take (nat n - 1) xs)
    \<and> (\<forall>x. held s x \<longrightarrow> \<not> in_range buf (nat n) x \<longrightarrow> kmem s' x = kmem s x)
    \<and> klive s' = klive s \<and> kavail s' = kavail s \<and> current_directory s' = load32 (kmem s) (kernel_chunk s)
    \<and> space_ok c s' \<and> (\<forall>va. unat va mod 4096 = 0 \<longrightarrow> space_lookup c va s' = space_lookup c va s)"
proof -
  note r = assms(1) [unfolded copy_ready_def]
  have sp: "space_ok c s" using r by simp
  then have ok: "kheap_ok s" by (simp add: space_ok_def directory_ok_def)
  obtain s' where s': "copy_string_from_task t v buf n s = (0, s')" "cstring (kmem s') buf (take (nat n - 1) xs)"
    "\<forall>x. held s x \<longrightarrow> \<not> in_range buf (nat n) x \<longrightarrow> kmem s' x = kmem s x"
    "s' = s\<lparr>cr3 := load32 (kmem s) (kernel_chunk s), current_directory := load32 (kmem s) (kernel_chunk s), kmem := kmem s'\<rparr>"
    "kheap_ok s'" "klive s' = klive s" "kavail s' = kavail s"
    using copy_string_law [OF assms] by blast
  have live: "klive s' q = Some 1" if "q \<in> space_pages c s" for q using space_live [OF sp that] s'(6) by simp
  have mem: "kmem s' x = kmem s x" if "q \<in> space_pages c s" "in_range q 4096 x" for q x
  proof -
    have x: "in_range q (1 * 4096) x" using that(2) by simp
    have "\<not> in_range buf (nat n) x" using klive_in_pool(1) [OF ok space_live [OF sp that(1)] x] r by blast
    then show ?thesis using s'(3) held_page [OF ok space_live [OF sp that(1)] x] by blast
  qed
  have "space_ok c s'" by (rule space_cong(1) [OF sp s'(5)]; blast intro: live mem)
  moreover have "space_lookup c va s' = space_lookup c va s" if "unat va mod 4096 = 0" for va
    by (rule space_cong(3) [OF sp s'(5) _ _ that]; blast intro: live mem)
  moreover have "current_directory s' = load32 (kmem s) (kernel_chunk s)" by (subst s'(4)) simp
  ultimately show ?thesis using s'(1,2,3,6,7) by blast
qed

theorem copy_string_delivers_witness:
  "\<exists>(s :: sim_drive task_state) t c s'. copy_string_from_task t 0x400000 0x600000 1024 s = (0, s')
    \<and> cstring (kmem s') 0x600000 [0x48, 0x49] \<and> klive s' = klive s"
proof -
  obtain t c and s :: "sim_drive task_state" where "printing t c s" using printing_state by blast
  then have s: "copy_ready t c 0x600000 1024 s" "user_string c 0x400000 [0x48, 0x49] s" by (simp_all add: printing_def)
  have n: "(0 :: int) < 1024" "(1024 :: int) < 4096" by simp_all
  obtain s' where "copy_string_from_task t 0x400000 0x600000 1024 s = (0, s')"
    "cstring (kmem s') 0x600000 (take (nat 1024 - 1) [0x48, 0x49])" "klive s' = klive s"
    using copy_string_delivers [OF s(1) n s(2)] by blast
  then show ?thesis by (intro exI [of _ s] exI [of _ t] exI [of _ c] exI [of _ s']) simp
qed

text \<open>
  C38: the system call \<open>print\<close> returns 0 and shows the string whose address is on top of the caller's stack,
  if its characters are glyphs (neither newline nor backspace), cut to
  the 1023 characters of the kernel's buffer, from the cursor on; the cursor ends behind it and no byte that
  belongs to an allocation or is otherwise held changes, the buffer and those cells apart.
\<close>

theorem print_call_shows:
  fixes s :: "('d, 'a) task_state_scheme"
  assumes "copy_ready (current_task s) c (buf_local s) 1024 s" "user_string c v xs s" "\<forall>x \<in> set xs. glyph x"
    "load32 (\<lambda>x. kmem s (physical (load32 (kmem s) c) s x)) (get_field (current_task s) reg_esp s) = v"
    "video_memory s = 0xB8000" "unat (terminal_col s) < 80" "cursor s + 1023 < 64000"
    "disjoint_ranges (buf_local s) 1024 (0xB8000 + of_nat (2 * cursor s)) (2 * 1023)"
  shows "\<exists>s'. isr80h_command1_print s = Some (Return 0, s')
    \<and> (\<forall>i < min 1023 (length xs). cell_at (kmem s') (cursor s + i) = terminal_make_char (xs ! i) 15)
    \<and> cursor s' = cursor s + min 1023 (length xs)
    \<and> (\<forall>x. held s x \<longrightarrow> \<not> in_range (buf_local s) 1024 x \<longrightarrow> \<not> in_range (0xB8000 + of_nat (2 * cursor s)) (2 * 1023) x
         \<longrightarrow> kmem s' x = kmem s x)"
proof -
  let ?t = "take 1023 xs" and ?l = "min 1023 (length xs)" and ?s = "kernel_directory s" and ?b = "buf_local s"
  have n: "(0 :: int) < 1024" "(1024 :: int) < 4096" "nat (1024 :: int) = 1024" by simp_all
  have item: "task_get_stack_item (current_task s) 0 s = (v, ?s)"
    using assms(1) by (intro task_get_stack_item_first [of _ s c]) (simp_all add: copy_ready_def assms(4))
  have u: "user_string c v xs ?s" using assms(2) kernel_directory_ready(1) by blast
  obtain s2 where s2: "copy_string_from_task (current_task s) v ?b 1024 ?s = (0, s2)" "cstring (kmem s2) ?b ?t"
    "\<forall>x. held ?s x \<longrightarrow> \<not> in_range ?b 1024 x \<longrightarrow> kmem s2 x = kmem ?s x"
    "s2 = ?s\<lparr>cr3 := load32 (kmem s) (kernel_chunk s), current_directory := load32 (kmem s) (kernel_chunk s), kmem := kmem s2\<rparr>"
    using copy_string_law [OF kernel_directory_ready(2) [OF assms(1)] n(1,2) u] by (auto simp: n(3))
  obtain m where m: "s2 = s\<lparr>cr3 := load32 (kmem s) (kernel_chunk s), current_directory := load32 (kmem s) (kernel_chunk s), kmem := m\<rparr>"
    using s2(4) by simp
  have scr: "video_memory s2 = 0xB8000" "unat (terminal_col s2) < 80" "cursor s2 = cursor s" "kernel_stack s2 = kernel_stack s"
    using assms(5,6) unfolding m by (simp_all add: cursor_def)
  have len: "length ?t = ?l" by simp
  have cur: "cursor s2 + length ?t < 64000" using assms(7) scr(3) by simp
  have sub: "in_range a (2 * 1023) x" if "in_range a (2 * ?l) x" for a x
    using that by (rule in_range_mono) simp
  have dis: "disjoint_ranges ?b (Suc (length ?t)) (0xB8000 + of_nat (2 * cursor s2)) (2 * length ?t)"
    unfolding scr(3) len by (rule disjoint_ranges_mono [OF assms(8)]) simp_all
  have g: "\<forall>x \<in> set ?t. glyph x" using assms(3) by (meson in_set_takeD)
  obtain s3 where s3: "print ?b s2 = Some s3"
    "\<forall>i < length ?t. cell_at (kmem s3) (cursor s2 + i) = terminal_make_char (?t ! i) 15"
    "same_but (cursor s2) (length ?t) (kmem s2) (kmem s3)" "cursor s3 = cursor s2 + length ?t"
    using print_string_law [OF s2(2) g scr(1,2) cur dis] by blast
  have "buf_local ?s = ?b" "current_task ?s = current_task s" "buf_local s2 = ?b" using scr(4) by (simp_all add: buf_local_def)
  then have "isr80h_command1_print s = Some (Return 0, s3)"
    by (simp add: isr80h_command1_print_def item s2(1) s3(1))
  moreover have "kmem s3 x = kmem s x"
    if "held s x" "\<not> in_range ?b 1024 x" "\<not> in_range (0xB8000 + of_nat (2 * cursor s)) (2 * 1023) x" for x
  proof -
    have "held ?s x" using that(1) kernel_directory_held by blast
    then have "kmem s2 x = kmem s x" using s2(3) that(2) by simp
    then show ?thesis using s3(3) that(3) sub unfolding same_but_def len scr(3) by metis
  qed
  ultimately show ?thesis using s3(2,4) len scr(3) by (intro exI [of _ s3]) simp
qed

theorem print_call_shows_witness:
  "\<exists>(s :: sim_drive task_state) s'. isr80h_command1_print s = Some (Return 0, s')
    \<and> cell_at (kmem s') 0 = 0x0F48 \<and> cell_at (kmem s') 1 = 0x0F49 \<and> cursor s' = 2"
proof -
  obtain t c and s :: "sim_drive task_state" where "printing t c s" using printing_state by blast
  then have s: "copy_ready (current_task s) c (buf_local s) 1024 s" "user_string c 0x400000 [0x48, 0x49] s"
    "load32 (\<lambda>x. kmem s (physical (load32 (kmem s) c) s x)) (get_field (current_task s) reg_esp s) = 0x400000"
    "video_memory s = 0xB8000" "cursor s = 0" "terminal_col s = 0" "buf_local s = 0x600000"
    by (auto simp: printing_def buf_local_def cursor_def)
  have "disjoint_ranges 0x600000 1024 0xB8000 (2 * 1023)" by (rule disjoint_ranges_sym, rule disjoint_ranges_unat) simp_all
  then obtain s' where s': "isr80h_command1_print s = Some (Return 0, s')"
    "\<forall>i < 2. cell_at (kmem s') i = terminal_make_char ([0x48, 0x49] ! i) 15" "cursor s' = 2"
    using print_call_shows [OF s(1,2) _ s(3,4)] s(5-7) by (auto simp: glyph_def)
  have "cell_at (kmem s') 0 = 0x0F48" "cell_at (kmem s') 1 = 0x0F49"
    using s'(2) by (auto simp: terminal_make_char_def dest: spec [of _ 0] spec [of _ 1])
  then show ?thesis using s'(1,3) by blast
qed

end
