(* ===== verification/Mount.thy ===== *)
theory Mount
  imports File
begin

text \<open>
  Mounting the boot disk: \<open>fat16_resolve\<close> of \<^verbatim>\<open>fs/fat/fat16.c\<close>, which allocates the private data and the
  streams of a disk, reads the header and the root directory into them and counts its entries.
\<close>

section \<open>States that differ in more than memory\<close>

text \<open>
  \<open>grows s0 s\<close>: from \<open>s0\<close> to \<open>s\<close> memory was only allocated and written where it was new; other components of
  the state may have changed.
\<close>

definition core :: "'a kheap_state_scheme \<Rightarrow> kheap_state" where
  "core s = \<lparr>kmem = kmem s, kernel_heap = kernel_heap s\<rparr>"

lemma core [simp]:
  "kmem (core s) = kmem s" "kernel_heap (core s) = kernel_heap s" "kheap_ok (core s) = kheap_ok s" "klive (core s) = klive s"
  "kavail (core s) = kavail s" "held (core s) x = held s x" "core (s\<lparr>kmem := m\<rparr>) = (core s)\<lparr>kmem := m\<rparr>"
  by (simp_all add: core_def kheap_defs held_def in_table_def in_pool_def live_bytes_def)

definition grows :: "'a kheap_state_scheme \<Rightarrow> 'b kheap_state_scheme \<Rightarrow> bool" where
  "grows s0 s \<longleftrightarrow> extends (core s0) (core s)"

lemma core_cong: "kmem s' = kmem s \<Longrightarrow> kernel_heap s' = kernel_heap s \<Longrightarrow> core s' = core s"
  by (simp add: core_def)

lemma grows_refl: "grows s s"
  by (simp add: grows_def extends_refl)

lemma grows_trans: "grows s t \<Longrightarrow> grows t u \<Longrightarrow> grows s u"
  unfolding grows_def by (rule extends_trans)

lemma grows_cong:
  assumes "kmem s' = kmem s" "kernel_heap s' = kernel_heap s"
  shows "grows s0 s' = grows s0 s"
  unfolding grows_def core_cong [OF assms] ..

lemma extends_grows: "extends s s' \<Longrightarrow> grows s s'"
proof -
  assume e: "extends s s'"
  then have c: "core s' = (core s)\<lparr>kmem := kmem s'\<rparr>" using extends_heap [OF e] by (simp add: core_def)
  show ?thesis
    unfolding grows_def extends_def
  proof (intro conjI)
    show "core s' = (core s)\<lparr>kmem := kmem (core s')\<rparr>" using c by simp
    show "klive (core s) \<subseteq>\<^sub>m klive (core s')" using e unfolding extends_def core by blast
    show "\<forall>x. held (core s) x \<longrightarrow> kmem (core s') x = kmem (core s) x" using e unfolding extends_def core by blast
  qed
qed

lemma growsD:
  assumes "grows s s'"
  shows "kernel_heap s' = kernel_heap s" "klive s p = Some n \<Longrightarrow> klive s' p = Some n" "held s x \<Longrightarrow> kmem s' x = kmem s x"
  using assms extends_heap [of "core s" "core s'"] extends_live [of "core s" "core s'" p n] extends_mem [of "core s" "core s'" x]
  by (simp_all add: grows_def)

lemma grows_store:
  assumes "kheap_ok s" "klive s p = Some n" "grows s0 s" "klive s0 p = None" "kernel_heap s' = kernel_heap s"
    "\<forall>x. \<not> in_range p (n * 4096) x \<longrightarrow> kmem s' x = kmem s x"
  shows "grows s0 s'" "kheap_ok s'" "klive s' = klive s" "kavail s' = kavail s"
proof -
  have "core s' = (core s)\<lparr>kmem := kmem s'\<rparr>" using assms(5) by (simp add: core_def)
  moreover have c: "kheap_ok (core s)" "klive (core s) p = Some n" "extends (core s0) (core s)" "klive (core s0) p = None"
    using assms(1-4) by (simp_all add: grows_def)
  have "extends (core s0) (core s\<lparr>kmem := kmem s'\<rparr>)" "kheap_ok (core s\<lparr>kmem := kmem s'\<rparr>)"
    "klive (core s\<lparr>kmem := kmem s'\<rparr>) = klive (core s)" "kavail (core s\<lparr>kmem := kmem s'\<rparr>) = kavail (core s)"
    using assms(6) by (intro store_extends [OF c]; simp)+
  ultimately have "extends (core s0) (core s')" "kheap_ok (core s')" "klive (core s') = klive (core s)" "kavail (core s') = kavail (core s)"
    by simp_all
  then show "grows s0 s'" "kheap_ok s'" "klive s' = klive s" "kavail s' = kavail s" by (simp_all add: grows_def)
qed

lemma grows_page:
  assumes "kheap_ok s" "klive s q = Some n" "grows s s'" "in_range q (n * 4096) x"
  shows "kmem s' x = kmem s x"
  by (rule growsD(3) [OF assms(3) held_page [OF assms(1,2,4)]])

lemma same_core:
  assumes "kmem s' = kmem s" "kernel_heap s' = kernel_heap s"
  shows "kheap_ok s' = kheap_ok s" "klive s' = klive s" "kavail s' = kavail s" "get_field p i s' = get_field p i s"
  using core(3-5) [of s] core(3-5) [of s'] core_cong [OF assms] assms by (simp_all add: get_field_def)

section \<open>Streams\<close>

lemma new_stream:
  assumes "kheap_ok s" "0 < kavail s" "disk_var s \<noteq> NULL" "diskstreamer_new 0 s = (st, s')"
  shows "grows s s'" "kheap_ok s'" "klive s st = None" "klive s' = (klive s)(st \<mapsto> 1)" "kavail s = Suc (kavail s')" "st \<noteq> NULL"
    "\<exists>m. s' = s\<lparr>kmem := m, streams := (streams s)(st := \<lparr>stream_pos = 0, stream_disk = disk_var s\<rparr>)\<rparr>"
proof -
  obtain q s1 where q: "kzalloc 8 s = (q, s1)" by fastforce
  note k = kzalloc_page_extends [OF assms(1,2) _ _ q]
  have s': "st = q" "s' = s1\<lparr>streams := (streams s1)(q := \<lparr>stream_pos = 0, stream_disk = disk_var s\<rparr>)\<rparr>"
    using assms(3,4) q by (auto simp: diskstreamer_new_def disk_get_def)
  obtain m where m: "s1 = s\<lparr>kmem := m\<rparr>" using k(1) unfolding extends_def by auto
  have c: "kmem s' = kmem s1" "kernel_heap s' = kernel_heap s1" by (simp_all add: s')
  note h = same_core(1-3) [OF c]
  show "grows s s'" using extends_grows [of s s1] k(1) unfolding grows_cong [OF c] by simp
  show "kheap_ok s'" "klive s st = None" "klive s' = (klive s)(st \<mapsto> 1)" "kavail s = Suc (kavail s')" "st \<noteq> NULL"
    using k(2-6) h s'(1) by simp_all
  show "\<exists>m. s' = s\<lparr>kmem := m, streams := (streams s)(st := \<lparr>stream_pos = 0, stream_disk = disk_var s\<rparr>)\<rparr>"
    unfolding s' m by (intro exI [of _ m]) simp
qed

section \<open>The private data\<close>

text \<open>\<open>priv p s0 s\<close>: the page \<open>p\<close> is new since \<open>s0\<close>, and nothing older has been written.\<close>

definition priv :: "addr \<Rightarrow> 'a kheap_state_scheme \<Rightarrow> 'b kheap_state_scheme \<Rightarrow> bool" where
  "priv p s0 s \<longleftrightarrow> grows s0 s \<and> kheap_ok s \<and> klive s p = Some 1 \<and> klive s0 p = None"

lemma priv_cong: "kmem s' = kmem s \<Longrightarrow> kernel_heap s' = kernel_heap s \<Longrightarrow> priv p s0 s' = priv p s0 s"
  using same_core(1,2) [of s' s] grows_cong [of s' s s0] by (simp add: priv_def)

lemma priv_store:
  assumes "priv p s0 s" "kernel_heap s' = kernel_heap s" "\<forall>x. \<not> in_range p 4096 x \<longrightarrow> kmem s' x = kmem s x"
  shows "priv p s0 s'" "klive s' = klive s" "kavail s' = kavail s"
proof -
  have a: "kheap_ok s" "klive s p = Some 1" "grows s0 s" "klive s0 p = None" using assms(1) by (simp_all add: priv_def)
  note g = grows_store [OF a assms(2)]
  show "priv p s0 s'" "klive s' = klive s" "kavail s' = kavail s" using g a assms(3) by (simp_all add: priv_def)
qed

lemma priv_field:
  assumes "priv p s0 s" "unat i < 1024"
  shows "priv p s0 (set_field p i v s)" "klive (set_field p i v s) = klive s" "kavail (set_field p i v s) = kavail s"
  using priv_store [OF assms(1), of "set_field p i v s"] set_field_outside [of p 1024 _ i v s] assms(2) by simp_all

lemma priv_stream:
  assumes "priv p s0 s" "0 < kavail s" "disk_var s \<noteq> NULL" "diskstreamer_new 0 s = (st, s')"
  shows "priv p s0 s'" "klive s st = None" "klive s' = (klive s)(st \<mapsto> 1)" "kavail s = Suc (kavail s')" "st \<noteq> p" "klive s0 st = None"
    "\<exists>m. s' = s\<lparr>kmem := m, streams := (streams s)(st := \<lparr>stream_pos = 0, stream_disk = disk_var s\<rparr>)\<rparr>"
    "unat i < 1024 \<Longrightarrow> get_field p i s' = get_field p i s"
proof -
  have a: "kheap_ok s" "klive s p = Some 1" "grows s0 s" "klive s0 p = None" using assms(1) by (simp_all add: priv_def)
  note n = new_stream [OF a(1) assms(2-4)]
  show "priv p s0 s'" using a n(1,2) growsD(2) [OF n(1) a(2)] grows_trans [OF a(3) n(1)] by (simp add: priv_def)
  show "klive s st = None" "klive s' = (klive s)(st \<mapsto> 1)" "kavail s = Suc (kavail s')"
    "\<exists>m. s' = s\<lparr>kmem := m, streams := (streams s)(st := \<lparr>stream_pos = 0, stream_disk = disk_var s\<rparr>)\<rparr>" by (fact n)+
  then show "st \<noteq> p" using a(2) by auto
  show "klive s0 st = None" using growsD(2) [OF a(3), of st] n(3) by (cases "klive s0 st") auto
  show "unat i < 1024 \<Longrightarrow> get_field p i s' = get_field p i s"
    using grows_page [OF a(1,2) n(1)] by (intro get_field_cong [where n = 1024]) simp_all
qed

lemma set_field_disk [simp]:
  "disk_var (set_field p i v s) = disk_var s" "disks (set_field p i v s) = disks s" "streams (set_field p i v s) = streams s"
  "hw (set_field p i v s) = hw s" "stack_mem (set_field p i v s) = stack_mem s"
  by (simp_all add: set_field_def)

lemma init_private:
  assumes "priv p s0 s" "3 \<le> kavail s" "disk_var s \<noteq> NULL" "disk_ident (disks s disk) = 0"
  shows "\<exists>a b c m f. let s' = s\<lparr>kmem := m, streams := f\<rparr> in fat16_init_private disk p s = s' \<and> priv p s0 s'
    \<and> get_field p private_cluster_read_stream s' = a \<and> get_field p private_fat_read_stream s' = b
    \<and> get_field p private_directory_stream s' = c \<and> kavail s = kavail s' + 3 \<and> distinct [a, b, c, p]
    \<and> (\<forall>q \<in> {a, b, c}. klive s' q = Some 1 \<and> klive s0 q = None \<and> f q = \<lparr>stream_pos = 0, stream_disk = disk_var s\<rparr>)"
proof -
  let ?A = "s\<lparr>kmem := memset (kmem s) p 0 (unat sizeof_fat_private)\<rparr>"
  have out: "\<forall>x. \<not> in_range p 4096 x \<longrightarrow> kmem ?A x = kmem s x"
    using in_range_mono [of p 92 _ 4096] by (auto simp: memset_apply sizeof_fat_private_def)
  have A: "priv p s0 ?A" "klive ?A = klive s" "kavail ?A = kavail s" using priv_store [OF assms(1) _ out] by simp_all
  obtain a sB where b: "diskstreamer_new 0 ?A = (a, sB)" by fastforce
  have "0 < kavail ?A" "disk_var ?A \<noteq> NULL" using A(3) assms(2,3) by simp_all
  note B = priv_stream [OF A(1) this b]
  obtain mB where mB: "sB = s\<lparr>kmem := mB, streams := (streams s)(a := \<lparr>stream_pos = 0, stream_disk = disk_var s\<rparr>)\<rparr>"
    using B(7) by auto
  let ?C = "set_field p private_cluster_read_stream a sB"
  have C: "priv p s0 ?C" "klive ?C = klive sB" "kavail ?C = kavail sB" using priv_field [OF B(1)] by (simp_all add: fat_offsets)
  obtain b' sD where d: "diskstreamer_new 0 ?C = (b', sD)" by fastforce
  have "0 < kavail ?C" "disk_var ?C \<noteq> NULL" using A(3) B(4) C(3) assms(2,3) by (simp_all add: mB)
  note D = priv_stream [OF C(1) this d]
  let ?fD = "(streams s)(a := \<lparr>stream_pos = 0, stream_disk = disk_var s\<rparr>, b' := \<lparr>stream_pos = 0, stream_disk = disk_var s\<rparr>)"
  obtain mD where mD: "sD = s\<lparr>kmem := mD, streams := ?fD\<rparr>"
    using D(7) by (auto simp: mB set_field_def)
  let ?E = "set_field p private_fat_read_stream b' sD"
  have E: "priv p s0 ?E" "klive ?E = klive sD" "kavail ?E = kavail sD" using priv_field [OF D(1)] by (simp_all add: fat_offsets)
  obtain c sF where f: "diskstreamer_new 0 ?E = (c, sF)" by fastforce
  have "0 < kavail ?E" "disk_var ?E \<noteq> NULL" using A(3) B(4) C(3) D(4) E(3) assms(2,3) by (simp_all add: mD)
  note F = priv_stream [OF E(1) this f]
  obtain mF where mF: "sF = s\<lparr>kmem := mF, streams := ?fD(c := \<lparr>stream_pos = 0, stream_disk = disk_var s\<rparr>)\<rparr>"
    using F(7) by (auto simp: mD set_field_def)
  let ?G = "set_field p private_directory_stream c sF"
  have G: "priv p s0 ?G" "klive ?G = klive sF" "kavail ?G = kavail sF" using priv_field [OF F(1)] by (simp_all add: fat_offsets)
  have i: "disk_ident (disks ?A disk) = 0" "disk_ident (disks ?C disk) = 0" "disk_ident (disks ?E disk) = 0"
    using assms(4) by (simp_all add: mB mD set_field_def)
  have "fat16_init_private disk p s = ?G"
    unfolding fat16_init_private_def Let_def i(1) b prod.case i(2) d i(3) f ..
  moreover have "get_field p private_cluster_read_stream ?G = a" "get_field p private_fat_read_stream ?G = b'" "get_field p private_directory_stream ?G = c"
    using D(8) [of private_cluster_read_stream] F(8) [of private_cluster_read_stream] F(8) [of private_fat_read_stream]
    by (simp_all add: get_set_field fat_offsets)
  moreover have "distinct [a, b', c, p]" "\<forall>q \<in> {a, b', c}. klive ?G q = Some 1 \<and> klive s0 q = None"
    using B(2,3,5,6) C(2) D(2,3,5,6) E(2) F(2,3,5,6) G(2) by (auto split: if_splits)
  moreover have "kavail s = kavail ?G + 3" using A(3) B(4) C(3) D(4) E(3) F(4) G(3) by simp
  moreover have "?G = s\<lparr>kmem := kmem ?G, streams := ?fD(c := \<lparr>stream_pos = 0, stream_disk = disk_var s\<rparr>)\<rparr>"
    by (simp add: mF set_field_def)
  ultimately show ?thesis using G(1) unfolding Let_def
    by (intro exI [of _ a] exI [of _ b'] exI [of _ c] exI [of _ "kmem ?G"] exI [of _ "?fD(c := \<lparr>stream_pos = 0, stream_disk = disk_var s\<rparr>)"])
      simp
qed

section \<open>The root directory\<close>

text \<open>
  The layout a header describes: the sector of the root directory, its number of entries, and what the
  directory on the disk \<open>img\<close> holds: \<open>n\<close> used or deleted entries and an end. The positions fit the
  signed 32-bit arithmetic of the driver and the directory fits one page.
\<close>

definition root_layout :: "mem \<Rightarrow> addr \<Rightarrow> (nat \<Rightarrow> u8) \<Rightarrow> nat \<Rightarrow> nat \<Rightarrow> nat \<Rightarrow> bool" where
  "root_layout m p img rs e n \<longleftrightarrow>
     header_fat_copies m p * header_sectors_per_fat m p + header_reserved_sectors m p = int rs
     \<and> header_root_dir_entries m p = int e \<and> 0 < e \<and> e \<le> 128
     \<and> dir_ends img (rs * 512) n \<and> rs * 512 + 32 * Suc n < 2 ^ 31 \<and> rs * 512 + e * 32 < 2 ^ 31"

definition dir_sectors :: "nat \<Rightarrow> nat" where
  "dir_sectors e = e * 32 div 512 + (if e * 32 mod 512 \<noteq> 0 then 1 else 0)"

text \<open>What the mounted directory holds.\<close>

definition directory_read :: "addr \<Rightarrow> addr \<Rightarrow> (nat \<Rightarrow> u8) \<Rightarrow> nat \<Rightarrow> nat \<Rightarrow> nat \<Rightarrow> 'a kheap_state_scheme \<Rightarrow> bool" where
  "directory_read dr dir img rs e n s \<longleftrightarrow>
     get_field dr dir_item s = dir \<and> get_field dr dir_total s = of_nat (used_entries img (rs * 512) n)
     \<and> get_field dr dir_sector_pos s = of_nat rs \<and> get_field dr dir_ending_sector_pos s = of_nat (rs + dir_sectors e)
     \<and> (\<forall>i < e * 32. kmem s (dir + of_nat i) = img (rs * 512 + i))"

definition dir_fields :: "addr \<Rightarrow> addr \<Rightarrow> nat \<Rightarrow> nat \<Rightarrow> nat \<Rightarrow> 'a kheap_state_scheme \<Rightarrow> 'a kheap_state_scheme" where
  "dir_fields dr dir tot rs e s = set_field dr dir_ending_sector_pos (word_of_int (int rs + int (dir_sectors e)))
     (set_field dr dir_sector_pos (word_of_int (int rs)) (set_field dr dir_total (word_of_int (int tot)) (set_field dr dir_item dir s)))"

text \<open>The directory lies in the page of the private data.\<close>

lemma root_field:
  "set_field (private_root_directory p) i v s = set_field p (16 + i) v s" "get_field (private_root_directory p) i s = get_field p (16 + i) s"
  by (simp_all add: set_field_def get_field_def set_word_def word_at_def private_root_directory_def algebra_simps)

lemma priv_dir_fields:
  fixes dir :: addr and tot rs e :: nat
  assumes "priv p s0 s"
  defines "s' \<equiv> dir_fields (private_root_directory p) dir tot rs e s"
  shows "priv p s0 s'" "klive s' = klive s" "kavail s' = kavail s" "\<exists>m. s' = s\<lparr>kmem := m\<rparr>"
    "get_field (private_root_directory p) dir_item s' = dir" "get_field (private_root_directory p) dir_total s' = of_nat tot"
    "get_field (private_root_directory p) dir_sector_pos s' = of_nat rs"
    "get_field (private_root_directory p) dir_ending_sector_pos s' = of_nat (rs + dir_sectors e)"
    "\<not> in_range (p + 64) 16 x \<Longrightarrow> kmem s' x = kmem s x"
proof -
  note f1 = priv_field [OF assms(1), of 16 dir]
  note f2 = priv_field [OF f1(1), of 17 "word_of_int (int tot)"]
  note f3 = priv_field [OF f2(1), of 18 "word_of_int (int rs)"]
  note f4 = priv_field [OF f3(1), of 19 "word_of_int (int rs + int (dir_sectors e))"]
  have s': "s' = set_field p 19 (word_of_int (int rs + int (dir_sectors e))) (set_field p 18 (word_of_int (int rs))
      (set_field p 17 (word_of_int (int tot)) (set_field p 16 dir s)))"
    unfolding s'_def dir_fields_def root_field by (simp add: fat_offsets)
  show "priv p s0 s'" "klive s' = klive s" "kavail s' = kavail s" using f1 f2 f3 f4 by (simp_all add: s')
  show "\<exists>m. s' = s\<lparr>kmem := m\<rparr>" unfolding s' by (intro exI [of _ "kmem s'"]) (simp add: set_field_def s')
  show "get_field (private_root_directory p) dir_item s' = dir" "get_field (private_root_directory p) dir_total s' = of_nat tot"
    "get_field (private_root_directory p) dir_sector_pos s' = of_nat rs"
    "get_field (private_root_directory p) dir_ending_sector_pos s' = of_nat (rs + dir_sectors e)"
    unfolding root_field by (simp_all add: s' get_set_field fat_offsets)
  have out: "kmem (set_field p i v t) x = kmem t x" if "\<not> in_range (p + 64) 16 x" "i \<in> {16, 17, 18, 19}" for i v x and t :: "'b kheap_state_scheme"
  proof -
    have "set_field p i v t = set_field (p + 64) (i - 16) v t"
      by (simp add: set_field_def set_word_def algebra_simps)
    then show ?thesis using set_field_outside [of "p + 64" 4 x "i - 16" v t] that by auto
  qed
  show "\<not> in_range (p + 64) 16 x \<Longrightarrow> kmem s' x = kmem s x" by (simp add: s' out)
qed

lemma root_directory:
  assumes "ata_contract bus ata img" "priv p s0 s" "0 < kavail s" "ata_idle ata (hw s)" "disk_sector_size (disks s disk) = 512"
    "disk_fs_private (disks s disk) = p" "get_field p private_directory_stream s = c" "stream_disk (streams s c) = disk_var s"
    "root_layout (kmem s) p img rs e n"
  shows "\<exists>dir s'. fat16_get_root_directory bus disk p (private_root_directory p) s = Some (0, s')
    \<and> priv p s0 s' \<and> klive s dir = None \<and> klive s0 dir = None \<and> klive s' = (klive s)(dir \<mapsto> 1) \<and> kavail s = Suc (kavail s')
    \<and> directory_read (private_root_directory p) dir img rs e n s' \<and> ata_idle ata (hw s')
    \<and> (\<forall>x. in_range p 4096 x \<longrightarrow> \<not> in_range (p + 64) 16 x \<longrightarrow> kmem s' x = kmem s x)
    \<and> (\<exists>m f d. s' = s\<lparr>kmem := m, streams := f, hw := d\<rparr> \<and> (\<forall>q. q \<noteq> c \<longrightarrow> f q = streams s q) \<and> stream_disk (f c) = disk_var s)"
proof -
  have l: "header_fat_copies (kmem s) p * header_sectors_per_fat (kmem s) p + header_reserved_sectors (kmem s) p = int rs"
    "header_root_dir_entries (kmem s) p = int e" "0 < e" "e \<le> 128" "dir_ends img (rs * 512) n"
    "rs * 512 + 32 * Suc n < 2 ^ 31" "rs * 512 + e * 32 < 2 ^ 31"
    using assms(9) by (simp_all add: root_layout_def)
  obtain d1 where d1: "fat16_get_total_items_for_directory bus disk (of_nat rs) s =
      Some (int (used_entries img (rs * 512) n), advance c (rs * 512 + 32 * Suc n) d1 s)" "ata_idle ata d1"
    using fat16_total_items_law [OF assms(1,4,5) _ _ l(5,6), of c] assms(6-8) by auto
  let ?A = "advance c (rs * 512 + 32 * Suc n) d1 s"
  have cA: "kmem ?A = kmem s" "kernel_heap ?A = kernel_heap s" by (simp_all add: advance_def)
  note A = same_core(1-3) [OF cA]
  have pA: "priv p s0 ?A" using assms(2) unfolding priv_cong [OF cA] .
  obtain dir sB where z: "kzalloc (word_of_int (int e * 32)) ?A = (dir, sB)" by fastforce
  have "word_of_int (int e * 32) = (of_nat (e * 32) :: u32)" by simp
  then have sz: "unat (word_of_int (int e * 32) :: u32) = e * 32"
    using l(4) by (simp only: unat_of_nat) (simp add: take_bit_nat_eq_self)
  have okA: "kheap_ok ?A" "0 < kavail ?A" using pA A(3) assms(3) by (simp_all add: priv_def)
  note k = kzalloc_page_extends [OF okA _ _ z]
  have B: "extends ?A sB" "kheap_ok sB" "klive s dir = None" "klive sB = (klive s)(dir \<mapsto> 1)" "kavail s = Suc (kavail sB)" "dir \<noteq> NULL"
    using k(1-6) sz l(3,4) A by simp_all
  obtain mB where mB: "sB = ?A\<lparr>kmem := mB\<rparr>" using B(1) unfolding extends_def by auto
  have pa: "klive s p = Some 1" "klive s0 p = None" "grows s0 s" using assms(2) by (simp_all add: priv_def)
  have dp: "dir \<noteq> p" using B(3) pa(1) by auto
  have d0: "klive s0 dir = None" using growsD(2) [OF pa(3), of dir] B(3) by (cases "klive s0 dir") auto
  have gB: "grows s0 sB" by (rule grows_trans [OF _ extends_grows [OF B(1)]]) (use pA in \<open>simp only: priv_def\<close>)
  have pB: "priv p s0 sB" using gB B(2,4) pa dp by (simp add: priv_def)
  have pageB: "kmem sB x = kmem s x" if "in_range p 4096 x" for x
    using grows_page [OF okA(1) _ extends_grows [OF B(1)], of p 1 x] that pa(1) A(2) cA(1) by simp
  have cB: "get_field p private_directory_stream sB = c"
    using get_field_cong [of p 1024 sB s private_directory_stream] pageB assms(7) by (simp add: fat_offsets)
  have sd: "stream_disk (streams sB c) = disk_var sB" by (simp add: mB)
  have pos: "fat16_sector_to_absolute disk (int rs) sB = int (rs * 512)"
    using assms(5) l(7) s32_nat [of "rs * 512"] by (simp add: fat16_sector_to_absolute_def mB)
  let ?C = "advance c (rs * 512) (hw sB) sB"
  have "ata_idle ata (hw ?C)" "stream_at ?C c (rs * 512)" using d1(2) by (simp_all add: stream_at_advance mB)
  then obtain d2 where d2: "ata_idle ata d2" "diskstreamer_read bus c dir (int (e * 32)) (kmem ?C) ?C =
      Some (0, write_bytes (kmem sB) dir (disk_bytes img (rs * 512) (e * 32)), advance c (rs * 512 + e * 32) d2 ?C)"
    using diskstreamer_read_law [OF assms(1), of ?C c "rs * 512" "e * 32" dir "kmem ?C"] l(7) by auto
  let ?D = "(advance c (rs * 512 + e * 32) d2 ?C)\<lparr>kmem := write_bytes (kmem sB) dir (disk_bytes img (rs * 512) (e * 32))\<rparr>"
  let ?s' = "dir_fields (private_root_directory p) dir (used_entries img (rs * 512) n) rs e ?D"
  have live: "klive sB dir = Some 1" using B(4) by simp
  have outD: "\<forall>x. \<not> in_range dir (1 * 4096) x \<longrightarrow> kmem ?D x = kmem sB x"
    using in_range_mono [of dir "e * 32" _ 4096] l(4) by (auto simp: write_bytes_apply)
  have hD: "kernel_heap ?D = kernel_heap sB" by (simp add: advance_def)
  note D = grows_store [OF B(2) live gB d0 hD outD]
  have pD: "priv p s0 ?D" using D(1,2,3) B(4) pa dp by (simp add: priv_def)
  note f = priv_dir_fields [OF pD, where dir = dir and tot = "used_entries img (rs * 512) n" and rs = rs and e = e]
  have apart: "\<not> in_range p 4096 x" if "in_range dir 4096 x" for x
    using klive_page_disjoint [OF B(2) live, of p] B(4) pa(1) dp that by auto
  have sub: "in_range (p + 64) 16 x \<Longrightarrow> in_range p 4096 x" for x using in_range_sub [of p 64 16 x 4096] by simp
  have "kmem ?s' (dir + of_nat i) = img (rs * 512 + i)" if "i < e * 32" for i
  proof -
    have "in_range dir 4096 (dir + of_nat i)" using that l(4) by (intro in_range_nth) simp_all
    then have "\<not> in_range (p + 64) 16 (dir + of_nat i)" using apart sub by blast
    then have "kmem ?s' (dir + of_nat i) = kmem ?D (dir + of_nat i)" by (rule f(9))
    then show ?thesis using that l(4) write_bytes_nth [of i "disk_bytes img (rs * 512) (e * 32)" "kmem sB" dir]
      by (simp add: nth_disk_bytes)
  qed
  then have "directory_read (private_root_directory p) dir img rs e n ?s'" using f(5-8) by (simp add: directory_read_def)
  moreover have "kmem ?s' x = kmem s x" if "in_range p 4096 x" "\<not> in_range (p + 64) 16 x" for x
  proof -
    have "\<not> in_range dir 4096 x" using apart that(1) by blast
    then show ?thesis using f(9) [OF that(2)] outD pageB [OF that(1)] by simp
  qed
  moreover obtain m where m: "?s' = ?D\<lparr>kmem := m\<rparr>" using f(4) by blast
  moreover have "klive ?s' = (klive s)(dir \<mapsto> 1)" "kavail s = Suc (kavail ?s')" using f(2,3) D(3,4) B(4,5) by simp_all
  moreover have "fat16_get_root_directory bus disk p (private_root_directory p) s = Some (0, ?s')"
  proof -
    have sec: "cdiv (int e * 32) 512 + (if cmod (int e * 32) 512 \<noteq> 0 then 1 else 0) = int (dir_sectors e)"
    proof -
      have "cdiv (int e * 32) 512 = int (e * 32 div 512)" "cmod (int e * 32) 512 = int (e * 32 mod 512)"
        by (simp_all add: zdiv_int zmod_int)
      then show ?thesis by (simp only: dir_sectors_def of_nat_add of_nat_eq_0_iff split: if_splits) simp
    qed
    have w: "word_of_int (int rs) = (of_nat rs :: u32)" "int (e * 32) = int e * 32" "int sizeof_item = 32" by (simp_all add: sizeof_item_def)
    note seek = seek_stream_at [OF sd, of "rs * 512"]
    show ?thesis
      unfolding fat16_get_root_directory_def Let_def l(1,2) assms(5) w(3) sec dir_fields_def
      using d2(2) unfolding w(2) by (simp only: w(1) d1(1) bind.bind_lunit prod.case Let_def z B(6) cB pos seek diskstreamer_read_mem_def
        if_False if_True refl simp_thms) (simp add: w(1))
  qed
  moreover have "ata_idle ata (hw ?s')" using d2(1) by (simp add: dir_fields_def advance_def)
  moreover have "\<exists>f d. ?s' = s\<lparr>kmem := m, streams := f, hw := d\<rparr> \<and> (\<forall>q. q \<noteq> c \<longrightarrow> f q = streams s q) \<and> stream_disk (f c) = disk_var s"
    by (intro exI [of _ "streams ?D"] exI [of _ d2], subst m) (simp add: advance_def mB)
  ultimately show ?thesis using f(1) B(3) d0 by (intro exI [of _ dir] exI [of _ ?s']) blast
qed

section \<open>Resolving the disk\<close>

lemma grows_freed:
  assumes "grows s s'" "freed s' {q} s''" "klive s q = None"
  shows "grows s s''" "kheap_ok s''" "klive s'' = (klive s')(q := None)" "\<exists>m. s'' = s'\<lparr>kmem := m\<rparr>"
    "\<not> in_table s' x \<Longrightarrow> kmem s'' x = kmem s' x"
proof -
  have f: "kheap_ok s''" "s'' = s'\<lparr>kmem := kmem s''\<rparr>" "klive s'' = (\<lambda>p. if p \<in> {q} then None else klive s' p)"
    "\<forall>x. \<not> in_table s' x \<longrightarrow> kmem s'' x = kmem s' x" using assms(2) unfolding freed_def by blast+
  have h: "kernel_heap s'' = kernel_heap s" using kmem_only_heap [OF f(2)] growsD(1) [OF assms(1)] by simp
  then have c: "core s'' = (core s)\<lparr>kmem := kmem s''\<rparr>" by (simp add: core_def)
  have l: "klive s \<subseteq>\<^sub>m klive s''"
  proof (unfold map_le_def, intro ballI)
    fix r assume "r \<in> dom (klive s)"
    then obtain n where n: "klive s r = Some n" by blast
    then have "r \<noteq> q" using assms(3) by auto
    then show "klive s r = klive s'' r" using growsD(2) [OF assms(1) n] n f(3) by simp
  qed
  have m: "kmem s'' x = kmem s x" if "held s x" for x
  proof -
    have "\<not> in_table s' x" using that growsD(1) [OF assms(1)] by (simp add: held_def in_table_def)
    then show ?thesis using f(4) growsD(3) [OF assms(1) that] by simp
  qed
  show "grows s s''"
    unfolding grows_def extends_def
  proof (intro conjI)
    show "core s'' = (core s)\<lparr>kmem := kmem (core s'')\<rparr>" using c by simp
    show "klive (core s) \<subseteq>\<^sub>m klive (core s'')" using l by simp
    show "\<forall>x. held (core s) x \<longrightarrow> kmem (core s'') x = kmem (core s) x" using m by simp
  qed
  show "kheap_ok s''" by (fact f(1))
  show "klive s'' = (klive s')(q := None)" using f(3) by (simp add: fun_eq_iff)
  show "\<exists>m. s'' = s'\<lparr>kmem := m\<rparr>" using f(2) by blast
  show "\<not> in_table s' x \<Longrightarrow> kmem s'' x = kmem s' x" using f(4) by blast
qed

text \<open>The header of a disk, read from the page the driver copied it to.\<close>

definition boot_header :: "(nat \<Rightarrow> u8) \<Rightarrow> mem" where
  "boot_header img = (\<lambda>a. img (unat a))"

lemma header_copy:
  assumes "\<forall>i < 62. m (p + of_nat i) = img i"
  shows "header_signature m p = header_signature (boot_header img) 0"
    "header_sectors_per_cluster m p = header_sectors_per_cluster (boot_header img) 0"
    "root_layout m p img' rs e n = root_layout (boot_header img) 0 img' rs e n"
proof -
  have b: "m (p + 13) = img 13" "m (p + 14) = img 14" "m (p + 15) = img 15" "m (p + 16) = img 16" "m (p + 17) = img 17"
    "m (p + 18) = img 18" "m (p + 22) = img 22" "m (p + 23) = img 23" "m (p + 38) = img 38"
    using assms [rule_format, of 13] assms [rule_format, of 14] assms [rule_format, of 15] assms [rule_format, of 16]
      assms [rule_format, of 17] assms [rule_format, of 18] assms [rule_format, of 22] assms [rule_format, of 23]
      assms [rule_format, of 38] by simp_all
  show "header_signature m p = header_signature (boot_header img) 0"
    "header_sectors_per_cluster m p = header_sectors_per_cluster (boot_header img) 0"
    "root_layout m p img' rs e n = root_layout (boot_header img) 0 img' rs e n"
    using b by (simp_all add: root_layout_def header_signature_def header_sectors_per_cluster_def header_fat_copies_def
      header_sectors_per_fat_def header_reserved_sectors_def header_root_dir_entries_def load16_def boot_header_def add.assoc)
qed

lemma diskstreamer_read_mem_law:
  assumes "ata_contract bus ata img" "stream_at s st k" "ata_idle ata (hw s)" "k + n < 2 ^ 31"
  shows "\<exists>d. ata_idle ata d \<and> diskstreamer_read_mem bus st out (int n) s =
    Some (0, (advance st (k + n) d s)\<lparr>kmem := write_bytes (kmem s) out (disk_bytes img k n)\<rparr>)"
  using diskstreamer_read_law [OF assms(1,3,2), of n out "kmem s"] assms(4) by (auto simp: diskstreamer_read_mem_def)

text \<open>Reading the header fills the first 62 bytes of the private data and leaves the fields behind it.\<close>

lemma read_header:
  assumes "ata_contract bus ata img" "priv p s0 s" "stream_at s st 0" "ata_idle ata (hw s)"
  shows "\<exists>m d. let s' = (advance st 62 d s)\<lparr>kmem := m\<rparr> in diskstreamer_read_mem bus st p 62 s = Some (0, s') \<and> ata_idle ata d
    \<and> priv p s0 s' \<and> klive s' = klive s \<and> kavail s' = kavail s \<and> (\<forall>i < 62. m (p + of_nat i) = img i)
    \<and> (\<forall>i. 16 \<le> unat i \<longrightarrow> unat i < 1024 \<longrightarrow> get_field p i s' = get_field p i s)"
proof -
  let ?m = "write_bytes (kmem s) p (disk_bytes img 0 62)"
  obtain d where d: "ata_idle ata d" "diskstreamer_read_mem bus st p 62 s = Some (0, (advance st 62 d s)\<lparr>kmem := ?m\<rparr>)"
    using diskstreamer_read_mem_law [OF assms(1,3,4), of 62 p] by auto
  have "\<forall>x. \<not> in_range p 4096 x \<longrightarrow> ?m x = kmem s x"
    using in_range_mono [of p 62 _ 4096] by (auto simp: write_bytes_apply)
  then have "priv p s0 ((advance st 62 d s)\<lparr>kmem := ?m\<rparr>)" "klive ((advance st 62 d s)\<lparr>kmem := ?m\<rparr>) = klive s"
    "kavail ((advance st 62 d s)\<lparr>kmem := ?m\<rparr>) = kavail s"
    using priv_store [OF assms(2), of "(advance st 62 d s)\<lparr>kmem := ?m\<rparr>"] by (simp_all add: advance_def)
  moreover have "?m (p + of_nat i) = img i" if "i < 62" for i
    using that write_bytes_nth [of i "disk_bytes img 0 62" "kmem s" p] by (simp add: nth_disk_bytes)
  moreover have "get_field p i ((advance st 62 d s)\<lparr>kmem := ?m\<rparr>) = get_field p i s" if "16 \<le> unat i" "unat i < 1024" for i
  proof -
    have "?m x = kmem s x" if x: "in_range (p + 4 * i) 4 x" for x
    proof -
      obtain k where k: "k < 4" "x = p + 4 * i + of_nat k" using x by (elim slotE) auto
      have "unat (4 * i + of_nat k) = 4 * unat i + k" using unat_slot [of i k] k(1) \<open>unat i < 1024\<close> by simp
      then have "\<not> in_range p 62 x" using \<open>16 \<le> unat i\<close> by (simp add: in_range_def k(2) add.assoc)
      then show ?thesis by (simp add: write_bytes_apply)
    qed
    then show ?thesis unfolding get_field_def word_at_def by (intro load32_cong) simp
  qed
  ultimately show ?thesis using d unfolding Let_def
    by (intro exI [of _ ?m] exI [of _ d]) simp
qed

lemma set_disk_cong: "priv p s0 (set_disk disk f s) = priv p s0 s" "kavail (set_disk disk f s) = kavail s" "klive (set_disk disk f s) = klive s"
    "get_field q i (set_disk disk f s) = get_field q i s"
  using priv_cong [of "set_disk disk f s" s p s0] same_core(2-4) [of "set_disk disk f s" s] by (simp_all add: set_disk_def)

text \<open>
  Up to the root directory: the private data \<open>p\<close> has its streams \<open>a\<close> and \<open>c\<close> for clusters and for directories and
  the header of the disk; \<open>t\<close> is the stream the header was read with.
\<close>

lemma resolve_header:
  fixes s :: "('d, 'a) fat_state_scheme"
  assumes "ata_contract bus ata img" "ata_idle ata (hw s)" "kheap_ok s" "6 \<le> kavail s"
    "disk = disk_var s" "disk \<noteq> NULL" "disk_ident (disks s disk) = 0"
    "header_signature (boot_header img) 0 = ALPHAOS_FAT16_SIGNATURE"
  shows "\<exists>p a c t s5. (\<forall>s6. fat16_get_root_directory bus disk p (private_root_directory p) s5 = Some (0, s6)
      \<longrightarrow> fat16_resolve bus disk s = Some (0, kfree t s6))
    \<and> priv p s s5 \<and> kavail s = kavail s5 + 5 \<and> klive s t = None \<and> klive s5 t = Some 1 \<and> t \<noteq> p \<and> ata_idle ata (hw s5)
    \<and> disks s5 disk = (disks s disk)\<lparr>disk_fs_private := p, disk_filesystem := fat16_fs s\<rparr> \<and> disk_var s5 = disk \<and> fat16_fs s5 = fat16_fs s
    \<and> get_field p private_cluster_read_stream s5 = a \<and> get_field p private_directory_stream s5 = c
    \<and> stream_disk (streams s5 a) = disk \<and> stream_disk (streams s5 c) = disk \<and> (\<forall>i < 62. kmem s5 (p + of_nat i) = img i)"
proof -
  obtain p s1 where z: "kzalloc sizeof_fat_private s = (p, s1)" by fastforce
  have "0 < kavail s" "0 < unat sizeof_fat_private" "unat sizeof_fat_private \<le> 4096" using assms(4) by (simp_all add: sizeof_fat_private_def)
  note k = kzalloc_page_extends [OF assms(3) this z]
  obtain m1 where m1: "s1 = s\<lparr>kmem := m1\<rparr>" using k(1) unfolding extends_def by auto
  have p1: "priv p s s1" using k(2-4) extends_grows [OF k(1)] by (simp add: priv_def)
  have "3 \<le> kavail s1" "disk_var s1 \<noteq> NULL" "disk_ident (disks s1 disk) = 0" using k(5) assms(4-7) by (simp_all add: m1)
  from init_private [OF p1 this] obtain a b c m2 f2 where i: "fat16_init_private disk p s1 = s1\<lparr>kmem := m2, streams := f2\<rparr>"
      "priv p s (s1\<lparr>kmem := m2, streams := f2\<rparr>)" "kavail s1 = kavail (s1\<lparr>kmem := m2, streams := f2\<rparr>) + 3" "distinct [a, b, c, p]"
    and fs: "get_field p private_cluster_read_stream (s1\<lparr>kmem := m2, streams := f2\<rparr>) = a"
      "get_field p private_directory_stream (s1\<lparr>kmem := m2, streams := f2\<rparr>) = c"
    and st: "\<forall>q \<in> {a, b, c}. klive (s1\<lparr>kmem := m2, streams := f2\<rparr>) q = Some 1 \<and> klive s q = None
      \<and> f2 q = \<lparr>stream_pos = 0, stream_disk = disk_var s1\<rparr>"
    unfolding Let_def by blast
  define s2 where "s2 = s1\<lparr>kmem := m2, streams := f2\<rparr>"
  note i = i [folded s2_def] and fs = fs [folded s2_def] and st = st [folded s2_def]
  define s3 where "s3 = set_disk disk (\<lambda>d. d\<lparr>disk_filesystem := fat16_fs s\<rparr>) (set_disk disk (\<lambda>d. d\<lparr>disk_fs_private := p\<rparr>) s2)"
  have d3: "disks s3 disk = (disks s disk)\<lparr>disk_fs_private := p, disk_filesystem := fat16_fs s\<rparr>" "disk_var s3 = disk" "streams s3 = f2" "hw s3 = hw s"
    by (simp_all add: s3_def s2_def m1 set_disk_def assms(5))
  have p3: "priv p s s3" "kavail s3 = kavail s2" "klive s3 = klive s2" "get_field q j s3 = get_field q j s2" for q j
    using i(2) by (simp_all add: s3_def set_disk_cong)
  obtain t s4 where n: "diskstreamer_new 0 s3 = (t, s4)" by fastforce
  have "0 < kavail s3" "disk_var s3 \<noteq> NULL" using p3(2) i(3) k(5) assms(4,6) d3(2) by simp_all
  note N = priv_stream [OF p3(1) this n]
  have t: "t \<noteq> NULL" using new_stream(6) [OF _ \<open>0 < kavail s3\<close> \<open>disk_var s3 \<noteq> NULL\<close> n] p3(1) by (simp add: priv_def)
  obtain m4 where m4: "s4 = s3\<lparr>kmem := m4, streams := f2(t := \<lparr>stream_pos = 0, stream_disk = disk\<rparr>)\<rparr>" using N(7) d3(2,3) by auto
  have "stream_at s4 t 0" "ata_idle ata (hw s4)" using assms(2) d3 by (simp_all add: stream_at_def m4)
  from read_header [OF assms(1) N(1) this] obtain m5 d5 where r: "diskstreamer_read_mem bus t p 62 s4 = Some (0, (advance t 62 d5 s4)\<lparr>kmem := m5\<rparr>)"
      "ata_idle ata d5" "priv p s ((advance t 62 d5 s4)\<lparr>kmem := m5\<rparr>)" "klive ((advance t 62 d5 s4)\<lparr>kmem := m5\<rparr>) = klive s4"
      "kavail ((advance t 62 d5 s4)\<lparr>kmem := m5\<rparr>) = kavail s4" "\<forall>i < 62. m5 (p + of_nat i) = img i"
      "\<forall>i. 16 \<le> unat i \<longrightarrow> unat i < 1024 \<longrightarrow> get_field p i ((advance t 62 d5 s4)\<lparr>kmem := m5\<rparr>) = get_field p i s4"
    unfolding Let_def by blast
  define s5 where "s5 = (advance t 62 d5 s4)\<lparr>kmem := m5\<rparr>"
  note r = r [folded s5_def]
  have d5: "disks s5 = disks s3" "disk_var s5 = disk" "kmem s5 = m5" "hw s5 = d5"
    "streams s5 = f2(t := \<lparr>stream_pos = 62, stream_disk = disk\<rparr>)" "fat16_fs s5 = fat16_fs s"
    using d3 by (simp_all add: s5_def m4 advance_def) (simp add: s3_def s2_def m1 set_disk_def)
  have f5: "get_field p private_cluster_read_stream s5 = a" "get_field p private_directory_stream s5 = c"
    using r(7) [rule_format, of private_cluster_read_stream] r(7) [rule_format, of private_directory_stream]
      N(8) [of private_cluster_read_stream] N(8) [of private_directory_stream] fs p3(4) by (simp_all add: fat_offsets)
  have tn: "t \<notin> {a, b, c}" using st N(2) p3(3) by auto
  have sd: "stream_disk (streams s5 q) = disk" if "q \<in> {a, c}" for q using st that assms(5) tn d5(5) by (auto simp: m1)
  have "fat16_resolve bus disk s = Some (0, kfree t s6)"
    if g: "fat16_get_root_directory bus disk p (private_root_directory p) s5 = Some (0, s6)" for s6
  proof -
    have f: "fat16_fs (set_disk disk (\<lambda>d. d\<lparr>disk_fs_private := p\<rparr>) s2) = fat16_fs s" by (simp add: s2_def m1 set_disk_def)
    have d: "disk_ident (disks s3 disk) = 0" using d3(1) assms(7) by simp
    have h: "header_signature (kmem s5) p = ALPHAOS_FAT16_SIGNATURE" using header_copy(1) [OF r(6)] d5(3) assms(8) by simp
    show ?thesis
      unfolding fat16_resolve_def
      by (simp only: Let_def z prod.case i(1) f s3_def [symmetric] d n t r(1) g h bind.bind_lunit if_False if_True refl simp_thms
          sizeof_fat_h_def diskstreamer_close_def not_True_eq_False) simp
  qed
  moreover have "kavail s = kavail s5 + 5" using r(5) N(4) p3(2) i(3) k(5) by simp
  moreover have "klive s t = None" "klive s5 t = Some 1" using r(4) N(3,6) by simp_all
  moreover have "ata_idle ata (hw s5)" using r(2) d5(4) by simp
  moreover have "disks s5 disk = (disks s disk)\<lparr>disk_fs_private := p, disk_filesystem := fat16_fs s\<rparr>" using d3(1) d5(1) by simp
  moreover have "\<forall>i < 62. kmem s5 (p + of_nat i) = img i" using r(6) d5(3) by simp
  ultimately show ?thesis using r(3) N(5) d5(2,6) f5 sd by (intro exI [of _ p] exI [of _ a] exI [of _ c] exI [of _ t] exI [of _ s5]) simp
qed

text \<open>Closing that stream keeps the private data and the directory.\<close>

lemma resolve_close:
  assumes "priv p s0 s" "klive s t = Some 1" "klive s0 t = None" "t \<noteq> p" "t \<noteq> dir" "klive s dir = Some 1"
    "directory_read (private_root_directory p) dir img rs e n s" "e \<le> 128"
  shows "grows s0 (kfree t s)" "kheap_ok (kfree t s)" "klive (kfree t s) = (klive s)(t := None)" "kavail (kfree t s) = Suc (kavail s)"
    "directory_read (private_root_directory p) dir img rs e n (kfree t s)" "\<exists>m. kfree t s = s\<lparr>kmem := m\<rparr>"
    "in_range p 4096 x \<Longrightarrow> kmem (kfree t s) x = kmem s x"
proof -
  have pg: "kheap_ok s" "klive s p = Some 1" "grows s0 s" using assms(1) by (simp_all add: priv_def)
  have F: "freed s {t} (kfree t s)" using freed_insert [OF freed_refl [OF pg(1)] assms(2)] by simp
  note G = grows_freed [OF pg(3) F assms(3)]
  show "grows s0 (kfree t s)" "kheap_ok (kfree t s)" "klive (kfree t s) = (klive s)(t := None)" "\<exists>m. kfree t s = s\<lparr>kmem := m\<rparr>" by (fact G)+
  show "kavail (kfree t s) = Suc (kavail s)" using F assms(2) by (simp add: freed_def)
  have page: "kmem (kfree t s) x = kmem s x" if "klive s q = Some 1" "in_range q 4096 x" for q x
    using G(5) klive_in_pool(2) [OF pg(1) that(1), of x] that(2) by simp
  then show "in_range p 4096 x \<Longrightarrow> kmem (kfree t s) x = kmem s x" using pg(2) by blast
  have "get_field (private_root_directory p) j (kfree t s) = get_field (private_root_directory p) j s" if "j \<in> {0, 1, 2, 3}" for j
    unfolding root_field using page [OF pg(2)] that by (intro get_field_cong [where n = 1024]) auto
  then show "directory_read (private_root_directory p) dir img rs e n (kfree t s)"
    using assms(7,8) page [OF assms(6)] by (simp add: directory_read_def fat_offsets)
qed

lemma private_offset:
  assumes "j < 64 \<or> 80 \<le> j" "j < 4096"
  shows "in_range p 4096 (p + of_nat j)" "\<not> in_range (p + 64) 16 (p + of_nat j)"
proof -
  show "in_range p 4096 (p + of_nat j)" using assms(2) by simp
  show "\<not> in_range (p + 64) 16 (p + of_nat j)"
  proof
    assume "in_range (p + 64) 16 (p + of_nat j)"
    then obtain l where l: "l < 16" "of_nat j = (of_nat (64 + l) :: addr)" by (elim in_rangeE) (simp add: add.assoc)
    then have "unat (of_nat j :: addr) = unat (of_nat (64 + l) :: addr)" by (simp only:)
    then show False using l(1) assms by (simp only: unat_of_nat) (simp add: take_bit_nat_eq_self)
  qed
qed

text \<open>
  What the disk must hold: a boot sector with the FAT16 signature, at least one sector per cluster, and the root
  directory it describes.
\<close>

definition fat_volume :: "(nat \<Rightarrow> u8) \<Rightarrow> nat \<Rightarrow> nat \<Rightarrow> nat \<Rightarrow> nat \<Rightarrow> bool" where
  "fat_volume img spc rs e n \<longleftrightarrow> header_signature (boot_header img) 0 = ALPHAOS_FAT16_SIGNATURE
     \<and> header_sectors_per_cluster (boot_header img) 0 = int spc \<and> 0 < spc \<and> root_layout (boot_header img) 0 img rs e n"

lemma fat16_resolve_law:
  fixes s :: "('d, 'a) fat_state_scheme"
  assumes "ata_contract bus ata img" "ata_idle ata (hw s)" "kheap_ok s" "6 \<le> kavail s"
    "disk = disk_var s" "disk \<noteq> NULL" "disk_ident (disks s disk) = 0" "disk_sector_size (disks s disk) = 512"
    "fat_volume img spc rs e n"
  shows "\<exists>p st dir s'. fat16_resolve bus disk s = Some (0, s') \<and> kheap_ok s' \<and> grows s s' \<and> kavail s = kavail s' + 5
    \<and> disk_filesystem (disks s' disk) = fat16_fs s \<and> klive s p = None \<and> klive s' p = Some 1
    \<and> (\<forall>i < 62. kmem s' (p + of_nat i) = img i) \<and> mounted s' disk p spc (rs + dir_sectors e) st
    \<and> klive s dir = None \<and> klive s' dir = Some 1 \<and> directory_read (private_root_directory p) dir img rs e n s' \<and> ata_idle ata (hw s')
    \<and> fat16_fs s' = fat16_fs s"
proof -
  note v = assms(9) [unfolded fat_volume_def]
  obtain p a c t s5 where R: "\<forall>s6. fat16_get_root_directory bus disk p (private_root_directory p) s5 = Some (0, s6)
      \<longrightarrow> fat16_resolve bus disk s = Some (0, kfree t s6)"
    and r: "priv p s s5" "kavail s = kavail s5 + 5" "klive s t = None" "klive s5 t = Some 1" "t \<noteq> p" "ata_idle ata (hw s5)"
      "disks s5 disk = (disks s disk)\<lparr>disk_fs_private := p, disk_filesystem := fat16_fs s\<rparr>" "disk_var s5 = disk" "fat16_fs s5 = fat16_fs s"
      "get_field p private_cluster_read_stream s5 = a" "get_field p private_directory_stream s5 = c"
      "stream_disk (streams s5 a) = disk" "stream_disk (streams s5 c) = disk" "\<forall>i < 62. kmem s5 (p + of_nat i) = img i"
    using resolve_header [OF assms(1-7)] v by blast
  have lay: "root_layout (kmem s5) p img rs e n" using v header_copy(3) [OF r(14)] by simp
  have x: "0 < kavail s5" "disk_sector_size (disks s5 disk) = 512" "disk_fs_private (disks s5 disk) = p"
    "stream_disk (streams s5 c) = disk_var s5" using r(2,7,8,13) assms(4,8) by simp_all
  from root_directory [OF assms(1) r(1) x(1) r(6) x(2,3) r(11) x(4) lay]
  obtain dir s6 m f d where g: "fat16_get_root_directory bus disk p (private_root_directory p) s5 = Some (0, s6)" "priv p s s6"
      "klive s5 dir = None" "klive s dir = None" "klive s6 = (klive s5)(dir \<mapsto> 1)" "kavail s5 = Suc (kavail s6)"
      "directory_read (private_root_directory p) dir img rs e n s6" "ata_idle ata (hw s6)"
      "\<forall>x. in_range p 4096 x \<longrightarrow> \<not> in_range (p + 64) 16 x \<longrightarrow> kmem s6 x = kmem s5 x"
    and s6: "s6 = s5\<lparr>kmem := m, streams := f, hw := d\<rparr>" "\<forall>q. q \<noteq> c \<longrightarrow> f q = streams s5 q" "stream_disk (f c) = disk_var s5"
    by blast
  have pg: "klive s p = None" "klive s6 p = Some 1" using g(2) by (simp_all add: priv_def)
  have l: "klive s6 t = Some 1" "t \<noteq> dir" "klive s6 dir = Some 1" "e \<le> 128" using g(3,5) r(4) lay by (auto simp: root_layout_def)
  define s7 where "s7 = kfree t s6"
  note C = resolve_close [OF g(2) l(1) r(3,5) l(2,3) g(7) l(4), folded s7_def]
  obtain m7 where m7: "s7 = s6\<lparr>kmem := m7\<rparr>" using C(6) by blast
  have bytes: "kmem s7 (p + of_nat j) = kmem s5 (p + of_nat j)" if "j < 64 \<or> 80 \<le> j" "j < 4096" for j
    using C(7) g(9) private_offset [OF that, of p] by simp
  have hd: "\<forall>j < 62. kmem s7 (p + of_nat j) = img j" using bytes r(14) by simp
  have "rs + dir_sectors e < 2 ^ 31" using lay by (auto simp: root_layout_def dir_sectors_def split: if_splits)
  then have es: "sint (get_field (private_root_directory p) dir_ending_sector_pos s7) = int (rs + dir_sectors e)"
    using C(5) by (simp add: directory_read_def sint_small unat_of_nat take_bit_nat_eq_self del: of_nat_add)
  have "get_field p private_cluster_read_stream s7 = get_field p private_cluster_read_stream s5"
    unfolding get_field_def word_at_def
  proof (rule load32_cong)
    fix x assume "in_range (p + 4 * private_cluster_read_stream) 4 x"
    then obtain l where "l < 4" "x = p + of_nat (80 + l)" by (elim in_rangeE) (simp add: fat_offsets add.assoc)
    then show "kmem s7 x = kmem s5 x" using bytes [of "80 + l"] by simp
  qed
  moreover have "stream_disk (f a) = disk" using s6(2,3) r(8,12) by (cases "a = c") auto
  moreover have "disks s7 = disks s5" "streams s7 = f" "disk_var s7 = disk" "hw s7 = hw s6" "fat16_fs s7 = fat16_fs s" using r(8,9) by (simp_all add: m7 s6(1))
  ultimately have "mounted s7 disk p spc (rs + dir_sectors e) a" "disk_filesystem (disks s7 disk) = fat16_fs s" "ata_idle ata (hw s7)"
    "fat16_fs s7 = fat16_fs s"
    using x(2,3) r(7,10) header_copy(2) [OF hd] v es g(8) by (simp_all add: mounted_def)
  moreover have "klive s7 p = Some 1" "klive s7 dir = Some 1" "kavail s = kavail s7 + 5"
    using C(3,4) r(2,5) l(2,3) pg(2) g(6) by simp_all
  moreover have "fat16_resolve bus disk s = Some (0, s7)" using R g(1) s7_def by simp
  ultimately show ?thesis using C(1,2,5) hd pg(1) g(4)
    by (intro exI [of _ p] exI [of _ a] exI [of _ dir] exI [of _ s7]) simp
qed

section \<open>The property\<close>

text \<open>C13: resolving a disk whose boot sector carries the FAT16 signature and describes a root directory of at most one page
  succeeds: it mounts the driver on the disk, and the new private data holds the header as it is on the disk, the root
  directory with its entries, their number, its first sector and the sector behind it, and a stream for clusters on the
  boot disk (which is what reading files needs, \<open>mounted\<close>). Five pages stay allocated, the stream used for the header is
  closed again, and no memory that was in use before is written.\<close>

theorem fat16_resolve_mounts:
  fixes s :: "('d, 'a) fat_state_scheme"
  assumes "ata_contract bus ata img" "ata_idle ata (hw s)" "kheap_ok s" "6 \<le> kavail s"
    "disk = disk_var s" "disk \<noteq> NULL" "disk_ident (disks s disk) = 0" "disk_sector_size (disks s disk) = 512"
    "fat_volume img spc rs e n"
  shows "\<exists>p st dir s'. fat16_resolve bus disk s = Some (0, s') \<and> kheap_ok s' \<and> grows s s' \<and> kavail s = kavail s' + 5
    \<and> disk_filesystem (disks s' disk) = fat16_fs s \<and> klive s p = None \<and> klive s' p = Some 1
    \<and> (\<forall>i < 62. kmem s' (p + of_nat i) = img i) \<and> mounted s' disk p spc (rs + dir_sectors e) st
    \<and> klive s dir = None \<and> klive s' dir = Some 1 \<and> directory_read (private_root_directory p) dir img rs e n s' \<and> ata_idle ata (hw s')"
  using fat16_resolve_law [OF assms] by blast

text \<open>The witness: the header of the boot disk of \<^verbatim>\<open>boot.asm\<close>, with one file in its root directory.\<close>

definition boot_disk :: "nat \<Rightarrow> u8" where
  "boot_disk = (\<lambda>_. 0)(13 := 0x80, 14 := 200, 16 := 2, 17 := 0x40, 23 := 1, 38 := 0x29, 364544 := 0x41)"

definition mount_demo :: "sim_drive fat_state" where
  "mount_demo = disk_state.extend (sim_state\<lparr>kmem := kmem boot_state, kernel_heap := kernel_heap boot_state\<rparr>) \<lparr>fat16_fs = 0x5000\<rparr>"

lemma mount_demo_fields:
  "kmem mount_demo = kmem boot_state" "kernel_heap mount_demo = kernel_heap boot_state" "hw mount_demo = hw sim_state"
  "disk_var mount_demo = 0x100000" "disks mount_demo = disks sim_state" "fat16_fs mount_demo = 0x5000"
  by (simp_all add: mount_demo_def disk_state.defs sim_state_def)

lemma boot_disk_volume: "fat_volume boot_disk 128 712 64 1"
  by (simp add: fat_volume_def root_layout_def header_signature_def header_sectors_per_cluster_def header_fat_copies_def
      header_sectors_per_fat_def header_reserved_sectors_def header_root_dir_entries_def load16_def boot_header_def
      boot_disk_def ALPHAOS_FAT16_SIGNATURE_def dir_ends_def)

theorem fat16_resolve_mounts_witness:
  "\<exists>p st s'. fat16_resolve (sim_bus boot_disk) 0x100000 mount_demo = Some (0, s')
     \<and> disk_filesystem (disks s' 0x100000) = 0x5000 \<and> mounted s' 0x100000 p 128 716 st
     \<and> get_field (private_root_directory p) dir_total s' = 1"
proof -
  have c: "kheap_ok mount_demo" "kavail mount_demo = 25600"
    using same_core(1,3) [of mount_demo boot_state] boot_heap by (simp_all add: mount_demo_fields)
  have d: "ata_idle sim_ata (hw mount_demo)" "disk_ident (disks mount_demo 0x100000) = 0"
    "disk_sector_size (disks mount_demo 0x100000) = 512"
    by (simp_all add: mount_demo_fields sim_state_def sim_ata_def)
  have "dir_sectors 64 = 4" "used_entries boot_disk (712 * 512) 1 = 1" by (simp_all add: dir_sectors_def used_entries_def boot_disk_def)
  with fat16_resolve_mounts [OF sim_contract d(1) c(1) _ mount_demo_fields(4) [symmetric] _ d(2,3) boot_disk_volume]
  show ?thesis using c(2) by (auto simp: mount_demo_fields(6) directory_read_def)
qed

end
