(* ===== verification/Open.thy ===== *)
theory Open
  imports Mount
begin

text \<open>
  Finding and opening a file of the root directory, and reading it: \<open>fat16_open\<close> and what it calls in
  \<^verbatim>\<open>fs/fat/fat16.c\<close>, over the directory that mounting the disk has read. The directory is seen as a list of
  entries of 32 bytes, a name as the text the driver makes of an entry.
\<close>

section \<open>Entries as lists of bytes\<close>

definition stops :: "u8 \<Rightarrow> bool" where
  "stops c \<longleftrightarrow> c = 0 \<or> c = blank"

text \<open>
  The name of an entry as the driver reads it: up to the first zero or blank, across the border between name
  and extension if there is none, then a dot and the extension.
\<close>

definition entry_name :: "u8 list \<Rightarrow> u8 list" where
  "entry_name bs = dos_name (takeWhile (\<lambda>c. \<not> stops c) (take 11 bs)) (takeWhile (\<lambda>c. \<not> stops c) (take 3 (drop 8 bs)))"

text \<open>The reading of the extension stops in its field or at the byte behind it, the attributes.\<close>

definition entry_ends :: "u8 list \<Rightarrow> bool" where
  "entry_ends bs \<longleftrightarrow> (\<exists>c \<in> set (take 4 (drop 8 bs)). stops c)"

definition entry_is_file :: "u8 list \<Rightarrow> bool" where
  "entry_is_file bs \<longleftrightarrow> bs ! 11 AND FAT_FILE_SUBDIRECTORY = 0"

lemma takeWhile_stop:
  assumes "\<exists>c \<in> set (take (Suc n) xs). stops c" "Suc n \<le> length xs"
  defines "t \<equiv> takeWhile (\<lambda>c. \<not> stops c) (take n xs)"
  shows "length t \<le> n" "stops (xs ! length t)" "\<forall>j < length t. t ! j = xs ! j" "\<forall>c \<in> set t. \<not> stops c"
proof -
  show l: "length t \<le> n" using length_takeWhile_le [of "\<lambda>c. \<not> stops c" "take n xs"] by (simp add: t_def)
  show n: "\<forall>j < length t. t ! j = xs ! j" using l by (auto simp: t_def takeWhile_nth)
  show s: "\<forall>c \<in> set t. \<not> stops c" unfolding t_def by (auto dest: set_takeWhileD)
  show "stops (xs ! length t)"
  proof (cases "length t < n")
    case True
    then have "length t < length (take n xs)" using assms(2) by simp
    then have "\<not> \<not> stops (take n xs ! length t)" unfolding t_def by (rule nth_length_takeWhile)
    then show ?thesis using True by simp
  next
    case False
    then have "length t = n" using l by simp
    moreover obtain i where i: "i < Suc n" "stops (xs ! i)" using assms(1,2) by (auto simp: in_set_conv_nth)
    moreover have "i \<noteq> j" if "j < length t" for j using n s i(2) that by (metis nth_mem)
    ultimately show ?thesis by (metis less_Suc_eq)
  qed
qed

lemma entry_name_read:
  assumes "bytes_at im item 32 = bs" "entry_ends bs"
  shows "\<exists>om'. fat16_get_full_relative_filename item im 0 om 108 = Some om' \<and> cstring om' 0 (entry_name bs)"
proof -
  have b: "im (item + of_nat j) = bs ! j" if "j < 32" for j using assms(1) that by auto
  have len: "length bs = 32" using assms(1) by auto
  have e: "\<exists>c \<in> set (take (Suc 3) (drop 8 bs)). stops c" using assms(2) by (simp add: entry_ends_def)
  then have t: "\<exists>c \<in> set (take (Suc 11) bs). stops c"
  proof -
    have "take (Suc 3) (drop 8 bs) = drop 8 (take (Suc 11) bs)" by (simp add: drop_take)
    then show ?thesis using e by (metis in_set_dropD)
  qed
  have "Suc 11 \<le> length bs" "Suc 3 \<le> length (drop 8 bs)" using len by simp_all
  note T = takeWhile_stop [OF t this(1)] and E = takeWhile_stop [OF e this(2)]
  let ?t = "takeWhile (\<lambda>c. \<not> stops c) (take 11 bs)" and ?e = "takeWhile (\<lambda>c. \<not> stops c) (take 3 (drop 8 bs))"
  have b8: "im (item + 8 + of_nat j) = drop 8 bs ! j" if "j < 24" for j using b [of "8 + j"] that len by (simp add: add.assoc)
  show ?thesis
    unfolding entry_name_def
  proof (rule full_name)
    show "\<forall>j < length ?t. im (item + of_nat j) = ?t ! j" using T(1,3) b by simp
    show "0 \<notin> set ?t" "blank \<notin> set ?t" using T(4) unfolding stops_def by blast+
    show "im (item + of_nat (length ?t)) = 0 \<or> im (item + of_nat (length ?t)) = blank"
      using T(1,2) b [of "length ?t"] by (simp only: stops_def)
    show "\<forall>j < length ?e. im (item + 8 + of_nat j) = ?e ! j" using E(1,3) b8 by simp
    show "0 \<notin> set ?e" "blank \<notin> set ?e" using E(4) unfolding stops_def by blast+
    show "im (item + 8 + of_nat (length ?e)) = 0 \<or> im (item + 8 + of_nat (length ?e)) = blank"
      using E(1,2) b8 [of "length ?e"] by (simp only: stops_def)
    show "length ?t \<le> 11" "length ?e \<le> 3" by (rule T(1), rule E(1))
  qed
qed

section \<open>The item of a file\<close>

text \<open>\<open>file_item s f bs\<close>: \<open>f\<close> is a file whose directory entry is a page of its own that holds \<open>bs\<close>.\<close>

definition file_item :: "'a kheap_state_scheme \<Rightarrow> addr \<Rightarrow> u8 list \<Rightarrow> bool" where
  "file_item s f bs \<longleftrightarrow> f \<noteq> NULL \<and> get_field f fitem_ptr s \<noteq> f \<and> klive s f = Some 1 \<and> get_field f fitem_type s = FAT_ITEM_TYPE_FILE
     \<and> klive s (get_field f fitem_ptr s) = Some 1 \<and> bytes_at (kmem s) (get_field f fitem_ptr s) 32 = bs"

definition new_item :: "'a kheap_state_scheme \<Rightarrow> 'a kheap_state_scheme \<Rightarrow> addr \<Rightarrow> u8 list \<Rightarrow> bool" where
  "new_item s0 s f bs \<longleftrightarrow> file_item s f bs \<and> klive s0 f = None \<and> klive s0 (get_field f fitem_ptr s) = None"

lemma extends_page_field:
  assumes "extends s s'" "kheap_ok s" "klive s p = Some 1" "unat i < 1024"
  shows "get_field p i s' = get_field p i s"
  using extends_page [OF assms(1-3)] by (intro get_field_cong [where n = 1024]) (simp_all add: assms(4))

lemma file_item_extends:
  assumes "extends s s'" "kheap_ok s" "file_item s f bs"
  shows "file_item s' f bs"
proof -
  have a: "klive s f = Some 1" "klive s (get_field f fitem_ptr s) = Some 1" using assms(3) by (simp_all add: file_item_def)
  have f: "get_field f fitem_type s' = get_field f fitem_type s" "get_field f fitem_ptr s' = get_field f fitem_ptr s"
    by (rule extends_page_field [OF assms(1,2) a(1)]; simp add: fat_offsets)+
  have "bytes_at (kmem s') (get_field f fitem_ptr s) 32 = bytes_at (kmem s) (get_field f fitem_ptr s) 32"
    using extends_page [OF assms(1,2) a(2)] in_range_mono [of _ 32 _ 4096] by (intro bytes_at_cong) auto
  then show ?thesis using assms(3) f extends_live [OF assms(1) a(1)] extends_live [OF assms(1) a(2)] by (simp add: file_item_def)
qed

lemma new_item_extends:
  assumes "extends s s'" "kheap_ok s" "new_item s0 s f bs"
  shows "new_item s0 s' f bs"
proof -
  have "get_field f fitem_ptr s' = get_field f fitem_ptr s"
    using assms(3) by (intro extends_page_field [OF assms(1,2)]) (simp_all add: new_item_def file_item_def fat_offsets)
  then show ?thesis using assms(3) file_item_extends [OF assms(1,2)] by (simp add: new_item_def)
qed

lemma new_item_later: "extends s0 s1 \<Longrightarrow> new_item s1 s f bs \<Longrightarrow> new_item s0 s f bs"
  unfolding new_item_def using extends_fresh by blast

lemma held_bytes:
  assumes "extends s s'" "\<forall>x. in_range p n x \<longrightarrow> held s x" "n \<le> 2 ^ 32"
  shows "bytes_at (kmem s') p n = bytes_at (kmem s) p n" "\<forall>x. in_range p n x \<longrightarrow> held s' x"
  using assms extends_mem [OF assms(1)] extends_held [OF assms(1)] by (auto intro: bytes_at_cong)

text \<open>Writing in a page that is new since \<open>s0\<close>.\<close>

lemma page_store:
  assumes "extends s0 s" "kheap_ok s" "klive s p = Some 1" "klive s0 p = None" "\<forall>x. \<not> in_range p 4096 x \<longrightarrow> m x = kmem s x"
  shows "extends s0 (s\<lparr>kmem := m\<rparr>)" "kheap_ok (s\<lparr>kmem := m\<rparr>)" "klive (s\<lparr>kmem := m\<rparr>) = klive s" "kavail (s\<lparr>kmem := m\<rparr>) = kavail s"
  using assms(5) by (intro store_extends [OF assms(2,3,1,4)]; simp)+

lemma page_field:
  assumes "extends s0 s" "kheap_ok s" "klive s p = Some 1" "klive s0 p = None" "unat i < 1024"
  shows "extends s0 (set_field p i v s)" "kheap_ok (set_field p i v s)" "klive (set_field p i v s) = klive s"
    "kavail (set_field p i v s) = kavail s"
proof -
  have "\<forall>x. \<not> in_range p 4096 x \<longrightarrow> set_word (kmem s) p i v x = kmem s x"
    using set_field_outside [of p 1024 _ i v s] assms(5) by (simp add: set_field_def)
  from page_store [OF assms(1-4) this]
  show "extends s0 (set_field p i v s)" "kheap_ok (set_field p i v s)" "klive (set_field p i v s) = klive s"
    "kavail (set_field p i v s) = kavail s" unfolding set_field_def .
qed

text \<open>Writing a field of one page leaves the other pages.\<close>

lemma page_other:
  assumes "kheap_ok s" "klive s p = Some 1" "klive s q = Some 1" "p \<noteq> q" "unat i < 1024" "in_range q 4096 x"
  shows "kmem (set_field p i v s) x = kmem s x"
  using klive_page_disjoint [OF assms(1,3,2) assms(4) [symmetric] assms(6)] set_field_outside [of p 1024 x i v s] assms(5) by simp

lemma page_bytes:
  assumes "\<forall>x. in_range q 4096 x \<longrightarrow> kmem s' x = kmem s x"
  shows "n \<le> 4096 \<Longrightarrow> bytes_at (kmem s') q n = bytes_at (kmem s) q n" "unat i < 1024 \<Longrightarrow> get_field q i s' = get_field q i s"
  using assms in_range_mono [of q n _ 4096] by (auto intro!: bytes_at_cong get_field_cong [where n = 1024])

lemma clone_item:
  assumes "kheap_ok s" "0 < kavail s" "\<forall>x. in_range item 32 x \<longrightarrow> held s x"
  shows "\<exists>c s'. fat16_clone_directory_item item (of_nat sizeof_item) s = (c, s') \<and> extends s s' \<and> kheap_ok s' \<and> klive s c = None
    \<and> klive s' = (klive s)(c \<mapsto> 1) \<and> kavail s = Suc (kavail s') \<and> bytes_at (kmem s') c 32 = bytes_at (kmem s) item 32"
proof -
  obtain c s1 where c: "kzalloc (of_nat sizeof_item) s = (c, s1)" by fastforce
  note k = kzalloc_page_extends [OF assms(1,2) _ _ c]
  have C: "extends s s1" "kheap_ok s1" "klive s c = None" "klive s1 = (klive s)(c \<mapsto> 1)" "kavail s = Suc (kavail s1)" "c \<noteq> NULL"
    using k(1-6) by (simp_all add: sizeof_item_def)
  have le: "klive s \<subseteq>\<^sub>m klive s1" using C(1) by (simp only: extends_def)
  have live: "klive s1 c = Some 1" using C(4) by simp
  have dis: "disjoint_ranges c 32 item 32"
    unfolding disjoint_ranges_def
  proof (intro allI impI)
    fix x assume "in_range c 32 x"
    then have "in_range c (1 * 4096) x" using in_range_mono [of c 32 x "1 * 4096"] by simp
    then show "\<not> in_range item 32 x" using held_fresh [OF C(2) live C(3) le extends_heap [OF C(1)], of x] assms(3) by blast
  qed
  have m: "memcpy (kmem s1) c item 32 x = (if in_range c 32 x then kmem s1 (item + (x - c)) else kmem s1 x)" for x
    using memcpy_apply [OF _ dis] by simp
  have "\<forall>x. \<not> in_range c 4096 x \<longrightarrow> memcpy (kmem s1) c item 32 x = kmem s1 x" using m in_range_mono [of c 32 _ 4096] by auto
  note D = page_store [OF C(1,2) live C(3) this]
  have "memcpy (kmem s1) c item 32 (c + of_nat j) = bytes_at (kmem s1) item 32 ! j" if "j < 32" for j
    using m [of "c + of_nat j"] that by simp
  then have "bytes_at (memcpy (kmem s1) c item 32) c 32 = bytes_at (kmem s1) item 32" by (intro nth_equalityI) simp_all
  moreover have "fat16_clone_directory_item item (of_nat sizeof_item) s = (c, s1\<lparr>kmem := memcpy (kmem s1) c item 32\<rparr>)"
    using c C(6) by (simp add: fat16_clone_directory_item_def sizeof_item_def Let_def)
  ultimately show ?thesis using D C(3-5) held_bytes(1) [OF C(1) assms(3)]
    by (intro exI [of _ c] exI [of _ "s1\<lparr>kmem := memcpy (kmem s1) c item 32\<rparr>"]) simp
qed

lemma new_file_item:
  assumes "kheap_ok s" "2 \<le> kavail s" "\<forall>x. in_range item 32 x \<longrightarrow> held s x" "entry_is_file (bytes_at (kmem s) item 32)"
  shows "\<exists>f s'. fat16_new_fat_item_for_directory_item bus disk item s = Some (f, s') \<and> extends s s' \<and> kheap_ok s'
    \<and> kavail s = kavail s' + 2 \<and> new_item s s' f (bytes_at (kmem s) item 32)"
proof -
  obtain f s1 where z: "kzalloc sizeof_fat_item s = (f, s1)" by fastforce
  note k = kzalloc_page_extends [OF assms(1) _ _ _ z]
  have A: "extends s s1" "kheap_ok s1" "klive s f = None" "klive s1 = (klive s)(f \<mapsto> 1)" "kavail s = Suc (kavail s1)" "f \<noteq> NULL"
    using k(1-6) assms(2) by (simp_all add: sizeof_fat_item_def)
  have h1: "\<forall>x. in_range item 32 x \<longrightarrow> held s1 x" "bytes_at (kmem s1) item 32 = bytes_at (kmem s) item 32"
    using held_bytes [OF A(1) assms(3)] by simp_all
  have at: "item_attributes (kmem s1) item AND FAT_FILE_SUBDIRECTORY = 0"
    using assms(4) unfolding h1(2) [symmetric] by (simp add: entry_is_file_def item_attributes_def)
  define s2 where "s2 = set_field f fitem_type FAT_ITEM_TYPE_FILE s1"
  have B: "extends s s2" "kheap_ok s2" "klive s2 = klive s1" "kavail s2 = kavail s1"
    using page_field [OF A(1,2) _ A(3), of fitem_type FAT_ITEM_TYPE_FILE] A(4) by (simp_all add: s2_def fat_offsets)
  have av2: "0 < kavail s2" using B(4) A(5) assms(2) by simp
  have h2: "\<forall>x. in_range item 32 x \<longrightarrow> held s2 x" using held_bytes(2) [OF B(1) assms(3)] by simp
  obtain c s3 where c: "fat16_clone_directory_item item (of_nat sizeof_item) s2 = (c, s3)" "extends s2 s3" "kheap_ok s3" "klive s2 c = None"
      "klive s3 = (klive s2)(c \<mapsto> 1)" "kavail s2 = Suc (kavail s3)" "bytes_at (kmem s3) c 32 = bytes_at (kmem s2) item 32"
    using clone_item [OF B(2) av2 h2] by blast
  have e3: "extends s s3" by (rule extends_trans [OF B(1) c(2)])
  have l: "klive s3 f = Some 1" "klive s3 c = Some 1" "f \<noteq> c" "klive s2 f = Some 1" using c(4,5) B(3) A(4) by auto
  define s4 where "s4 = set_field f fitem_ptr c s3"
  have E: "extends s s4" "kheap_ok s4" "klive s4 = klive s3" "kavail s4 = kavail s3"
    using page_field [OF e3 c(3) l(1) A(3), of fitem_ptr c] by (simp_all add: s4_def fat_offsets)
  have "\<forall>x. in_range c 4096 x \<longrightarrow> kmem s4 x = kmem s3 x" using page_other [OF c(3) l(1-3)] by (simp add: s4_def fat_offsets)
  then have "bytes_at (kmem s4) c 32 = bytes_at (kmem s) item 32"
    using page_bytes(1) [of c s4 s3 32] c(7) held_bytes(1) [OF B(1) assms(3)] by simp
  moreover have "get_field f fitem_type s4 = FAT_ITEM_TYPE_FILE" "get_field f fitem_ptr s4 = c"
    using extends_page_field [OF c(2) B(2) l(4), of fitem_type] by (simp_all add: s4_def s2_def get_set_field fat_offsets)
  moreover have "klive s c = None" using extends_fresh [OF B(1) c(4)] .
  ultimately have "new_item s s4 f (bytes_at (kmem s) item 32)" using A(3,6) E(3) l(1-3) by (simp add: file_item_def new_item_def)
  moreover have "fat16_new_fat_item_for_directory_item bus disk item s = Some (f, s4)"
    using z A(6) at c(1) by (simp add: fat16_new_fat_item_for_directory_item_def Let_def s4_def s2_def)
  ultimately show ?thesis using E A(5) B(4) c(6) by (intro exI [of _ f] exI [of _ s4]) simp
qed

section \<open>Looking a name up\<close>

text \<open>Names are compared without regard to case, up to the length of the buffer.\<close>

definition same_name :: "u8 list \<Rightarrow> u8 list \<Rightarrow> bool" where
  "same_name t q \<longleftrightarrow> map tolower (take 108 t) = map tolower (take 108 q)"

text \<open>The entries of a directory in memory, and those with the name \<open>q\<close>: the loop takes the last one.\<close>

definition item_addr :: "addr \<Rightarrow> nat \<Rightarrow> addr" where
  "item_addr d i = d + of_nat (i * sizeof_item)"

definition dir_entries :: "mem \<Rightarrow> addr \<Rightarrow> nat \<Rightarrow> nat \<Rightarrow> u8 list list" where
  "dir_entries m d i n = map (\<lambda>i. bytes_at m (item_addr d i) 32) [i..<i + n]"

definition named :: "u8 list \<Rightarrow> u8 list list \<Rightarrow> u8 list list" where
  "named q es = filter (\<lambda>bs. same_name (entry_name bs) q) es"

lemma dir_entries_Suc:
  "dir_entries m d i (Suc n) = bytes_at m (item_addr d i) 32 # dir_entries m d (Suc i) n"
  by (simp add: dir_entries_def upt_conv_Cons del: upt_Suc)

text \<open>What stays while items are made: the directory, its entries and the name.\<close>

definition dir_at :: "'a kheap_state_scheme \<Rightarrow> addr \<Rightarrow> addr \<Rightarrow> nat \<Rightarrow> bool" where
  "dir_at s dr d n \<longleftrightarrow> get_field dr dir_item s = d \<and> (\<forall>x. in_range dr 16 x \<longrightarrow> held s x)
     \<and> (\<forall>i < n. \<forall>x. in_range (item_addr d i) 32 x \<longrightarrow> held s x)"

lemma dir_at_extends:
  assumes "extends s s'" "dir_at s dr d n"
  shows "dir_at s' dr d n" "i + k \<le> n \<Longrightarrow> dir_entries (kmem s') d i k = dir_entries (kmem s) d i k"
proof -
  have "get_field dr dir_item s' = get_field dr dir_item s"
    using assms(2) extends_mem [OF assms(1)] by (intro get_field_cong [where n = 4]) (auto simp: dir_at_def fat_offsets)
  then show "dir_at s' dr d n" using assms(2) extends_held [OF assms(1)] by (auto simp: dir_at_def)
  show "i + k \<le> n \<Longrightarrow> dir_entries (kmem s') d i k = dir_entries (kmem s) d i k"
    unfolding dir_entries_def
  proof (intro map_cong refl)
    fix j assume "i + k \<le> n" "j \<in> set [i..<i + k]"
    then have "j < n" by simp
    then have "\<forall>x. in_range (item_addr d j) 32 x \<longrightarrow> held s x" using assms(2) unfolding dir_at_def by blast
    then show "bytes_at (kmem s') (item_addr d j) 32 = bytes_at (kmem s) (item_addr d j) 32"
      by (intro held_bytes(1) [OF assms(1)]) simp_all
  qed
qed

text \<open>One round of the loop.\<close>

lemma find_step:
  assumes "get_field dr dir_item s = d" "bytes_at (kmem s) (item_addr d i) 32 = bs" "entry_ends bs" "cstring (kmem s) name q"
  shows "fat16_find_loop bus disk dr name (Suc n) i f s = (if same_name (entry_name bs) q
    then fat16_new_fat_item_for_directory_item bus disk (item_addr d i) s
      \<bind> (\<lambda>(f, s). fat16_find_loop bus disk dr name n (Suc i) f s)
    else fat16_find_loop bus disk dr name n (Suc i) f s)"
proof -
  obtain om where om: "fat16_get_full_relative_filename (item_addr d i) (kmem s) 0 (stack_mem s) 108 = Some om"
    "cstring om 0 (entry_name bs)"
    using entry_name_read [OF assms(2,3)] by blast
  have "istrncmp om 0 (kmem s) name 108 = 0 \<longleftrightarrow> same_name (entry_name bs) q"
    using istrncmp_eq_0_iff [OF om(2) assms(4)] by (simp add: same_name_def)
  then show ?thesis using om(1) assms(1) by (simp add: ALPHAOS_MAX_PATH_def item_addr_def)
qed

lemma find_loop:
  assumes "kheap_ok s" "dir_at s dr d (i + n)" "held_string s name q" "\<forall>bs \<in> set (dir_entries (kmem s) d i n). entry_ends bs"
    "\<forall>bs \<in> set (named q (dir_entries (kmem s) d i n)). entry_is_file bs" "2 * length (named q (dir_entries (kmem s) d i n)) \<le> kavail s"
  shows "\<exists>f' s'. fat16_find_loop bus disk dr name n i f s = Some (f', s') \<and> extends s s' \<and> kheap_ok s'
    \<and> kavail s = kavail s' + 2 * length (named q (dir_entries (kmem s) d i n))
    \<and> (if named q (dir_entries (kmem s) d i n) = [] then f' = f \<and> s' = s
       else new_item s s' f' (last (named q (dir_entries (kmem s) d i n))))"
  using assms
proof (induction n arbitrary: i f s)
  case 0
  then show ?case by (simp add: dir_entries_def named_def extends_refl)
next
  case (Suc n)
  let ?item = "item_addr d i"
  let ?b = "bytes_at (kmem s) ?item 32" and ?es = "dir_entries (kmem s) d (Suc i) n"
  have es: "dir_entries (kmem s) d i (Suc n) = ?b # ?es" by (rule dir_entries_Suc)
  have "get_field dr dir_item s = d" "cstring (kmem s) name q" "entry_ends ?b"
    using Suc.prems(2-4) by (simp_all add: dir_at_def held_string_def es)
  note step = find_step [OF this(1) refl this(3) this(2), of bus disk n f]
  show ?case
  proof (cases "same_name (entry_name ?b) q")
    case False
    then have nm: "named q (?b # ?es) = named q ?es" by (simp add: named_def)
    have st: "fat16_find_loop bus disk dr name (Suc n) i f s = fat16_find_loop bus disk dr name n (Suc i) f s"
      unfolding step using False by (rule if_not_P)
    show ?thesis
      unfolding st es nm by (rule Suc.IH) (use Suc.prems in \<open>simp_all add: es nm\<close>)
  next
    case True
    then have nm: "named q (?b # ?es) = ?b # named q ?es" by (simp add: named_def)
    have "i < i + Suc n" by simp
    then have h: "\<forall>x. in_range ?item 32 x \<longrightarrow> held s x" using Suc.prems(2) unfolding dir_at_def by blast
    have f: "entry_is_file ?b" "2 \<le> kavail s" using Suc.prems(5,6) unfolding es nm by simp_all
    obtain f1 s1 where N: "fat16_new_fat_item_for_directory_item bus disk ?item s = Some (f1, s1)" "extends s s1" "kheap_ok s1"
        "kavail s = kavail s1 + 2" "new_item s s1 f1 ?b"
      using new_file_item [OF Suc.prems(1) f(2) h f(1)] by blast
    note D = dir_at_extends [OF N(2) Suc.prems(2)]
    have es1: "dir_entries (kmem s1) d (Suc i) n = ?es" by (rule D(2)) simp
    have "dir_at s1 dr d (Suc i + n)" using D(1) by simp
    moreover have "held_string s1 name q" by (rule held_string_extends [OF Suc.prems(3) N(2)])
    ultimately obtain f' s' where L: "fat16_find_loop bus disk dr name n (Suc i) f1 s1 = Some (f', s')" "extends s1 s'" "kheap_ok s'"
        "kavail s1 = kavail s' + 2 * length (named q ?es)" "if named q ?es = [] then f' = f1 \<and> s' = s1 else new_item s1 s' f' (last (named q ?es))"
      using Suc.IH [OF N(3), of "Suc i" f1] Suc.prems(4-6) N(4) unfolding es es1 nm by auto
    have "new_item s s' f' (last (?b # named q ?es))" using L(5) N(5) new_item_later [OF N(2)] by (auto split: if_splits)
    then show ?thesis using step True N(1,4) L(1,3,4) extends_trans [OF N(2) L(2)] unfolding es nm by simp
  qed
qed

section \<open>Opening a file of the root directory\<close>

text \<open>
  What opening needs of a mounted disk: the private data, the directory \<open>d\<close> with the entries \<open>es\<close> the loop looks at,
  in memory that is in use.
\<close>

definition root_ready :: "('d, 'a) disk_state_scheme \<Rightarrow> addr \<Rightarrow> addr \<Rightarrow> u8 list list \<Rightarrow> bool" where
  "root_ready s disk p es \<longleftrightarrow> disk_fs_private (disks s disk) = p
     \<and> (\<exists>d. dir_at s (private_root_directory p) d (length es) \<and> es = dir_entries (kmem s) d 0 (length es))
     \<and> sint (get_field (private_root_directory p) dir_total s) = int (length es)"

lemma root_ready_extends:
  assumes "extends s s'" "root_ready s disk p es"
  shows "root_ready s' disk p es"
proof -
  obtain d where d: "disk_fs_private (disks s disk) = p" "dir_at s (private_root_directory p) d (length es)"
      "es = dir_entries (kmem s) d 0 (length es)" "sint (get_field (private_root_directory p) dir_total s) = int (length es)"
    using assms(2) unfolding root_ready_def by blast
  obtain m where m: "s' = s\<lparr>kmem := m\<rparr>" using assms(1) unfolding extends_def by blast
  have "get_field (private_root_directory p) dir_total s' = get_field (private_root_directory p) dir_total s"
    using d(2) extends_mem [OF assms(1)] by (intro get_field_cong [where n = 4]) (auto simp: dir_at_def fat_offsets)
  moreover have "es = dir_entries (kmem s') d 0 (length es)" using dir_at_extends(2) [OF assms(1) d(2), of 0 "length es"] d(3) by simp
  moreover have "disks s' = disks s" by (simp add: m)
  ultimately show ?thesis using d dir_at_extends(1) [OF assms(1) d(2)] unfolding root_ready_def by metis
qed

text \<open>A path of one part.\<close>

definition single_path :: "'a kheap_state_scheme \<Rightarrow> addr \<Rightarrow> u8 list \<Rightarrow> bool" where
  "single_path s path q \<longleftrightarrow> part_next (kmem s) path = NULL \<and> (\<forall>x. in_range path 8 x \<longrightarrow> held s x)
     \<and> held_string s (part_part (kmem s) path) q"

lemma single_path_extends:
  assumes "extends s s'" "single_path s path q"
  shows "single_path s' path q" "part_part (kmem s') path = part_part (kmem s) path"
proof -
  have "get_field path i s' = get_field path i s" if "i \<in> {0, 1}" for i
    using assms(2) extends_mem [OF assms(1)] that by (intro get_field_cong [where n = 2]) (auto simp: single_path_def)
  then have w: "part_part (kmem s') path = part_part (kmem s) path" "part_next (kmem s') path = part_next (kmem s) path"
    by (simp_all add: part_part_def part_next_def get_field_def)
  show "part_part (kmem s') path = part_part (kmem s) path" by (fact w(1))
  show "single_path s' path q"
    using assms(2) w extends_held [OF assms(1)] held_string_extends [OF _ assms(1)] by (simp add: single_path_def)
qed

lemma get_entry:
  assumes "kheap_ok s" "root_ready s disk p es" "single_path s path q" "\<forall>bs \<in> set es. entry_ends bs"
    "\<forall>bs \<in> set (named q es). entry_is_file bs" "2 * length (named q es) \<le> kavail s"
  shows "\<exists>f s'. fat16_get_directory_entry bus disk path s = Some (f, s') \<and> extends s s' \<and> kheap_ok s'
    \<and> kavail s = kavail s' + 2 * length (named q es)
    \<and> (if named q es = [] then f = NULL \<and> s' = s else new_item s s' f (last (named q es)))"
proof -
  obtain d where d: "disk_fs_private (disks s disk) = p" "dir_at s (private_root_directory p) d (0 + length es)"
      "es = dir_entries (kmem s) d 0 (length es)" "sint (get_field (private_root_directory p) dir_total s) = int (length es)"
    using assms(2) unfolding root_ready_def add_0 by blast
  have h: "held_string s (part_part (kmem s) path) q" using assms(3) by (simp add: single_path_def)
  obtain f s' where f: "fat16_find_loop bus disk (private_root_directory p) (part_part (kmem s) path) (length es) 0 NULL s = Some (f, s')"
      "extends s s'" "kheap_ok s'" "kavail s = kavail s' + 2 * length (named q es)"
      "if named q es = [] then f = NULL \<and> s' = s else new_item s s' f (last (named q es))"
    using find_loop [OF assms(1) d(2) h, of bus disk NULL] assms(4-6) unfolding d(3) [symmetric] by blast
  have "part_next (kmem s') path = NULL" using single_path_extends(1) [OF f(2) assms(3)] by (simp add: single_path_def)
  then have "fat16_get_directory_entry bus disk path s = Some (f, s')"
    using f(1) d(1,4)
    by (simp add: fat16_get_directory_entry_def fat16_find_item_in_directory_def fat16_walk_parts.simps [of bus disk NULL])
  then show ?thesis using f(2-5) by blast
qed

text \<open>\<open>opened s0 s desc bs\<close>: the new descriptor \<open>desc\<close> of the file with the directory entry \<open>bs\<close>, at position 0.\<close>

definition opened :: "'a kheap_state_scheme \<Rightarrow> 'a kheap_state_scheme \<Rightarrow> addr \<Rightarrow> u8 list \<Rightarrow> bool" where
  "opened s0 s desc bs \<longleftrightarrow> klive s0 desc = None \<and> klive s desc = Some 1 \<and> get_field desc fdesc_pos s = 0
     \<and> desc \<noteq> get_field desc fdesc_item s \<and> desc \<noteq> get_field (get_field desc fdesc_item s) fitem_ptr s
     \<and> new_item s0 s (get_field desc fdesc_item s) bs"

lemma new_item_other:
  assumes "kheap_ok s" "new_item s0 s f bs" "klive s p = Some 1" "f \<noteq> p" "get_field f fitem_ptr s \<noteq> p" "unat i < 1024"
  shows "new_item s0 (set_field p i v s) f bs" "get_field f fitem_ptr (set_field p i v s) = get_field f fitem_ptr s"
proof -
  have l: "klive s f = Some 1" "klive s (get_field f fitem_ptr s) = Some 1" using assms(2) by (simp_all add: new_item_def file_item_def)
  let ?s = "set_field p i v s"
  have k: "klive ?s = klive s" by (rule kheap_store(2) [OF assms(1,3)]) (use set_field_outside [of p 1024 _ i v s] assms(6) in simp_all)
  have "\<forall>x. in_range f 4096 x \<longrightarrow> kmem ?s x = kmem s x" using page_other [OF assms(1,3) l(1) _ assms(6)] assms(4) by blast
  note F = page_bytes(2) [OF this]
  have "\<forall>x. in_range (get_field f fitem_ptr s) 4096 x \<longrightarrow> kmem ?s x = kmem s x" using page_other [OF assms(1,3) l(2) _ assms(6)] assms(5) by blast
  note B = page_bytes(1) [OF this, of 32]
  show p: "get_field f fitem_ptr ?s = get_field f fitem_ptr s" using F [of fitem_ptr] by (simp add: fat_offsets)
  show "new_item s0 ?s f bs" using assms(2) k F [of fitem_type] p B by (simp add: new_item_def file_item_def fat_offsets)
qed

lemma fat16_open_law:
  assumes "kheap_ok s" "root_ready s disk p es" "single_path s path q" "\<forall>bs \<in> set es. entry_ends bs"
    "\<forall>bs \<in> set (named q es). entry_is_file bs" "1 + 2 * length (named q es) \<le> kavail s" "named q es \<noteq> []"
  shows "\<exists>desc s'. fat16_open bus disk path FILE_MODE_READ s = Some (desc, s') \<and> extends s s' \<and> kheap_ok s'
    \<and> kavail s = kavail s' + 1 + 2 * length (named q es) \<and> opened s s' desc (last (named q es)) \<and> desc \<noteq> NULL"
proof -
  obtain desc s1 where z: "kzalloc sizeof_fat_file_descriptor s = (desc, s1)" by fastforce
  note k = kzalloc_page_extends [OF assms(1) _ _ _ z]
  have A: "extends s s1" "kheap_ok s1" "klive s desc = None" "klive s1 = (klive s)(desc \<mapsto> 1)" "kavail s = Suc (kavail s1)" "desc \<noteq> NULL"
    using k(1-6) assms(6) by (simp_all add: sizeof_fat_file_descriptor_def)
  have av: "2 * length (named q es) \<le> kavail s1" using A(5) assms(6) by simp
  obtain f s2 where E: "fat16_get_directory_entry bus disk path s1 = Some (f, s2)" "extends s1 s2" "kheap_ok s2"
      "kavail s1 = kavail s2 + 2 * length (named q es)" "new_item s1 s2 f (last (named q es))"
    using get_entry [OF A(2) root_ready_extends [OF A(1) assms(2)] single_path_extends(1) [OF A(1) assms(3)] assms(4,5) av, of bus] assms(7)
    by auto
  have e2: "extends s s2" by (rule extends_trans [OF A(1) E(2)])
  have live: "klive s1 desc = Some 1" "klive s2 desc = Some 1" using A(4) extends_live [OF E(2)] by simp_all
  have ne: "f \<noteq> desc" "get_field f fitem_ptr s2 \<noteq> desc" "f \<noteq> NULL" using E(5) live by (auto simp: new_item_def file_item_def)
  define s3 where "s3 = set_field desc fdesc_item f s2"
  have C: "extends s s3" "kheap_ok s3" "klive s3 = klive s2" "kavail s3 = kavail s2"
    using page_field [OF e2 E(3) live(2) A(3), of fdesc_item] by (simp_all add: s3_def fat_offsets)
  have "unat fdesc_item < 1024" by (simp add: fat_offsets)
  note O = new_item_other [OF E(3) new_item_later [OF A(1) E(5)] live(2) ne(1,2) this]
  have i3: "new_item s s3 f (last (named q es))" "get_field f fitem_ptr s3 \<noteq> desc" using O ne(2) by (simp_all add: s3_def)
  define s4 where "s4 = set_field desc fdesc_pos 0 s3"
  have live3: "klive s3 desc = Some 1" using live(2) C(3) by simp
  have D: "extends s s4" "kheap_ok s4" "klive s4 = klive s3" "kavail s4 = kavail s3"
    using page_field [OF C(1,2) live3 A(3), of fdesc_pos] by (simp_all add: s4_def fat_offsets)
  have "unat fdesc_pos < 1024" by (simp add: fat_offsets)
  note Q = new_item_other [OF C(2) i3(1) live3 ne(1) i3(2) this]
  have i4: "new_item s s4 f (last (named q es))" "get_field f fitem_ptr s4 \<noteq> desc" using Q i3(2) by (simp_all add: s4_def)
  have g: "get_field desc fdesc_item s3 = f" "get_field desc fdesc_item s4 = f" "get_field desc fdesc_pos s4 = 0"
    by (simp_all add: s4_def s3_def get_set_field fat_offsets)
  then have "opened s s4 desc (last (named q es))" using i4 A(3) live3 D(3) ne(1) by (auto simp: opened_def)
  moreover have "fat16_open bus disk path FILE_MODE_READ s = Some (desc, s4)"
    using z A(6) E(1) g(1) ne(3) by (simp add: fat16_open_def s4_def flip: s3_def)
  ultimately show ?thesis using D A(5,6) E(4) C(4) by (intro exI [of _ desc] exI [of _ s4]) simp
qed

text \<open>Without an entry of that name the descriptor is released again.\<close>

lemma fat16_open_miss:
  assumes "kheap_ok s" "root_ready s disk p es" "single_path s path q" "\<forall>bs \<in> set es. entry_ends bs" "0 < kavail s" "named q es = []"
  shows "\<exists>s'. fat16_open bus disk path FILE_MODE_READ s = Some (ERROR (- EIO), s') \<and> kheap_ok s' \<and> klive s' = klive s
    \<and> s' = s\<lparr>kmem := kmem s'\<rparr> \<and> (\<forall>x. held s x \<longrightarrow> kmem s' x = kmem s x)"
proof -
  obtain desc s1 where z: "kzalloc sizeof_fat_file_descriptor s = (desc, s1)" by fastforce
  note k = kzalloc_page_extends [OF assms(1,5) _ _ z]
  have A: "extends s s1" "kheap_ok s1" "klive s desc = None" "klive s1 = (klive s)(desc \<mapsto> 1)" "desc \<noteq> NULL"
    using k(1-4,6) by (simp_all add: sizeof_fat_file_descriptor_def)
  have E: "fat16_get_directory_entry bus disk path s1 = Some (NULL, s1)"
    using get_entry [OF A(2) root_ready_extends [OF A(1) assms(2)] single_path_extends(1) [OF A(1) assms(3)] assms(4), of bus] assms(6) by auto
  let ?s2 = "set_field desc fdesc_item NULL s1"
  have C: "extends s ?s2" "kheap_ok ?s2" "klive ?s2 = klive s1"
    using page_field [OF A(1,2) _ A(3), of fdesc_item NULL] A(4) by (simp_all add: fat_offsets)
  have F: "freed ?s2 {desc} (kfree desc ?s2)" using freed_insert [OF freed_refl [OF C(2)], of desc 1] C(3) A(4) by simp
  note R = extends_freed [OF C(1) F]
  have "klive ?s2 r = klive s r" if "r \<notin> {desc}" for r using that C(3) A(4) by simp
  moreover have "klive s r = None" if "r \<in> {desc}" for r using that A(3) by simp
  moreover have "fat16_open bus disk path FILE_MODE_READ s = Some (ERROR (- EIO), kfree desc ?s2)"
    using z A(5) E by (simp add: fat16_open_def get_set_field fat_offsets)
  ultimately show ?thesis using R by (intro exI [of _ "kfree desc ?s2"]) auto
qed

section \<open>From the disk to the buffer\<close>

lemma core_single_path: "single_path (core s) path q = single_path s path q"
  by (simp add: single_path_def held_string_def)

lemma single_path_grows: "grows s s' \<Longrightarrow> single_path s path q \<Longrightarrow> single_path s' path q"
  unfolding grows_def using single_path_extends(1) [of "core s" "core s'"] by (simp only: core_single_path)

lemma grows_held: "grows s s' \<Longrightarrow> held s x \<Longrightarrow> held s' x"
  unfolding grows_def using extends_held [of "core s" "core s'"] by simp

lemma grows_fresh:
  assumes "grows s s'" "kheap_ok s'" "klive s' p = Some 1" "klive s p = None" "held s x"
  shows "\<not> in_range p 4096 x"
proof -
  have e: "extends (core s) (core s')" using assms(1) by (simp only: grows_def)
  then have "klive (core s) \<subseteq>\<^sub>m klive (core s')" by (simp only: extends_def)
  then show ?thesis using held_fresh [OF _ _ _ _ extends_heap [OF e], of p 1 x] assms(2-5) by simp
qed

definition root_entries :: "(nat \<Rightarrow> u8) \<Rightarrow> nat \<Rightarrow> nat \<Rightarrow> u8 list list" where
  "root_entries img rs k = map (\<lambda>i. disk_bytes img (rs * 512 + 32 * i) 32) [0..<k]"

lemma mounted_root_ready:
  assumes "kheap_ok s" "disk_fs_private (disks s disk) = p" "klive s p = Some 1" "klive s dir = Some 1"
    "directory_read (private_root_directory p) dir img rs e n s" "n \<le> e" "e \<le> 128"
  shows "root_ready s disk p (root_entries img rs (used_entries img (rs * 512) n))"
proof -
  let ?k = "used_entries img (rs * 512) n"
  have k: "?k \<le> n" unfolding used_entries_def using length_filter_le [of _ "[0..<n]"] by (metis diff_zero length_upt)
  have sub: "in_range dir 4096 x" if "in_range (item_addr dir i) 32 x" "i < 128" for i x
    using in_range_sub [of dir "i * 32" 32 x 4096] that by (simp add: item_addr_def sizeof_item_def)
  have root: "in_range (p + 64) 16 x \<Longrightarrow> in_range p 4096 x" for x using in_range_sub [of p 64 16 x 4096] by simp
  have h: "in_range p 4096 x \<Longrightarrow> held s x" "in_range dir 4096 x \<Longrightarrow> held s x" for x
    using held_page [OF assms(1,3), of x] held_page [OF assms(1,4), of x] by simp_all
  have "bytes_at (kmem s) (item_addr dir i) 32 = disk_bytes img (rs * 512 + 32 * i) 32" if "i < ?k" for i
  proof (rule nth_equalityI)
    fix j assume j: "j < length (bytes_at (kmem s) (item_addr dir i) 32)"
    have "i * 32 + j < e * 32" using j that k assms(6) by simp
    then have "kmem s (dir + of_nat (i * 32 + j)) = img (rs * 512 + (i * 32 + j))" using assms(5) by (simp only: directory_read_def)
    then show "bytes_at (kmem s) (item_addr dir i) 32 ! j = disk_bytes img (rs * 512 + 32 * i) 32 ! j"
      using j by (simp add: item_addr_def sizeof_item_def nth_disk_bytes add.assoc mult.commute)
  qed simp
  then have "dir_entries (kmem s) dir 0 ?k = root_entries img rs ?k" by (simp add: dir_entries_def root_entries_def)
  moreover have "dir_at s (private_root_directory p) dir ?k"
    using assms(5-7) k h sub root by (auto simp: dir_at_def directory_read_def private_root_directory_def)
  moreover have "sint (get_field (private_root_directory p) dir_total s) = int ?k"
    using assms(5-7) k by (simp add: directory_read_def sint_small unat_of_nat take_bit_nat_eq_self)
  moreover have "length (root_entries img rs ?k) = ?k" by (simp add: root_entries_def)
  ultimately show ?thesis using assms(2) unfolding root_ready_def by metis
qed

lemma mounted_extends:
  assumes "extends s s'" "kheap_ok s" "klive s p = Some 1" "mounted s disk p spc es st"
  shows "mounted s' disk p spc es st"
proof -
  have m: "kmem s' x = kmem s x" if "in_range p 4096 x" for x by (rule extends_page [OF assms(1-3) that])
  have f: "get_field p i s' = get_field p i s" if "unat i < 1024" for i by (rule extends_page_field [OF assms(1-3) that])
  obtain k where k: "s' = s\<lparr>kmem := k\<rparr>" using assms(1) unfolding extends_def by blast
  have "in_range p 4096 (p + of_nat 13)" by (rule in_range_nth) simp_all
  then have "header_sectors_per_cluster (kmem s') p = header_sectors_per_cluster (kmem s) p"
    using m [of "p + 13"] by (simp add: header_sectors_per_cluster_def)
  moreover have "disks s' = disks s" "streams s' = streams s" "disk_var s' = disk_var s" by (simp_all add: k)
  ultimately show ?thesis using assms(4) unfolding mounted_def root_field f [of "16 + dir_ending_sector_pos", simplified fat_offsets, simplified]
    using f [of private_cluster_read_stream] f [of "16 + dir_ending_sector_pos"] by (simp add: fat_offsets)
qed

definition entry_cluster :: "u8 list \<Rightarrow> u32" where
  "entry_cluster bs = fat16_get_first_cluster (write_bytes (\<lambda>_. 0) 0 bs) 0"

lemma entry_cluster:
  assumes "bytes_at m item 32 = bs"
  shows "fat16_get_first_cluster m item = entry_cluster bs"
proof -
  have b: "m (item + of_nat j) = write_bytes (\<lambda>_. 0) 0 bs (of_nat j)" if "j < 32" for j
    using write_bytes_nth [of j bs "\<lambda>_. 0" 0] that assms by auto
  show ?thesis
    using b [of 20] b [of 21] b [of 26] b [of 27]
    by (simp add: entry_cluster_def fat16_get_first_cluster_def item_high_first_cluster_def item_low_first_cluster_def load16_def add.assoc)
qed

text \<open>Reading a file just opened, into memory that was in use before and is not the private data.\<close>

lemma fat16_read_opened:
  assumes "ata_contract bus ata img" "ata_idle ata (hw s)" "mounted s disk p spc es st" "grows s0 s" "kheap_ok s" "opened s0 s desc bs"
    "entry_cluster bs = of_nat c" "2 \<le> c" "c < 2 ^ 31" "0 < sz" "k * sz \<le> spc * 512" "cluster_pos spc es c + k * sz < 2 ^ 31"
    "k < 2 ^ 31" "sz < 2 ^ 31" "\<forall>x. in_range out (k * sz) x \<longrightarrow> held s0 x \<and> \<not> in_range p 4096 x"
  shows "\<exists>s'. fat16_read bus disk desc (of_nat sz) (of_nat k) out s = Some (int k, s')
    \<and> kmem s' = write_bytes (kmem s) out (disk_bytes img (cluster_pos spc es c) (k * sz)) \<and> ata_idle ata (hw s')"
proof -
  define item where "item = get_field (get_field desc fdesc_item s) fitem_ptr s"
  have o: "get_field desc fdesc_pos s = 0" "klive s0 item = None" "klive s item = Some 1" "bytes_at (kmem s) item 32 = bs"
    using assms(6) by (simp_all add: opened_def new_item_def file_item_def item_def)
  have "apart out (k * sz) p item"
    unfolding apart_def disjoint_ranges_def
  proof (intro conjI allI impI)
    fix x assume x: "in_range out (k * sz) x"
    show "\<not> in_range p 92 x" using assms(15) x in_range_mono [of p 92 x 4096] by auto
    show "\<not> in_range item 32 x"
      using grows_fresh [OF assms(4,5) o(3,2), of x] assms(15) x in_range_mono [of item 32 x 4096] by auto
  qed
  moreover have "fat16_get_first_cluster (kmem s) item = of_nat c" using entry_cluster [OF o(4)] assms(7) by simp
  ultimately obtain s' where "fat16_read_members bus disk item k (int 0) (of_nat sz) out s = Some (None, s')"
      "kmem s' = write_bytes (kmem s) out (disk_bytes img (cluster_pos spc es c + 0) (k * sz))" "ata_idle ata (hw s')"
    using read_members [OF assms(1-3,8) _ assms(9,10), of item 0 k out] assms(11,12,14) by auto
  moreover have "unat (of_nat k :: u32) = k" "sint (of_nat k :: u32) = int k"
    using assms(13) by (simp_all add: sint_small unat_of_nat take_bit_nat_eq_self)
  ultimately show ?thesis using o(1) by (simp add: fat16_read_def flip: item_def)
qed

end
