(* ===== verification/Files.thy ===== *)
theory Files
  imports Open
begin

text \<open>
  From the boot disk to the buffer of a reader: \<open>disk_search_and_init\<close>, \<open>fopen\<close> and \<open>fread\<close> with the FAT16 driver
  behind them. The kernel loads every program this way.
\<close>

section \<open>Mounting at boot\<close>

text \<open>\<open>volume_mounted s p dir \<dots>\<close>: the boot disk is mounted with the private data \<open>p\<close> and the root directory \<open>dir\<close>.\<close>

definition volume_mounted ::
  "('d, 'a) file_state_scheme \<Rightarrow> addr \<Rightarrow> addr \<Rightarrow> (nat \<Rightarrow> u8) \<Rightarrow> nat \<Rightarrow> nat \<Rightarrow> nat \<Rightarrow> nat \<Rightarrow> bool" where
  "volume_mounted s p dir img spc rs e n \<longleftrightarrow>
     disk_filesystem (disks s (disk_var s)) = fat16_fs s \<and> klive s p = Some 1 \<and> klive s dir = Some 1
     \<and> directory_read (private_root_directory p) dir img rs e n s
     \<and> (\<exists>st. mounted s (disk_var s) p spc (rs + dir_sectors e) st)"

lemma boot_mount_law:
  fixes s :: "('d, 'a) file_state_scheme"
  assumes "ata_contract bus ata img" "ata_idle ata (hw s)" "kheap_ok s" "6 \<le> kavail s" "disk_var s \<noteq> NULL"
    "fat_volume img spc rs e n" "filesystems s = fat16_fs s # fss" "fat16_fs s \<noteq> NULL" "ops (fat16_fs s) = fat16_ops bus"
  shows "\<exists>p dir s'. disk_search_and_init ops s = Some s' \<and> kheap_ok s' \<and> grows s s' \<and> kavail s = kavail s' + 5
    \<and> tabs s' = tabs s \<and> fat16_fs s' = fat16_fs s \<and> klive s p = None \<and> klive s dir = None \<and> volume_mounted s' p dir img spc rs e n
    \<and> ata_idle ata (hw s')"
proof -
  let ?d = "disk_var s"
  define s0 where "s0 = s\<lparr>disks := (disks s)(?d := \<lparr>disk_type = ALPHAOS_DISK_TYPE_REAL, disk_sector_size = ALPHAOS_SECTOR_SIZE, disk_ident = 0,
    disk_filesystem = NULL, disk_fs_private = NULL\<rparr>)\<rparr>"
  have f: "kmem s0 = kmem s" "kernel_heap s0 = kernel_heap s" "hw s0 = hw s" "disk_var s0 = ?d" "filesystems s0 = filesystems s"
    "fat16_fs s0 = fat16_fs s" "disk_ident (disks s0 ?d) = 0" "disk_sector_size (disks s0 ?d) = 512" "tabs s0 = tabs s"
    by (simp_all add: s0_def ALPHAOS_SECTOR_SIZE_def)
  note h = same_core(1-3) [OF f(1,2)]
  have "ata_idle ata (hw s0)" "kheap_ok s0" "6 \<le> kavail s0" "?d = disk_var s0" using assms(2-4) f h by simp_all
  from fat16_resolve_law [OF assms(1) this assms(5) f(7,8) assms(6)] obtain p st dir s1
    where r: "fat16_resolve bus ?d s0 = Some (0, s1)" "kheap_ok s1" "grows s0 s1" "kavail s0 = kavail s1 + 5"
      "disk_filesystem (disks s1 ?d) = fat16_fs s0" "klive s0 p = None" "klive s1 p = Some 1" "mounted s1 ?d p spc (rs + dir_sectors e) st"
      "klive s0 dir = None" "klive s1 dir = Some 1" "directory_read (private_root_directory p) dir img rs e n s1" "ata_idle ata (hw s1)"
      "fat16_fs s1 = fat16_fs s0" by blast
  have t: "tabs s1 = tabs s" using alwaysD [OF tabs_resolve [OF f(9)] r(1)] by simp
  then have d1: "disk_var s1 = ?d" by (simp add: tabs_def)
  define s2 where "s2 = set_disk ?d (\<lambda>d. d\<lparr>disk_filesystem := fat16_fs s\<rparr>) s1"
  have "disks s2 = disks s1" using r(5) f(6) by (simp add: s2_def set_disk_def fun_upd_idem)
  then have s2: "s2 = s1" by (simp add: s2_def set_disk_def)
  have "fs_resolve ops ?d s0 = Some (fat16_fs s, s1)"
    using assms(7-9) r(1) f(5) by (simp add: fs_resolve_def fat16_ops_def)
  moreover have "disk_search_and_init ops s = fs_resolve ops ?d s0 \<bind> (\<lambda>(fs, s). Some (set_disk (disk_var s) (\<lambda>d. d\<lparr>disk_filesystem := fs\<rparr>) s))"
    unfolding disk_search_and_init_def Let_def by (simp add: set_disk_def s0_def)
  ultimately have "disk_search_and_init ops s = Some s1" using s2 d1 by (simp add: s2_def)
  moreover have "volume_mounted s1 p dir img spc rs e n"
    using r(5,7,8,10,11,13) d1 f(6) by (auto simp: volume_mounted_def)
  moreover have "grows s s1" using r(3) core_cong [OF f(1,2)] by (simp add: grows_def)
  ultimately show ?thesis using r t h f(6) by (intro exI [of _ p] exI [of _ dir] exI [of _ s1]) simp
qed

section \<open>Writing a new page beside an open file\<close>

lemma opened_cong:
  assumes "opened s0 s d bs" "klive s' = klive s"
    "\<forall>q \<in> {d, get_field d fdesc_item s, get_field (get_field d fdesc_item s) fitem_ptr s}. \<forall>x. in_range q 4096 x \<longrightarrow> kmem s' x = kmem s x"
  shows "opened s0 s' d bs" "get_field d fdesc_item s' = get_field d fdesc_item s"
    "get_field (get_field d fdesc_item s) fitem_ptr s' = get_field (get_field d fdesc_item s) fitem_ptr s"
proof -
  let ?f = "get_field d fdesc_item s"
  have m: "\<forall>x. in_range d 4096 x \<longrightarrow> kmem s' x = kmem s x" "\<forall>x. in_range ?f 4096 x \<longrightarrow> kmem s' x = kmem s x"
    "\<forall>x. in_range (get_field ?f fitem_ptr s) 4096 x \<longrightarrow> kmem s' x = kmem s x" using assms(3) by blast+
  note D = page_bytes(2) [OF m(1)] and F = page_bytes(2) [OF m(2)] and I = page_bytes(1) [OF m(3), of 32]
  show e: "get_field d fdesc_item s' = ?f" "get_field ?f fitem_ptr s' = get_field ?f fitem_ptr s"
    using D [of fdesc_item] F [of fitem_ptr] by (simp_all add: fat_offsets)
  show "opened s0 s' d bs"
    using assms(1,2) e I D [of fdesc_pos] F [of fitem_type] by (simp add: opened_def new_item_def file_item_def fat_offsets)
qed

definition pages_of :: "'a kheap_state_scheme \<Rightarrow> addr \<Rightarrow> addr set" where
  "pages_of s d = {d, get_field d fdesc_item s, get_field (get_field d fdesc_item s) fitem_ptr s}"

lemma opened_live: "opened s0 s d bs \<Longrightarrow> q \<in> pages_of s d \<Longrightarrow> klive s q = Some 1"
  by (auto simp: opened_def pages_of_def new_item_def file_item_def)

lemma opened_extends:
  assumes "extends s s'" "kheap_ok s" "opened s0 s d bs"
  shows "opened s0 s' d bs" "pages_of s' d = pages_of s d"
proof -
  have l: "klive s q = Some 1" if "q \<in> pages_of s d" for q using opened_live [OF assms(3) that] .
  have f: "get_field d i s' = get_field d i s" if "unat i < 1024" for i
    using l that by (intro extends_page_field [OF assms(1,2)]) (simp_all add: pages_of_def)
  have e: "get_field d fdesc_item s' = get_field d fdesc_item s" "get_field d fdesc_pos s' = get_field d fdesc_pos s"
    using f by (simp_all add: fat_offsets)
  have p: "get_field (get_field d fdesc_item s) fitem_ptr s' = get_field (get_field d fdesc_item s) fitem_ptr s"
    using l by (intro extends_page_field [OF assms(1,2)]) (simp_all add: pages_of_def fat_offsets)
  show "pages_of s' d = pages_of s d" using e p by (simp add: pages_of_def)
  show "opened s0 s' d bs"
    using assms(3) e p extends_live [OF assms(1), of d] new_item_extends [OF assms(1,2)] by (simp add: opened_def)
qed

text \<open>The structure of the virtual file system, on a page of its own.\<close>

lemma fill_descriptor_outside: "\<not> in_range desc 4096 x \<Longrightarrow> kmem (fill_descriptor desc ix fs pd disk s) x = kmem s x"
  by (simp add: fill_descriptor_def set_field_outside [of desc 1024] fd_offsets)

lemma fill_descriptor_kmem: "fill_descriptor desc ix fs pd disk s = s\<lparr>kmem := kmem (fill_descriptor desc ix fs pd disk s)\<rparr>"
  by (simp add: fill_descriptor_def set_field_def)

lemma fill_descriptor_page:
  fixes ix fs pd disk :: u32
  assumes "extends s0 s" "kheap_ok s" "klive s desc = Some 1" "klive s0 desc = None"
  defines "s' \<equiv> fill_descriptor desc ix fs pd disk s"
  shows "extends s0 s'" "kheap_ok s'" "klive s' = klive s" "kavail s' = kavail s"
proof -
  have "\<forall>x. \<not> in_range desc 4096 x \<longrightarrow> kmem s' x = kmem s x" by (simp add: s'_def fill_descriptor_outside)
  from page_store [OF assms(1-4) this] show "extends s0 s'" "kheap_ok s'" "klive s' = klive s" "kavail s' = kavail s"
    unfolding s'_def fill_descriptor_kmem [symmetric] .
qed

lemma fill_descriptor_opened:
  fixes ix fs w disk :: u32
  assumes "kheap_ok s" "klive s desc = Some 1" "opened s1 s pd bs" "desc \<notin> pages_of s pd"
  defines "s' \<equiv> fill_descriptor desc ix fs w disk s"
  shows "opened s1 s' pd bs" "pages_of s' pd = pages_of s pd"
proof -
  have "kmem s' x = kmem s x" if q: "q \<in> pages_of s pd" "in_range q 4096 x" for q x
  proof -
    have "desc \<noteq> q" using assms(4) q(1) by blast
    then have "\<not> in_range desc 4096 x" using klive_page_disjoint [OF assms(1,2) opened_live [OF assms(3) q(1)]] q(2) by blast
    then show ?thesis unfolding s'_def by (rule fill_descriptor_outside)
  qed
  then have m: "\<forall>q \<in> pages_of s pd. \<forall>x. in_range q 4096 x \<longrightarrow> kmem s' x = kmem s x" by blast
  have k: "klive s' = klive s"
    unfolding s'_def by (intro kheap_store(2) [OF assms(1,2)]) (simp_all add: fill_descriptor_outside, simp add: fill_descriptor_def)
  note c = opened_cong [OF assms(3) k m [unfolded pages_of_def]]
  show "opened s1 s' pd bs" "pages_of s' pd = pages_of s pd" using c by (simp_all add: pages_of_def)
qed

section \<open>Opening by name\<close>

text \<open>The heap of the kernel lies below 2 GB, so that no address of it looks like an error code.\<close>

definition pool_low :: "'a kheap_state_scheme \<Rightarrow> bool" where
  "pool_low s \<longleftrightarrow> unat (saddr (kernel_heap s)) + heap_blocks (kernel_heap s) * 4096 \<le> 2 ^ 31"

lemma low_addr:
  assumes "kheap_ok s" "klive s p = Some 1" "pool_low s"
  shows "\<not> ISERR p"
proof -
  have "unat p + 1 * 4096 \<le> unat (saddr (kernel_heap s)) + heap_blocks (kernel_heap s) * 4096"
    using heap_live_addr(5) [of "kernel_heap s" "kmem s" p 1] assms(1,2) by (simp add: kheap_ok_def klive_def)
  then have "unat p < 2 ^ 31" using assms(3) by (simp add: pool_low_def)
  then show ?thesis by (simp add: ISERR_def sint_small)
qed

lemma path_of_one:
  assumes "root_at s root d [q] P" "length q < 4096"
  shows "\<exists>a. root_first (kmem s) root = a \<and> a \<noteq> NULL \<and> single_path s a q" "card P = 3" "root \<noteq> NULL" "root_drive_no (kmem s) root = d"
proof -
  obtain qs where qs: "kheap_ok s" "root \<noteq> NULL" "root_drive_no (kmem s) root = d" "parts_at (kmem s) (root_first (kmem s) root) qs"
      "part_names qs = [q]" "distinct (root # part_pages qs)" "P = set (root # part_pages qs)" "\<forall>q \<in> P. klive s q = Some 1"
    using assms(1) unfolding root_at_def by blast
  obtain a b where ab: "qs = [(a, b, q)]" using qs(5) by (auto simp: part_names_def map_eq_Cons_conv)
  have a: "root_first (kmem s) root = a" "a \<noteq> NULL" "part_part (kmem s) a = b" "cstring (kmem s) b q" "part_next (kmem s) a = NULL"
    using qs(4) by (simp_all add: ab)
  have "klive s a = Some 1" "klive s b = Some 1" using qs(7,8) by (simp_all add: ab)
  then have "in_range a 4096 x \<Longrightarrow> held s x" "in_range b 4096 x \<Longrightarrow> held s x" for x
    using held_page [OF qs(1), of a 1 x] held_page [OF qs(1), of b 1 x] by simp_all
  then have "single_path s a q"
    using a assms(2) in_range_mono [of a 8 _ 4096] in_range_mono [of b "Suc (length q)" _ 4096] by (simp add: single_path_def held_string_def)
  then show "\<exists>a. root_first (kmem s) root = a \<and> a \<noteq> NULL \<and> single_path s a q" using a(1,2) by blast
  show "card P = 3" using qs(6,7) by (simp add: ab)
  show "root \<noteq> NULL" "root_drive_no (kmem s) root = d" by (fact qs)+
qed

text \<open>Parsing \<open>0:/\<close> and one name: three pages, and the name as the only part.\<close>

lemma parse_single:
  assumes "kheap_ok s" "held_string s filename (path_string 0x30 q)" "q \<noteq> []" "slash \<notin> set q" "length q \<le> 105" "4 \<le> kavail s"
  shows "\<exists>root s1 a. pathparser_parse filename NULL s = Some (root, s1) \<and> extends s s1 \<and> kheap_ok s1 \<and> kavail s = kavail s1 + 3
    \<and> root_first (kmem s1) root = a \<and> a \<noteq> NULL \<and> single_path s1 a q \<and> root \<noteq> NULL \<and> root_drive_no (kmem s1) root = 0"
proof -
  have tw: "takeWhile (\<lambda>c. c \<noteq> slash) q = q" using assms(4) by (auto simp: takeWhile_eq_all_conv)
  have "path_parts q = [q]"
    unfolding path_parts.simps [of q] Let_def tw using assms(3) by (simp add: path_parts.simps [of "[]"])
  then have q: "path_parts q = [q]" "isdigit 0x30" "tonumericdigit 0x30 = 0" by (simp_all add: isdigit_def tonumericdigit_def)
  obtain root s1 P where r: "pathparser_parse filename NULL s = Some (root, s1)" "root_at s1 root 0 [q] P" "extends s s1" "kavail s = kavail s1 + card P"
    using pathparser_parse_law [OF assms(1,2) q(2) assms(5), of NULL] assms(6) q by auto
  have "kheap_ok s1" using r(2) by (simp add: root_at_def)
  then show ?thesis using path_of_one [OF r(2)] assms(5) r by auto
qed

lemma opened_later: "extends s0 s1 \<Longrightarrow> opened s1 s d bs \<Longrightarrow> opened s0 s d bs"
  unfolding opened_def using extends_fresh new_item_later by blast

lemma fopen_law:
  fixes s :: "('d, 'a) file_state_scheme"
  assumes "kheap_ok s" "pool_low s" "held_string s filename (path_string 0x30 q)" "q \<noteq> []" "slash \<notin> set q" "length q \<le> 105"
    "disk_var s \<noteq> NULL" "disk_filesystem (disks s (disk_var s)) = fs" "fs \<noteq> NULL" "ops fs = fat16_ops bus"
    "root_ready s (disk_var s) p es" "\<forall>bs \<in> set es. entry_ends bs" "\<forall>bs \<in> set (named q es). entry_is_file bs" "named q es \<noteq> []"
    "5 + 2 * length (named q es) \<le> kavail s" "first_free (file_descriptors s) 0 = Some i" "i < 511"
  shows "\<exists>desc pd s3. extends s s3 \<and> kheap_ok s3 \<and> kavail s = kavail s3 + 5 + 2 * length (named q es) \<and> opened s s3 pd (last (named q es))
    \<and> klive s3 desc = Some 1 \<and> klive s desc = None \<and> desc \<notin> pages_of s3 pd
    \<and> get_field desc fd_index s3 = of_nat (Suc i) \<and> get_field desc fd_filesystem s3 = fs \<and> get_field desc fd_private s3 = pd
    \<and> get_field desc fd_disk s3 = disk_var s
    \<and> fopen_mode ops filename (\<lambda>_. FILE_MODE_READ) s = Some (int (Suc i), s3\<lparr>file_descriptors := (file_descriptors s)[i := desc]\<rparr>)"
proof -
  have av4: "4 \<le> kavail s" using assms(14,15) by (cases "named q es") auto
  obtain root s1 a where r: "pathparser_parse filename NULL s = Some (root, s1)" "kheap_ok s1" "extends s s1" "kavail s = kavail s1 + 3"
      and a: "root_first (kmem s1) root = a" "a \<noteq> NULL" "single_path s1 a q" "root \<noteq> NULL" "root_drive_no (kmem s1) root = 0"
    using parse_single [OF assms(1,3-6) av4] by blast
  obtain m1 where m1: "s1 = s\<lparr>kmem := m1\<rparr>" using r(3) unfolding extends_def by blast
  have av: "1 + 2 * length (named q es) \<le> kavail s1" using assms(15) r(4) by simp
  obtain pd s2 where o: "fat16_open bus (disk_var s) a FILE_MODE_READ s1 = Some (pd, s2)" "extends s1 s2" "kheap_ok s2"
      "kavail s1 = kavail s2 + 1 + 2 * length (named q es)" "opened s1 s2 pd (last (named q es))"
    using fat16_open_law [OF r(2) root_ready_extends [OF r(3) assms(11)] a(3) assms(12,13) av assms(14), of bus] by blast
  have e2: "extends s s2" by (rule extends_trans [OF r(3) o(2)])
  obtain m2 where m2: "s2 = s\<lparr>kmem := m2\<rparr>" using e2 unfolding extends_def by blast
  have low: "\<not> ISERR pd" using o(5) assms(2) by (intro low_addr [OF o(3)]) (simp_all add: opened_def pool_low_def m2)
  obtain desc s3 where z: "kzalloc sizeof_file_descriptor s2 = (desc, s3)" by fastforce
  have "0 < kavail s2" using o(4) r(4) assms(15) by simp
  note k = kzalloc_page_extends [OF o(3) this _ _ z]
  have k: "extends s2 s3" "kheap_ok s3" "klive s2 desc = None" "klive s3 desc = Some 1" "kavail s2 = Suc (kavail s3)"
    using k(1-5) by (simp_all add: sizeof_file_descriptor_def)
  have e3: "extends s s3" by (rule extends_trans [OF e2 k(1)])
  obtain m3 where m3: "s3 = s\<lparr>kmem := m3\<rparr>" using e3 unfolding extends_def by blast
  note O = opened_extends [OF k(1) o(3,5)]
  have np: "desc \<notin> pages_of s3 pd" using opened_live [OF o(5)] k(3) O(2) by auto
  have d0: "klive s desc = None" by (rule extends_fresh [OF e2 k(3)])
  note F = fill_descriptor_page [OF e3 k(2,4) d0, of "of_nat (Suc i)" fs pd "disk_var s"]
    and P = fill_descriptor_opened [OF k(2,4) O(1) np, of "of_nat (Suc i)" fs pd "disk_var s"]
  let ?s' = "fill_descriptor desc (of_nat (Suc i)) fs pd (disk_var s) s3"
  have "sint (of_nat (Suc i) :: u32) = int (Suc i)"
    using assms(17) by (subst sint_small) (simp_all only: unat_of_nat, simp_all add: take_bit_nat_eq_self)
  then have "fopen_result ops filename (\<lambda>_. FILE_MODE_READ) s =
      Some (int (Suc i), ?s'\<lparr>file_descriptors := (file_descriptors s)[i := desc]\<rparr>)"
  proof -
    have d: "disk_get 0 s1 = disk_var s" "disk_filesystem (disks s1 (disk_var s)) = fs" "FILE_MODE_READ \<noteq> FILE_MODE_INVALID"
      "op_open (ops fs) = fat16_open bus" "disks s2 = disks s" "file_descriptors s2 = file_descriptors s" "disks s3 = disks s" "file_descriptors s3 = file_descriptors s"
      using assms(8,10) by (simp_all add: disk_get_def m1 m2 m3 FILE_MODE_READ_def FILE_MODE_INVALID_def fat16_ops_def)
    have n: "file_new_descriptor s2 = (0, desc, (set_field desc fd_index (of_nat (Suc i)) s3)\<lparr>file_descriptors := (file_descriptors s)[i := desc]\<rparr>)"
      using z d(6,8) assms(16) by (simp add: file_new_descriptor_def set_field_def)
    have "get_field desc fd_index (?s'\<lparr>file_descriptors := (file_descriptors s)[i := desc]\<rparr>) = of_nat (Suc i)"
      by (simp only: get_field_fds fill_descriptor_fields)
    then show ?thesis
      using r(1) a assms(7-9) d o(1) low n \<open>sint (of_nat (Suc i)) = int (Suc i)\<close>
      by (simp add: fopen_result_def Let_def set_field_fds fill_descriptor_def del: of_nat_Suc)
  qed
  then have "fopen_mode ops filename (\<lambda>_. FILE_MODE_READ) s = Some (int (Suc i), ?s'\<lparr>file_descriptors := (file_descriptors s)[i := desc]\<rparr>)"
    by (simp add: fopen_mode_def)
  moreover have "kavail s = kavail ?s' + 5 + 2 * length (named q es)" using F(4) k(5) o(4) r(4) by simp
  moreover have "opened s ?s' pd (last (named q es))" by (rule opened_later [OF r(3) P(1)])
  moreover have "desc \<notin> pages_of ?s' pd" using np unfolding P(2) .
  ultimately show ?thesis
    using F(1-3) k(4) d0 by (intro exI [of _ desc] exI [of _ pd] exI [of _ ?s']) (simp only: fill_descriptor_fields simp_thms)
qed

text \<open>A name that is not among the entries the driver looks at.\<close>

lemma fopen_miss:
  fixes s :: "('d, 'a) file_state_scheme"
  assumes "kheap_ok s" "held_string s filename (path_string 0x30 q)" "q \<noteq> []" "slash \<notin> set q" "length q \<le> 105"
    "disk_var s \<noteq> NULL" "disk_filesystem (disks s (disk_var s)) = fs" "fs \<noteq> NULL" "ops fs = fat16_ops bus"
    "root_ready s (disk_var s) p es" "\<forall>bs \<in> set es. entry_ends bs" "named q es = []" "4 \<le> kavail s"
  shows "\<exists>s'. fopen_mode ops filename (\<lambda>_. FILE_MODE_READ) s = Some (0, s') \<and> s' = s\<lparr>kmem := kmem s'\<rparr> \<and> kheap_ok s'"
proof -
  obtain root s1 a where r: "pathparser_parse filename NULL s = Some (root, s1)" "extends s s1" "kheap_ok s1" "kavail s = kavail s1 + 3"
      "root_first (kmem s1) root = a" "a \<noteq> NULL" "single_path s1 a q" "root \<noteq> NULL" "root_drive_no (kmem s1) root = 0"
    using parse_single [OF assms(1-5,13)] by blast
  obtain m1 where m1: "s1 = s\<lparr>kmem := m1\<rparr>" using r(2) unfolding extends_def by blast
  have "0 < kavail s1" using r(4) assms(13) by simp
  then obtain s2 where o: "fat16_open bus (disk_var s) a FILE_MODE_READ s1 = Some (ERROR (- EIO), s2)" "kheap_ok s2" "s2 = s1\<lparr>kmem := kmem s2\<rparr>"
    using fat16_open_miss [OF r(3) root_ready_extends [OF r(2) assms(10)] r(7) assms(11) _ assms(12), of bus] by blast
  have d: "disk_get 0 s1 = disk_var s" "disk_filesystem (disks s1 (disk_var s)) = fs" "FILE_MODE_READ \<noteq> FILE_MODE_INVALID"
    "op_open (ops fs) = fat16_open bus" "ISERR (ERROR (- EIO))" "ERROR_I (ERROR (- EIO)) < 0"
    using assms(7,9) by (simp_all add: disk_get_def m1 FILE_MODE_READ_def FILE_MODE_INVALID_def fat16_ops_def ISERR_def ERROR_def ERROR_I_def EIO_def)
  have "fopen_mode ops filename (\<lambda>_. FILE_MODE_READ) s = Some (0, s2)"
    using r(1,5,6,8,9) assms(6,8) d o(1) by (simp add: fopen_mode_def fopen_result_def)
  moreover have "s2 = s\<lparr>kmem := kmem s2\<rparr>" using o(3) by (rule ssubst) (simp add: m1)
  ultimately show ?thesis using o(2) by blast
qed

section \<open>Opening, whatever the path names\<close>

text \<open>
  \<open>descriptor_installed s i pdata disk s'\<close>: from \<open>s\<close> to \<open>s'\<close> a descriptor came into being, an allocation of one block
  that was free, with its four fields, in slot \<open>i\<close> of the table; nothing else in use has changed.
\<close>

definition descriptor_installed :: "('d, 'a) file_state_scheme \<Rightarrow> nat \<Rightarrow> addr \<Rightarrow> addr \<Rightarrow> ('d, 'a) file_state_scheme \<Rightarrow> bool" where
  "descriptor_installed s i pdata disk s' \<longleftrightarrow> (\<exists>desc. desc \<noteq> NULL \<and> klive s desc = None \<and> klive s' = (klive s)(desc \<mapsto> 1)
     \<and> kheap_ok s' \<and> kavail s = Suc (kavail s') \<and> (\<forall>x. held s x \<longrightarrow> kmem s' x = kmem s x)
     \<and> get_field desc fd_index s' = of_nat (i + 1) \<and> get_field desc fd_filesystem s' = disk_filesystem (disks s disk)
     \<and> get_field desc fd_private s' = pdata \<and> get_field desc fd_disk s' = disk
     \<and> file_descriptors s' = (file_descriptors s)[i := desc] \<and> filesystems s' = filesystems s \<and> disk_var s' = disk_var s)"

lemma kavail_none:
  assumes "kheap_ok s" "kavail s = 0" "0 < unat sz" "unat sz \<le> 4096"
  shows "kzalloc sz s = (NULL, s)"
proof -
  have e: "\<not> free_entry x" if "x \<in> set (ktable s)" for x
    using assms(2) that by (auto simp: kavail_def filter_empty_conv)
  have b: "blocks_of sz = 1" using assms(3,4) by (simp add: blocks_of_1)
  have "\<not> fits (ktable s) 1 b" for b using e by (auto simp: fits_def)
  moreover have "ktable s = [] \<or> \<not> free_entry (last (ktable s))" using e by auto
  ultimately have "heap_malloc (kernel_heap s) sz (kmem s) = (NULL, kmem s)"
    using heap_malloc_exhausted [of "kernel_heap s" "kmem s" sz] by (simp add: b ktable_def)
  then show ?thesis by (simp add: kzalloc_def kmalloc_def os_defs)
qed

lemma fill_installs:
  assumes "kheap_ok s" "0 < kavail s" "kzalloc sizeof_file_descriptor s = (desc, s3)" "file_descriptors s = fds"
  shows "descriptor_installed s i pdata disk
    ((fill_descriptor desc (of_nat (i + 1)) (disk_filesystem (disks s disk)) pdata disk s3)\<lparr>file_descriptors := fds[i := desc]\<rparr>)"
proof -
  note k = kzalloc_page_extends [OF assms(1,2) _ _ assms(3)]
  have k: "extends s s3" "kheap_ok s3" "klive s desc = None" "klive s3 = (klive s)(desc \<mapsto> 1)" "kavail s = Suc (kavail s3)" "desc \<noteq> NULL"
    using k(1-6) by (simp_all add: sizeof_file_descriptor_def)
  have l: "klive s3 desc = Some 1" by (simp add: k(4))
  let ?s = "fill_descriptor desc (of_nat (i + 1)) (disk_filesystem (disks s disk)) pdata disk s3"
  note F = fill_descriptor_page [OF k(1,2) l k(3), of "of_nat (i + 1)" "disk_filesystem (disks s disk)" pdata disk]
  have t: "filesystems ?s = filesystems s" "disk_var ?s = disk_var s"
    using tabs_fill_descriptor [of desc "of_nat (i + 1)" "disk_filesystem (disks s disk)" pdata disk s3] tabs_kzallocD [OF assms(3)]
    by (simp_all add: tabs_def)
  have "\<forall>x. held s x \<longrightarrow> kmem ?s x = kmem s x" using extends_mem [OF F(1)] by blast
  then show ?thesis
    unfolding descriptor_installed_def using k(3-6) F(2-4) t assms(4)
    by (intro exI [of _ desc]) (simp add: get_field_fds fill_descriptor_fields del: of_nat_Suc of_nat_add)
qed

text \<open>
  C19: what \<open>fopen\<close> does, for every path, mode and disk, where the path parser and the driver return. When the path does not parse, names no file, no mounted disk, or the
  mode is none of \<open>r\<close>, \<open>w\<close>, \<open>a\<close>, the result is 0. Otherwise the driver is asked. If it
  returns an error, or all 512 slots are taken, the result is 0; in all these cases the tables are as before. Otherwise,
  if the heap is well formed when the driver is done,
  the result is the number of the first free slot, counted from 1, and if a block of the heap is free the slot now holds a
  descriptor of its own: a live allocation that was none before, with the number, the file system of the disk, the
  driver's data and the disk in it, everything else in use being unchanged. With no block free the
  same number is returned, though the tables are as before and no file can be reached under it: the result of
  \<open>kzalloc\<close> is not checked.
\<close>

theorem fopen_installs_descriptor:
  fixes s :: "('d, 'a) file_state_scheme"
  assumes "length (file_descriptors s) = 512" "pathparser_parse filename NULL s = Some (root, s1)"
  shows "(\<not> openable root (file_get_mode_by_string (kmem s1) mode) s1 \<longrightarrow>
      fopen (\<lambda>_. fat16_ops bus) filename mode s = Some (0, s1) \<and> tabs s1 = tabs s)
    \<and> (\<forall>pdata s2. openable root (file_get_mode_by_string (kmem s1) mode) s1 \<longrightarrow>
      fat16_open bus (path_disk root s1) (root_first (kmem s1) root) (file_get_mode_by_string (kmem s1) mode) s1 = Some (pdata, s2) \<longrightarrow>
        (ISERR pdata \<or> NULL \<notin> set (file_descriptors s) \<longrightarrow>
          fopen (\<lambda>_. fat16_ops bus) filename mode s = Some (0, s2) \<and> tabs s2 = tabs s)
      \<and> (\<forall>i. \<not> ISERR pdata \<longrightarrow> first_free (file_descriptors s) 0 = Some i \<longrightarrow> kheap_ok s2 \<longrightarrow>
          (\<exists>s'. fopen (\<lambda>_. fat16_ops bus) filename mode s = Some (int (i + 1), s')
            \<and> (if 0 < kavail s2 then descriptor_installed s2 i pdata (path_disk root s1) s' \<and> tabs s2 = tabs s else tabs s' = tabs s))))"
proof (intro conjI allI impI)
  assume "\<not> openable root (file_get_mode_by_string (kmem s1) mode) s1"
  note f = fat.fopen_not_openable [where mode_of = "\<lambda>m. file_get_mode_by_string m mode" and bus = bus, OF assms(2) this]
  show "fopen (\<lambda>_. fat16_ops bus) filename mode s = Some (0, s1)" "tabs s1 = tabs s" using f by (simp_all add: fopen_def)
next
  fix pdata s2
  assume o: "openable root (file_get_mode_by_string (kmem s1) mode) s1"
    "fat16_open bus (path_disk root s1) (root_first (kmem s1) root) (file_get_mode_by_string (kmem s1) mode) s1 = Some (pdata, s2)"
  have op: "op_open (fat16_ops bus) (path_disk root s1) (root_first (kmem s1) root) (file_get_mode_by_string (kmem s1) mode) s1 = Some (pdata, s2)"
    using o(2) by (simp add: fat16_ops_def)
  note f = fat.fopen_asks_driver [where mode_of = "\<lambda>m. file_get_mode_by_string m mode" and bus = bus, OF assms(2) o(1) op, folded fopen_def]
  show "fopen (\<lambda>_. fat16_ops bus) filename mode s = Some (0, s2)" "tabs s2 = tabs s"
    if "ISERR pdata \<or> NULL \<notin> set (file_descriptors s)"
    using f(1,2) that by blast+
  show "\<exists>s'. fopen (\<lambda>_. fat16_ops bus) filename mode s = Some (int (i + 1), s')
      \<and> (if 0 < kavail s2 then descriptor_installed s2 i pdata (path_disk root s1) s' \<and> tabs s2 = tabs s else tabs s' = tabs s)"
    if h: "\<not> ISERR pdata" "first_free (file_descriptors s) 0 = Some i" "kheap_ok s2" for i
  proof -
    have i: "i < 512" "file_descriptors s ! i = NULL" using h(2) assms(1) by (simp_all add: first_free_Some)
    have fds: "file_descriptors s2 = file_descriptors s" using f(1) by (simp add: tabs_def)
    obtain desc s3 where k: "kzalloc sizeof_file_descriptor s2 = (desc, s3)" by fastforce
    note r = f(3) [OF h(1,2) i(1) k]
    show ?thesis
    proof (cases "0 < kavail s2")
      case True
      then show ?thesis using r fill_installs [OF h(3) True k fds] f(1) by auto
    next
      case False
      then have "desc = NULL" "s3 = s2" using kavail_none [OF h(3)] k by (simp_all add: sizeof_file_descriptor_def)
      then have "(file_descriptors s)[i := desc] = file_descriptors s" using i(2) by (metis list_update_id)
      moreover have "tabs (x\<lparr>file_descriptors := file_descriptors s\<rparr>) = tabs s" if "tabs x = tabs s" for x :: "('d, 'a) file_state_scheme"
        using that by (simp add: tabs_def)
      ultimately show ?thesis using r False f(1) \<open>s3 = s2\<close> by (simp add: tabs_fill_descriptor)
    qed
  qed
qed

section \<open>Reading by descriptor\<close>

lemma opened_fds:
  fixes s :: "('d, 'a) file_state_scheme"
  shows "opened s0 (s\<lparr>file_descriptors := x\<rparr>) d bs = opened s0 s d bs" "mounted (s\<lparr>file_descriptors := x\<rparr>) disk p spc es st = mounted s disk p spc es st"
    "get_field q j (s\<lparr>file_descriptors := x\<rparr>) = get_field q j s" "grows s1 (s\<lparr>file_descriptors := x\<rparr>) = grows s1 s"
  using grows_cong [of "s\<lparr>file_descriptors := x\<rparr>" s s1]
  by (simp_all add: opened_def new_item_def file_item_def mounted_def get_field_def)

lemma opened_open_file:
  fixes s :: "('d, 'a) file_state_scheme"
  assumes "kheap_ok s" "opened s0 s pd bs" "klive s desc = Some 1" "desc \<notin> pages_of s pd" "i < 511"
    "get_field desc fd_index s = of_nat (Suc i)" "get_field desc fd_private s = pd" "file_descriptors s ! i = desc"
  shows "open_file s (int (Suc i)) desc pd (get_field pd fdesc_item s) (get_field (get_field pd fdesc_item s) fitem_ptr s)"
proof -
  let ?f = "get_field pd fdesc_item s"
  have o: "klive s pd = Some 1" "pd \<noteq> ?f" "pd \<noteq> get_field ?f fitem_ptr s" "klive s ?f = Some 1" "klive s (get_field ?f fitem_ptr s) = Some 1"
    "get_field ?f fitem_ptr s \<noteq> ?f" "get_field ?f fitem_type s = FAT_ITEM_TYPE_FILE"
    using assms(2) by (auto simp: opened_def new_item_def file_item_def)
  moreover have "desc \<noteq> pd" "desc \<noteq> ?f" "desc \<noteq> get_field ?f fitem_ptr s" using assms(4) by (auto simp: pages_of_def)
  moreover have "NULL \<noteq> r" if "klive s r = Some 1" for r using klive_nonnull [OF assms(1) that] by simp
  ultimately show ?thesis using assms(3,5-8) by (auto simp: open_file_def)
qed

lemma fread_law:
  fixes s :: "('d, 'a) file_state_scheme"
  assumes "ata_contract bus ata img" "ata_idle ata (hw s)" "mounted s disk p spc es st" "grows s0 s" "kheap_ok s" "opened s0 s pd bs"
    "entry_cluster bs = of_nat c" "2 \<le> c" "c < 2 ^ 31" "0 < sz" "0 < k" "k * sz \<le> spc * 512" "cluster_pos spc es c + k * sz < 2 ^ 31"
    "\<forall>x. in_range out (k * sz) x \<longrightarrow> held s0 x \<and> \<not> in_range p 4096 x" "i < 511" "file_descriptors s ! i = desc" "desc \<noteq> NULL"
    "get_field desc fd_filesystem s = fs" "get_field desc fd_private s = pd" "get_field desc fd_disk s = disk" "ops fs = fat16_ops bus"
  shows "\<exists>s'. fread ops out (of_nat sz) (of_nat k) (int (Suc i)) s = Some (int k, s')
    \<and> bytes_at (kmem s') out (k * sz) = disk_bytes img (cluster_pos spc es c) (k * sz)"
proof -
  have lt: "k < 2 ^ 31" "sz < 2 ^ 31" "k * sz < 2 ^ 31"
  proof -
    show "k * sz < 2 ^ 31" using assms(13) by simp
    moreover have "k \<le> k * sz" "sz \<le> k * sz" using assms(10,11) by simp_all
    ultimately show "k < 2 ^ 31" "sz < 2 ^ 31" by linarith+
  qed
  obtain s' where s': "fat16_read bus disk pd (of_nat sz) (of_nat k) out s = Some (int k, s')"
      "kmem s' = write_bytes (kmem s) out (disk_bytes img (cluster_pos spc es c) (k * sz))"
    using fat16_read_opened [OF assms(1-10,12,13) lt(1,2) assms(14)] by blast
  have nz: "(of_nat sz :: u32) \<noteq> 0" "(of_nat k :: u32) \<noteq> 0"
    using lt assms(10,11) by (simp_all add: word_unat_eq_iff unat_of_nat take_bit_nat_eq_self)
  have "file_get_descriptor (int (Suc i)) s = desc"
    using assms(15,16) by (simp add: file_get_descriptor_def ALPHAOS_MAX_FILEDESCRIPTORS_def)
  then have "fread ops out (of_nat sz) (of_nat k) (int (Suc i)) s = Some (int k, s')"
    using nz assms(17-21) s'(1) by (simp add: fread_def fat16_ops_def)
  moreover have "bytes_at (kmem s') out (k * sz) = disk_bytes img (cluster_pos spc es c) (k * sz)"
    using bytes_at_write_bytes [of "disk_bytes img (cluster_pos spc es c) (k * sz)" "kmem s" out] lt(3) by (simp add: s'(2))
  ultimately show ?thesis by blast
qed

section \<open>Properties\<close>

lemma core_held_string: "held_string (core s) p str = held_string s p str"
  by (simp add: held_string_def)

lemma held_string_grows: "grows s s' \<Longrightarrow> held_string s p str \<Longrightarrow> held_string s' p str"
  unfolding grows_def using held_string_extends [of "core s" p str "core s'"] by (simp only: core_held_string)

lemma mode_r: "file_get_mode_by_string (buffer (ascii ''r'')) 0 = FILE_MODE_READ"
  by (simp add: file_get_mode_by_string_def buffer_def ascii_def of_char_def)

text \<open>
  The files of a disk: the entries the driver looks at end properly, those of the name \<open>q\<close> are files, and the
  last of them starts at cluster \<open>c\<close>.
\<close>

definition file_on_disk :: "(nat \<Rightarrow> u8) \<Rightarrow> nat \<Rightarrow> nat \<Rightarrow> u8 list \<Rightarrow> nat \<Rightarrow> bool" where
  "file_on_disk img rs n q c \<longleftrightarrow> (let es = root_entries img rs (used_entries img (rs * 512) n) in
     (\<forall>bs \<in> set es. entry_ends bs) \<and> (\<forall>bs \<in> set (named q es). entry_is_file bs) \<and> named q es \<noteq> []
     \<and> entry_cluster (last (named q es)) = of_nat c \<and> 2 \<le> c \<and> c < 2 ^ 31)"

text \<open>The kernel when it looks for its disk: the FAT16 driver is registered and the heap is set up.\<close>

definition boot_ready :: "'d ata \<Rightarrow> 'd bus \<Rightarrow> (addr \<Rightarrow> ('d, 'a) file_state_scheme fs_ops) \<Rightarrow> ('d, 'a) file_state_scheme \<Rightarrow> bool" where
  "boot_ready ata bus ops s \<longleftrightarrow> ata_idle ata (hw s) \<and> kheap_ok s \<and> pool_low s \<and> disk_var s \<noteq> NULL
     \<and> filesystems s \<noteq> [] \<and> hd (filesystems s) = fat16_fs s \<and> fat16_fs s \<noteq> NULL \<and> ops (fat16_fs s) = fat16_ops bus"

lemma boot_root_law:
  fixes s :: "('d, 'a) file_state_scheme"
  assumes "ata_contract bus ata img" "boot_ready ata bus ops s" "fat_volume img spc rs e n" "n \<le> e" "6 \<le> kavail s"
  shows "\<exists>p st s1. disk_search_and_init ops s = Some s1 \<and> kheap_ok s1 \<and> grows s s1 \<and> kavail s = kavail s1 + 5 \<and> tabs s1 = tabs s
    \<and> klive s p = None \<and> klive s1 p = Some 1 \<and> ata_idle ata (hw s1) \<and> disk_filesystem (disks s1 (disk_var s1)) = fat16_fs s
    \<and> mounted s1 (disk_var s1) p spc (rs + dir_sectors e) st
    \<and> root_ready s1 (disk_var s1) p (root_entries img rs (used_entries img (rs * 512) n))
    \<and> pool_low s1 \<and> disk_var s1 \<noteq> NULL"
proof -
  note b = assms(2) [unfolded boot_ready_def]
  obtain fss where fs: "filesystems s = fat16_fs s # fss" using b by (cases "filesystems s") auto
  obtain p dir s1 where M: "disk_search_and_init ops s = Some s1" "kheap_ok s1" "grows s s1" "kavail s = kavail s1 + 5" "tabs s1 = tabs s"
      "fat16_fs s1 = fat16_fs s" "klive s p = None" "volume_mounted s1 p dir img spc rs e n" "ata_idle ata (hw s1)"
    using boot_mount_law [OF assms(1) _ _ assms(5) _ assms(3) fs] b by blast
  obtain st where v: "disk_filesystem (disks s1 (disk_var s1)) = fat16_fs s" "klive s1 p = Some 1" "klive s1 dir = Some 1"
      "directory_read (private_root_directory p) dir img rs e n s1" "mounted s1 (disk_var s1) p spc (rs + dir_sectors e) st"
    using M(6,8) unfolding volume_mounted_def by auto
  have e: "e \<le> 128" using assms(3) by (simp add: fat_volume_def root_layout_def)
  have pr: "disk_fs_private (disks s1 (disk_var s1)) = p" using v(5) by (simp add: mounted_def)
  note R = mounted_root_ready [OF M(2) pr v(2-4) assms(4) e]
  have "pool_low s1" "disk_var s1 \<noteq> NULL" using b growsD(1) [OF M(3)] M(5) by (simp_all add: pool_low_def tabs_def)
  then show ?thesis using M v(1,2,5) R by blast
qed

lemma boot_file_law:
  fixes s :: "('d, 'a) file_state_scheme"
  assumes "ata_contract bus ata img" "boot_ready ata bus ops s" "fat_volume img spc rs e n" "n \<le> e" "file_on_disk img rs n q c"
    "held_string s filename (path_string 0x30 q)" "q \<noteq> []" "slash \<notin> set q" "length q \<le> 105"
    "10 + 2 * length (named q (root_entries img rs (used_entries img (rs * 512) n))) \<le> kavail s"
    "first_free (file_descriptors s) 0 = Some i" "i < 511" "0 < sz" "0 < k" "k * sz \<le> spc * 512"
    "cluster_pos spc (rs + dir_sectors e) c + k * sz < 2 ^ 31" "\<forall>x. in_range out (k * sz) x \<longrightarrow> held s x"
  shows "\<exists>s1 s2 s3 desc pd item ritem. disk_search_and_init ops s = Some s1 \<and> fopen_r ops filename s1 = Some (int (Suc i), s2)
    \<and> kavail s1 = kavail s2 + 5 + 2 * length (named q (root_entries img rs (used_entries img (rs * 512) n)))
    \<and> open_file s2 (int (Suc i)) desc pd item ritem
    \<and> fread ops out (of_nat sz) (of_nat k) (int (Suc i)) s2 = Some (int k, s3)
    \<and> bytes_at (kmem s3) out (k * sz) = disk_bytes img (cluster_pos spc (rs + dir_sectors e) c) (k * sz)"
proof -
  let ?es = "root_entries img rs (used_entries img (rs * 512) n)"
  note b = assms(2) [unfolded boot_ready_def] and f = assms(5) [unfolded file_on_disk_def Let_def]
  have av: "6 \<le> kavail s" using assms(10) by simp
  obtain p st s1 where M: "disk_search_and_init ops s = Some s1" "kheap_ok s1" "grows s s1" "kavail s = kavail s1 + 5" "tabs s1 = tabs s"
      "klive s p = None" "klive s1 p = Some 1" "ata_idle ata (hw s1)"
    and v: "disk_filesystem (disks s1 (disk_var s1)) = fat16_fs s" "mounted s1 (disk_var s1) p spc (rs + dir_sectors e) st"
      "root_ready s1 (disk_var s1) p ?es" "pool_low s1" "disk_var s1 \<noteq> NULL"
    using boot_root_law [OF assms(1-4) av] by blast
  have h: "held_string s1 filename (path_string 0x30 q)" "5 + 2 * length (named q ?es) \<le> kavail s1"
    "first_free (file_descriptors s1) 0 = Some i"
    using held_string_grows [OF M(3) assms(6)] M(5) assms(10,11) M(4) by (simp_all add: tabs_def)
  obtain desc pd s2 where O: "extends s1 s2" "kheap_ok s2" "kavail s1 = kavail s2 + 5 + 2 * length (named q ?es)" "opened s1 s2 pd (last (named q ?es))"
      "klive s2 desc = Some 1" "klive s1 desc = None" "desc \<notin> pages_of s2 pd"
      "get_field desc fd_index s2 = of_nat (Suc i)" "get_field desc fd_filesystem s2 = fat16_fs s" "get_field desc fd_private s2 = pd"
      "get_field desc fd_disk s2 = disk_var s1"
      "fopen_mode ops filename (\<lambda>_. FILE_MODE_READ) s1 = Some (int (Suc i), s2\<lparr>file_descriptors := (file_descriptors s1)[i := desc]\<rparr>)"
    using fopen_law [OF M(2) v(4) h(1) assms(7-9) v(5,1) _ _ v(3) _ _ _ h(2,3) assms(12), where bus = bus and ops = ops] b f by blast
  let ?s = "s2\<lparr>file_descriptors := (file_descriptors s1)[i := desc]\<rparr>"
  obtain m where m: "s2 = s1\<lparr>kmem := m\<rparr>" using O(1) unfolding extends_def by blast
  have il: "i < length (file_descriptors s1)" using h(3) by (simp add: first_free_Some)
  have A: "kheap_ok ?s" "opened s1 ?s pd (last (named q ?es))" "klive ?s desc = Some 1" "desc \<notin> pages_of ?s pd"
    "get_field desc fd_index ?s = of_nat (Suc i)" "get_field desc fd_private ?s = pd" "file_descriptors ?s ! i = desc" "grows s1 ?s"
    "mounted ?s (disk_var s1) p spc (rs + dir_sectors e) st" "ata_idle ata (hw ?s)"
    "get_field desc fd_filesystem ?s = fat16_fs s" "get_field desc fd_disk ?s = disk_var s1" "desc \<noteq> NULL"
    using O(2,4-11) il extends_grows [OF O(1)] mounted_extends [OF O(1) M(2,7) v(2)] M(8) klive_nonnull [OF O(2,5)]
    by (simp_all add: opened_fds pages_of_def m del: of_nat_Suc)
  have opf: "open_file ?s (int (Suc i)) desc pd (get_field pd fdesc_item ?s) (get_field (get_field pd fdesc_item ?s) fitem_ptr ?s)"
    by (rule opened_open_file [OF A(1-4) assms(12) A(5-7)])
  have buf: "\<forall>x. in_range out (k * sz) x \<longrightarrow> held s1 x \<and> \<not> in_range p 4096 x"
    using assms(17) grows_held [OF M(3)] grows_fresh [OF M(3,2,7,6)] by blast
  have c: "entry_cluster (last (named q ?es)) = of_nat c" "2 \<le> c" "c < 2 ^ 31" using f by blast+
  have op: "ops (fat16_fs s) = fat16_ops bus" using b by blast
  obtain s3 where r: "fread ops out (of_nat sz) (of_nat k) (int (Suc i)) ?s = Some (int k, s3)"
      "bytes_at (kmem s3) out (k * sz) = disk_bytes img (cluster_pos spc (rs + dir_sectors e) c) (k * sz)"
    using fread_law [OF assms(1) A(10,9,8,1,2) c assms(13-16) buf assms(12) A(7,13,11,6,12), where ops = ops] op by blast
  have "fopen_r ops filename s1 = Some (int (Suc i), ?s)" using O(12) by (simp add: fopen_r_def mode_r)
  moreover have "kavail s1 = kavail ?s + 5 + 2 * length (named q ?es)" using O(3) by simp
  ultimately show ?thesis using M(1) opf r by blast
qed

text \<open>C14: a file of the boot disk is read. After \<open>disk_search_and_init\<close> has mounted a disk with a FAT16 volume,
  \<open>fopen\<close> of \<open>0:/\<close> and a name of its root directory returns the number of the first free slot, with a file open on it;
  reading \<open>k\<close> members of \<open>size\<close> bytes that lie in the first cluster of the file returns \<open>k\<close>, and the buffer then holds exactly
  the bytes of the disk from that cluster on. The driver takes the last entry of the name, without regard to
  case. Each \<open>fopen\<close> takes five blocks and two for every entry of the name, of which \<open>fclose\<close> gives four back: the
  parsed path is never released.\<close>

theorem boot_file_read:
  fixes s :: "('d, 'a) file_state_scheme"
  assumes "ata_contract bus ata img" "boot_ready ata bus ops s" "fat_volume img spc rs e n" "n \<le> e" "file_on_disk img rs n q c"
    "held_string s filename (path_string 0x30 q)" "q \<noteq> []" "slash \<notin> set q" "length q \<le> 105"
    "10 + 2 * length (named q (root_entries img rs (used_entries img (rs * 512) n))) \<le> kavail s"
    "first_free (file_descriptors s) 0 = Some i" "i < 511" "0 < sz" "0 < k" "k * sz \<le> spc * 512"
    "cluster_pos spc (rs + dir_sectors e) c + k * sz < 2 ^ 31" "\<forall>x. in_range out (k * sz) x \<longrightarrow> held s x"
  shows "\<exists>s1 s2 s3 desc pd item ritem. disk_search_and_init ops s = Some s1 \<and> fopen_r ops filename s1 = Some (int (Suc i), s2)
    \<and> kavail s1 = kavail s2 + 5 + 2 * length (named q (root_entries img rs (used_entries img (rs * 512) n)))
    \<and> open_file s2 (int (Suc i)) desc pd item ritem
    \<and> fread ops out (of_nat sz) (of_nat k) (int (Suc i)) s2 = Some (int k, s3)
    \<and> bytes_at (kmem s3) out (k * sz) = disk_bytes img (cluster_pos spc (rs + dir_sectors e) c) (k * sz)"
  by (rule boot_file_law [OF assms])

text \<open>C15: a file that stands behind deleted entries is not found. The driver counts the entries of the root directory that are
  not deleted and then looks at as many from the front, deleted ones included. \<open>fopen\<close> of a name that is not among
  these returns 0, however many entries of that name follow.\<close>

theorem boot_file_hidden:
  fixes s :: "('d, 'a) file_state_scheme"
  assumes "ata_contract bus ata img" "boot_ready ata bus ops s" "fat_volume img spc rs e n" "n \<le> e" "9 \<le> kavail s"
    "\<forall>bs \<in> set (root_entries img rs (used_entries img (rs * 512) n)). entry_ends bs \<and> \<not> same_name (entry_name bs) q"
    "held_string s filename (path_string 0x30 q)" "q \<noteq> []" "slash \<notin> set q" "length q \<le> 105"
  shows "\<exists>s1 s2. disk_search_and_init ops s = Some s1 \<and> fopen_r ops filename s1 = Some (0, s2) \<and> kheap_ok s2
    \<and> file_descriptors s2 = file_descriptors s"
proof -
  have av: "6 \<le> kavail s" using assms(5) by simp
  obtain p st s1 where M: "disk_search_and_init ops s = Some s1" "kheap_ok s1" "grows s s1" "kavail s = kavail s1 + 5" "tabs s1 = tabs s"
    and v: "disk_filesystem (disks s1 (disk_var s1)) = fat16_fs s" "disk_var s1 \<noteq> NULL"
      "root_ready s1 (disk_var s1) p (root_entries img rs (used_entries img (rs * 512) n))"
    using boot_root_law [OF assms(1-4) av] by blast
  have nm: "named q (root_entries img rs (used_entries img (rs * 512) n)) = []" using assms(6) by (auto simp: named_def)
  have av1: "4 \<le> kavail s1" using M(4) assms(5) by simp
  have fs: "fat16_fs s \<noteq> NULL" "ops (fat16_fs s) = fat16_ops bus" using assms(2) by (simp_all add: boot_ready_def)
  have en: "\<forall>bs \<in> set (root_entries img rs (used_entries img (rs * 512) n)). entry_ends bs" using assms(6) by blast
  obtain s2 where o: "fopen_mode ops filename (\<lambda>_. FILE_MODE_READ) s1 = Some (0, s2)" "s2 = s1\<lparr>kmem := kmem s2\<rparr>" "kheap_ok s2"
    using fopen_miss [OF M(2) held_string_grows [OF M(3) assms(7)] assms(8-10) v(2,1) fs(1) _ v(3) en nm av1, where ops = ops and bus = bus] fs(2) by blast
  have "file_descriptors s2 = file_descriptors s1" by (subst o(2)) simp
  then show ?thesis using M(1,5) o(1,3) by (simp add: fopen_r_def mode_r tabs_def)
qed

text \<open>
  The witness: the volume of \<^verbatim>\<open>boot.asm\<close> with one file, the shell, and the kernel about to mount it, with the name
  of the file and the mode string "r" in its memory.
\<close>

definition shell_entry :: "u8 list" where
  "shell_entry = ascii ''SHELL   ELF'' @ 0x20 # replicate 14 0 @ [2, 0, 0, 0, 0, 0]"

definition shell_disk :: "nat \<Rightarrow> u8" where
  "shell_disk = (\<lambda>n. if 364544 \<le> n \<and> n < 364576 then shell_entry ! (n - 364544) else
     ((\<lambda>_. 0)(13 := 0x80, 14 := 200, 16 := 2, 17 := 0x40, 23 := 1, 38 := 0x29, 366592 := 0x7F, 366593 := 0x45, 366594 := 0x4C, 366595 := 0x46)) n)"

lemma shell_disk:
  "fat_volume shell_disk 128 712 64 1" "used_entries shell_disk (712 * 512) 1 = 1" "root_entries shell_disk 712 1 = [shell_entry]"
proof -
  have l: "length shell_entry = 32" by (simp add: shell_entry_def ascii_def)
  have e: "shell_disk (364544 + j) = shell_entry ! j" if "j < 32" for j using that by (simp add: shell_disk_def)
  have "shell_entry ! 0 = 0x53" by (simp add: shell_entry_def ascii_def of_char_def)
  then have "shell_disk 364544 = 0x53" using e [of 0] by simp
  moreover have "shell_disk 364576 = 0" by (simp add: shell_disk_def)
  ultimately show "fat_volume shell_disk 128 712 64 1" "used_entries shell_disk (712 * 512) 1 = 1"
    by (simp_all add: fat_volume_def root_layout_def header_signature_def header_sectors_per_cluster_def header_fat_copies_def
      header_sectors_per_fat_def header_reserved_sectors_def header_root_dir_entries_def load16_def boot_header_def
      ALPHAOS_FAT16_SIGNATURE_def dir_ends_def used_entries_def) (simp_all add: shell_disk_def)
  have "disk_bytes shell_disk 364544 32 = shell_entry"
    by (rule nth_equalityI) (simp_all add: l nth_disk_bytes e)
  then show "root_entries shell_disk 712 1 = [shell_entry]" by (simp add: root_entries_def)
qed

lemma shell_name: "entry_name shell_entry = ascii ''SHELL.ELF''" "entry_ends shell_entry" "entry_is_file shell_entry"
  "entry_cluster shell_entry = 2" "same_name (ascii ''SHELL.ELF'') (ascii ''shell.elf'')"
proof -
  show "entry_name shell_entry = ascii ''SHELL.ELF''" "entry_ends shell_entry" "entry_is_file shell_entry"
    by (simp_all add: entry_name_def entry_ends_def entry_is_file_def shell_entry_def ascii_def of_char_def stops_def dos_name_def
      FAT_FILE_SUBDIRECTORY_def)
  show "entry_cluster shell_entry = 2"
    by (simp add: entry_cluster_def fat16_get_first_cluster_def item_high_first_cluster_def item_low_first_cluster_def load16_def
      shell_entry_def ascii_def of_char_def write_bytes_apply in_range_unat nth_append)
  show "same_name (ascii ''SHELL.ELF'') (ascii ''shell.elf'')"
    by (simp add: same_name_def ascii_def of_char_def tolower_def)
qed

definition shell_path :: mem where
  "shell_path = write_bytes ((\<lambda>_. 0)(0x300 := 0x72)) 0x100 (path_string 0x30 (ascii ''shell.elf''))"

definition boot_demo :: "sim_drive file_state" where
  "boot_demo = kheap_init (file_demo\<lparr>kmem := shell_path, fat16_fs := 0x5000, filesystems := 0x5000 # replicate 11 0,
     file_descriptors := replicate 512 0\<rparr>)"

lemma boot_demo:
  "boot_ready sim_ata (sim_bus shell_disk) (\<lambda>_. fat16_ops (sim_bus shell_disk)) boot_demo" "kavail boot_demo = 25600"
  "held_string boot_demo 0x100 (path_string 0x30 (ascii ''shell.elf''))" "\<forall>x. in_range 0x200 4 x \<longrightarrow> held boot_demo x"
  "first_free (file_descriptors boot_demo) 0 = Some 0" "length (file_descriptors boot_demo) = 512"
  "held_string boot_demo 0x300 (ascii ''r'')"
proof -
  note law = kheap_init_law [of "file_demo\<lparr>kmem := shell_path, fat16_fs := 0x5000, filesystems := 0x5000 # replicate 11 0,
     file_descriptors := replicate 512 0\<rparr>", folded boot_demo_def]
  show "kavail boot_demo = 25600" using law by blast
  have hp: "kernel_heap boot_demo = \<lparr>table = \<lparr>entries = 0x7E00, total = 25600\<rparr>, saddr = 0x1000000\<rparr>"
    by (simp add: boot_demo_def kheap_init_eq)
  have fs: "hw boot_demo = hw file_demo" "disk_var boot_demo = 0x100000" "fat16_fs boot_demo = 0x5000" "filesystems boot_demo = 0x5000 # replicate 11 0"
    "file_descriptors boot_demo = replicate 512 0" by (simp_all add: boot_demo_def kheap_init_eq file_demo_def)
  show "boot_ready sim_ata (sim_bus shell_disk) (\<lambda>_. fat16_ops (sim_bus shell_disk)) boot_demo"
    using law by (simp add: boot_ready_def fs pool_low_def hp heap_blocks_def file_demo_def sim_ata_def)
  have out: "held boot_demo x" if "unat x < 0x1000" for x
    using that by (simp add: held_def in_table_def in_pool_def hp heap_blocks_def in_range_unat)
  have len: "length (path_string 0x30 (ascii ''shell.elf'')) = 12" by (simp add: length_path_string ascii_def)
  have low: "unat x < 0x1000" if "in_range 0x100 13 x \<or> in_range 0x200 4 x" for x using that by (auto simp: in_range_unat)
  have "cstring shell_path 0x100 (path_string 0x30 (ascii ''shell.elf''))"
    by (simp add: shell_path_def path_string_def ascii_def of_char_def)
  then have "cstring (kmem boot_demo) 0x100 (path_string 0x30 (ascii ''shell.elf''))"
  proof (rule cstring_cong)
    fix x assume "in_range 0x100 (Suc (length (path_string 0x30 (ascii ''shell.elf'')))) x"
    then have "\<not> in_range 0x7E00 25600 x" using low [of x] len by (auto simp: in_range_unat)
    then show "kmem boot_demo x = shell_path x" using law by auto
  qed
  then show "held_string boot_demo 0x100 (path_string 0x30 (ascii ''shell.elf''))"
    using out low len by (simp add: held_string_def)
  show "\<forall>x. in_range 0x200 4 x \<longrightarrow> held boot_demo x" using out low by blast
  show "first_free (file_descriptors boot_demo) 0 = Some 0" by (simp add: fs numeral_eq_Suc)
  show "length (file_descriptors boot_demo) = 512" by (simp add: fs)
  have "kmem boot_demo x = shell_path x" if "unat x < 0x1000" for x
  proof -
    have "\<not> in_range 0x7E00 25600 x" using that by (simp add: in_range_unat)
    then show ?thesis using law by auto
  qed
  then show "held_string boot_demo 0x300 (ascii ''r'')"
    using out by (simp add: held_string_def shell_path_def write_bytes_apply in_range_unat path_string_def ascii_def of_char_def)
qed

lemma mode_string_r:
  assumes "cstring m p (ascii ''r'')" shows "file_get_mode_by_string m p = FILE_MODE_READ"
  using assms by (simp add: file_get_mode_by_string_def buffer_def ascii_def of_char_def)

theorem fopen_installs_descriptor_witness:
  "\<exists>s s2 pdata s'. disk_search_and_init (\<lambda>_. fat16_ops (sim_bus shell_disk)) boot_demo = Some s
     \<and> fopen (\<lambda>_. fat16_ops (sim_bus shell_disk)) 0x100 0x300 s = Some (1, s') \<and> descriptor_installed s2 0 pdata (disk_var s) s'"
proof -
  let ?q = "ascii ''shell.elf''"
  have nm: "named ?q [shell_entry] = [shell_entry]" using shell_name by (simp add: named_def)
  have q: "?q \<noteq> []" "slash \<notin> set ?q" "length ?q \<le> 105" by (simp_all add: ascii_def of_char_def)
  have av: "6 \<le> kavail boot_demo" using boot_demo(2) by simp
  obtain p s where M: "disk_search_and_init (\<lambda>_. fat16_ops (sim_bus shell_disk)) boot_demo = Some s" "kheap_ok s" "grows boot_demo s"
      "kavail boot_demo = kavail s + 5" "tabs s = tabs boot_demo" "disk_filesystem (disks s (disk_var s)) = fat16_fs boot_demo"
      "root_ready s (disk_var s) p [shell_entry]" "pool_low s" "disk_var s \<noteq> NULL"
    using boot_root_law [OF sim_contract boot_demo(1) shell_disk(1) _ av] shell_disk(2,3) by auto
  have fs: "disk_filesystem (disks s (disk_var s)) \<noteq> NULL" using M(6) boot_demo(1) by (simp add: boot_ready_def)
  obtain root s1 a where r: "pathparser_parse 0x100 NULL s = Some (root, s1)" "extends s s1" "kheap_ok s1" "kavail s = kavail s1 + 3"
      and a: "root_first (kmem s1) root = a" "a \<noteq> NULL" "single_path s1 a ?q" "root \<noteq> NULL" "root_drive_no (kmem s1) root = 0"
    using parse_single [OF M(2) held_string_grows [OF M(3) boot_demo(3)] q] M(4) boot_demo(2) by auto
  obtain m1 where m1: "s1 = s\<lparr>kmem := m1\<rparr>" using r(2) unfolding extends_def by blast
  have pd: "path_disk root s1 = disk_var s" using a(5) by (simp add: path_disk_def disk_get_def m1)
  have "held_string s1 0x300 (ascii ''r'')"
    using held_string_extends [OF held_string_grows [OF M(3) boot_demo(7)] r(2)] .
  then have md: "file_get_mode_by_string (kmem s1) 0x300 = FILE_MODE_READ" by (simp add: mode_string_r held_string_def)
  have av1: "1 + 2 * length (named ?q [shell_entry]) \<le> kavail s1" using nm r(4) M(4) boot_demo(2) by simp
  obtain pdata s2 where o: "fat16_open (sim_bus shell_disk) (disk_var s) a FILE_MODE_READ s1 = Some (pdata, s2)" "extends s1 s2" "kheap_ok s2"
      "kavail s1 = kavail s2 + 1 + 2 * length (named ?q [shell_entry])" "opened s1 s2 pdata (last (named ?q [shell_entry]))"
    using fat16_open_law [OF r(3) root_ready_extends [OF r(2) M(7)] a(3) _ _ av1, of "sim_bus shell_disk"] shell_name nm by auto
  have "pool_low s2" using M(8) extends_heap [OF o(2)] extends_heap [OF r(2)] by (simp add: pool_low_def)
  then have low: "\<not> ISERR pdata" using o(5) by (intro low_addr [OF o(3)]) (simp_all add: opened_def)
  have op: "openable root (file_get_mode_by_string (kmem s1) 0x300) s1"
    unfolding openable_def pd md using a fs M(9) by (simp add: m1 FILE_MODE_READ_def FILE_MODE_INVALID_def)
  have "0 < kavail s2" "first_free (file_descriptors s) 0 = Some 0" "length (file_descriptors s) = 512"
    using o(4) r(4) M(4,5) boot_demo(2,5,6) nm by (simp_all add: tabs_def)
  then have "\<exists>s'. fopen (\<lambda>_. fat16_ops (sim_bus shell_disk)) 0x100 0x300 s = Some (1, s') \<and> descriptor_installed s2 0 pdata (disk_var s) s'"
    using fopen_installs_descriptor [OF _ r(1), where mode = "0x300" and bus = "sim_bus shell_disk"] op o(1,3) low unfolding pd md a(1) by auto
  then show ?thesis using M(1) by blast
qed

theorem boot_file_read_witness:
  "\<exists>s1 s2 s3. disk_search_and_init (\<lambda>_. fat16_ops (sim_bus shell_disk)) boot_demo = Some s1
     \<and> fopen_r (\<lambda>_. fat16_ops (sim_bus shell_disk)) 0x100 s1 = Some (1, s2)
     \<and> fread (\<lambda>_. fat16_ops (sim_bus shell_disk)) 0x200 1 4 1 s2 = Some (4, s3)
     \<and> bytes_at (kmem s3) 0x200 4 = [0x7F, 0x45, 0x4C, 0x46]"
proof -
  have nm: "named (ascii ''shell.elf'') [shell_entry] = [shell_entry]" using shell_name by (simp add: named_def)
  have on: "file_on_disk shell_disk 712 1 (ascii ''shell.elf'') 2"
    using shell_disk shell_name nm by (simp add: file_on_disk_def)
  have av: "10 + 2 * length (named (ascii ''shell.elf'') (root_entries shell_disk 712 (used_entries shell_disk (712 * 512) 1))) \<le> kavail boot_demo"
    using shell_disk nm boot_demo(2) by simp
  have q: "ascii ''shell.elf'' \<noteq> []" "slash \<notin> set (ascii ''shell.elf'')" "length (ascii ''shell.elf'') \<le> 105"
    by (simp_all add: ascii_def of_char_def)
  have "dir_sectors 64 = 4" by (simp add: dir_sectors_def)
  then have cp: "cluster_pos 128 (712 + dir_sectors 64) 2 = 366592" by (simp add: cluster_pos_def)
  have "disk_bytes shell_disk 366592 4 = [0x7F, 0x45, 0x4C, 0x46]" by (simp add: disk_bytes_def shell_disk_def upt_rec)
  then show ?thesis
    using boot_file_read [OF sim_contract boot_demo(1) shell_disk(1) _ on boot_demo(3) q av boot_demo(5), of 1 4 "0x200"] boot_demo(4) cp by auto
qed

text \<open>The same disk with a deleted entry in front of the shell.\<close>

definition deleted_entry :: "u8 list" where
  "deleted_entry = 0xE5 # tl shell_entry"

definition hidden_disk :: "nat \<Rightarrow> u8" where
  "hidden_disk = (\<lambda>n. if 364544 \<le> n \<and> n < 364576 then deleted_entry ! (n - 364544)
     else if 364576 \<le> n \<and> n < 364608 then shell_entry ! (n - 364576)
     else ((\<lambda>_. 0)(13 := 0x80, 14 := 200, 16 := 2, 17 := 0x40, 23 := 1, 38 := 0x29)) n)"

lemma hidden_disk:
  "fat_volume hidden_disk 128 712 64 2" "used_entries hidden_disk (712 * 512) 2 = 1" "root_entries hidden_disk 712 1 = [deleted_entry]"
  "root_entries hidden_disk 712 2 = [deleted_entry, shell_entry]"
proof -
  have l: "length deleted_entry = 32" "length shell_entry = 32" by (simp_all add: deleted_entry_def shell_entry_def ascii_def)
  have d: "hidden_disk (364544 + j) = deleted_entry ! j" if "j < 32" for j using that by (simp add: hidden_disk_def)
  have e: "hidden_disk (364576 + j) = shell_entry ! j" if "j < 32" for j using that by (simp add: hidden_disk_def)
  have "shell_entry ! 0 = 0x53" "deleted_entry ! 0 = 0xE5" by (simp_all add: deleted_entry_def shell_entry_def ascii_def of_char_def)
  then have "hidden_disk 364544 = 0xE5" "hidden_disk 364576 = 0x53" using d [of 0] e [of 0] by simp_all
  moreover have "hidden_disk 364608 = 0" by (simp add: hidden_disk_def)
  moreover have "hidden_disk 13 = 0x80" "hidden_disk 14 = 200" "hidden_disk 15 = 0" "hidden_disk 16 = 2" "hidden_disk 17 = 0x40" "hidden_disk 18 = 0"
    "hidden_disk 22 = 0" "hidden_disk 23 = 1" "hidden_disk 38 = 0x29" by (simp_all add: hidden_disk_def)
  ultimately show "fat_volume hidden_disk 128 712 64 2" "used_entries hidden_disk (712 * 512) 2 = 1"
    by (simp_all add: fat_volume_def root_layout_def header_signature_def header_sectors_per_cluster_def header_fat_copies_def
      header_sectors_per_fat_def header_reserved_sectors_def header_root_dir_entries_def load16_def boot_header_def
      ALPHAOS_FAT16_SIGNATURE_def dir_ends_def used_entries_def less_2_cases_iff all_conj_distrib upt_rec)
  have "disk_bytes hidden_disk 364544 32 = deleted_entry" "disk_bytes hidden_disk 364576 32 = shell_entry"
    by (rule nth_equalityI; simp add: l nth_disk_bytes d e)+
  then show "root_entries hidden_disk 712 1 = [deleted_entry]" "root_entries hidden_disk 712 2 = [deleted_entry, shell_entry]"
    by (simp_all add: root_entries_def upt_rec)
qed

lemma deleted_name: "entry_name deleted_entry = 0xE5 # ascii ''HELL.ELF''" "entry_ends deleted_entry"
  "\<not> same_name (0xE5 # ascii ''HELL.ELF'') (ascii ''shell.elf'')"
proof -
  show "entry_name deleted_entry = 0xE5 # ascii ''HELL.ELF''" "entry_ends deleted_entry"
    by (simp_all add: entry_name_def entry_ends_def deleted_entry_def shell_entry_def ascii_def of_char_def stops_def dos_name_def)
  show "\<not> same_name (0xE5 # ascii ''HELL.ELF'') (ascii ''shell.elf'')"
    by (simp add: same_name_def ascii_def of_char_def tolower_def)
qed

theorem boot_file_hidden_witness:
  "named (ascii ''shell.elf'') (root_entries hidden_disk 712 2) = [shell_entry]
   \<and> (\<exists>s1 s2. disk_search_and_init (\<lambda>_. fat16_ops (sim_bus hidden_disk)) boot_demo = Some s1
     \<and> fopen_r (\<lambda>_. fat16_ops (sim_bus hidden_disk)) 0x100 s1 = Some (0, s2))"
proof -
  have r: "boot_ready sim_ata (sim_bus hidden_disk) (\<lambda>_. fat16_ops (sim_bus hidden_disk)) boot_demo"
    using boot_demo(1) by (simp add: boot_ready_def)
  have es: "\<forall>bs \<in> set (root_entries hidden_disk 712 (used_entries hidden_disk (712 * 512) 2)). entry_ends bs \<and> \<not> same_name (entry_name bs) (ascii ''shell.elf'')"
    unfolding hidden_disk(2,3) using deleted_name by simp
  have q: "ascii ''shell.elf'' \<noteq> []" "slash \<notin> set (ascii ''shell.elf'')" "length (ascii ''shell.elf'') \<le> 105"
    by (simp_all add: ascii_def of_char_def)
  have "named (ascii ''shell.elf'') (root_entries hidden_disk 712 2) = [shell_entry]"
    using shell_name deleted_name by (simp add: hidden_disk(4) named_def)
  then show ?thesis
    using boot_file_hidden [OF sim_contract r hidden_disk(1) _ _ es boot_demo(3) q] boot_demo(2) by auto
qed

end
