(* ===== verification/Load.thy ===== *)
theory Load
  imports Files Elf
begin

text \<open>
  From a program on the boot disk to its image in memory: \<open>elf_load\<close> of \<^verbatim>\<open>loader/formats/elfloader.c\<close> over the
  virtual file system, the FAT16 driver and the heap.
\<close>

section \<open>Room in a heap that is little used\<close>

text \<open>A list without a run of \<open>n\<close> elements of a kind has at least one other element in any \<open>n\<close>.\<close>

lemma sparse_length:
  assumes "\<forall>i. i + n \<le> length xs \<longrightarrow> (\<exists>k < n. \<not> P (xs ! (i + k)))"
  shows "length xs < n * Suc (length (filter (\<lambda>x. \<not> P x) xs))"
  using assms
proof (induction xs rule: length_induct)
  case (1 xs)
  let ?t = "takeWhile P xs"
  have t: "length ?t < n"
  proof (rule ccontr)
    assume l: "\<not> length ?t < n"
    then have "0 + n \<le> length xs" using length_takeWhile_le [of P xs] by simp
    then obtain k where k: "k < n" "\<not> P (xs ! (0 + k))" using 1(2) by blast
    then have "k < length ?t" using l by simp
    then have "P (xs ! k)" using takeWhile_nth [of k P xs] set_takeWhileD [OF nth_mem] by metis
    then show False using k(2) by simp
  qed
  show ?case
  proof (cases "dropWhile P xs")
    case Nil
    then have e: "?t = xs" by (metis append_Nil2 takeWhile_dropWhile_id)
    have "length xs < n" using t unfolding e .
    then show ?thesis by (rule less_le_trans) simp
  next
    case (Cons y ys)
    have xs: "xs = ?t @ y # ys" using takeWhile_dropWhile_id [of P xs] Cons by simp
    have y: "\<not> P y" using Cons by (metis dropWhile_eq_Cons_conv)
    have f: "filter (\<lambda>x. \<not> P x) ?t = []" by (auto simp: filter_empty_conv dest: set_takeWhileD)
    have "\<forall>i. i + n \<le> length ys \<longrightarrow> (\<exists>k < n. \<not> P (ys ! (i + k)))"
    proof (intro allI impI)
      fix i assume "i + n \<le> length ys"
      moreover have "length xs = Suc (length ?t + length ys)" by (subst xs) simp
      ultimately have "Suc (length ?t) + i + n \<le> length xs" by simp
      then obtain k where "k < n" "\<not> P (xs ! (Suc (length ?t) + i + k))" using 1(2) by blast
      moreover have "(?t @ y # ys) ! (Suc (length ?t) + i + k) = ys ! (i + k)" by (simp add: nth_append)
      ultimately show "\<exists>k < n. \<not> P (ys ! (i + k))" using xs by metis
    qed
    moreover have "length ys < length xs" by (subst xs) simp
    ultimately have "length ys < n * Suc (length (filter (\<lambda>x. \<not> P x) ys))" using 1(1) by blast
    moreover have "length xs = Suc (length ?t) + length ys" by (subst xs) simp
    moreover have "filter (\<lambda>x. \<not> P x) xs = y # filter (\<lambda>x. \<not> P x) ys" by (subst xs) (simp add: f y)
    ultimately show ?thesis using t by simp
  qed
qed

text \<open>A heap with few blocks in use has a run of free blocks.\<close>

lemma kroom_sparse:
  assumes "(heap_blocks (kernel_heap s) - kavail s + 1) * n \<le> heap_blocks (kernel_heap s)"
  shows "kroom s n"
proof (rule ccontr)
  assume "\<not> kroom s n"
  then have "\<forall>i. i + n \<le> length (ktable s) \<longrightarrow> (\<exists>k < n. \<not> free_entry (ktable s ! (i + k)))"
    by (auto simp: kroom_def fits_def)
  then have "length (ktable s) < n * Suc (length (filter (\<lambda>x. \<not> free_entry x) (ktable s)))" by (rule sparse_length)
  moreover have "length (ktable s) = heap_blocks (kernel_heap s)" by (simp add: ktable_def heap_blocks_def)
  moreover have "kavail s + length (filter (\<lambda>x. \<not> free_entry x) (ktable s)) = length (ktable s)"
    unfolding kavail_def by (rule sum_length_filter_compl)
  then have "length (filter (\<lambda>x. \<not> free_entry x) (ktable s)) = length (ktable s) - kavail s" by simp
  ultimately show False using assms by (simp add: mult.commute)
qed

section \<open>A file in use\<close>

text \<open>
  \<open>in_use s0 s desc pd bs i fs disk\<close>: \<open>desc\<close> is the descriptor number \<open>i + 1\<close> of a file opened since \<open>s0\<close>, as
  \<open>fopen\<close> leaves it.
\<close>

definition in_use ::
  "'a kheap_state_scheme \<Rightarrow> 'a kheap_state_scheme \<Rightarrow> addr \<Rightarrow> addr \<Rightarrow> u8 list \<Rightarrow> nat \<Rightarrow> addr \<Rightarrow> addr \<Rightarrow> bool" where
  "in_use s0 s desc pd bs i fs disk \<longleftrightarrow> kheap_ok s \<and> opened s0 s pd bs \<and> klive s desc = Some 1 \<and> klive s0 desc = None
     \<and> desc \<notin> pages_of s pd \<and> get_field desc fd_index s = of_nat (Suc i) \<and> get_field desc fd_filesystem s = fs
     \<and> get_field desc fd_private s = pd \<and> get_field desc fd_disk s = disk"

definition file_pages :: "'a kheap_state_scheme \<Rightarrow> addr \<Rightarrow> addr \<Rightarrow> addr set" where
  "file_pages s desc pd = insert desc (pages_of s pd)"

lemma in_use_pages:
  assumes "in_use s0 s desc pd bs i fs disk" "q \<in> file_pages s desc pd"
  shows "klive s q = Some 1" "klive s0 q = None"
  using assms opened_live [of s0 s pd bs q]
  by (auto simp: in_use_def file_pages_def) (auto simp: pages_of_def opened_def new_item_def)

lemma in_use_extends:
  assumes "in_use s0 s desc pd bs i fs disk" "extends s s'" "kheap_ok s'"
  shows "in_use s0 s' desc pd bs i fs disk" "file_pages s' desc pd = file_pages s desc pd"
proof -
  note u = assms(1) [unfolded in_use_def]
  have k: "kheap_ok s" "opened s0 s pd bs" "klive s desc = Some 1" using u by simp_all
  note O = opened_extends [OF assms(2) k(1,2)]
  have "get_field desc j s' = get_field desc j s" if "unat j < 1024" for j
    by (rule extends_page_field [OF assms(2) k(1,3) that])
  then show "in_use s0 s' desc pd bs i fs disk"
    using u O assms(3) extends_live [OF assms(2) k(3)] by (simp add: in_use_def fd_offsets)
  show "file_pages s' desc pd = file_pages s desc pd" using O(2) by (simp add: file_pages_def)
qed

text \<open>Writes elsewhere leave it as it is.\<close>

lemma in_use_store:
  assumes "in_use s0 s desc pd bs i fs disk" "kernel_heap s' = kernel_heap s"
    "\<And>x. \<not> W x \<Longrightarrow> kmem s' x = kmem s x" "\<And>x. W x \<Longrightarrow> \<not> in_table s x"
    "\<And>q x. q \<in> file_pages s desc pd \<Longrightarrow> W x \<Longrightarrow> \<not> in_range q 4096 x"
  shows "in_use s0 s' desc pd bs i fs disk" "file_pages s' desc pd = file_pages s desc pd" "klive s' = klive s" "kavail s' = kavail s" "kheap_ok s'"
proof -
  note u = assms(1) [unfolded in_use_def]
  have k: "kheap_ok s" "opened s0 s pd bs" "klive s desc = Some 1" using u by simp_all
  have "kmem s' x = kmem s x" if "in_range (entries (table (kernel_heap s))) (heap_blocks (kernel_heap s)) x" for x
    using assms(3,4) that by (auto simp: in_table_def)
  note H = kheap_cong [OF assms(2) this]
  have pg: "kmem s' x = kmem s x" if "q \<in> file_pages s desc pd" "in_range q 4096 x" for q x
    using assms(3,5) that by blast
  have D: "get_field desc j s' = get_field desc j s" if "unat j < 1024" for j
    by (rule page_bytes(2) [OF _ that]) (use pg in \<open>auto simp: file_pages_def\<close>)
  have "\<forall>q \<in> pages_of s pd. \<forall>x. in_range q 4096 x \<longrightarrow> kmem s' x = kmem s x" using pg by (auto simp: file_pages_def)
  note O = opened_cong [OF k(2) H(2) this [unfolded pages_of_def]]
  have O: "opened s0 s' pd bs" "pages_of s' pd = pages_of s pd" using O by (simp_all add: pages_of_def)
  show "in_use s0 s' desc pd bs i fs disk" using u O D H(1,2) by (simp add: in_use_def fd_offsets)
  show "file_pages s' desc pd = file_pages s desc pd" using O(2) by (simp add: file_pages_def)
  show "klive s' = klive s" "kavail s' = kavail s" "kheap_ok s'" using H k(1) by simp_all
qed

section \<open>Its size and its bytes\<close>

definition entry_size :: "u8 list \<Rightarrow> u32" where
  "entry_size bs = item_file_size (write_bytes (\<lambda>_. 0) 0 bs) 0"

lemma entry_size:
  assumes "bytes_at m item 32 = bs"
  shows "item_file_size m item = entry_size bs"
proof -
  have b: "m (item + of_nat j) = write_bytes (\<lambda>_. 0) 0 bs (of_nat j)" if "j < 32" for j
    using write_bytes_nth [of j bs "\<lambda>_. 0" 0] that assms by auto
  show ?thesis
    using b [of 28] b [of 29] b [of 30] b [of 31] by (simp add: entry_size_def item_file_size_def load32_def add.assoc)
qed

lemma fat16_stat_law:
  assumes "opened s0 s pd bs"
  shows "\<exists>s'. fat16_stat disk pd st s = (0, s') \<and> s' = s\<lparr>kmem := kmem s'\<rparr> \<and> (\<forall>x. \<not> in_range st 8 x \<longrightarrow> kmem s' x = kmem s x)
    \<and> get_field st stat_filesize s' = entry_size bs"
proof -
  let ?item = "get_field (get_field pd fdesc_item s) fitem_ptr s"
  have o: "get_field (get_field pd fdesc_item s) fitem_type s = FAT_ITEM_TYPE_FILE" "bytes_at (kmem s) ?item 32 = bs"
    using assms by (simp_all add: opened_def new_item_def file_item_def)
  let ?a = "set_field st 0 0 (set_field st 1 (item_file_size (kmem s) ?item) s)"
  let ?b = "set_field st 0 (get_field st 0 ?a OR FILE_STAT_READ_ONLY) ?a"
  have out: "kmem ?a x = kmem s x" "kmem ?b x = kmem s x" if "\<not> in_range st 8 x" for x
    using that by (simp_all add: set_field_outside [where n = 2])
  have sz: "get_field st stat_filesize ?a = entry_size bs" "get_field st stat_filesize ?b = entry_size bs"
    using entry_size [OF o(2)] by (simp_all add: get_set_field stat_filesize_def)
  have "fat16_stat disk pd st s = (0, if item_attributes (kmem ?a) ?item AND FAT_FILE_READ_ONLY \<noteq> 0 then ?b else ?a)"
    using o(1) by (simp add: fat16_stat_def Let_def)
  moreover have "t = s\<lparr>kmem := kmem t\<rparr>" if "t = ?a \<or> t = ?b" for t
    using that by (auto simp: set_field_def)
  ultimately show ?thesis using out sz by (intro exI [of _ "if item_attributes (kmem ?a) ?item AND FAT_FILE_READ_ONLY \<noteq> 0 then ?b else ?a"]) simp
qed

text \<open>One read of the whole file.\<close>

lemma fread_whole:
  fixes s :: "('d, 'a) file_state_scheme"
  assumes "ata_contract bus ata img" "ata_idle ata (hw s)" "mounted s disk p spc es st" "in_use s0 s desc pd bs i fs disk" "ops fs = fat16_ops bus"
    "i < 511" "file_descriptors s ! i = desc" "entry_cluster bs = of_nat c" "2 \<le> c" "c < 2 ^ 31" "0 < sz" "sz \<le> spc * 512"
    "cluster_pos spc es c + sz < 2 ^ 31"
  shows "\<exists>d. fread ops out (of_nat sz) 1 (int (Suc i)) s = Some (1, (advance st (cluster_pos spc es c + sz) d s)
    \<lparr>kmem := write_bytes (kmem s) out (disk_bytes img (cluster_pos spc es c) sz)\<rparr>)"
proof -
  note u = assms(4) [unfolded in_use_def]
  have o: "opened s0 s pd bs" "kheap_ok s" "klive s desc = Some 1" using u by simp_all
  let ?item = "get_field (get_field pd fdesc_item s) fitem_ptr s"
  have it: "get_field pd fdesc_pos s = 0" "fat16_get_first_cluster (kmem s) ?item = of_nat c"
    using o(1) entry_cluster [of "kmem s" ?item bs] assms(8) by (simp_all add: opened_def new_item_def file_item_def)
  have lt: "sz < 2 ^ 31" using assms(13) by simp
  have w: "sint (of_nat sz :: u32) = int sz" "sint (of_nat c :: u32) = int c" "(of_nat sz :: u32) \<noteq> 0"
    using lt assms(10,11) by (simp_all add: sint_small unat_of_nat take_bit_nat_eq_self word_unat_eq_iff)
  obtain d where "fat16_read_internal bus disk (int c) (int 0) (int sz) out s = Some (0, (advance st (cluster_pos spc es c + 0 + sz) d s)
      \<lparr>kmem := write_bytes (kmem s) out (disk_bytes img (cluster_pos spc es c + 0) sz)\<rparr>)"
    using read_cluster [OF assms(1-3,9), of 0 sz out] assms(11-13) by auto
  then have "fat16_read bus disk pd (of_nat sz) 1 out s = Some (1, (advance st (cluster_pos spc es c + sz) d s)
      \<lparr>kmem := write_bytes (kmem s) out (disk_bytes img (cluster_pos spc es c) sz)\<rparr>)"
    using it w by (simp add: fat16_read_def)
  moreover have "file_get_descriptor (int (Suc i)) s = desc"
    using assms(6,7) by (simp add: file_get_descriptor_def ALPHAOS_MAX_FILEDESCRIPTORS_def)
  moreover have "desc \<noteq> NULL" using klive_nonnull [OF o(2,3)] by simp
  ultimately show ?thesis using u w(3) assms(5) by (intro exI [of _ d]) (simp add: fread_def fat16_ops_def)
qed

section \<open>Headers in memory and in the file\<close>

text \<open>The file as a memory of its own, from address 0 on.\<close>

definition image_mem :: "u8 list \<Rightarrow> mem" where
  "image_mem bs = write_bytes (\<lambda>_. 0) 0 bs"

text \<open>The headers lie inside the file, and no loadable segment is at address 0.\<close>

definition headers_inside :: "u8 list \<Rightarrow> bool" where
  "headers_inside bs \<longleftrightarrow> 52 \<le> length bs \<and> unat (e_phoff (image_mem bs) 0) + 32 * unat (e_phnum (image_mem bs) 0) \<le> length bs
     \<and> (\<forall>ph \<in> set (segments (image_mem bs) 0 (unat (e_phnum (image_mem bs) 0))). p_vaddr (image_mem bs) ph \<noteq> 0)"

lemma file_byte:
  assumes "bytes_at m em (length bs) = bs" "length bs < 2 ^ 31" "j < length bs"
  shows "m (em + of_nat j) = image_mem bs (of_nat j)"
  using assms write_bytes_nth [of j bs "\<lambda>_. 0" 0] nth_bytes_at [of j "length bs" m em] by (simp add: image_mem_def)

lemma file_words:
  assumes "bytes_at m em (length bs) = bs" "length bs < 2 ^ 31"
  shows "unat j < length bs \<Longrightarrow> m (em + j) = image_mem bs j"
    "unat j + 2 \<le> length bs \<Longrightarrow> load16 m (em + j) = load16 (image_mem bs) j"
    "unat j + 4 \<le> length bs \<Longrightarrow> load32 m (em + j) = load32 (image_mem bs) j"
proof -
  have b: "m (em + (j + of_nat k)) = image_mem bs (j + of_nat k)" if "unat j + k < length bs" for k
    using file_byte [OF assms that] by simp
  show "unat j < length bs \<Longrightarrow> m (em + j) = image_mem bs j" using b [of 0] by simp
  show "unat j + 2 \<le> length bs \<Longrightarrow> load16 m (em + j) = load16 (image_mem bs) j"
    using b [of 0] b [of 1] by (simp add: load16_def add.assoc)
  show "unat j + 4 \<le> length bs \<Longrightarrow> load32 m (em + j) = load32 (image_mem bs) j"
    using b [of 0] b [of 1] b [of 2] b [of 3] by (simp add: load32_def add.assoc)
qed

lemma file_header:
  assumes "bytes_at m em (length bs) = bs" "length bs < 2 ^ 31" "52 \<le> length bs"
  shows "e_phoff m em = e_phoff (image_mem bs) 0" "e_phnum m em = e_phnum (image_mem bs) 0"
    "elf_validate_loaded m em = elf_validate_loaded (image_mem bs) 0"
proof -
  note w = file_words [OF assms(1,2)]
  have b: "m (em + of_nat j) = image_mem bs (of_nat j)" if "j < 52" for j using file_byte [OF assms(1,2)] that assms(3) by simp
  show "e_phoff m em = e_phoff (image_mem bs) 0" "e_phnum m em = e_phnum (image_mem bs) 0"
    using w(3) [of 28] w(2) [of 44] assms(3) by (simp_all add: e_phoff_def e_phnum_def)
  then have "elf_has_program_header m em = elf_has_program_header (image_mem bs) 0" by (simp add: elf_has_program_header_def)
  moreover have "bytes_at m em 4 = bytes_at (image_mem bs) 0 4" using b by (intro nth_equalityI) simp_all
  then have "elf_valid_signature m em = elf_valid_signature (image_mem bs) 0" by (simp add: elf_valid_signature_def memcmp_eq_0_iff)
  moreover have "elf_valid_class m em = elf_valid_class (image_mem bs) 0" "elf_valid_encoding m em = elf_valid_encoding (image_mem bs) 0"
    using b [of 4] b [of 5] by (simp_all add: elf_valid_class_def elf_valid_encoding_def EI_CLASS_def EI_DATA_def)
  ultimately show "elf_validate_loaded m em = elf_validate_loaded (image_mem bs) 0" by (simp add: elf_validate_loaded_def)
qed

text \<open>The program headers of the file, at their place in memory.\<close>

lemma file_pheader:
  assumes "bytes_at m em (length bs) = bs" "length bs < 2 ^ 31" "headers_inside bs" "e_phoff (image_mem bs) 0 \<noteq> 0"
    "i < unat (e_phnum (image_mem bs) 0)"
  shows "elf_program_header m em i = em + elf_program_header (image_mem bs) 0 i"
    "unat (elf_program_header (image_mem bs) 0 i) + 32 \<le> length bs"
    "unat k < 8 \<Longrightarrow> word_at m (elf_program_header m em i) k = word_at (image_mem bs) (elf_program_header (image_mem bs) 0 i) k"
proof -
  let ?o = "e_phoff (image_mem bs) 0" and ?h = "elf_program_header (image_mem bs) 0 i"
  have hi: "52 \<le> length bs" "unat ?o + 32 * unat (e_phnum (image_mem bs) 0) \<le> length bs"
    using assms(3) by (simp_all add: headers_inside_def)
  note e = file_header(1) [OF assms(1,2) hi(1)]
  have h: "?h = ?o + of_nat (i * 32)" using assms(4) by (simp add: elf_program_header_def elf_pheader_def sizeof_phdr_def)
  show p: "elf_program_header m em i = em + ?h"
    using assms(4) e h by (simp add: elf_program_header_def elf_pheader_def sizeof_phdr_def)
  have lt: "unat ?o + i * 32 + 32 \<le> length bs" using hi(2) assms(5) by simp
  then have "unat ?h = unat ?o + i * 32"
    unfolding h using assms(2) by (simp add: unat_word_ariths unat_of_nat take_bit_nat_eq_self del: of_nat_mult)
  then show l: "unat ?h + 32 \<le> length bs" using lt by simp
  assume k: "unat k < 8"
  have "unat (?h + 4 * k) = unat ?h + 4 * unat k"
    using k l assms(2) by (simp add: unat_word_ariths)
  then have "unat (?h + 4 * k) + 4 \<le> length bs" using k l by simp
  then show "word_at m (elf_program_header m em i) k = word_at (image_mem bs) ?h k"
    using file_words(3) [OF assms(1,2)] by (simp add: word_at_def p add.assoc)
qed

lemma image_range_shift:
  assumes "image_range m em (map f ps) r"
    "\<forall>ph \<in> set ps. p_vaddr m (f ph) = p_vaddr m' ph \<and> seg_end m (f ph) = seg_end m' ph
      \<and> p_offset m (f ph) = p_offset m' ph \<and> p_filesz m (f ph) = p_filesz m' ph"
  shows "image_range m' em ps r"
proof -
  have "p_vaddr m ` set (map f ps) = p_vaddr m' ` set ps" "seg_end m ` set (map f ps) = seg_end m' ` set ps"
    using assms(2) by (simp_all add: image_image cong: image_cong_simp)
  then show ?thesis using assms unfolding image_range_def by (auto split: prod.splits)
qed

text \<open>The checks and the walk over the segments, for a file read to \<open>em\<close>, beside its record \<open>f\<close>.\<close>

lemma process_file:
  assumes "bytes_at (kmem s) em (length bs) = bs" "length bs < 2 ^ 31" "headers_inside bs" "elf_memory f s = em"
    "disjoint_ranges em (length bs) f 132" "ef_range f s = (0, 0, 0, 0)" "elf_validate_loaded (image_mem bs) 0 = ALPHAOS_ALL_OK"
  shows "\<exists>s'. elf_process_loaded f s = (0, s') \<and> same_outside f (kmem s) (kmem s') \<and> elf_memory f s' = em
    \<and> image_range (image_mem bs) em (segments (image_mem bs) 0 (unat (e_phnum (image_mem bs) 0))) (ef_range f s')"
proof -
  let ?m = "kmem s" and ?n = "unat (e_phnum (image_mem bs) 0)"
  have hi: "52 \<le> length bs" using assms(3) by (simp add: headers_inside_def)
  note H = file_header [OF assms(1,2) hi]
  have po: "e_phoff (image_mem bs) 0 \<noteq> 0"
    using assms(7) by (simp add: elf_validate_loaded_def elf_has_program_header_def ALPHAOS_ALL_OK_def EINFORMAT_def split: if_splits)
  note P = file_pheader [OF assms(1-3) po]
  let ?g = "\<lambda>ph. em + ph"
  have map: "map (elf_program_header ?m em) [0..<?n] = map ?g (map (elf_program_header (image_mem bs) 0) [0..<?n])"
    using P(1) by simp
  have fld: "p_type ?m (em + ph) = p_type (image_mem bs) ph \<and> p_vaddr ?m (em + ph) = p_vaddr (image_mem bs) ph
      \<and> seg_end ?m (em + ph) = seg_end (image_mem bs) ph \<and> p_offset ?m (em + ph) = p_offset (image_mem bs) ph
      \<and> p_filesz ?m (em + ph) = p_filesz (image_mem bs) ph"
    if "ph \<in> set (map (elf_program_header (image_mem bs) 0) [0..<?n])" for ph
    using that P(1,3) by (auto simp: phdr_fields seg_end_def)
  have segs: "segments ?m em ?n = map ?g (segments (image_mem bs) 0 ?n)"
  proof -
    have "filter (\<lambda>ph. p_type ?m ph = PT_LOAD) (map ?g hs) = map ?g (filter (\<lambda>ph. p_type (image_mem bs) ph = PT_LOAD) hs)"
      if "\<forall>ph \<in> set hs. p_type ?m (em + ph) = p_type (image_mem bs) ph" for hs
      using that by (induction hs) auto
    then show ?thesis unfolding segments_def map using fld by blast
  qed
  have sub: "set (segments (image_mem bs) 0 ?n) \<subseteq> set (map (elf_program_header (image_mem bs) 0) [0..<?n])"
    by (auto simp: segments_def)
  have apart: "headers_apart ?m em f"
    unfolding headers_apart_def H(2)
  proof (intro conjI allI impI)
    show "disjoint_ranges em 52 f 132" by (rule disjoint_ranges_mono [OF assms(5) hi order_refl])
    fix i assume i: "i < ?n"
    let ?h = "elf_program_header (image_mem bs) 0 i"
    have "in_range (em + ?h) 32 x \<Longrightarrow> in_range em (length bs) x" for x
      using in_range_sub [of em "unat ?h" 32 x "length bs"] P(2) [OF i] assms(2) by simp
    then show "disjoint_ranges (elf_program_header ?m em i) 32 f 132"
      using assms(5) unfolding P(1) [OF i] disjoint_ranges_def by blast
  qed
  have nz: "\<forall>ph \<in> set (segments ?m em ?n). p_vaddr ?m ph \<noteq> 0"
    using assms(3) fld sub unfolding segs headers_inside_def by auto
  have base: "image_range ?m em (segments ?m em 0) (ef_range f s)" using assms(6) by (simp add: image_range_def segments_def)
  obtain s' where s': "elf_process_pheaders_loop f em 0 0 s = (0, s')" "same_outside f ?m (kmem s')" "elf_memory f s' = em"
      "image_range ?m em (segments ?m em ?n) (ef_range f s')"
    using pheaders_loop_law [OF apart _ _ assms(4) base] nz unfolding H(2) by auto
  have "image_range (image_mem bs) em (segments (image_mem bs) 0 ?n) (ef_range f s')"
    by (rule image_range_shift [OF s'(4) [unfolded segs]]) (use fld sub in blast)
  moreover have "elf_process_loaded f s = (0, s')"
    using assms(4,7) H(3) s'(1) by (simp add: elf_process_loaded_def elf_process_pheaders_def elf_header_def elf_memory_def ALPHAOS_ALL_OK_def)
  ultimately show ?thesis using s'(2,3) by blast
qed

section \<open>The body of the loader\<close>

text \<open>A file in use on the mounted disk with the private data \<open>p\<close>.\<close>

definition loading ::
  "('d, 'a) disk_state_scheme \<Rightarrow> ('d, 'a) disk_state_scheme \<Rightarrow> addr \<Rightarrow> addr \<Rightarrow> u8 list \<Rightarrow> nat \<Rightarrow> addr \<Rightarrow> addr \<Rightarrow> addr \<Rightarrow> nat \<Rightarrow> nat \<Rightarrow> addr \<Rightarrow> bool" where
  "loading s0 s desc pd bs i fs disk p spc es st \<longleftrightarrow> in_use s0 s desc pd bs i fs disk \<and> mounted s disk p spc es st \<and> klive s p = Some 1"

definition used_pages :: "'a kheap_state_scheme \<Rightarrow> addr \<Rightarrow> addr \<Rightarrow> addr \<Rightarrow> addr set" where
  "used_pages s desc pd p = insert p (file_pages s desc pd)"

lemma mounted_store:
  assumes "mounted s disk p spc es st" "s' = s\<lparr>kmem := kmem s'\<rparr>" "\<forall>x. in_range p 4096 x \<longrightarrow> kmem s' x = kmem s x"
  shows "mounted s' disk p spc es st"
proof -
  have "disks (s\<lparr>kmem := kmem s'\<rparr>) = disks s" "streams (s\<lparr>kmem := kmem s'\<rparr>) = streams s" "disk_var (s\<lparr>kmem := kmem s'\<rparr>) = disk_var s"
    by simp_all
  then have d: "disks s' = disks s" "streams s' = streams s" "disk_var s' = disk_var s" using assms(2) by metis+
  have f: "get_field p i s' = get_field p i s" if "unat i < 1024" for i by (rule page_bytes(2) [OF assms(3) that])
  have "in_range p 4096 (p + of_nat 13)" by (rule in_range_nth) simp_all
  then have "header_sectors_per_cluster (kmem s') p = header_sectors_per_cluster (kmem s) p"
    using assms(3) by (simp add: header_sectors_per_cluster_def)
  then show ?thesis using assms(1) d unfolding mounted_def root_field
    using f [of private_cluster_read_stream] f [of "16 + dir_ending_sector_pos"] by (simp add: fat_offsets)
qed

lemma loading_store:
  assumes "loading s0 s desc pd bs i fs disk p spc es st" "s' = s\<lparr>kmem := kmem s'\<rparr>" "\<And>x. \<not> W x \<Longrightarrow> kmem s' x = kmem s x"
    "\<And>x. W x \<Longrightarrow> \<not> in_table s x" "\<And>q x. q \<in> used_pages s desc pd p \<Longrightarrow> W x \<Longrightarrow> \<not> in_range q 4096 x"
  shows "loading s0 s' desc pd bs i fs disk p spc es st" "used_pages s' desc pd p = used_pages s desc pd p" "klive s' = klive s" "kheap_ok s'"
    "kavail s' = kavail s"
proof -
  have u: "in_use s0 s desc pd bs i fs disk" "mounted s disk p spc es st" "klive s p = Some 1" using assms(1) by (simp_all add: loading_def)
  have "q \<in> file_pages s desc pd \<Longrightarrow> W x \<Longrightarrow> \<not> in_range q 4096 x" for q x using assms(5) by (simp add: used_pages_def)
  note U = in_use_store [OF u(1) kmem_only_heap [OF assms(2)] assms(3,4) this]
  have "\<forall>x. in_range p 4096 x \<longrightarrow> kmem s' x = kmem s x" using assms(3,5) unfolding used_pages_def by blast
  note M = mounted_store [OF u(2) assms(2) this]
  show "loading s0 s' desc pd bs i fs disk p spc es st" "used_pages s' desc pd p = used_pages s desc pd p" "klive s' = klive s" "kheap_ok s'"
    "kavail s' = kavail s"
    using U M u(3) by (simp_all add: loading_def used_pages_def)
qed

lemma loading_extends:
  assumes "loading s0 s desc pd bs i fs disk p spc es st" "extends s s'" "kheap_ok s'"
  shows "loading s0 s' desc pd bs i fs disk p spc es st" "used_pages s' desc pd p = used_pages s desc pd p"
proof -
  have u: "in_use s0 s desc pd bs i fs disk" "mounted s disk p spc es st" "klive s p = Some 1" "kheap_ok s"
    using assms(1) by (simp_all add: loading_def in_use_def)
  note U = in_use_extends [OF u(1) assms(2,3)]
  show "loading s0 s' desc pd bs i fs disk p spc es st" "used_pages s' desc pd p = used_pages s desc pd p"
    using U mounted_extends [OF assms(2) u(4,3,2)] extends_live [OF assms(2) u(3)] by (simp_all add: loading_def used_pages_def)
qed

lemma loading_live:
  "loading s0 s desc pd bs i fs disk p spc es st \<Longrightarrow> q \<in> used_pages s desc pd p \<Longrightarrow> klive s q = Some 1"
  using in_use_pages(1) by (auto simp: loading_def used_pages_def)

lemma loading_ok: "loading s0 s desc pd bs i fs disk p spc es st \<Longrightarrow> kheap_ok s"
  by (simp add: loading_def in_use_def)

text \<open>The record of the image, on the page \<open>f\<close>.\<close>

lemma ef_range_cong:
  assumes "\<forall>x. in_range f 4096 x \<longrightarrow> kmem s' x = kmem s x"
  shows "ef_range f s' = ef_range f s" "elf_memory f s' = elf_memory f s"
  using page_bytes(2) [OF assms] by (simp_all add: ef_range_def elf_memory_def ef_offsets)

text \<open>The size of the file, the memory for it and the note of its place in the record.\<close>

lemma load_place:
  fixes s :: "('d, 'a) elf_state_scheme"
  assumes "loading s0 s desc pd bs i fs disk p spc es st" "ops fs = fat16_ops bus" "i < 511" "file_descriptors s ! i = desc"
    "entry_size bs = of_nat sz" "0 < sz" "sz < 2 ^ 31" "klive s f = Some 1" "f \<notin> used_pages s desc pd p" "ef_range f s = (0, 0, 0, 0)"
    "\<forall>x. in_range (stat_local s) 8 x \<longrightarrow> held s x \<and> (\<forall>q \<in> insert f (used_pages s desc pd p). \<not> in_range q 4096 x)"
    "kroom s (blocks_of (of_nat sz))"
  shows "\<exists>s3 em s4. fstat ops (int (Suc i)) (stat_local s) s = Some (0, s3) \<and> stat_local s3 = stat_local s
    \<and> get_field (stat_local s) stat_filesize s3 = of_nat sz \<and> kzalloc (of_nat sz) s3 = (em, s4)
    \<and> get_field (stat_local s) stat_filesize (set_field f ef_elf_memory em s4) = of_nat sz
    \<and> stat_local (set_field f ef_elf_memory em s4) = stat_local s \<and> stat_local s4 = stat_local s
    \<and> loading s0 (set_field f ef_elf_memory em s4) desc pd bs i fs disk p spc es st
    \<and> used_pages (set_field f ef_elf_memory em s4) desc pd p = used_pages s desc pd p
    \<and> klive (set_field f ef_elf_memory em s4) = (klive s)(em \<mapsto> blocks_of (of_nat sz)) \<and> klive s em = None
    \<and> kavail s = kavail (set_field f ef_elf_memory em s4) + blocks_of (of_nat sz)
    \<and> ef_range f (set_field f ef_elf_memory em s4) = (0, 0, 0, 0)
    \<and> set_field f ef_elf_memory em s4 = s\<lparr>kmem := kmem (set_field f ef_elf_memory em s4)\<rparr>
    \<and> (\<forall>x. held s x \<longrightarrow> \<not> in_range (stat_local s) 8 x \<longrightarrow> \<not> in_range f 4096 x \<longrightarrow> kmem (set_field f ef_elf_memory em s4) x = kmem s x)"
proof -
  let ?st = "stat_local s" and ?U = "used_pages s desc pd p"
  note u = assms(1) [unfolded loading_def in_use_def]
  have o: "opened s0 s pd bs" "kheap_ok s" "klive s desc = Some 1" using u by simp_all
  have w: "unat (of_nat sz :: u32) = sz" using assms(7) by (simp add: unat_of_nat take_bit_nat_eq_self)
  obtain s3 where S: "fat16_stat disk pd ?st s = (0, s3)" "s3 = s\<lparr>kmem := kmem s3\<rparr>" "\<forall>x. \<not> in_range ?st 8 x \<longrightarrow> kmem s3 x = kmem s x"
      "get_field ?st stat_filesize s3 = of_nat sz"
    using fat16_stat_law [OF o(1), of disk ?st] assms(5) by auto
  have fd: "file_get_descriptor (int (Suc i)) s = desc"
    using assms(3,4) by (simp add: file_get_descriptor_def ALPHAOS_MAX_FILEDESCRIPTORS_def)
  have "desc \<noteq> NULL" using klive_nonnull [OF o(2,3)] by simp
  then have F: "fstat ops (int (Suc i)) ?st s = Some (0, s3)"
    using S(1) fd u assms(2) by (simp add: fstat_def fat16_ops_def)
  have ks: "kernel_stack s3 = kernel_stack s" by (subst S(2)) simp
  have L3: "loading s0 s3 desc pd bs i fs disk p spc es st" "used_pages s3 desc pd p = ?U" "klive s3 = klive s" "kheap_ok s3" "kavail s3 = kavail s"
    by (rule loading_store [OF assms(1) S(2), of "in_range ?st 8"]; use S(3) assms(11) in \<open>auto simp: held_def\<close>)+
  have f3: "ef_range f s3 = (0, 0, 0, 0)" using ef_range_cong(1) [of f s3 s] S(3) assms(10,11) by auto
  have h3: "kernel_heap s3 = kernel_heap s" using kmem_only_heap [OF S(2)] .
  have "held s3 x" if "in_range ?st 8 x" for x using held_mono [OF h3] L3(3) assms(11) that by simp
  then have h3s: "\<forall>x. in_range ?st 8 x \<longrightarrow> held s3 x" by blast
  obtain em s4 where z: "kzalloc (of_nat sz) s3 = (em, s4)" by fastforce
  have "ktable s3 = ktable s"
    unfolding ktable_def h3 using S(3) assms(11) by (intro table_bytes_cong) (auto simp: held_def in_table_def)
  then have room: "kroom s3 (blocks_of (of_nat sz))" using assms(12) by (simp add: kroom_def)
  note k = kzalloc_extends [OF L3(4) room _ _ z]
  have k: "extends s3 s4" "kheap_ok s4" "klive s3 em = None" "klive s4 = (klive s3)(em \<mapsto> blocks_of (of_nat sz))"
    "kavail s3 = kavail s4 + blocks_of (of_nat sz)"
    using k(1-5) w assms(6,7) by simp_all
  note L4 = loading_extends [OF L3(1) k(1,2)]
  have live4: "klive s4 f = Some 1" using extends_live [OF k(1)] L3(3) assms(8) by simp
  have "\<forall>x. in_range f 4096 x \<longrightarrow> kmem s4 x = kmem s3 x" using extends_page [OF k(1) L3(4)] L3(3) assms(8) by simp
  note f4 = ef_range_cong(1) [OF this]
  define s5 where "s5 = set_field f ef_elf_memory em s4"
  have m5: "s5 = s4\<lparr>kmem := kmem s5\<rparr>" by (simp add: s5_def set_field_def)
  have out5: "kmem s5 x = kmem s4 x" if "\<not> in_range f 4096 x" for x
    using that set_field_outside [of f 1024 x ef_elf_memory em s4] by (simp add: s5_def ef_offsets)
  have "loading s0 s5 desc pd bs i fs disk p spc es st \<and> used_pages s5 desc pd p = used_pages s4 desc pd p \<and> klive s5 = klive s4 \<and> kavail s5 = kavail s4"
  proof -
    note t = klive_in_pool(2) [OF k(2) live4]
    have d: "\<not> in_range q 4096 x" if "q \<in> used_pages s4 desc pd p" "in_range f 4096 x" for q x
      using klive_page_disjoint [OF k(2) live4 loading_live [OF L4(1) that(1)] _ that(2)] that(1) assms(9) L3(2) L4(2) by auto
    show ?thesis using loading_store [OF L4(1) m5 out5 _ d] t by simp
  qed
  note L5 = this
  have f5: "ef_range f s5 = (0, 0, 0, 0)"
    using f4 f3 by (simp add: s5_def ef_range_def get_set_field ef_offsets)
  have h5: "kmem s5 x = kmem s x" if "held s x" "\<not> in_range ?st 8 x" "\<not> in_range f 4096 x" for x
    using out5 [OF that(3)] extends_mem [OF k(1) held_mono [OF h3 _ that(1)]] S(3) that(2) L3(3) by simp
  have st5: "kmem s5 x = kmem s3 x" if "in_range ?st 8 x" for x
    using that out5 [of x] extends_mem [OF k(1), of x] h3s assms(11) by simp
  have "get_field ?st stat_filesize s5 = get_field ?st stat_filesize s3"
    by (rule get_field_cong [where n = 2]) (use st5 in \<open>simp_all add: stat_filesize_def\<close>)
  moreover have "s4 = s3\<lparr>kmem := kmem s4\<rparr>" using k(1) by (simp only: extends_def)
  then have m: "s4 = s\<lparr>kmem := kmem s4\<rparr>" by (rule kmem_only_trans [OF S(2)])
  have m: "s5 = s\<lparr>kmem := kmem s5\<rparr>" by (rule kmem_only_trans [OF m m5])
  have "kernel_stack s5 = kernel_stack s" by (subst m) simp
  moreover have "kernel_stack s4 = kernel_stack s" by (subst \<open>s4 = s\<lparr>kmem := kmem s4\<rparr>\<close>) simp
  ultimately show ?thesis
    using F ks S(4) z L5 L4 L3 k f5 m h5
    by (intro exI [of _ s3] exI [of _ em] exI [of _ s4]) (simp add: stat_local_def flip: s5_def)
qed

text \<open>Processing the headers writes memory only.\<close>

lemma process_pheader_kmem: "\<exists>m. snd (elf_process_pheader f ph s) = s\<lparr>kmem := m\<rparr>"
proof -
  have "\<exists>m. s = s\<lparr>kmem := m\<rparr>" by (intro exI [of _ "kmem s"]) simp
  then show ?thesis
    by (auto simp: elf_process_pheader_def elf_process_phdr_pt_load_def Let_def set_field_def)
qed

lemma process_loop_kmem: "\<exists>m. snd (elf_process_pheaders_loop f h i r s) = s\<lparr>kmem := m\<rparr>"
proof (induction f h i r s rule: elf_process_pheaders_loop.induct)
  case (1 f h i r s)
  obtain m where m: "snd (elf_process_pheader f (elf_program_header (kmem s) h i) s) = s\<lparr>kmem := m\<rparr>"
    using process_pheader_kmem by blast
  obtain r1 s1 where e: "elf_process_pheader f (elf_program_header (kmem s) h i) s = (r1, s1)" by fastforce
  have "\<exists>k. s = s\<lparr>kmem := k\<rparr>" by (intro exI [of _ "kmem s"]) simp
  moreover have s1: "s1 = s\<lparr>kmem := m\<rparr>" using m e by simp
  moreover have "\<exists>k. snd (elf_process_pheaders_loop f h (Suc i) r1 s1) = s1\<lparr>kmem := k\<rparr>"
    if "i < unat (e_phnum (kmem s) h)" "\<not> r1 < 0"
    using 1 [OF that(1) refl e [symmetric] refl that(2)] .
  ultimately show ?case
    using e by (subst elf_process_pheaders_loop.simps) auto
qed

lemma process_kmem:
  assumes "elf_process_loaded f s = (r, s')"
  shows "s' = s\<lparr>kmem := kmem s'\<rparr>"
proof -
  obtain m where "snd (elf_process_pheaders_loop f (elf_header f s) 0 0 s) = s\<lparr>kmem := m\<rparr>" using process_loop_kmem by blast
  then have "s' = s \<or> s' = s\<lparr>kmem := m\<rparr>"
    using assms by (auto simp: elf_process_loaded_def elf_process_pheaders_def Let_def split: if_splits)
  then show ?thesis by auto
qed

text \<open>The bytes, the checks and the segments.\<close>

lemma load_bytes:
  fixes s :: "('d, 'a) elf_state_scheme"
  assumes "ata_contract bus ata img" "ata_idle ata (hw s)" "loading s0 s desc pd bs i fs disk p spc es st" "ops fs = fat16_ops bus" "i < 511"
    "file_descriptors s ! i = desc" "entry_cluster bs = of_nat c" "2 \<le> c" "c < 2 ^ 31" "0 < sz" "sz \<le> spc * 512"
    "cluster_pos spc es c + sz < 2 ^ 31" "klive s f = Some 1" "f \<notin> used_pages s desc pd p" "ef_range f s = (0, 0, 0, 0)" "elf_memory f s = em"
    "klive s em = Some (blocks_of (of_nat sz))" "em \<notin> insert f (used_pages s desc pd p)"
    "52 \<le> sz" "disk_bytes img (cluster_pos spc es c) sz = bytes"
    "elf_validate_loaded (image_mem bytes) 0 = ALPHAOS_ALL_OK \<longrightarrow> headers_inside bytes"
  shows "\<exists>s6 res s7. fread ops em (of_nat sz) 1 (int (Suc i)) s = Some (1, s6) \<and> elf_process_loaded f s6 = (res, s7)
    \<and> (res < 0 \<longleftrightarrow> elf_validate_loaded (image_mem bytes) 0 \<noteq> ALPHAOS_ALL_OK)
    \<and> in_use s0 s7 desc pd bs i fs disk \<and> klive s7 = klive s \<and> kavail s7 = kavail s \<and> file_descriptors s7 = file_descriptors s
    \<and> file_pages s7 desc pd = file_pages s desc pd
    \<and> (\<exists>m d sts. s7 = s\<lparr>kmem := m, hw := d, streams := sts\<rparr>)
    \<and> (\<forall>x. \<not> in_range em sz x \<longrightarrow> \<not> in_range f 132 x \<longrightarrow> kmem s7 x = kmem s x)
    \<and> elf_memory f s7 = em \<and> bytes_at (kmem s7) em sz = bytes
    \<and> (elf_validate_loaded (image_mem bytes) 0 = ALPHAOS_ALL_OK \<longrightarrow>
       image_range (image_mem bytes) em (segments (image_mem bytes) 0 (unat (e_phnum (image_mem bytes) 0))) (ef_range f s7))"
proof -
  let ?U = "used_pages s desc pd p" and ?n = "blocks_of (of_nat sz)"
  have u: "in_use s0 s desc pd bs i fs disk" "mounted s disk p spc es st" "kheap_ok s" using assms(3) by (simp_all add: loading_def in_use_def)
  have lt: "sz < 2 ^ 31" using assms(12) by simp
  then have w: "unat (of_nat sz :: u32) = sz" by (simp add: unat_of_nat take_bit_nat_eq_self)
  have len: "length bytes = sz" using assms(20) by auto
  have cov: "sz \<le> ?n * 4096" using blocks_of_covers [of "of_nat sz"] lt w by simp
  obtain d where R: "fread ops em (of_nat sz) 1 (int (Suc i)) s = Some (1, (advance st (cluster_pos spc es c + sz) d s)
      \<lparr>kmem := write_bytes (kmem s) em bytes\<rparr>)"
    using fread_whole [OF assms(1,2) u(2,1) _ assms(5-12), where ops = ops and out = em] assms(4,20) by auto
  define s6 where "s6 = (advance st (cluster_pos spc es c + sz) d s)\<lparr>kmem := write_bytes (kmem s) em bytes\<rparr>"
  have e6: "\<exists>m d sts. s6 = s\<lparr>kmem := m, hw := d, streams := sts\<rparr>" 
    by (intro exI [of _ "write_bytes (kmem s) em bytes"] exI [of _ d] exI [of _ "streams s6"]) (simp add: s6_def advance_def)
  have h6: "kernel_heap s6 = kernel_heap s" "file_descriptors s6 = file_descriptors s" by (simp_all add: s6_def advance_def)
  have out6: "kmem s6 x = kmem s x" if "\<not> in_range em sz x" for x using that len lt by (simp add: s6_def write_bytes_apply)
  have em: "in_range em sz x \<Longrightarrow> in_range em (?n * 4096) x" for x using in_range_mono cov by blast
  have dis: "\<not> in_range q 4096 x" if "q \<in> insert f ?U" "in_range em sz x" for q x
  proof -
    have "klive s q = Some 1" using that(1) loading_live [OF assms(3)] assms(13) by auto
    moreover have "em \<noteq> q" using that(1) assms(18) by auto
    ultimately have "disjoint_ranges em (?n * 4096) q (1 * 4096)" using klive_disjoint [OF u(3) assms(17)] by blast
    then show ?thesis using em [OF that(2)] by (simp add: disjoint_ranges_def)
  qed
  have d6: "\<not> in_range q 4096 x" if "q \<in> file_pages s desc pd" "in_range em sz x" for q x
    using dis that by (simp add: used_pages_def)
  have t6: "\<not> in_table s x" if "in_range em sz x" for x using klive_in_pool(2) [OF u(3) assms(17) em [OF that]] .
  note U6 = in_use_store [OF u(1) h6(1) out6 t6 d6]
  have "\<forall>x. in_range f 4096 x \<longrightarrow> kmem s6 x = kmem s x" using out6 dis by blast
  note F6 = ef_range_cong [OF this]
  have b6: "bytes_at (kmem s6) em (length bytes) = bytes" using bytes_at_write_bytes [of bytes "kmem s" em] len lt by (simp add: s6_def)
  have live6: "klive s6 f = Some 1" "klive s6 em = Some ?n" using U6(3) assms(13,17) by simp_all
  have fem: "disjoint_ranges em (length bytes) f 132"
    unfolding disjoint_ranges_def using dis [of f] len in_range_mono [of f 132 _ 4096] by auto
  show ?thesis
  proof (cases "elf_validate_loaded (image_mem bytes) 0 = ALPHAOS_ALL_OK")
    case False
    have "elf_validate_loaded (kmem s6) em = elf_validate_loaded (image_mem bytes) 0"
      using file_header(3) [OF b6] len lt assms(19) by simp
    also have "\<dots> = - EINFORMAT" using False by (simp add: elf_validate_loaded_def split: if_splits)
    finally have "elf_process_loaded f s6 = (- EINFORMAT, s6)"
      using F6(2) assms(16) by (simp add: elf_process_loaded_def elf_header_def elf_memory_def EINFORMAT_def)
    then show ?thesis using R U6 F6(2) b6 h6(2) len False assms(16) e6 out6
      by (intro exI [of _ s6] exI [of _ "- EINFORMAT"]) (simp add: EINFORMAT_def flip: s6_def)
  next
    case True
    obtain s7 where P: "elf_process_loaded f s6 = (0, s7)" "same_outside f (kmem s6) (kmem s7)" "elf_memory f s7 = em"
        "image_range (image_mem bytes) em (segments (image_mem bytes) 0 (unat (e_phnum (image_mem bytes) 0))) (ef_range f s7)"
      using process_file [OF b6 _ _ _ fem _ True] F6 assms(15,16,21) True len lt by auto
    note m7 = process_kmem [OF P(1)]
    have h7: "kernel_heap s7 = kernel_heap s6" using kmem_only_heap [OF m7] .
    have "file_descriptors s7 = file_descriptors s6" by (subst m7) simp
    moreover have out7: "kmem s7 x = kmem s6 x" if "\<not> in_range f 132 x" for x using P(2) that by blast
    have p7: "in_range f 132 x \<Longrightarrow> in_range f (1 * 4096) x" for x using in_range_mono [of f 132 x] by simp
    have t7: "\<not> in_table s6 x" if "in_range f 132 x" for x
      using klive_in_pool(2) [OF U6(5) live6(1) p7 [OF that]] .
    have d7: "\<not> in_range q 4096 x" if "q \<in> file_pages s6 desc pd" "in_range f 132 x" for q x
    proof -
      have "klive s6 q = Some 1" "f \<noteq> q" using in_use_pages(1) [OF U6(1) that(1)] that(1) U6(2) assms(14) by (auto simp: used_pages_def)
      then show ?thesis using klive_page_disjoint [OF U6(5) live6(1)] p7 [OF that(2)] by simp
    qed
    note U7 = in_use_store [OF U6(1) h7 out7 t7 d7]
    have "bytes_at (kmem s7) em (length bytes) = bytes_at (kmem s6) em (length bytes)"
      using out7 fem len lt by (intro bytes_at_cong) (auto simp: disjoint_ranges_def)
    moreover have "\<exists>m d sts. s7 = s\<lparr>kmem := m, hw := d, streams := sts\<rparr>"
    proof -
      obtain m d sts where e: "s6 = s\<lparr>kmem := m, hw := d, streams := sts\<rparr>" using e6 by blast
      show ?thesis by (intro exI [of _ "kmem s7"] exI [of _ d] exI [of _ sts], subst m7) (simp add: e)
    qed
    ultimately show ?thesis using R U6 U7 P b6 h6(2) len True out6 out7
      by (intro exI [of _ s6] exI [of _ 0] exI [of _ s7]) (simp flip: s6_def)
  qed
qed

section \<open>Loading a file\<close>

text \<open>What \<open>fopen\<close> leaves is a file in use.\<close>

lemma in_use_fds:
  fixes s :: "('d, 'a) file_state_scheme"
  shows "in_use s0 (s\<lparr>file_descriptors := x\<rparr>) desc pd bs i fs disk = in_use s0 s desc pd bs i fs disk"
    "file_pages (s\<lparr>file_descriptors := x\<rparr>) desc pd = file_pages s desc pd"
    "used_pages (s\<lparr>file_descriptors := x\<rparr>) desc pd p = used_pages s desc pd p"
    "loading s0 (s\<lparr>file_descriptors := x\<rparr>) desc pd bs i fs disk p spc es st = loading s0 s desc pd bs i fs disk p spc es st"
proof -
  show u: "in_use s0 (s\<lparr>file_descriptors := x\<rparr>) desc pd bs i fs disk = in_use s0 s desc pd bs i fs disk"
    by (simp add: in_use_def opened_fds pages_of_def)
  show f: "file_pages (s\<lparr>file_descriptors := x\<rparr>) desc pd = file_pages s desc pd"
    by (simp add: file_pages_def pages_of_def opened_fds)
  show "used_pages (s\<lparr>file_descriptors := x\<rparr>) desc pd p = used_pages s desc pd p" by (simp add: used_pages_def f)
  show "loading s0 (s\<lparr>file_descriptors := x\<rparr>) desc pd bs i fs disk p spc es st = loading s0 s desc pd bs i fs disk p spc es st"
    by (simp add: loading_def u opened_fds)
qed

lemma close_in_use:
  fixes s :: "('d, 'a) file_state_scheme"
  assumes "in_use s0 s desc pd bs i fs disk" "ops fs = fat16_ops bus" "i < 511" "file_descriptors s ! i = desc"
  shows "\<exists>s'. fclose ops (int (Suc i)) s = Some (0, s') \<and> kheap_ok s' \<and> kavail s' = kavail s + 4
    \<and> klive s' = (\<lambda>q. if q \<in> file_pages s desc pd then None else klive s q)
    \<and> s' = s\<lparr>file_descriptors := (file_descriptors s)[i := NULL], kmem := kmem s'\<rparr> \<and> (\<forall>x. \<not> in_table s x \<longrightarrow> kmem s' x = kmem s x)"
proof -
  note u = assms(1) [unfolded in_use_def]
  let ?item = "get_field pd fdesc_item s"
  let ?ritem = "get_field ?item fitem_ptr s"
  have "kheap_ok s" "opened s0 s pd bs" "klive s desc = Some 1" "desc \<notin> pages_of s pd" "get_field desc fd_index s = of_nat (Suc i)"
    "get_field desc fd_private s = pd" using u by simp_all
  note o = opened_open_file [OF this(1-4) assms(3) this(5,6) assms(4)]
  have d: "distinct [desc, pd, ?item, ?ritem]" "\<forall>q \<in> {desc, pd, ?item, ?ritem}. klive s q = Some 1" using o by (simp_all add: open_file_def)
  have "(\<Sum>q\<in>{desc, pd, ?item, ?ritem}. the (klive s q)) = 4" using d by simp
  moreover have "file_pages s desc pd = {desc, pd, ?item, ?ritem}" by (simp add: file_pages_def pages_of_def)
  moreover obtain s' where s': "fclose ops (int (Suc i)) s = Some (0, s')"
      "freed (s\<lparr>file_descriptors := (file_descriptors s)[i := NULL]\<rparr>) {desc, pd, ?item, ?ritem} s'"
    using fclose_law [OF _ o, where ops = ops and bus = bus] u assms(2) by auto
  moreover have "s' = s\<lparr>file_descriptors := (file_descriptors s)[i := NULL], kmem := kmem s'\<rparr>"
    using s'(2) by (simp only: freed_def)
  ultimately show ?thesis by (intro exI [of _ s']) (simp add: freed_def cong: if_cong)
qed

text \<open>
  \<open>program_file s p es q \<dots>\<close>: the file \<open>q\<close> of the mounted disk, with \<open>sz\<close> bytes from the start of cluster \<open>c\<close> on.
\<close>

definition program_file :: "u8 list list \<Rightarrow> u8 list \<Rightarrow> nat \<Rightarrow> nat \<Rightarrow> nat \<Rightarrow> nat \<Rightarrow> bool" where
  "program_file es q spc e c sz \<longleftrightarrow> (\<forall>bs \<in> set es. entry_ends bs) \<and> (\<forall>bs \<in> set (named q es). entry_is_file bs) \<and> named q es \<noteq> []
     \<and> entry_cluster (last (named q es)) = of_nat c \<and> 2 \<le> c \<and> c < 2 ^ 31 \<and> entry_size (last (named q es)) = of_nat sz
     \<and> 52 \<le> sz \<and> sz \<le> spc * 512 \<and> cluster_pos spc e c + sz < 2 ^ 31"

text \<open>The file name and the local buffer for \<open>fstat\<close> lie in memory that is in use and no page of the driver's.\<close>

definition load_buffers :: "('d, 'a) elf_state_scheme \<Rightarrow> addr \<Rightarrow> u8 list \<Rightarrow> addr \<Rightarrow> bool" where
  "load_buffers s filename q p \<longleftrightarrow> held_string s filename (path_string 0x30 q) \<and> q \<noteq> [] \<and> slash \<notin> set q \<and> length q \<le> 105
     \<and> (\<forall>x. in_range (stat_local s) 8 x \<longrightarrow> held s x \<and> \<not> in_range p 4096 x)"

text \<open>The heap has a run of blocks for the image after all the small allocations.\<close>

definition load_room :: "'a kheap_state_scheme \<Rightarrow> nat \<Rightarrow> nat \<Rightarrow> bool" where
  "load_room s l sz \<longleftrightarrow>
     (heap_blocks (kernel_heap s) - kavail s + 7 + 2 * l) * blocks_of (of_nat sz) \<le> heap_blocks (kernel_heap s)"

lemma load_room:
  assumes "load_room s l sz" "0 < sz" "sz < 2 ^ 31"
  shows "7 + 2 * l \<le> kavail s"
    "kernel_heap s' = kernel_heap s \<Longrightarrow> kavail s = kavail s' + 6 + 2 * l \<Longrightarrow> kroom s' (blocks_of (of_nat sz))"
proof -
  let ?N = "heap_blocks (kernel_heap s)" and ?n = "blocks_of (of_nat sz)"
  have w: "unat (of_nat sz :: u32) = sz" using assms(3) by (simp add: unat_of_nat take_bit_nat_eq_self)
  have n: "0 < ?n" using w assms(2,3) by (intro blocks_of_pos) simp_all
  have k: "kavail s \<le> ?N" using length_filter_le [of free_entry "ktable s"] by (simp add: kavail_def ktable_def heap_blocks_def)
  have "?N - kavail s + 7 + 2 * l \<le> (?N - kavail s + 7 + 2 * l) * ?n" using n by (cases ?n) auto
  also have "\<dots> \<le> ?N" using assms(1) unfolding load_room_def .
  finally have "?N - kavail s + 7 + 2 * l \<le> ?N" .
  then show a: "7 + 2 * l \<le> kavail s" using k by linarith
  assume h: "kernel_heap s' = kernel_heap s" "kavail s = kavail s' + 6 + 2 * l"
  then have e: "?N - kavail s' + 1 = ?N - kavail s + 7 + 2 * l" using a k by linarith
  have "(heap_blocks (kernel_heap s') - kavail s' + 1) * ?n \<le> heap_blocks (kernel_heap s')"
    unfolding h(1) e by (rule assms(1) [unfolded load_room_def])
  then show "kroom s' ?n" by (rule kroom_sparse)
qed

lemma open_for_load:
  fixes s :: "('d, 'a) elf_state_scheme"
  assumes "kheap_ok s" "pool_low s" "load_buffers s filename q p" "disk_var s \<noteq> NULL" "disk_filesystem (disks s (disk_var s)) = fs" "fs \<noteq> NULL"
    "ops fs = fat16_ops bus" "root_ready s (disk_var s) p es" "program_file es q spc e c sz" "klive s p = Some 1" "mounted s (disk_var s) p spc e st"
    "7 + 2 * length (named q es) \<le> kavail s" "first_free (file_descriptors s) 0 = Some i" "i < 511"
  shows "\<exists>f s1 s2 desc pd. kzalloc sizeof_elf_file s = (f, s1) \<and> fopen_r ops filename s1 = Some (int (Suc i), s2)
    \<and> loading s1 s2 desc pd (last (named q es)) i fs (disk_var s) p spc e st \<and> file_descriptors s2 = (file_descriptors s)[i := desc]
    \<and> klive s f = None \<and> klive s2 f = Some 1 \<and> f \<notin> used_pages s2 desc pd p \<and> ef_range f s2 = (0, 0, 0, 0)
    \<and> (\<forall>x. in_range (stat_local s2) 8 x \<longrightarrow> held s2 x \<and> (\<forall>q \<in> insert f (used_pages s2 desc pd p). \<not> in_range q 4096 x))
    \<and> kernel_heap s2 = kernel_heap s \<and> kavail s = kavail s2 + 6 + 2 * length (named q es) \<and> hw s2 = hw s
    \<and> klive s \<subseteq>\<^sub>m klive s1 \<and> klive s \<subseteq>\<^sub>m klive s2 \<and> (\<exists>m. s2 = s\<lparr>kmem := m, file_descriptors := (file_descriptors s)[i := desc]\<rparr>)
    \<and> (\<forall>x. held s x \<longrightarrow> kmem s2 x = kmem s x)"
proof -
  let ?d = "disk_var s" and ?l = "length (named q es)"
  obtain f s1 where z: "kzalloc sizeof_elf_file s = (f, s1)" by fastforce
  note k = kzalloc_page_extends [OF assms(1) _ _ _ z]
  have k: "extends s s1" "kheap_ok s1" "klive s f = None" "klive s1 = (klive s)(f \<mapsto> 1)" "kavail s = Suc (kavail s1)"
      "\<And>x. in_range f 132 x \<Longrightarrow> kmem s1 x = 0"
    using k(1-5,7) assms(12) by (simp_all add: sizeof_elf_file_def)
  obtain m1 where m1: "s1 = s\<lparr>kmem := m1\<rparr>" using k(1) unfolding extends_def by blast
  have v: "disk_var s1 = ?d" "disks s1 = disks s" "pool_low s1" "file_descriptors s1 = file_descriptors s"
    using assms(2) by (simp_all add: m1 pool_low_def)
  have b: "held_string s1 filename (path_string 0x30 q)" "q \<noteq> []" "slash \<notin> set q" "length q \<le> 105"
    using assms(3) held_string_extends [OF _ k(1)] by (simp_all add: load_buffers_def)
  have F: "\<forall>bs \<in> set es. entry_ends bs" "\<forall>bs \<in> set (named q es). entry_is_file bs" "named q es \<noteq> []"
    using assms(9) by (simp_all add: program_file_def)
  have av: "5 + 2 * ?l \<le> kavail s1" using k(5) assms(12) by simp
  have dv: "disk_var s1 \<noteq> NULL" "disk_filesystem (disks s1 (disk_var s1)) = fs" "root_ready s1 (disk_var s1) p es"
    "first_free (file_descriptors s1) 0 = Some i"
    using v assms(4,5,13) root_ready_extends [OF k(1) assms(8)] by simp_all
  obtain desc pd t where T: "extends s1 t" "kheap_ok t" "kavail s1 = kavail t + 5 + 2 * ?l" "opened s1 t pd (last (named q es))" "klive t desc = Some 1"
      "klive s1 desc = None" "desc \<notin> pages_of t pd" "get_field desc fd_index t = of_nat (Suc i)" "get_field desc fd_filesystem t = fs"
      "get_field desc fd_private t = pd" "get_field desc fd_disk t = ?d"
      "fopen_mode ops filename (\<lambda>_. FILE_MODE_READ) s1 = Some (int (Suc i), t\<lparr>file_descriptors := (file_descriptors s)[i := desc]\<rparr>)"
    using fopen_law [OF k(2) v(3) b dv(1,2) assms(6) _ dv(3) F av dv(4) assms(14), where ops = ops and bus = bus] assms(7) v(1,4) by auto
  have e: "extends s t" by (rule extends_trans [OF k(1) T(1)])
  obtain m where m: "t = s\<lparr>kmem := m\<rparr>" using e unfolding extends_def by blast
  let ?s2 = "t\<lparr>file_descriptors := (file_descriptors s)[i := desc]\<rparr>"
  have iu: "in_use s1 t desc pd (last (named q es)) i fs ?d" using T by (simp add: in_use_def)
  have ld: "loading s1 t desc pd (last (named q es)) i fs ?d p spc e st"
    using iu mounted_extends [OF e assms(1,10,11)] extends_live [OF e assms(10)] by (simp add: loading_def)
  have f1: "klive s1 f = Some 1" "f \<noteq> p" using k(3,4) assms(10) by auto
  then have ft: "f \<notin> used_pages t desc pd p" using in_use_pages(2) [OF iu] by (auto simp: used_pages_def)
  have z0: "get_field f j t = 0" if "unat j < 33" for j
  proof -
    have "get_field f j t = get_field f j s1" using that by (intro extends_page_field [OF T(1) k(2) f1(1)]) simp
    also have "\<dots> = 0" unfolding get_field_def word_at_def using k(6) field_slot [of f j _ 33] that by (intro load32_zero) simp
    finally show ?thesis .
  qed
  have st: "held t x \<and> (\<forall>q \<in> insert f (used_pages t desc pd p). \<not> in_range q 4096 x)" if "in_range (stat_local s) 8 x" for x
  proof -
    have h: "held s x" "\<not> in_range p 4096 x" using assms(3) that by (auto simp: load_buffers_def)
    have h1: "held s1 x" by (rule extends_held [OF k(1) h(1)])
    have "\<not> in_range f 4096 x" using grows_fresh [OF extends_grows [OF k(1)] k(2) f1(1) k(3) h(1)] .
    moreover have "\<not> in_range r 4096 x" if "r \<in> file_pages t desc pd" for r
      using grows_fresh [OF extends_grows [OF T(1)] T(2) in_use_pages [OF iu that] h1] .
    ultimately show ?thesis using h(2) extends_held [OF T(1) h1] by (auto simp: used_pages_def)
  qed
  have hf: "held ?s2 x = held t x" for x by (simp add: held_def in_pool_def live_bytes_def)
  have "fopen_r ops filename s1 = Some (int (Suc i), ?s2)" using T(12) by (simp add: fopen_r_def mode_r)
  moreover have "stat_local ?s2 = stat_local s" "kernel_heap ?s2 = kernel_heap s" "hw ?s2 = hw s" by (simp_all add: stat_local_def m)
  moreover have "ef_range f ?s2 = (0, 0, 0, 0)" using z0 by (simp add: ef_range_def opened_fds ef_offsets)
  moreover have "klive s \<subseteq>\<^sub>m klive s1" "klive s \<subseteq>\<^sub>m klive t" using k(1) e by (simp_all only: extends_def)
  moreover have "\<exists>m. ?s2 = s\<lparr>kmem := m, file_descriptors := (file_descriptors s)[i := desc]\<rparr>" by (intro exI [of _ m]) (simp add: m)
  moreover have "\<forall>x. held s x \<longrightarrow> kmem ?s2 x = kmem s x" using extends_mem [OF e] by simp
  ultimately show ?thesis
    using z ld k(3,5) T(3) ft st hf extends_live [OF T(1) f1(1)]
    by (intro exI [of _ f] exI [of _ s1] exI [of _ ?s2] exI [of _ desc] exI [of _ pd]) (simp add: in_use_fds)
qed

text \<open>
  The whole of \<open>elf_load\<close>. Of the heap it keeps the record and the image, the parsed path, and the items of all entries
  of the name but the last.
\<close>

definition elf_loaded ::
  "('d, 'a) elf_state_scheme \<Rightarrow> ('d, 'a) elf_state_scheme \<Rightarrow> addr \<Rightarrow> addr \<Rightarrow> u8 list \<Rightarrow> bool" where
  "elf_loaded s s' f em bytes \<longleftrightarrow> elf_memory f s' = em \<and> f \<noteq> em \<and> klive s f = None \<and> klive s' f = Some 1 \<and> klive s em = None
     \<and> klive s' em = Some (blocks_of (of_nat (length bytes))) \<and> bytes_at (kmem s') em (length bytes) = bytes
     \<and> (elf_validate_loaded (image_mem bytes) 0 = ALPHAOS_ALL_OK \<longrightarrow>
        image_range (image_mem bytes) em (segments (image_mem bytes) 0 (unat (e_phnum (image_mem bytes) 0))) (ef_range f s'))"

text \<open>Nothing older is written but the buffer for \<open>fstat\<close>, and no table of the kernel is left changed.\<close>

definition load_keeps :: "('d, 'a) elf_state_scheme \<Rightarrow> ('d, 'a) elf_state_scheme \<Rightarrow> bool" where
  "load_keeps s s' \<longleftrightarrow> (\<exists>m d sts. s' = s\<lparr>kmem := m, hw := d, streams := sts\<rparr>) \<and> klive s \<subseteq>\<^sub>m klive s'
     \<and> (\<forall>x. held s x \<longrightarrow> \<not> in_range (stat_local s) 8 x \<longrightarrow> kmem s' x = kmem s x)"

lemma elf_load_law:
  fixes s :: "('d, 'a) elf_state_scheme"
  assumes "ata_contract bus ata img" "ata_idle ata (hw s)"
    "kheap_ok s" "pool_low s" "load_buffers s filename q p" "disk_var s \<noteq> NULL" "disk_filesystem (disks s (disk_var s)) = fs" "fs \<noteq> NULL"
    "ops fs = fat16_ops bus" "root_ready s (disk_var s) p es" "program_file es q spc e c sz" "klive s p = Some 1" "mounted s (disk_var s) p spc e st"
    "load_room s (length (named q es)) sz" "first_free (file_descriptors s) 0 = Some i" "i < 511"
    "disk_bytes img (cluster_pos spc e c) sz = bytes" "elf_validate_loaded (image_mem bytes) 0 = ALPHAOS_ALL_OK \<longrightarrow> headers_inside bytes"
  shows "\<exists>f em s'. elf_load ops filename file_out s = Some (0, if elf_validate_loaded (image_mem bytes) 0 = ALPHAOS_ALL_OK then f else file_out, s')
    \<and> elf_loaded s s' f em bytes \<and> load_keeps s s' \<and> kheap_ok s'
    \<and> kavail s = kavail s' + blocks_of (of_nat sz) + 2 + 2 * length (named q es)"
proof -
  let ?n = "blocks_of (of_nat sz)" and ?l = "length (named q es)"
  have F: "entry_cluster (last (named q es)) = of_nat c" "2 \<le> c" "c < 2 ^ 31" "entry_size (last (named q es)) = of_nat sz" "52 \<le> sz"
    "sz \<le> spc * 512" "cluster_pos spc e c + sz < 2 ^ 31" using assms(11) by (simp_all add: program_file_def)
  have lt: "0 < sz" "sz < 2 ^ 31" using F(5,7) by simp_all
  have len: "length bytes = sz" using assms(17) by auto
  note R = load_room [OF assms(14) lt]
  obtain f s1 s2 desc pd where A: "kzalloc sizeof_elf_file s = (f, s1)" "fopen_r ops filename s1 = Some (int (Suc i), s2)"
      "loading s1 s2 desc pd (last (named q es)) i fs (disk_var s) p spc e st" "file_descriptors s2 = (file_descriptors s)[i := desc]"
      "klive s f = None" "klive s2 f = Some 1" "f \<notin> used_pages s2 desc pd p" "ef_range f s2 = (0, 0, 0, 0)"
      "\<forall>x. in_range (stat_local s2) 8 x \<longrightarrow> held s2 x \<and> (\<forall>q \<in> insert f (used_pages s2 desc pd p). \<not> in_range q 4096 x)"
      "kernel_heap s2 = kernel_heap s" "kavail s = kavail s2 + 6 + 2 * ?l" "hw s2 = hw s" "klive s \<subseteq>\<^sub>m klive s2"
      "klive s \<subseteq>\<^sub>m klive s1" "\<exists>m. s2 = s\<lparr>kmem := m, file_descriptors := (file_descriptors s)[i := desc]\<rparr>" "\<forall>x. held s x \<longrightarrow> kmem s2 x = kmem s x"
    using open_for_load [OF assms(3-8) _ assms(10-13) R(1) assms(15,16), where ops = ops and bus = bus] assms(9) by blast
  have il: "i < length (file_descriptors s)" "file_descriptors s ! i = NULL" using assms(15) by (simp_all add: first_free_Some)
  then have fd2: "file_descriptors s2 ! i = desc" using A(4) by simp
  obtain s3 em s4 where B: "fstat ops (int (Suc i)) (stat_local s2) s2 = Some (0, s3)" "stat_local s3 = stat_local s2"
      "get_field (stat_local s2) stat_filesize s3 = of_nat sz" "kzalloc (of_nat sz) s3 = (em, s4)"
      "get_field (stat_local s2) stat_filesize (set_field f ef_elf_memory em s4) = of_nat sz"
      "stat_local (set_field f ef_elf_memory em s4) = stat_local s2" "stat_local s4 = stat_local s2"
      "loading s1 (set_field f ef_elf_memory em s4) desc pd (last (named q es)) i fs (disk_var s) p spc e st"
      "used_pages (set_field f ef_elf_memory em s4) desc pd p = used_pages s2 desc pd p"
      "klive (set_field f ef_elf_memory em s4) = (klive s2)(em \<mapsto> ?n)" "klive s2 em = None"
      "kavail s2 = kavail (set_field f ef_elf_memory em s4) + ?n" "ef_range f (set_field f ef_elf_memory em s4) = (0, 0, 0, 0)"
      "set_field f ef_elf_memory em s4 = s2\<lparr>kmem := kmem (set_field f ef_elf_memory em s4)\<rparr>"
      "\<forall>x. held s2 x \<longrightarrow> \<not> in_range (stat_local s2) 8 x \<longrightarrow> \<not> in_range f 4096 x \<longrightarrow> kmem (set_field f ef_elf_memory em s4) x = kmem s2 x"
    using load_place [OF A(3) _ assms(16) fd2 F(4) lt A(6-9) R(2) [OF A(10,11)], where ops = ops and bus = bus] assms(9) by blast
  define s5 where "s5 = set_field f ef_elf_memory em s4"
  note B = B [folded s5_def]
  have s5: "hw s5 = hw s" "file_descriptors s5 = (file_descriptors s)[i := desc]" by (subst B(14), simp add: A(4,12))+
  have em: "em \<notin> insert f (used_pages s5 desc pd p)" using B(9,11) A(6) loading_live [OF A(3)] by auto
  have e0: "klive s em = None" using A(13) B(11) by (metis domIff map_le_def option.distinct(1))
  have g5: "elf_memory f s5 = em" by (simp add: s5_def elf_memory_def get_set_field ef_offsets)
  have l5: "klive s5 f = Some 1" "klive s5 em = Some ?n" "f \<notin> used_pages s5 desc pd p" "file_descriptors s5 ! i = desc" "ata_idle ata (hw s5)"
    using B(9-11) A(6,7) s5 il(1) assms(2) by auto
  obtain s6 res s7 where C: "fread ops em (of_nat sz) 1 (int (Suc i)) s5 = Some (1, s6)" "elf_process_loaded f s6 = (res, s7)"
      "res < 0 \<longleftrightarrow> elf_validate_loaded (image_mem bytes) 0 \<noteq> ALPHAOS_ALL_OK"
      "in_use s1 s7 desc pd (last (named q es)) i fs (disk_var s)" "klive s7 = klive s5" "kavail s7 = kavail s5" "file_descriptors s7 = file_descriptors s5"
      "file_pages s7 desc pd = file_pages s5 desc pd" "elf_memory f s7 = em" "bytes_at (kmem s7) em sz = bytes"
      "elf_validate_loaded (image_mem bytes) 0 = ALPHAOS_ALL_OK \<longrightarrow>
       image_range (image_mem bytes) em (segments (image_mem bytes) 0 (unat (e_phnum (image_mem bytes) 0))) (ef_range f s7)"
      "\<exists>m d sts. s7 = s5\<lparr>kmem := m, hw := d, streams := sts\<rparr>" "\<forall>x. \<not> in_range em sz x \<longrightarrow> \<not> in_range f 132 x \<longrightarrow> kmem s7 x = kmem s5 x"
    using load_bytes [OF assms(1) l5(5) B(8) _ assms(16) l5(4) F(1-3) lt(1) F(6,7) l5(1,3) B(13) g5 l5(2) em F(5) assms(17,18), where ops = ops]
      assms(9) by blast
  have fd7: "file_descriptors s7 ! i = desc" using C(7) l5(4) by simp
  obtain s8 where D: "fclose ops (int (Suc i)) s7 = Some (0, s8)" "kheap_ok s8" "kavail s8 = kavail s7 + 4"
      "klive s8 = (\<lambda>r. if r \<in> file_pages s7 desc pd then None else klive s7 r)" "s8 = s7\<lparr>file_descriptors := (file_descriptors s7)[i := NULL], kmem := kmem s8\<rparr>"
      "\<forall>x. \<not> in_table s7 x \<longrightarrow> kmem s8 x = kmem s7 x"
    using close_in_use [OF C(4) _ assms(16) fd7, where ops = ops and bus = bus] assms(9) by blast
  have ok7: "kheap_ok s7" using C(4) by (simp add: in_use_def)
  have l7: "klive s7 f = Some 1" "klive s7 em = Some ?n" using C(5) l5(1,2) by simp_all
  have np: "f \<notin> file_pages s7 desc pd" "em \<notin> file_pages s7 desc pd" using C(8) l5(3) em by (auto simp: used_pages_def)
  have "\<forall>x. in_range f 4096 x \<longrightarrow> kmem s8 x = kmem s7 x" using klive_in_pool(2) [OF ok7 l7(1)] D(6) by simp
  note f8 = ef_range_cong [OF this]
  have em_fits: "sz \<le> ?n * 4096" using blocks_of_covers [of "of_nat sz"] lt by (simp add: unat_of_nat take_bit_nat_eq_self)
  then have "kmem s8 x = kmem s7 x" if "in_range em sz x" for x
    using klive_in_pool(2) [OF ok7 l7(2)] D(6) in_range_mono that by blast
  then have b8: "bytes_at (kmem s8) em sz = bytes" using bytes_at_cong [of em sz "kmem s8" "kmem s7"] C(10) lt(2) by simp
  have "elf_loaded s s8 f em bytes"
    using f8 C(9,11) A(5) e0 em D(4) np l7 b8 by (auto simp: elf_loaded_def len)
  moreover have "load_keeps s s8"
    unfolding load_keeps_def
  proof (intro conjI allI impI)
    obtain m d sts where e7: "s7 = s5\<lparr>kmem := m, hw := d, streams := sts\<rparr>" using C(12) by blast
    obtain m' where "s2 = s\<lparr>kmem := m', file_descriptors := (file_descriptors s)[i := desc]\<rparr>" using A(15) by blast
    then have "s5 = s\<lparr>kmem := kmem s5, file_descriptors := (file_descriptors s)[i := desc]\<rparr>"
      by (subst B(14)) simp
    then have "s7 = s\<lparr>kmem := m, hw := d, streams := sts, file_descriptors := (file_descriptors s)[i := desc]\<rparr>"
      unfolding e7 by (rule ssubst) simp
    then have "s8 = s\<lparr>kmem := kmem s8, hw := d, streams := sts, file_descriptors := ((file_descriptors s)[i := desc])[i := NULL]\<rparr>"
      by (subst D(5)) simp
    then show "\<exists>m d sts. s8 = s\<lparr>kmem := m, hw := d, streams := sts\<rparr>"
      using il list_update_same_conv [of i "file_descriptors s" NULL]
      by (intro exI [of _ "kmem s8"] exI [of _ d] exI [of _ sts]) simp
    have "klive s8 r = Some k" if "klive s r = Some k" for r k
    proof -
      have "klive s2 r = Some k" "klive s1 r = Some k" using that A(13,14) by (metis domI map_le_def)+
      moreover have "r \<notin> file_pages s7 desc pd" using in_use_pages(2) [OF C(4), of r] calculation(2) by auto
      moreover have "r \<noteq> em" using that e0 by auto
      ultimately show ?thesis using D(4) C(5) B(10) by simp
    qed
    then show "klive s \<subseteq>\<^sub>m klive s8" by (auto simp: map_le_def)
    fix x assume x: "held s x" "\<not> in_range (stat_local s) 8 x"
    have h2: "held s2 x" by (rule held_mono [OF A(10,13) x(1)])
    have ok2: "kheap_ok s2" by (rule loading_ok [OF A(3)])
    have "\<not> in_range f (1 * 4096) x" by (rule held_fresh [OF ok2 A(6,5,13,10) x(1)])
    moreover have "kernel_heap s5 = kernel_heap s2" by (rule kmem_only_heap [OF B(14)])
    moreover have "klive s2 \<subseteq>\<^sub>m klive s5" using B(10,11) by (auto simp: map_le_def)
    ultimately have f: "\<not> in_range f 4096 x" "\<not> in_range em (?n * 4096) x"
      using held_fresh [OF loading_ok [OF B(8)] l5(2) B(11) _ _ h2] by simp_all
    then have "\<not> in_range f 132 x" "\<not> in_range em sz x"
      using in_range_mono [of f 132 x 4096] in_range_mono [of em sz x "?n * 4096"] em_fits by auto
    moreover have "stat_local s2 = stat_local s" using A(15) by (auto simp: stat_local_def)
    moreover have "kernel_heap s7 = kernel_heap s" using C(12) A(10) kmem_only_heap [OF B(14)] by auto
    then have "\<not> in_table s7 x" using x(1) by (simp add: held_def in_table_def)
    ultimately show "kmem s8 x = kmem s x" using D(6) C(13) B(15) A(16) f x h2 by simp
  qed
  moreover have "kavail s = kavail s8 + ?n + 2 + 2 * ?l" using A(11) B(12) C(6) D(3) by simp
  moreover have "elf_load ops filename file_out s =
      Some (0, if elf_validate_loaded (image_mem bytes) 0 = ALPHAOS_ALL_OK then f else file_out, s8)"
  proof -
    have g: "get_field f ef_elf_memory s5 = em" using g5 by (simp add: elf_memory_def)
    show ?thesis
      using A(1,2) B(1-7) C(1-3) D(1) g by (simp add: elf_load_def flip: s5_def)
  qed
  ultimately show ?thesis using D(2) by blast
qed

section \<open>Properties\<close>

lemma more_kernel_stack:
  fixes s :: "('d, 'a) elf_state_scheme"
  shows "file_state.more s' = file_state.more s \<Longrightarrow> kernel_stack s' = kernel_stack s"
  by (cases s; cases s') simp

text \<open>C16: a program on the boot disk is loaded. When the kernel has mounted its disk, \<open>elf_load\<close> of a file of the root directory that
  fits into one cluster reads the file whole into new memory, byte for byte, and leaves the table of open files as it was. If the file
  starts with a valid header, the caller gets a new record with the place of the image and its range, computed from the program
  headers of the file. If not, the caller's pointer stays as it was, although the result is 0 then too. In both cases the record and
  the image stay allocated, and with them the parsed path and two blocks for every further entry of the name.\<close>

theorem boot_elf_load:
  fixes s :: "('d, 'a) elf_state_scheme"
  assumes "ata_contract bus ata img" "boot_ready ata bus ops s" "fat_volume img spc rs e n" "n \<le> e"
    "root_entries img rs (used_entries img (rs * 512) n) = es" "program_file es q spc (rs + dir_sectors e) c sz"
    "held_string s filename (path_string 0x30 q)" "q \<noteq> []" "slash \<notin> set q" "length q \<le> 105" "\<forall>x. in_range (stat_local s) 8 x \<longrightarrow> held s x"
    "(heap_blocks (kernel_heap s) - kavail s + 12 + 2 * length (named q es)) * blocks_of (of_nat sz) \<le> heap_blocks (kernel_heap s)"
    "6 \<le> kavail s" "first_free (file_descriptors s) 0 = Some i" "i < 511" "disk_bytes img (cluster_pos spc (rs + dir_sectors e) c) sz = bytes"
    "elf_validate_loaded (image_mem bytes) 0 = ALPHAOS_ALL_OK \<longrightarrow> headers_inside bytes"
  shows "\<exists>s1 f em s2. disk_search_and_init ops s = Some s1
    \<and> elf_load ops filename file_out s1 = Some (0, if elf_validate_loaded (image_mem bytes) 0 = ALPHAOS_ALL_OK then f else file_out, s2)
    \<and> elf_loaded s1 s2 f em bytes \<and> kheap_ok s2 \<and> file_descriptors s2 = file_descriptors s
    \<and> kavail s1 = kavail s2 + blocks_of (of_nat sz) + 2 + 2 * length (named q es)"
proof -
  obtain p st s1 where M: "disk_search_and_init ops s = Some s1" "kheap_ok s1" "grows s s1" "kavail s = kavail s1 + 5" "tabs s1 = tabs s"
    and v: "klive s p = None" "klive s1 p = Some 1" "ata_idle ata (hw s1)" "disk_filesystem (disks s1 (disk_var s1)) = fat16_fs s"
      "mounted s1 (disk_var s1) p spc (rs + dir_sectors e) st" "root_ready s1 (disk_var s1) p es" "pool_low s1" "disk_var s1 \<noteq> NULL"
    using boot_root_law [OF assms(1-4,13)] unfolding assms(5) by blast
  have t: "file_descriptors s1 = file_descriptors s" "kernel_stack s1 = kernel_stack s"
    using M(5) more_kernel_stack [of s1 s] by (simp_all add: tabs_def)
  have buf: "load_buffers s1 filename q p"
    using held_string_grows [OF M(3) assms(7)] assms(8-11) grows_held [OF M(3)] grows_fresh [OF M(3,2) v(2,1)] t(2)
    by (simp add: load_buffers_def stat_local_def)
  have fs: "fat16_fs s \<noteq> NULL" "ops (fat16_fs s) = fat16_ops bus" using assms(2) by (simp_all add: boot_ready_def)
  have le: "kavail s \<le> heap_blocks (kernel_heap s)"
    using length_filter_le [of free_entry "ktable s"] by (simp add: kavail_def ktable_def heap_blocks_def)
  have "heap_blocks (kernel_heap s1) - kavail s1 + 7 + 2 * length (named q es) = heap_blocks (kernel_heap s) - kavail s + 12 + 2 * length (named q es)"
    using le M(4) growsD(1) [OF M(3)] by simp
  then have room: "load_room s1 (length (named q es)) sz"
    using assms(12) growsD(1) [OF M(3)] unfolding load_room_def by metis
  have ff: "first_free (file_descriptors s1) 0 = Some i" using assms(14) t(1) by simp
  obtain f em s2 where L: "elf_load ops filename file_out s1 = Some (0, if elf_validate_loaded (image_mem bytes) 0 = ALPHAOS_ALL_OK then f else file_out, s2)"
      "elf_loaded s1 s2 f em bytes" "load_keeps s1 s2" "kheap_ok s2" "kavail s1 = kavail s2 + blocks_of (of_nat sz) + 2 + 2 * length (named q es)"
    using elf_load_law [OF assms(1) v(3) M(2) v(7) buf v(8,4) fs(1) _ v(6) assms(6) v(2,5) room ff assms(15-17), where ops = ops and file_out = file_out]
      fs(2) by auto
  moreover have "file_descriptors s2 = file_descriptors s1" using L(3) by (auto simp: load_keeps_def)
  ultimately show ?thesis using M(1) t(1) by auto
qed

text \<open>The witness: the volume of \<^verbatim>\<open>boot.asm\<close> with a small program of one segment, and the kernel about to mount it.\<close>

definition tiny_elf :: "u8 list" where
  "tiny_elf = [0x7F, 0x45, 0x4C, 0x46, 1, 1] @ replicate 22 0 @ [52, 0, 0, 0] @ replicate 12 0 @ [1, 0] @ replicate 6 0
     @ [1, 0, 0, 0, 0, 0, 0, 0, 0, 0, 0x40, 0, 0, 0, 0x40, 0, 84, 0, 0, 0, 84, 0, 0, 0, 5, 0, 0, 0, 0, 0, 0, 0]"

definition tiny_entry :: "u8 list" where
  "tiny_entry = ascii ''SHELL   ELF'' @ 0x20 # replicate 14 0 @ [2, 0, 84, 0, 0, 0]"

definition tiny_disk :: "nat \<Rightarrow> u8" where
  "tiny_disk = (\<lambda>n. if 364544 \<le> n \<and> n < 364576 then tiny_entry ! (n - 364544)
     else if 366592 \<le> n \<and> n < 366676 then tiny_elf ! (n - 366592)
     else ((\<lambda>_. 0)(13 := 0x80, 14 := 200, 16 := 2, 17 := 0x40, 23 := 1, 38 := 0x29)) n)"

lemma tiny_elf:
  "length tiny_elf = 84" "elf_validate_loaded (image_mem tiny_elf) 0 = ALPHAOS_ALL_OK" "headers_inside tiny_elf"
  "segments (image_mem tiny_elf) 0 (unat (e_phnum (image_mem tiny_elf) 0)) = [52]"
  "p_vaddr (image_mem tiny_elf) 52 = 0x400000" "seg_end (image_mem tiny_elf) 52 = 0x400054"
proof -
  show l: "length tiny_elf = 84" by (simp add: tiny_elf_def)
  have b: "image_mem tiny_elf x = tiny_elf ! unat x" if "unat x < 84" for x
    using that l by (simp add: image_mem_def write_bytes_apply in_range_def)
  have w: "load32 (image_mem tiny_elf) 28 = 52" "load16 (image_mem tiny_elf) 44 = 1" "load32 (image_mem tiny_elf) 52 = 1"
    "load32 (image_mem tiny_elf) 60 = 0x400000" "load32 (image_mem tiny_elf) 64 = 0x400000" "load32 (image_mem tiny_elf) 68 = 84"
    by (simp_all add: load32_def load16_def b) (simp_all add: tiny_elf_def nth_append)
  have po: "e_phoff (image_mem tiny_elf) 0 = 52" "e_phnum (image_mem tiny_elf) 0 = 1" by (simp_all add: e_phoff_def e_phnum_def w)
  have "bytes_at (image_mem tiny_elf) 0 4 = [0x7F, 0x45, 0x4C, 0x46]" "bytes_at (buffer elf_signature) 0 4 = [0x7F, 0x45, 0x4C, 0x46]"
    by (simp_all add: bytes_at_def upt_rec b buffer_def elf_signature_def ascii_def of_char_def) (simp add: tiny_elf_def)
  moreover have "image_mem tiny_elf 4 = 1" "image_mem tiny_elf 5 = 1" by (simp_all add: b) (simp_all add: tiny_elf_def)
  ultimately show v: "elf_validate_loaded (image_mem tiny_elf) 0 = ALPHAOS_ALL_OK"
    by (simp add: elf_validate_loaded_def elf_valid_signature_def memcmp_eq_0_iff elf_valid_class_def elf_valid_encoding_def
      elf_has_program_header_def po EI_CLASS_def EI_DATA_def ELFCLASS32_def ELFDATA2LSB_def)
  have ph: "elf_program_header (image_mem tiny_elf) 0 0 = 52" by (simp add: elf_program_header_def elf_pheader_def po)
  have "p_type (image_mem tiny_elf) 52 = PT_LOAD" by (simp add: p_type_def word_at_def w PT_LOAD_def)
  then show s: "segments (image_mem tiny_elf) 0 (unat (e_phnum (image_mem tiny_elf) 0)) = [52]"
    by (simp add: segments_def po ph)
  show p: "p_vaddr (image_mem tiny_elf) 52 = 0x400000" "seg_end (image_mem tiny_elf) 52 = 0x400054"
    by (simp_all add: seg_end_def phdr_fields word_at_def w)
  show "headers_inside tiny_elf" unfolding headers_inside_def s using p by (simp add: l po)
qed

lemma tiny_disk:
  "fat_volume tiny_disk 128 712 64 1" "root_entries tiny_disk 712 (used_entries tiny_disk (712 * 512) 1) = [tiny_entry]"
  "disk_bytes tiny_disk 366592 84 = tiny_elf"
proof -
  have l: "length tiny_entry = 32" by (simp add: tiny_entry_def ascii_def)
  have e: "tiny_disk (364544 + j) = tiny_entry ! j" if "j < 32" for j using that by (simp add: tiny_disk_def)
  have "tiny_entry ! 0 = 0x53" by (simp add: tiny_entry_def ascii_def of_char_def)
  then have "tiny_disk 364544 = 0x53" using e [of 0] by simp
  moreover have "tiny_disk 364576 = 0" by (simp add: tiny_disk_def)
  ultimately show "fat_volume tiny_disk 128 712 64 1"
    and u: "root_entries tiny_disk 712 (used_entries tiny_disk (712 * 512) 1) = [tiny_entry]"
  proof -
    assume t: "tiny_disk 364544 = 0x53" "tiny_disk 364576 = 0"
    then show "fat_volume tiny_disk 128 712 64 1"
      by (simp add: fat_volume_def root_layout_def header_signature_def header_sectors_per_cluster_def header_fat_copies_def
        header_sectors_per_fat_def header_reserved_sectors_def header_root_dir_entries_def load16_def boot_header_def
        ALPHAOS_FAT16_SIGNATURE_def dir_ends_def) (simp add: tiny_disk_def)
    have "used_entries tiny_disk (712 * 512) 1 = 1" using t by (simp add: used_entries_def)
    moreover have "disk_bytes tiny_disk 364544 32 = tiny_entry" by (rule nth_equalityI) (simp_all add: l nth_disk_bytes e)
    ultimately show "root_entries tiny_disk 712 (used_entries tiny_disk (712 * 512) 1) = [tiny_entry]" by (simp add: root_entries_def)
  qed
  show "disk_bytes tiny_disk 366592 84 = tiny_elf"
    by (rule nth_equalityI) (simp_all add: tiny_elf(1) nth_disk_bytes, simp add: tiny_disk_def)
qed

lemma tiny_program: "program_file [tiny_entry] (ascii ''shell.elf'') 128 716 2 84" "named (ascii ''shell.elf'') [tiny_entry] = [tiny_entry]"
proof -
  have t: "entry_name tiny_entry = ascii ''SHELL.ELF''" "entry_ends tiny_entry" "entry_is_file tiny_entry"
    by (simp_all add: entry_name_def entry_ends_def entry_is_file_def tiny_entry_def ascii_def of_char_def stops_def dos_name_def
      FAT_FILE_SUBDIRECTORY_def)
  have c: "entry_cluster tiny_entry = 2" "entry_size tiny_entry = 84"
    by (simp_all add: entry_cluster_def entry_size_def item_file_size_def fat16_get_first_cluster_def item_high_first_cluster_def
      item_low_first_cluster_def load16_def load32_def tiny_entry_def ascii_def of_char_def write_bytes_apply in_range_unat nth_append)
  show n: "named (ascii ''shell.elf'') [tiny_entry] = [tiny_entry]" using t(1) shell_name(5) by (simp add: named_def)
  show "program_file [tiny_entry] (ascii ''shell.elf'') 128 716 2 84"
    using t(2,3) c n by (simp add: program_file_def cluster_pos_def)
qed

text \<open>The kernel's stack is low memory.\<close>

definition load_demo :: "sim_drive elf_state" where
  "load_demo = file_state.extend boot_demo \<lparr>kernel_stack = 0x700\<rparr>"

lemma load_demo:
  "boot_ready sim_ata (sim_bus tiny_disk) (\<lambda>_. fat16_ops (sim_bus tiny_disk)) load_demo" "kavail load_demo = 25600"
  "heap_blocks (kernel_heap load_demo) = 25600"
  "held_string load_demo 0x100 (path_string 0x30 (ascii ''shell.elf''))" "\<forall>x. in_range (stat_local load_demo) 8 x \<longrightarrow> held load_demo x"
  "first_free (file_descriptors load_demo) 0 = Some 0"
proof -
  have c: "kmem load_demo = kmem boot_demo" "kernel_heap load_demo = kernel_heap boot_demo"
    by (simp_all add: load_demo_def file_state.defs)
  have f: "hw load_demo = hw boot_demo" "disk_var load_demo = disk_var boot_demo" "fat16_fs load_demo = fat16_fs boot_demo"
    "filesystems load_demo = filesystems boot_demo" "file_descriptors load_demo = file_descriptors boot_demo" "kernel_stack load_demo = 0x700"
    by (simp_all add: load_demo_def file_state.defs)
  note h = same_core(1-3) [OF c]
  have hd: "held load_demo x = held boot_demo x" for x using core_cong [OF c] core(6) [of load_demo x] core(6) [of boot_demo x] by simp
  have hp: "kernel_heap boot_demo = \<lparr>table = \<lparr>entries = 0x7E00, total = 25600\<rparr>, saddr = 0x1000000\<rparr>"
    by (simp add: boot_demo_def kheap_init_eq)
  show "boot_ready sim_ata (sim_bus tiny_disk) (\<lambda>_. fat16_ops (sim_bus tiny_disk)) load_demo"
    using boot_demo(1) by (simp add: boot_ready_def pool_low_def c f h)
  show "kavail load_demo = 25600" "heap_blocks (kernel_heap load_demo) = 25600" using h boot_demo(2) by (simp_all add: c hp heap_blocks_def)
  show "held_string load_demo 0x100 (path_string 0x30 (ascii ''shell.elf''))" using boot_demo(3) by (simp add: held_string_def hd c)
  show "first_free (file_descriptors load_demo) 0 = Some 0" using boot_demo(5) by (simp add: f)
  have "stat_local load_demo = 0x6F8" by (simp add: stat_local_def f)
  then show "\<forall>x. in_range (stat_local load_demo) 8 x \<longrightarrow> held load_demo x"
    by (auto simp: held_def in_table_def in_pool_def c hp heap_blocks_def in_range_unat)
qed

theorem boot_elf_load_witness:
  "\<exists>s1 f s2. disk_search_and_init (\<lambda>_. fat16_ops (sim_bus tiny_disk)) load_demo = Some s1
     \<and> elf_load (\<lambda>_. fat16_ops (sim_bus tiny_disk)) 0x100 0 s1 = Some (0, f, s2)
     \<and> elf_virtual_base f s2 = 0x400000 \<and> elf_virtual_end f s2 = 0x400054 \<and> bytes_at (kmem s2) (elf_memory f s2) 84 = tiny_elf"
proof -
  have q: "ascii ''shell.elf'' \<noteq> []" "slash \<notin> set (ascii ''shell.elf'')" "length (ascii ''shell.elf'') \<le> 105"
    by (simp_all add: ascii_def of_char_def)
  have d: "712 + dir_sectors 64 = 716" "cluster_pos 128 716 2 = 366592" by (simp_all add: dir_sectors_def cluster_pos_def)
  have "unat (84 :: u32) = 84" by simp
  then have b: "blocks_of 84 = 1" by (intro blocks_of_1) simp_all
  have pf: "program_file [tiny_entry] (ascii ''shell.elf'') 128 (712 + dir_sectors 64) 2 84"
    "disk_bytes tiny_disk (cluster_pos 128 (712 + dir_sectors 64) 2) 84 = tiny_elf"
    using tiny_program(1) tiny_disk(3) by (simp_all add: d)
  have room: "(heap_blocks (kernel_heap load_demo) - kavail load_demo + 12 + 2 * length (named (ascii ''shell.elf'') [tiny_entry]))
      * blocks_of (of_nat 84) \<le> heap_blocks (kernel_heap load_demo)"
    by (simp add: load_demo(2,3) tiny_program(2) b)
  obtain s1 f em s2 where "disk_search_and_init (\<lambda>_. fat16_ops (sim_bus tiny_disk)) load_demo = Some s1"
      "elf_load (\<lambda>_. fat16_ops (sim_bus tiny_disk)) 0x100 0 s1 = Some (0, f, s2)" "elf_loaded s1 s2 f em tiny_elf"
    using boot_elf_load [OF sim_contract load_demo(1) tiny_disk(1) _ tiny_disk(2) pf(1) load_demo(4) q load_demo(5) room _ load_demo(6) _ pf(2),
      of 0] tiny_elf(2,3) load_demo(2) by auto
  then show ?thesis
    using tiny_elf by (intro exI [of _ s1] exI [of _ f] exI [of _ s2])
      (auto simp: elf_loaded_def image_range_def ef_range_def elf_virtual_base_def elf_virtual_end_def split: prod.splits)
qed

end
