(* ===== verification/Exit.thy ===== *)
theory Exit
  imports Isr80h
begin

text \<open>
  The end of a process: \<open>process_terminate\<close> of \<^verbatim>\<open>task/process.c\<close> and the system call
  \<open>exit\<close> that runs it. It releases the allocations of the program one by one, its image, its
  stack, the address space and the task.
\<close>

section \<open>Releasing the allocations\<close>

text \<open>
  The table of allocations: an entry is empty or holds a buffer of its own that is no part of the
  process.
\<close>

definition entries_ok :: "addr \<Rightarrow> 'a kheap_state_scheme \<Rightarrow> bool" where
  "entries_ok p s \<longleftrightarrow>
     (\<forall>i < 1024. if fst (allocation p i s) = NULL then snd (allocation p i s) = 0
        else 0 < unat (snd (allocation p i s)) \<and> unat (snd (allocation p i s)) \<le> 2 ^ 32 - 4096
          \<and> klive s (fst (allocation p i s)) = Some (blocks_of (snd (allocation p i s)))
          \<and> fst (allocation p i s) \<notin> process_parts p s)
     \<and> (\<forall>i < 1024. \<forall>j < 1024. fst (allocation p i s) = fst (allocation p j s) \<longrightarrow> fst (allocation p i s) = NULL \<or> i = j)"

lemma entries_okD:
  assumes "entries_ok p s" "i < 1024"
  shows "fst (allocation p i s) = NULL \<Longrightarrow> allocation p i s = (NULL, 0)"
    "allocation p i s = (ptr, sz) \<Longrightarrow> ptr \<noteq> NULL \<Longrightarrow>
       0 < unat sz \<and> unat sz \<le> 2 ^ 32 - 4096 \<and> klive s ptr = Some (blocks_of sz) \<and> ptr \<notin> process_parts p s"
    "j < 1024 \<Longrightarrow> fst (allocation p i s) = fst (allocation p j s) \<Longrightarrow> fst (allocation p i s) \<noteq> NULL \<Longrightarrow> i = j"
proof -
  have e: "if fst (allocation p i s) = NULL then snd (allocation p i s) = 0
      else 0 < unat (snd (allocation p i s)) \<and> unat (snd (allocation p i s)) \<le> 2 ^ 32 - 4096
          \<and> klive s (fst (allocation p i s)) = Some (blocks_of (snd (allocation p i s)))
          \<and> fst (allocation p i s) \<notin> process_parts p s"
    using assms unfolding entries_ok_def by blast
  show "fst (allocation p i s) = NULL \<Longrightarrow> allocation p i s = (NULL, 0)" using e by (simp add: prod_eq_iff)
  show "allocation p i s = (ptr, sz) \<Longrightarrow> ptr \<noteq> NULL \<Longrightarrow>
       0 < unat sz \<and> unat sz \<le> 2 ^ 32 - 4096 \<and> klive s ptr = Some (blocks_of sz) \<and> ptr \<notin> process_parts p s"
    using e by simp
  show "j < 1024 \<Longrightarrow> fst (allocation p i s) = fst (allocation p j s) \<Longrightarrow> fst (allocation p i s) \<noteq> NULL \<Longrightarrow> i = j"
    using assms unfolding entries_ok_def by blast
qed

text \<open>The buffers of the first \<open>n\<close> entries.\<close>

definition buffers :: "addr \<Rightarrow> nat \<Rightarrow> 'a kheap_state_scheme \<Rightarrow> addr set" where
  "buffers p n s = (\<lambda>i. fst (allocation p i s)) ` {..< n} - {NULL}"

lemma buffers_parts:
  assumes "entries_ok p s" "q \<in> process_parts p s"
  shows "q \<notin> buffers p 1024 s"
proof
  assume "q \<in> buffers p 1024 s"
  then obtain i where i: "i < 1024" "fst (allocation p i s) = q" "q \<noteq> NULL" by (auto simp: buffers_def)
  have "allocation p i s = (q, snd (allocation p i s))" using i(2) by (simp add: prod_eq_iff)
  then show False using entries_okD(2) [OF assms(1) i(1) _ i(3)] assms(2) by blast
qed

text \<open>The bytes that \<open>process_free\<close> may write: the byte that \<open>kfree\<close> of NULL clears is one of them.\<close>

definition release_writes :: "addr \<Rightarrow> 'a kheap_state_scheme \<Rightarrow> addr \<Rightarrow> bool" where
  "release_writes p s x \<longleftrightarrow> in_table s x \<or> x = 0x6E00 \<or> table_pages (process_directory p s) s x \<or> in_range (p + 116) 8192 x"

text \<open>\<open>same_process p s s'\<close>: the invariant still holds, and the process has the same task and the same pages.\<close>

definition same_process :: "addr \<Rightarrow> 'a kheap_state_scheme \<Rightarrow> 'a kheap_state_scheme \<Rightarrow> bool" where
  "same_process p s s' \<longleftrightarrow> process_ok p s' \<and> s' = s\<lparr>kmem := kmem s'\<rparr>
     \<and> process_directory p s' = process_directory p s \<and> process_parts p s' = process_parts p s
     \<and> get_field p process_task s' = get_field p process_task s
     \<and> space_pages (process_directory p s) s' = space_pages (process_directory p s) s
     \<and> table_pages (process_directory p s) s' = table_pages (process_directory p s) s"

lemma same_process_refl: "process_ok p s \<Longrightarrow> same_process p s s"
  by (simp add: same_process_def)

lemma same_process_ok: "same_process p s s' \<Longrightarrow> process_ok p s'"
  unfolding same_process_def by blast

lemma same_process_heap: "same_process p s s' \<Longrightarrow> kernel_heap s' = kernel_heap s"
  unfolding same_process_def using kmem_only_heap by blast

lemma same_process_trans: "same_process p s t \<Longrightarrow> same_process p t u \<Longrightarrow> same_process p s u"
  unfolding same_process_def by (metis kmem_only_trans)

lemma same_process_frame:
  assumes "process_ok p s" "kheap_ok s'" "s' = s\<lparr>kmem := kmem s'\<rparr>" "\<And>q. q \<in> process_parts p s \<Longrightarrow> klive s' q = klive s q"
    "\<And>q n x. q \<in> process_parts p s \<Longrightarrow> klive s q = Some n \<Longrightarrow> in_range q (n * 4096) x \<Longrightarrow> kmem s' x = kmem s x"
  shows "same_process p s s'" "i < 1024 \<Longrightarrow> allocation p i s' = allocation p i s"
proof -
  note f = process_frame [OF assms(1,2,4,5)]
  show "i < 1024 \<Longrightarrow> allocation p i s' = allocation p i s" by (rule f(4))
  have live: "klive s p = Some 3" "p \<in> process_parts p s" "space_ok (process_directory p s) s"
    using assms(1) by (simp_all add: process_ok_def process_parts_def)
  have "get_field p process_task s' = get_field p process_task s"
    by (intro process_fields_cong assms(5) [OF live(2,1)]) (simp_all add: process_task_def)
  moreover have "table_pages (process_directory p s) s' = table_pages (process_directory p s) s"
  proof (rule table_pages_cong)
    fix q x assume "q \<in> space_pages (process_directory p s) s" "in_range q 4096 x"
    then show "kmem s' x = kmem s x" using assms(5) [of q 1] space_live [OF live(3)] by (simp add: process_parts_def)
  qed
  moreover have "process_ok p s'" "process_directory p s' = process_directory p s" "process_parts p s' = process_parts p s"
    "space_pages (process_directory p s) s' = space_pages (process_directory p s) s"
    by (rule f(1), assumption+) (rule f(2), assumption+, rule f(7), assumption+, rule f(6), assumption+)
  ultimately show "same_process p s s'" using assms(3) by (simp add: same_process_def)
qed

text \<open>The state after the first \<open>n\<close> entries.\<close>

definition entries_freed :: "addr \<Rightarrow> nat \<Rightarrow> 'a kheap_state_scheme \<Rightarrow> 'a kheap_state_scheme \<Rightarrow> bool" where
  "entries_freed p n s s' \<longleftrightarrow> same_process p s s'
     \<and> kmem s' 0x6E00 AND 0x80 = 0
     \<and> klive s' = (\<lambda>q. if q \<in> buffers p n s then None else klive s q)
     \<and> (\<forall>i < 1024. allocation p i s' = (if i < n then (NULL, 0) else allocation p i s))
     \<and> (\<forall>x. \<not> release_writes p s x \<longrightarrow> kmem s' x = kmem s x)"

lemma allocation_search_finds:
  "get_field p (allocation_ptr i) s = ptr \<Longrightarrow> k \<le> i \<Longrightarrow> i < k + n \<Longrightarrow> \<exists>j. allocation_search p ptr s n k = Some j"
proof (induction n arbitrary: k)
  case (Suc n)
  then show ?case using Suc.IH [of "Suc k"] by (cases "k = i") auto
qed simp

text \<open>\<open>kfree\<close> of NULL writes one byte that is neither in the pool nor in the table.\<close>

lemma boot_layout:
  assumes "kernel_heap s = kernel_heap boot_state"
  shows "\<not> in_pool s 0x6E00" "\<not> in_table s 0x6E00" "pool_below_4g s"
    "kheap_ok s \<Longrightarrow> klive s q = Some n \<Longrightarrow> unat q + n * 4096 \<le> 121634816"
  using klive_top [of s q n]
  by (simp_all add: in_pool_def in_table_def pool_below_4g_def assms boot_state_def kheap_init_eq heap_blocks_def in_range_unat)

lemma process_kfree_null:
  assumes "process_ok p s" "kernel_heap s = kernel_heap boot_state" "kmem s 0x6E00 AND 0x80 = 0"
  shows "kfree NULL s = s\<lparr>kmem := (kmem s)(0x6E00 := 0)\<rparr>" "klive (kfree NULL s) = klive s"
    "same_process p s (kfree NULL s)" "i < 1024 \<Longrightarrow> allocation p i (kfree NULL s) = allocation p i s"
proof -
  show k: "kfree NULL s = s\<lparr>kmem := (kmem s)(0x6E00 := 0)\<rparr>"
    by (rule kfree_null_clears_byte) (use assms in \<open>simp_all add: boot_state_def kheap_init_eq\<close>)
  have ok: "kheap_ok s" using assms(1) by (simp add: process_ok_def)
  note out = boot_layout(1,2) [OF assms(2)]
  have tb: "kmem (kfree NULL s) x = kmem s x" if "in_range (entries (table (kernel_heap s))) (heap_blocks (kernel_heap s)) x" for x
    using that out(2) by (auto simp: k in_table_def)
  have hp: "kernel_heap (kfree NULL s) = kernel_heap s" by (simp add: k)
  have h: "kheap_ok (kfree NULL s)" "klive (kfree NULL s) = klive s" using kheap_cong(1,2) [OF hp tb] ok by simp_all
  show "klive (kfree NULL s) = klive s" by (fact h)
  have mem: "kmem (kfree NULL s) x = kmem s x" if "klive s q = Some n" "in_range q (n * 4096) x" for q n x
    using klive_in_pool(1) [OF ok that] out(1) by (auto simp: k)
  show "same_process p s (kfree NULL s)" "i < 1024 \<Longrightarrow> allocation p i (kfree NULL s) = allocation p i s"
    by (rule same_process_frame [OF assms(1) h(1)]; use mem h(2) in \<open>simp add: k\<close>)+
qed

text \<open>\<open>kfree\<close> of a buffer.\<close>

lemma process_kfree_other:
  assumes "process_ok p s" "klive s q = Some n" "q \<notin> process_parts p s"
  shows "same_process p s (kfree q s)" "i < 1024 \<Longrightarrow> allocation p i (kfree q s) = allocation p i s"
    "klive (kfree q s) = (klive s)(q := None)" "\<not> in_table s x \<Longrightarrow> kmem (kfree q s) x = kmem s x"
proof -
  have ok: "kheap_ok s" using assms(1) by (simp add: process_ok_def)
  have fr: "freed s {q} (kfree q s)" using freed_insert [OF freed_refl [OF ok] assms(2)] by simp
  then have h: "kheap_ok (kfree q s)" "kfree q s = s\<lparr>kmem := kmem (kfree q s)\<rparr>" "klive (kfree q s) = (klive s)(q := None)"
    by (simp_all add: freed_def fun_eq_iff)
  show "klive (kfree q s) = (klive s)(q := None)" by (fact h)
  show mem: "kmem (kfree q s) x = kmem s x" if "\<not> in_table s x" for x using fr that by (simp add: freed_def)
  have live: "klive (kfree q s) r = klive s r" if "r \<in> process_parts p s" for r using that assms(3) h(3) by auto
  have parts: "kmem (kfree q s) x = kmem s x" if "klive s r = Some k" "in_range r (k * 4096) x" for r k x
    using klive_in_pool(2) [OF ok that] mem by simp
  show "same_process p s (kfree q s)" "i < 1024 \<Longrightarrow> allocation p i (kfree q s) = allocation p i s"
    by (rule same_process_frame [OF assms(1) h(1,2) live parts]; assumption)+
qed

lemma same_process_parts: "same_process p s s' \<Longrightarrow> process_parts p s' = process_parts p s"
  unfolding same_process_def by blast

text \<open>What the release writes of the process lies in the pool.\<close>

lemma process_pool:
  assumes "process_ok p s"
  shows "table_pages (process_directory p s) s x \<Longrightarrow> in_pool s x" "in_range (p + 116) 8192 x \<Longrightarrow> in_pool s x"
    "in_range (p + 116) 8192 x \<Longrightarrow> in_range p (3 * 4096) x"
proof -
  have ok: "kheap_ok s" "klive s p = Some 3" "space_ok (process_directory p s) s" using assms by (simp_all add: process_ok_def)
  show p: "in_range p (3 * 4096) x" if "in_range (p + 116) 8192 x"
    using in_range_sub [of p 116 8192 x "3 * 4096"] that by simp
  show "in_pool s x" if "in_range (p + 116) 8192 x" using klive_in_pool(1) [OF ok(1,2) p [OF that]] .
  show "in_pool s x" if t: "table_pages (process_directory p s) s x"
  proof -
    obtain i where i: "i < 1024" "in_range (table_of s (load32 (kmem s) (process_directory p s)) i) (1 * 4096) x"
      using t by (auto simp: table_pages_def)
    have "klive s (table_of s (load32 (kmem s) (process_directory p s)) i) = Some 1"
      using ok(3) i(1) by (simp add: space_ok_def directory_ok_def)
    then show ?thesis using klive_in_pool(1) [OF ok(1) _ i(2)] by blast
  qed
qed

lemma entries_freed_next:
  assumes "entries_freed p n s s'" "same_process p s' t" "klive t = (\<lambda>q. if q \<in> buffers p (Suc n) s then None else klive s q)"
    "\<And>i. i < 1024 \<Longrightarrow> allocation p i t = (if i < Suc n then (NULL, 0) else allocation p i s)"
    "\<And>x. \<not> release_writes p s x \<Longrightarrow> kmem t x = kmem s' x" "kmem t 0x6E00 AND 0x80 = 0"
  shows "entries_freed p (Suc n) s t"
proof -
  have "same_process p s t" "\<forall>x. \<not> release_writes p s x \<longrightarrow> kmem t x = kmem s x"
    using assms(1,2,5) same_process_trans [of p s s' t] unfolding entries_freed_def by simp_all
  then show ?thesis using assms(3,4,6) unfolding entries_freed_def by blast
qed

text \<open>An entry of the process is released: the state before its buffer goes back to the heap.\<close>

lemma process_free_entry:
  assumes "process_ok p s" "kernel_heap s = kernel_heap boot_state" "allocation_search p ptr s 1024 0 = Some j"
    "allocation p j s = (ptr, sz)" "ptr = NULL \<and> sz = 0 \<or> 0 < unat sz \<and> unat sz \<le> 2 ^ 32 - 4096 \<and> klive s ptr = Some (blocks_of sz)"
  shows "\<exists>s'. process_free p ptr s = kfree ptr s' \<and> same_process p s s' \<and> klive s' = klive s
    \<and> (\<forall>i < 1024. allocation p i s' = (if i = j then (NULL, 0) else allocation p i s))
    \<and> (\<forall>x. \<not> table_pages (process_directory p s) s x \<longrightarrow> \<not> in_range (p + 116) 8192 x \<longrightarrow> kmem s' x = kmem s x)"
proof -
  let ?e = "paging_align_address (ptr + sz)"
  have ok: "kheap_ok s" using assms(1) by (simp add: process_ok_def)
  have b: "unat ptr mod 4096 = 0 \<and> unat ?e mod 4096 = 0 \<and> unat ptr + unat ?e \<le> 2 ^ 32"
  proof (cases "ptr = NULL \<and> sz = 0")
    case True
    then show ?thesis by (simp add: paging_align_address_def)
  next
    case False
    then have l: "0 < unat sz" "unat sz \<le> 2 ^ 32 - 4096" "klive s ptr = Some (blocks_of sz)" using assms(5) by auto
    show ?thesis
      using buffer_end [OF ok l(3,1,2) boot_layout(3) [OF assms(2)]] boot_layout(4) [OF assms(2) ok l(3)]
      by (simp add: mod_add_left_eq)
  qed
  then have b': "unat ptr mod 4096 = 0" "unat ?e mod 4096 = 0" "unat ptr + unat ?e \<le> 2 ^ 32" by simp_all
  show ?thesis
    using process_free_law [OF assms(1,3,4) b'] unfolding same_process_def
    by (elim exE conjE) (intro exI conjI; assumption)
qed

text \<open>One entry.\<close>

lemma entries_freed_step:
  assumes "entries_freed p n s s'" "entries_ok p s" "n < 1024" "kernel_heap s = kernel_heap boot_state" "process_ok p s"
  shows "entries_freed p (Suc n) s (process_free p (get_field p (allocation_ptr n) s') s')"
proof -
  obtain ptr sz where a: "allocation p n s = (ptr, sz)" by fastforce
  have s': "same_process p s s'" "kmem s' 0x6E00 AND 0x80 = 0" "klive s' = (\<lambda>q. if q \<in> buffers p n s then None else klive s q)"
      "\<forall>x. \<not> release_writes p s x \<longrightarrow> kmem s' x = kmem s x"
    and al: "\<And>i. i < 1024 \<Longrightarrow> allocation p i s' = (if i < n then (NULL, 0) else allocation p i s)"
    using assms(1) by (simp_all add: entries_freed_def)
  have e: "allocation p n s' = (ptr, sz)" using al [OF assms(3)] a by simp
  then have f: "get_field p (allocation_ptr n) s' = ptr" by (simp add: allocation_def)
  obtain j where j: "allocation_search p ptr s' 1024 0 = Some j" using allocation_search_finds [OF f, of 0 1024] assms(3) by auto
  have j': "j < 1024" "fst (allocation p j s') = ptr" using allocation_search_Some [OF j] by (simp_all add: allocation_def)
  have hp: "kernel_heap s' = kernel_heap boot_state" using same_process_heap [OF s'(1)] assms(4) by simp
  have ok: "process_ok p s'" using s'(1) by (rule same_process_ok)
  have writes: "table_pages (process_directory p s') s' = table_pages (process_directory p s) s"
    using s'(1) unfolding same_process_def by metis
  have out: "\<not> in_table s 0x6E00" "\<not> table_pages (process_directory p s) s 0x6E00" "\<not> in_range (p + 116) 8192 0x6E00"
    using process_pool [OF assms(5)] boot_layout(1,2) [OF assms(4)] by blast+
  show ?thesis
  proof (cases "ptr = NULL")
    case True
    note z = entries_okD(1) [OF assms(2)]
    have aj: "allocation p j s' = (NULL, 0)" using al [OF j'(1)] j'(2) True z [OF j'(1)] by (cases "j < n") simp_all
    then obtain s2 where s2: "process_free p NULL s' = kfree NULL s2" "same_process p s' s2" "klive s2 = klive s'"
      "\<forall>i < 1024. allocation p i s2 = (if i = j then (NULL, 0) else allocation p i s')"
      "\<forall>x. \<not> table_pages (process_directory p s') s' x \<longrightarrow> \<not> in_range (p + 116) 8192 x \<longrightarrow> kmem s2 x = kmem s' x"
      using process_free_entry [OF ok hp, of NULL j 0] j True by auto
    have byte: "kmem s2 0x6E00 AND 0x80 = 0"
      using s2(5) out s'(2) writes by (simp add: release_writes_def)
    note k = process_kfree_null [OF same_process_ok [OF s2(2)] _ byte]
    have h2: "kernel_heap s2 = kernel_heap boot_state" using same_process_heap [OF s2(2)] hp by simp
    have "buffers p (Suc n) s = buffers p n s" using a True by (auto simp: buffers_def lessThan_Suc)
    moreover have "allocation p i (kfree NULL s2) = (if i < Suc n then (NULL, 0) else allocation p i s)" if "i < 1024" for i
    proof -
      have "allocation p i (kfree NULL s2) = allocation p i s'"
        using k(4) [OF h2 that] s2(4) aj that by (cases "i = j") simp_all
      moreover have "allocation p n s = (NULL, 0)" by (rule z [OF assms(3)]) (simp add: a True)
      ultimately show ?thesis using al [OF that] by (cases "i = n") (simp_all add: less_Suc_eq)
    qed
    moreover have "kmem (kfree NULL s2) x = kmem s' x" if "\<not> release_writes p s x" for x
      using that k(1) [OF h2] s2(5) writes by (auto simp: release_writes_def)
    ultimately show ?thesis
      unfolding f True s2(1) using k(1-3) [OF h2] s2(2,3) s'(3)
      by (intro entries_freed_next [OF assms(1)]) (auto intro: same_process_trans)
  next
    case False
    have ji: "j = n"
    proof (cases "j < n")
      case True then show ?thesis using al [OF j'(1)] j'(2) False by simp
    next
      case ge: False
      then have "fst (allocation p j s) = fst (allocation p n s)" using al [OF j'(1)] j'(2) a by simp
      then show ?thesis using entries_okD(3) [OF assms(2) j'(1) assms(3)] a False by simp
    qed
    have l: "0 < unat sz" "unat sz \<le> 2 ^ 32 - 4096" "klive s ptr = Some (blocks_of sz)" "ptr \<notin> process_parts p s"
      using entries_okD(2) [OF assms(2,3) a False] by simp_all
    have "ptr \<notin> buffers p n s"
    proof
      assume "ptr \<in> buffers p n s"
      then obtain i where "i < n" "fst (allocation p i s) = fst (allocation p n s)" using a by (auto simp: buffers_def)
      then show False using entries_okD(3) [OF assms(2) _ assms(3), of i] assms(3) a False by simp
    qed
    then have live: "klive s' ptr = Some (blocks_of sz)" using s'(3) l(3) by simp
    obtain s2 where s2: "process_free p ptr s' = kfree ptr s2" "same_process p s' s2" "klive s2 = klive s'"
      "\<forall>i < 1024. allocation p i s2 = (if i = j then (NULL, 0) else allocation p i s')"
      "\<forall>x. \<not> table_pages (process_directory p s') s' x \<longrightarrow> \<not> in_range (p + 116) 8192 x \<longrightarrow> kmem s2 x = kmem s' x"
      using process_free_entry [OF ok hp j, of sz] ji e l live by auto
    have parts: "ptr \<notin> process_parts p s2" using l(4) s'(1) s2(2) by (simp add: same_process_parts)
    have live2: "klive s2 ptr = Some (blocks_of sz)" using live s2(3) by simp
    note k = process_kfree_other [OF same_process_ok [OF s2(2)] live2 parts]
    have tb: "in_table s2 = in_table s"
      using same_process_heap [OF s2(2)] same_process_heap [OF s'(1)] by (simp add: in_table_def fun_eq_iff)
    have "buffers p (Suc n) s = insert ptr (buffers p n s)" using a False by (auto simp: buffers_def lessThan_Suc)
    moreover have "allocation p i (kfree ptr s2) = (if i < Suc n then (NULL, 0) else allocation p i s)" if "i < 1024" for i
      using k(2) [OF that] s2(4) [rule_format, OF that] al [OF that] ji by (simp add: less_Suc_eq)
    moreover have "kmem (kfree ptr s2) x = kmem s' x" if "\<not> release_writes p s x" for x
      using that k(4) s2(5) writes tb by (auto simp: release_writes_def)
    moreover have "kmem (kfree ptr s2) 0x6E00 AND 0x80 = 0"
      using k(4) s2(5) out tb s'(2) writes by (simp add: release_writes_def)
    ultimately show ?thesis
      unfolding f s2(1) using k(1,3) s2(2,3) s'(3)
      by (intro entries_freed_next [OF assms(1)]) (auto intro: same_process_trans)
  qed
qed

lemma entries_freed_all:
  assumes "process_ok p s" "entries_ok p s" "kernel_heap s = kernel_heap boot_state" "kmem s 0x6E00 AND 0x80 = 0"
  shows "\<exists>s'. process_terminate_allocation p s = (0, s') \<and> entries_freed p 1024 s s'"
proof -
  let ?f = "\<lambda>i s. process_free p (get_field p (allocation_ptr i) s) s"
  have "n \<le> 1024 \<Longrightarrow> entries_freed p n s (fold ?f [0..< n] s)" for n
  proof (induction n)
    case 0
    then show ?case using assms by (simp add: entries_freed_def same_process_refl buffers_def)
  next
    case (Suc n)
    then show ?case using entries_freed_step [OF _ assms(2) _ assms(3,1)] by simp
  qed
  from this [of 1024] show ?thesis
    by (simp only: process_terminate_allocation_def ALPHAOS_MAX_PROGRAM_ALLOCATIONS_def) blast
qed

section \<open>Releasing the rest\<close>

text \<open>The allocations of the program image, and everything that belongs to a process.\<close>

definition image_pages :: "addr \<Rightarrow> 'a kheap_state_scheme \<Rightarrow> addr set" where
  "image_pages p s =
     (let f = get_field p process_ptr s in
      if process_file_type (kmem s) p = PROCESS_FILETYPE_BINARY then {f}
      else if f = NULL then {} else {f, get_field f ef_elf_memory s})"

definition process_owned :: "addr \<Rightarrow> 'a kheap_state_scheme \<Rightarrow> addr set" where
  "process_owned p s = buffers p 1024 s \<union> insert (get_field p process_stack s) (image_pages p s)
     \<union> insert (get_field p process_task s) (space_pages (process_directory p s) s)"

text \<open>A process whose parts are all live and distinct, on the heap of the kernel.\<close>

definition process_complete :: "addr \<Rightarrow> 'a kheap_state_scheme \<Rightarrow> bool" where
  "process_complete p s \<longleftrightarrow> process_ok p s \<and> entries_ok p s \<and> kernel_heap s = kernel_heap boot_state \<and> kmem s 0x6E00 AND 0x80 = 0
     \<and> process_file_type (kmem s) p \<in> {PROCESS_FILETYPE_BINARY, PROCESS_FILETYPE_ELF}
     \<and> (\<forall>q \<in> insert (get_field p process_stack s) (image_pages p s).
          klive s q \<noteq> None \<and> q \<notin> process_parts p s \<and> q \<notin> buffers p 1024 s)
     \<and> get_field p process_stack s \<notin> image_pages p s
     \<and> (process_file_type (kmem s) p = PROCESS_FILETYPE_ELF \<longrightarrow> get_field p process_ptr s \<noteq> NULL \<longrightarrow>
          get_field (get_field p process_ptr s) ef_elf_memory s \<noteq> get_field p process_ptr s)"

text \<open>Nothing of the process but its table of allocations, and no other allocation, is written so far.\<close>

lemma release_writes_live:
  assumes "process_ok p s" "kernel_heap s = kernel_heap boot_state" "klive s q = Some n" "q \<notin> space_pages (process_directory p s) s"
    "in_range q (n * 4096) x" "q \<noteq> p \<or> \<not> in_range (p + 116) 8192 x"
  shows "\<not> release_writes p s x"
proof -
  have ok: "kheap_ok s" "klive s p = Some 3" "space_ok (process_directory p s) s" using assms(1) by (simp_all add: process_ok_def)
  note pool = klive_in_pool [OF ok(1) assms(3,5)]
  have "\<not> in_range (p + 116) 8192 x"
  proof (cases "q = p")
    case False
    then show ?thesis
      using klive_disjoint [OF ok(1) assms(3) ok(2)] process_pool(3) [OF assms(1)] assms(5) by (auto simp: disjoint_ranges_def)
  qed (use assms(6) in simp)
  moreover have "\<not> table_pages (process_directory p s) s x"
    using space_apart [OF ok(3) assms(3,4)] assms(5) by (auto simp: table_pages_def space_pages_def)
  ultimately show ?thesis using pool boot_layout(1) [OF assms(2)] by (auto simp: release_writes_def)
qed

lemma process_field_kept:
  assumes "process_ok p s" "kernel_heap s = kernel_heap boot_state" "\<And>x. \<not> release_writes p s x \<Longrightarrow> kmem s' x = kmem s x"
  shows "i \<in> {process_ptr, process_stack, process_task} \<Longrightarrow> get_field p i s' = get_field p i s"
    "process_file_type (kmem s') p = process_file_type (kmem s) p" "process_id (kmem s') p = process_id (kmem s) p"
proof -
  have ok: "klive s p = Some 3" "space_ok (process_directory p s) s" using assms(1) by (simp_all add: process_ok_def)
  have sp: "p \<notin> space_pages (process_directory p s) s" using space_live [OF ok(2), of p] ok(1) by auto
  have mem: "kmem s' (p + of_nat k) = kmem s (p + of_nat k)" if "k < 116 \<or> 8308 \<le> k \<and> k < 9364" for k
  proof (rule assms(3), rule release_writes_live [OF assms(1,2) ok(1) sp])
    show "in_range p (3 * 4096) (p + of_nat k)" using that by (auto simp: in_range_def unat_of_nat take_bit_nat_eq_self)
    have "\<not> in_range (p + 116) 8192 (p + of_nat k)"
    proof
      assume "in_range (p + 116) 8192 (p + of_nat k)"
      then obtain j where j: "j < 8192" "p + of_nat k = p + 116 + of_nat j" by (rule in_rangeE)
      then have eq: "(of_nat k :: u32) = of_nat (116 + j)" by (simp add: add.assoc)
      have small: "unat (of_nat i :: u32) = i" if "i < 10000" for i
        using that by (simp add: unat_of_nat take_bit_nat_eq_self)
      have "k = 116 + j" using small [of k] small [of "116 + j"] that j(1) eq by auto
      then show False using that j(1) by simp
    qed
    then show "p \<noteq> p \<or> \<not> in_range (p + 116) 8192 (p + of_nat k)" by simp
  qed
  have field: "get_field p i s' = get_field p i s" if "unat i \<in> {28, 2078, 2079}" for i
    unfolding get_field_def word_at_def
  proof (rule load32_cong)
    fix x assume "in_range (p + 4 * i) 4 x"
    then obtain j where j: "j < 4" "x = p + of_nat (4 * unat i + j)" by (auto elim!: in_rangeE simp: add.assoc)
    then show "kmem s' x = kmem s x" using mem [of "4 * unat i + j"] that by auto
  qed
  then show "i \<in> {process_ptr, process_stack, process_task} \<Longrightarrow> get_field p i s' = get_field p i s"
    by (auto simp: process_offsets process_ptr_def)
  show "process_file_type (kmem s') p = process_file_type (kmem s) p" using mem [of 8308] by (simp add: process_file_type_def)
  show "process_id (kmem s') p = process_id (kmem s) p"
    using mem [of 0] mem [of 1] by (simp add: process_id_def load16_def)
qed

lemma freedD:
  assumes "freed s P s'"
  shows "kheap_ok s'" "klive s' = (\<lambda>q. if q \<in> P then None else klive s q)" "kernel_heap s' = kernel_heap s"
    "\<not> in_table s x \<Longrightarrow> kmem s' x = kmem s x" "\<exists>m. s' = s\<lparr>kmem := m\<rparr>"
  using assms kmem_only_heap unfolding freed_def by blast+

lemma freed_mem:
  assumes "freed s P s'" "kheap_ok s" "klive s q = Some n" "in_range q (n * 4096) x"
  shows "kmem s' x = kmem s x"
  using assms(1) klive_in_pool(2) [OF assms(2-4)] by (simp add: freed_def)

lemma release_image:
  assumes "process_complete p s" "entries_freed p 1024 s s1"
  shows "\<exists>s2. process_free_program_data p s1 = (0, s2) \<and> freed s1 (image_pages p s) s2"
proof -
  let ?f = "get_field p process_ptr s"
  let ?m = "get_field ?f ef_elf_memory s"
  have c: "process_ok p s" "kernel_heap s = kernel_heap boot_state" "process_file_type (kmem s) p \<in> {PROCESS_FILETYPE_BINARY, PROCESS_FILETYPE_ELF}"
    "\<And>q. q \<in> image_pages p s \<Longrightarrow> klive s q \<noteq> None \<and> q \<notin> process_parts p s \<and> q \<notin> buffers p 1024 s"
    using assms(1) unfolding process_complete_def by blast+
  have s1: "process_ok p s1" "klive s1 = (\<lambda>q. if q \<in> buffers p 1024 s then None else klive s q)"
    "\<And>x. \<not> release_writes p s x \<Longrightarrow> kmem s1 x = kmem s x"
    using assms(2) by (simp_all add: entries_freed_def same_process_def)
  have ok: "kheap_ok s1" using s1(1) by (simp add: process_ok_def)
  note k = process_field_kept [OF c(1,2) s1(3)]
  have ptr: "get_field p process_ptr s1 = ?f" "process_file_type (kmem s1) p = process_file_type (kmem s) p" using k by simp_all
  have live: "\<exists>n. klive s1 q = Some n" if "q \<in> image_pages p s" for q using c(4) [OF that] s1(2) by auto
  show ?thesis
  proof (cases "process_file_type (kmem s) p = PROCESS_FILETYPE_BINARY")
    case True
    then have im: "image_pages p s = {?f}" by (simp add: image_pages_def Let_def)
    then obtain n where "klive s1 ?f = Some n" using live by auto
    then have "freed s1 {?f} (kfree ?f s1)" using freed_insert [OF freed_refl [OF ok]] by simp
    then show ?thesis using True ptr by (simp add: im process_free_program_data_def process_free_binary_data_def)
  next
    case False
    then have elf: "process_file_type (kmem s) p = PROCESS_FILETYPE_ELF" using c(3) by simp
    have d: "process_free_program_data p s1 = (0, elf_close ?f s1)"
      using False elf ptr by (simp add: process_free_program_data_def process_free_elf_data_def)
    show ?thesis
    proof (cases "?f = NULL")
      case True
      then have "image_pages p s = {}" using False by (simp add: image_pages_def)
      then show ?thesis using True d freed_refl [OF ok] by (simp add: elf_close_def)
    next
      case nn: False
      have im: "image_pages p s = {?f, ?m}" using False nn by (simp add: image_pages_def Let_def)
      obtain n k where n: "klive s1 ?f = Some n" "klive s1 ?m = Some k" using live im by fastforce
      have m: "?m \<noteq> ?f" using assms(1) elf nn unfolding process_complete_def by blast
      have f: "klive s ?f = Some n" "?f \<notin> process_parts p s" using n(1) s1(2) c(4) [of ?f] im by (auto split: if_splits)
      have "0 < n" using klive_nonnull [OF ok n(1)] by simp
      have "get_field ?f ef_elf_memory s1 = ?m"
      proof (rule get_field_cong [where n = 1024])
        fix x assume "in_range ?f (4 * 1024) x"
        then have "in_range ?f (n * 4096) x" by (rule in_range_mono) (use \<open>0 < n\<close> in simp)
        then show "kmem s1 x = kmem s x"
          using s1(3) release_writes_live [OF c(1,2) f(1)] f(2) by (simp add: process_parts_def)
      qed (simp_all add: ef_offsets)
      then have "elf_close ?f s1 = kfree ?f (kfree ?m s1)" using nn by (simp add: elf_close_def)
      moreover have "freed s1 {?f, ?m} (kfree ?f (kfree ?m s1))"
        using freed_insert [OF freed_insert [OF freed_refl [OF ok] n(2)] n(1)] m by simp
      ultimately show ?thesis using d im by simp
    qed
  qed
qed

lemma task_list_remove_vars: "\<exists>m cu tl hd. task_list_remove t s = s\<lparr>kmem := m, current_task := cu, task_tail := tl, task_head := hd\<rparr>"
  by (intro exI [of _ "kmem (task_list_remove t s)"] exI [of _ "current_task (task_list_remove t s)"]
      exI [of _ "task_tail (task_list_remove t s)"] exI [of _ "task_head (task_list_remove t s)"])
    (rule task_state.equality; simp add: task_list_remove_def Let_def set_field_def)

text \<open>What remains: the stack, the address space and the task, the last one of the list.\<close>

lemma release_task:
  fixes s :: "('d, 'a) task_state_scheme"
  assumes "tasks_inv s (ts @ [t])" "ts \<noteq> []" "space_ok (get_field t task_page_directory s) s"
    "insert t (set ts) \<inter> space_pages (get_field t task_page_directory s) s = {}"
  shows "\<exists>s'. task_free t s = (0, s') \<and> kheap_ok s' \<and> task_list s' ts
    \<and> current_task s' = (if current_task s = t then hd ts else current_task s)
    \<and> klive s' = (\<lambda>q. if q = t \<or> q \<in> space_pages (get_field t task_page_directory s) s then None else klive s q)
    \<and> (\<forall>x. \<not> in_table s x \<longrightarrow> \<not> in_range (last ts) 4096 x \<longrightarrow> kmem s' x = kmem s x)
    \<and> (\<exists>m cu tl hd. s' = s\<lparr>kmem := m, current_task := cu, task_tail := tl, task_head := hd\<rparr>)"
proof -
  let ?c = "get_field t task_page_directory s"
  let ?s1 = "paging_free_4gb ?c s" let ?s2 = "task_list_remove t ?s1" let ?s3 = "kfree t ?s2"
  have ok: "kheap_ok s" and live: "\<And>q. q = t \<or> q \<in> set ts \<Longrightarrow> klive s q = Some 1"
    and tl: "task_list s (ts @ [t])" using assms(1,2) by (auto simp: tasks_inv_def)
  have nt: "t \<notin> set ts" "t \<notin> space_pages ?c s" using tl assms(4) by (auto simp: task_list_def task_links_def)
  note f1 = paging_free_4gb_law(1) [OF assms(3)]
  have s1: "kheap_ok ?s1" "klive ?s1 = (\<lambda>q. if q \<in> space_pages ?c s then None else klive s q)"
    "kernel_heap ?s1 = kernel_heap s" by (rule freedD [OF f1])+
  obtain m1 where m1: "?s1 = s\<lparr>kmem := m1\<rparr>" using freedD(5) [OF f1] by blast
  have live1: "klive ?s1 q = Some 1" if "q = t \<or> q \<in> set ts" for q using live [OF that] assms(4) that s1(2) by auto
  have field: "get_field q i ?s1 = get_field q i s" if "q = t \<or> q \<in> set ts" "unat i < 1024" for q i
    by (rule get_field_cong [where n = 1024]) (use freed_mem [OF f1 ok, of q 1] live [OF that(1)] that(2) in simp_all)
  have "task_head ?s1 = task_head s" "task_tail ?s1 = task_tail s" and cur1: "current_task ?s1 = current_task s" by (simp_all add: m1)
  moreover have "task_links ?s1 (ts @ [t])"
    by (rule task_links_same [of s]) (use tl field in \<open>auto simp: task_list_def task_offsets\<close>)
  ultimately have inv1: "tasks_inv ?s1 (ts @ [t])"
    using s1(1) live1 tl by (auto simp: tasks_inv_def task_list_def)
  note r = task_list_remove_last_law [OF inv1 assms(2)]
  have lt: "last ts \<in> set ts" "klive ?s1 (last ts) = Some 1" using assms(2) live1 by simp_all
  have s2: "kheap_ok ?s2" "klive ?s2 = klive ?s1" by (rule kheap_store [OF s1(1) lt(2) r(3)]; use r(4) in simp)+
  have live2: "klive ?s2 t = Some 1" using live1 s2(2) by simp
  have f3: "freed ?s2 {t} ?s3" using freed_insert [OF freed_refl [OF s2(1)] live2] by simp
  obtain m3 where m3: "?s3 = ?s2\<lparr>kmem := m3\<rparr>" using freedD(5) [OF f3] by blast
  have field3: "get_field q i ?s3 = get_field q i ?s2" if "q \<in> set ts" "unat i < 1024" for q i
    by (rule get_field_cong [where n = 1024]) (use freed_mem [OF f3 s2(1), of q 1] live1 s2(2) that in simp_all)
  have "task_links ?s3 ts"
    by (rule task_links_same [of ?s2]) (use r(1) field3 in \<open>auto simp: task_list_def task_offsets\<close>)
  then have l3: "task_list ?s3 ts" using r(1) by (simp add: task_list_def m3)
  have "klive ?s3 = (\<lambda>q. if q = t \<or> q \<in> space_pages ?c s then None else klive s q)"
    unfolding freedD(2) [OF f3] s2(2) s1(2) by auto
  moreover have "kmem ?s3 x = kmem s x" if "\<not> in_table s x" "\<not> in_range (last ts) 4096 x" for x
  proof -
    have "\<not> in_table ?s2 x" using that(1) r(3) s1(3) by (simp add: in_table_def)
    then have "kmem ?s3 x = kmem ?s2 x" by (rule freedD(4) [OF f3])
    then show ?thesis using r(4) [OF that(2)] freedD(4) [OF f1 that(1)] by simp
  qed
  moreover have "current_task ?s3 = (if current_task s = t then hd ts else current_task s)"
    using r(2) cur1 by (simp add: m3)
  moreover have "kheap_ok ?s3" by (rule freedD(1) [OF f3])
  moreover have "\<exists>m cu tl hd. ?s3 = s\<lparr>kmem := m, current_task := cu, task_tail := tl, task_head := hd\<rparr>"
  proof -
    obtain m2 cu tl hd where "?s2 = ?s1\<lparr>kmem := m2, current_task := cu, task_tail := tl, task_head := hd\<rparr>"
      using task_list_remove_vars by blast
    then have "?s3 = s\<lparr>kmem := m3, current_task := cu, task_tail := tl, task_head := hd\<rparr>" by (subst m3) (simp add: m1)
    then show ?thesis by blast
  qed
  ultimately show ?thesis using l3 by (intro exI [of _ ?s3]) (simp add: task_free_def)
qed

text \<open>Releases elsewhere change neither the fields of a process nor an address space.\<close>

lemma process_field_freed:
  assumes "freed s P s'" "kheap_ok s" "klive s p = Some 3"
  shows "i \<in> {process_ptr, process_stack, process_task} \<Longrightarrow> get_field p i s' = get_field p i s"
    "process_id (kmem s') p = process_id (kmem s) p"
proof -
  have mem: "kmem s' x = kmem s x" if "in_range p (3 * 4096) x" for x by (rule freed_mem [OF assms that])
  show "get_field p i s' = get_field p i s" if "i \<in> {process_ptr, process_stack, process_task}"
    using that mem by (intro process_fields_cong) (auto simp: process_offsets process_ptr_def)
  show "process_id (kmem s') p = process_id (kmem s) p" using mem by (simp add: process_id_def load16_def in_range_def)
qed

lemma space_freed:
  assumes "freed s P s'" "space_ok c s" "P \<inter> space_pages c s = {}"
  shows "space_ok c s'" "space_pages c s' = space_pages c s"
proof -
  have ok: "kheap_ok s" using assms(2) by (simp add: space_ok_def directory_ok_def)
  have live: "klive s' q = Some 1" if "q \<in> space_pages c s" for q
    using that assms(3) space_live [OF assms(2)] freedD(2) [OF assms(1)] by auto
  have mem: "kmem s' x = kmem s x" if "q \<in> space_pages c s" "in_range q 4096 x" for q x
    using freed_mem [OF assms(1) ok space_live [OF assms(2) that(1)]] that(2) by simp
  note f = space_cong [OF assms(2) freedD(1) [OF assms(1)] live mem]
  show "space_ok c s'" by (rule f(1))
  show "space_pages c s' = space_pages c s" by (rule f(2))
qed

text \<open>What the program itself holds is gone; the process, its task and its address space are as before.\<close>

definition program_owned :: "addr \<Rightarrow> 'a kheap_state_scheme \<Rightarrow> addr set" where
  "program_owned p s = buffers p 1024 s \<union> insert (get_field p process_stack s) (image_pages p s)"

definition program_released :: "addr \<Rightarrow> 'a kheap_state_scheme \<Rightarrow> 'a kheap_state_scheme \<Rightarrow> bool" where
  "program_released p s s' \<longleftrightarrow> kheap_ok s' \<and> (\<exists>m. s' = s\<lparr>kmem := m\<rparr>)
     \<and> klive s' = (\<lambda>q. if q \<in> program_owned p s then None else klive s q)
     \<and> get_field p process_task s' = get_field p process_task s \<and> process_id (kmem s') p = process_id (kmem s) p
     \<and> space_ok (process_directory p s) s'
     \<and> space_pages (process_directory p s) s' = space_pages (process_directory p s) s
     \<and> (\<forall>q n x. klive s q = Some n \<longrightarrow> q \<notin> program_owned p s \<union> space_pages (process_directory p s) s \<union> {p} \<longrightarrow>
          in_range q (n * 4096) x \<longrightarrow> kmem s' x = kmem s x)"

lemma program_apart:
  assumes "process_complete p s"
  shows "program_owned p s \<inter> process_parts p s = {}"
  using assms buffers_parts [of p s] unfolding process_complete_def program_owned_def by blast

lemma process_not_owned: "process_complete p s \<Longrightarrow> p \<notin> process_owned p s"
proof -
  assume c: "process_complete p s"
  then have p: "klive s p = Some 3" "klive s (get_field p process_task s) = Some 1" "space_ok (process_directory p s) s"
    by (simp_all add: process_complete_def process_ok_def)
  then have "p \<notin> insert (get_field p process_task s) (space_pages (process_directory p s) s)" using space_live [OF p(3), of p] by auto
  moreover have "p \<notin> program_owned p s" using program_apart [OF c] by (auto simp: process_parts_def)
  ultimately show ?thesis by (auto simp: process_owned_def program_owned_def)
qed

lemma release_program:
  assumes "process_complete p s"
  shows "\<exists>s1 s2. process_terminate_allocation p s = (0, s1) \<and> process_free_program_data p s1 = (0, s2)
    \<and> program_released p s (kfree (get_field p process_stack s2) s2)"
proof -
  let ?c = "process_directory p s" and ?k = "get_field p process_stack s" and ?t = "get_field p process_task s"
  have c: "process_ok p s" "entries_ok p s" "kernel_heap s = kernel_heap boot_state" "kmem s 0x6E00 AND 0x80 = 0"
    "\<And>q. q \<in> insert ?k (image_pages p s) \<Longrightarrow> klive s q \<noteq> None \<and> q \<notin> buffers p 1024 s" "?k \<notin> image_pages p s"
    using assms unfolding process_complete_def by blast+
  obtain s1 where s1: "process_terminate_allocation p s = (0, s1)" "entries_freed p 1024 s s1"
    using entries_freed_all [OF c(1-4)] by blast
  obtain s2 where s2: "process_free_program_data p s1 = (0, s2)" "freed s1 (image_pages p s) s2"
    using release_image [OF assms s1(2)] by blast
  have p1: "same_process p s s1" "klive s1 = (\<lambda>q. if q \<in> buffers p 1024 s then None else klive s q)"
    "\<And>x. \<not> release_writes p s x \<Longrightarrow> kmem s1 x = kmem s x"
    using s1(2) by (simp_all add: entries_freed_def)
  have kept: "i \<in> {process_ptr, process_stack, process_task} \<Longrightarrow> get_field p i s1 = get_field p i s"
    "process_id (kmem s1) p = process_id (kmem s) p" for i
    using process_field_kept [OF c(1,3), of s1] p1(3) by blast+
  have same: "space_pages ?c s1 = space_pages ?c s" "process_directory p s1 = ?c" "\<exists>m. s1 = s\<lparr>kmem := m\<rparr>"
    using p1(1) unfolding same_process_def by blast+
  have ok: "kheap_ok s1" "klive s1 p = Some 3" "space_ok ?c s1"
    using same_process_ok [OF p1(1)] same(2) by (simp_all add: process_ok_def)
  define P where "P = insert ?k (image_pages p s)"
  have P: "finite P" "P \<inter> space_pages ?c s1 = {}" "program_owned p s = buffers p 1024 s \<union> P"
    using program_apart [OF assms] by (auto simp: P_def image_pages_def Let_def program_owned_def process_parts_def same(1))
  obtain n where n: "klive s1 ?k = Some n" using c(5) [of ?k] p1(2) by auto
  have f3: "freed s1 P (kfree ?k s2)"
    unfolding P_def by (rule freed_insert [OF s2(2) n c(6)]) (use P(1) in \<open>simp add: P_def\<close>)
  note g = process_field_freed [OF f3 ok(1,2)] space_freed [OF f3 ok(3) P(2)]
  have "kmem (kfree ?k s2) x = kmem s x"
    if q: "klive s q = Some k" "q \<notin> program_owned p s \<union> space_pages ?c s \<union> {p}" "in_range q (k * 4096) x" for q k x
  proof -
    have "klive s1 q = Some k" using q(1,2) p1(2) P(3) by simp
    then show ?thesis
      using freed_mem [OF f3 ok(1) _ q(3)] p1(3) release_writes_live [OF c(1,3) q(1) _ q(3)] q(2) by simp
  qed
  moreover have "klive (kfree ?k s2) = (\<lambda>q. if q \<in> program_owned p s then None else klive s q)"
    unfolding freedD(2) [OF f3] p1(2) P(3) by auto
  moreover have "\<exists>m. kfree ?k s2 = s\<lparr>kmem := m\<rparr>" using same(3) freedD(5) [OF f3] by auto
  moreover have "get_field p process_stack s2 = ?k"
    using process_field_freed(1) [OF s2(2) ok(1,2)] kept(1) by simp
  ultimately show ?thesis
    using s1(1) s2(1) freedD(1) [OF f3] g kept same(1) unfolding program_released_def
    by (intro exI [of _ s1] exI [of _ s2]) simp
qed

lemma process_terminate_law:
  fixes s :: "('d, 'a) process_state_scheme"
  assumes "process_complete p s" "tasks_inv s (ts @ [get_field p process_task s])" "ts \<noteq> []" "set ts \<inter> process_owned p s = {}"
    "first_process ((processes s)[unat (process_id (kmem s) p) := NULL]) = Some r"
  shows "\<exists>s'. process_terminate p s = Some (0, s') \<and> kheap_ok s'
    \<and> klive s' = (\<lambda>q. if q \<in> process_owned p s then None else klive s q)
    \<and> task_list s' ts \<and> current_task s' = (if current_task s = get_field p process_task s then hd ts else current_task s)
    \<and> processes s' = (processes s)[unat (process_id (kmem s) p) := NULL]
    \<and> current_process s' = (if current_process s = p then r else current_process s)
    \<and> (\<forall>q n x. klive s q = Some n \<longrightarrow> q \<notin> process_owned p s \<union> {p, last ts} \<longrightarrow> in_range q (n * 4096) x \<longrightarrow> kmem s' x = kmem s x)
    \<and> kernel_heap s' = kernel_heap s"
proof -
  let ?t = "get_field p process_task s" and ?c = "process_directory p s"
  obtain s1 s2 s3 where s3: "process_terminate_allocation p s = (0, s1)" "process_free_program_data p s1 = (0, s2)"
    "kfree (get_field p process_stack s2) s2 = s3" "program_released p s s3"
    using release_program [OF assms(1)] by blast
  have owned: "process_owned p s = program_owned p s \<union> insert ?t (space_pages ?c s)"
    by (auto simp: process_owned_def program_owned_def)
  have r: "kheap_ok s3" "klive s3 = (\<lambda>q. if q \<in> program_owned p s then None else klive s q)"
    "get_field p process_task s3 = ?t" "process_id (kmem s3) p = process_id (kmem s) p"
    "space_ok ?c s3" "space_pages ?c s3 = space_pages ?c s"
    and mem: "\<And>q n x. klive s q = Some n \<Longrightarrow> q \<notin> program_owned p s \<union> space_pages ?c s \<union> {p} \<Longrightarrow>
      in_range q (n * 4096) x \<Longrightarrow> kmem s3 x = kmem s x"
    using s3(4) unfolding program_released_def by blast+
  obtain m3 where m3: "s3 = s\<lparr>kmem := m3\<rparr>" using s3(4) unfolding program_released_def by blast
  have ok: "klive s p = Some 3" "klive s ?t = Some 1" "?t \<notin> space_pages ?c s" "p \<notin> program_owned p s" "?t \<notin> program_owned p s"
    using assms(1) program_apart [OF assms(1)] by (auto simp: process_complete_def process_ok_def process_parts_def)
  have inv: "task_list s (ts @ [?t])" "\<And>q. q = ?t \<or> q \<in> set ts \<Longrightarrow> klive s q = Some 1"
    using assms(2) by (auto simp: tasks_inv_def)
  have ts: "q \<notin> program_owned p s \<and> q \<notin> space_pages ?c s \<and> q \<noteq> p" if "q = ?t \<or> q \<in> set ts" for q
    using that assms(4) ok inv(2) [OF that] owned by auto
  have field: "get_field q i s3 = get_field q i s" if "q = ?t \<or> q \<in> set ts" "unat i < 1024" for q i
    by (rule get_field_cong [where n = 1024]) (use mem [OF inv(2) [OF that(1)]] ts [OF that(1)] that(2) in auto)
  have dir: "get_field ?t task_page_directory s3 = ?c" using field [of ?t] by (simp add: process_directory_def task_offsets)
  have "task_links s3 (ts @ [?t])"
    by (rule task_links_same [of s]) (use inv(1) field in \<open>auto simp: task_list_def task_offsets\<close>)
  then have "tasks_inv s3 (ts @ [?t])" using inv r(1,2) ts by (auto simp: tasks_inv_def task_list_def m3)
  moreover have "insert ?t (set ts) \<inter> space_pages ?c s3 = {}" using ts r(6) by auto
  ultimately obtain s4 where s4: "task_free ?t s3 = (0, s4)" "kheap_ok s4" "task_list s4 ts"
      "current_task s4 = (if current_task s3 = ?t then hd ts else current_task s3)"
      "klive s4 = (\<lambda>q. if q = ?t \<or> q \<in> space_pages ?c s then None else klive s3 q)"
      "\<forall>x. \<not> in_table s3 x \<longrightarrow> \<not> in_range (last ts) 4096 x \<longrightarrow> kmem s4 x = kmem s3 x"
      "\<exists>m cu tl hd. s4 = s3\<lparr>kmem := m, current_task := cu, task_tail := tl, task_head := hd\<rparr>"
    using release_task [of s3 ts ?t] assms(3) r(5) unfolding dir r(6) by blast
  have last: "klive s3 (last ts) = Some 1" "last ts \<noteq> p" using assms(3) ts [of "last ts"] inv(2) [of "last ts"] r(2) by auto
  have kept: "kmem s4 x = kmem s3 x" if "klive s3 q = Some k" "q \<noteq> last ts" "in_range q (k * 4096) x" for q k x
    using s4(6) klive_in_pool(2) [OF r(1) that(1,3)] klive_disjoint [OF r(1) that(1) last(1)] that(2,3)
    by (auto simp: disjoint_ranges_def)
  have "process_id (kmem s4) p = process_id (kmem s3) p"
    using kept [of p 3] ok(1,4) last(2) r(2) by (auto simp: process_id_def load16_def in_range_def)
  then have id4: "process_id (kmem s4) p = process_id (kmem s) p" using r(4) by simp
  have vars: "processes s4 = processes s" "current_process s4 = current_process s" "current_task s3 = current_task s"
    using s4(7) by (auto simp: m3)
  obtain s5 where s5: "process_unlik p s4 = Some s5" "kmem s5 = kmem s4" "kernel_heap s5 = kernel_heap s4"
    "processes s5 = (processes s)[unat (process_id (kmem s) p) := NULL]"
    "current_process s5 = (if current_process s = p then r else current_process s)" "current_task s5 = current_task s4"
    "task_head s5 = task_head s4" "task_tail s5 = task_tail s4"
    using assms(5) by (cases "current_process s = p") (auto simp: process_unlik_def process_switch_to_any_def id4 vars)
  have "process_terminate p s = Some (0, s5)"
    using s3(1-3) r(3) s4(1) s5(1) by (simp add: process_terminate_def)
  moreover note h = same_heap(1,2) [OF s5(2,3)]
  have "klive s5 = (\<lambda>q. if q \<in> process_owned p s then None else klive s q)"
    unfolding h(2) s4(5) r(2) owned by auto
  moreover have "task_list s5 ts" using s4(3) task_list_kmem [OF s5(2,7,8)] by simp
  moreover have "kmem s5 x = kmem s x"
    if "klive s q = Some k" "q \<notin> process_owned p s \<union> {p, last ts}" "in_range q (k * 4096) x" for q k x
    using kept [of q k x] mem [OF that(1) _ that(3)] that r(2) s5(2) by (auto simp: owned)
  moreover have "kernel_heap s5 = kernel_heap s" using s4(7) s5(3) by (auto simp: m3)
  ultimately show ?thesis
    using h(1) s4(2,4) s5(4-6) vars(3) by (intro exI [of _ s5]) simp
qed

lemma task_next_keeps:
  fixes s :: "('d, 'a) process_state_scheme"
  assumes "task_next s = Some (regs, s')"
  shows "kernel_heap s' = kernel_heap s" "processes s' = processes s" "current_process s' = current_process s"
  using assms by (auto simp: task_next_def task_switch_def paging_switch_def paging_load_directory_def Let_def split: if_splits)

section \<open>A process that ends\<close>

lemma process_complete_same:
  assumes "kmem s' = kmem s" "kernel_heap s' = kernel_heap s"
  shows "process_complete p s' = process_complete p s" "process_owned p s' = process_owned p s"
proof -
  note h = same_heap(1-4) [OF assms]
  have d: "process_directory p s' = process_directory p s" by (simp add: process_directory_def h)
  have sp: "space_pages c s' = space_pages c s" for c by (simp add: space_pages_def table_of_def assms)
  have a: "allocation p i s' = allocation p i s" for i by (simp add: allocation_def h)
  have parts: "process_parts p s' = process_parts p s" by (simp add: process_parts_def d sp h)
  have i: "image_pages p s' = image_pages p s" "buffers p n s' = buffers p n s" for n
    by (simp_all add: image_pages_def buffers_def h a assms Let_def)
  have "process_ok p s' = process_ok p s" "entries_ok p s' = entries_ok p s"
    by (simp_all add: process_ok_def entries_ok_def h d sp a parts)
  then show "process_complete p s' = process_complete p s" by (simp add: process_complete_def h i parts assms)
  show "process_owned p s' = process_owned p s" by (simp add: process_owned_def i h d sp)
qed

text \<open>Writing another field of the process or its task, or another allocation.\<close>

lemma process_write:
  assumes "process_ok p s" "kernel_heap s' = kernel_heap s" "klive s q = Some n" "q \<notin> space_pages (process_directory p s) s"
    "\<forall>x. \<not> in_range q (n * 4096) x \<longrightarrow> kmem s' x = kmem s x" "get_field p process_task s' = get_field p process_task s"
    "process_directory p s' = process_directory p s"
  shows "process_ok p s'" "klive s' = klive s" "space_pages (process_directory p s) s' = space_pages (process_directory p s) s"
proof -
  have ok: "klive s p = Some 3" "klive s (get_field p process_task s) = Some 1" "space_ok (process_directory p s) s"
    "get_field p process_task s \<notin> space_pages (process_directory p s) s" using assms(1) by (simp_all add: process_ok_def)
  have st: "space_ok (process_directory p s) s'" "space_pages (process_directory p s) s' = space_pages (process_directory p s) s"
    "kheap_ok s'" "klive s' = klive s"
    using space_store [OF ok(3) assms(3,4,2)] assms(5) by blast+
  show "klive s' = klive s" "space_pages (process_directory p s) s' = space_pages (process_directory p s) s" by (fact st)+
  then show "process_ok p s'" using st(1,3) ok by (simp add: process_ok_def assms(6,7))
qed

lemma other_allocation:
  assumes "kheap_ok s" "klive s q = Some m" "klive s r = Some n" "q \<noteq> r" "\<forall>x. \<not> in_range r (n * 4096) x \<longrightarrow> kmem s' x = kmem s x"
  shows "in_range q (m * 4096) x \<Longrightarrow> kmem s' x = kmem s x" "unat i < m * 1024 \<Longrightarrow> m \<le> 3 \<Longrightarrow> get_field q i s' = get_field q i s"
proof -
  show mem: "kmem s' x = kmem s x" if "in_range q (m * 4096) x" for x
    using assms(5) klive_disjoint [OF assms(1-4)] that by (auto simp: disjoint_ranges_def)
  show "get_field q i s' = get_field q i s" if "unat i < m * 1024" "m \<le> 3"
  proof (rule get_field_cong [where n = "m * 1024"])
    fix x assume "in_range q (4 * (m * 1024)) x"
    then have "in_range q (m * 4096) x" by (simp add: mult.commute [of _ m])
    then show "kmem s' x = kmem s x" by (rule mem)
  qed (use that in simp_all)
qed

text \<open>
  A program that the shell's task \<open>a\<close> is waiting for: its image failed to load, it has a stack, and its task \<open>t\<close> is
  the current one.
\<close>

definition ending :: "addr \<Rightarrow> addr \<Rightarrow> addr \<Rightarrow> ('d, 'a) process_state_scheme \<Rightarrow> bool" where
  "ending p t a s \<longleftrightarrow> process_complete p s \<and> tasks_inv s [a, t] \<and> get_field p process_task s = t \<and> a \<notin> process_owned p s
     \<and> get_field t task_process s = p \<and> current_task s = t \<and> current_process s = p
     \<and> processes s = [p, 0x5000] \<and> process_id (kmem s) p = 0"

text \<open>Before the tasks are linked: a process with its task \<open>t\<close>, and two more pages, for a task and a stack.\<close>

definition parked :: "addr \<Rightarrow> addr \<Rightarrow> addr \<Rightarrow> addr \<Rightarrow> ('d, 'a) process_state_scheme \<Rightarrow> bool" where
  "parked p t a k s \<longleftrightarrow> process_ok p s \<and> kernel_heap s = kernel_heap boot_state \<and> get_field p process_task s = t
     \<and> klive s p = Some 3 \<and> (\<forall>q \<in> {t, a, k}. klive s q = Some 1) \<and> distinct [p, t, a, k]
     \<and> a \<notin> process_parts p s \<and> k \<notin> process_parts p s \<and> kmem s 0x6E00 = 0
     \<and> (\<forall>x. in_range p 9364 x \<longrightarrow> \<not> in_range (p + 4 * process_task) 4 x \<longrightarrow> kmem s x = 0)
     \<and> (\<forall>x. in_range a (1 * 4096) x \<longrightarrow> kmem s x = 0)"

lemma parked_state: "\<exists>p t a k (s :: sim_drive process_state). parked p t a k s"
proof -
  have "kmem process_demo = kmem booted" "kernel_heap process_demo = kernel_heap booted"
    by (simp_all add: process_demo_def task_state.extend_def)
  then obtain p and s1 :: "sim_drive process_state" where s1: "process_ok p s1" "24570 \<le> kavail s1" "kernel_heap s1 = kernel_heap boot_state"
    "\<forall>x. in_range p 9364 x \<longrightarrow> \<not> in_range (p + 4 * process_task) 4 x \<longrightarrow> kmem s1 x = 0" "kmem s1 0x6E00 = 0"
    using boot_process by blast
  define t where "t = get_field p process_task s1"
  have ok1: "kheap_ok s1" "klive s1 p = Some 3" "klive s1 t = Some 1" using s1(1) by (simp_all add: process_ok_def t_def)
  obtain a s2 where a: "kzalloc 4096 s1 = (a, s2)" by fastforce
  note k2 = kzalloc_page_extends [OF ok1(1) _ _ _ a]
  have s2: "extends s1 s2" "kheap_ok s2" "klive s1 a = None" "klive s2 = (klive s1)(a \<mapsto> 1)" "0 < kavail s2"
    "\<And>x. in_range a 4096 x \<Longrightarrow> kmem s2 x = 0" using k2 s1(2) by simp_all
  obtain k s3 where k: "kzalloc 4096 s2 = (k, s3)" by fastforce
  note k3 = kzalloc_page_extends [OF s2(2,5) _ _ k]
  have s3: "extends s2 s3" "kheap_ok s3" "klive s2 k = None" "klive s3 = (klive s2)(k \<mapsto> 1)" using k3 by simp_all
  have e: "extends s1 s3" by (rule extends_trans [OF s2(1) s3(1)])
  have k1: "klive s1 k = None" by (rule extends_fresh [OF s2(1) s3(3)])
  note pe = process_extends [OF s1(1) e s3(2)]
  have pm: "kmem s3 x = kmem s1 x" if "in_range p (3 * 4096) x" for x by (rule extends_mem [OF e held_page [OF ok1(1,2) that]])
  have "get_field p process_task s3 = t"
    unfolding t_def by (rule process_fields_cong [OF pm]) (simp_all add: process_task_def)
  moreover have "a \<notin> process_parts p s3" "k \<notin> process_parts p s3"
    using process_parts_live [OF s1(1), of a] process_parts_live [OF s1(1), of k] s2(3) k1 pe(7) by auto
  moreover have "distinct [p, t, a, k]" "klive s3 p = Some 3" "\<forall>q \<in> {t, a, k}. klive s3 q = Some 1"
    using ok1 s2(3,4) s3(3,4) k1 by auto
  moreover have "kmem s3 0x6E00 = 0"
    using extends_mem [OF e, of "0x6E00"] boot_layout(1,2) [OF s1(3)] s1(5) by (simp add: held_def)
  moreover have "kmem s3 x = 0" if "in_range p 9364 x" "\<not> in_range (p + 4 * process_task) 4 x" for x
    using pm in_range_mono [OF that(1), of 12288] s1(4) that by simp
  moreover have "kmem s3 x = 0" if "in_range a (1 * 4096) x" for x
    using s2(4,6) extends_page [OF s3(1) s2(2), of a x] that by simp
  ultimately have "parked p t a k s3" using pe(1) extends_heap [OF e] s1(3) by (simp add: parked_def)
  then show ?thesis by blast
qed

definition stacked :: "addr \<Rightarrow> addr \<Rightarrow> ('d, 'a) process_state_scheme \<Rightarrow> ('d, 'a) process_state_scheme" where
  "stacked p k s = set_field p process_stack k s"

definition linked :: "addr \<Rightarrow> addr \<Rightarrow> addr \<Rightarrow> ('d, 'a) process_state_scheme \<Rightarrow> ('d, 'a) process_state_scheme" where
  "linked p t a s = set_field t task_link_prev a (set_field t task_link_next 0 (set_field t task_process p
     (set_field a task_link_next t s)))"

lemma page_field_outside: "unat i < 1024 \<Longrightarrow> \<not> in_range q 4096 x \<Longrightarrow> kmem (set_field q i v s) x = kmem s x"
  using set_field_outside [of q 1024 x i v s] by simp

text \<open>Storing the stack, and linking the tasks, keep the process; the fields they do not write stay.\<close>

lemma stacked:
  assumes "parked p t a k s"
  shows "process_ok p (stacked p k s)" "klive (stacked p k s) = klive s" "process_parts p (stacked p k s) = process_parts p s"
    "process_directory p (stacked p k s) = process_directory p s" "get_field p process_task (stacked p k s) = t"
    "unat i < 3072 \<Longrightarrow> get_field p i (stacked p k s) = (if i = process_stack then k else get_field p i s)"
    "get_field a task_link_prev (stacked p k s) = 0" "\<not> in_range p (3 * 4096) x \<Longrightarrow> kmem (stacked p k s) x = kmem s x"
proof -
  let ?w = "stacked p k s" and ?c = "process_directory p s"
  have s: "process_ok p s" "get_field p process_task s = t" "klive s p = Some 3" "klive s t = Some 1" "klive s a = Some 1"
    "t \<noteq> p" "a \<noteq> p" "kheap_ok s" "space_ok ?c s" "\<forall>x. in_range a (1 * 4096) x \<longrightarrow> kmem s x = 0"
    using assms by (auto simp: parked_def process_ok_def)
  have np: "p \<notin> space_pages ?c s" using space_live [OF s(9), of p] s(3) by auto
  have o: "\<forall>x. \<not> in_range p (3 * 4096) x \<longrightarrow> kmem ?w x = kmem s x"
    using set_field_outside [of p 3072 _ process_stack k s] by (simp add: process_stack_def stacked_def)
  then show "\<not> in_range p (3 * 4096) x \<Longrightarrow> kmem ?w x = kmem s x" by blast
  note f = other_allocation(2) [OF s(8) _ s(3) _ o]
  show g: "get_field p i ?w = (if i = process_stack then k else get_field p i s)" if "unat i < 3072" for i
    using that by (auto simp: stacked_def get_set_field process_stack_def)
  show d: "process_directory p ?w = ?c" "get_field p process_task ?w = t"
    using s(2) g [of process_task] f [OF s(4,6), of task_page_directory]
    by (simp_all add: process_directory_def process_task_def process_stack_def task_offsets)
  have "kernel_heap ?w = kernel_heap s" by (simp add: stacked_def)
  note w = process_write [OF s(1) this s(3) np o]
  show "process_ok p ?w" "klive ?w = klive s" "process_parts p ?w = process_parts p s"
    using w d s(2) by (simp_all add: process_parts_def)
  have "get_field a task_link_prev s = 0"
    unfolding get_field_def word_at_def
  proof (rule load32_zero)
    fix x assume "in_range (a + 4 * task_link_prev) 4 x"
    then have "in_range a (4 * 1024) x" by (rule field_slot) (simp_all add: task_offsets)
    then show "kmem s x = 0" using s(10) by simp
  qed
  then show "get_field a task_link_prev ?w = 0" using f [OF s(5,7), of task_link_prev] by (simp add: task_offsets)
qed

lemma linked:
  assumes "process_ok p s" "get_field p process_task s = t" "klive s a = Some 1" "a \<notin> process_parts p s"
  shows "process_ok p (linked p t a s)" "klive (linked p t a s) = klive s" "process_parts p (linked p t a s) = process_parts p s"
    "process_directory p (linked p t a s) = process_directory p s"
    "\<not> in_range a (1 * 4096) x \<Longrightarrow> \<not> in_range t (1 * 4096) x \<Longrightarrow> kmem (linked p t a s) x = kmem s x"
    "unat i < 3072 \<Longrightarrow> get_field p i (linked p t a s) = get_field p i s"
    "in_range p (3 * 4096) x \<Longrightarrow> kmem (linked p t a s) x = kmem s x"
    "get_field a task_link_next (linked p t a s) = t" "get_field a task_link_prev (linked p t a s) = get_field a task_link_prev s"
    "get_field t task_link_next (linked p t a s) = 0" "get_field t task_link_prev (linked p t a s) = a"
    "get_field t task_process (linked p t a s) = p"
proof -
  let ?w2 = "set_field a task_link_next t s" and ?w3 = "linked p t a s" and ?c = "process_directory p s"
  have s: "kheap_ok s" "klive s p = Some 3" "klive s t = Some 1" "t \<notin> space_pages ?c s" "a \<notin> space_pages ?c s"
    using assms by (auto simp: process_ok_def process_parts_def)
  have d: "p \<noteq> a" "t \<noteq> a" "p \<noteq> t" using s(2,3) assms by (auto simp: process_parts_def)
  have o2: "\<forall>x. \<not> in_range a (1 * 4096) x \<longrightarrow> kmem ?w2 x = kmem s x"
    and o3: "\<forall>x. \<not> in_range t (1 * 4096) x \<longrightarrow> kmem ?w3 x = kmem ?w2 x"
    unfolding linked_def by (simp_all add: task_offsets page_field_outside)
  note f2 = other_allocation [OF s(1) _ assms(3) _ o2]
  have p2: "process_directory p ?w2 = ?c" "get_field p process_task ?w2 = t"
    using assms(2) f2(2) [OF s(3) d(2), of task_page_directory] f2(2) [OF s(2) d(1), of process_task]
    by (simp_all add: process_directory_def process_task_def task_offsets)
  have w2: "process_ok p ?w2" "klive ?w2 = klive s" "space_pages ?c ?w2 = space_pages ?c s" "kheap_ok ?w2"
    using process_write [OF assms(1) _ assms(3) s(5) o2] p2 assms(2) by (simp_all add: process_ok_def)
  have l2: "klive ?w2 p = Some 3" "klive ?w2 t = Some 1" "klive ?w2 a = Some 1" using s(2,3) assms(3) w2(2) by simp_all
  note f3 = other_allocation [OF w2(4) _ l2(2) _ o3]
  have hp: "kernel_heap ?w3 = kernel_heap ?w2" by (simp add: linked_def)
  have p3: "process_directory p ?w3 = ?c" "get_field p process_task ?w3 = t"
    using p2 f3(2) [OF l2(1) d(3), of process_task]
    by (simp_all add: process_directory_def process_task_def) (simp add: linked_def task_offsets get_set_field)
  show "process_ok p ?w3" "klive ?w3 = klive s" "process_parts p ?w3 = process_parts p s" "process_directory p ?w3 = ?c"
    using process_write [OF w2(1) hp l2(2) _ o3] p2 p3 w2(2,3) s(4) assms(2) by (simp_all add: process_parts_def)
  show "\<not> in_range a (1 * 4096) x \<Longrightarrow> \<not> in_range t (1 * 4096) x \<Longrightarrow> kmem ?w3 x = kmem s x" using o2 o3 by simp
  show "unat i < 3072 \<Longrightarrow> get_field p i ?w3 = get_field p i s" using f2(2) [OF s(2) d(1)] f3(2) [OF l2(1) d(3)] by simp
  show "in_range p (3 * 4096) x \<Longrightarrow> kmem ?w3 x = kmem s x" using f2(1) [OF s(2) d(1)] f3(1) [OF l2(1) d(3)] by simp
  show "get_field a task_link_next ?w3 = t" "get_field a task_link_prev ?w3 = get_field a task_link_prev s"
    using f3(2) [OF l2(3) d(2) [symmetric]] by (simp_all add: get_set_field task_offsets)
  show "get_field t task_link_next ?w3 = 0" "get_field t task_link_prev ?w3 = a" "get_field t task_process ?w3 = p"
    by (simp_all add: linked_def get_set_field task_offsets)
qed

lemma parked_complete:
  assumes "parked p t a k s"
  defines "w \<equiv> linked p t a (stacked p k s)"
  shows "process_complete p w" "a \<notin> process_owned p w" "process_id (kmem w) p = 0"
proof -
  have s: "kernel_heap s = kernel_heap boot_state" "get_field p process_task s = t" "klive s p = Some 3" "klive s t = Some 1" "klive s a = Some 1" "klive s k = Some 1"
    "a \<noteq> p" "a \<noteq> t" "a \<noteq> k" "a \<notin> process_parts p s" "k \<notin> process_parts p s" "kmem s 0x6E00 = 0" "process_ok p s"
    and zb: "\<forall>x. in_range p 9364 x \<longrightarrow> \<not> in_range (p + 4 * process_task) 4 x \<longrightarrow> kmem s x = 0"
    using assms(1) by (auto simp: parked_def)
  note w1 = stacked [OF assms(1)]
  have "klive (stacked p k s) a = Some 1" "a \<notin> process_parts p (stacked p k s)" using s(5,10) w1(2,3) by simp_all
  note w = linked [OF w1(1,5) this, folded w_def]
  note z = zero_allocations [OF zb]
  have g: "get_field p i w = (if i = process_stack then k else get_field p i s)" if "unat i < 3072" for i
    using w(6) w1(6) that by simp
  have at: "kmem w (p + of_nat i) = 0" if "i \<in> {0, 1, 8308}" for i
  proof -
    have r: "in_range p (3 * 4096) (p + of_nat i)" "in_range p 9364 (p + of_nat i)" "\<not> in_range (p + 4 * process_task) 4 (p + of_nat i)"
      "\<not> in_range (p + 4 * process_stack) 4 (p + of_nat i)"
      using that by (auto simp: in_range_def process_task_def process_stack_def)
    have "kmem w (p + of_nat i) = kmem s (p + of_nat i)"
      using w(7) [OF r(1)] r(4) by (simp add: stacked_def set_field_def set_word_def store32_other)
    then show ?thesis using zb r by simp
  qed
  have ft: "process_file_type (kmem w) p = PROCESS_FILETYPE_ELF"
    using at [of 8308] by (simp add: process_file_type_def PROCESS_FILETYPE_ELF_def)
  show "process_id (kmem w) p = 0" using at [of 0] at [of 1] by (simp add: process_id_def load16_def)
  have f0: "get_field p process_ptr w = 0" "get_field p process_stack w = k" "get_field p process_task w = t"
    using g [of process_ptr] g [of process_stack] g [of process_task] z(1) [of process_ptr] s(2)
    by (simp_all add: process_offsets process_ptr_def)
  have al: "allocation p i w = (0, 0)" if "i < 1024" for i
    using z(2) [OF that] g [of "allocation_ptr i"] g [of "allocation_size i"] unat_allocation [OF that] that
    by (auto simp: allocation_def process_stack_def)
  have own: "image_pages p w = {}" "buffers p 1024 w = {}" "process_parts p w = process_parts p s"
    using ft f0 al w(3) w1(3)
    by (auto simp: image_pages_def PROCESS_FILETYPE_ELF_def PROCESS_FILETYPE_BINARY_def buffers_def)
  have hp: "kernel_heap w = kernel_heap boot_state" using s(1) by (simp add: w_def linked_def stacked_def)
  have "\<not> in_pool s 0x6E00" "kheap_ok s" using boot_layout(1) [OF s(1)] s(13) by (simp_all add: process_ok_def)
  then have "\<not> in_range p (3 * 4096) 0x6E00" "\<not> in_range a (1 * 4096) 0x6E00" "\<not> in_range t (1 * 4096) 0x6E00"
    using klive_in_pool(1) s(3-5) by blast+
  then have "kmem w 0x6E00 = 0" using w(5) w1(8) s(12) by simp
  then show "process_complete p w"
    using w(1,2) w1(2) hp ft f0 al own s(6,11) by (auto simp: process_complete_def entries_ok_def PROCESS_FILETYPE_ELF_def)
  have "process_owned p w \<subseteq> insert k (process_parts p w)"
    using own(1,2) f0(2) by (auto simp: process_owned_def process_parts_def)
  then show "a \<notin> process_owned p w" using own(3) s(9,10) by auto
qed

lemma ending_state: "\<exists>p t a (s :: sim_drive process_state). ending p t a s"
proof -
  obtain p t a k and s :: "sim_drive process_state" where s: "parked p t a k s" using parked_state by blast
  let ?w = "linked p t a (stacked p k s)"
  note w1 = stacked [OF s]
  have d: "klive s a = Some 1" "klive s t = Some 1" "a \<notin> process_parts p s" "a \<noteq> t" "kheap_ok s" using s by (auto simp: parked_def process_ok_def)
  then have "klive (stacked p k s) a = Some 1" "a \<notin> process_parts p (stacked p k s)" using w1(2,3) by simp_all
  note w = linked [OF w1(1,5) this] and c = parked_complete [OF s]
  have nn: "a \<noteq> NULL" "t \<noteq> NULL" using klive_nonnull [OF d(5)] d(1,2) by blast+
  let ?s = "?w\<lparr>task_head := a, task_tail := t, current_task := t, current_process := p, processes := [p, 0x5000]\<rparr>"
  have h: "klive ?s = klive s" "kheap_ok ?s" "get_field q i ?s = get_field q i ?w" "process_complete p ?s = process_complete p ?w"
      "process_owned p ?s = process_owned p ?w" for q i
    using same_heap(1-3) [of ?s ?w] process_complete_same [of ?s ?w] w(1,2) w1(2) by (simp_all add: process_ok_def)
  have "get_field p process_task ?w = t" using w(6) [of process_task] w1(5) by (simp add: process_task_def)
  then have "ending p t a ?s"
    using c d(1,2,4) nn w(8-12) w1(7) by (simp add: ending_def h tasks_inv_def task_list_def task_links_def less_Suc_eq)
  then show ?thesis by blast
qed

section \<open>Properties\<close>

text \<open>
  C39: \<open>process_terminate\<close> of a process whose task is the last of the list returns 0 and gives back exactly what
  the process owned: the buffers of its allocation table, its image, its stack, its task and all pages of its
  address space. Every other allocation stays and keeps its bytes, the structure of the process itself stays
  allocated for good, the task is out of the list, the slot of the process is free, and another process is
  current if it was.
\<close>

theorem process_terminate_releases:
  fixes s :: "('d, 'a) process_state_scheme"
  assumes "process_complete p s" "tasks_inv s (ts @ [get_field p process_task s])" "ts \<noteq> []" "set ts \<inter> process_owned p s = {}"
    "first_process ((processes s)[unat (process_id (kmem s) p) := NULL]) = Some r"
  shows "\<exists>s'. process_terminate p s = Some (0, s') \<and> kheap_ok s'
    \<and> klive s' = (\<lambda>q. if q \<in> process_owned p s then None else klive s q) \<and> klive s' p = Some 3
    \<and> task_list s' ts \<and> processes s' = (processes s)[unat (process_id (kmem s) p) := NULL]
    \<and> current_process s' = (if current_process s = p then r else current_process s)
    \<and> (\<forall>q n x. klive s q = Some n \<longrightarrow> q \<notin> process_owned p s \<union> {p, last ts} \<longrightarrow> in_range q (n * 4096) x \<longrightarrow> kmem s' x = kmem s x)"
proof -
  have "klive s p = Some 3" "process_ok p s" using assms(1) by (simp_all add: process_complete_def process_ok_def)
  moreover have "p \<notin> process_owned p s" by (rule process_not_owned [OF assms(1)])
  ultimately show ?thesis using process_terminate_law [OF assms] by fastforce
qed

theorem process_terminate_releases_witness:
  "\<exists>p (s :: sim_drive process_state) s'. process_terminate p s = Some (0, s') \<and> klive s' (get_field p process_task s) = None
     \<and> klive s' p = Some 3 \<and> processes s' = [0, 0x5000] \<and> current_process s' = 0x5000"
proof -
  obtain p t a and s :: "sim_drive process_state" where e: "ending p t a s" using ending_state by blast
  note s = e [unfolded ending_def]
  have "get_field p process_task s \<in> process_owned p s" by (simp add: process_owned_def)
  then show ?thesis using process_terminate_releases [of p s "[a]" "0x5000"] s by fastforce
qed

text \<open>
  C40: the system call \<open>exit\<close> does not return to its caller: it resumes the task behind the head of the list (with
  two tasks, the other one) in its own address space, with the caller's task gone from the list and its
  allocations from the heap.
\<close>

theorem exit_call_resumes:
  fixes s :: "('d, 'a) process_state_scheme"
  assumes "process_complete (get_field t task_process s) s" "get_field (get_field t task_process s) process_task s = t" "current_task s = t"
    "tasks_inv s (ts @ [t])" "ts \<noteq> []" "set ts \<inter> process_owned (get_field t task_process s) s = {}"
    "first_process ((processes s)[unat (process_id (kmem s) (get_field t task_process s)) := NULL]) = Some r"
  shows "\<exists>s'. isr80h_command9_exit s = Some (Resume (task_registers (ts ! (1 mod length ts))), s')
    \<and> current_task s' = ts ! (1 mod length ts) \<and> task_list s' ts
    \<and> current_directory s' = load32 (kmem s') (get_field (ts ! (1 mod length ts)) task_page_directory s')
    \<and> klive s' = (\<lambda>q. if q \<in> process_owned (get_field t task_process s) s then None else klive s q)
    \<and> processes s' = (processes s)[unat (process_id (kmem s) (get_field t task_process s)) := NULL]"
proof -
  let ?p = "get_field t task_process s" and ?u = "ts ! (1 mod length ts)"
  obtain s1 where s1: "process_terminate ?p s = Some (0, s1)" "kheap_ok s1" "task_list s1 ts" "current_task s1 = hd ts"
    "klive s1 = (\<lambda>q. if q \<in> process_owned ?p s then None else klive s q)"
    "processes s1 = (processes s)[unat (process_id (kmem s) ?p) := NULL]"
    using process_terminate_law [OF assms(1) _ assms(5-7)] assms(2-4) by auto
  have "current_task s1 = ts ! 0" using s1(4) assms(5) by (simp add: hd_conv_nth)
  then obtain s2 where s2: "task_next s1 = Some (task_registers ?u, s2)" "task_list s2 ts" "current_task s2 = ?u" "kmem s2 = kmem s1"
    "current_directory s2 = load32 (kmem s1) (get_field ?u task_page_directory s1)"
    using task_next_ring [OF s1(3), of 0] assms(5) by auto
  note k = task_next_keeps [OF s2(1)]
  note h = same_heap(2,3) [OF s2(4) k(1)]
  have "isr80h_command9_exit s = Some (Resume (task_registers ?u), s2)"
    by (simp add: isr80h_command9_exit_def assms(3) s1(1) s2(1))
  then show ?thesis using s1(5,6) s2 k(2) h by (intro exI [of _ s2]) simp
qed

theorem exit_call_resumes_witness:
  "\<exists>(s :: sim_drive process_state) s' a. isr80h_command9_exit s = Some (Resume (task_registers a), s')
     \<and> current_task s \<noteq> a \<and> current_task s' = a \<and> klive s' (current_task s) = None"
proof -
  obtain p t a and s :: "sim_drive process_state" where e: "ending p t a s" using ending_state by blast
  note s = e [unfolded ending_def]
  have "t \<in> process_owned p s" "a \<noteq> t" using s by (auto simp: process_owned_def)
  then show ?thesis using exit_call_resumes [of t s "[a]" "0x5000"] s by fastforce
qed

end
