(* ===== verification/Launch.thy ===== *)
theory Launch
  imports Load Exit
begin

text \<open>
  From a program on the boot disk to a process: \<open>process_load\<close> of \<^verbatim>\<open>task/process.c\<close> over the loader, the heap,
  paging and the tasks. What the program finds at the addresses it was linked for are the bytes of its file.
\<close>

section \<open>Segments as pages\<close>

text \<open>The first page of a segment, the number of pages that are mapped for it, and their flags.\<close>

definition seg_first :: "mem \<Rightarrow> addr \<Rightarrow> nat" where "seg_first m ph = unat (p_vaddr m ph) div 4096"

definition seg_pages :: "mem \<Rightarrow> addr \<Rightarrow> nat" where
  "seg_pages m ph = (unat (p_offset m ph) + unat (p_memsz m ph) + 4095) div 4096 - unat (p_offset m ph) div 4096"

definition seg_flags :: "mem \<Rightarrow> addr \<Rightarrow> u32" where
  "seg_flags m ph = (if p_flags m ph AND PF_W \<noteq> 0 then (PAGING_IS_PRESENT OR PAGING_ACCESS_FROM_ALL) OR PAGING_IS_WRITABLE
     else PAGING_IS_PRESENT OR PAGING_ACCESS_FROM_ALL)"

abbreviation file_header_at :: "u8 list \<Rightarrow> nat \<Rightarrow> addr" where
  "file_header_at bytes i \<equiv> elf_program_header (image_mem bytes) 0 i"

abbreviation header_count :: "u8 list \<Rightarrow> nat" where
  "header_count bytes \<equiv> unat (e_phnum (image_mem bytes) 0)"

text \<open>Page ranges that do not meet.\<close>

definition pages_apart :: "nat \<Rightarrow> nat \<Rightarrow> nat \<Rightarrow> nat \<Rightarrow> bool" where
  "pages_apart a n b k \<longleftrightarrow> a + n \<le> b \<or> b + k \<le> a \<or> n = 0 \<or> k = 0"

text \<open>
  A file the kernel can map: the segments do not wrap, neither in memory nor in the address space, and no page is mapped twice,
  by two segments or by a segment and the stack.
\<close>

definition mappable :: "u8 list \<Rightarrow> bool" where
  "mappable bytes \<longleftrightarrow> headers_inside bytes \<and> (\<forall>i < header_count bytes.
     unat (p_offset (image_mem bytes) (file_header_at bytes i)) + unat (p_memsz (image_mem bytes) (file_header_at bytes i)) < 2 ^ 30
     \<and> seg_first (image_mem bytes) (file_header_at bytes i) + seg_pages (image_mem bytes) (file_header_at bytes i) \<le> 1048576
     \<and> pages_apart (seg_first (image_mem bytes) (file_header_at bytes i)) (seg_pages (image_mem bytes) (file_header_at bytes i)) 0x3FB 4
     \<and> (\<forall>j < i. pages_apart (seg_first (image_mem bytes) (file_header_at bytes i)) (seg_pages (image_mem bytes) (file_header_at bytes i))
          (seg_first (image_mem bytes) (file_header_at bytes j)) (seg_pages (image_mem bytes) (file_header_at bytes j))))"

lemma seg_range:
  fixes em off sz :: u32
  assumes "unat em mod 4096 = 0" "unat em + unat off + unat sz + 4095 < 2 ^ 32"
  shows "unat (paging_align_to_lower_page (em + off)) = unat em + unat off div 4096 * 4096"
    "unat (paging_align_address (em + off + sz)) = unat em + (unat off + unat sz + 4095) div 4096 * 4096"
proof -
  obtain k where k: "unat em = k * 4096" using assms(1) by (metis mod_0_imp_dvd dvd_div_mult_self)
  have a: "unat (em + off) = unat em + unat off" using assms(2) by (subst unat_add_lem [THEN iffD1]) simp_all
  have b: "unat (em + off + sz) = unat em + unat off + unat sz" using assms(2) a by (subst unat_add_lem [THEN iffD1]) simp_all
  have "(unat em + unat off) div 4096 = k + unat off div 4096" unfolding k by simp
  moreover have "unat (paging_align_to_lower_page (em + off)) = (unat em + unat off) div 4096 * 4096"
    using a by (simp add: align_lower minus_mod_eq_div_mult)
  ultimately show "unat (paging_align_to_lower_page (em + off)) = unat em + unat off div 4096 * 4096" using k by simp
  have "(unat em + unat off + unat sz + 4095) div 4096 = k + (unat off + unat sz + 4095) div 4096" unfolding k by (simp add: add.assoc)
  then show "unat (paging_align_address (em + off + sz)) = unat em + (unat off + unat sz + 4095) div 4096 * 4096"
    using unat_align_address [of "em + off + sz"] assms(2) b k by simp
qed

text \<open>Page \<open>t\<close> from a page on.\<close>

lemma page_number: assumes "unat (va :: u32) mod 4096 = 0" obtains k where "unat va = k * 4096" "unat va div 4096 = k"
  using assms by (metis mod_0_imp_dvd dvd_div_mult_self)

lemma unat_page:
  fixes va :: addr
  assumes "unat va mod 4096 = 0" "unat va div 4096 + t < 1048576"
  shows "unat (va + of_nat (t * 4096)) = (unat va div 4096 + t) * 4096"
proof -
  obtain k where k: "unat va = k * 4096" "unat va div 4096 = k" using page_number [OF assms(1)] .
  have "unat (of_nat (t * 4096) :: u32) = t * 4096" using assms(2) by (simp only: unat_of_nat) (simp add: take_bit_nat_eq_self)
  moreover have "k * 4096 + t * 4096 < 2 ^ 32" using assms(2) k(2) by simp
  ultimately have "unat (va + of_nat (t * 4096)) = k * 4096 + t * 4096"
    using k(1) by (subst unat_add_lem [THEN iffD1]) (simp_all only:, simp)
  then show ?thesis using k(2) by simp
qed

lemma page_apart_range:
  fixes va wa :: addr
  assumes "unat va mod 4096 = 0" "unat wa mod 4096 = 0" "pages_apart (unat va div 4096) n (unat wa div 4096) k" "t < k"
    "unat wa div 4096 + k \<le> 1048576" "unat va div 4096 + n \<le> 1048576"
  shows "\<not> in_range va (n * 4096) (wa + of_nat (t * 4096))"
proof
  assume r: "in_range va (n * 4096) (wa + of_nat (t * 4096))"
  obtain v where v: "unat va = v * 4096" "unat va div 4096 = v" using page_number [OF assms(1)] .
  obtain w where w: "unat wa = w * 4096" "unat wa div 4096 = w" using page_number [OF assms(2)] .
  have "unat va + n * 4096 \<le> 2 ^ 32" using assms(6) v by simp
  then have "v * 4096 \<le> unat (wa + of_nat (t * 4096))" "unat (wa + of_nat (t * 4096)) < v * 4096 + n * 4096"
    using r v(1) by (simp_all add: in_range_unat del: of_nat_mult)
  moreover have "unat (wa + of_nat (t * 4096)) = (w + t) * 4096" using unat_page [OF assms(2), of t] assms(4,5) w(2) by simp
  ultimately have "v \<le> w + t" "w + t < v + n" by simp_all
  then show False using assms(3,4) v(2) w(2) by (auto simp: pages_apart_def)
qed

section \<open>Mapping the segments\<close>

text \<open>\<open>remapped p s s'\<close>: only the page tables of the process \<open>p\<close> have been written.\<close>

definition remapped :: "addr \<Rightarrow> 'a kheap_state_scheme \<Rightarrow> 'a kheap_state_scheme \<Rightarrow> bool" where
  "remapped p s s' \<longleftrightarrow> process_ok p s' \<and> process_directory p s' = process_directory p s
     \<and> get_field p process_task s' = get_field p process_task s \<and> space_keeps (process_directory p s) s s'
     \<and> space_pages (process_directory p s) s' = space_pages (process_directory p s) s"

lemma remapped_refl: "process_ok p s \<Longrightarrow> remapped p s s"
  by (simp add: remapped_def space_keeps_def)

lemma remapped_trans: "remapped p s t \<Longrightarrow> remapped p t u \<Longrightarrow> remapped p s u"
  unfolding remapped_def using space_keeps_trans by metis

lemma remapped_mem:
  assumes "process_ok p s" "remapped p s s'" "klive s q = Some n" "q \<notin> space_pages (process_directory p s) s" "in_range q (n * 4096) x"
  shows "kmem s' x = kmem s x"
  using space_keeps_apart [of "process_directory p s" s s' q n x] assms by (simp add: process_ok_def remapped_def)

lemma remapped_field:
  assumes "process_ok p s" "remapped p s s'" "unat i < 3072"
  shows "get_field p i s' = get_field p i s"
proof (rule process_fields_cong [OF _ assms(3)])
  fix x assume "in_range p (3 * 4096) x"
  moreover have "klive s p = Some 3" "p \<notin> space_pages (process_directory p s) s"
    using assms(1) space_live [of "process_directory p s" s p] by (auto simp: process_ok_def)
  ultimately show "kmem s' x = kmem s x" using remapped_mem [OF assms(1,2)] by blast
qed

lemma remapped_live: "remapped p s s' \<Longrightarrow> klive s' = klive s"
  by (simp add: remapped_def space_keeps_def)

lemma process_map_remaps:
  assumes "process_ok p s" "unat va mod 4096 = 0" "unat pa mod 4096 = 0" "unat pe = unat pa + n * 4096" "unat va div 4096 + n \<le> 1048576"
  shows "\<exists>s'. paging_map_to (process_directory p s) va pa pe flags s = (0, s') \<and> remapped p s s'
    \<and> (\<forall>i < n. process_lookup p (va + of_nat (i * 4096)) s' = (pa + of_nat (i * 4096)) OR flags)
    \<and> (\<forall>w. unat w mod 4096 = 0 \<longrightarrow> \<not> in_range va (n * 4096) w \<longrightarrow> process_lookup p w s' = process_lookup p w s)"
proof -
  obtain v where v: "unat va = v * 4096" "unat va div 4096 = v" using page_number [OF assms(2)] .
  have pe: "unat pe mod 4096 = 0" using assms(3,4) by simp
  have le: "pa \<le> pe" using assms(4) by (simp add: word_le_nat_alt)
  have d: "unat pe - unat pa = n * 4096" using assms(4) by simp
  have "unat va + (unat pe - unat pa) \<le> 2 ^ 32" using d v assms(5) by simp
  note M = process_map [OF assms(1-3) pe le this, of flags]
  have n: "n * 4096 div 4096 = n" by simp
  show ?thesis using M unfolding d n remapped_def by blast
qed

text \<open>The pages of a segment of the file at \<open>em\<close>, as the process sees them.\<close>

definition segment_mapped :: "addr \<Rightarrow> addr \<Rightarrow> u8 list \<Rightarrow> addr \<Rightarrow> 'a kheap_state_scheme \<Rightarrow> bool" where
  "segment_mapped p em bytes ph s \<longleftrightarrow> (\<forall>t < seg_pages (image_mem bytes) ph.
     process_lookup p (paging_align_to_lower_page (p_vaddr (image_mem bytes) ph) + of_nat (t * 4096)) s =
       (paging_align_to_lower_page (em + p_offset (image_mem bytes) ph) + of_nat (t * 4096)) OR seg_flags (image_mem bytes) ph)"

text \<open>What the loop reads: the image and its record, in memory that is no page table.\<close>

definition image_beside :: "addr \<Rightarrow> addr \<Rightarrow> addr \<Rightarrow> u8 list \<Rightarrow> 'a kheap_state_scheme \<Rightarrow> bool" where
  "image_beside p f em bytes s \<longleftrightarrow> elf_memory f s = em \<and> klive s f = Some 1 \<and> klive s em = Some (blocks_of (of_nat (length bytes)))
     \<and> f \<notin> space_pages (process_directory p s) s \<and> em \<notin> space_pages (process_directory p s) s
     \<and> bytes_at (kmem s) em (length bytes) = bytes"

lemma length_blocks:
  "length bytes < 2 ^ 31 \<Longrightarrow> length bytes \<le> blocks_of (of_nat (length bytes)) * 4096"
  using blocks_of_covers [of "of_nat (length bytes)"] by (simp add: unat_of_nat take_bit_nat_eq_self)

lemma image_beside_remapped:
  assumes "process_ok p s" "remapped p s s'" "image_beside p f em bytes s" "length bytes < 2 ^ 31"
  shows "image_beside p f em bytes s'"
proof -
  note i = assms(3) [unfolded image_beside_def]
  have f: "kmem s' x = kmem s x" if "in_range f 4096 x" for x
    using remapped_mem [OF assms(1,2), of f 1 x] i that by simp
  have "kmem s' x = kmem s x" if "in_range em (length bytes) x" for x
    using remapped_mem [OF assms(1,2), of em] i in_range_mono [OF that length_blocks [OF assms(4)]] by simp
  then have "bytes_at (kmem s') em (length bytes) = bytes"
    using bytes_at_cong [of em "length bytes" "kmem s'" "kmem s"] i assms(4) by simp
  then show ?thesis
    using i ef_range_cong(2) [of f s' s] f remapped_live [OF assms(2)] assms(2) by (simp add: image_beside_def remapped_def)
qed

lemma map_segment:
  assumes "process_ok p s" "image_beside p f em bytes s" "mappable bytes" "length bytes < 2 ^ 31" "e_phoff (image_mem bytes) 0 \<noteq> 0"
    "i < header_count bytes" "unat em < 2 ^ 31"
  defines "ph \<equiv> elf_program_header (kmem s) em i"
  shows "\<exists>s'. paging_map_to (process_directory p s) (paging_align_to_lower_page (p_vaddr (kmem s) ph))
      (paging_align_to_lower_page (elf_phdr_phys_address f ph s)) (paging_align_address (elf_phdr_phys_address f ph s + p_memsz (kmem s) ph))
      (seg_flags (kmem s) ph) s = (0, s') \<and> remapped p s s'
    \<and> segment_mapped p em bytes (file_header_at bytes i) s'
    \<and> (\<forall>w. unat w mod 4096 = 0 \<longrightarrow> \<not> in_range (paging_align_to_lower_page (p_vaddr (image_mem bytes) (file_header_at bytes i)))
         (seg_pages (image_mem bytes) (file_header_at bytes i) * 4096) w \<longrightarrow> process_lookup p w s' = process_lookup p w s)"
proof -
  note b = assms(2) [unfolded image_beside_def]
  let ?im = "image_mem bytes" and ?h = "file_header_at bytes i"
  have hi: "headers_inside bytes" using assms(3) by (simp add: mappable_def)
  have bm: "bytes_at (kmem s) em (length bytes) = bytes" using b by simp
  note P = file_pheader [OF bm assms(4) hi assms(5,6), folded ph_def]
  have w: "p_vaddr (kmem s) ph = p_vaddr ?im ?h" "p_offset (kmem s) ph = p_offset ?im ?h" "p_memsz (kmem s) ph = p_memsz ?im ?h"
    "seg_flags (kmem s) ph = seg_flags ?im ?h"
    using P(3) by (simp_all add: phdr_fields p_memsz_def p_flags_def seg_flags_def)
  have m: "unat (p_offset ?im ?h) + unat (p_memsz ?im ?h) < 2 ^ 30" "seg_first ?im ?h + seg_pages ?im ?h \<le> 1048576"
    using assms(3,6) by (simp_all add: mappable_def)
  have "kheap_ok s" using assms(1) by (simp add: process_ok_def)
  then have em: "unat em mod 4096 = 0" using klive_page_aligned [of s em] b by simp
  have bound: "unat em + unat (p_offset ?im ?h) + unat (p_memsz ?im ?h) + 4095 < 2 ^ 32" using m(1) assms(7) by simp
  note R = seg_range [OF em bound]
  have al: "unat (paging_align_to_lower_page x) mod 4096 = 0" for x by (simp add: align_lower)
  have le: "unat (p_offset ?im ?h) div 4096 \<le> (unat (p_offset ?im ?h) + unat (p_memsz ?im ?h) + 4095) div 4096" by (rule div_le_mono) simp
  have pe: "unat (paging_align_address (em + p_offset ?im ?h + p_memsz ?im ?h))
      = unat (paging_align_to_lower_page (em + p_offset ?im ?h)) + seg_pages ?im ?h * 4096"
    unfolding R seg_pages_def diff_mult_distrib using le by simp
  have vn: "unat (paging_align_to_lower_page (p_vaddr ?im ?h)) div 4096 + seg_pages ?im ?h \<le> 1048576"
    using m(2) by (simp add: align_lower seg_first_def minus_mod_eq_div_mult)
  have phys: "elf_phdr_phys_address f ph s = em + p_offset ?im ?h" using b w(2) by (simp add: elf_phdr_phys_address_def)
  show ?thesis
    unfolding phys w segment_mapped_def by (rule process_map_remaps [OF assms(1) al al pe vn])
qed

text \<open>Mapping other pages keeps a segment.\<close>

lemma segment_kept:
  assumes "segment_mapped p em bytes ph s" "unat va mod 4096 = 0"
    "\<forall>w. unat w mod 4096 = 0 \<longrightarrow> \<not> in_range va (n * 4096) w \<longrightarrow> process_lookup p w s' = process_lookup p w s"
    "pages_apart (unat va div 4096) n (seg_first (image_mem bytes) ph) (seg_pages (image_mem bytes) ph)"
    "seg_first (image_mem bytes) ph + seg_pages (image_mem bytes) ph \<le> 1048576" "unat va div 4096 + n \<le> 1048576"
  shows "segment_mapped p em bytes ph s'"
  unfolding segment_mapped_def
proof (intro allI impI)
  let ?w = "paging_align_to_lower_page (p_vaddr (image_mem bytes) ph)"
  fix t assume t: "t < seg_pages (image_mem bytes) ph"
  have w: "unat ?w mod 4096 = 0" "unat ?w div 4096 = seg_first (image_mem bytes) ph"
    by (simp_all add: align_lower seg_first_def minus_mod_eq_div_mult)
  have nr: "\<not> in_range va (n * 4096) (?w + of_nat (t * 4096))"
    by (rule page_apart_range [OF assms(2) w(1) _ t _ assms(6)]) (use assms(4,5) w(2) in simp_all)
  have "process_lookup p (?w + of_nat (t * 4096)) s' = process_lookup p (?w + of_nat (t * 4096)) s"
    by (rule assms(3) [THEN spec, THEN mp, THEN mp, OF page_step [OF w(1)] nr])
  then show "process_lookup p (?w + of_nat (t * 4096)) s' =
      (paging_align_to_lower_page (em + p_offset (image_mem bytes) ph) + of_nat (t * 4096)) OR seg_flags (image_mem bytes) ph"
    using assms(1) t by (simp add: segment_mapped_def)
qed

lemma map_loop:
  assumes "process_ok p s" "image_beside p f em bytes s" "mappable bytes" "length bytes < 2 ^ 31" "e_phoff (image_mem bytes) 0 \<noteq> 0"
    "unat em < 2 ^ 31" "i \<le> header_count bytes" "\<forall>j < i. segment_mapped p em bytes (file_header_at bytes j) s"
  shows "\<exists>s'. process_map_elf_loop p f em (em + e_phoff (image_mem bytes) 0) i 0 s = (0, s') \<and> remapped p s s'
    \<and> (\<forall>j < header_count bytes. segment_mapped p em bytes (file_header_at bytes j) s')"
  using assms(1,2,7,8)
proof (induction "header_count bytes - i" arbitrary: i s)
  case 0
  have "e_phnum (kmem s) em = e_phnum (image_mem bytes) 0"
    using file_header(2) [of "kmem s" em bytes] 0(3) assms(3,4) by (simp add: image_beside_def mappable_def headers_inside_def)
  then show ?case using 0 remapped_refl [OF 0(2)] by (subst process_map_elf_loop.simps) simp
next
  case (Suc k)
  let ?im = "image_mem bytes" and ?po = "em + e_phoff (image_mem bytes) 0"
  have i: "i < header_count bytes" using Suc.hyps(2) by simp
  have hd: "e_phnum (kmem s) em = e_phnum ?im 0" "e_phoff (kmem s) em = e_phoff ?im 0"
    using file_header [of "kmem s" em bytes] Suc.prems(2) assms(3,4) by (simp_all add: image_beside_def mappable_def headers_inside_def)
  have ph: "?po + of_nat i * sizeof_phdr = elf_program_header (kmem s) em i"
    using hd(2) assms(5) by (simp add: elf_program_header_def elf_pheader_def)
  obtain s1 where S: "paging_map_to (process_directory p s) (paging_align_to_lower_page (p_vaddr (kmem s) (?po + of_nat i * sizeof_phdr)))
      (paging_align_to_lower_page (elf_phdr_phys_address f (?po + of_nat i * sizeof_phdr) s))
      (paging_align_address (elf_phdr_phys_address f (?po + of_nat i * sizeof_phdr) s + p_memsz (kmem s) (?po + of_nat i * sizeof_phdr)))
      (seg_flags (kmem s) (?po + of_nat i * sizeof_phdr)) s = (0, s1)" "remapped p s s1" "segment_mapped p em bytes (file_header_at bytes i) s1"
    and keep: "\<forall>w. unat w mod 4096 = 0 \<longrightarrow> \<not> in_range (paging_align_to_lower_page (p_vaddr ?im (file_header_at bytes i)))
         (seg_pages ?im (file_header_at bytes i) * 4096) w \<longrightarrow> process_lookup p w s1 = process_lookup p w s"
    using map_segment [OF Suc.prems(1,2) assms(3-5) i assms(6)] unfolding ph by blast
  have ok1: "process_ok p s1" using S(2) by (simp add: remapped_def)
  note b1 = image_beside_remapped [OF Suc.prems(1) S(2) Suc.prems(2) assms(4)]
  have m: "seg_first ?im (file_header_at bytes j) + seg_pages ?im (file_header_at bytes j) \<le> 1048576" if "j < header_count bytes" for j
    using assms(3) that by (simp add: mappable_def)
  let ?va = "paging_align_to_lower_page (p_vaddr ?im (file_header_at bytes i))"
  have va: "unat ?va mod 4096 = 0" "unat ?va div 4096 = seg_first ?im (file_header_at bytes i)"
    by (simp_all add: align_lower seg_first_def minus_mod_eq_div_mult)
  have "segment_mapped p em bytes (file_header_at bytes j) s1" if j: "j < i" for j
  proof (rule segment_kept [OF _ va(1) keep])
    show "segment_mapped p em bytes (file_header_at bytes j) s" using Suc.prems(4) j by blast
    show "pages_apart (unat ?va div 4096) (seg_pages ?im (file_header_at bytes i)) (seg_first ?im (file_header_at bytes j)) (seg_pages ?im (file_header_at bytes j))"
      using assms(3) i j va(2) by (simp add: mappable_def)
    show "seg_first ?im (file_header_at bytes j) + seg_pages ?im (file_header_at bytes j) \<le> 1048576" using m i j by simp
    show "unat ?va div 4096 + seg_pages ?im (file_header_at bytes i) \<le> 1048576" using m [OF i] va(2) by simp
  qed
  then have done1: "\<forall>j < Suc i. segment_mapped p em bytes (file_header_at bytes j) s1" using S(3) by (simp add: less_Suc_eq)
  have k: "k = header_count bytes - Suc i" using Suc.hyps(2) by simp
  obtain s' where L: "process_map_elf_loop p f em ?po (Suc i) 0 s1 = (0, s')" "remapped p s1 s'"
      "\<forall>j < header_count bytes. segment_mapped p em bytes (file_header_at bytes j) s'"
    using Suc.hyps(1) [OF k ok1 b1 _ done1] i by (auto simp: Suc_le_eq)
  have "process_map_elf_loop p f em ?po i 0 s = (0, s')"
    using i hd(1) S(1) [unfolded seg_flags_def] L(1)
    by (subst process_map_elf_loop.simps) (auto simp: Let_def)
  then show ?case using L remapped_trans [OF S(2) L(2)] by blast
qed

section \<open>What the program sees\<close>

text \<open>The byte at an address of the process, through its page tables.\<close>

definition user_address :: "addr \<Rightarrow> addr \<Rightarrow> 'a kheap_state_scheme \<Rightarrow> addr" where
  "user_address p va s = paging_get_physical_address (load32 (kmem s) (process_directory p s)) va s"

lemma lower_page_offset: "paging_align_to_lower_page a + of_nat (unat a mod 4096) = a"
proof -
  have "of_nat (unat a mod 4096) = a mod 4096" by (simp add: word_unat_eq_iff unat_mod unat_of_nat take_bit_nat_eq_self)
  then show ?thesis by (simp add: paging_align_to_lower_page_def PAGING_PAGE_SIZE_def)
qed

lemma lookup_user_address:
  assumes "process_lookup p va s = pa OR flags" "unat va mod 4096 = 0" "unat pa mod 4096 = 0" "unat flags < 4096" "off < 4096"
  shows "user_address p (va + of_nat off) s = pa + of_nat off"
  using lookup_physical [OF _ assms(2-5)] assms(1) by (simp add: user_address_def process_lookup_def space_lookup_def)

lemma seg_flags_small: "unat (seg_flags m ph) < 4096"
  by (simp add: seg_flags_def os_defs PAGING_IS_PRESENT_def PAGING_ACCESS_FROM_ALL_def PAGING_IS_WRITABLE_def)

lemma segment_address:
  assumes "segment_mapped p em bytes ph s" "unat em mod 4096 = 0" "unat em < 2 ^ 31"
    "unat (p_offset (image_mem bytes) ph) + unat (p_memsz (image_mem bytes) ph) < 2 ^ 30"
    "unat (p_vaddr (image_mem bytes) ph) mod 4096 = unat (p_offset (image_mem bytes) ph) mod 4096" "j < unat (p_memsz (image_mem bytes) ph)"
  shows "user_address p (p_vaddr (image_mem bytes) ph + of_nat j) s = em + p_offset (image_mem bytes) ph + of_nat j"
proof -
  let ?va = "p_vaddr (image_mem bytes) ph" and ?off = "p_offset (image_mem bytes) ph" and ?sz = "p_memsz (image_mem bytes) ph"
  let ?r = "unat ?off mod 4096"
  let ?t = "(?r + j) div 4096" and ?q = "(?r + j) mod 4096"
  have split: "?r + j = ?t * 4096 + ?q" by simp
  have "seg_pages (image_mem bytes) ph = (?r + unat ?sz + 4095) div 4096"
  proof -
    obtain a where a: "unat ?off = a * 4096 + ?r" "unat ?off div 4096 = a" by (metis div_mult_mod_eq)
    have "unat ?off + unat ?sz + 4095 = ?r + unat ?sz + 4095 + a * 4096" using a(1) by linarith
    then have "(unat ?off + unat ?sz + 4095) div 4096 = (?r + unat ?sz + 4095) div 4096 + a" by simp
    then show ?thesis by (simp add: seg_pages_def a(2))
  qed
  moreover have "?t < (?r + unat ?sz + 4095) div 4096"
  proof -
    have "Suc ?t = (?r + j + 4096) div 4096" by simp
    also have "\<dots> \<le> (?r + unat ?sz + 4095) div 4096" using assms(6) by (intro div_le_mono) simp
    finally show ?thesis by simp
  qed
  ultimately have t: "?t < seg_pages (image_mem bytes) ph" by simp
  let ?lv = "paging_align_to_lower_page ?va" and ?lp = "paging_align_to_lower_page (em + ?off)"
  have bound: "unat em + unat ?off + unat ?sz + 4095 < 2 ^ 32" using assms(3,4) by simp
  have al: "unat ?lv mod 4096 = 0" "unat ?lp mod 4096 = 0" by (simp_all add: align_lower)
  have "unat (em + ?off) = unat em + unat ?off" using bound by (subst unat_add_lem [THEN iffD1]) simp_all
  then have r: "unat (em + ?off) mod 4096 = ?r" using assms(2) by (simp add: mod_add_left_eq [symmetric])
  have lk: "process_lookup p (?lv + of_nat (?t * 4096)) s = (?lp + of_nat (?t * 4096)) OR seg_flags (image_mem bytes) ph"
    using assms(1) t unfolding segment_mapped_def by blast
  have q: "?q < 4096" by simp
  have "user_address p (?lv + of_nat (?t * 4096) + of_nat ?q) s = ?lp + of_nat (?t * 4096) + of_nat ?q"
    by (rule lookup_user_address [OF lk page_step [OF al(1)] page_step [OF al(2)] seg_flags_small q])
  moreover have "x + of_nat (?t * 4096) + of_nat ?q = x + of_nat ?r + of_nat j" for x :: addr
    unfolding add.assoc of_nat_add [symmetric] split [symmetric] ..
  ultimately show ?thesis
    using lower_page_offset [of ?va] lower_page_offset [of "em + ?off"] assms(5) r by metis
qed

text \<open>All segments and the stack.\<close>

definition stack_mapped :: "addr \<Rightarrow> addr \<Rightarrow> 'a kheap_state_scheme \<Rightarrow> bool" where
  "stack_mapped p stk s \<longleftrightarrow> (\<forall>t < 4. process_lookup p (ALPHAOS_PROGRAM_VIRTUAL_STACK_ADDRESS_END + of_nat (t * 4096)) s
     = (stk + of_nat (t * 4096)) OR USER_PAGE)"

lemma map_memory_law:
  assumes "process_ok p s" "image_beside p f em bytes s" "mappable bytes" "length bytes < 2 ^ 31" "e_phoff (image_mem bytes) 0 \<noteq> 0"
    "unat em < 2 ^ 31" "process_file_type (kmem s) p = PROCESS_FILETYPE_ELF" "get_field p process_ptr s = f"
    "get_field p process_stack s = stk" "unat stk mod 4096 = 0" "unat stk < 2 ^ 31"
  shows "\<exists>s'. process_map_memory p s = Some (0, s') \<and> remapped p s s'
    \<and> (\<forall>j < header_count bytes. segment_mapped p em bytes (file_header_at bytes j) s') \<and> stack_mapped p stk s'"
proof -
  let ?ve = ALPHAOS_PROGRAM_VIRTUAL_STACK_ADDRESS_END
  have hd: "elf_header f s = em" using assms(2) by (simp add: image_beside_def elf_header_def elf_memory_def)
  have "e_phoff (kmem s) em = e_phoff (image_mem bytes) 0"
    using file_header(1) [of "kmem s" em bytes] assms(2-4) by (simp add: image_beside_def mappable_def headers_inside_def)
  then have ph: "elf_pheader (kmem s) em = em + e_phoff (image_mem bytes) 0" using assms(5) by (simp add: elf_pheader_def)
  obtain s1 where E: "process_map_elf_loop p f em (em + e_phoff (image_mem bytes) 0) 0 0 s = (0, s1)" "remapped p s s1"
      "\<forall>j < header_count bytes. segment_mapped p em bytes (file_header_at bytes j) s1"
    using map_loop [OF assms(1-6), of 0] by auto
  have E1: "process_map_elf p s = (0, s1)" using E(1) hd ph assms(8) by (simp add: process_map_elf_def)
  have ok1: "process_ok p s1" using E(2) by (simp add: remapped_def)
  have "get_field p process_stack s1 = get_field p process_stack s"
    by (rule remapped_field [OF assms(1) E(2)]) (simp add: process_stack_def)
  then have st: "get_field p process_stack s1 = stk" using assms(9) by simp
  have z: "unat (paging_align_address (stk + ALPHAOS_USER_PROGRAM_STACK_SIZE)) = unat stk + 4 * 4096"
    using seg_range(2) [OF assms(10), of 0 ALPHAOS_USER_PROGRAM_STACK_SIZE] assms(11) by (simp add: ALPHAOS_USER_PROGRAM_STACK_SIZE_def)
  have v: "unat ?ve mod 4096 = 0" "unat ?ve div 4096 = 0x3FB"
    by (simp_all add: os_defs ALPHAOS_PROGRAM_VIRTUAL_STACK_ADDRESS_END_def ALPHAOS_PROGRAM_VIRTUAL_STACK_ADDRESS_START_def ALPHAOS_USER_PROGRAM_STACK_SIZE_def)
  then have v4: "unat ?ve div 4096 + 4 \<le> 1048576" by simp
  obtain s2 where M: "paging_map_to (process_directory p s1) ?ve stk (paging_align_address (stk + ALPHAOS_USER_PROGRAM_STACK_SIZE)) USER_PAGE s1 = (0, s2)"
      "remapped p s1 s2" "\<forall>i < 4. process_lookup p (?ve + of_nat (i * 4096)) s2 = (stk + of_nat (i * 4096)) OR USER_PAGE"
      "\<forall>w. unat w mod 4096 = 0 \<longrightarrow> \<not> in_range ?ve (4 * 4096) w \<longrightarrow> process_lookup p w s2 = process_lookup p w s1"
    using process_map_remaps [OF ok1 v(1) assms(10) z v4, of USER_PAGE] by blast
  have "segment_mapped p em bytes (file_header_at bytes j) s2" if j: "j < header_count bytes" for j
  proof (rule segment_kept [OF _ v(1) M(4) _ _ v4])
    show "segment_mapped p em bytes (file_header_at bytes j) s1" using E(3) j by blast
    have "pages_apart (seg_first (image_mem bytes) (file_header_at bytes j)) (seg_pages (image_mem bytes) (file_header_at bytes j)) 0x3FB 4"
      using assms(3) j by (simp add: mappable_def)
    then show "pages_apart (unat ?ve div 4096) 4 (seg_first (image_mem bytes) (file_header_at bytes j)) (seg_pages (image_mem bytes) (file_header_at bytes j))"
      unfolding v(2) by (auto simp: pages_apart_def)
    show "seg_first (image_mem bytes) (file_header_at bytes j) + seg_pages (image_mem bytes) (file_header_at bytes j) \<le> 1048576"
      using assms(3) j by (simp add: mappable_def)
  qed
  moreover have "process_map_memory p s = Some (0, s2)"
    using E1 M(1) st assms(7) by (simp add: process_map_memory_def)
  ultimately show ?thesis using M(3) remapped_trans [OF E(2) M(2)] by (auto simp: stack_mapped_def)
qed

section \<open>From the image to the process\<close>

lemma tasks_inv_frame:
  fixes s :: "('d, 'a) task_state_scheme"
  assumes "tasks_inv s ts" "kheap_ok s'" "task_head s' = task_head s" "task_tail s' = task_tail s"
    "\<And>t. t \<in> set ts \<Longrightarrow> klive s' t = Some 1" "\<And>t x. t \<in> set ts \<Longrightarrow> in_range t 4096 x \<Longrightarrow> kmem s' x = kmem s x"
  shows "tasks_inv s' ts"
proof -
  have f: "get_field t i s' = get_field t i s" if "t \<in> set ts" "unat i < 1024" for t i
    by (rule page_bytes(2) [OF _ that(2)]) (use assms(6) [OF that(1)] in blast)
  have "task_links s ts \<Longrightarrow> task_links s' ts" by (rule task_links_same) (simp_all add: f task_offsets)
  then show ?thesis using assms(1-5) by (auto simp: tasks_inv_def task_list_def)
qed

text \<open>The structure \<open>p\<close> of a process, the record \<open>f\<close> and the image \<open>em\<close> of its program, and the list of tasks.\<close>

definition prepared :: "addr \<Rightarrow> addr \<Rightarrow> addr \<Rightarrow> u8 list \<Rightarrow> addr list \<Rightarrow> ('d, 'a) task_state_scheme \<Rightarrow> bool" where
  "prepared p f em bytes ts s \<longleftrightarrow> kheap_ok s \<and> klive s p = Some 3 \<and> klive s f = Some 1
     \<and> klive s em = Some (blocks_of (of_nat (length bytes))) \<and> elf_memory f s = em \<and> bytes_at (kmem s) em (length bytes) = bytes
     \<and> p \<noteq> em \<and> f \<noteq> em \<and> tasks_inv s ts \<and> f \<notin> set ts \<and> em \<notin> set ts"

lemma prepared_frame:
  assumes "prepared p f em bytes ts s" "length bytes < 2 ^ 31" "kheap_ok s'" "klive s \<subseteq>\<^sub>m klive s'" "task_head s' = task_head s" "task_tail s' = task_tail s"
    "\<And>q n x. q \<in> insert f (insert em (set ts)) \<Longrightarrow> klive s q = Some n \<Longrightarrow> in_range q (n * 4096) x \<Longrightarrow> kmem s' x = kmem s x"
  shows "prepared p f em bytes ts s'"
proof -
  note a = assms(1) [unfolded prepared_def]
  have l: "klive s' q = Some n" if "klive s q = Some n" for q n using assms(4) that by (metis domI map_le_def)
  have ts: "\<forall>t \<in> set ts. klive s t = Some 1" using a by (simp add: tasks_inv_def)
  have tm: "kmem s' x = kmem s x" if "t \<in> set ts" "in_range t 4096 x" for t x using assms(7) [of t 1 x] ts that by simp
  have "tasks_inv s' ts"
    by (rule tasks_inv_frame [OF _ assms(3,5,6)]) (use a ts l tm in auto)
  moreover have "elf_memory f s' = elf_memory f s" using ef_range_cong(2) [of f s' s] assms(7) [of f 1] a by simp
  moreover have "bytes_at (kmem s') em (length bytes) = bytes_at (kmem s) em (length bytes)"
  proof (rule bytes_at_cong)
    fix x assume "in_range em (length bytes) x"
    then have "in_range em (blocks_of (of_nat (length bytes)) * 4096) x" by (rule in_range_mono [OF _ length_blocks [OF assms(2)]])
    then show "kmem s' x = kmem s x" using assms(7) [of em] a by simp
  qed (use assms(2) in simp)
  ultimately show ?thesis using a assms(3) l by (simp add: prepared_def)
qed

lemma prepared_extends:
  assumes "prepared p f em bytes ts s" "length bytes < 2 ^ 31" "extends s s'" "kheap_ok s'"
  shows "prepared p f em bytes ts s'"
proof -
  have ok: "kheap_ok s" using assms(1) by (simp add: prepared_def)
  have "klive s \<subseteq>\<^sub>m klive s'" using assms(3) by (simp only: extends_def)
  then show ?thesis
    using prepared_frame [OF assms(1,2,4) _ extends_task_vars(1,2) [OF assms(3)]] extends_mem [OF assms(3) held_page [OF ok]] by blast
qed

text \<open>Writes to the structure of the process.\<close>

lemma prepared_write:
  assumes "prepared p f em bytes ts s" "length bytes < 2 ^ 31" "s' = s\<lparr>kmem := kmem s'\<rparr>" "\<And>x. \<not> in_range p (3 * 4096) x \<Longrightarrow> kmem s' x = kmem s x"
  shows "prepared p f em bytes ts s'" "klive s' = klive s" "kavail s' = kavail s"
proof -
  have a: "kheap_ok s" "klive s p = Some 3" "p \<noteq> f" "p \<noteq> em" "p \<notin> set ts" using assms(1) by (auto simp: prepared_def tasks_inv_def)
  note h = kheap_store [OF a(1,2) kmem_only_heap [OF assms(3)] assms(4)]
  show "klive s' = klive s" "kavail s' = kavail s" using h by simp_all
  have v: "task_head (s\<lparr>kmem := kmem s'\<rparr>) = task_head s" "task_tail (s\<lparr>kmem := kmem s'\<rparr>) = task_tail s" by simp_all
  have "task_head s' = task_head s" "task_tail s' = task_tail s" using v assms(3) by metis+
  moreover have "kmem s' x = kmem s x" if "q \<in> insert f (insert em (set ts))" "klive s q = Some n" "in_range q (n * 4096) x" for q n x
    using other_allocation(1) [OF a(1) that(2) a(2) _ _ that(3)] that(1) a(3-5) assms(4) by blast
  ultimately show "prepared p f em bytes ts s'" using prepared_frame [OF assms(1,2) h(1)] h(2) by simp
qed

text \<open>The name is cut to its buffer whatever it is.\<close>

lemma strncpy_from_outside:
  assumes "int i < n" "n \<le> 2 ^ 32" "\<not> in_range dest (nat n) x"
  shows "strncpy_from m dest src n i x = m x"
  using assms
proof (induction m dest src n i rule: strncpy_from.induct)
  case (1 m dest src n i)
  have "in_range dest (nat n) (dest + of_nat i)" using 1(2,3) by (intro in_range_nth) simp_all
  then have "x \<noteq> dest + of_nat i" using 1(4) by auto
  then show ?case using 1 by (subst strncpy_from.simps) (auto simp: fun_upd_def)
qed

text \<open>The structure after \<open>process_load_for_slot\<close> has filled in stack, name and identifier.\<close>

definition fill_process :: "addr \<Rightarrow> addr \<Rightarrow> addr \<Rightarrow> nat \<Rightarrow> 'a kheap_state_scheme \<Rightarrow> 'a kheap_state_scheme" where
  "fill_process p filename stk slot s =
     (let s = s\<lparr>kmem := strncpy (kmem s) (process_filename p) filename ALPHAOS_MAX_PATH_LENGTH\<rparr>;
          s = set_field p process_stack stk s in
      s\<lparr>kmem := store16 (kmem s) p (of_nat slot)\<rparr>)"

lemma fill_process:
  shows "\<not> in_range p (3 * 4096) x \<Longrightarrow> kmem (fill_process p filename stk slot s) x = kmem s x"
    "get_field p process_stack (fill_process p filename stk slot s) = stk"
    "get_field p process_ptr (fill_process p filename stk slot s) = get_field p process_ptr s"
    "process_file_type (kmem (fill_process p filename stk slot s)) p = process_file_type (kmem s) p"
    "fill_process p filename stk slot s = s\<lparr>kmem := kmem (fill_process p filename stk slot s)\<rparr>"
    "28 \<le> unat i \<Longrightarrow> unat i < 3072 \<Longrightarrow> i \<noteq> process_stack \<Longrightarrow> get_field p i (fill_process p filename stk slot s) = get_field p i s"
    "process_id (kmem (fill_process p filename stk slot s)) p = of_nat slot"
proof -
  let ?a = "s\<lparr>kmem := strncpy (kmem s) (process_filename p) filename ALPHAOS_MAX_PATH_LENGTH\<rparr>"
  let ?b = "set_field p process_stack stk ?a"
  have e: "fill_process p filename stk slot s = ?b\<lparr>kmem := store16 (kmem ?b) p (of_nat slot)\<rparr>" by (simp add: fill_process_def Let_def)
  have a: "kmem ?a x = kmem s x" if "\<not> in_range (p + of_nat 2) 108 x" for x
    using strncpy_from_outside [of 0 108 "p + 2" x] that by (simp add: strncpy_def process_filename_def ALPHAOS_MAX_PATH_LENGTH_def)
  have low: "kmem (fill_process p filename stk slot s) (p + of_nat j) = kmem ?b (p + of_nat j)" if "112 \<le> j" "j < 2 ^ 32" for j
  proof -
    have "\<not> in_range p 2 (p + of_nat j)" using in_range_offset [of j 0 2 p] that by simp
    then show ?thesis unfolding e by (simp add: store16_other)
  qed
  have ra: "kmem ?a (p + of_nat j) = kmem s (p + of_nat j)" if "112 \<le> j" "j < 2 ^ 32" for j
    using a in_range_offset [of j 2 108 p] that by simp
  show "\<not> in_range p (3 * 4096) x \<Longrightarrow> kmem (fill_process p filename stk slot s) x = kmem s x"
  proof -
    assume x: "\<not> in_range p (3 * 4096) x"
    have "\<not> in_range p 2 x" "\<not> in_range (p + of_nat 2) 108 x" using x in_range_mono [of p 2 x] in_range_sub [of p 2 108 x "3 * 4096"] by auto
    moreover have "kmem ?b x = kmem ?a x" using x by (intro set_field_outside [where n = 3072]) (simp_all add: process_stack_def)
    ultimately show ?thesis unfolding e using a by (simp add: store16_other)
  qed
  have f: "get_field p i (fill_process p filename stk slot s) = get_field p i ?b" if "28 \<le> unat i" "unat i < 3072" for i
    unfolding get_field_def word_at_def
  proof (rule load32_cong)
    fix x assume "in_range (p + 4 * i) 4 x"
    then obtain k where k: "k < 4" "x = p + (4 * i + of_nat k)" by (rule slotE)
    have "x = p + of_nat (4 * unat i + k)" using k(2) by simp
    then show "kmem (fill_process p filename stk slot s) x = kmem ?b x" using low [of "4 * unat i + k"] k(1) that by (simp del: of_nat_add of_nat_mult)
  qed
  have g: "get_field p i ?a = get_field p i s" if "28 \<le> unat i" "unat i < 3072" for i
    unfolding get_field_def word_at_def
  proof (rule load32_cong)
    fix x assume "in_range (p + 4 * i) 4 x"
    then obtain k where k: "k < 4" "x = p + (4 * i + of_nat k)" by (rule slotE)
    have "x = p + of_nat (4 * unat i + k)" using k(2) by simp
    then show "kmem ?a x = kmem s x" using ra [of "4 * unat i + k"] k(1) that by (simp del: of_nat_add of_nat_mult)
  qed
  show "get_field p process_stack (fill_process p filename stk slot s) = stk"
    using f [of process_stack] by (simp add: process_stack_def get_set_field)
  show keep: "get_field p i (fill_process p filename stk slot s) = get_field p i s" if "28 \<le> unat i" "unat i < 3072" "i \<noteq> process_stack" for i
    using f [of i] g [of i] that by (simp add: process_stack_def get_set_field)
  show "get_field p process_ptr (fill_process p filename stk slot s) = get_field p process_ptr s"
    by (rule keep) (simp_all add: process_stack_def process_ptr_def)
  show "process_id (kmem (fill_process p filename stk slot s)) p = of_nat slot" unfolding e by (simp add: process_id_def)
  have "process_file_type (kmem (fill_process p filename stk slot s)) p = process_file_type (kmem ?b) p"
    using low [of 8308] by (simp add: process_file_type_def)
  also have "\<dots> = process_file_type (kmem ?a) p" by (rule file_type_set_field) (simp_all add: process_stack_def)
  also have "\<dots> = process_file_type (kmem s) p" using ra [of 8308] by (simp add: process_file_type_def)
  finally show "process_file_type (kmem (fill_process p filename stk slot s)) p = process_file_type (kmem s) p" .
  show "fill_process p filename stk slot s = s\<lparr>kmem := kmem (fill_process p filename stk slot s)\<rparr>"
    unfolding e by (simp add: set_field_def)
qed

text \<open>
  What stays as it was in \<open>s\<close> while a process is made: every allocation, and every byte in use but those of the buffer for
  \<open>fstat\<close> and of the tasks \<open>ts\<close>, whose links change.
\<close>

definition keeps_held :: "('d, 'a) elf_state_scheme \<Rightarrow> addr list \<Rightarrow> ('d, 'a) elf_state_scheme \<Rightarrow> bool" where
  "keeps_held s ts s' \<longleftrightarrow> kernel_heap s' = kernel_heap s \<and> klive s \<subseteq>\<^sub>m klive s'
     \<and> (\<forall>x. held s x \<longrightarrow> \<not> in_range (stat_local s) 8 x \<longrightarrow> (\<forall>t \<in> set ts. \<not> in_range t 4096 x) \<longrightarrow> kmem s' x = kmem s x)"

lemma keeps_step:
  assumes "keeps_held s ts t" "kernel_heap u = kernel_heap t" "klive t \<subseteq>\<^sub>m klive u"
    "\<And>x. held s x \<Longrightarrow> held t x \<Longrightarrow> \<not> in_range (stat_local s) 8 x \<Longrightarrow> (\<forall>t \<in> set ts. \<not> in_range t 4096 x) \<Longrightarrow> kmem u x = kmem t x"
  shows "keeps_held s ts u"
proof -
  note k = assms(1) [unfolded keeps_held_def]
  have "klive s \<subseteq>\<^sub>m klive u" using map_le_trans k assms(3) by blast
  moreover have "held t x" if "held s x" for x using held_mono [of t s] k that by blast
  ultimately show ?thesis using k assms(2,4) by (simp add: keeps_held_def)
qed

lemma keeps_extends: "keeps_held s ts t \<Longrightarrow> extends t u \<Longrightarrow> keeps_held s ts u"
proof (erule keeps_step)
  assume e: "extends t u"
  show "kernel_heap u = kernel_heap t" by (rule extends_heap [OF e])
  show "klive t \<subseteq>\<^sub>m klive u" using e by (simp only: extends_def)
  show "kmem u x = kmem t x" if "held t x" for x by (rule extends_mem [OF e that])
qed

lemma keeps_write:
  assumes "keeps_held s ts t" "kheap_ok t" "klive t p = Some n" "klive s p = None" "kernel_heap u = kernel_heap t" "klive u = klive t"
    "\<And>x. \<not> in_range p (n * 4096) x \<Longrightarrow> kmem u x = kmem t x"
  shows "keeps_held s ts u"
proof (rule keeps_step [OF assms(1,5)])
  show "klive t \<subseteq>\<^sub>m klive u" by (simp add: assms(6))
  fix x assume "held s x"
  then have "\<not> in_range p (n * 4096) x" using held_fresh [OF assms(2-4)] assms(1) by (simp add: keeps_held_def)
  then show "kmem u x = kmem t x" by (rule assms(7))
qed

text \<open>A process without allocations of its own.\<close>

definition no_buffers :: "addr \<Rightarrow> 'a kheap_state_scheme \<Rightarrow> bool" where
  "no_buffers p s \<longleftrightarrow> (\<forall>i. 29 \<le> unat i \<longrightarrow> unat i < 2077 \<longrightarrow> get_field p i s = 0)"

text \<open>A mounted disk, as \<open>elf_load\<close> finds it.\<close>

definition volume_ready :: "'d ata \<Rightarrow> 'd bus \<Rightarrow> (addr \<Rightarrow> ('d, 'a) file_state_scheme fs_ops) \<Rightarrow> ('d, 'a) file_state_scheme \<Rightarrow>
    addr \<Rightarrow> u8 list list \<Rightarrow> nat \<Rightarrow> nat \<Rightarrow> addr \<Rightarrow> bool" where
  "volume_ready ata bus ops s pv es spc e st \<longleftrightarrow> ata_idle ata (hw s) \<and> kheap_ok s \<and> pool_low s \<and> disk_var s \<noteq> NULL
     \<and> disk_filesystem (disks s (disk_var s)) \<noteq> NULL \<and> ops (disk_filesystem (disks s (disk_var s))) = fat16_ops bus
     \<and> root_ready s (disk_var s) pv es \<and> klive s pv = Some 1 \<and> mounted s (disk_var s) pv spc e st"

lemma volume_ready_extends:
  assumes "volume_ready ata bus ops s pv es spc e st" "extends s s'" "kheap_ok s'"
  shows "volume_ready ata bus ops s' pv es spc e st"
proof -
  note v = assms(1) [unfolded volume_ready_def]
  obtain m where m: "s' = s\<lparr>kmem := m\<rparr>" using assms(2) by (auto simp only: extends_def)
  have "root_ready s' (disk_var s) pv es" "mounted s' (disk_var s) pv spc e st" "klive s' pv = Some 1"
    using v root_ready_extends [OF assms(2)] mounted_extends [OF assms(2)] extends_live [OF assms(2)] by blast+
  then show ?thesis using v assms(3) by (simp add: volume_ready_def m pool_low_def)
qed

lemma load_buffers_extends:
  "load_buffers s filename q pv \<Longrightarrow> extends s s' \<Longrightarrow> stat_local s' = stat_local s \<Longrightarrow> load_buffers s' filename q pv"
  using held_string_extends extends_held unfolding load_buffers_def by metis

text \<open>The memory a process takes: its structure, the image and what \<open>elf_load\<close> keeps, the stack, the task and its address space.\<close>

definition launch_room :: "'a kheap_state_scheme \<Rightarrow> nat \<Rightarrow> nat \<Rightarrow> bool" where
  "launch_room s l sz \<longleftrightarrow> (let n = blocks_of (of_nat sz); N = heap_blocks (kernel_heap s) in
     (N - kavail s + n + 2 * l + 10) * (n + 4) \<le> N \<and> n + 2 * l + 1036 \<le> kavail s)"

lemma launch_room_run:
  assumes "launch_room s l sz" "kernel_heap s' = kernel_heap s" "kavail s \<le> kavail s' + d"
    "d + 1 \<le> blocks_of (of_nat sz) + 2 * l + 10" "k \<le> blocks_of (of_nat sz) + 4"
  shows "kroom s' k"
proof (rule kroom_sparse)
  let ?N = "heap_blocks (kernel_heap s)" and ?n = "blocks_of (of_nat sz)"
  have "?N - kavail s' + 1 \<le> ?N - kavail s + ?n + 2 * l + 10" using assms(3,4) by linarith
  then have "(?N - kavail s' + 1) * k \<le> (?N - kavail s + ?n + 2 * l + 10) * (?n + 4)" using assms(5) by (rule mult_le_mono)
  also have "\<dots> \<le> ?N" using assms(1) by (simp add: launch_room_def Let_def)
  finally show "(heap_blocks (kernel_heap s') - kavail s' + 1) * k \<le> heap_blocks (kernel_heap s')" by (simp add: assms(2))
qed

lemma process_image:
  fixes s :: "('d, 'a) process_state_scheme"
  assumes "ata_contract bus ata img" "volume_ready ata bus ops s pv es spc e st" "load_buffers s filename q pv" "program_file es q spc e c sz"
    "first_free (file_descriptors s) 0 = Some i" "i < 511" "disk_bytes img (cluster_pos spc e c) sz = bytes"
    "elf_validate_loaded (image_mem bytes) 0 = ALPHAOS_ALL_OK" "mappable bytes" "launch_room s (length (named q es)) sz"
    "tasks_inv s ts" "\<forall>x. in_range (stat_local s) 8 x \<longrightarrow> (\<forall>t \<in> set ts. \<not> in_range t 4096 x)"
  shows "\<exists>p s1 f em s4. kzalloc sizeof_process s = (p, s1) \<and> process_load_data ops filename p (process_init p s1) = Some (0, s4)
    \<and> prepared p f em bytes ts s4 \<and> get_field p process_ptr s4 = f \<and> process_file_type (kmem s4) p = PROCESS_FILETYPE_ELF
    \<and> klive s p = None \<and> p \<noteq> NULL \<and> kernel_heap s4 = kernel_heap s \<and> processes s4 = processes s \<and> keeps_held s ts s4 \<and> no_buffers p s4
    \<and> klive s f = None \<and> klive s em = None
    \<and> kavail s = kavail s4 + 3 + blocks_of (of_nat sz) + 2 + 2 * length (named q es)"
proof -
  let ?l = "length (named q es)" and ?n = "blocks_of (of_nat sz)"
  note v = assms(2) [unfolded volume_ready_def]
  have ok: "kheap_ok s" using v by simp
  have len: "length bytes = sz" "length bytes < 2 ^ 31" using assms(4,7) by (auto simp: program_file_def)
  obtain p s1 where z: "kzalloc sizeof_process s = (p, s1)" by fastforce
  have "unat sizeof_process = 9364" by (simp add: sizeof_process_def)
  moreover have b3: "blocks_of sizeof_process = 3" by (simp add: blocks_of_eq sizeof_process_def)
  moreover have "kroom s 3" by (rule launch_room_run [OF assms(10) refl, of 0]) simp_all
  ultimately have k: "extends s s1" "kheap_ok s1" "klive s p = None" "klive s1 = (klive s)(p \<mapsto> 3)" "kavail s = kavail s1 + 3" "p \<noteq> NULL"
    using kzalloc_extends [OF ok _ _ _ z] by simp_all
  let ?s2 = "process_init p s1"
  have p1: "klive s1 p = Some 3" using k(4) by simp
  have "memset (kmem s1) p 0 (unat sizeof_process) x = kmem s1 x" if "\<not> in_range p (3 * 4096) x" for x
    using that in_range_mono [of p 9364 x "3 * 4096"] by (auto simp: memset_apply sizeof_process_def)
  note st = store_extends [OF k(2) p1 k(1,3) this]
  have s2: "extends s ?s2" "kheap_ok ?s2" "klive ?s2 = klive s1" "kavail ?s2 = kavail s1" using st by (simp_all add: process_init_def)
  have h2: "kernel_heap ?s2 = kernel_heap s" by (rule extends_heap [OF s2(1)])
  have x2: "stat_local ?s2 = stat_local s" "file_descriptors ?s2 = file_descriptors s" "processes ?s2 = processes s"
  proof -
    obtain m where "?s2 = s\<lparr>kmem := m\<rparr>" using s2(1) by (auto simp only: extends_def)
    then show "stat_local ?s2 = stat_local s" "file_descriptors ?s2 = file_descriptors s" "processes ?s2 = processes s"
      by (simp_all add: stat_local_def)
  qed
  have keep2: "keeps_held s ts ?s2"
    by (rule keeps_extends [OF _ s2(1)]) (simp add: keeps_held_def)
  have clear: "kmem ?s2 x = 0" if "in_range p 9364 x" for x
    using that by (simp add: process_init_def memset_apply sizeof_process_def)
  note v2 = volume_ready_extends [OF assms(2) s2(1,2), unfolded volume_ready_def]
  have buf: "load_buffers ?s2 filename q pv" by (rule load_buffers_extends [OF assms(3) s2(1) x2(1)])
  have room: "load_room ?s2 ?l sz"
  proof -
    let ?N = "heap_blocks (kernel_heap s)"
    have "?N - kavail ?s2 + 7 + 2 * ?l \<le> ?N - kavail s + ?n + 2 * ?l + 10" using k(5) s2(4) by linarith
    then have "(?N - kavail ?s2 + 7 + 2 * ?l) * ?n \<le> (?N - kavail s + ?n + 2 * ?l + 10) * (?n + 4)" by (rule mult_le_mono) simp
    also have "\<dots> \<le> ?N" using assms(10) by (simp add: launch_room_def Let_def)
    finally show ?thesis by (simp add: load_room_def h2)
  qed
  have hi: "headers_inside bytes" using assms(9) by (simp add: mappable_def)
  obtain f em s3 where L: "elf_load ops filename NULL ?s2 = Some (0, f, s3)" "elf_loaded ?s2 s3 f em bytes" "load_keeps ?s2 s3" "kheap_ok s3"
      "kavail ?s2 = kavail s3 + ?n + 2 + 2 * ?l"
  proof -
    have a: "ata_idle ata (hw ?s2)" "pool_low ?s2" "disk_var ?s2 \<noteq> NULL" "disk_filesystem (disks ?s2 (disk_var ?s2)) \<noteq> NULL"
      "ops (disk_filesystem (disks ?s2 (disk_var ?s2))) = fat16_ops bus" "root_ready ?s2 (disk_var ?s2) pv es" "klive ?s2 pv = Some 1"
      "mounted ?s2 (disk_var ?s2) pv spc e st" using v2 by simp_all
    have ff: "first_free (file_descriptors ?s2) 0 = Some i" using assms(5) x2(2) by simp
    show ?thesis
      using elf_load_law [OF assms(1) a(1) s2(2) a(2) buf a(3) refl a(4) _ a(6) assms(4) a(7,8) room ff assms(6,7), where ops = ops and file_out = NULL]
        a(5) assms(8) hi by (auto intro!: that)
  qed
  note el = L(2) [unfolded elf_loaded_def] and kp = L(3) [unfolded load_keeps_def]
  have h3: "kernel_heap s3 = kernel_heap s" "task_head s3 = task_head s" "task_tail s3 = task_tail s" "processes s3 = processes s"
  proof -
    obtain m d sts where e: "s3 = ?s2\<lparr>kmem := m, hw := d, streams := sts\<rparr>" using kp by blast
    show "kernel_heap s3 = kernel_heap s" "processes s3 = processes s" using h2 x2(3) by (simp_all add: e)
    show "task_head s3 = task_head s" "task_tail s3 = task_tail s" using extends_task_vars [OF s2(1)] by (simp_all add: e)
  qed
  have l3: "klive s3 r = Some j" if "klive ?s2 r = Some j" for r j using kp that by (metis domI map_le_def)
  have ts: "klive s t = Some 1" if "t \<in> set ts" for t using assms(11) that by (simp add: tasks_inv_def)
  have ts2: "klive ?s2 t = Some 1" if "t \<in> set ts" for t using extends_live [OF s2(1) ts [OF that]] .
  have "tasks_inv s3 ts"
  proof (rule tasks_inv_frame [OF assms(11) L(4) h3(2,3)])
    fix t assume t: "t \<in> set ts"
    show "klive s3 t = Some 1" by (rule l3 [OF ts2 [OF t]])
    fix x assume x: "in_range t 4096 x"
    have "held ?s2 x" using held_page [OF s2(2) ts2 [OF t]] x by simp
    moreover have "\<not> in_range (stat_local ?s2) 8 x" using assms(12) t x x2(1) by auto
    ultimately have "kmem s3 x = kmem ?s2 x" using kp by blast
    also have "\<dots> = kmem s x" by (rule extends_page [OF s2(1) ok ts [OF t] x])
    finally show "kmem s3 x = kmem s x" .
  qed
  moreover have p3: "klive s3 p = Some 3" using l3 p1 s2(3) by simp
  moreover have "p \<noteq> em" "f \<notin> set ts" "em \<notin> set ts" using el p1 s2(3) ts2 by auto
  ultimately have P3: "prepared p f em bytes ts s3" using el L(4) by (simp add: prepared_def)
  have keep3: "keeps_held s ts s3"
  proof (rule keeps_step [OF keep2])
    show "kernel_heap s3 = kernel_heap ?s2" "klive ?s2 \<subseteq>\<^sub>m klive s3" using h2 h3(1) kp by simp_all
    show "kmem s3 x = kmem ?s2 x" if "held ?s2 x" "\<not> in_range (stat_local s) 8 x" for x using kp that x2(1) by simp
  qed
  have clear3: "kmem s3 x = 0" if x: "in_range p 9364 x" for x
  proof -
    have i: "in_range p (3 * 4096) x" using in_range_mono [OF x] by simp
    have "held ?s2 x" using held_page [OF s2(2) _ i] p1 s2(3) by simp
    moreover have "\<not> in_range (stat_local s) 8 x"
      using held_fresh [OF k(2) p1 k(3)] k(1) assms(3) i extends_heap [OF k(1)] by (auto simp: load_buffers_def extends_def)
    ultimately show ?thesis using kp x2(1) clear [OF x] by simp
  qed
  have "get_field p j s3 = 0" if "unat j < 2341" for j
    unfolding get_field_def word_at_def
    by (rule load32_zero) (use clear3 field_slot [of p j _ 2341] that in simp)
  then have nb: "no_buffers p (set_field p process_ptr f (set_file_type p PROCESS_FILETYPE_ELF s3))"
    unfolding no_buffers_def
  proof (intro allI impI)
    fix j :: u32 assume "unat j < 2077"
    moreover from this have "j \<noteq> 2077" "j \<noteq> 2078" by auto
    ultimately show "get_field p j (set_field p process_ptr f (set_file_type p PROCESS_FILETYPE_ELF s3)) = 0"
      using \<open>\<And>j. unat j < 2341 \<Longrightarrow> get_field p j s3 = 0\<close> by (simp add: get_set_field process_ptr_def set_file_type_other)
  qed
  let ?s4 = "set_field p process_ptr f (set_file_type p PROCESS_FILETYPE_ELF s3)"
  have m4: "?s4 = s3\<lparr>kmem := kmem ?s4\<rparr>" by (simp add: set_field_def set_file_type_def)
  have o4: "kmem ?s4 x = kmem s3 x" if "\<not> in_range p (3 * 4096) x" for x
  proof -
    have "in_range p (3 * 4096) (p + 8308)" by (simp add: in_range_def)
    then have "x \<noteq> p + 8308" using that by blast
    then show ?thesis using set_field_outside [of p 3072 x process_ptr f "set_file_type p PROCESS_FILETYPE_ELF s3"] that
      by (simp add: process_ptr_def set_file_type_def)
  qed
  note W = prepared_write [OF P3 len(2) m4 o4]
  have "process_load_data ops filename p ?s2 = Some (0, ?s4)"
    using L(1) by (simp add: process_load_data_def process_load_elf_def EINFORMAT_def)
  moreover have "process_file_type (kmem ?s4) p = PROCESS_FILETYPE_ELF"
    by (subst file_type_set_field) (simp_all add: process_ptr_def set_file_type_def process_file_type_def)
  moreover have "get_field p process_ptr ?s4 = f" by (simp add: get_set_field process_ptr_def)
  moreover have "kernel_heap ?s4 = kernel_heap s" "processes ?s4 = processes s" by (subst m4, simp add: h3)+
  moreover have "kavail s = kavail ?s4 + 3 + ?n + 2 + 2 * ?l" using k(5) s2(4) L(5) W(3) by simp
  moreover have "keeps_held s ts ?s4"
    by (rule keeps_write [OF keep3 L(4) p3 k(3) _ W(2)]) (use kmem_only_heap [OF m4] o4 in simp_all)
  moreover have "klive s f = None" "klive s em = None"
    using el extends_live [OF s2(1), of f] extends_live [OF s2(1), of em] by (cases "klive s f"; cases "klive s em"; simp)+
  ultimately show ?thesis using z W(1) k(3,6) nb
    by (intro exI [of _ p] exI [of _ s1] exI [of _ f] exI [of _ em] exI [of _ ?s4]) simp
qed

text \<open>The task, and the process that owns it.\<close>

lemma prepared_entry:
  assumes "prepared p f em bytes ts s" "length bytes < 2 ^ 31" "52 \<le> length bytes" "get_field p process_ptr s = f"
    "process_file_type (kmem s) p = PROCESS_FILETYPE_ELF"
  shows "program_entry p s = e_entry (image_mem bytes) 0" "program_held p s"
proof -
  note a = assms(1) [unfolded prepared_def]
  have hd: "elf_header f s = em" using a by (simp add: elf_header_def elf_memory_def)
  have "e_entry (kmem s) em = e_entry (image_mem bytes) 0"
    using file_words(3) [of "kmem s" em bytes 24] a assms(2,3) by (simp add: e_entry_def)
  then show "program_entry p s = e_entry (image_mem bytes) 0" using assms(4,5) hd by (simp add: program_entry_def)
  have "held s x" if "in_range p 9364 x" for x
    using held_page [of s p 3 x] a in_range_mono [OF that, of "3 * 4096"] by simp
  moreover have "held s x" if "in_range f 132 x" for x
    using held_page [of s f 1 x] a in_range_mono [OF that, of 4096] by simp
  moreover have "held s x" if "in_range em 52 x" for x
    using held_page [of s em _ x] a in_range_mono [OF that, of "blocks_of (of_nat (length bytes)) * 4096"] length_blocks [OF assms(2)] assms(3) by simp
  ultimately show "program_held p s" using assms(4) hd by (simp add: program_held_def)
qed

lemma task_given:
  fixes s :: "('d, 'a) process_state_scheme"
  assumes "prepared p f em bytes ts s" "length bytes < 2 ^ 31" "52 \<le> length bytes" "get_field p process_ptr s = f"
    "process_file_type (kmem s) p = PROCESS_FILETYPE_ELF" "1027 \<le> kavail s"
  shows "\<exists>t s1 s2. task_new p s = (t, s1) \<and> s2 = set_field p process_task t s1 \<and> t \<noteq> NULL \<and> process_ok p s2 \<and> get_field p process_task s2 = t
    \<and> image_beside p f em bytes s2 \<and> tasks_inv s2 (ts @ [t]) \<and> (\<forall>q \<in> set (ts @ [t]). q \<notin> space_pages (process_directory p s2) s2)
    \<and> task_ready t p (e_entry (image_mem bytes) 0) s2 \<and> process_file_type (kmem s2) p = PROCESS_FILETYPE_ELF
    \<and> (\<forall>i. unat i < 3072 \<longrightarrow> i \<noteq> process_task \<longrightarrow> get_field p i s2 = get_field p i s) \<and> processes s2 = processes s
    \<and> kernel_heap s2 = kernel_heap s \<and> klive s \<subseteq>\<^sub>m klive s2 \<and> klive s t = None \<and> kavail s = kavail s2 + 1027
    \<and> (\<forall>q \<in> space_pages (process_directory p s2) s2. klive s q = None) \<and> process_id (kmem s2) p = process_id (kmem s) p
    \<and> (\<forall>x. held s x \<longrightarrow> (\<forall>q \<in> set ts. \<not> in_range q 4096 x) \<longrightarrow> \<not> in_range p (3 * 4096) x \<longrightarrow> kmem s2 x = kmem s x)"
proof -
  note a = assms(1) [unfolded prepared_def] and E = prepared_entry [OF assms(1-5)]
  have inv: "tasks_inv s ts" using a by simp
  obtain t s1 where T: "task_new p s = (t, s1)" "klive s t = None" "tasks_inv s1 (ts @ [t])" "task_ready t p (e_entry (image_mem bytes) 0) s1"
      "space_ok (get_field t task_page_directory s1) s1" "klive s \<subseteq>\<^sub>m klive s1" "klive s1 t = Some 1" "t \<notin> space_pages (get_field t task_page_directory s1) s1"
      "\<forall>q \<in> space_pages (get_field t task_page_directory s1) s1. klive s q = None" "kavail s = kavail s1 + 1027"
      "\<exists>m h tl cu. s1 = s\<lparr>kmem := m, task_head := h, task_tail := tl, current_task := cu\<rparr>"
      "\<forall>x. held s x \<longrightarrow> (\<forall>q \<in> set ts. \<not> in_range q 4096 x) \<longrightarrow> kmem s1 x = kmem s x"
    using task_new_law [OF inv assms(6) E(2)] unfolding E(1) by blast
  have ok: "kheap_ok s" "kheap_ok s1" using a T(3) by (simp_all add: tasks_inv_def)
  have ts: "klive s q = Some 1" if "q \<in> set ts" for q using inv that by (simp add: tasks_inv_def)
  have l1: "klive s1 q = Some n" if "klive s q = Some n" for q n using T(6) that by (metis domI map_le_def)
  have same1: "kmem s1 x = kmem s x" if "klive s q = Some n" "q \<notin> set ts" "in_range q (n * 4096) x" for q n x
  proof -
    have "\<not> in_range r 4096 x" if "r \<in> set ts" for r
      using klive_disjoint [OF ok(1) \<open>klive s q = Some n\<close> ts [OF that]] \<open>q \<notin> set ts\<close> \<open>in_range q (n * 4096) x\<close> that
      by (auto simp: disjoint_ranges_def)
    then show ?thesis using T(12) held_page [OF ok(1) that(1,3)] by blast
  qed
  let ?c = "get_field t task_page_directory s1" and ?s2 = "set_field p process_task t s1"
  have pts: "p \<notin> set ts" "p \<noteq> t" "p \<noteq> f" "p \<noteq> em" using a ts T(2) by auto
  have p1: "klive s1 p = Some 3" "p \<notin> space_pages ?c s1" using l1 a T(9) by auto
  have k2: "kernel_heap ?s2 = kernel_heap s1" "\<And>x. \<not> in_range p (3 * 4096) x \<Longrightarrow> kmem ?s2 x = kmem s1 x"
    using set_field_outside [of p 3072 _ process_task t s1] by (simp_all add: set_field_def process_task_def)
  note S = space_store [OF T(5) p1 k2]
  have t2: "get_field t i ?s2 = get_field t i s1" if "unat i < 1024" for i
    using other_allocation(2) [OF ok(2) T(7) p1(1) _ _, of ?s2 i] k2(2) pts(2) that by auto
  have pt: "get_field p process_task ?s2 = t" by (simp add: get_set_field process_task_def)
  have dir: "process_directory p ?s2 = ?c" using t2 [of task_page_directory] pt by (simp add: process_directory_def task_offsets)
  have pages: "space_pages (process_directory p ?s2) ?s2 = space_pages ?c s1" using S(2) dir by simp
  have "process_ok p ?s2" using S(1,4,5) p1(1) T(7,8) dir pt pages by (simp add: process_ok_def)
  moreover have mem: "kmem ?s2 x = kmem s x" if "q \<in> {f, em}" "klive s q = Some n" "in_range q (n * 4096) x" for q n x
  proof -
    have "q \<notin> set ts" "q \<noteq> p" using that(1) a pts by auto
    then show ?thesis using same1 [OF that(2) _ that(3)] other_allocation(1) [OF ok(2) l1 [OF that(2)] p1(1) _ _ that(3), of ?s2] k2(2) by simp
  qed
  have "image_beside p f em bytes ?s2"
    unfolding image_beside_def pages
  proof (intro conjI)
    show "elf_memory f ?s2 = em" using ef_range_cong(2) [of f ?s2 s] mem [of f 1] a by simp
    show "klive ?s2 f = Some 1" "klive ?s2 em = Some (blocks_of (of_nat (length bytes)))" using S(5) l1 a by simp_all
    show "f \<notin> space_pages ?c s1" "em \<notin> space_pages ?c s1" using T(9) a by auto
    have "bytes_at (kmem ?s2) em (length bytes) = bytes_at (kmem s) em (length bytes)"
    proof (rule bytes_at_cong)
      fix x assume "in_range em (length bytes) x"
      then show "kmem ?s2 x = kmem s x" using mem [of em] a in_range_mono [OF _ length_blocks [OF assms(2)]] by simp
    qed (use assms(2) in simp)
    then show "bytes_at (kmem ?s2) em (length bytes) = bytes" using a by simp
  qed
  moreover have "tasks_inv ?s2 (ts @ [t])"
  proof (rule tasks_inv_frame [OF T(3) S(4)])
    show "task_head ?s2 = task_head s1" "task_tail ?s2 = task_tail s1" by (simp_all add: set_field_def)
    fix q assume q: "q \<in> set (ts @ [t])"
    then have q1: "klive s1 q = Some 1" using T(3) by (auto simp: tasks_inv_def)
    then show "klive ?s2 q = Some 1" using S(5) by simp
    fix x assume "in_range q 4096 x"
    moreover have "q \<noteq> p" using q pts by auto
    ultimately show "kmem ?s2 x = kmem s1 x" using other_allocation(1) [OF ok(2) q1 p1(1) _ _, of ?s2 x] k2(2) by simp
  qed
  moreover have "\<forall>q \<in> set (ts @ [t]). q \<notin> space_pages (process_directory p ?s2) ?s2" unfolding pages using ts T(8,9) by auto
  moreover have "task_ready t p (e_entry (image_mem bytes) 0) ?s2" using T(4) t2 by (simp add: task_ready_def task_process_def reg_offsets)
  moreover have "t \<noteq> NULL" using T(3) by (simp add: tasks_inv_def task_list_def task_links_def)
  moreover have pm: "kmem s1 x = kmem s x" if "in_range p (3 * 4096) x" for x using same1 [of p 3 x] that a pts by simp
  have "get_field p i ?s2 = get_field p i s" if "unat i < 3072" "i \<noteq> process_task" for i
    using process_fields_cong [OF pm that(1)] that by (simp add: get_set_field process_task_def)
  moreover have "process_file_type (kmem ?s2) p = PROCESS_FILETYPE_ELF"
  proof -
    have "process_file_type (kmem ?s2) p = process_file_type (kmem s1) p" by (rule file_type_set_field) (simp_all add: process_task_def)
    also have "\<dots> = process_file_type (kmem s) p"
      using pm [of "p + 8308"] by (simp add: process_file_type_def in_range_def)
    finally show ?thesis using assms(5) by simp
  qed
  moreover have "processes ?s2 = processes s" "kernel_heap ?s2 = kernel_heap s" using T(11) by (auto simp: set_field_def)
  moreover have "process_id (kmem ?s2) p = process_id (kmem s) p"
  proof -
    have "kmem ?s2 (p + of_nat j) = kmem s1 (p + of_nat j)" if "j < 2" for j
      using in_range_offset [of j 112 4 p] that by (simp add: set_field_def set_word_def store32_other process_task_def)
    from this [of 0] this [of 1] show ?thesis
      using pm [of p] pm [of "p + 1"] by (simp add: process_id_def load16_def in_range_def)
  qed
  moreover have "kmem ?s2 x = kmem s x" if "held s x" "\<forall>q \<in> set ts. \<not> in_range q 4096 x" "\<not> in_range p (3 * 4096) x" for x
    using T(12) k2(2) that by simp
  moreover have "kavail s = kavail ?s2 + 1027" "\<forall>q \<in> space_pages (process_directory p ?s2) ?s2. klive s q = None"
    unfolding pages using T(9,10) S(6) by simp_all
  ultimately show ?thesis using T(1,2,6) pt S(5) by (intro exI [of _ t] exI [of _ s1] exI [of _ ?s2]) simp
qed

text \<open>
  The process at \<open>p\<close> is loaded: its task starts at the program's entry point with an empty stack, the stack is mapped, and
  at the addresses the program was linked for, it finds the bytes of its file.
\<close>

definition program_visible :: "addr \<Rightarrow> u8 list \<Rightarrow> 'a kheap_state_scheme \<Rightarrow> bool" where
  "program_visible p bytes s \<longleftrightarrow> (\<forall>i < header_count bytes.
     let m = image_mem bytes; ph = file_header_at bytes i in
     unat (p_vaddr m ph) mod 4096 = unat (p_offset m ph) mod 4096 \<longrightarrow>
     (\<forall>j < unat (p_memsz m ph). unat (p_offset m ph) + j < length bytes \<longrightarrow>
        kmem s (user_address p (p_vaddr m ph + of_nat j) s) = bytes ! (unat (p_offset m ph) + j)))"

definition launched :: "addr \<Rightarrow> u8 list \<Rightarrow> 'a kheap_state_scheme \<Rightarrow> bool" where
  "launched p bytes s \<longleftrightarrow> process_ok p s \<and> task_ready (get_field p process_task s) p (e_entry (image_mem bytes) 0) s
     \<and> stack_mapped p (get_field p process_stack s) s \<and> program_visible p bytes s"

lemma live_low:
  assumes "kheap_ok s" "klive s p = Some n" "unat (saddr (kernel_heap s)) + heap_blocks (kernel_heap s) * 4096 \<le> 2 ^ 31" "0 < n"
  shows "unat p < 2 ^ 31"
proof -
  have "unat p + n * 4096 \<le> unat (saddr (kernel_heap s)) + heap_blocks (kernel_heap s) * 4096"
    using heap_live_addr(5) [of "kernel_heap s" "kmem s" p n] assms(1,2) by (simp add: kheap_ok_def klive_def)
  moreover have "0 < n * 4096" using assms(4) by simp
  ultimately show ?thesis using assms(3) by linarith
qed

lemma mapped_visible:
  assumes "image_beside p f em bytes s" "length bytes < 2 ^ 31" "unat em mod 4096 = 0" "unat em < 2 ^ 31" "mappable bytes"
    "\<forall>i < header_count bytes. segment_mapped p em bytes (file_header_at bytes i) s"
  shows "program_visible p bytes s"
  unfolding program_visible_def Let_def
proof (intro allI impI)
  fix i j
  let ?ph = "file_header_at bytes i" and ?m = "image_mem bytes"
  assume i: "i < header_count bytes" and c: "unat (p_vaddr ?m ?ph) mod 4096 = unat (p_offset ?m ?ph) mod 4096"
    and j: "j < unat (p_memsz ?m ?ph)" "unat (p_offset ?m ?ph) + j < length bytes"
  have "unat (p_offset ?m ?ph) + unat (p_memsz ?m ?ph) < 2 ^ 30" using assms(5) i by (simp add: mappable_def)
  then have "user_address p (p_vaddr ?m ?ph + of_nat j) s = em + p_offset ?m ?ph + of_nat j"
    using segment_address [OF _ assms(3,4) _ c j(1)] assms(6) i by blast
  also have "\<dots> = em + of_nat (unat (p_offset ?m ?ph) + j)" by simp
  finally have u: "user_address p (p_vaddr ?m ?ph + of_nat j) s = em + of_nat (unat (p_offset ?m ?ph) + j)" .
  have "bytes ! (unat (p_offset ?m ?ph) + j) = bytes_at (kmem s) em (length bytes) ! (unat (p_offset ?m ?ph) + j)"
    using assms(1) by (simp add: image_beside_def)
  also have "\<dots> = kmem s (em + of_nat (unat (p_offset ?m ?ph) + j))" using j(2) by (rule nth_bytes_at)
  finally show "kmem s (user_address p (p_vaddr ?m ?ph + of_nat j) s) = bytes ! (unat (p_offset ?m ?ph) + j)" unfolding u by simp
qed

lemma launched_same:
  assumes "kmem s' = kmem s" "kernel_heap s' = kernel_heap s"
  shows "launched p bytes s' = launched p bytes s"
proof -
  note h = same_heap [OF assms]
  have d: "process_directory p s' = process_directory p s" by (simp add: process_directory_def h)
  have "process_ok p s' = process_ok p s" by (simp add: process_ok_def h d)
  moreover have "user_address p va s' = user_address p va s" for va
    by (simp add: user_address_def d assms paging_get_physical_address_def paging_get_def)
  ultimately show ?thesis
    by (simp add: launched_def stack_mapped_def process_lookup_def program_visible_def Let_def h d assms)
qed

text \<open>What a process of a program owns, and that its parts are distinct.\<close>

definition process_whole :: "addr \<Rightarrow> 'a kheap_state_scheme \<Rightarrow> bool" where
  "process_whole p s \<longleftrightarrow> entries_ok p s \<and> process_file_type (kmem s) p = PROCESS_FILETYPE_ELF
     \<and> (\<forall>q \<in> insert (get_field p process_stack s) (image_pages p s). klive s q \<noteq> None \<and> q \<notin> process_parts p s \<and> q \<notin> buffers p 1024 s)
     \<and> get_field p process_stack s \<notin> image_pages p s \<and> get_field (get_field p process_ptr s) ef_elf_memory s \<noteq> get_field p process_ptr s"

lemma whole_complete:
  "process_ok p s \<Longrightarrow> process_whole p s \<Longrightarrow> kernel_heap s = kernel_heap boot_state \<Longrightarrow> kmem s 0x6E00 AND 0x80 = 0 \<Longrightarrow> process_complete p s"
  by (simp add: process_whole_def process_complete_def)

lemma process_whole_law:
  assumes "process_ok p s" "no_buffers p s" "process_file_type (kmem s) p = PROCESS_FILETYPE_ELF" "get_field p process_ptr s = f"
    "get_field p process_stack s = stk" "get_field p process_task s = t" "image_beside p f em bytes s" "klive s stk = Some 4"
    "distinct [stk, f, em]" "{stk, f, em} \<inter> process_parts p s = {}"
  shows "process_whole p s" "process_owned p s = {stk, f, em, t} \<union> space_pages (process_directory p s) s"
    "(\<Sum>q\<in>process_owned p s. the (klive s q)) = blocks_of (of_nat (length bytes)) + 1032"
proof -
  note i = assms(7) [unfolded image_beside_def]
  have ok: "kheap_ok s" "space_ok (process_directory p s) s" "klive s t = Some 1" "t \<notin> space_pages (process_directory p s) s"
    using assms(1,6) by (simp_all add: process_ok_def)
  have z: "allocation p j s = (NULL, 0)" if "j < 1024" for j
    using assms(2) unat_allocation [OF that] that by (simp add: allocation_def no_buffers_def)
  then have e: "entries_ok p s" by (simp add: entries_ok_def)
  have b: "buffers p 1024 s = {}" using z by (auto simp: buffers_def)
  have "f \<noteq> NULL" using klive_nonnull [OF ok(1), of f] i by auto
  moreover have em: "get_field f ef_elf_memory s = em" using i by (simp add: elf_memory_def)
  ultimately have ip: "image_pages p s = {f, em}"
    using assms(3,4) by (simp add: image_pages_def Let_def PROCESS_FILETYPE_ELF_def PROCESS_FILETYPE_BINARY_def)
  show "process_whole p s"
    using e assms(3-5,8-10) i em by (auto simp: process_whole_def ip b)
  show o: "process_owned p s = {stk, f, em, t} \<union> space_pages (process_directory p s) s"
    using assms(5,6) by (auto simp: process_owned_def b ip)
  have t: "t \<in> process_parts p s" "space_pages (process_directory p s) s \<subseteq> process_parts p s" using assms(6) by (auto simp: process_parts_def)
  have "finite (space_pages (process_directory p s) s)" by simp
  moreover have "{stk, f, em, t} \<inter> space_pages (process_directory p s) s = {}" using assms(10) t ok(4) by auto
  ultimately have "(\<Sum>q\<in>process_owned p s. the (klive s q)) = (\<Sum>q\<in>{stk, f, em, t}. the (klive s q)) + 1026"
    unfolding o by (subst sum.union_disjoint) (simp_all add: paging_free_4gb_law(2) [OF ok(2)])
  moreover have "t \<notin> {stk, f, em}" using assms(10) t by auto
  then have "(\<Sum>q\<in>{stk, f, em, t}. the (klive s q)) = blocks_of (of_nat (length bytes)) + 6"
    using assms(8,9) i ok(3) by auto
  ultimately show "(\<Sum>q\<in>process_owned p s. the (klive s q)) = blocks_of (of_nat (length bytes)) + 1032" by simp
qed

lemma whole_same:
  assumes "kmem s' = kmem s" "kernel_heap s' = kernel_heap s"
  shows "process_whole p s' = process_whole p s"
proof -
  note h = same_heap(1-4,8) [OF assms]
  have d: "process_directory p s' = process_directory p s" by (simp add: process_directory_def h)
  have a: "allocation p i s' = allocation p i s" for i by (simp add: allocation_def h)
  show ?thesis
    by (simp add: process_whole_def entries_ok_def process_parts_def image_pages_def buffers_def Let_def h d a assms)
qed

text \<open>
  \<open>process_made\<close>: since \<open>s0\<close> the structure \<open>p\<close>, the record \<open>f\<close> and the image \<open>em\<close> of the program, the stack and the task of a process
  have been made, all of them new and distinct.
\<close>

definition process_made :: "addr \<Rightarrow> addr \<Rightarrow> addr \<Rightarrow> addr \<Rightarrow> addr \<Rightarrow> u8 list \<Rightarrow> addr list \<Rightarrow> nat \<Rightarrow>
    ('d, 'a) task_state_scheme \<Rightarrow> ('d, 'a) task_state_scheme \<Rightarrow> bool" where
  "process_made p f em stk t bytes ts k s0 s \<longleftrightarrow> process_ok p s \<and> get_field p process_task s = t \<and> get_field p process_ptr s = f
     \<and> get_field p process_stack s = stk \<and> process_file_type (kmem s) p = PROCESS_FILETYPE_ELF \<and> process_id (kmem s) p = of_nat k \<and> no_buffers p s
     \<and> image_beside p f em bytes s \<and> klive s stk = Some 4 \<and> distinct [stk, f, em] \<and> {stk, f, em} \<inter> process_parts p s = {}
     \<and> tasks_inv s (ts @ [t]) \<and> (\<forall>q \<in> set (ts @ [t]). q \<notin> space_pages (process_directory p s) s)
     \<and> task_ready t p (e_entry (image_mem bytes) 0) s \<and> keeps_held s0 ts s
     \<and> (\<forall>q \<in> {stk, f, em} \<union> process_parts p s. klive s0 q = None)"

text \<open>Mapping leaves it like this.\<close>

lemma made_remapped:
  assumes "process_made p f em stk t bytes ts k s0 s" "remapped p s s'" "length bytes < 2 ^ 31"
  shows "process_made p f em stk t bytes ts k s0 s'"
proof -
  note m = assms(1) [unfolded process_made_def] and R = assms(2) [unfolded remapped_def space_keeps_def]
  have "process_ok p s" using m by blast
  then have ok: "process_ok p s" "kheap_ok s" "klive s p = Some 3" by (simp_all add: process_ok_def)
  have fp: "get_field p j s' = get_field p j s" if "unat j < 3072" for j by (rule remapped_field [OF ok(1) assms(2) that])
  have "p \<notin> space_pages (process_directory p s) s" using ok(1) space_live [of "process_directory p s" s p] by (auto simp: process_ok_def)
  then have pm: "kmem s' x = kmem s x" if "in_range p (3 * 4096) x" for x using remapped_mem [OF ok(1) assms(2) ok(3) _ that] by blast
  have "process_id (kmem s') p = process_id (kmem s) p" "process_file_type (kmem s') p = process_file_type (kmem s) p"
    using pm [of p] pm [of "p + 1"] pm [of "p + 8308"] by (simp_all add: process_id_def load16_def process_file_type_def in_range_def)
  moreover have "get_field p process_task s' = t" "get_field p process_ptr s' = f" "get_field p process_stack s' = stk" "no_buffers p s'"
    using m fp by (simp_all add: process_task_def process_ptr_def process_stack_def no_buffers_def)
  moreover have "image_beside p f em bytes s'" by (rule image_beside_remapped [OF ok(1) assms(2) _ assms(3)]) (use m in blast)
  moreover have parts: "process_parts p s' = process_parts p s" using R by (simp add: process_parts_def)
  have l: "klive s q = Some 1" if "q \<in> set (ts @ [t])" for q using m that by (auto simp: tasks_inv_def)
  have tm: "kmem s' x = kmem s x" if "q \<in> set (ts @ [t])" "in_range q 4096 x" for q x
  proof (rule remapped_mem [OF ok(1) assms(2) l [OF that(1)]])
    show "q \<notin> space_pages (process_directory p s) s" using m that(1) by blast
    show "in_range q (1 * 4096) x" using that(2) by simp
  qed
  have v: "task_head (s\<lparr>kmem := kmem s'\<rparr>) = task_head s" "task_tail (s\<lparr>kmem := kmem s'\<rparr>) = task_tail s" by simp_all
  moreover have "task_head s' = task_head s" "task_tail s' = task_tail s" using v R by metis+
  moreover have inv: "tasks_inv s (ts @ [t])" using m by simp
  have "tasks_inv s' (ts @ [t])" if "task_head s' = task_head s" "task_tail s' = task_tail s"
    by (rule tasks_inv_frame [OF inv _ that]) (use R l tm in \<open>simp_all add: process_ok_def\<close>)
  moreover have "get_field t i s' = get_field t i s" if "unat i < 1024" for i
    by (rule page_bytes(2) [OF _ that]) (use tm [of t] in simp)
  then have "task_ready t p (e_entry (image_mem bytes) 0) s'" using m by (simp add: task_ready_def task_process_def reg_offsets)
  moreover have "keeps_held s0 ts s'"
  proof (rule keeps_step [of s0 ts s])
    show "keeps_held s0 ts s" using m by blast
    show "kernel_heap s' = kernel_heap s" using R kmem_only_heap by blast
    show "klive s \<subseteq>\<^sub>m klive s'" using R by simp
    fix x assume x: "held s0 x"
    have "\<not> in_range r 4096 x" if "r \<in> space_pages (process_directory p s) s" for r
      using held_fresh [OF ok(2), of r 1 s0 x] space_live [OF _ that] that m x by (auto simp: process_ok_def keeps_held_def process_parts_def)
    then have "\<not> table_pages (process_directory p s) s x" by (auto simp: table_pages_def space_pages_def)
    then show "kmem s' x = kmem s x" using R by blast
  qed
  ultimately show ?thesis using m R by (simp add: process_made_def parts)
qed

text \<open>Then the program is in its place.\<close>

lemma made_mapped:
  assumes "process_made p f em stk t bytes ts k s0 s" "mappable bytes" "length bytes < 2 ^ 31" "e_phoff (image_mem bytes) 0 \<noteq> 0" "pool_low s"
  shows "\<exists>s'. process_map_memory p s = Some (0, s') \<and> remapped p s s' \<and> launched p bytes s'"
proof -
  note m = assms(1) [unfolded process_made_def]
  have pok: "process_ok p s" and ib: "image_beside p f em bytes s" and stk: "klive s stk = Some 4" using m by blast+
  have ok: "kheap_ok s" using pok by (simp add: process_ok_def)
  have len: "52 \<le> length bytes" using assms(2) by (simp add: mappable_def headers_inside_def)
  have "0 < blocks_of (of_nat (length bytes))" using len assms(3) by (intro blocks_of_pos) (auto simp: unat_of_nat take_bit_nat_eq_self)
  then have em: "unat em < 2 ^ 31" "unat em mod 4096 = 0"
    using live_low [OF ok _ assms(5) [unfolded pool_low_def]] klive_page_aligned [OF ok] ib by (auto simp: image_beside_def)
  have st: "unat stk < 2 ^ 31" "unat stk mod 4096 = 0"
    using live_low [OF ok stk assms(5) [unfolded pool_low_def]] klive_page_aligned [OF ok stk] by simp_all
  have f: "process_file_type (kmem s) p = PROCESS_FILETYPE_ELF" "get_field p process_ptr s = f" "get_field p process_stack s = stk" using m by blast+
  obtain s' where M: "process_map_memory p s = Some (0, s')" "remapped p s s'"
      "\<forall>j < header_count bytes. segment_mapped p em bytes (file_header_at bytes j) s'" "stack_mapped p stk s'"
    using map_memory_law [OF pok ib assms(2-4) em(1) f st(2,1)] by blast
  have "process_made p f em stk t bytes ts k s0 s'" by (rule made_remapped [OF assms(1) M(2) assms(3)])
  moreover have "program_visible p bytes s'"
    by (rule mapped_visible [OF image_beside_remapped [OF pok M(2) ib assms(3)] assms(3) em(2,1) assms(2) M(3)])
  ultimately show ?thesis using M by (auto simp: launched_def process_made_def)
qed

text \<open>The task completes the process.\<close>

lemma make_task:
  fixes s :: "('d, 'a) process_state_scheme"
  assumes "prepared p f em bytes ts s" "length bytes < 2 ^ 31" "52 \<le> length bytes" "get_field p process_ptr s = f"
    "process_file_type (kmem s) p = PROCESS_FILETYPE_ELF" "1027 \<le> kavail s" "get_field p process_stack s = stk" "klive s stk = Some 4"
    "no_buffers p s" "process_id (kmem s) p = of_nat k" "distinct [p, stk, f, em]" "keeps_held s0 ts s" "\<forall>q \<in> {p, stk, f, em}. klive s0 q = None"
  shows "\<exists>t s1 s2. task_new p s = (t, s1) \<and> s2 = set_field p process_task t s1 \<and> t \<noteq> NULL \<and> process_made p f em stk t bytes ts k s0 s2
    \<and> processes s2 = processes s \<and> kernel_heap s2 = kernel_heap s \<and> kavail s = kavail s2 + 1027"
proof -
  obtain t s1 s2 where T: "task_new p s = (t, s1)" "s2 = set_field p process_task t s1" "t \<noteq> NULL" "process_ok p s2" "get_field p process_task s2 = t"
      "image_beside p f em bytes s2" "tasks_inv s2 (ts @ [t])" "\<forall>q \<in> set (ts @ [t]). q \<notin> space_pages (process_directory p s2) s2"
      "task_ready t p (e_entry (image_mem bytes) 0) s2" "process_file_type (kmem s2) p = PROCESS_FILETYPE_ELF"
      "\<forall>i. unat i < 3072 \<longrightarrow> i \<noteq> process_task \<longrightarrow> get_field p i s2 = get_field p i s" "processes s2 = processes s"
      "kernel_heap s2 = kernel_heap s" "klive s \<subseteq>\<^sub>m klive s2" "klive s t = None" "kavail s = kavail s2 + 1027"
      "\<forall>q \<in> space_pages (process_directory p s2) s2. klive s q = None" "process_id (kmem s2) p = process_id (kmem s) p"
      "\<forall>x. held s x \<longrightarrow> (\<forall>q \<in> set ts. \<not> in_range q 4096 x) \<longrightarrow> \<not> in_range p (3 * 4096) x \<longrightarrow> kmem s2 x = kmem s x"
    using task_given [OF assms(1-6)] by blast
  have ok: "kheap_ok s" "klive s p = Some 3" using assms(1) by (simp_all add: prepared_def)
  have f: "get_field p process_ptr s2 = f" "get_field p process_stack s2 = stk"
    using T(11) assms(4,7) by (simp_all add: process_ptr_def process_stack_def process_task_def)
  have old: "klive s r = None \<Longrightarrow> klive s0 r = None" for r
    using assms(12) unfolding keeps_held_def map_le_def by (metis domIff)
  have keep: "keeps_held s0 ts s2"
  proof (rule keeps_step [OF assms(12) T(13,14)])
    fix x assume x: "held s0 x" "held s x" "\<forall>t \<in> set ts. \<not> in_range t 4096 x"
    have "\<not> in_range p (3 * 4096) x"
      using held_fresh [OF ok _ _ _ x(1)] assms(12,13) by (simp add: keeps_held_def)
    then show "kmem s2 x = kmem s x" using T(19) x(2,3) by blast
  qed
  have stk: "klive s2 stk = Some 4" using T(14) assms(8) by (metis domI map_le_def)
  have nb: "no_buffers p s2"
    unfolding no_buffers_def
  proof (intro allI impI)
    fix j :: u32 assume j: "29 \<le> unat j" "unat j < 2077"
    then have "j \<noteq> process_task" by (auto simp: process_task_def)
    then show "get_field p j s2 = 0" using T(11) assms(9) j by (simp add: no_buffers_def)
  qed
  have parts: "process_parts p s2 = {p, t} \<union> space_pages (process_directory p s2) s2" using T(5) by (simp add: process_parts_def)
  have "klive s r \<noteq> None" if "r \<in> {stk, f, em}" for r using that assms(1,8) by (auto simp: prepared_def)
  then have disj: "{stk, f, em} \<inter> process_parts p s2 = {}" unfolding parts using assms(11) T(15,17) by fastforce
  have new: "\<forall>q \<in> {stk, f, em} \<union> process_parts p s2. klive s0 q = None" using assms(13) T(15,17) old unfolding parts by auto
  have "process_made p f em stk t bytes ts k s0 s2"
    unfolding process_made_def using T(4-10,18) assms(10,11) f nb stk disj keep new by (intro conjI) simp_all
  then show ?thesis using T(1-3,12,13,16) by blast
qed

text \<open>All that comes before.\<close>

lemma make_process:
  fixes s :: "('d, 'a) process_state_scheme"
  assumes "ata_contract bus ata img" "volume_ready ata bus ops s pv es spc e st" "load_buffers s filename q pv" "program_file es q spc e c sz"
    "first_free (file_descriptors s) 0 = Some i" "i < 511" "disk_bytes img (cluster_pos spc e c) sz = bytes"
    "elf_validate_loaded (image_mem bytes) 0 = ALPHAOS_ALL_OK" "mappable bytes" "launch_room s (length (named q es)) sz"
    "tasks_inv s ts" "\<forall>x. in_range (stat_local s) 8 x \<longrightarrow> (\<forall>t \<in> set ts. \<not> in_range t 4096 x)"
  shows "\<exists>p s1 s4 stk s5 t s7 f em s8. kzalloc sizeof_process s = (p, s1) \<and> process_load_data ops filename p (process_init p s1) = Some (0, s4)
    \<and> kzalloc ALPHAOS_USER_PROGRAM_STACK_SIZE s4 = (stk, s5) \<and> task_new p (fill_process p filename stk k s5) = (t, s7)
    \<and> s8 = set_field p process_task t s7 \<and> p \<noteq> NULL \<and> stk \<noteq> NULL \<and> t \<noteq> NULL \<and> process_made p f em stk t bytes ts k s s8
    \<and> processes s8 = processes s \<and> kavail s = kavail s8 + blocks_of (of_nat sz) + 2 * length (named q es) + 1036"
proof -
  let ?l = "length (named q es)" and ?n = "blocks_of (of_nat sz)"
  obtain p s1 f em s4 where I: "kzalloc sizeof_process s = (p, s1)" "process_load_data ops filename p (process_init p s1) = Some (0, s4)"
      "prepared p f em bytes ts s4" "get_field p process_ptr s4 = f" "process_file_type (kmem s4) p = PROCESS_FILETYPE_ELF"
      "klive s p = None" "p \<noteq> NULL" "kernel_heap s4 = kernel_heap s" "processes s4 = processes s" "keeps_held s ts s4" "no_buffers p s4"
      "klive s f = None" "klive s em = None" "kavail s = kavail s4 + 3 + ?n + 2 + 2 * ?l"
    using process_image [OF assms(1-12)] by blast
  have len: "length bytes < 2 ^ 31" "52 \<le> length bytes" using assms(4,7) by (auto simp: program_file_def)
  have ok4: "kheap_ok s4" "klive s4 p = Some 3" using I(3) by (simp_all add: prepared_def)
  obtain stk s5 where z: "kzalloc ALPHAOS_USER_PROGRAM_STACK_SIZE s4 = (stk, s5)" by fastforce
  have sz: "unat ALPHAOS_USER_PROGRAM_STACK_SIZE = 16384" "blocks_of ALPHAOS_USER_PROGRAM_STACK_SIZE = 4"
    by (simp_all add: blocks_of_eq ALPHAOS_USER_PROGRAM_STACK_SIZE_def)
  have "kroom s4 4" by (rule launch_room_run [OF assms(10) I(8), of "3 + ?n + 2 + 2 * ?l"]) (use I(14) in simp_all)
  then have k: "extends s4 s5" "kheap_ok s5" "klive s4 stk = None" "klive s5 = (klive s4)(stk \<mapsto> 4)" "kavail s4 = kavail s5 + 4" "stk \<noteq> NULL"
    using kzalloc_extends [OF ok4(1) _ _ _ z] sz by simp_all
  obtain m5 where m5: "s5 = s4\<lparr>kmem := m5\<rparr>" using k(1) by (auto simp only: extends_def)
  have P5: "prepared p f em bytes ts s5" by (rule prepared_extends [OF I(3) len(1) k(1,2)])
  have pm5: "kmem s5 x = kmem s4 x" if "in_range p (3 * 4096) x" for x
    by (rule extends_mem [OF k(1) held_page [OF ok4(1,2) that]])
  have f5: "get_field p process_ptr s5 = f" "process_file_type (kmem s5) p = PROCESS_FILETYPE_ELF"
    using process_fields_cong [where p = p and j = process_ptr, OF pm5] I(4,5) pm5 [of "p + 8308"]
    by (simp_all add: process_ptr_def process_file_type_def in_range_def)
  let ?s6 = "fill_process p filename stk k s5"
  note F = fill_process [where p = p and filename = filename and stk = stk and slot = k and s = s5]
  note W = prepared_write [OF P5 len(1) F(5) F(1)]
  have f6: "get_field p process_ptr ?s6 = f" "process_file_type (kmem ?s6) p = PROCESS_FILETYPE_ELF" using F(3,4) f5 by simp_all
  have v6: "processes ?s6 = processes s" by (subst F(5)) (simp add: m5 I(9))
  have p5: "klive s5 p = Some 3" using P5 by (simp add: prepared_def)
  have keep6: "keeps_held s ts ?s6"
    by (rule keeps_write [OF keeps_extends [OF I(10) k(1)] k(2) p5 I(6) kmem_only_heap [OF F(5)] W(2) F(1)])
  have nb6: "no_buffers p ?s6"
    unfolding no_buffers_def
  proof (intro allI impI)
    fix j :: u32 assume j: "29 \<le> unat j" "unat j < 2077"
    then have "j \<noteq> process_stack" by (auto simp: process_stack_def)
    then have "get_field p j ?s6 = get_field p j s5" using F(6) [of j] j by simp
    also have "\<dots> = get_field p j s4" using process_fields_cong [where p = p and j = j, OF pm5] j by simp
    finally show "get_field p j ?s6 = 0" using I(11) j by (simp add: no_buffers_def)
  qed
  have "?n + 2 * ?l + 1036 \<le> kavail s" using assms(10) by (simp add: launch_room_def Let_def)
  then have av: "1027 \<le> kavail ?s6" using W(3) k(5) I(14) by simp
  have stk: "klive ?s6 stk = Some 4" "klive s stk = None"
    using W(2) k(3,4) I(10) unfolding keeps_held_def map_le_def by (simp, metis domIff)
  have d: "distinct [p, stk, f, em]" using I(3) k(3) by (auto simp: prepared_def)
  obtain t s7 s8 where "task_new p ?s6 = (t, s7)" "s8 = set_field p process_task t s7" "t \<noteq> NULL" "process_made p f em stk t bytes ts k s s8"
      "processes s8 = processes ?s6" "kavail ?s6 = kavail s8 + 1027"
    using make_task [OF W(1) len f6 av F(2) stk(1) nb6 F(7) d keep6] I(6,12,13) stk(2) by auto
  moreover from this have "kavail s = kavail s8 + ?n + 2 * ?l + 1036" using I(14) k(5) W(3) by simp
  ultimately show ?thesis using I(1,2,7) z k(6) v6
    by - (rule exI [of _ p], rule exI [of _ s1], rule exI [of _ s4], rule exI [of _ stk], rule exI [of _ s5],
      rule exI [of _ t], rule exI [of _ s7], rule exI [of _ f], rule exI [of _ em], rule exI [of _ s8], simp)
qed

lemma process_load_law:
  fixes s :: "('d, 'a) process_state_scheme"
  assumes "ata_contract bus ata img" "volume_ready ata bus ops s pv es spc e st" "load_buffers s filename q pv" "program_file es q spc e c sz"
    "first_free (file_descriptors s) 0 = Some i" "i < 511" "disk_bytes img (cluster_pos spc e c) sz = bytes"
    "elf_validate_loaded (image_mem bytes) 0 = ALPHAOS_ALL_OK" "mappable bytes" "launch_room s (length (named q es)) sz"
    "tasks_inv s ts" "\<forall>x. in_range (stat_local s) 8 x \<longrightarrow> (\<forall>t \<in> set ts. \<not> in_range t 4096 x)"
    "first_free (processes s) 0 = Some k" "length (processes s) = 12"
  shows "\<exists>p t s'. process_load ops filename out s = Some (0, p, s') \<and> klive s p = None \<and> launched p bytes s'
    \<and> tasks_inv s' (ts @ [t]) \<and> get_field p process_task s' = t \<and> processes s' = (processes s)[k := p]
    \<and> process_whole p s' \<and> process_id (kmem s') p = of_nat k \<and> keeps_held s ts s' \<and> (\<forall>q \<in> process_owned p s'. klive s q = None)
    \<and> (\<Sum>q\<in>process_owned p s'. the (klive s' q)) = blocks_of (of_nat sz) + 1032
    \<and> kavail s = kavail s' + blocks_of (of_nat sz) + 2 * length (named q es) + 1036"
proof -
  let ?l = "length (named q es)" and ?n = "blocks_of (of_nat sz)"
  obtain p s1 s4 stk s5 t s7 f em s8 where P: "kzalloc sizeof_process s = (p, s1)"
      "process_load_data ops filename p (process_init p s1) = Some (0, s4)" "kzalloc ALPHAOS_USER_PROGRAM_STACK_SIZE s4 = (stk, s5)"
      "task_new p (fill_process p filename stk k s5) = (t, s7)" "s8 = set_field p process_task t s7" "p \<noteq> NULL" "stk \<noteq> NULL" "t \<noteq> NULL"
      "process_made p f em stk t bytes ts k s s8" "processes s8 = processes s" "kavail s = kavail s8 + ?n + 2 * ?l + 1036"
    using make_process [OF assms(1-12), of k] by blast
  have len: "length bytes < 2 ^ 31" "length bytes = sz" using assms(4,7) by (auto simp: program_file_def)
  have "keeps_held s ts s8" using P(9) unfolding process_made_def by blast
  then have "pool_low s8" using assms(2) by (simp add: keeps_held_def volume_ready_def pool_low_def)
  moreover have "e_phoff (image_mem bytes) 0 \<noteq> 0"
    using assms(8) by (auto simp: elf_validate_loaded_def elf_has_program_header_def ALPHAOS_ALL_OK_def EINFORMAT_def split: if_splits)
  ultimately obtain s9 where M: "process_map_memory p s8 = Some (0, s9)" "remapped p s8 s9" "launched p bytes s9"
    using made_mapped [OF P(9) assms(9) len(1)] by blast
  have made: "process_made p f em stk t bytes ts k s s9" by (rule made_remapped [OF P(9) M(2) len(1)])
  note m = made [unfolded process_made_def]
  have r9: "s9 = s8\<lparr>kmem := kmem s9\<rparr>" "kavail s9 = kavail s8" using M(2) by (simp_all only: remapped_def space_keeps_def)
  have p9: "processes s9 = processes s" by (subst r9(1)) (simp add: P(10))
  let ?s' = "s9\<lparr>processes := (processes s)[k := p]\<rparr>"
  have same: "kmem ?s' = kmem s9" "kernel_heap ?s' = kernel_heap s9" by simp_all
  note h = same_heap [OF same]
  have free: "k < 12" "processes s ! k = NULL" using assms(13,14) by (simp_all add: first_free_Some)
  have "process_get (int k) s = NULL" "process_get_free_slot s = int k"
    using free assms(13) by (simp_all add: process_get_def process_get_free_slot_def)
  moreover have "ERROR_I t \<noteq> 0" using P(8) by (simp add: ERROR_I_def signed_eq_0_iff)
  ultimately have run: "process_load ops filename out s = Some (0, p, ?s')"
    using P(1-8) M(1) p9
    by (simp add: process_load_def process_load_for_slot_def fill_process_def Let_def P(5) [symmetric] ISERR_def)
  have W: "process_whole p s9" "process_owned p s9 = {stk, f, em, t} \<union> space_pages (process_directory p s9) s9"
      "(\<Sum>q\<in>process_owned p s9. the (klive s9 q)) = ?n + 1032"
    using process_whole_law [of p s9 f stk t em bytes] m len(2) by simp_all
  have new: "\<forall>q \<in> {stk, f, em} \<union> process_parts p s9. klive s q = None" using m by (elim conjE)
  have "get_field p process_task s9 = t" using m by (elim conjE)
  then have parts: "process_parts p s9 = {p, t} \<union> space_pages (process_directory p s9) s9" by (simp add: process_parts_def)
  have own: "process_owned p ?s' = process_owned p s9" by (rule process_complete_same(2) [OF same])
  show ?thesis
  proof (rule exI [of _ p], rule exI [of _ t], rule exI [of _ ?s'], intro conjI)
    show "process_load ops filename out s = Some (0, p, ?s')" by (rule run)
    show "klive s p = None" using m by (simp add: process_parts_def)
    show "launched p bytes ?s'" unfolding launched_same [OF same] by (rule M(3))
    show "tasks_inv ?s' (ts @ [t])"
      by (rule tasks_inv_frame [of s9]) (use m in \<open>auto simp: h tasks_inv_def\<close>)
    show "get_field p process_task ?s' = t" "process_id (kmem ?s') p = of_nat k" "keeps_held s ts ?s'" "processes ?s' = (processes s)[k := p]"
      using m by (simp_all add: h keeps_held_def)
    show "process_whole p ?s'" unfolding whole_same [OF same] by (rule W(1))
    show "\<forall>q \<in> process_owned p ?s'. klive s q = None" using new unfolding own W(2) parts by auto
    show "(\<Sum>q\<in>process_owned p ?s'. the (klive ?s' q)) = ?n + 1032" unfolding own h by (rule W(3))
    show "kavail s = kavail ?s' + ?n + 2 * ?l + 1036" unfolding h using P(11) r9(2) by simp
  qed
qed

section \<open>Properties\<close>

lemma more_tables:
  fixes s :: "('d, 'a) process_state_scheme"
  shows "file_state.more s' = file_state.more s \<Longrightarrow>
    kernel_stack s' = kernel_stack s \<and> task_head s' = task_head s \<and> task_tail s' = task_tail s \<and> processes s' = processes s"
  by (cases s; cases s') simp

lemma boot_launch_law:
  fixes s :: "('d, 'a) process_state_scheme"
  assumes "ata_contract bus ata img" "boot_ready ata bus ops s" "fat_volume img spc rs e n" "n \<le> e"
    "root_entries img rs (used_entries img (rs * 512) n) = es" "program_file es q spc (rs + dir_sectors e) c sz"
    "held_string s filename (path_string 0x30 q)" "q \<noteq> []" "slash \<notin> set q" "length q \<le> 105"
    "\<forall>x. in_range (stat_local s) 8 x \<longrightarrow> held s x \<and> (\<forall>t \<in> set ts. \<not> in_range t 4096 x)"
    "first_free (file_descriptors s) 0 = Some i" "i < 511" "disk_bytes img (cluster_pos spc (rs + dir_sectors e) c) sz = bytes"
    "elf_validate_loaded (image_mem bytes) 0 = ALPHAOS_ALL_OK" "mappable bytes"
    "(heap_blocks (kernel_heap s) - kavail s + blocks_of (of_nat sz) + 2 * length (named q es) + 15) * (blocks_of (of_nat sz) + 4)
       \<le> heap_blocks (kernel_heap s)" "blocks_of (of_nat sz) + 2 * length (named q es) + 1041 \<le> kavail s"
    "tasks_inv s ts" "first_free (processes s) 0 = Some k" "length (processes s) = 12"
  shows "\<exists>s1 p t s2. disk_search_and_init ops s = Some s1 \<and> kheap_ok s1 \<and> grows s s1 \<and> kavail s = kavail s1 + 5 \<and> tasks_inv s1 ts
    \<and> kernel_stack s1 = kernel_stack s \<and> process_load ops filename out s1 = Some (0, p, s2) \<and> klive s1 p = None \<and> launched p bytes s2
    \<and> tasks_inv s2 (ts @ [t]) \<and> get_field p process_task s2 = t \<and> processes s2 = (processes s)[k := p]
    \<and> process_whole p s2 \<and> process_id (kmem s2) p = of_nat k \<and> keeps_held s1 ts s2 \<and> (\<forall>q \<in> process_owned p s2. klive s1 q = None)
    \<and> (\<Sum>q\<in>process_owned p s2. the (klive s2 q)) = blocks_of (of_nat sz) + 1032
    \<and> kavail s1 = kavail s2 + blocks_of (of_nat sz) + 2 * length (named q es) + 1036"
proof -
  have "6 \<le> kavail s" using assms(18) by simp
  then obtain pv st s1 where M: "disk_search_and_init ops s = Some s1" "kheap_ok s1" "grows s s1" "kavail s = kavail s1 + 5" "tabs s1 = tabs s"
    and v: "klive s pv = None" "klive s1 pv = Some 1" "ata_idle ata (hw s1)" "disk_filesystem (disks s1 (disk_var s1)) = fat16_fs s"
      "mounted s1 (disk_var s1) pv spc (rs + dir_sectors e) st" "root_ready s1 (disk_var s1) pv es" "pool_low s1" "disk_var s1 \<noteq> NULL"
    using boot_root_law [OF assms(1-4)] unfolding assms(5) by blast
  have t: "file_descriptors s1 = file_descriptors s" "kernel_stack s1 = kernel_stack s" "task_head s1 = task_head s" "task_tail s1 = task_tail s"
      "processes s1 = processes s"
    using M(5) more_tables [of s1 s] by (simp_all add: tabs_def)
  have ok: "kheap_ok s" and ts: "\<forall>q \<in> set ts. klive s q = Some 1" using assms(19) by (simp_all add: tasks_inv_def)
  have buf: "load_buffers s1 filename q pv"
    using held_string_grows [OF M(3) assms(7)] assms(8-11) grows_held [OF M(3)] grows_fresh [OF M(3,2) v(2,1)] t(2)
    by (simp add: load_buffers_def stat_local_def)
  have ready: "volume_ready ata bus ops s1 pv es spc (rs + dir_sectors e) st"
    using assms(2) M(2) v by (simp add: volume_ready_def boot_ready_def)
  have le: "kavail s \<le> heap_blocks (kernel_heap s)"
    using length_filter_le [of free_entry "ktable s"] by (simp add: kavail_def ktable_def heap_blocks_def)
  have e: "heap_blocks (kernel_heap s) - kavail s1 + blocks_of (of_nat sz) + 2 * length (named q es) + 10
      = heap_blocks (kernel_heap s) - kavail s + blocks_of (of_nat sz) + 2 * length (named q es) + 15"
    using le M(4) by simp
  have "blocks_of (of_nat sz) + 2 * length (named q es) + 1036 \<le> kavail s1" using assms(18) M(4) by simp
  then have room: "launch_room s1 (length (named q es)) sz"
    unfolding launch_room_def Let_def growsD(1) [OF M(3)] e using assms(17) by (rule conjI [rotated])
  have inv: "tasks_inv s1 ts"
    by (rule tasks_inv_frame [OF assms(19) M(2) t(3,4)]) (use ts growsD(2) [OF M(3)] grows_page [OF ok _ M(3), of _ 1] in auto)
  have st: "\<forall>x. in_range (stat_local s1) 8 x \<longrightarrow> (\<forall>t \<in> set ts. \<not> in_range t 4096 x)" using assms(11) t(2) by (simp add: stat_local_def)
  have ps: "first_free (processes s1) 0 = Some k" "length (processes s1) = 12" "first_free (file_descriptors s1) 0 = Some i" using assms(12,20,21) t(1,5) by simp_all
  show ?thesis
    using process_load_law [OF assms(1) ready buf assms(6) ps(3) assms(13-16) room inv st ps(1,2), of out] M(1-4) t(2,5) inv by auto
qed

text \<open>C17: from the boot disk to a process. When the kernel has mounted its disk and loads a valid program of the root directory, it
  gets a process in the first free slot of the table. Its task is appended to the list, is ready to start at the entry point of the
  program with an empty, mapped stack, and where the program is linked for a segment, at an address that lies in its page as the
  segment lies in a page of the file, it finds the bytes of the file, through its own page tables.\<close>

theorem boot_process_load:
  fixes s :: "('d, 'a) process_state_scheme"
  assumes "ata_contract bus ata img" "boot_ready ata bus ops s" "fat_volume img spc rs e n" "n \<le> e"
    "root_entries img rs (used_entries img (rs * 512) n) = es" "program_file es q spc (rs + dir_sectors e) c sz"
    "held_string s filename (path_string 0x30 q)" "q \<noteq> []" "slash \<notin> set q" "length q \<le> 105"
    "\<forall>x. in_range (stat_local s) 8 x \<longrightarrow> held s x \<and> (\<forall>t \<in> set ts. \<not> in_range t 4096 x)"
    "first_free (file_descriptors s) 0 = Some i" "i < 511" "disk_bytes img (cluster_pos spc (rs + dir_sectors e) c) sz = bytes"
    "elf_validate_loaded (image_mem bytes) 0 = ALPHAOS_ALL_OK" "mappable bytes"
    "(heap_blocks (kernel_heap s) - kavail s + blocks_of (of_nat sz) + 2 * length (named q es) + 15) * (blocks_of (of_nat sz) + 4)
       \<le> heap_blocks (kernel_heap s)" "blocks_of (of_nat sz) + 2 * length (named q es) + 1041 \<le> kavail s"
    "tasks_inv s ts" "first_free (processes s) 0 = Some k" "length (processes s) = 12"
  shows "\<exists>s1 p t s2. disk_search_and_init ops s = Some s1 \<and> process_load ops filename out s1 = Some (0, p, s2) \<and> klive s p = None
    \<and> launched p bytes s2 \<and> tasks_inv s2 (ts @ [t]) \<and> get_field p process_task s2 = t \<and> processes s2 = (processes s)[k := p]"
proof -
  obtain s1 p t s2 where L: "disk_search_and_init ops s = Some s1" "grows s s1" "process_load ops filename out s1 = Some (0, p, s2)" "klive s1 p = None"
      "launched p bytes s2" "tasks_inv s2 (ts @ [t])" "get_field p process_task s2 = t" "processes s2 = (processes s)[k := p]"
    using boot_launch_law [OF assms, of out] by blast
  moreover have "klive s p = None" using growsD(2) [OF L(2)] L(4) by (cases "klive s p") auto
  ultimately show ?thesis by blast
qed

text \<open>The witness: the kernel without any process mounts the disk with the small program and loads it.\<close>

lemma tiny_mappable:
  "mappable tiny_elf" "header_count tiny_elf = 1" "file_header_at tiny_elf 0 = 52" "p_offset (image_mem tiny_elf) 52 = 0"
  "p_memsz (image_mem tiny_elf) 52 = 84"
proof -
  have b: "image_mem tiny_elf x = tiny_elf ! unat x" if "unat x < 84" for x
    using that tiny_elf(1) by (simp add: image_mem_def write_bytes_apply in_range_def)
  have w: "load32 (image_mem tiny_elf) 28 = 52" "load16 (image_mem tiny_elf) 44 = 1" "load32 (image_mem tiny_elf) 56 = 0"
    "load32 (image_mem tiny_elf) 72 = 84"
    by (simp_all add: load32_def load16_def b) (simp_all add: tiny_elf_def nth_append)
  show c: "header_count tiny_elf = 1" by (simp add: e_phnum_def w)
  show h: "file_header_at tiny_elf 0 = 52" by (simp add: elf_program_header_def elf_pheader_def e_phoff_def w)
  show f: "p_offset (image_mem tiny_elf) 52 = 0" "p_memsz (image_mem tiny_elf) 52 = 84"
    by (simp_all add: phdr_fields p_memsz_def word_at_def w)
  show "mappable tiny_elf"
    using tiny_elf(3,5) h f by (simp add: mappable_def c seg_first_def seg_pages_def pages_apart_def)
qed

definition launch_demo :: "sim_drive process_state" where
  "launch_demo = elf_state.extend load_demo
     \<lparr>current_task = 0, task_tail = 0, task_head = 0, current_process = 0, processes = replicate 12 0\<rparr>"

lemma launch_demo:
  "boot_ready sim_ata (sim_bus tiny_disk) (\<lambda>_. fat16_ops (sim_bus tiny_disk)) launch_demo" "kavail launch_demo = 25600"
  "heap_blocks (kernel_heap launch_demo) = 25600"
  "held_string launch_demo 0x100 (path_string 0x30 (ascii ''shell.elf''))" "\<forall>x. in_range (stat_local launch_demo) 8 x \<longrightarrow> held launch_demo x"
  "first_free (file_descriptors launch_demo) 0 = Some 0" "tasks_inv launch_demo []" "processes launch_demo = replicate 12 0"
proof -
  have c: "kmem launch_demo = kmem load_demo" "kernel_heap launch_demo = kernel_heap load_demo"
    by (simp_all add: launch_demo_def elf_state.defs)
  have f: "hw launch_demo = hw load_demo" "disk_var launch_demo = disk_var load_demo" "fat16_fs launch_demo = fat16_fs load_demo"
    "filesystems launch_demo = filesystems load_demo" "file_descriptors launch_demo = file_descriptors load_demo"
    "stat_local launch_demo = stat_local load_demo"
    by (simp_all add: launch_demo_def elf_state.defs stat_local_def)
  note h = same_core(1-3) [OF c]
  have hd: "held launch_demo x = held load_demo x" for x using core_cong [OF c] core(6) [of launch_demo x] core(6) [of load_demo x] by simp
  show "boot_ready sim_ata (sim_bus tiny_disk) (\<lambda>_. fat16_ops (sim_bus tiny_disk)) launch_demo"
    using load_demo(1) by (simp add: boot_ready_def pool_low_def c f h)
  show "kavail launch_demo = 25600" "heap_blocks (kernel_heap launch_demo) = 25600" using h load_demo(2,3) by (simp_all add: c)
  show "held_string launch_demo 0x100 (path_string 0x30 (ascii ''shell.elf''))" using load_demo(4) by (simp add: held_string_def hd c)
  show "\<forall>x. in_range (stat_local launch_demo) 8 x \<longrightarrow> held launch_demo x" using load_demo(5) by (simp add: hd f)
  show "first_free (file_descriptors launch_demo) 0 = Some 0" using load_demo(6) by (simp add: f)
  have "kheap_ok launch_demo" using load_demo(1) by (simp add: boot_ready_def h)
  then show "tasks_inv launch_demo []" by (simp add: tasks_inv_def task_list_def launch_demo_def elf_state.defs)
  show "processes launch_demo = replicate 12 0" by (simp add: launch_demo_def elf_state.defs)
qed

theorem boot_process_load_witness:
  "\<exists>s1 p s2. disk_search_and_init (\<lambda>_. fat16_ops (sim_bus tiny_disk)) launch_demo = Some s1
     \<and> process_load (\<lambda>_. fat16_ops (sim_bus tiny_disk)) 0x100 0 s1 = Some (0, p, s2) \<and> processes s2 = p # replicate 11 0
     \<and> (\<forall>j < 84. kmem s2 (user_address p (0x400000 + of_nat j) s2) = tiny_elf ! j)"
proof -
  have q: "ascii ''shell.elf'' \<noteq> []" "slash \<notin> set (ascii ''shell.elf'')" "length (ascii ''shell.elf'') \<le> 105"
    by (simp_all add: ascii_def of_char_def)
  have d: "712 + dir_sectors 64 = 716" "cluster_pos 128 716 2 = 366592" by (simp_all add: dir_sectors_def cluster_pos_def)
  have b: "blocks_of 84 = 1" by (simp add: blocks_of_eq)
  have pf: "program_file [tiny_entry] (ascii ''shell.elf'') 128 (712 + dir_sectors 64) 2 84"
    "disk_bytes tiny_disk (cluster_pos 128 (712 + dir_sectors 64) 2) 84 = tiny_elf"
    using tiny_program(1) tiny_disk(3) by (simp_all add: d)
  have room: "(heap_blocks (kernel_heap launch_demo) - kavail launch_demo + blocks_of (of_nat 84) + 2 * length (named (ascii ''shell.elf'') [tiny_entry]) + 15)
      * (blocks_of (of_nat 84) + 4) \<le> heap_blocks (kernel_heap launch_demo)"
    "blocks_of (of_nat 84) + 2 * length (named (ascii ''shell.elf'') [tiny_entry]) + 1041 \<le> kavail launch_demo"
    by (simp_all add: launch_demo(2,3) tiny_program(2) b)
  have ff: "first_free (processes launch_demo) 0 = Some 0" "length (processes launch_demo) = 12" by (simp_all add: launch_demo(8) numeral_eq_Suc)
  have st: "\<forall>x. in_range (stat_local launch_demo) 8 x \<longrightarrow> held launch_demo x \<and> (\<forall>t \<in> set []. \<not> in_range t 4096 x)" using launch_demo(5) by simp
  obtain s1 p s2 where L: "disk_search_and_init (\<lambda>_. fat16_ops (sim_bus tiny_disk)) launch_demo = Some s1"
      "process_load (\<lambda>_. fat16_ops (sim_bus tiny_disk)) 0x100 0 s1 = Some (0, p, s2)" "launched p tiny_elf s2"
      "processes s2 = (processes launch_demo)[0 := p]"
    using boot_process_load [OF sim_contract launch_demo(1) tiny_disk(1) _ tiny_disk(2) pf(1) launch_demo(4) q st launch_demo(6) _ pf(2)
      tiny_elf(2) tiny_mappable(1) room launch_demo(7) ff, of 0] by auto
  have "kmem s2 (user_address p (0x400000 + of_nat j) s2) = tiny_elf ! j" if "j < 84" for j
    using L(3) that tiny_elf(1,5) tiny_mappable(2-5) by (simp add: launched_def program_visible_def Let_def)
  moreover have "processes s2 = p # replicate 11 0" unfolding L(4) launch_demo(8) by (simp add: numeral_eq_Suc)
  ultimately show ?thesis using L(1,2) by blast
qed

end
