(* ===== verification/Heaprun.thy ===== *)
theory Heaprun
  imports Alloc
begin

text \<open>
  The kernel heap under sequences of calls: a step relation of what the rest of the kernel may do with it
  (allocate, as long as the request does not run past the block table; release what is live; write anywhere
  but in the block table), and what holds in every state it reaches from \<open>kheap_init\<close>.
\<close>

section \<open>Steps of the clients\<close>

text \<open>
  A request overruns when it is for at least one block, no run of free blocks is long enough and the last block
  of the pool is free: the search of \<open>heap_get_start_blocks\<close> then ends in a run that is too short and
  the chain is written past the end of the table. No such call is a step. Every other call of \<open>kmalloc\<close> is,
  also the one that finds no room and the one whose size rounds to no block at all (0, or above
  \<open>2^32 - 4096\<close>, where the rounding wraps); \<open>kzalloc\<close> of a wrapping size would clear memory it did
  not allocate, and is no step either.
\<close>

definition malloc_overruns :: "u32 \<Rightarrow> 'a kheap_state_scheme \<Rightarrow> bool" where
  "malloc_overruns sz s \<longleftrightarrow>
     0 < blocks_of sz \<and> \<not> kroom s (blocks_of sz) \<and> ktable s \<noteq> [] \<and> free_entry (last (ktable s))"

inductive heap_step :: "'a kheap_state_scheme \<Rightarrow> 'a kheap_state_scheme \<Rightarrow> bool" where
  malloc: "\<not> malloc_overruns sz s \<Longrightarrow> kmalloc sz s = (p, s') \<Longrightarrow> heap_step s s'"
| zalloc: "\<not> malloc_overruns sz s \<Longrightarrow> unat sz \<le> 2 ^ 32 - 4096 \<Longrightarrow> kzalloc sz s = (p, s') \<Longrightarrow> heap_step s s'"
| free: "klive s p = Some n \<Longrightarrow> heap_step s (kfree p s)"
| store: "\<not> in_table s x \<Longrightarrow> heap_step s (s\<lparr>kmem := (kmem s)(x := v)\<rparr>)"

text \<open>The calls that take no block: they leave the heap as it is.\<close>

lemma kmalloc_no_block:
  assumes "kheap_ok s" "blocks_of sz = 0" "kmalloc sz s = (p, s')"
  shows "s' = s"
proof -
  have "snd (heap_malloc (kernel_heap s) sz (kmem s)) = kmem s"
    using heap_malloc_no_block [of sz "kernel_heap s" "kmem s"] assms(1,2) by (simp add: kheap_defs heap_ok_def)
  then show ?thesis using assms(3) by (auto simp: kmalloc_def split: prod.splits)
qed

lemma kmalloc_exhausted:
  assumes "\<not> malloc_overruns sz s" "\<not> kroom s (blocks_of sz)" "0 < blocks_of sz" "kmalloc sz s = (p, s')"
  shows "p = NULL \<and> s' = s"
  using heap_malloc_exhausted [of "kernel_heap s" "kmem s" sz] assms
  by (auto simp: malloc_overruns_def kmalloc_def kroom_def ktable_def)

lemma memset_none [simp]: "memset m p v 0 = m"
  by (rule ext) (simp add: memset_apply in_range_def)

lemma malloc_cases:
  assumes "kheap_ok s" "\<not> malloc_overruns sz s" "kmalloc sz s = (p, s')"
  obtains (fit) "0 < blocks_of sz" "kroom s (blocks_of sz)" | (same) "s' = s" "p = NULL \<or> blocks_of sz = 0"
  using assms kmalloc_no_block kmalloc_exhausted by (metis gr0I)

section \<open>The abstract allocator\<close>

text \<open>
  Its state: which addresses are allocated with how many blocks, and how many blocks are free. Allocation takes a
  new address and some blocks, release gives them back.
\<close>

inductive alloc_step :: "(addr \<rightharpoonup> nat) \<times> nat \<Rightarrow> (addr \<rightharpoonup> nat) \<times> nat \<Rightarrow> bool" where
  take_blocks: "live p = None \<Longrightarrow> 0 < n \<Longrightarrow> alloc_step (live, free + n) (live(p \<mapsto> n), free)"
| give_back: "live p = Some n \<Longrightarrow> alloc_step (live, free) (live(p := None), free + n)"

definition blocks_taken :: "(addr \<rightharpoonup> nat) \<Rightarrow> nat" where
  "blocks_taken live = (\<Sum>p\<in>dom live. the (live p))"

lemma blocks_taken_upd:
  assumes "finite (dom live)" "live p = None"
  shows "blocks_taken (live(p \<mapsto> n)) = blocks_taken live + n"
proof -
  have "(\<Sum>q\<in>dom live. the ((live(p \<mapsto> n)) q)) = (\<Sum>q\<in>dom live. the (live q))"
    using assms(2) by (intro sum.cong) auto
  then show ?thesis using assms by (auto simp: blocks_taken_def domIff)
qed

lemma blocks_taken_release:
  assumes "finite (dom live)" "live p = Some n"
  shows "blocks_taken live = blocks_taken (live(p := None)) + n"
proof -
  have "live = (live(p := None))(p \<mapsto> n)" using assms(2) by auto
  then show ?thesis using blocks_taken_upd [of "live(p := None)" p n] assms(1) by (metis dom_fun_upd finite_Diff fun_upd_same)
qed

text \<open>No abstract step loses a block.\<close>

lemma alloc_step_conserves:
  assumes "alloc_step a b" "finite (dom (fst a))"
  shows "finite (dom (fst b)) \<and> snd b + blocks_taken (fst b) = snd a + blocks_taken (fst a)"
  using assms
proof (cases rule: alloc_step.cases)
  case (give_back live p n)
  then show ?thesis using assms(2) blocks_taken_release [of live p n] by simp
qed (use assms(2) in \<open>simp add: blocks_taken_upd\<close>)

definition abstract_heap :: "'a kheap_state_scheme \<Rightarrow> (addr \<rightharpoonup> nat) \<times> nat" where
  "abstract_heap s = (klive s, kavail s)"

text \<open>Every step of the heap is a step of the abstract allocator or leaves its state.\<close>

lemma heap_step_refines:
  assumes "heap_step s s'" "kheap_ok s"
  shows "kheap_ok s' \<and> kernel_heap s' = kernel_heap s
    \<and> (abstract_heap s' = abstract_heap s \<or> alloc_step (abstract_heap s) (abstract_heap s'))"
  using assms(1)
proof (cases rule: heap_step.cases)
  case (malloc sz p)
  show ?thesis
  proof (cases rule: malloc_cases [OF assms(2) malloc])
    case 1
    note law = kmalloc_law [OF assms(2) 1 malloc(2)]
    have "kernel_heap s' = kernel_heap s" using malloc(2) by (auto simp: kmalloc_heap)
    then show ?thesis
      using law 1 alloc_step.take_blocks [of "klive s" p "blocks_of sz" "kavail s'"] by (simp add: abstract_heap_def)
  qed (use assms(2) in simp)
next
  case (zalloc sz p)
  obtain s1 where k: "kmalloc sz s = (p, s1)" "s' = (if p \<noteq> 0 then s1\<lparr>kmem := memset (kmem s1) p 0 (unat sz)\<rparr> else s1)"
    using zalloc(3) by (auto simp: kzalloc_def split: prod.splits)
  show ?thesis
  proof (cases rule: malloc_cases [OF assms(2) zalloc(1) k(1)])
    case 1
    then have sz: "0 < unat sz" by (simp add: blocks_of_eq split: if_splits)
    note law = kzalloc_law(1-6) [OF assms(2) sz zalloc(2) 1(2) zalloc(3)]
    show ?thesis
      using law 1 alloc_step.take_blocks [of "klive s" p "blocks_of sz" "kavail s'"] by (simp add: abstract_heap_def)
  next
    case 2
    then have "p = NULL \<or> unat sz = 0" using zalloc(2) by (auto simp: blocks_of_eq)
    then have "s' = s" using 2(1) k(2) by (auto simp: os_defs)
    then show ?thesis using assms(2) by simp
  qed
next
  case (free p n)
  note law = kfree_law [OF assms(2) free(2)]
  show ?thesis
    using law alloc_step.give_back [of "klive s" p n "kavail s"] free by (simp add: abstract_heap_def kfree_def)
next
  case (store x v)
  have "kmem s' y = kmem s y" if "in_table s y" for y using store that by auto
  then have "kheap_ok s' = kheap_ok s" "klive s' = klive s" "kavail s' = kavail s"
    using kheap_cong [of s' s] store(1) by (simp_all add: in_table_def)
  then show ?thesis using assms(2) store(1) by (simp add: abstract_heap_def)
qed

lemma heap_run_refines:
  assumes "heap_step\<^sup>*\<^sup>* s s'" "kheap_ok s"
  shows "kheap_ok s' \<and> kernel_heap s' = kernel_heap s \<and> alloc_step\<^sup>*\<^sup>* (abstract_heap s) (abstract_heap s')"
  using assms(1)
proof (induction rule: rtranclp_induct)
  case base
  then show ?case using assms(2) by simp
next
  case (step t u)
  then show ?case using heap_step_refines [of t u] by (metis rtranclp.rtrancl_into_rtrancl)
qed

lemma alloc_run_conserves:
  assumes "alloc_step\<^sup>*\<^sup>* a b" "finite (dom (fst a))"
  shows "finite (dom (fst b)) \<and> snd b + blocks_taken (fst b) = snd a + blocks_taken (fst a)"
  using assms(1)
proof (induction rule: rtranclp_induct)
  case base
  then show ?case using assms(2) by simp
next
  case (step b c)
  then show ?case using alloc_step_conserves [of b c] by simp
qed

section \<open>Counting blocks\<close>

text \<open>In every well-formed heap, the free blocks and those of the live allocations are all there are.\<close>

lemma scan_all_free: "scan False es = Some False \<Longrightarrow> \<forall>e \<in> set es. e AND 0x40 = 0 \<Longrightarrow> filter free_entry es = es"
  by (induction es) (auto simp: free_entry_def split: if_splits)

lemma kavail_empty:
  assumes "kheap_ok s" "klive s = Map.empty"
  shows "kavail s = heap_blocks (kernel_heap s)"
proof -
  have ok: "heap_layout (kernel_heap s)" "wf_table (ktable s)" using assms(1) by (simp_all add: kheap_defs heap_ok_def)
  have len: "length (ktable s) = heap_blocks (kernel_heap s)" by (simp add: ktable_def heap_blocks_def)
  have "ktable s ! b AND 0x40 = 0" if "b < length (ktable s)" for b
  proof (rule ccontr)
    assume "ktable s ! b AND 0x40 \<noteq> 0"
    then have "live_blocks (ktable s) b \<noteq> None" using that by (simp add: live_blocks_def)
    then have "klive s (block_addr (kernel_heap s) b) \<noteq> None"
      using that len ok(1) by (simp add: klive_def heap_live_def ktable_def)
    then show False using assms(2) by simp
  qed
  then have "\<forall>e \<in> set (ktable s). e AND 0x40 = 0" by (auto simp: in_set_conv_nth)
  then have "filter free_entry (ktable s) = ktable s" using ok(2) by (intro scan_all_free) (simp_all add: wf_table_def)
  then show ?thesis using len by (simp add: kavail_def)
qed

lemma kavail_taken:
  "kheap_ok s \<Longrightarrow> kavail s + blocks_taken (klive s) = heap_blocks (kernel_heap s)"
proof (induction "card (dom (klive s))" arbitrary: s)
  case 0
  then have "klive s = Map.empty" by simp
  then show ?case using kavail_empty [OF 0(2)] by (simp add: blocks_taken_def)
next
  case (Suc k)
  then obtain p n where p: "klive s p = Some n" by (metis card.empty domIff ex_in_conv nat.distinct(1) option.exhaust)
  note law = kfree_law [OF Suc.prems p]
  have "card (dom (klive (kfree p s))) = k" using Suc.hyps(2) p law by (simp add: card_Diff_singleton domIff)
  then have "kavail (kfree p s) + blocks_taken (klive (kfree p s)) = heap_blocks (kernel_heap (kfree p s))"
    using Suc.hyps(1) law by blast
  then show ?case using law blocks_taken_release [of "klive s" p n] p by (simp add: kfree_def)
qed

lemma kavail_released:
  assumes "kheap_ok s" "kheap_ok s'" "kernel_heap s' = kernel_heap s" "klive s' = (\<lambda>q. if q \<in> P then None else klive s q)" "P \<subseteq> dom (klive s)"
  shows "kavail s' = kavail s + (\<Sum>p\<in>P. the (klive s p))"
proof -
  have d: "dom (klive s') = dom (klive s) - P" by (auto simp: assms(4) split: if_splits)
  have "blocks_taken (klive s') = (\<Sum>p\<in>dom (klive s) - P. the (klive s p))"
    unfolding blocks_taken_def d by (rule sum.cong) (auto simp: assms(4))
  then have "blocks_taken (klive s) = blocks_taken (klive s') + (\<Sum>p\<in>P. the (klive s p))"
    using sum.subset_diff [OF assms(5), of "\<lambda>p. the (klive s p)"] by (simp add: blocks_taken_def)
  then show ?thesis using kavail_taken [OF assms(1)] kavail_taken [OF assms(2)] assms(3) by simp
qed

section \<open>Properties\<close>

text \<open>C1: whatever sequence of allocation requests that do not overrun the block table (those that fit, those that find
  no room while the last block of the pool is taken and return \<open>NULL\<close>, and those that round to no block), zeroed ones of at
  most \<open>2^32 - 4096\<close> bytes (the requests that do overrun the table are the subject of the property on \<open>heap_malloc\<close> in \<open>Heap\<close>),
  of releases of live allocations and of writes outside the block table follows \<open>kheap_init\<close>, the heap stays
  well formed: the block table is one the allocator understands, every allocation is a whole number of blocks
  at a block border inside the pool, two allocations never overlap, and the free blocks and the blocks of the live
  allocations add up to the 25600 blocks of the pool. The run is also a run of the abstract allocator.\<close>

theorem heap_run_well_formed:
  assumes "heap_step\<^sup>*\<^sup>* (kheap_init s0) s"
  shows "kheap_ok s \<and> kavail s + blocks_taken (klive s) = 25600
    \<and> (\<forall>p n. klive s p = Some n \<longrightarrow> 0 < n \<and> unat p mod 4096 = 0 \<and> 0x1000000 \<le> unat p \<and> unat p + n * 4096 \<le> 0x1000000 + 25600 * 4096)
    \<and> (\<forall>p n q k. klive s p = Some n \<longrightarrow> klive s q = Some k \<longrightarrow> p \<noteq> q \<longrightarrow> disjoint_ranges p (n * 4096) q (k * 4096))
    \<and> alloc_step\<^sup>*\<^sup>* (Map.empty, 25600) (klive s, kavail s)"
proof -
  have i: "kheap_ok (kheap_init s0)" "abstract_heap (kheap_init s0) = (Map.empty, 25600)"
    using kheap_init_law [of s0] by (simp_all add: abstract_heap_def)
  note r = heap_run_refines [OF assms i(1)]
  have "kavail s + blocks_taken (klive s) = 25600"
    using alloc_run_conserves [of "abstract_heap (kheap_init s0)" "abstract_heap s"] r i(2) by (simp add: abstract_heap_def blocks_taken_def)
  moreover have "0 < n \<and> unat p mod 4096 = 0 \<and> 0x1000000 \<le> unat p \<and> unat p + n * 4096 \<le> 0x1000000 + 25600 * 4096"
    if "klive s p = Some n" for p n
  proof -
    have ok: "heap_ok (kernel_heap s) (kmem s)" using r unfolding kheap_ok_def by blast
    have lv: "heap_live (kernel_heap s) (kmem s) p = Some n" using that unfolding klive_def .
    have pos: "0 < n" using klive_nonnull [of s p n] r that by blast
    have "saddr (kernel_heap s) = 0x1000000" "heap_blocks (kernel_heap s) = 25600" using r by (simp_all add: kheap_init_eq heap_blocks_def)
    then show ?thesis using heap_live_addr [OF ok lv] pos by simp
  qed
  moreover have "disjoint_ranges p (n * 4096) q (k * 4096)" if "klive s p = Some n" "klive s q = Some k" "p \<noteq> q" for p n q k
    using klive_disjoint [of s p n q k] r that by blast
  ultimately show ?thesis using r i(2) by (simp add: abstract_heap_def)
qed

text \<open>The witness: two pages taken, the first given back.\<close>

theorem heap_run_well_formed_witness:
  "\<exists>p q s1 s2. kmalloc 1 boot_state = (p, s1) \<and> kzalloc 4096 s1 = (q, s2) \<and> kavail (kfree p s2) = 25599
    \<and> kavail (kfree p s2) + blocks_taken (klive (kfree p s2)) = 25600"
proof -
  obtain p s1 where a: "kmalloc 1 boot_state = (p, s1)" by fastforce
  obtain q s2 where b: "kzalloc 4096 s1 = (q, s2)" by fastforce
  have bl: "blocks_of 1 = 1" "blocks_of 4096 = 1" by (simp_all add: blocks_of_1)
  have A: "kheap_ok s1 \<and> klive s1 = (klive boot_state)(p \<mapsto> 1) \<and> kavail boot_state = kavail s1 + 1"
    using kmalloc_law [OF boot_heap(1) _ _ a] kroom_one [of boot_state] boot_heap bl by simp
  have ra: "kroom boot_state 1" "kroom s1 1" using kroom_one [of boot_state] kroom_one [of s1] boot_heap A by simp_all
  have B: "kheap_ok s2" "klive s1 q = None" "klive s2 = (klive s1)(q \<mapsto> 1)" "kavail s1 = kavail s2 + 1"
    using kzalloc_law(1-4) [OF _ _ _ _ b] A ra bl by simp_all
  have p: "klive s2 p = Some 1" using A B by auto
  have "heap_step boot_state s1" using heap_step.malloc [OF _ a] ra bl by (simp add: malloc_overruns_def)
  moreover have "heap_step s1 s2" using heap_step.zalloc [OF _ _ b] ra bl by (simp add: malloc_overruns_def)
  moreover have "heap_step s2 (kfree p s2)" using heap_step.free [OF p] .
  ultimately have "heap_step\<^sup>*\<^sup>* boot_state (kfree p s2)" by (meson converse_rtranclp_into_rtranclp rtranclp.rtrancl_refl)
  from heap_run_well_formed [OF this [unfolded boot_state_def]] have "kavail (kfree p s2) + blocks_taken (klive (kfree p s2)) = 25600" by blast
  moreover have "kavail (kfree p s2) = 25599" using kfree_law [OF B(1) p] A B boot_heap(2) by simp
  ultimately show ?thesis using a b by blast
qed

end
