(* ===== verification/Life.thy ===== *)
theory Life
  imports Launch Heaprun
begin

text \<open>
  The whole life of a process: what \<open>process_load\<close> of \<^verbatim>\<open>task/process.c\<close> made, \<open>process_terminate\<close> takes apart again. Together
  they show what a program leaves behind when it has come and gone.
\<close>

section \<open>The end of a loaded process\<close>

text \<open>A loaded process is complete in the sense of \<open>process_terminate\<close>.\<close>

lemma launched_complete:
  assumes "launched p bytes s" "process_whole p s" "keeps_held s1 ts s" "kernel_heap s1 = kernel_heap boot_state" "kmem s1 0x6E00 AND 0x80 = 0"
    "\<not> in_range (stat_local s1) 8 0x6E00" "tasks_inv s1 ts"
  shows "process_complete p s"
proof -
  note k = assms(3) [unfolded keeps_held_def]
  have low: "\<not> in_pool s1 0x6E00" "\<not> in_table s1 0x6E00" by (rule boot_layout(1,2) [OF assms(4)])+
  have ok1: "kheap_ok s1" using assms(7) by (simp add: tasks_inv_def)
  have "\<not> in_range t 4096 0x6E00" if "t \<in> set ts" for t
    using klive_in_pool(1) [OF ok1, of t 1 "0x6E00"] low(1) that assms(7) by (auto simp: tasks_inv_def)
  moreover have "held s1 0x6E00" using low by (simp add: held_def)
  ultimately have "kmem s 0x6E00 = kmem s1 0x6E00" using k assms(6) by blast
  then show ?thesis using whole_complete [OF _ assms(2)] assms(1,4,5) k by (simp add: launched_def)
qed

lemma ended_process:
  fixes s :: "('d, 'a) process_state_scheme"
  assumes "launched p bytes s" "process_whole p s" "keeps_held s1 ts s" "kernel_heap s1 = kernel_heap boot_state" "kmem s1 0x6E00 AND 0x80 = 0"
    "\<not> in_range (stat_local s1) 8 0x6E00" "tasks_inv s1 ts" "tasks_inv s (ts @ [get_field p process_task s])" "ts \<noteq> []"
    "\<forall>q \<in> process_owned p s. klive s1 q = None" "process_id (kmem s) p = of_nat k" "k < 12"
    "processes s = ps[k := p]" "ps ! k = NULL" "first_process ps = Some r"
  shows "\<exists>s'. process_terminate p s = Some (0, s') \<and> kheap_ok s' \<and> task_list s' ts \<and> processes s' = ps \<and> klive s1 \<subseteq>\<^sub>m klive s'
    \<and> klive s' p = Some 3 \<and> (\<forall>q \<in> process_owned p s. klive s' q = None)
    \<and> kavail s' = kavail s + (\<Sum>q\<in>process_owned p s. the (klive s q))"
proof -
  have pc: "process_complete p s" by (rule launched_complete [OF assms(1-7)])
  have ok: "kheap_ok s" "klive s p = Some 3" using pc by (simp_all add: process_complete_def process_ok_def)
  have "klive s1 t = Some 1" if "t \<in> set ts" for t using assms(7) that by (simp add: tasks_inv_def)
  then have apart: "set ts \<inter> process_owned p s = {}" using assms(10) by fastforce
  have id: "unat (process_id (kmem s) p) = k" using assms(11,12) by (simp add: unat_of_nat take_bit_nat_eq_self)
  have ps: "(processes s)[unat (process_id (kmem s) p) := NULL] = ps"
    unfolding id assms(13) using assms(14) list_update_id [of ps k] by simp
  obtain s' where T: "process_terminate p s = Some (0, s')" "kheap_ok s'" "klive s' = (\<lambda>q. if q \<in> process_owned p s then None else klive s q)"
      "task_list s' ts" "processes s' = ps" "kernel_heap s' = kernel_heap s"
    using process_terminate_law [OF pc assms(8,9) apart, of r] assms(15) unfolding ps by blast
  have live: "process_owned p s \<subseteq> dom (klive s)"
  proof
    fix q assume q: "q \<in> process_owned p s"
    then consider "q \<in> buffers p 1024 s" | "q \<in> insert (get_field p process_stack s) (image_pages p s)" | "q = get_field p process_task s"
      | "q \<in> space_pages (process_directory p s) s" by (auto simp: process_owned_def)
    then show "q \<in> dom (klive s)"
    proof cases
      case 1
      then obtain i where i: "i < 1024" "fst (allocation p i s) = q" "q \<noteq> NULL" by (auto simp: buffers_def)
      have "allocation p i s = (q, snd (allocation p i s))" using i(2) by (simp add: prod_eq_iff)
      then show ?thesis using entries_okD(2) [OF _ i(1) _ i(3)] pc by (auto simp: process_complete_def)
    next
      case 2
      then show ?thesis using pc by (auto simp: process_complete_def)
    next
      case 3
      then show ?thesis using pc by (auto simp: process_complete_def process_ok_def)
    next
      case 4
      then show ?thesis using pc space_live [of "process_directory p s" s q] by (auto simp: process_complete_def process_ok_def)
    qed
  qed
  have "klive s1 \<subseteq>\<^sub>m klive s'"
    unfolding map_le_def
  proof
    fix q assume "q \<in> dom (klive s1)"
    moreover have "klive s1 \<subseteq>\<^sub>m klive s" using assms(3) by (simp add: keeps_held_def)
    ultimately show "klive s1 q = klive s' q" using assms(10) T(3) by (auto simp: map_le_def)
  qed
  moreover have "klive s' p = Some 3" using T(3) ok(2) process_not_owned [OF pc] by simp
  moreover have "kavail s' = kavail s + (\<Sum>q\<in>process_owned p s. the (klive s q))" by (rule kavail_released [OF ok(1) T(2,6,3) live])
  ultimately show ?thesis using T by (intro exI [of _ s']) simp
qed

section \<open>Properties\<close>

text \<open>C18: what a program costs that has come and gone. When a valid program of the boot disk is loaded next to running ones and ends,
  its image, stack, task and address space are given back, the list of tasks and the table of processes are as they were, and
  no other allocation is gone. But the heap is smaller by four blocks, and by two more for every directory entry of the program's name:
  the structure of the process, the parsed path and the directory items found on the way are never released.\<close>

theorem program_run_leaks:
  fixes s :: "('d, 'a) process_state_scheme"
  assumes "ata_contract bus ata img" "boot_ready ata bus ops s" "fat_volume img spc rs e n" "n \<le> e"
    "root_entries img rs (used_entries img (rs * 512) n) = es" "program_file es q spc (rs + dir_sectors e) c sz"
    "held_string s filename (path_string 0x30 q)" "q \<noteq> []" "slash \<notin> set q" "length q \<le> 105"
    "\<forall>x. in_range (stat_local s) 8 x \<longrightarrow> held s x \<and> (\<forall>t \<in> set ts. \<not> in_range t 4096 x)"
    "first_free (file_descriptors s) 0 = Some i" "i < 511" "disk_bytes img (cluster_pos spc (rs + dir_sectors e) c) sz = bytes"
    "elf_validate_loaded (image_mem bytes) 0 = ALPHAOS_ALL_OK" "mappable bytes"
    "(heap_blocks (kernel_heap s) - kavail s + blocks_of (of_nat sz) + 2 * length (named q es) + 15) * (blocks_of (of_nat sz) + 4)
       \<le> heap_blocks (kernel_heap s)" "blocks_of (of_nat sz) + 2 * length (named q es) + 1041 \<le> kavail s"
    "tasks_inv s ts" "first_free (processes s) 0 = Some k" "length (processes s) = 12"
    "ts \<noteq> []" "first_process (processes s) = Some r" "kernel_heap s = kernel_heap boot_state" "kmem s 0x6E00 AND 0x80 = 0"
    "\<not> in_range (stat_local s) 8 0x6E00"
  shows "\<exists>s1 p s2 s3. disk_search_and_init ops s = Some s1 \<and> process_load ops filename out s1 = Some (0, p, s2)
    \<and> process_terminate p s2 = Some (0, s3) \<and> kheap_ok s3 \<and> task_list s3 ts \<and> processes s3 = processes s
    \<and> klive s1 \<subseteq>\<^sub>m klive s3 \<and> (\<forall>q \<in> process_owned p s2. klive s3 q = None)
    \<and> klive s1 p = None \<and> klive s3 p = Some 3 \<and> kavail s1 = kavail s3 + 4 + 2 * length (named q es)"
proof -
  obtain s1 p t s2 where L: "disk_search_and_init ops s = Some s1" "kheap_ok s1" "grows s s1" "kavail s = kavail s1 + 5" "tasks_inv s1 ts"
      "kernel_stack s1 = kernel_stack s" "process_load ops filename out s1 = Some (0, p, s2)" "klive s1 p = None" "launched p bytes s2"
      "tasks_inv s2 (ts @ [t])" "get_field p process_task s2 = t" "processes s2 = (processes s)[k := p]"
      "process_whole p s2" "process_id (kmem s2) p = of_nat k" "keeps_held s1 ts s2" "\<forall>q \<in> process_owned p s2. klive s1 q = None"
      "(\<Sum>q\<in>process_owned p s2. the (klive s2 q)) = blocks_of (of_nat sz) + 1032"
      "kavail s1 = kavail s2 + blocks_of (of_nat sz) + 2 * length (named q es) + 1036"
    using boot_launch_law [OF assms(1-21), of out] by blast
  have h1: "kernel_heap s1 = kernel_heap boot_state" using growsD(1) [OF L(3)] assms(24) by simp
  have "held s 0x6E00" using boot_layout(1,2) [OF assms(24)] by (simp add: held_def)
  then have m1: "kmem s1 0x6E00 AND 0x80 = 0" using growsD(3) [OF L(3)] assms(25) by simp
  have st: "\<not> in_range (stat_local s1) 8 0x6E00" using assms(26) L(6) by (simp add: stat_local_def)
  have free: "k < 12" "processes s ! k = NULL" using assms(20,21) by (simp_all add: first_free_Some)
  have t: "tasks_inv s2 (ts @ [get_field p process_task s2])" using L(10,11) by simp
  obtain s3 where "process_terminate p s2 = Some (0, s3)" "kheap_ok s3" "task_list s3 ts" "processes s3 = processes s" "klive s1 \<subseteq>\<^sub>m klive s3"
      "klive s3 p = Some 3" "\<forall>q \<in> process_owned p s2. klive s3 q = None"
      "kavail s3 = kavail s2 + (\<Sum>q\<in>process_owned p s2. the (klive s2 q))"
    using ended_process [OF L(9,13,15) h1 m1 st L(5) t assms(22) L(16,14) free(1) L(12) free(2) assms(23)] by blast
  then show ?thesis using L(1,7,8,17,18)
    by - (rule exI [of _ s1], rule exI [of _ p], rule exI [of _ s2], rule exI [of _ s3], simp)
qed

text \<open>The witness: one task and one process are there already, the kernel mounts the disk, loads the small program and ends it.\<close>

definition life_ready :: "addr \<Rightarrow> sim_drive process_state \<Rightarrow> bool" where
  "life_ready a s \<longleftrightarrow> boot_ready sim_ata (sim_bus tiny_disk) (\<lambda>_. fat16_ops (sim_bus tiny_disk)) s \<and> kavail s = 25599
     \<and> kernel_heap s = kernel_heap boot_state \<and> held_string s 0x100 (path_string 0x30 (ascii ''shell.elf''))
     \<and> (\<forall>x. in_range (stat_local s) 8 x \<longrightarrow> held s x \<and> (\<forall>t \<in> set [a]. \<not> in_range t 4096 x)) \<and> first_free (file_descriptors s) 0 = Some 0
     \<and> tasks_inv s [a] \<and> processes s = 0x5000 # replicate 11 0 \<and> kmem s 0x6E00 = 0 \<and> stat_local s = 0x6F8"

lemma life_state: "\<exists>a s. life_ready a s"
proof -
  obtain a s1 where z: "kzalloc 64 launch_demo = (a, s1)" by fastforce
  have ok: "kheap_ok launch_demo" using launch_demo(1) by (simp add: boot_ready_def)
  have k: "extends launch_demo s1" "kheap_ok s1" "klive launch_demo a = None" "klive s1 = (klive launch_demo)(a \<mapsto> 1)"
      "kavail launch_demo = Suc (kavail s1)" "a \<noteq> NULL" "\<And>x. in_range a 64 x \<Longrightarrow> kmem s1 x = 0"
    using kzalloc_page_extends [OF ok _ _ _ z] launch_demo(2) by simp_all
  obtain m where m: "s1 = launch_demo\<lparr>kmem := m\<rparr>" using k(1) by (auto simp only: extends_def)
  define s where "s = s1\<lparr>current_task := a, task_tail := a, task_head := a, processes := 0x5000 # replicate 11 0\<rparr>"
  have same: "kmem s = kmem s1" "kernel_heap s = kernel_heap s1" by (simp_all add: s_def)
  note h = same_heap [OF same]
  have f: "hw s = hw launch_demo" "disk_var s = disk_var launch_demo" "fat16_fs s = fat16_fs launch_demo" "filesystems s = filesystems launch_demo"
      "file_descriptors s = file_descriptors launch_demo" "stat_local s = stat_local launch_demo" "kernel_heap s = kernel_heap launch_demo"
    by (simp_all add: s_def m stat_local_def)
  have hd: "held s x = held s1 x" for x by (simp add: held_def in_pool_def in_table_def live_bytes_def h same)
  have br: "boot_ready sim_ata (sim_bus tiny_disk) (\<lambda>_. fat16_ops (sim_bus tiny_disk)) s"
    using launch_demo(1) k(2) by (simp add: boot_ready_def pool_low_def f h)
  have hp: "kernel_heap launch_demo = kernel_heap boot_state"
    by (simp add: launch_demo_def elf_state.defs load_demo_def file_state.defs boot_demo_def boot_state_def kheap_init_eq)
  have hs: "held_string s 0x100 (path_string 0x30 (ascii ''shell.elf''))"
    using held_string_extends [OF launch_demo(4) k(1)] by (simp add: held_string_def hd same)
  have st: "held s x \<and> (\<forall>t \<in> set [a]. \<not> in_range t 4096 x)" if x: "in_range (stat_local s) 8 x" for x
  proof -
    have x0: "held launch_demo x" using launch_demo(5) x f(6) by simp
    have "\<not> in_range a (1 * 4096) x"
      by (rule held_fresh [OF k(2) _ k(3) _ extends_heap [OF k(1)] x0]) (use k(1,4) in \<open>simp_all add: extends_def\<close>)
    then show ?thesis using extends_held [OF k(1) x0] hd by simp
  qed
  have "get_field a j s = 0" if "unat j < 16" for j
    unfolding get_field_def word_at_def same(1) by (rule load32_zero) (use k(7) field_slot [of a j _ 16] that in simp)
  then have "task_links s [a]" using k(6) by (simp add: task_links_def task_offsets)
  then have "tasks_inv s [a]" using k(2,4) by (simp add: tasks_inv_def task_list_def h) (simp add: s_def)
  moreover have "kmem s 0x6E00 = 0"
  proof -
    have "\<not> in_range 0x7E00 25600 (0x6E00 :: addr)" by (simp add: in_range_unat)
    then have "kmem boot_demo 0x6E00 = shell_path 0x6E00"
      using kheap_init_law [of "file_demo\<lparr>kmem := shell_path, fat16_fs := 0x5000, filesystems := 0x5000 # replicate 11 0,
        file_descriptors := replicate 512 0\<rparr>"] by (auto simp: boot_demo_def)
    moreover have "kmem launch_demo = kmem boot_demo" by (simp add: launch_demo_def elf_state.defs load_demo_def file_state.defs)
    moreover have "shell_path 0x6E00 = 0"
      by (simp add: shell_path_def write_bytes_apply in_range_def length_path_string ascii_def)
    moreover have "held launch_demo 0x6E00" using boot_layout(1,2) [OF hp] by (simp add: held_def)
    ultimately show ?thesis using extends_mem [OF k(1)] same(1) by simp
  qed
  moreover have "stat_local s = 0x6F8"
    by (simp add: f(6)) (simp add: stat_local_def launch_demo_def elf_state.defs load_demo_def file_state.defs)
  moreover have "kavail s = 25599" "kernel_heap s = kernel_heap boot_state" "first_free (file_descriptors s) 0 = Some 0"
      "processes s = 0x5000 # replicate 11 0"
    using k(5) launch_demo(2,6) f(5,7) h(7) hp by (simp_all, simp add: s_def)
  moreover note br hs
  moreover have "\<forall>x. in_range (stat_local s) 8 x \<longrightarrow> held s x \<and> (\<forall>t \<in> set [a]. \<not> in_range t 4096 x)" using st by (intro allI impI)
  ultimately have "life_ready a s" unfolding life_ready_def by - (intro conjI; assumption)
  then show ?thesis by blast
qed

theorem program_run_leaks_witness:
  "\<exists>s :: sim_drive process_state. \<exists>s1 p s2 s3. disk_search_and_init (\<lambda>_. fat16_ops (sim_bus tiny_disk)) s = Some s1
     \<and> process_load (\<lambda>_. fat16_ops (sim_bus tiny_disk)) 0x100 0 s1 = Some (0, p, s2) \<and> process_terminate p s2 = Some (0, s3)
     \<and> processes s3 = 0x5000 # replicate 11 0 \<and> kavail s1 = kavail s3 + 6"
proof -
  obtain a s where r: "life_ready a s" using life_state by blast
  note l = r [unfolded life_ready_def]
  have q: "ascii ''shell.elf'' \<noteq> []" "slash \<notin> set (ascii ''shell.elf'')" "length (ascii ''shell.elf'') \<le> 105"
    by (simp_all add: ascii_def of_char_def)
  have d: "712 + dir_sectors 64 = 716" "cluster_pos 128 716 2 = 366592" by (simp_all add: dir_sectors_def cluster_pos_def)
  have b: "blocks_of 84 = 1" by (simp add: blocks_of_eq)
  have "kernel_heap s = kernel_heap boot_state" "kavail s = 25599" using l by simp_all
  then have hb: "heap_blocks (kernel_heap s) = 25600" "kavail s = 25599" by (simp_all add: boot_state_def kheap_init_eq heap_blocks_def)
  have pf: "program_file [tiny_entry] (ascii ''shell.elf'') 128 (712 + dir_sectors 64) 2 84"
    "disk_bytes tiny_disk (cluster_pos 128 (712 + dir_sectors 64) 2) 84 = tiny_elf"
    using tiny_program(1) tiny_disk(3) by (simp_all add: d)
  have room: "(heap_blocks (kernel_heap s) - kavail s + blocks_of (of_nat 84) + 2 * length (named (ascii ''shell.elf'') [tiny_entry]) + 15)
      * (blocks_of (of_nat 84) + 4) \<le> heap_blocks (kernel_heap s)"
    "blocks_of (of_nat 84) + 2 * length (named (ascii ''shell.elf'') [tiny_entry]) + 1041 \<le> kavail s"
    by (simp_all add: hb tiny_program(2) b)
  have pr: "processes s = 0x5000 # replicate 11 0" "kmem s 0x6E00 = 0" "stat_local s = 0x6F8" using l by simp_all
  have ps: "first_free (processes s) 0 = Some 1" "length (processes s) = 12" "first_process (processes s) = Some 0x5000"
    unfolding pr(1) by (simp_all add: first_free_Some)
  have low: "kmem s 0x6E00 AND 0x80 = 0" "\<not> in_range (stat_local s) 8 0x6E00" unfolding pr(2,3) by (simp_all add: in_range_def)
  have s: "boot_ready sim_ata (sim_bus tiny_disk) (\<lambda>_. fat16_ops (sim_bus tiny_disk)) s" "kernel_heap s = kernel_heap boot_state"
      "held_string s 0x100 (path_string 0x30 (ascii ''shell.elf''))" "first_free (file_descriptors s) 0 = Some 0" "tasks_inv s [a]"
      "\<forall>x. in_range (stat_local s) 8 x \<longrightarrow> held s x \<and> (\<forall>t \<in> set [a]. \<not> in_range t 4096 x)"
    using l by simp_all
  have n: "(1 :: nat) \<le> 64" "(0 :: nat) < 511" "[a] \<noteq> []" by simp_all
  obtain s1 p s2 s3 where "disk_search_and_init (\<lambda>_. fat16_ops (sim_bus tiny_disk)) s = Some s1"
      "process_load (\<lambda>_. fat16_ops (sim_bus tiny_disk)) 0x100 0 s1 = Some (0, p, s2)" "process_terminate p s2 = Some (0, s3)"
      "processes s3 = processes s" "kavail s1 = kavail s3 + 4 + 2 * length (named (ascii ''shell.elf'') [tiny_entry])"
    using program_run_leaks [OF sim_contract s(1) tiny_disk(1) n(1) tiny_disk(2) pf(1) s(3) q s(6,4) n(2) pf(2)
      tiny_elf(2) tiny_mappable(1) room s(5) ps(1,2) n(3) ps(3) s(2) low, of 0] by (elim exE conjE) (rule that, assumption+)
  then show ?thesis unfolding tiny_program(2) pr(1)
    by - (rule exI [of _ s], rule exI [of _ s1], rule exI [of _ p], rule exI [of _ s2], rule exI [of _ s3], simp)
qed

end
