(* ===== verification/Spec2Isabelle.thy ===== *)
theory Spec2Isabelle
  imports Kernel Programs Syscalls Life
begin

text \<open>
  A verification development for Alpha OS, a small i386 kernel in C (\<^verbatim>\<open>src/src/\<close>), and the library
  and programs it runs in user mode (\<^verbatim>\<open>src/programs/\<close>). The C files are
  modelled routine by routine; the properties, numbered C1, C2 and so on, stand in the theories of
  the components they are about.

  \<^bold>\<open>The program.\<close> \<open>kernel_main\<close> clears the screen, loads segment descriptors, creates
  the heap, registers the FAT16 driver and mounts the boot disk with it, fills the interrupt table, turns
  paging on, registers the system calls and the keyboard, loads the shell as the first process and
  resumes it in user mode. From then on kernel code runs only in interrupts: the clock switches tasks,
  the keyboard fills the buffer of the current process, a system call reads the caller's memory through its
  page directory and prints, allocates, starts or ends a program. Loading a program goes through the
  virtual file system, the path parser, the FAT16 driver, the disk stream and the disk; its image, stack and
  allocations come from the heap and are mapped into the address space of its task.

  \<^bold>\<open>Theories and code\<close>, in the order of their imports:
  \<^item> \<open>Prelude\<close>: words, C integers, address ranges, little-endian words in byte memory, local
    buffers, and the calculus \<open>always\<close> for what a state-passing routine never changes.
  \<^item> \<open>CString\<close>: \<^verbatim>\<open>memory/memory.c\<close>, \<^verbatim>\<open>string/string.c\<close>.
  \<^item> \<open>Heap\<close>: \<^verbatim>\<open>memory/heap/\<close>. The block table is bytes of memory; a finite
    automaton describes the tables the allocator keeps. The locale \<open>page_allocator\<close> is what the
    rest of the kernel uses of it. \<open>Alloc\<close> derives from it reasoning principles for clients: held bytes,
    \<open>extends\<close>, \<open>freed\<close>. \<open>Heaprun\<close>: the heap under sequences of calls that do not overrun the
    block table, against an abstract allocator.
  \<^item> \<open>Paging\<close>: \<^verbatim>\<open>memory/paging/paging.c\<close>; the locale \<open>address_space\<close>
    gives range mapping from the mapping of one page.
  \<^item> \<open>Terminal\<close>: the screen part of \<^verbatim>\<open>kernel.c\<close>. \<open>Gdt\<close>:
    \<^verbatim>\<open>gdt/gdt.c\<close>.
  \<^item> \<open>Disk\<close>: \<^verbatim>\<open>disk/disk.c\<close>, \<^verbatim>\<open>disk/streamer.c\<close>, over a bus of ports.
  \<^item> \<open>Pparser\<close>: \<^verbatim>\<open>fs/pparser.c\<close>. \<open>Fat16\<close>: \<^verbatim>\<open>fs/fat/fat16.c\<close>.
    \<open>Struct\<close>: fields of structures in memory.
    \<open>File\<close>: \<^verbatim>\<open>fs/file.c\<close> and \<open>disk_search_and_init\<close>; the locale
    \<open>filesystem_driver\<close> is what it needs of a driver, interpreted by the FAT16 functions.
  \<^item> \<open>Mount\<close>: what mounting the boot disk
    establishes. \<open>Open\<close>: finding, opening and reading a file of its root directory. \<open>Files\<close>: the same through
    the virtual file system, from \<open>disk_search_and_init\<close> to \<open>fread\<close>. \<open>Elf\<close>: \<^verbatim>\<open>loader/formats/\<close>;
    \<open>Load\<close>: \<open>elf_load\<close> of a program on the boot disk.
    \<open>Task\<close>: \<^verbatim>\<open>task/task.c\<close>; \<open>Usercopy\<close>: its \<open>copy_string_from_task\<close> at
    work. \<open>Process\<close>: \<^verbatim>\<open>task/process.c\<close>.
  \<^item> \<open>Idt\<close>: the tables of \<^verbatim>\<open>idt/idt.c\<close>. \<open>Keyboard\<close>:
    \<^verbatim>\<open>keyboard/\<close>; the locale \<open>fifo\<close> is the contract of a bounded queue, interpreted by the ring
    buffer. \<open>Isr80h\<close>: \<^verbatim>\<open>isr80h/\<close> and the dispatch of system calls;
    \<open>Syscalls\<close>: what a program sees of \<open>print\<close>; \<open>Exit\<close>: the end of a process;
    \<open>Launch\<close>: its beginning, from the boot disk to an address space with the program in it; \<open>Life\<close>: both together, and what they leave behind.
    \<open>Kernel\<close>: the interrupt handlers of \<^verbatim>\<open>idt/idt.c\<close> and \<open>kernel_main\<close>.
  \<^item> \<open>Stdlib\<close>, \<open>Alphaos\<close>: the library of user programs, \<^verbatim>\<open>src/programs/stdlib/src/\<close>, over the
    memory of a program. \<open>Programs\<close>: the entry point, \<^verbatim>\<open>shell/src/shell.c\<close> and
    \<^verbatim>\<open>blank/blank.c\<close>.

  \<^bold>\<open>State.\<close> One record grows with the components: byte memory \<open>kmem\<close> (an address is a
  32-bit word), the heap descriptor, the current page directory, the cursor, the disk and its streams, the
  state of the devices, the tables of filesystems and open files, the task pointers, the process table,
  the interrupt tables, the keyboards. Structures that code shares through pointers are words in
  \<open>kmem\<close> at the offsets the compiler gives them (\<open>get_field\<close>, \<open>set_field\<close>); disks, disk
  streams and keyboards, which are never copied as bytes, are typed stores indexed by address. \<open>int\<close> is
  \<open>int\<close> with \<open>s32\<close> where it can wrap, unsigned types are words. A routine whose array argument may
  be a local of its caller takes the memory it lives in; locals whose address goes to a file or task
  routine lie at \<open>kernel_stack\<close>.

  \<^bold>\<open>Results.\<close> Error codes are the negative numbers of \<^verbatim>\<open>status.h\<close>. The option
  value \<open>None\<close> means that control never comes back: an endless loop, a panic, or a fault. Loops that
  need a terminator in memory, a bit from a device or the end of a list are \<open>partial_function\<close>s and
  their properties state that they return; all other loops terminate by a measure or by structural
  recursion. Code that ends by resuming user code has the outcome \<open>Resume\<close> with the address of the
  registers it resumes.

  \<^bold>\<open>Parameters.\<close> The ports (\<open>bus\<close>; what the disk driver relies on is \<open>ata_contract\<close>, satisfied
  by the simulated drive \<open>sim_bus\<close>), the dispatch from the address of a mounted filesystem to its
  functions (\<open>ops\<close>; \<open>fat16_ops\<close> in this kernel), and the addresses of the assembly stubs
  (\<open>kernel_code\<close>). For user programs, what a system call does to their memory and to the world
  outside (\<open>syscalls\<close>, with the contracts \<open>console\<close> and \<open>user_heap\<close>). The processor's part (loading CR3, GDTR, IDTR and TR, \<open>iret\<close>) is an assignment to
  a field or the outcome \<open>Resume\<close>.

  \<^bold>\<open>What the lemmas show.\<close> Heap: every state reached without overrunning the block table is well formed and no block is lost, an allocation is the first
  fitting run and disjoint from all others, freeing is its inverse, and what happens without a fit. Paging:
  identity mapping of new spaces, exact effect of range mapping, restoration on release. Path parser: parse
  and release. Disk: a stream reads exactly the bytes of the disk. FAT16: mounting, names, directory totals,
  lookup, reads inside a cluster; through the virtual file system the bytes of a file reach the reader's buffer. Files: what \<open>fopen\<close> does with the descriptor table and the heap on every branch, and what \<open>fclose\<close> gives back. ELF: a program of the disk becomes an image in memory with its address range. Tasks:
  the list invariant, creation, round robin. Processes: allocation and release with their mappings,
  a start that shows the program the bytes of its file at its own addresses, and an end that gives back all they owned but their own structure; a program that came and went costs the heap six blocks or more. Interrupts: the table the processor reads, preemption, dispatch of system calls. Keyboard: the ring
  buffer refines a queue while it is neither pushed full nor erased empty, what happens beyond, and a typed key reaches the program that asks for it. System
  calls: a string of a program reaches the kernel and the screen without a trace elsewhere. User programs: numbers as text
  and back, formatted output, words of a text, line input as a line editor, commands as lists of words, complete unless an
  allocation of that run is refused, and a turn of the shell from the keys typed to the command handed to the kernel.

  \<^bold>\<open>Behaviour that is not what the code intends\<close> is stated as such: trailing runs that overrun
  the block table (\<open>heap_malloc_overruns_table\<close>), wrapping sizes, \<open>kfree\<close> of NULL, the lost
  descriptor 512 and descriptors that were not allocated (\<open>fopen_installs_descriptor\<close>), files hidden behind deleted entries (\<open>boot_file_hidden\<close>), the position of FAT entries, names of eight characters, stale \<open>prev\<close> links,
  \<open>process_free\<close> unmapping later allocations, and \<open>elf_load\<close> reporting success on every path.
  \<open>process_map_elf\<close> maps the program headers by their size in memory, beyond the end of the image when that is larger: \<open>boot_process_load\<close>
  is about the bytes of the file only.

  \<^bold>\<open>Not modelled.\<close> The assembly (boot sector, entry stubs, port instructions, segment
  registers, system call stubs) and the messages \<open>kheap_init\<close> prints on a failure that cannot happen. The string
  and memory routines of the user library are copies of the kernel's and share their definitions. Reads that leave
  the first cluster of a file are modelled, without properties: the position of FAT entries is wrong there.
\<close>

end
